(* ===== verification/Steel_Prelude.thy ===== *)
theory Steel_Prelude
  imports Main "HOL-Library.Word" "HOL-Library.Multiset" "HOL-Library.Product_Lexorder"
begin

text \<open>
  Shared vocabulary of the development: the signed machine integers of the Rust sources as
  HOL integers with the two's-complement wrap-around written out, \<open>std::cmp::Ordering\<close> with
  the combinators the sources use on it, and the generic list facts the components share.
\<close>

unbundle bit_operations_syntax

named_theorems machine_int
named_theorems ordering_simps

section \<open>Signed machine integers\<close>

text \<open>
  An \<open>i32\<close> or \<open>i64\<close> of the source is an \<open>int\<close>. Operations that can leave the range are
  written with \<open>wrap_i32\<close> or \<open>wrap_i64\<close>, the value that \<open>wrapping_add\<close>, \<open>wrapping_sub\<close>, an
  \<open>as\<close> cast to the type, or plain arithmetic in the release profile produces.
\<close>

definition wrap_i32 :: "int \<Rightarrow> int" where
  "wrap_i32 x = signed_take_bit 31 x"

definition wrap_i64 :: "int \<Rightarrow> int" where
  "wrap_i64 x = signed_take_bit 63 x"

definition i32_ok :: "int \<Rightarrow> bool" where
  "i32_ok x \<longleftrightarrow> - 2147483648 \<le> x \<and> x < 2147483648"

definition i64_ok :: "int \<Rightarrow> bool" where
  "i64_ok x \<longleftrightarrow> - 9223372036854775808 \<le> x \<and> x < 9223372036854775808"

lemma wrap_i32_id [machine_int]: "i32_ok x \<Longrightarrow> wrap_i32 x = x"
  by (simp add: wrap_i32_def i32_ok_def signed_take_bit_int_eq_self_iff)

lemma wrap_i64_id [machine_int]: "i64_ok x \<Longrightarrow> wrap_i64 x = x"
  by (simp add: wrap_i64_def i64_ok_def signed_take_bit_int_eq_self_iff)

lemma i32_ok_wrap [simp]: "i32_ok (wrap_i32 x)"
  using signed_take_bit_int_less_exp [of 31 x] signed_take_bit_int_greater_eq_minus_exp [of 31 x]
  by (simp add: wrap_i32_def i32_ok_def)

lemma i64_ok_wrap [simp]: "i64_ok (wrap_i64 x)"
  using signed_take_bit_int_less_exp [of 63 x] signed_take_bit_int_greater_eq_minus_exp [of 63 x]
  by (simp add: wrap_i64_def i64_ok_def)

lemma i32_imp_i64: "i32_ok x \<Longrightarrow> i64_ok x"
  by (simp add: i32_ok_def i64_ok_def)

text \<open>The wrapped value is the representative modulo the width of the type.\<close>

lemma wrap_i64_mod: "wrap_i64 x = (x + 2 ^ 63) mod 2 ^ 64 - 2 ^ 63"
  by (simp add: wrap_i64_def signed_take_bit_eq_take_bit_shift take_bit_eq_mod)

lemma wrap_i32_mod: "wrap_i32 x = (x + 2 ^ 31) mod 2 ^ 32 - 2 ^ 31"
  by (simp add: wrap_i32_def signed_take_bit_eq_take_bit_shift take_bit_eq_mod)

lemma wrap_i64_add_left [simp]: "wrap_i64 (wrap_i64 x + y) = wrap_i64 (x + y)"
  using signed_take_bit_add [of 63 "signed_take_bit 63 x" y] signed_take_bit_add [of 63 x y]
  by (simp add: wrap_i64_def)

section \<open>Orderings\<close>

datatype ordering = Less | Equal | Greater

fun then_with :: "ordering \<Rightarrow> ordering \<Rightarrow> ordering" where
  "then_with Less _ = Less"
| "then_with Equal r = r"
| "then_with Greater _ = Greater"

fun reverse_ord :: "ordering \<Rightarrow> ordering" where
  "reverse_ord Less = Greater"
| "reverse_ord Equal = Equal"
| "reverse_ord Greater = Less"

definition cmp_of :: "'a::linorder \<Rightarrow> 'a \<Rightarrow> ordering" where
  "cmp_of x y = (if x < y then Less else if x = y then Equal else Greater)"

lemma reverse_reverse [simp]: "reverse_ord (reverse_ord r) = r"
  by (cases r) auto

lemma reverse_eq_iff [simp]:
  "reverse_ord r = Less \<longleftrightarrow> r = Greater"
  "reverse_ord r = Equal \<longleftrightarrow> r = Equal"
  "reverse_ord r = Greater \<longleftrightarrow> r = Less"
  by (cases r; simp)+

lemma cmp_of_eq [ordering_simps]:
  "cmp_of x y = Less \<longleftrightarrow> x < y"
  "cmp_of x y = Equal \<longleftrightarrow> x = y"
  "cmp_of x y = Greater \<longleftrightarrow> y < x"
  by (auto simp: cmp_of_def)

lemma cmp_of_swap: "reverse_ord (cmp_of x y) = cmp_of y x"
  by (auto simp: cmp_of_def)

text \<open>A chain of comparisons joined by \<open>then_with\<close> is the lexicographic comparison of pairs.\<close>

lemma then_with_pair: "then_with (cmp_of a b) (cmp_of c d) = cmp_of (a, c) (b, d)"
  by (auto simp: cmp_of_def less_prod_def)

lemma reverse_then_with: "reverse_ord (then_with r s) = then_with (reverse_ord r) (reverse_ord s)"
  by (cases r) auto

lemma then_with_eq_Equal [simp]: "then_with r s = Equal \<longleftrightarrow> r = Equal \<and> s = Equal"
  by (cases r) auto

section \<open>Lists\<close>

lemma sorted_lex_fst:
  fixes f :: "'a \<Rightarrow> 'b::linorder" and g :: "'a \<Rightarrow> 'c::linorder"
  shows "sorted (map (\<lambda>x. (f x, g x)) xs) \<Longrightarrow> sorted (map f xs)"
  by (induction xs) (auto simp: less_eq_prod_def)

lemma takeWhile_eq_filter_sorted:
  fixes f :: "'a \<Rightarrow> 'b::linorder"
  assumes "sorted (map f xs)" and "\<And>x y. f x \<le> f y \<Longrightarrow> P y \<Longrightarrow> P x"
  shows "takeWhile P xs = filter P xs"
  using assms(1)
proof (induction xs)
  case Nil
  then show ?case by simp
next
  case (Cons x xs)
  have "filter P xs = []" if "\<not> P x"
    using that Cons.prems assms(2) by (fastforce simp: filter_empty_conv)
  with Cons show ?case by simp
qed

text \<open>Two lists with the same elements, both in the order of an injective key, are equal.\<close>

lemma sorted_key_unique:
  assumes "sorted (map f xs)" and "sorted (map f ys)"
    and "mset xs = mset ys" and "inj_on f (set xs)"
  shows "xs = ys"
proof -
  from assms(3) have "set xs = set ys" by (metis set_mset_mset)
  have "map f xs = map f ys"
    using assms(1-3) by (metis mset_map properties_for_sort sorted_sort_id)
  with assms(4) \<open>set xs = set ys\<close> show ?thesis
    by (metis inj_on_map_eq_map sup.idem)
qed

end
