(* ===== verification/Std_Collections.thy ===== *)
theory Std_Collections
  imports Steel_Prelude
begin

text \<open>
  Containers of the standard library of Rust.
  \<^item> \<open>BinaryHeap\<close>: kept as a list with a greatest element first, so that \<open>peek\<close> and \<open>pop\<close>
    read the front. The position of an element inside the real heap array is observable
    through \<open>iter\<close> only; the sources sort what they take from \<open>iter\<close>.
  \<^item> \<open>BTreeSet\<close>: kept as its strictly increasing enumeration.
  \<^item> \<open>Vec\<close>: a list; \<open>swap_remove\<close> fills the gap with the last element.
  The contract that \<open>BinaryHeap\<close> asks of its element type, the laws of \<open>Ord\<close>, is the locale
  \<open>rust_ord\<close>; what the heap then promises is proved inside it, once for every element type.
\<close>

section \<open>The contract of Ord and the heap that relies on it\<close>

fun heap_push :: "('a \<Rightarrow> 'a \<Rightarrow> ordering) \<Rightarrow> 'a \<Rightarrow> 'a list \<Rightarrow> 'a list" where
  "heap_push c x [] = [x]"
| "heap_push c x (y # ys) = (if c x y = Greater then x # y # ys else y # heap_push c x ys)"

definition heap_peek :: "'a list \<Rightarrow> 'a option" where
  "heap_peek h = (case h of [] \<Rightarrow> None | x # _ \<Rightarrow> Some x)"

definition heap_pop :: "'a list \<Rightarrow> ('a \<times> 'a list) option" where
  "heap_pop h = (case h of [] \<Rightarrow> None | x # xs \<Rightarrow> Some (x, xs))"

definition heap_ordered :: "('a \<Rightarrow> 'a \<Rightarrow> ordering) \<Rightarrow> 'a list \<Rightarrow> bool" where
  "heap_ordered c h \<longleftrightarrow> sorted_wrt (\<lambda>x y. c x y \<noteq> Less) h"

lemma heap_peek_simps [simp]: "heap_peek [] = None" "heap_peek (x # xs) = Some x"
  by (simp_all add: heap_peek_def)

lemma heap_pop_simps [simp]: "heap_pop [] = None" "heap_pop (x # xs) = Some (x, xs)"
  by (simp_all add: heap_pop_def)

lemma heap_ordered_simps [simp]:
  "heap_ordered c []"
  "heap_ordered c (x # xs) \<longleftrightarrow> (\<forall>y \<in> set xs. c x y \<noteq> Less) \<and> heap_ordered c xs"
  by (simp_all add: heap_ordered_def)

lemma mset_heap_push [simp]: "mset (heap_push c x h) = add_mset x (mset h)"
  by (induction h) auto

lemma set_heap_push [simp]: "set (heap_push c x h) = insert x (set h)"
  by (metis mset_heap_push set_mset_add_mset_insert set_mset_mset)

lemma length_heap_push [simp]: "length (heap_push c x h) = Suc (length h)"
  by (induction h) auto

locale rust_ord =
  fixes cmp :: "'a \<Rightarrow> 'a \<Rightarrow> ordering"
  assumes cmp_refl: "cmp x x = Equal"
    and cmp_swap: "cmp y x = reverse_ord (cmp x y)"
    and cmp_trans: "cmp x y \<noteq> Less \<Longrightarrow> cmp y z \<noteq> Less \<Longrightarrow> cmp x z \<noteq> Less"
begin

lemma push_ordered: "heap_ordered cmp h \<Longrightarrow> heap_ordered cmp (heap_push cmp x h)"
proof (induction h)
  case Nil
  then show ?case by simp
next
  case (Cons y ys)
  show ?case
  proof (cases "cmp x y = Greater")
    case True
    with Cons.prems have "cmp x z \<noteq> Less" if "z \<in> set ys" for z
      using that cmp_trans [of x y z] by simp
    with True Cons.prems show ?thesis by simp
  next
    case False
    then have "cmp y x \<noteq> Less" by (simp add: cmp_swap [of x y])
    with False Cons show ?thesis by simp
  qed
qed

lemma peek_greatest: "heap_ordered cmp h \<Longrightarrow> heap_peek h = Some x \<Longrightarrow> y \<in> set h \<Longrightarrow> cmp x y \<noteq> Less"
  by (cases h) (auto simp: cmp_refl)

lemma pop_ordered: "heap_ordered cmp h \<Longrightarrow> heap_pop h = Some (x, h') \<Longrightarrow> heap_ordered cmp h'"
  by (cases h) auto

end

text \<open>
  An \<open>Ord\<close> instance that reverses the comparison of a key, as every instance of the scheduler
  does: the heap then yields the smallest key first.
\<close>

locale reverse_keyed_ord =
  fixes cmp :: "'a \<Rightarrow> 'a \<Rightarrow> ordering" and key :: "'a \<Rightarrow> 'k::linorder"
  assumes cmp_key: "cmp x y = cmp_of (key y) (key x)"

sublocale reverse_keyed_ord \<subseteq> rust_ord cmp
  by unfold_locales (auto simp: cmp_key ordering_simps cmp_of_swap)

context reverse_keyed_ord
begin

lemma ordered_iff_sorted: "heap_ordered cmp h \<longleftrightarrow> sorted (map key h)"
  by (induction h) (auto simp: cmp_key ordering_simps not_less)

lemma peek_least: "heap_ordered cmp h \<Longrightarrow> heap_peek h = Some x \<Longrightarrow> y \<in> set h \<Longrightarrow> key x \<le> key y"
  using peek_greatest [of h x y] by (simp add: cmp_key ordering_simps not_less)

end

section \<open>BTreeSet\<close>

definition bts_ok :: "'a::linorder list \<Rightarrow> bool" where
  "bts_ok s \<longleftrightarrow> sorted s \<and> distinct s"

definition bts_insert :: "'a::linorder \<Rightarrow> 'a list \<Rightarrow> bool \<times> 'a list" where
  "bts_insert x s = (if x \<in> set s then (False, s) else (True, insort x s))"

definition bts_remove :: "'a::linorder \<Rightarrow> 'a list \<Rightarrow> bool \<times> 'a list" where
  "bts_remove x s = (x \<in> set s, remove1 x s)"

lemma bts_ok_Nil [simp]: "bts_ok []"
  by (simp add: bts_ok_def)

lemma bts_ok_Cons [simp]: "bts_ok (x # s) \<longleftrightarrow> bts_ok s \<and> (\<forall>y \<in> set s. x < y)"
  by (auto simp: bts_ok_def order_less_le)

lemma bts_insert_ok: "bts_ok s \<Longrightarrow> bts_ok (snd (bts_insert x s))"
  by (simp add: bts_ok_def bts_insert_def sorted_insort distinct_insort)

lemma bts_insert_set: "set (snd (bts_insert x s)) = insert x (set s)"
  by (auto simp: bts_insert_def set_insort_key)

lemma bts_insert_fst: "fst (bts_insert x s) \<longleftrightarrow> x \<notin> set s"
  by (simp add: bts_insert_def)

lemma bts_remove_ok: "bts_ok s \<Longrightarrow> bts_ok (snd (bts_remove x s))"
  by (simp add: bts_ok_def bts_remove_def sorted_remove1)

lemma bts_remove_set: "bts_ok s \<Longrightarrow> set (snd (bts_remove x s)) = set s - {x}"
  by (auto simp: bts_ok_def bts_remove_def)

lemma bts_remove_fst: "fst (bts_remove x s) \<longleftrightarrow> x \<in> set s"
  by (simp add: bts_remove_def)

lemmas bts_simps = bts_insert_ok bts_insert_set bts_insert_fst
  bts_remove_ok bts_remove_set bts_remove_fst

section \<open>Vectors\<close>

definition swap_remove :: "nat \<Rightarrow> 'a list \<Rightarrow> 'a list" where
  "swap_remove i xs = butlast (xs[i := last xs])"

lemma length_swap_remove [simp]: "length (swap_remove i xs) = length xs - 1"
  by (simp add: swap_remove_def)

lemma swap_remove_parts:
  assumes "i < length xs"
  shows "take i (swap_remove i xs) = take i xs" "mset (drop i (swap_remove i xs)) = mset (drop (Suc i) xs)"
proof -
  show "take i (swap_remove i xs) = take i xs"
    using assms by (simp add: swap_remove_def take_butlast)
  show "mset (drop i (swap_remove i xs)) = mset (drop (Suc i) xs)"
  proof (cases "Suc i = length xs")
    case True
    then show ?thesis by (simp add: swap_remove_def butlast_conv_take)
  next
    case False
    with assms have ne: "drop (Suc i) xs \<noteq> []" by simp
    have "drop i (xs[i := last xs]) = last xs # drop (Suc i) xs"
      using assms by (simp add: drop_update_swap flip: Cons_nth_drop_Suc)
    then have "drop i (swap_remove i xs) = last xs # butlast (drop (Suc i) xs)"
      using ne by (simp add: swap_remove_def drop_butlast)
    moreover have "last xs = last (drop (Suc i) xs)" using ne by (simp add: last_drop)
    ultimately show ?thesis
      using ne by (metis append_butlast_last_id mset.simps(2) mset_append union_mset_add_mset_right add.right_neutral mset.simps(1))
  qed
qed

lemma swap_remove_mset:
  assumes "i < length xs"
  shows "mset xs = add_mset (xs ! i) (mset (swap_remove i xs))"
proof -
  have "mset (swap_remove i xs) = mset (take i xs) + mset (drop (Suc i) xs)"
    using swap_remove_parts [OF assms] by (metis append_take_drop_id mset_append)
  moreover have "xs = take i xs @ xs ! i # drop (Suc i) xs" using assms by (simp add: id_take_nth_drop [symmetric])
  then have "mset xs = mset (take i xs) + add_mset (xs ! i) (mset (drop (Suc i) xs))" by (metis mset.simps(2) mset_append)
  ultimately show ?thesis by simp
qed

end
