(* ===== verification/Positions.thy ===== *)
theory Positions
  imports Steel_Prelude
begin

text \<open>
  Block, chunk and section positions (\<open>steel-utils/src/types/position.rs\<close>), the six directions
  (\<open>steel-utils/src/direction.rs\<close>) and the packed representations used on the wire, in chunk
  storage and as ordered keys (\<open>steel-utils/src/types/packed_position.rs\<close>).
  Coordinates are \<open>i32\<close> values, packed positions \<open>i64\<close> values, both as \<open>int\<close>.
\<close>

section \<open>Directions and positions\<close>

datatype axis = AxisX | AxisY | AxisZ

datatype direction = Down | Up | North | South | West | East

datatype block_pos = BlockPos (bp_x: int) (bp_y: int) (bp_z: int)

datatype chunk_pos = ChunkPos (cp_x: int) (cp_z: int)

datatype section_pos = SectionPos (sp_x: int) (sp_y: int) (sp_z: int)

fun block_pos_ok :: "block_pos \<Rightarrow> bool" where
  "block_pos_ok (BlockPos x y z) \<longleftrightarrow> i32_ok x \<and> i32_ok y \<and> i32_ok z"

fun chunk_pos_ok :: "chunk_pos \<Rightarrow> bool" where
  "chunk_pos_ok (ChunkPos x z) \<longleftrightarrow> i32_ok x \<and> i32_ok z"

fun get_3d_data_value :: "direction \<Rightarrow> int" where
  "get_3d_data_value Down = 0"
| "get_3d_data_value Up = 1"
| "get_3d_data_value North = 2"
| "get_3d_data_value South = 3"
| "get_3d_data_value West = 4"
| "get_3d_data_value East = 5"

definition direction_all :: "direction list" where
  "direction_all = [Down, Up, North, South, West, East]"

text \<open>Rust's \<open>%\<close> truncates towards zero, so the remainder has the sign of the dividend.\<close>

definition rust_rem :: "int \<Rightarrow> int \<Rightarrow> int" where
  "rust_rem a b = sgn a * (\<bar>a\<bar> mod \<bar>b\<bar>)"

definition from_3d_data_value :: "int \<Rightarrow> direction" where
  "from_3d_data_value data =
     (let rem = rust_rem data 6;
          idx = (if rem < 0 then nat (- rem) else nat rem)
      in direction_all ! idx)"

fun dir_offset :: "direction \<Rightarrow> int \<times> int \<times> int" where
  "dir_offset Down = (0, -1, 0)"
| "dir_offset Up = (0, 1, 0)"
| "dir_offset North = (0, 0, -1)"
| "dir_offset South = (0, 0, 1)"
| "dir_offset West = (-1, 0, 0)"
| "dir_offset East = (1, 0, 0)"

fun get_axis :: "direction \<Rightarrow> axis" where
  "get_axis Down = AxisY"
| "get_axis Up = AxisY"
| "get_axis North = AxisZ"
| "get_axis South = AxisZ"
| "get_axis West = AxisX"
| "get_axis East = AxisX"

fun opposite :: "direction \<Rightarrow> direction" where
  "opposite Down = Up"
| "opposite Up = Down"
| "opposite North = South"
| "opposite South = North"
| "opposite West = East"
| "opposite East = West"

fun rotate_y_clockwise :: "direction \<Rightarrow> direction" where
  "rotate_y_clockwise North = East"
| "rotate_y_clockwise East = South"
| "rotate_y_clockwise South = West"
| "rotate_y_clockwise West = North"
| "rotate_y_clockwise other = other"

fun rotate_y_counter_clockwise :: "direction \<Rightarrow> direction" where
  "rotate_y_counter_clockwise North = West"
| "rotate_y_counter_clockwise West = South"
| "rotate_y_counter_clockwise South = East"
| "rotate_y_counter_clockwise East = North"
| "rotate_y_counter_clockwise other = other"

definition make_direction_array :: "direction \<Rightarrow> direction \<Rightarrow> direction \<Rightarrow> direction list" where
  "make_direction_array axis1 axis2 axis3 =
     [axis1, axis2, axis3, opposite axis3, opposite axis2, opposite axis1]"

fun bp_offset :: "block_pos \<Rightarrow> int \<Rightarrow> int \<Rightarrow> int \<Rightarrow> block_pos" where
  "bp_offset (BlockPos x y z) dx dy dz =
     BlockPos (wrap_i32 (x + dx)) (wrap_i32 (y + dy)) (wrap_i32 (z + dz))"

definition bp_relative :: "block_pos \<Rightarrow> direction \<Rightarrow> block_pos" where
  "bp_relative p d = (case dir_offset d of (dx, dy, dz) \<Rightarrow> bp_offset p dx dy dz)"

section \<open>Section coordinates\<close>

definition block_to_section_coord :: "int \<Rightarrow> int" where
  "block_to_section_coord c = drop_bit 4 c"

fun chunk_of_block :: "block_pos \<Rightarrow> chunk_pos" where
  "chunk_of_block (BlockPos x y z) =
     ChunkPos (block_to_section_coord x) (block_to_section_coord z)"

fun section_of_block :: "block_pos \<Rightarrow> section_pos" where
  "section_of_block (BlockPos x y z) =
     SectionPos (block_to_section_coord x) (block_to_section_coord y) (block_to_section_coord z)"

text \<open>\<open>PackedSectionBlockPos\<close>: three 4-bit coordinates in a \<open>u16\<close>, laid out x, z, y.\<close>

definition section_local_unchecked :: "int \<Rightarrow> int \<Rightarrow> int \<Rightarrow> int" where
  "section_local_unchecked x y z =
     (take_bit 16 (push_bit 8 x) OR take_bit 16 (push_bit 4 z)) OR y"

fun section_relative_pos :: "block_pos \<Rightarrow> int" where
  "section_relative_pos (BlockPos x y z) =
     section_local_unchecked (x AND 15) (y AND 15) (z AND 15)"

definition section_local_from_xyz :: "int \<Rightarrow> int \<Rightarrow> int \<Rightarrow> int option" where
  "section_local_from_xyz x y z =
     (if x < 16 \<and> y < 16 \<and> z < 16 then Some (section_local_unchecked x y z) else None)"

definition section_local_from_raw :: "int \<Rightarrow> int option" where
  "section_local_from_raw raw = (if raw AND take_bit 16 (NOT 0xFFF) = 0 then Some raw else None)"

definition section_local_x :: "int \<Rightarrow> int" where
  "section_local_x p = drop_bit 8 p AND 15"

definition section_local_y :: "int \<Rightarrow> int" where
  "section_local_y p = p AND 15"

definition section_local_z :: "int \<Rightarrow> int" where
  "section_local_z p = drop_bit 4 p AND 15"

fun relative_to_block_pos :: "section_pos \<Rightarrow> int \<Rightarrow> block_pos" where
  "relative_to_block_pos (SectionPos x y z) r =
     BlockPos (wrap_i32 (wrap_i32 (push_bit 4 x) + section_local_x r))
              (wrap_i32 (wrap_i32 (push_bit 4 y) + section_local_y r))
              (wrap_i32 (wrap_i32 (push_bit 4 z) + section_local_z r))"

section \<open>Packed positions\<close>

fun packed_chunk_of :: "chunk_pos \<Rightarrow> int" where
  "packed_chunk_of (ChunkPos x z) =
     (x AND 0xFFFFFFFF) OR wrap_i64 (push_bit 32 (z AND 0xFFFFFFFF))"

definition packed_to_chunk_pos :: "int \<Rightarrow> chunk_pos" where
  "packed_to_chunk_pos p = ChunkPos (wrap_i32 (p AND 0xFFFFFFFF)) (wrap_i32 (drop_bit 32 p))"

definition pb_xz_mask :: int where
  "pb_xz_mask = push_bit 26 1 - 1"

definition pb_y_mask :: int where
  "pb_y_mask = push_bit 12 1 - 1"

fun packed_block_of :: "block_pos \<Rightarrow> int" where
  "packed_block_of (BlockPos x y z) =
     (wrap_i64 (push_bit 38 (x AND pb_xz_mask)) OR wrap_i64 (push_bit 12 (z AND pb_xz_mask)))
       OR (y AND pb_y_mask)"

definition packed_to_block_pos :: "int \<Rightarrow> block_pos" where
  "packed_to_block_pos p =
     (let x = drop_bit 38 p;
          y = p AND pb_y_mask;
          z = drop_bit 12 p AND pb_xz_mask;
          x = drop_bit 38 (wrap_i64 (push_bit 38 x));
          y = drop_bit 52 (wrap_i64 (push_bit 52 y));
          z = drop_bit 38 (wrap_i64 (push_bit 38 z))
      in BlockPos (wrap_i32 x) (wrap_i32 y) (wrap_i32 z))"

definition ps_xz_mask :: int where
  "ps_xz_mask = push_bit 22 1 - 1"

definition ps_y_mask :: int where
  "ps_y_mask = push_bit 20 1 - 1"

fun packed_section_of :: "section_pos \<Rightarrow> int" where
  "packed_section_of (SectionPos x y z) =
     (wrap_i64 (push_bit 42 (x AND ps_xz_mask)) OR wrap_i64 (push_bit 20 (z AND ps_xz_mask)))
       OR (y AND ps_y_mask)"

definition packed_to_section_pos :: "int \<Rightarrow> section_pos" where
  "packed_to_section_pos p =
     (let x = drop_bit 42 p;
          z = drop_bit 20 p AND ps_xz_mask;
          y = p AND ps_y_mask;
          x = drop_bit 42 (wrap_i64 (push_bit 42 x));
          y = drop_bit 44 (wrap_i64 (push_bit 44 y));
          z = drop_bit 42 (wrap_i64 (push_bit 42 z))
      in SectionPos (wrap_i32 x) (wrap_i32 y) (wrap_i32 z))"

section \<open>Bit-level facts\<close>

named_theorems pos_bits

lemma pos_masks [pos_bits]:
  "(x::int) AND 0xFFFFFFFF = take_bit 32 x" "x AND pb_xz_mask = take_bit 26 x"
  "x AND pb_y_mask = take_bit 12 x" "x AND ps_xz_mask = take_bit 22 x"
  "x AND ps_y_mask = take_bit 20 x" "x AND 15 = take_bit 4 x"
  by (simp_all add: take_bit_eq_mask mask_eq_exp_minus_1 pb_xz_mask_def pb_y_mask_def
        ps_xz_mask_def ps_y_mask_def)

lemma wrap_bits [pos_bits]:
  "bit (wrap_i32 x) n \<longleftrightarrow> bit x (min 31 n)"
  "bit (wrap_i64 x) n \<longleftrightarrow> bit x (min 63 n)"
  by (simp_all add: wrap_i32_def wrap_i64_def bit_signed_take_bit_iff)

lemma int_in_range_bits:
  "signed_take_bit k x = x \<longleftrightarrow> - (2 ^ k) \<le> x \<and> x < (2 ^ k :: int)"
  by (rule signed_take_bit_int_eq_self_iff)

lemma sign_bits:
  fixes x :: int
  assumes "- (2 ^ k) \<le> x" "x < 2 ^ k" "k \<le> n"
  shows "bit x n \<longleftrightarrow> bit x k"
proof -
  have "bit (signed_take_bit k x) n \<longleftrightarrow> bit x (min k n)"
    by (simp add: bit_signed_take_bit_iff)
  moreover have "signed_take_bit k x = x"
    using assms by (simp add: signed_take_bit_int_eq_self_iff)
  ultimately show ?thesis using assms(3) by (simp add: min_absorb1)
qed

text \<open>A bit index lies in the lowest field, in the middle one, or above.\<close>

lemma bit_field_cases [case_names low middle high]:
  fixes n a b :: nat
  assumes "n < a \<Longrightarrow> P" "\<And>m. n = a + m \<Longrightarrow> m < b - a \<Longrightarrow> P" "\<And>m. n = b + m \<Longrightarrow> a \<le> n \<Longrightarrow> P" "a \<le> b"
  shows P
  using assms by (metis le_Suc_ex less_diff_conv2 nat_add_left_cancel_less le_add_diff_inverse linorder_not_le)

section \<open>Round trips\<close>

lemma chunk_pack_unpack:
  assumes "chunk_pos_ok p"
  shows "packed_to_chunk_pos (packed_chunk_of p) = p"
proof (cases p)
  case (ChunkPos x z)
  with assms have ok: "wrap_i32 x = x" "wrap_i32 z = z"
    by (simp_all add: machine_int)
  have "wrap_i32 (packed_chunk_of p AND 0xFFFFFFFF) = wrap_i32 x"
    unfolding ChunkPos by (rule bit_eqI) (auto simp: pos_bits bit_simps)
  moreover have "wrap_i32 (drop_bit 32 (packed_chunk_of p)) = wrap_i32 z"
    unfolding ChunkPos by (rule bit_eqI) (auto simp: pos_bits bit_simps)
  ultimately show ?thesis
    using ok ChunkPos by (simp add: packed_to_chunk_pos_def)
qed

lemma chunk_unpack_pack:
  assumes "i64_ok r"
  shows "packed_chunk_of (packed_to_chunk_pos r) = r"
proof -
  have "packed_chunk_of (packed_to_chunk_pos r) = wrap_i64 r"
  proof (rule bit_eqI)
    fix n
    show "bit (packed_chunk_of (packed_to_chunk_pos r)) n = bit (wrap_i64 r) n"
      by (rule bit_field_cases [where n = n and a = 32 and b = 64])
        (auto simp: packed_to_chunk_pos_def pos_bits bit_simps)
  qed
  with assms show ?thesis by (simp add: machine_int)
qed

lemma packed_chunk_inj:
  "chunk_pos_ok p \<Longrightarrow> chunk_pos_ok q \<Longrightarrow> packed_chunk_of p = packed_chunk_of q \<Longrightarrow> p = q"
  by (metis chunk_pack_unpack)

text \<open>The packed block position keeps 26, 12 and 26 bits of the three coordinates.\<close>

fun packable_block :: "block_pos \<Rightarrow> bool" where
  "packable_block (BlockPos x y z) \<longleftrightarrow>
     - (2 ^ 25) \<le> x \<and> x < 2 ^ 25 \<and> - (2 ^ 11) \<le> y \<and> y < 2 ^ 11 \<and> - (2 ^ 25) \<le> z \<and> z < 2 ^ 25"

fun packable_section :: "section_pos \<Rightarrow> bool" where
  "packable_section (SectionPos x y z) \<longleftrightarrow>
     - (2 ^ 21) \<le> x \<and> x < 2 ^ 21 \<and> - (2 ^ 19) \<le> y \<and> y < 2 ^ 19 \<and> - (2 ^ 21) \<le> z \<and> z < 2 ^ 21"

lemma block_pack_fields:
  "packed_to_block_pos (packed_block_of (BlockPos x y z)) =
     BlockPos (signed_take_bit 25 x) (signed_take_bit 11 y) (signed_take_bit 25 z)"
  unfolding packed_to_block_pos_def Let_def block_pos.inject
  by (intro conjI bit_eqI) (auto simp: pos_bits bit_simps min_def)

lemma section_pack_fields:
  "packed_to_section_pos (packed_section_of (SectionPos x y z)) =
     SectionPos (signed_take_bit 21 x) (signed_take_bit 19 y) (signed_take_bit 21 z)"
  unfolding packed_to_section_pos_def Let_def section_pos.inject
  by (intro conjI bit_eqI) (auto simp: pos_bits bit_simps min_def)

lemma block_pack_unpack: "packable_block p \<Longrightarrow> packed_to_block_pos (packed_block_of p) = p"
  by (cases p) (simp add: block_pack_fields int_in_range_bits del: packed_block_of.simps)

lemma section_pack_unpack: "packable_section p \<Longrightarrow> packed_to_section_pos (packed_section_of p) = p"
  by (cases p) (simp add: section_pack_fields int_in_range_bits del: packed_section_of.simps)

lemma block_unpack_pack:
  assumes "i64_ok r"
  shows "packed_block_of (packed_to_block_pos r) = r"
proof -
  have "packed_block_of (packed_to_block_pos r) = wrap_i64 r"
  proof (rule bit_eqI)
    fix n
    show "bit (packed_block_of (packed_to_block_pos r)) n = bit (wrap_i64 r) n"
      by (rule bit_field_cases [where n = n and a = 12 and b = 38])
        (auto simp: packed_to_block_pos_def Let_def pos_bits bit_simps)
  qed
  with assms show ?thesis by (simp add: machine_int)
qed

lemma section_unpack_pack:
  assumes "i64_ok r"
  shows "packed_section_of (packed_to_section_pos r) = r"
proof -
  have "packed_section_of (packed_to_section_pos r) = wrap_i64 r"
  proof (rule bit_eqI)
    fix n
    show "bit (packed_section_of (packed_to_section_pos r)) n = bit (wrap_i64 r) n"
      by (rule bit_field_cases [where n = n and a = 20 and b = 42])
        (auto simp: packed_to_section_pos_def Let_def pos_bits bit_simps)
  qed
  with assms show ?thesis by (simp add: machine_int)
qed

end
