(* ===== verification/Tick_List.thy ===== *)
theory Tick_List
  imports Std_Collections Positions
begin

text \<open>
  Per-chunk storage of scheduled ticks (\<open>steel-core/src/world/tick_scheduler/list.rs\<close> and the
  data types of \<open>tick_scheduler/mod.rs\<close>): a queue of live ticks with absolute deadlines, the
  saved ticks not yet anchored to game time, and the set of \<open>(position, type)\<close> keys that
  makes scheduling idempotent.

  The tick type is a reference to a static registry entry (\<open>BlockRef\<close> or \<open>FluidRef\<close>), and its
  key is the address of that entry; the model keeps the address. Sub-tick orders and deadlines
  are \<open>i64\<close> values, insertion orders \<open>u64\<close> values that wrap.
\<close>

section \<open>Data\<close>

datatype tick_priority =
  ExtremelyHigh | VeryHigh | High | Normal | Low | VeryLow | ExtremelyLow

fun priority_value :: "tick_priority \<Rightarrow> int" where
  "priority_value ExtremelyHigh = -3"
| "priority_value VeryHigh = -2"
| "priority_value High = -1"
| "priority_value Normal = 0"
| "priority_value Low = 1"
| "priority_value VeryLow = 2"
| "priority_value ExtremelyLow = 3"

lemma priority_value_inj: "priority_value p = priority_value q \<Longrightarrow> p = q"
  by (cases p; cases q) auto

text \<open>The derived \<open>Ord\<close> of the enum: declaration order, which is the discriminant order.\<close>

instantiation tick_priority :: linorder
begin

definition less_eq_tick_priority :: "tick_priority \<Rightarrow> tick_priority \<Rightarrow> bool" where
  "less_eq_tick_priority p q \<longleftrightarrow> priority_value p \<le> priority_value q"

definition less_tick_priority :: "tick_priority \<Rightarrow> tick_priority \<Rightarrow> bool" where
  "less_tick_priority p q \<longleftrightarrow> priority_value p < priority_value q"

instance
  by intro_classes
    (auto simp: less_eq_tick_priority_def less_tick_priority_def intro: priority_value_inj)

end

definition by_value :: "int \<Rightarrow> tick_priority" where
  "by_value v =
     (if v = -3 then ExtremelyHigh
      else if v = -2 then VeryHigh
      else if v = -1 then High
      else if v = 0 then Normal
      else if v = 1 then Low
      else if v = 2 then VeryLow
      else if v = 3 then ExtremelyLow
      else if v < priority_value ExtremelyHigh then ExtremelyHigh
      else ExtremelyLow)"

type_synonym tick_type = nat
type_synonym scheduled_tick_key = "block_pos \<times> nat"

definition tick_type_key :: "tick_type \<Rightarrow> nat" where
  "tick_type_key t = t"

record scheduled_tick =
  st_type :: tick_type
  st_pos :: block_pos
  st_trigger :: int
  st_priority :: tick_priority
  st_order :: int

record saved_tick =
  sv_type :: tick_type
  sv_pos :: block_pos
  sv_delay :: int
  sv_priority :: tick_priority

record queued_tick =
  qt_tick :: scheduled_tick
  qt_insertion :: nat

record tick_list =
  tl_pending :: "saved_tick list option"
  tl_ticks :: "queued_tick list"
  tl_scheduled :: "scheduled_tick_key set"
  tl_next :: nat

section \<open>Drain order\<close>

definition st_key :: "scheduled_tick \<Rightarrow> scheduled_tick_key" where
  "st_key t = (st_pos t, tick_type_key (st_type t))"

definition sv_key :: "saved_tick \<Rightarrow> scheduled_tick_key" where
  "sv_key t = (sv_pos t, tick_type_key (sv_type t))"

definition intra_tick_drain_order ::
    "tick_priority \<Rightarrow> int \<Rightarrow> tick_priority \<Rightarrow> int \<Rightarrow> ordering" where
  "intra_tick_drain_order lp lo rp ro = then_with (cmp_of lp rp) (cmp_of lo ro)"

definition drain_order :: "scheduled_tick \<Rightarrow> scheduled_tick \<Rightarrow> ordering" where
  "drain_order a b =
     then_with (cmp_of (st_trigger a) (st_trigger b))
       (intra_tick_drain_order (st_priority a) (st_order a) (st_priority b) (st_order b))"

definition queued_cmp :: "queued_tick \<Rightarrow> queued_tick \<Rightarrow> ordering" where
  "queued_cmp a b =
     then_with (reverse_ord (drain_order (qt_tick a) (qt_tick b)))
       (cmp_of (qt_insertion b) (qt_insertion a))"

definition drain_key :: "scheduled_tick \<Rightarrow> int \<times> tick_priority \<times> int" where
  "drain_key t = (st_trigger t, st_priority t, st_order t)"

definition queued_key :: "queued_tick \<Rightarrow> (int \<times> tick_priority \<times> int) \<times> nat" where
  "queued_key q = (drain_key (qt_tick q), qt_insertion q)"

section \<open>Operations\<close>

definition u64_next :: "nat \<Rightarrow> nat" where
  "u64_next n = (n + 1) mod 2 ^ 64"

definition tl_new :: tick_list where
  "tl_new = \<lparr>tl_pending = None, tl_ticks = [], tl_scheduled = {}, tl_next = 0\<rparr>"

definition tl_new_pending :: tick_list where
  "tl_new_pending = \<lparr>tl_pending = Some [], tl_ticks = [], tl_scheduled = {}, tl_next = 0\<rparr>"

definition from_saved_ticks :: "saved_tick list \<Rightarrow> tick_list" where
  "from_saved_ticks saved =
     tl_new_pending\<lparr>tl_scheduled := set (map sv_key saved), tl_pending := Some saved\<rparr>"

definition push_unchecked :: "scheduled_tick \<Rightarrow> tick_list \<Rightarrow> tick_list" where
  "push_unchecked t l =
     l\<lparr>tl_next := u64_next (tl_next l),
       tl_ticks := heap_push queued_cmp \<lparr>qt_tick = t, qt_insertion = tl_next l\<rparr> (tl_ticks l)\<rparr>"

definition tl_schedule :: "scheduled_tick \<Rightarrow> tick_list \<Rightarrow> bool \<times> tick_list" where
  "tl_schedule t l =
     (if st_key t \<in> tl_scheduled l then (False, l)
      else (True, push_unchecked t (l\<lparr>tl_scheduled := insert (st_key t) (tl_scheduled l)\<rparr>)))"

definition schedule_saved_pending :: "saved_tick \<Rightarrow> tick_list \<Rightarrow> bool \<times> tick_list" where
  "schedule_saved_pending s l =
     (if sv_key s \<in> tl_scheduled l then (False, l)
      else (True, l\<lparr>tl_scheduled := insert (sv_key s) (tl_scheduled l),
                    tl_pending := Some ((case tl_pending l of None \<Rightarrow> [] | Some ps \<Rightarrow> ps) @ [s])\<rparr>))"

definition schedule_pending ::
    "tick_type \<Rightarrow> block_pos \<Rightarrow> tick_priority \<Rightarrow> tick_list \<Rightarrow> bool \<times> tick_list" where
  "schedule_pending ty p pr l =
     schedule_saved_pending \<lparr>sv_type = ty, sv_pos = p, sv_delay = 0, sv_priority = pr\<rparr> l"

fun proto_load :: "saved_tick list \<Rightarrow> tick_list \<Rightarrow> tick_list" where
  "proto_load [] l = l"
| "proto_load (s # ss) l = proto_load ss (snd (schedule_saved_pending s l))"

definition from_proto_saved_ticks :: "saved_tick list \<Rightarrow> tick_list" where
  "from_proto_saved_ticks saved = proto_load saved tl_new_pending"

definition has_tick :: "block_pos \<Rightarrow> tick_type \<Rightarrow> tick_list \<Rightarrow> bool" where
  "has_tick p ty l \<longleftrightarrow> (p, tick_type_key ty) \<in> tl_scheduled l"

definition pending_entries :: "tick_list \<Rightarrow> saved_tick list" where
  "pending_entries l = (case tl_pending l of None \<Rightarrow> [] | Some ps \<Rightarrow> ps)"

fun retain_pending ::
    "(saved_tick \<Rightarrow> bool) \<Rightarrow> saved_tick list \<Rightarrow> scheduled_tick_key set
       \<Rightarrow> saved_tick list \<times> scheduled_tick_key set" where
  "retain_pending p [] ks = ([], ks)"
| "retain_pending p (s # ss) ks =
     (if \<not> p s then (case retain_pending p ss ks of (rs, ks') \<Rightarrow> (s # rs, ks'))
      else retain_pending p ss (ks - {sv_key s}))"

definition remove_pending_matching :: "(saved_tick \<Rightarrow> bool) \<Rightarrow> tick_list \<Rightarrow> nat \<times> tick_list" where
  "remove_pending_matching p l =
     (case tl_pending l of
        None \<Rightarrow> (0, l)
      | Some ps \<Rightarrow>
          (case retain_pending p ps (tl_scheduled l) of
             (rs, ks) \<Rightarrow> (length ps - length rs, l\<lparr>tl_pending := Some rs, tl_scheduled := ks\<rparr>)))"

text \<open>
  A packing snapshot holds the pending entries and the live ticks with their insertion orders;
  \<open>pack\<close> sorts the latter by sub-tick order, then insertion order, and stores relative delays.
\<close>

type_synonym packing_snapshot = "saved_tick list \<times> (scheduled_tick \<times> nat) list"

definition tl_packing_snapshot :: "tick_list \<Rightarrow> packing_snapshot" where
  "tl_packing_snapshot l =
     (pending_entries l, map (\<lambda>q. (qt_tick q, qt_insertion q)) (tl_ticks l))"

definition saved_of_live :: "int \<Rightarrow> scheduled_tick \<Rightarrow> saved_tick" where
  "saved_of_live now t =
     \<lparr>sv_type = st_type t, sv_pos = st_pos t,
      sv_delay = wrap_i32 (wrap_i64 (st_trigger t - now)), sv_priority = st_priority t\<rparr>"

definition snapshot_pack :: "packing_snapshot \<Rightarrow> int \<Rightarrow> saved_tick list" where
  "snapshot_pack snap now =
     (case snap of (pending, live) \<Rightarrow>
        pending @ map (\<lambda>(t, _). saved_of_live now t)
          (sort_key (\<lambda>(t, i). (st_order t, i)) live))"

definition tl_pack :: "tick_list \<Rightarrow> int \<Rightarrow> saved_tick list" where
  "tl_pack l now = snapshot_pack (tl_packing_snapshot l) now"

definition live_of_saved :: "int \<Rightarrow> int \<Rightarrow> saved_tick \<Rightarrow> scheduled_tick" where
  "live_of_saved now ord s =
     \<lparr>st_type = sv_type s, st_pos = sv_pos s, st_trigger = wrap_i64 (now + sv_delay s),
      st_priority = sv_priority s, st_order = ord\<rparr>"

fun unpack_from :: "int \<Rightarrow> int \<Rightarrow> saved_tick list \<Rightarrow> tick_list \<Rightarrow> tick_list" where
  "unpack_from now ord [] l = l"
| "unpack_from now ord (s # ss) l =
     unpack_from now (ord + 1) ss (push_unchecked (live_of_saved now ord s) l)"

definition tl_unpack :: "int \<Rightarrow> tick_list \<Rightarrow> tick_list" where
  "tl_unpack now l =
     (case tl_pending l of
        None \<Rightarrow> l
      | Some ps \<Rightarrow> unpack_from now (- int (length ps)) ps (l\<lparr>tl_pending := None\<rparr>))"

definition tl_len :: "tick_list \<Rightarrow> nat" where
  "tl_len l = length (tl_ticks l) + (case tl_pending l of None \<Rightarrow> 0 | Some ps \<Rightarrow> length ps)"

definition tl_peek :: "tick_list \<Rightarrow> scheduled_tick option" where
  "tl_peek l = map_option qt_tick (heap_peek (tl_ticks l))"

definition peek_ready :: "int \<Rightarrow> tick_list \<Rightarrow> scheduled_tick option" where
  "peek_ready now l =
     (case heap_peek (tl_ticks l) of
        None \<Rightarrow> None
      | Some q \<Rightarrow> if st_trigger (qt_tick q) \<le> now then Some (qt_tick q) else None)"

definition pop_ready :: "int \<Rightarrow> tick_list \<Rightarrow> (scheduled_tick \<times> tick_list) option" where
  "pop_ready now l =
     (case peek_ready now l of
        None \<Rightarrow> None
      | Some _ \<Rightarrow>
          (case heap_pop (tl_ticks l) of
             None \<Rightarrow> None
           | Some (q, h) \<Rightarrow>
               Some (qt_tick q,
                     l\<lparr>tl_ticks := h, tl_scheduled := tl_scheduled l - {st_key (qt_tick q)}\<rparr>)))"

lemma pop_ready_shrinks: "pop_ready now l = Some (t, l') \<Longrightarrow> length (tl_ticks l') < length (tl_ticks l)"
  by (cases "tl_ticks l") (auto simp: pop_ready_def split: option.splits)

function drain_ready :: "int \<Rightarrow> tick_list \<Rightarrow> scheduled_tick list \<times> tick_list" where
  "drain_ready now l =
     (case pop_ready now l of
        None \<Rightarrow> ([], l)
      | Some (t, l') \<Rightarrow> (case drain_ready now l' of (ts, l'') \<Rightarrow> (t # ts, l'')))"
  by pat_completeness auto
termination
  by (relation "measure (\<lambda>(now, l). length (tl_ticks l))") (auto dest: pop_ready_shrinks)

declare drain_ready.simps [simp del]

section \<open>The heap of live ticks\<close>

text \<open>The hand-written \<open>Ord\<close> of \<open>QueuedTick\<close> meets the contract of the heap.\<close>

lemma queued_cmp_key: "queued_cmp a b = cmp_of (queued_key b) (queued_key a)"
  by (simp add: queued_cmp_def drain_order_def intra_tick_drain_order_def reverse_then_with
      cmp_of_swap then_with_pair queued_key_def drain_key_def)

interpretation queued: reverse_keyed_ord queued_cmp queued_key
  by unfold_locales (rule queued_cmp_key)

section \<open>Invariant\<close>

text \<open>
  What a tick list keeps true: the live ticks are in heap order, no two entries share a key,
  and the set of scheduled keys is the set of the entries' keys.
\<close>

definition tl_keys :: "tick_list \<Rightarrow> scheduled_tick_key list" where
  "tl_keys l = map sv_key (pending_entries l) @ map (\<lambda>q. st_key (qt_tick q)) (tl_ticks l)"

definition tl_ordered :: "tick_list \<Rightarrow> bool" where
  "tl_ordered l \<longleftrightarrow> heap_ordered queued_cmp (tl_ticks l)"

definition tl_inv :: "tick_list \<Rightarrow> bool" where
  "tl_inv l \<longleftrightarrow> tl_ordered l \<and> distinct (tl_keys l) \<and> tl_scheduled l = set (tl_keys l)"

abbreviation live_ticks :: "tick_list \<Rightarrow> scheduled_tick list" where
  "live_ticks l \<equiv> map qt_tick (tl_ticks l)"

lemma tl_inv_ordered: "tl_inv l \<Longrightarrow> tl_ordered l"
  by (simp add: tl_inv_def)

lemma tl_new_inv: "tl_inv tl_new" "tl_inv tl_new_pending"
  by (simp_all add: tl_inv_def tl_ordered_def tl_keys_def pending_entries_def tl_new_def
      tl_new_pending_def)

lemma push_unchecked_fields [simp]:
  "tl_pending (push_unchecked t l) = tl_pending l"
  "tl_scheduled (push_unchecked t l) = tl_scheduled l"
  "pending_entries (push_unchecked t l) = pending_entries l"
  "mset (tl_ticks (push_unchecked t l)) = add_mset \<lparr>qt_tick = t, qt_insertion = tl_next l\<rparr> (mset (tl_ticks l))"
  "set (tl_ticks (push_unchecked t l)) = insert \<lparr>qt_tick = t, qt_insertion = tl_next l\<rparr> (set (tl_ticks l))"
  by (simp_all add: push_unchecked_def pending_entries_def)

lemma push_unchecked_ordered [intro, simp]: "tl_ordered l \<Longrightarrow> tl_ordered (push_unchecked t l)"
  by (simp add: tl_ordered_def push_unchecked_def queued.push_ordered)

lemma mset_keys_push:
  "mset (map f (tl_ticks (push_unchecked t l))) =
     add_mset (f \<lparr>qt_tick = t, qt_insertion = tl_next l\<rparr>) (mset (map f (tl_ticks l)))"
  by simp

text \<open>Pushing a tick adds its key once, whatever its place in the heap.\<close>

lemma tl_keys_push: "mset (tl_keys (push_unchecked t l)) = add_mset (st_key t) (mset (tl_keys l))"
  by (simp add: tl_keys_def)

text \<open>The two ways an operation changes the entries: one new key, or one key gone.\<close>

lemma tl_inv_add:
  assumes "tl_inv l" "tl_ordered l'" "mset (tl_keys l') = add_mset k (mset (tl_keys l))"
    "k \<notin> tl_scheduled l" "tl_scheduled l' = insert k (tl_scheduled l)"
  shows "tl_inv l'"
proof -
  from assms(3) have m: "mset (tl_keys l') = mset (k # tl_keys l)" by simp
  from m have "distinct (tl_keys l') = distinct (k # tl_keys l)" by (rule mset_eq_imp_distinct_iff)
  moreover from m have "set (tl_keys l') = set (k # tl_keys l)" by (rule mset_eq_setD)
  ultimately show ?thesis using assms by (simp add: tl_inv_def)
qed

lemma tl_inv_del:
  assumes "tl_inv l" "tl_ordered l'" "mset (tl_keys l) = add_mset k (mset (tl_keys l'))"
    "tl_scheduled l' = tl_scheduled l - {k}"
  shows "tl_inv l'"
proof -
  from assms(3) have m: "mset (tl_keys l) = mset (k # tl_keys l')" by simp
  from m have "distinct (tl_keys l) = distinct (k # tl_keys l')" by (rule mset_eq_imp_distinct_iff)
  moreover from m have "set (tl_keys l) = set (k # tl_keys l')" by (rule mset_eq_setD)
  ultimately show ?thesis using assms by (simp add: tl_inv_def)
qed

lemma tl_schedule_inv:
  assumes "tl_inv l"
  shows "tl_inv (snd (tl_schedule t l))"
proof (cases "st_key t \<in> tl_scheduled l")
  case False
  let ?l = "push_unchecked t (l\<lparr>tl_scheduled := insert (st_key t) (tl_scheduled l)\<rparr>)"
  have "tl_inv ?l"
  proof (rule tl_inv_add [OF assms _ _ False])
    show "tl_ordered ?l"
      by (rule push_unchecked_ordered) (use assms in \<open>simp add: tl_inv_def tl_ordered_def\<close>)
    show "mset (tl_keys ?l) = add_mset (st_key t) (mset (tl_keys l))"
      unfolding tl_keys_push by (simp add: tl_keys_def pending_entries_def)
  qed simp
  with False show ?thesis by (simp add: tl_schedule_def)
qed (simp add: tl_schedule_def assms)

lemma schedule_saved_pending_inv:
  assumes "tl_inv l"
  shows "tl_inv (snd (schedule_saved_pending s l))"
proof (cases "sv_key s \<in> tl_scheduled l")
  case False
  let ?l = "snd (schedule_saved_pending s l)"
  have l: "?l = l\<lparr>tl_scheduled := insert (sv_key s) (tl_scheduled l), tl_pending := Some (pending_entries l @ [s])\<rparr>"
    using False by (simp add: schedule_saved_pending_def pending_entries_def)
  show ?thesis
  proof (rule tl_inv_add [OF assms _ _ False])
    show "tl_ordered ?l" using assms by (simp add: l tl_inv_def tl_ordered_def)
    show "mset (tl_keys ?l) = add_mset (sv_key s) (mset (tl_keys l))"
      by (simp add: l tl_keys_def pending_entries_def)
  qed (simp add: l)
qed (simp add: schedule_saved_pending_def assms)

lemma schedule_pending_inv: "tl_inv l \<Longrightarrow> tl_inv (snd (schedule_pending ty p pr l))"
  by (simp add: schedule_pending_def schedule_saved_pending_inv)

lemma proto_load_inv: "tl_inv l \<Longrightarrow> tl_inv (proto_load ss l)"
  by (induction ss arbitrary: l) (simp_all add: schedule_saved_pending_inv)

lemma from_proto_saved_ticks_inv: "tl_inv (from_proto_saved_ticks saved)"
  by (simp add: from_proto_saved_ticks_def proto_load_inv tl_new_inv)

lemma from_saved_ticks_inv: "tl_inv (from_saved_ticks saved) \<longleftrightarrow> distinct (map sv_key saved)"
  by (auto simp: tl_inv_def tl_ordered_def tl_keys_def pending_entries_def from_saved_ticks_def
      tl_new_pending_def)

lemma retain_pending_eq:
  "retain_pending p ss ks = (filter (\<lambda>s. \<not> p s) ss, ks - sv_key ` {s \<in> set ss. p s})"
  by (induction ss arbitrary: ks) auto

lemma remove_pending_matching_inv:
  assumes "tl_inv l"
  shows "tl_inv (snd (remove_pending_matching p l))"
proof (cases "tl_pending l")
  case (Some ps)
  let ?live = "map (\<lambda>q. st_key (qt_tick q)) (tl_ticks l)"
  let ?keep = "filter (\<lambda>s. \<not> p s) ps"
  let ?l = "snd (remove_pending_matching p l)"
  from assms Some have d: "distinct (map sv_key ps)" "distinct ?live"
    and s: "tl_scheduled l = sv_key ` set ps \<union> set ?live"
    and j: "sv_key ` set ps \<inter> set ?live = {}"
    by (simp_all add: tl_inv_def tl_keys_def pending_entries_def)
  have keys: "tl_keys ?l = map sv_key ?keep @ ?live"
    and sched: "tl_scheduled ?l = tl_scheduled l - sv_key ` {s \<in> set ps. p s}"
    and ord: "tl_ordered ?l"
    using Some assms by (simp_all add: remove_pending_matching_def retain_pending_eq tl_keys_def
        pending_entries_def tl_inv_def tl_ordered_def)
  from d(1) have kept: "sv_key ` set ps - sv_key ` {s \<in> set ps. p s} = sv_key ` set ?keep"
    by (auto simp: distinct_map inj_on_def)
  have "set ?live - sv_key ` {s \<in> set ps. p s} = set ?live"
    by (rule Diff_triv) (use j in \<open>auto simp: disjoint_iff\<close>)
  with kept have "tl_scheduled ?l = sv_key ` set ?keep \<union> set ?live"
    by (simp only: sched s Un_Diff)
  moreover have "distinct (tl_keys ?l)"
    unfolding keys distinct_append
  proof (intro conjI)
    show "distinct (map sv_key ?keep)" using d(1) by (rule distinct_map_filter)
    show "set (map sv_key ?keep) \<inter> set ?live = {}" using j by auto
  qed (rule d(2))
  ultimately show ?thesis using ord keys by (simp add: tl_inv_def)
qed (simp add: remove_pending_matching_def assms)

lemma pop_ready_SomeD:
  assumes "pop_ready now l = Some (t, l')"
  obtains q h where "tl_ticks l = q # h" "t = qt_tick q" "st_trigger t \<le> now"
    "l' = l\<lparr>tl_ticks := h, tl_scheduled := tl_scheduled l - {st_key t}\<rparr>"
  using assms by (cases "tl_ticks l") (auto simp: pop_ready_def peek_ready_def split: if_splits)

lemma pop_ready_Cons:
  "tl_ticks l = q # h \<Longrightarrow> st_trigger (qt_tick q) \<le> now \<Longrightarrow>
     pop_ready now l = Some (qt_tick q,
       l\<lparr>tl_ticks := h, tl_scheduled := tl_scheduled l - {st_key (qt_tick q)}\<rparr>)"
  by (simp add: pop_ready_def peek_ready_def)

lemma pop_ready_ordered: "tl_ordered l \<Longrightarrow> pop_ready now l = Some (t, l') \<Longrightarrow> tl_ordered l'"
  by (auto simp: tl_ordered_def elim!: pop_ready_SomeD)

lemma pop_ready_keys:
  assumes "pop_ready now l = Some (t, l')"
  shows "mset (tl_keys l) = add_mset (st_key t) (mset (tl_keys l'))"
    and "tl_scheduled l' = tl_scheduled l - {st_key t}"
    and "tl_pending l' = tl_pending l"
proof -
  from assms obtain q h where "tl_ticks l = q # h" "t = qt_tick q"
    "l' = l\<lparr>tl_ticks := h, tl_scheduled := tl_scheduled l - {st_key t}\<rparr>"
    by (rule pop_ready_SomeD)
  then show "mset (tl_keys l) = add_mset (st_key t) (mset (tl_keys l'))"
    "tl_scheduled l' = tl_scheduled l - {st_key t}" "tl_pending l' = tl_pending l"
    by (simp_all add: tl_keys_def pending_entries_def)
qed

lemma pop_ready_inv: "tl_inv l \<Longrightarrow> pop_ready now l = Some (t, l') \<Longrightarrow> tl_inv l'"
  using tl_inv_del [OF _ pop_ready_ordered pop_ready_keys(1,2)] by (blast intro: tl_inv_ordered)

section \<open>Unpacking\<close>

fun unpack_queue :: "int \<Rightarrow> int \<Rightarrow> nat \<Rightarrow> saved_tick list \<Rightarrow> queued_tick list" where
  "unpack_queue now ord n [] = []"
| "unpack_queue now ord n (s # ss) =
     \<lparr>qt_tick = live_of_saved now ord s, qt_insertion = n\<rparr> # unpack_queue now (ord + 1) (u64_next n) ss"

lemma unpack_from_fields:
  "tl_pending (unpack_from now ord ss l) = tl_pending l"
  "tl_scheduled (unpack_from now ord ss l) = tl_scheduled l"
  "mset (tl_ticks (unpack_from now ord ss l)) = mset (tl_ticks l) + mset (unpack_queue now ord (tl_next l) ss)"
  "tl_ordered l \<Longrightarrow> tl_ordered (unpack_from now ord ss l)"
proof (induction ss arbitrary: ord l)
  case (Cons s ss)
  { case 1 show ?case by (simp add: Cons.IH) }
  { case 2 show ?case by (simp add: Cons.IH) }
  { case 3 show ?case by (simp add: Cons.IH) (simp add: push_unchecked_def) }
  { case 4 then show ?case by (simp add: Cons.IH) }
qed simp_all

lemma live_of_saved_key [simp]: "st_key (live_of_saved now ord s) = sv_key s"
  by (simp add: st_key_def sv_key_def live_of_saved_def)

lemma saved_of_live_key [simp]: "sv_key (saved_of_live now t) = st_key t"
  by (simp add: st_key_def sv_key_def saved_of_live_def)

lemma unpack_queue_keys: "map (\<lambda>q. st_key (qt_tick q)) (unpack_queue now ord n ss) = map sv_key ss"
  by (induction ss arbitrary: ord n) simp_all

lemma tl_unpack_fields:
  "tl_pending (tl_unpack now l) = None"
  "tl_scheduled (tl_unpack now l) = tl_scheduled l"
  "mset (tl_keys (tl_unpack now l)) = mset (tl_keys l)"
  "tl_ordered l \<Longrightarrow> tl_ordered (tl_unpack now l)"
proof -
  show "tl_pending (tl_unpack now l) = None" "tl_scheduled (tl_unpack now l) = tl_scheduled l"
    by (simp_all add: tl_unpack_def unpack_from_fields split: option.split)
  show "tl_ordered l \<Longrightarrow> tl_ordered (tl_unpack now l)"
    by (simp add: tl_unpack_def tl_ordered_def split: option.split)
      (simp add: unpack_from_fields(4) [unfolded tl_ordered_def])
  show "mset (tl_keys (tl_unpack now l)) = mset (tl_keys l)"
  proof (cases "tl_pending l")
    case (Some ps)
    let ?key = "\<lambda>q. st_key (qt_tick q)"
    have "mset (map ?key (tl_ticks (tl_unpack now l))) =
        mset (map ?key (tl_ticks l)) + mset (map ?key (unpack_queue now (- int (length ps)) (tl_next l) ps))"
      by (simp add: tl_unpack_def Some unpack_from_fields(3))
    then show ?thesis
      using Some by (simp add: tl_keys_def pending_entries_def unpack_queue_keys
          unpack_from_fields tl_unpack_def del: mset_map)
  qed (simp add: tl_unpack_def)
qed

lemma tl_unpack_inv:
  assumes "tl_inv l"
  shows "tl_inv (tl_unpack now l)"
proof -
  from tl_unpack_fields(3) [of now l]
  have "distinct (tl_keys (tl_unpack now l)) = distinct (tl_keys l)"
    "set (tl_keys (tl_unpack now l)) = set (tl_keys l)"
    by (rule mset_eq_imp_distinct_iff, rule mset_eq_setD)
  with assms show ?thesis by (simp add: tl_inv_def tl_unpack_fields)
qed

section \<open>Draining\<close>

definition is_due :: "int \<Rightarrow> queued_tick \<Rightarrow> bool" where
  "is_due now q \<longleftrightarrow> st_trigger (qt_tick q) \<le> now"

lemma due_downward: "queued_key a \<le> queued_key b \<Longrightarrow> is_due now b \<Longrightarrow> is_due now a"
  by (auto simp: queued_key_def drain_key_def is_due_def less_eq_prod_def)

lemma drain_ready_takeWhile:
  "fst (drain_ready now l) = map qt_tick (takeWhile (is_due now) (tl_ticks l))
   \<and> tl_ticks (snd (drain_ready now l)) = dropWhile (is_due now) (tl_ticks l)
   \<and> tl_scheduled (snd (drain_ready now l)) =
       tl_scheduled l - (\<lambda>q. st_key (qt_tick q)) ` set (takeWhile (is_due now) (tl_ticks l))"
proof (induction "length (tl_ticks l)" arbitrary: l)
  case 0
  then show ?case by (simp add: drain_ready.simps [of now l] pop_ready_def peek_ready_def)
next
  case (Suc n)
  then obtain q h where l: "tl_ticks l = q # h" by (cases "tl_ticks l") auto
  show ?case
  proof (cases "is_due now q")
    case True
    let ?l = "l\<lparr>tl_ticks := h, tl_scheduled := tl_scheduled l - {st_key (qt_tick q)}\<rparr>"
    have "pop_ready now l = Some (qt_tick q, ?l)"
      using True l by (simp add: pop_ready_Cons is_due_def)
    then have "drain_ready now l = (qt_tick q # fst (drain_ready now ?l), snd (drain_ready now ?l))"
      by (simp add: drain_ready.simps [of now l] split: prod.split)
    moreover from Suc l have "n = length (tl_ticks ?l)" by simp
    note Suc.hyps(1) [OF this]
    ultimately show ?thesis using True l by auto
  next
    case False
    then have "pop_ready now l = None"
      using l by (simp add: pop_ready_def peek_ready_def is_due_def)
    then show ?thesis using False l by (simp add: drain_ready.simps [of now l])
  qed
qed

lemma drain_ready_due:
  assumes "tl_ordered l"
  shows "fst (drain_ready now l) = map qt_tick (filter (is_due now) (tl_ticks l))"
proof -
  have "takeWhile (is_due now) (tl_ticks l) = filter (is_due now) (tl_ticks l)"
    using assms by (intro takeWhile_eq_filter_sorted [where f = queued_key])
      (auto simp: tl_ordered_def queued.ordered_iff_sorted intro: due_downward)
  then show ?thesis by (simp add: drain_ready_takeWhile)
qed

section \<open>Saving and reloading\<close>

text \<open>
  Heap order is the stable sort by deadline and priority of the list in saved order: this is
  why the saved list, which keeps no sub-tick order, is enough to restore the drain order.
\<close>

definition slot :: "scheduled_tick \<Rightarrow> int \<times> tick_priority" where
  "slot t = (st_trigger t, st_priority t)"

definition order_key :: "queued_tick \<Rightarrow> int \<times> nat" where
  "order_key q = (st_order (qt_tick q), qt_insertion q)"

lemma queued_key_le:
  "queued_key a \<le> queued_key b \<longleftrightarrow>
     (slot (qt_tick a), order_key a) \<le> (slot (qt_tick b), order_key b)"
  by (auto simp: queued_key_def drain_key_def slot_def order_key_def less_eq_prod_def less_prod_def)

lemma stable_sort_of_lex:
  fixes a :: "'x \<Rightarrow> 'a::linorder" and k :: "'x \<Rightarrow> 'k::linorder"
  assumes "sorted (map (\<lambda>x. (a x, k x)) xs)"
  shows "sort_key a (sort_key k xs) = xs"
proof (rule properties_for_sort_key)
  show "mset xs = mset (sort_key k xs)" by simp
  show "sorted (map a xs)" using assms by (rule sorted_lex_fst)
  fix x assume "x \<in> set xs"
  have "sorted (map k (filter (\<lambda>y. a x = a y) xs))"
    using assms by (induction xs) (auto simp: less_eq_prod_def)
  then show "filter (\<lambda>y. a x = a y) xs = filter (\<lambda>y. a x = a y) (sort_key k xs)"
    by (simp add: filter_sort sort_key_id_if_sorted)
qed

lemma heap_is_stable_sort:
  assumes "tl_ordered l"
  shows "tl_ticks l = sort_key (\<lambda>q. slot (qt_tick q)) (sort_key order_key (tl_ticks l))"
proof -
  have "sorted (map queued_key (tl_ticks l))"
    using assms by (simp add: tl_ordered_def queued.ordered_iff_sorted)
  then have "sorted (map (\<lambda>q. (slot (qt_tick q), order_key q)) (tl_ticks l))"
    by (simp add: sorted_map queued_key_le)
  then show ?thesis by (simp add: stable_sort_of_lex)
qed

lemma sort_key_map: "sort_key f (map g xs) = map g (sort_key (\<lambda>x. f (g x)) xs)"
proof -
  have "insort_key f (g x) (map g ys) = map g (insort_key (\<lambda>x. f (g x)) x ys)" for x ys
    by (induction ys) auto
  then show ?thesis by (induction xs) auto
qed

lemma unpack_queue_sorted:
  "sorted (map order_key (unpack_queue now ord n ss)) \<and> inj_on order_key (set (unpack_queue now ord n ss))
   \<and> (\<forall>q \<in> set (unpack_queue now ord n ss). ord \<le> st_order (qt_tick q))"
proof (induction ss arbitrary: ord n)
  case (Cons s ss)
  from Cons.IH [of "ord + 1" "u64_next n"]
  have "\<forall>q \<in> set (unpack_queue now (ord + 1) (u64_next n) ss). ord < st_order (qt_tick q)"
    by auto
  with Cons.IH [of "ord + 1" "u64_next n"] show ?case
    by (auto simp: order_key_def live_of_saved_def less_eq_prod_def inj_on_def)
qed simp

lemma unpack_fresh_heap:
  "tl_ticks (tl_unpack now (from_saved_ticks ss)) =
     sort_key (\<lambda>q. slot (qt_tick q)) (unpack_queue now (- int (length ss)) 0 ss)"
proof -
  let ?l = "tl_unpack now (from_saved_ticks ss)"
  let ?q = "unpack_queue now (- int (length ss)) 0 ss"
  have m: "mset (tl_ticks ?l) = mset ?q"
    by (simp add: tl_unpack_def from_saved_ticks_def tl_new_pending_def unpack_from_fields(3))
  have "tl_ordered ?l"
    by (rule tl_unpack_fields(4))
      (simp add: tl_ordered_def from_saved_ticks_def tl_new_pending_def)
  then have "tl_ticks ?l = sort_key (\<lambda>q. slot (qt_tick q)) (sort_key order_key (tl_ticks ?l))"
    by (rule heap_is_stable_sort)
  also have "sort_key order_key (tl_ticks ?l) = ?q"
    using unpack_queue_sorted [of now "- int (length ss)" 0 ss] m
    by (intro sorted_key_unique [where f = order_key]) (auto simp: mset_eq_setD [OF m])
  finally show ?thesis .
qed

text \<open>What a tick does when it fires: its target, its deadline and its priority.\<close>

type_synonym tick_view = "tick_type \<times> block_pos \<times> int \<times> tick_priority"

definition tick_view_of :: "scheduled_tick \<Rightarrow> tick_view" where
  "tick_view_of t = (st_type t, st_pos t, st_trigger t, st_priority t)"

definition delay_view :: "int \<Rightarrow> tick_view \<Rightarrow> tick_view" where
  "delay_view d = (\<lambda>(ty, p, tr, pr). (ty, p, tr + d, pr))"

definition view_slot :: "tick_view \<Rightarrow> int \<times> tick_priority" where
  "view_slot = (\<lambda>(ty, p, tr, pr). (tr, pr))"

lemma slot_view: "slot t = view_slot (tick_view_of t)"
  by (simp add: slot_def view_slot_def tick_view_of_def)

lemma sort_key_order_iso:
  assumes "\<And>x y. f x \<le> f y \<longleftrightarrow> g x \<le> g y"
  shows "sort_key f xs = sort_key g xs"
proof -
  have "insort_key f x ys = insort_key g x ys" for x ys
    using assms by (induction ys) auto
  then show ?thesis by (induction xs) auto
qed

text \<open>A delay that fits an \<open>i32\<close> survives the round trip through the saved representation.\<close>

definition saved_range :: "int \<Rightarrow> int \<Rightarrow> scheduled_tick \<Rightarrow> bool" where
  "saved_range now now' t \<longleftrightarrow> i32_ok (st_trigger t - now) \<and> i64_ok (st_trigger t + (now' - now))"

lemma reload_tick_view:
  assumes "saved_range now now' t"
  shows "tick_view_of (live_of_saved now' ord (saved_of_live now t)) = delay_view (now' - now) (tick_view_of t)"
proof -
  have "wrap_i64 (st_trigger t - now) = st_trigger t - now"
    "wrap_i32 (st_trigger t - now) = st_trigger t - now"
    using assms by (simp_all add: saved_range_def machine_int i32_imp_i64)
  moreover have "wrap_i64 (now' + (st_trigger t - now)) = st_trigger t + (now' - now)"
    using wrap_i64_id [of "st_trigger t + (now' - now)"] assms
    by (simp add: saved_range_def algebra_simps)
  ultimately show ?thesis
    by (simp add: tick_view_of_def delay_view_def live_of_saved_def saved_of_live_def)
qed

lemma reload_views:
  assumes "\<forall>q \<in> set qs. saved_range now now' (qt_tick q)"
  shows "map (\<lambda>q. tick_view_of (qt_tick q)) (unpack_queue now' ord n (map (\<lambda>q. saved_of_live now (qt_tick q)) qs))
       = map (\<lambda>q. delay_view (now' - now) (tick_view_of (qt_tick q))) qs"
  using assms by (induction qs arbitrary: ord n) (simp_all add: reload_tick_view)

lemma pack_live:
  "tl_pending l = None \<Longrightarrow>
     tl_pack l now = map (\<lambda>q. saved_of_live now (qt_tick q)) (sort_key order_key (tl_ticks l))"
  by (simp add: tl_pack_def tl_packing_snapshot_def snapshot_pack_def pending_entries_def
      sort_key_map order_key_def [abs_def] comp_def)

lemma reload_heap:
  assumes pend: "tl_pending l = None" and ord: "tl_ordered l"
    and range: "\<forall>q \<in> set (tl_ticks l). saved_range now now' (qt_tick q)"
  shows "map tick_view_of (live_ticks (tl_unpack now' (from_saved_ticks (tl_pack l now)))) =
         map (\<lambda>t. delay_view (now' - now) (tick_view_of t)) (live_ticks l)"
proof -
  let ?d = "delay_view (now' - now)"
  let ?S = "sort_key order_key (tl_ticks l)"
  let ?Q = "unpack_queue now' (- int (length (tl_pack l now))) 0 (tl_pack l now)"
  have iso: "view_slot (?d v) \<le> view_slot (?d w) \<longleftrightarrow> view_slot v \<le> view_slot w" for v w
    by (auto simp: view_slot_def delay_view_def less_eq_prod_def split: prod.splits)
  have "map tick_view_of (live_ticks (tl_unpack now' (from_saved_ticks (tl_pack l now)))) =
      sort_key view_slot (map (\<lambda>q. tick_view_of (qt_tick q)) ?Q)"
    by (simp add: unpack_fresh_heap slot_view sort_key_map comp_def)
  also have "\<dots> = sort_key view_slot (map (\<lambda>q. ?d (tick_view_of (qt_tick q))) ?S)"
    using range by (simp add: pack_live [OF pend] reload_views)
  also have "\<dots> = map (\<lambda>q. ?d (tick_view_of (qt_tick q))) (sort_key (\<lambda>q. slot (qt_tick q)) ?S)"
    unfolding sort_key_map by (rule arg_cong [OF sort_key_order_iso]) (simp add: iso slot_view)
  also have "\<dots> = map (\<lambda>t. ?d (tick_view_of t)) (live_ticks l)"
    using heap_is_stable_sort [OF ord] by (simp add: comp_def)
  finally show ?thesis .
qed

section \<open>Properties\<close>

text \<open>
  C1. Every operation of a tick list keeps its invariant: live ticks in drain order, at most
  one entry per position and type, and a set of scheduled keys that is exactly the set of the
  keys of the entries held. New lists and lists loaded for proto chunks start with it, and
  scheduling, pending scheduling, removal of matching entries, unpacking at any game time and
  popping keep it.
\<close>

theorem tick_list_invariant:
  "tl_inv tl_new \<and> tl_inv tl_new_pending \<and> tl_inv (from_proto_saved_ticks saved) \<and>
   (tl_inv l \<longrightarrow>
      tl_inv (snd (tl_schedule t l)) \<and>
      tl_inv (snd (schedule_pending ty p pr l)) \<and>
      tl_inv (snd (remove_pending_matching f l)) \<and>
      tl_inv (tl_unpack now l) \<and>
      (\<forall>t' l'. pop_ready now l = Some (t', l') \<longrightarrow> tl_inv l'))"
  by (simp add: tl_new_inv from_proto_saved_ticks_inv tl_schedule_inv schedule_pending_inv
      remove_pending_matching_inv tl_unpack_inv pop_ready_inv)

definition sample_tick :: "nat \<Rightarrow> int \<Rightarrow> int \<Rightarrow> scheduled_tick" where
  "sample_tick ty tr ord =
     \<lparr>st_type = ty, st_pos = BlockPos 1 64 1, st_trigger = tr, st_priority = Normal, st_order = ord\<rparr>"

definition sample_list :: tick_list where
  "sample_list = snd (tl_schedule (sample_tick 7 30 5) (snd (tl_schedule (sample_tick 9 20 6) tl_new)))"

theorem tick_list_invariant_witness:
  "tl_inv sample_list \<and> tl_inv (snd (tl_schedule (sample_tick 8 10 7) sample_list))"
proof -
  have i: "tl_inv sample_list"
    unfolding sample_list_def by (intro tl_schedule_inv tl_new_inv)
  with tick_list_invariant [of "[]" sample_list "sample_tick 8 10 7"] show ?thesis by blast
qed

text \<open>
  C2. Draining a list at a game time returns exactly the live ticks whose deadline has come,
  each once, in the order of deadline, then priority, then sub-tick order, and leaves exactly
  the others; the keys of the drained ticks can be scheduled again.
\<close>

theorem drain_ready_spec:
  assumes "tl_inv l"
  shows "mset (fst (drain_ready now l)) = filter_mset (\<lambda>t. st_trigger t \<le> now) (mset (live_ticks l))
    \<and> sorted (map drain_key (fst (drain_ready now l)))
    \<and> mset (live_ticks (snd (drain_ready now l))) = filter_mset (\<lambda>t. now < st_trigger t) (mset (live_ticks l))
    \<and> tl_scheduled (snd (drain_ready now l)) = tl_scheduled l - st_key ` set (fst (drain_ready now l))"
proof -
  let ?D = "fst (drain_ready now l)" and ?l = "snd (drain_ready now l)"
  from assms have ord: "tl_ordered l" by (rule tl_inv_ordered)
  have D: "?D = filter (\<lambda>t. st_trigger t \<le> now) (live_ticks l)"
    by (simp add: drain_ready_due [OF ord] filter_map comp_def is_due_def [abs_def])
  have "mset ?D + mset (live_ticks ?l) = mset (live_ticks l)"
    unfolding drain_ready_takeWhile [THEN conjunct1] drain_ready_takeWhile [THEN conjunct2, THEN conjunct1]
    by (metis map_append mset_append takeWhile_dropWhile_id)
  moreover have "mset ?D = filter_mset (\<lambda>t. st_trigger t \<le> now) (mset (live_ticks l))"
    by (simp add: D)
  moreover have "mset (live_ticks l) = filter_mset (\<lambda>t. st_trigger t \<le> now) (mset (live_ticks l))
      + filter_mset (\<lambda>t. now < st_trigger t) (mset (live_ticks l))"
    using multiset_partition [of "mset (live_ticks l)" "\<lambda>t. st_trigger t \<le> now"] by (simp add: not_le)
  ultimately have left: "mset (live_ticks ?l) = filter_mset (\<lambda>t. now < st_trigger t) (mset (live_ticks l))"
    by (metis add_left_imp_eq)
  from ord have "sorted (map (\<lambda>q. (drain_key (qt_tick q), qt_insertion q)) (tl_ticks l))"
    unfolding tl_ordered_def queued.ordered_iff_sorted queued_key_def [abs_def] .
  then have "sorted (map drain_key (live_ticks l))"
    unfolding map_map comp_def by (rule sorted_lex_fst)
  then have sorted: "sorted (map drain_key ?D)"
    by (simp add: D sorted_filter)
  have "tl_scheduled ?l = tl_scheduled l - st_key ` set ?D"
    by (simp add: drain_ready_takeWhile image_image)
  with sorted left show ?thesis by (simp add: D)
qed

theorem drain_ready_spec_witness:
  "mset (fst (drain_ready 25 sample_list)) = {#sample_tick 9 20 6#}
    \<and> tl_scheduled (snd (drain_ready 25 sample_list)) = {(BlockPos 1 64 1, 7)}"
proof -
  have inv: "tl_inv sample_list"
    unfolding sample_list_def by (intro tl_schedule_inv tl_new_inv)
  have ticks: "live_ticks sample_list = [sample_tick 9 20 6, sample_tick 7 30 5]"
    by (simp add: sample_list_def tl_schedule_def tl_new_def push_unchecked_def sample_tick_def
        st_key_def tick_type_key_def u64_next_def queued_cmp_def drain_order_def cmp_of_def)
  have keys: "tl_scheduled sample_list = {(BlockPos 1 64 1, 7), (BlockPos 1 64 1, 9)}"
    by (simp add: sample_list_def tl_schedule_def tl_new_def sample_tick_def st_key_def tick_type_key_def)
  have d: "mset (fst (drain_ready 25 sample_list)) = {#sample_tick 9 20 6#}"
    using drain_ready_spec [OF inv, of 25] by (simp add: ticks) (simp add: sample_tick_def)
  then have "set (fst (drain_ready 25 sample_list)) = {sample_tick 9 20 6}"
    by (metis set_mset_add_mset_insert set_mset_empty set_mset_mset)
  then have "tl_scheduled (snd (drain_ready 25 sample_list)) =
      {(BlockPos 1 64 1, 7), (BlockPos 1 64 1, 9)} - {(BlockPos 1 64 1, 9)}"
    using drain_ready_spec [OF inv, of 25]
    by (simp add: keys st_key_def sample_tick_def tick_type_key_def)
  with d show ?thesis by (simp add: insert_Diff_if)
qed

text \<open>
  C3. Saving a list and loading it back does not change what runs or in which order. If the
  remaining delays fit the saved \<open>i32\<close> field, then packing a live list at one game time and
  unpacking the saved entries at another gives a list that drains the same targets with the
  same priorities in the same order, every deadline moved by the time that passed in between.
\<close>

theorem save_reload_same_drain:
  assumes "tl_pending l = None" and "tl_inv l"
    and "\<forall>q \<in> set (tl_ticks l). saved_range now now' (qt_tick q)"
  shows "map tick_view_of (fst (drain_ready (t + (now' - now)) (tl_unpack now' (from_saved_ticks (tl_pack l now)))))
       = map (\<lambda>x. delay_view (now' - now) (tick_view_of x)) (fst (drain_ready t l))"
proof -
  let ?r = "tl_unpack now' (from_saved_ticks (tl_pack l now))"
  let ?due = "\<lambda>t (v :: tick_view). fst (snd (snd v)) \<le> t"
  have drained: "map tick_view_of (fst (drain_ready t l)) = filter (?due t) (map tick_view_of (live_ticks l))"
    if "tl_ordered l" for t l
    by (simp add: drain_ready_due [OF that] filter_map comp_def is_due_def [abs_def] tick_view_of_def)
  have ord: "tl_ordered l" using assms(2) by (rule tl_inv_ordered)
  have ord_r: "tl_ordered ?r"
    by (rule tl_unpack_fields(4)) (simp add: tl_ordered_def from_saved_ticks_def tl_new_pending_def)
  have later: "filter (?due (t + (now' - now))) (map (\<lambda>x. delay_view (now' - now) (tick_view_of x)) ts)
      = map (delay_view (now' - now)) (filter (?due t) (map tick_view_of ts))" for ts
    by (induction ts) (auto simp: delay_view_def tick_view_of_def)
  have "map tick_view_of (fst (drain_ready (t + (now' - now)) ?r)) =
      map (delay_view (now' - now)) (map tick_view_of (fst (drain_ready t l)))"
    by (simp only: drained [OF ord] drained [OF ord_r] reload_heap [OF assms(1) ord assms(3)] later)
  then show ?thesis by (simp add: comp_def)
qed

theorem save_reload_same_drain_witness:
  "map tick_view_of (fst (drain_ready 130 (tl_unpack 110 (from_saved_ticks (tl_pack sample_list 10)))))
     = [(9, BlockPos 1 64 1, 120, Normal), (7, BlockPos 1 64 1, 130, Normal)]"
proof -
  have ticks: "tl_ticks sample_list =
      [\<lparr>qt_tick = sample_tick 9 20 6, qt_insertion = 0\<rparr>, \<lparr>qt_tick = sample_tick 7 30 5, qt_insertion = 1\<rparr>]"
    by (simp add: sample_list_def tl_schedule_def tl_new_def push_unchecked_def sample_tick_def
        st_key_def tick_type_key_def u64_next_def queued_cmp_def drain_order_def cmp_of_def)
  have inv: "tl_inv sample_list"
    unfolding sample_list_def by (intro tl_schedule_inv tl_new_inv)
  have pend: "tl_pending sample_list = None"
    by (simp add: sample_list_def tl_schedule_def tl_new_def push_unchecked_def)
  have range: "\<forall>q \<in> set (tl_ticks sample_list). saved_range 10 110 (qt_tick q)"
    by (simp add: ticks saved_range_def sample_tick_def i32_ok_def i64_ok_def)
  have "fst (drain_ready 30 sample_list) = [sample_tick 9 20 6, sample_tick 7 30 5]"
    by (simp add: drain_ready_due [OF tl_inv_ordered [OF inv]] ticks is_due_def sample_tick_def)
  then show ?thesis
    using save_reload_same_drain [OF pend inv range, of 30]
    by (simp add: delay_view_def tick_view_of_def sample_tick_def)
qed

end
