(* ===== verification/Tick_Container.thy ===== *)
theory Tick_Container
  imports Tick_List
begin

text \<open>
  The stable tick storage of one chunk (\<open>steel-core/src/world/tick_scheduler/mod.rs\<close>): the
  block and the fluid list behind one lock, with the life cycle that decides which operations
  are open. An operation that returns \<open>None\<close> in the source leaves the container as it was.
\<close>

datatype tick_kind = KBlock | KFluid

record chunk_tick_lists =
  cl_block :: tick_list
  cl_fluid :: tick_list

datatype lifecycle = Proto | PrePublication | Registered | Finalized

record tick_container =
  ct_lifecycle :: lifecycle
  ct_lists :: chunk_tick_lists

definition container_new :: "chunk_tick_lists \<Rightarrow> tick_container" where
  "container_new ls = \<lparr>ct_lifecycle = PrePublication, ct_lists = ls\<rparr>"

definition container_new_proto :: "chunk_tick_lists \<Rightarrow> tick_container" where
  "container_new_proto ls = \<lparr>ct_lifecycle = Proto, ct_lists = ls\<rparr>"

definition promote_to_full :: "tick_container \<Rightarrow> bool \<times> tick_container" where
  "promote_to_full c =
     (if ct_lifecycle c \<noteq> Proto then (False, c)
      else (True, c\<lparr>ct_lifecycle := PrePublication\<rparr>))"

text \<open>The list selected by \<open>block\<close>/\<open>block_mut\<close> or \<open>fluid\<close>/\<open>fluid_mut\<close>.\<close>

fun lists_get :: "tick_kind \<Rightarrow> chunk_tick_lists \<Rightarrow> tick_list" where
  "lists_get KBlock ls = cl_block ls"
| "lists_get KFluid ls = cl_fluid ls"

fun lists_put :: "tick_kind \<Rightarrow> tick_list \<Rightarrow> chunk_tick_lists \<Rightarrow> chunk_tick_lists" where
  "lists_put KBlock l ls = ls\<lparr>cl_block := l\<rparr>"
| "lists_put KFluid l ls = ls\<lparr>cl_fluid := l\<rparr>"

definition ct_list :: "tick_kind \<Rightarrow> tick_container \<Rightarrow> tick_list" where
  "ct_list k c = lists_get k (ct_lists c)"

definition ct_put :: "tick_kind \<Rightarrow> tick_list \<Rightarrow> tick_container \<Rightarrow> tick_container" where
  "ct_put k l c = c\<lparr>ct_lists := lists_put k l (ct_lists c)\<rparr>"

definition schedule_unregistered_block ::
    "scheduled_tick \<Rightarrow> tick_container \<Rightarrow> bool option \<times> tick_container" where
  "schedule_unregistered_block t c =
     (if ct_lifecycle c = PrePublication
      then (case tl_schedule t (ct_list KBlock c) of (b, l) \<Rightarrow> (Some b, ct_put KBlock l c))
      else (None, c))"

definition schedule_unregistered_fluid ::
    "scheduled_tick \<Rightarrow> tick_container \<Rightarrow> bool option \<times> tick_container" where
  "schedule_unregistered_fluid t c =
     (if ct_lifecycle c = PrePublication
      then (case tl_schedule t (ct_list KFluid c) of (b, l) \<Rightarrow> (Some b, ct_put KFluid l c))
      else (None, c))"

definition schedule_pending_block ::
    "tick_type \<Rightarrow> block_pos \<Rightarrow> tick_priority \<Rightarrow> tick_container \<Rightarrow> bool option \<times> tick_container" where
  "schedule_pending_block ty p pr c =
     (if ct_lifecycle c = Proto
      then (case schedule_pending ty p pr (ct_list KBlock c) of (b, l) \<Rightarrow> (Some b, ct_put KBlock l c))
      else (None, c))"

definition schedule_pending_fluid ::
    "tick_type \<Rightarrow> block_pos \<Rightarrow> tick_priority \<Rightarrow> tick_container \<Rightarrow> bool option \<times> tick_container" where
  "schedule_pending_fluid ty p pr c =
     (if ct_lifecycle c = Proto
      then (case schedule_pending ty p pr (ct_list KFluid c) of (b, l) \<Rightarrow> (Some b, ct_put KFluid l c))
      else (None, c))"

definition pending_block_snapshot :: "tick_container \<Rightarrow> saved_tick list option" where
  "pending_block_snapshot c =
     (if ct_lifecycle c = Proto then Some (pending_entries (ct_list KBlock c)) else None)"

definition remove_pending_blocks_matching ::
    "(saved_tick \<Rightarrow> bool) \<Rightarrow> tick_container \<Rightarrow> nat option \<times> tick_container" where
  "remove_pending_blocks_matching f c =
     (if ct_lifecycle c = Proto
      then (case remove_pending_matching f (ct_list KBlock c) of (n, l) \<Rightarrow> (Some n, ct_put KBlock l c))
      else (None, c))"

definition has_block :: "block_pos \<Rightarrow> tick_type \<Rightarrow> tick_container \<Rightarrow> bool option" where
  "has_block p ty c =
     (if ct_lifecycle c \<noteq> Finalized then Some (has_tick p ty (ct_list KBlock c)) else None)"

definition has_fluid :: "block_pos \<Rightarrow> tick_type \<Rightarrow> tick_container \<Rightarrow> bool option" where
  "has_fluid p ty c =
     (if ct_lifecycle c \<noteq> Finalized then Some (has_tick p ty (ct_list KFluid c)) else None)"

definition lists_packing_snapshot :: "chunk_tick_lists \<Rightarrow> packing_snapshot \<times> packing_snapshot" where
  "lists_packing_snapshot ls = (tl_packing_snapshot (cl_block ls), tl_packing_snapshot (cl_fluid ls))"

definition lists_snapshot_pack ::
    "packing_snapshot \<times> packing_snapshot \<Rightarrow> int \<Rightarrow> saved_tick list \<times> saved_tick list" where
  "lists_snapshot_pack snap now = (snapshot_pack (fst snap) now, snapshot_pack (snd snap) now)"

definition container_snapshot ::
    "tick_container \<Rightarrow> int \<Rightarrow> (saved_tick list \<times> saved_tick list) option" where
  "container_snapshot c now =
     (if ct_lifecycle c \<noteq> Finalized
      then Some (lists_snapshot_pack (lists_packing_snapshot (ct_lists c)) now) else None)"

section \<open>Selecting and storing a list\<close>

lemma ct_list_put [simp]: "ct_list k (ct_put k' l c) = (if k = k' then l else ct_list k c)"
  by (cases k; cases k') (simp_all add: ct_list_def ct_put_def)

lemma ct_lifecycle_put [simp]: "ct_lifecycle (ct_put k l c) = ct_lifecycle c"
  by (simp add: ct_put_def)

lemma ct_list_lifecycle [simp]: "ct_list k (c\<lparr>ct_lifecycle := x\<rparr>) = ct_list k c"
  by (simp add: ct_list_def)

definition ct_inv :: "tick_container \<Rightarrow> bool" where
  "ct_inv c \<longleftrightarrow> (\<forall>k. tl_inv (ct_list k c)) \<and>
     (ct_lifecycle c = Proto \<longrightarrow> (\<forall>k. tl_ticks (ct_list k c) = []))"

lemma ct_inv_put:
  assumes "ct_inv c" "tl_inv l" "ct_lifecycle c = Proto \<Longrightarrow> tl_ticks l = []"
  shows "ct_inv (ct_put k l c)"
  using assms by (simp add: ct_inv_def)

lemma ct_inv_list: "ct_inv c \<Longrightarrow> tl_inv (ct_list k c)"
  by (simp add: ct_inv_def)

lemma schedule_pending_ticks [simp]: "tl_ticks (snd (schedule_pending ty p pr l)) = tl_ticks l"
  by (simp add: schedule_pending_def schedule_saved_pending_def)

lemma remove_pending_ticks [simp]: "tl_ticks (snd (remove_pending_matching f l)) = tl_ticks l"
  by (simp add: remove_pending_matching_def split: option.split prod.split)

text \<open>
  The life cycle gates the operations of a container: each runs exactly in its stage, answers
  \<open>None\<close> and changes nothing in any other, and keeps the container's invariant (both lists well
  formed, no live tick before promotion). Promotion succeeds exactly on a proto container, once.
\<close>

theorem container_lifecycle_gates:
  assumes "ct_inv c"
  shows "ct_inv (snd (schedule_unregistered_block t c)) \<and> ct_inv (snd (schedule_unregistered_fluid t c)) \<and>
    ct_inv (snd (schedule_pending_block ty p pr c)) \<and> ct_inv (snd (schedule_pending_fluid ty p pr c)) \<and>
    ct_inv (snd (remove_pending_blocks_matching f c)) \<and> ct_inv (snd (promote_to_full c)) \<and>
    (fst (promote_to_full c) \<longleftrightarrow> ct_lifecycle c = Proto) \<and> \<not> fst (promote_to_full (snd (promote_to_full c))) \<and>
    (ct_lifecycle c \<noteq> PrePublication \<longrightarrow>
       schedule_unregistered_block t c = (None, c) \<and> schedule_unregistered_fluid t c = (None, c)) \<and>
    (ct_lifecycle c \<noteq> Proto \<longrightarrow>
       schedule_pending_block ty p pr c = (None, c) \<and> schedule_pending_fluid ty p pr c = (None, c) \<and>
       remove_pending_blocks_matching f c = (None, c) \<and> pending_block_snapshot c = None) \<and>
    (container_snapshot c now = None \<longleftrightarrow> ct_lifecycle c = Finalized) \<and>
    (ct_lifecycle c = PrePublication \<longrightarrow>
       has_block (st_pos t) (st_type t) (snd (schedule_unregistered_block t c)) = Some True)"
proof -
  have inv: "tl_inv (ct_list k c)" for k using assms by (rule ct_inv_list)
  have sch: "tl_inv (snd (tl_schedule t (ct_list k c)))" for k using inv by (rule tl_schedule_inv)
  have "ct_inv (snd (schedule_unregistered_block t c))" "ct_inv (snd (schedule_unregistered_fluid t c))"
    using sch assms by (auto simp: schedule_unregistered_block_def schedule_unregistered_fluid_def split_def intro!: ct_inv_put)
  moreover have pend: "tl_inv (snd (schedule_pending ty p pr (ct_list k c)))" for k
    using inv by (rule schedule_pending_inv)
  have "ct_inv (snd (schedule_pending_block ty p pr c))" "ct_inv (snd (schedule_pending_fluid ty p pr c))"
    using pend assms by (auto simp: schedule_pending_block_def schedule_pending_fluid_def split_def ct_inv_def intro!: ct_inv_put)
  moreover have "tl_inv (snd (remove_pending_matching f (ct_list KBlock c)))"
    using inv by (rule remove_pending_matching_inv)
  then have "ct_inv (snd (remove_pending_blocks_matching f c))"
    using assms by (auto simp: remove_pending_blocks_matching_def split_def ct_inv_def intro!: ct_inv_put)
  moreover have "ct_inv (snd (promote_to_full c))" using assms by (auto simp: promote_to_full_def ct_inv_def)
  moreover have "fst (promote_to_full c) \<longleftrightarrow> ct_lifecycle c = Proto" "\<not> fst (promote_to_full (snd (promote_to_full c)))"
    by (simp_all add: promote_to_full_def)
  moreover have "ct_lifecycle c \<noteq> PrePublication \<longrightarrow>
       schedule_unregistered_block t c = (None, c) \<and> schedule_unregistered_fluid t c = (None, c)"
    by (simp add: schedule_unregistered_block_def schedule_unregistered_fluid_def)
  moreover have "ct_lifecycle c \<noteq> Proto \<longrightarrow>
       schedule_pending_block ty p pr c = (None, c) \<and> schedule_pending_fluid ty p pr c = (None, c) \<and>
       remove_pending_blocks_matching f c = (None, c) \<and> pending_block_snapshot c = None"
    by (simp add: schedule_pending_block_def schedule_pending_fluid_def remove_pending_blocks_matching_def
        pending_block_snapshot_def)
  moreover have "container_snapshot c now = None \<longleftrightarrow> ct_lifecycle c = Finalized" by (simp add: container_snapshot_def)
  moreover have "ct_lifecycle c = PrePublication \<longrightarrow>
       has_block (st_pos t) (st_type t) (snd (schedule_unregistered_block t c)) = Some True"
    by (auto simp: schedule_unregistered_block_def split_def has_block_def has_tick_def tl_schedule_def st_key_def)
  ultimately show ?thesis by blast
qed

theorem container_lifecycle_gates_witness:
  "ct_inv (container_new_proto \<lparr>cl_block = tl_new_pending, cl_fluid = tl_new_pending\<rparr>) \<and>
   fst (promote_to_full (container_new_proto \<lparr>cl_block = tl_new_pending, cl_fluid = tl_new_pending\<rparr>))"
proof -
  let ?c = "container_new_proto \<lparr>cl_block = tl_new_pending, cl_fluid = tl_new_pending\<rparr>"
  have "ct_list k ?c = tl_new_pending" for k by (cases k) (simp_all add: ct_list_def container_new_proto_def)
  then have "ct_inv ?c" using tl_new_inv(2) by (simp add: ct_inv_def tl_new_pending_def)
  moreover have "ct_lifecycle ?c = Proto" by (simp add: container_new_proto_def)
  ultimately show ?thesis using container_lifecycle_gates [of ?c] by blast
qed

end
