(* ===== verification/Tick_Scheduler.thy ===== *)
theory Tick_Scheduler
  imports Tick_Container "HOL-Library.Sublist"
begin

text \<open>
  The world index over the registered chunks' tick containers
  (\<open>steel-core/src/world/tick_scheduler/scheduler.rs\<close>).

  A container is shared between its chunk and the index through an \<open>Arc\<close>. The model keeps the
  containers in a store indexed by an identity, and an \<open>Arc\<close> is that identity, so that
  \<open>Arc::ptr_eq\<close> is equality of identities. The locks order the operations; each definition below
  is one operation run under them. An \<open>assert!\<close> or \<open>panic!\<close> is the outcome \<open>Panic\<close>, an error
  return \<open>Err\<close> with the state as the operation left it.
\<close>

section \<open>State\<close>

datatype tick_scheduler_error =
  AlreadyRegistered chunk_pos | MissingContainer chunk_pos | ContainerMismatch chunk_pos

datatype 'a outcome = Ok 'a | Err tick_scheduler_error | Panic

record active_chunk_rank =
  ar_generation :: nat
  ar_rank :: nat

record registered_chunk_ticks =
  rg_container :: nat
  rg_block_head :: "int option"
  rg_fluid_head :: "int option"
  rg_active :: "active_chunk_rank option"

record sched =
  ws_order :: int
  ws_chunks :: "chunk_pos \<Rightarrow> registered_chunk_ticks option"
  ws_block_deadlines :: "(int \<times> int) list"
  ws_fluid_deadlines :: "(int \<times> int) list"
  ws_generation :: nat
  ws_store :: "nat \<Rightarrow> tick_container"

record full_chunk =
  fc_pos :: chunk_pos
  fc_container :: nat

record active_container =
  at_pos :: chunk_pos
  at_rank :: nat
  at_container :: nat

record ready_container =
  rc_pos :: chunk_pos
  rc_rank :: nat
  rc_container :: nat
  rc_priority :: tick_priority
  rc_order :: int
  rc_dirty :: bool

type_synonym head_update = "chunk_pos \<times> int option"

section \<open>The metadata index\<close>

fun rg_head :: "tick_kind \<Rightarrow> registered_chunk_ticks \<Rightarrow> int option" where
  "rg_head KBlock r = rg_block_head r"
| "rg_head KFluid r = rg_fluid_head r"

fun rg_set_head :: "tick_kind \<Rightarrow> int option \<Rightarrow> registered_chunk_ticks \<Rightarrow> registered_chunk_ticks" where
  "rg_set_head KBlock h r = r\<lparr>rg_block_head := h\<rparr>"
| "rg_set_head KFluid h r = r\<lparr>rg_fluid_head := h\<rparr>"

definition active_rank :: "nat \<Rightarrow> registered_chunk_ticks \<Rightarrow> nat option" where
  "active_rank gen r =
     (case rg_active r of
        Some a \<Rightarrow> if ar_generation a = gen then Some (ar_rank a) else None
      | None \<Rightarrow> None)"

definition sched_new :: "(nat \<Rightarrow> tick_container) \<Rightarrow> sched" where
  "sched_new store =
     \<lparr>ws_order = 0, ws_chunks = (\<lambda>_. None), ws_block_deadlines = [], ws_fluid_deadlines = [],
      ws_generation = 0, ws_store = store\<rparr>"

definition next_sub_tick_order :: "sched \<Rightarrow> int \<times> sched" where
  "next_sub_tick_order s = (ws_order s, s\<lparr>ws_order := wrap_i64 (ws_order s + 1)\<rparr>)"

definition advance_active_generation :: "sched \<Rightarrow> sched" where
  "advance_active_generation s =
     (if ws_generation s + 1 < 2 ^ 64 then s\<lparr>ws_generation := ws_generation s + 1\<rparr>
      else s\<lparr>ws_chunks := (\<lambda>p. map_option (\<lambda>r. r\<lparr>rg_active := None\<rparr>) (ws_chunks s p)),
             ws_generation := 1\<rparr>)"

fun deadlines :: "tick_kind \<Rightarrow> sched \<Rightarrow> (int \<times> int) list" where
  "deadlines KBlock s = ws_block_deadlines s"
| "deadlines KFluid s = ws_fluid_deadlines s"

fun set_deadlines :: "tick_kind \<Rightarrow> (int \<times> int) list \<Rightarrow> sched \<Rightarrow> sched" where
  "set_deadlines KBlock d s = s\<lparr>ws_block_deadlines := d\<rparr>"
| "set_deadlines KFluid d s = s\<lparr>ws_fluid_deadlines := d\<rparr>"

text \<open>The two conditional updates of the deadline index, with the value the \<open>assert!\<close> checks.\<close>

definition unindex_head :: "tick_kind \<Rightarrow> int \<Rightarrow> int option \<Rightarrow> sched \<Rightarrow> bool \<times> sched" where
  "unindex_head k packed h s =
     (case h of
        None \<Rightarrow> (True, s)
      | Some t \<Rightarrow> (case bts_remove (t, packed) (deadlines k s) of (ok, d) \<Rightarrow> (ok, set_deadlines k d s)))"

definition index_head :: "tick_kind \<Rightarrow> int \<Rightarrow> int option \<Rightarrow> sched \<Rightarrow> bool \<times> sched" where
  "index_head k packed h s =
     (case h of
        None \<Rightarrow> (True, s)
      | Some t \<Rightarrow> (case bts_insert (t, packed) (deadlines k s) of (ok, d) \<Rightarrow> (ok, set_deadlines k d s)))"

definition set_head :: "chunk_pos \<Rightarrow> tick_kind \<Rightarrow> int option \<Rightarrow> sched \<Rightarrow> unit outcome \<times> sched" where
  "set_head pos k h s =
     (case ws_chunks s pos of
        None \<Rightarrow> (Err (MissingContainer pos), s)
      | Some r \<Rightarrow>
          (let active = (active_rank (ws_generation s) r \<noteq> None);
               previous = rg_head k r;
               packed = packed_chunk_of pos
           in if previous = h then (Ok (), s)
              else
                (let (ok1, s1) = (if active then unindex_head k packed previous s else (True, s))
                 in if \<not> ok1 then (Panic, s1)
                    else
                      (let s2 = s1\<lparr>ws_chunks := (ws_chunks s1)(pos \<mapsto> rg_set_head k h r)\<rparr>;
                           (ok2, s3) = (if active then index_head k packed h s2 else (True, s2))
                       in (if ok2 then Ok () else Panic, s3)))))"

fun take_due_from ::
    "tick_kind \<Rightarrow> int \<Rightarrow> (int \<times> int) list \<Rightarrow> sched \<Rightarrow> active_container list outcome \<times> sched" where
  "take_due_from k now [] s = (Ok [], s)"
| "take_due_from k now ((t, packed) # ds) s =
     (if now < t then (Ok [], s)
      else
        (let s1 = set_deadlines k ds s;
             pos = packed_to_chunk_pos packed
         in case ws_chunks s1 pos of
              None \<Rightarrow> (Panic, s1)
            | Some r \<Rightarrow>
                if rg_head k r \<noteq> Some t then (Panic, s1)
                else
                  (case active_rank (ws_generation s1) r of
                     None \<Rightarrow> (Panic, s1)
                   | Some rank \<Rightarrow>
                       (case take_due_from k now ds
                          (s1\<lparr>ws_chunks := (ws_chunks s1)(pos \<mapsto> rg_set_head k None r)\<rparr>) of
                          (Ok due, s2) \<Rightarrow>
                            (Ok (\<lparr>at_pos = pos, at_rank = rank, at_container = rg_container r\<rparr> # due), s2)
                        | (Err e, s2) \<Rightarrow> (Err e, s2)
                        | (Panic, s2) \<Rightarrow> (Panic, s2)))))"

definition take_due :: "tick_kind \<Rightarrow> int \<Rightarrow> sched \<Rightarrow> active_container list outcome \<times> sched" where
  "take_due k now s = take_due_from k now (deadlines k s) s"

section \<open>Registration\<close>

definition head_trigger :: "tick_kind \<Rightarrow> tick_container \<Rightarrow> int option" where
  "head_trigger k c = map_option st_trigger (tl_peek (ct_list k c))"

definition register_chunk :: "full_chunk \<Rightarrow> sched \<Rightarrow> unit outcome \<times> sched" where
  "register_chunk ch s =
     (let c = ws_store s (fc_container ch)
      in if ct_lifecycle c \<noteq> PrePublication then (Err (AlreadyRegistered (fc_pos ch)), s)
         else if ws_chunks s (fc_pos ch) \<noteq> None then (Err (AlreadyRegistered (fc_pos ch)), s)
         else (Ok (),
               s\<lparr>ws_chunks := (ws_chunks s)(fc_pos ch \<mapsto>
                   \<lparr>rg_container = fc_container ch, rg_block_head = head_trigger KBlock c,
                    rg_fluid_head = head_trigger KFluid c, rg_active = None\<rparr>),
                 ws_store := (ws_store s)(fc_container ch := c\<lparr>ct_lifecycle := Registered\<rparr>)\<rparr>))"

definition unpack_chunk :: "chunk_pos \<Rightarrow> int \<Rightarrow> sched \<Rightarrow> unit outcome \<times> sched" where
  "unpack_chunk pos now s =
     (case ws_chunks s pos of
        None \<Rightarrow> (Err (MissingContainer pos), s)
      | Some r \<Rightarrow>
          (let cid = rg_container r; c = ws_store s cid
           in if ct_lifecycle c \<noteq> Registered then (Err (MissingContainer pos), s)
              else
                (let c1 = ct_put KBlock (tl_unpack now (ct_list KBlock c)) c;
                     c2 = ct_put KFluid (tl_unpack now (ct_list KFluid c1)) c1;
                     s1 = s\<lparr>ws_store := (ws_store s)(cid := c2)\<rparr>
                 in case ws_chunks s1 pos of
                      None \<Rightarrow> (Err (MissingContainer pos), s1)
                    | Some r1 \<Rightarrow>
                        if rg_container r1 \<noteq> cid then (Err (ContainerMismatch pos), s1)
                        else
                          (case set_head pos KBlock (head_trigger KBlock c2) s1 of
                             (Ok _, s2) \<Rightarrow> set_head pos KFluid (head_trigger KFluid c2) s2
                           | (Err e, s2) \<Rightarrow> (Err e, s2)
                           | (Panic, s2) \<Rightarrow> (Panic, s2)))))"

definition unregister_chunk :: "chunk_pos \<Rightarrow> sched \<Rightarrow> unit outcome \<times> sched" where
  "unregister_chunk pos s =
     (case ws_chunks s pos of
        None \<Rightarrow> (Ok (), s)
      | Some r \<Rightarrow>
          (let s1 = s\<lparr>ws_chunks := (ws_chunks s)(pos := None)\<rparr>;
               packed = packed_chunk_of pos;
               active = (active_rank (ws_generation s) r \<noteq> None);
               (ok1, s2) = (if active then unindex_head KBlock packed (rg_block_head r) s1 else (True, s1));
               (ok2, s3) = (if active then unindex_head KFluid packed (rg_fluid_head r) s2 else (True, s2))
           in if ok1 \<and> ok2
              then (Ok (), s3\<lparr>ws_store := (ws_store s3)(rg_container r :=
                     (ws_store s3 (rg_container r))\<lparr>ct_lifecycle := Finalized\<rparr>)\<rparr>)
              else (Panic, s3)))"

fun reconcile_from :: "nat \<Rightarrow> nat \<Rightarrow> chunk_pos list \<Rightarrow> sched \<Rightarrow> unit outcome \<times> sched" where
  "reconcile_from gen rank [] s = (Ok (), s)"
| "reconcile_from gen rank (pos # ps) s =
     (case ws_chunks s pos of
        None \<Rightarrow> (Err (MissingContainer pos), s)
      | Some r \<Rightarrow>
          if (case rg_active r of None \<Rightarrow> False | Some a \<Rightarrow> ar_generation a = gen) then (Panic, s)
          else
            (let s1 = s\<lparr>ws_chunks := (ws_chunks s)(pos \<mapsto>
                          r\<lparr>rg_active := Some \<lparr>ar_generation = gen, ar_rank = rank\<rparr>\<rparr>)\<rparr>;
                 packed = packed_chunk_of pos;
                 (ok1, s2) = index_head KBlock packed (rg_block_head r) s1;
                 (ok2, s3) = index_head KFluid packed (rg_fluid_head r) s2
             in if ok1 \<and> ok2 then reconcile_from gen (Suc rank) ps s3 else (Panic, s3)))"

definition reconcile_active_chunks :: "chunk_pos list \<Rightarrow> sched \<Rightarrow> unit outcome \<times> sched" where
  "reconcile_active_chunks ps s =
     (case find (\<lambda>p. ws_chunks s p = None) ps of
        Some p \<Rightarrow> (Err (MissingContainer p), s)
      | None \<Rightarrow>
          (let s1 = s\<lparr>ws_block_deadlines := [], ws_fluid_deadlines := []\<rparr>;
               s2 = advance_active_generation s1
           in reconcile_from (ws_generation s2) 0 ps s2))"

section \<open>Scheduling\<close>

text \<open>\<open>schedule_block\<close> and \<open>schedule_fluid\<close> are the same code on the two lists.\<close>

definition schedule_on :: "tick_kind \<Rightarrow> full_chunk \<Rightarrow> scheduled_tick \<Rightarrow> sched \<Rightarrow> bool outcome \<times> sched" where
  "schedule_on k ch t s =
     (let cid = fc_container ch; c = ws_store s cid; pos = fc_pos ch
      in if ct_lifecycle c = PrePublication then
           (case tl_schedule t (ct_list k c) of
              (b, l) \<Rightarrow> (Ok b, s\<lparr>ws_store := (ws_store s)(cid := ct_put k l c)\<rparr>))
         else if ct_lifecycle c = Finalized then (Err (MissingContainer pos), s)
         else
           (let previous_head = head_trigger k c;
                (added, l) = tl_schedule t (ct_list k c);
                c1 = ct_put k l c;
                s1 = s\<lparr>ws_store := (ws_store s)(cid := c1)\<rparr>;
                head = head_trigger k c1
            in if \<not> added then (Ok False, s1)
               else if head = previous_head then (Ok True, s1)
               else
                 (case ws_chunks s1 pos of
                    None \<Rightarrow> (Err (MissingContainer pos), s1)
                  | Some r \<Rightarrow>
                      if rg_container r \<noteq> cid then (Err (ContainerMismatch pos), s1)
                      else
                        (case set_head pos k head s1 of
                           (Ok _, s2) \<Rightarrow> (Ok True, s2)
                         | (Err e, s2) \<Rightarrow> (Err e, s2)
                         | (Panic, s2) \<Rightarrow> (Panic, s2)))))"

definition schedule_block :: "full_chunk \<Rightarrow> scheduled_tick \<Rightarrow> sched \<Rightarrow> bool outcome \<times> sched" where
  "schedule_block = schedule_on KBlock"

definition schedule_fluid :: "full_chunk \<Rightarrow> scheduled_tick \<Rightarrow> sched \<Rightarrow> bool outcome \<times> sched" where
  "schedule_fluid = schedule_on KFluid"

section \<open>Collecting the ready ticks\<close>

definition ready_cmp :: "ready_container \<Rightarrow> ready_container \<Rightarrow> ordering" where
  "ready_cmp a b =
     then_with
       (reverse_ord (intra_tick_drain_order (rc_priority a) (rc_order a) (rc_priority b) (rc_order b)))
       (cmp_of (rc_rank b) (rc_rank a))"

definition ready_new :: "active_container \<Rightarrow> scheduled_tick \<Rightarrow> bool \<Rightarrow> ready_container" where
  "ready_new a t dirty =
     \<lparr>rc_pos = at_pos a, rc_rank = at_rank a, rc_container = at_container a,
      rc_priority = st_priority t, rc_order = st_order t, rc_dirty = dirty\<rparr>"

definition ready_refresh :: "scheduled_tick \<Rightarrow> ready_container \<Rightarrow> ready_container" where
  "ready_refresh t rc = rc\<lparr>rc_priority := st_priority t, rc_order := st_order t\<rparr>"

fun prepare_ready_containers ::
    "tick_kind \<Rightarrow> int \<Rightarrow> (nat \<Rightarrow> tick_container) \<Rightarrow> active_container list
       \<Rightarrow> ready_container list \<Rightarrow> head_update list
       \<Rightarrow> (ready_container list \<times> head_update list) outcome" where
  "prepare_ready_containers k now store [] heap ups = Ok (heap, ups)"
| "prepare_ready_containers k now store (a # as) heap ups =
     (let c = store (at_container a)
      in if ct_lifecycle c \<noteq> Registered then Panic
         else
           (case tl_peek (ct_list k c) of
              Some t \<Rightarrow>
                if st_trigger t \<le> now
                then prepare_ready_containers k now store as
                       (heap_push ready_cmp (ready_new a t False) heap) ups
                else prepare_ready_containers k now store as heap
                       (ups @ [(at_pos a, Some (st_trigger t))])
            | None \<Rightarrow> prepare_ready_containers k now store as heap (ups @ [(at_pos a, None)])))"

definition outranked :: "(tick_priority \<times> int) option \<Rightarrow> scheduled_tick \<Rightarrow> bool" where
  "outranked competitor t =
     (case competitor of
        None \<Rightarrow> False
      | Some (p, n) \<Rightarrow> intra_tick_drain_order (st_priority t) (st_order t) p n = Greater)"

text \<open>The inner loop: keep draining the current container while no competitor comes first.\<close>

function drain_current ::
    "int \<Rightarrow> nat \<Rightarrow> (tick_priority \<times> int) option \<Rightarrow> scheduled_tick list \<Rightarrow> tick_list
       \<Rightarrow> scheduled_tick list \<times> tick_list" where
  "drain_current now max_ticks competitor ticks l =
     (if length ticks < max_ticks
      then
        (case peek_ready now l of
           None \<Rightarrow> (ticks, l)
         | Some t \<Rightarrow>
             if outranked competitor t then (ticks, l)
             else
               (case pop_ready now l of
                  None \<Rightarrow> (ticks, l)
                | Some (t', l') \<Rightarrow> drain_current now max_ticks competitor (ticks @ [t']) l'))
      else (ticks, l))"
  by pat_completeness auto
termination
  by (relation "measure (\<lambda>(now, m, c, ticks, l). length (tl_ticks l))") (auto dest: pop_ready_shrinks)

declare drain_current.simps [simp del]

record collect_state =
  co_store :: "nat \<Rightarrow> tick_container"
  co_heap :: "ready_container list"
  co_ticks :: "scheduled_tick list"
  co_changed :: "nat list"
  co_updates :: "head_update list"

lemma drain_current_grows:
  "length ticks \<le> length (fst (drain_current now m c ticks l))"
proof (induction now m c ticks l rule: drain_current.induct)
  case (1 now m c ticks l)
  then show ?case
    by (subst drain_current.simps) (fastforce split: option.splits prod.splits)
qed

text \<open>
  One round of the outer loop, for the container that was popped: the container's next ready
  tick is taken, then those that still come before every competitor; the container returns to
  the heap if it has more ready ticks, otherwise its new head is recorded.
\<close>

definition collect_round ::
    "tick_kind \<Rightarrow> int \<Rightarrow> nat \<Rightarrow> ready_container \<Rightarrow> ready_container list \<Rightarrow> collect_state
       \<Rightarrow> collect_state option" where
  "collect_round k now max_ticks rc heap co =
     (let c = co_store co (rc_container rc)
      in if ct_lifecycle c \<noteq> Registered then None
         else
           (case pop_ready now (ct_list k c) of
              None \<Rightarrow>
                Some (co\<lparr>co_heap := heap,
                         co_updates := co_updates co @ [(rc_pos rc, head_trigger k c)]\<rparr>)
            | Some (t, l1) \<Rightarrow>
                (let changed = (if rc_dirty rc then co_changed co else co_changed co @ [rc_rank rc]);
                     rc1 = rc\<lparr>rc_dirty := True\<rparr>;
                     competitor = map_option (\<lambda>o'. (rc_priority o', rc_order o')) (heap_peek heap);
                     (ticks, l2) = drain_current now max_ticks competitor (co_ticks co @ [t]) l1;
                     co1 = co\<lparr>co_store := (co_store co)(rc_container rc := ct_put k l2 c),
                              co_ticks := ticks, co_changed := changed\<rparr>
                 in Some
                      (case tl_peek l2 of
                         Some nt \<Rightarrow>
                           if length ticks < max_ticks \<and> st_trigger nt \<le> now
                           then co1\<lparr>co_heap := heap_push ready_cmp (ready_refresh nt rc1) heap\<rparr>
                           else co1\<lparr>co_heap := heap,
                                    co_updates := co_updates co @ [(rc_pos rc, Some (st_trigger nt))]\<rparr>
                       | None \<Rightarrow>
                           co1\<lparr>co_heap := heap,
                               co_updates := co_updates co @ [(rc_pos rc, None)]\<rparr>))))"

lemma collect_round_measure:
  assumes "collect_round k now m rc heap co = Some co'" "co_heap co = rc # heap"
    "length (co_ticks co) < m"
  shows "length (co_ticks co) < length (co_ticks co')
       \<or> length (co_ticks co') = length (co_ticks co) \<and> length (co_heap co') < length (co_heap co)"
proof -
  let ?c = "co_store co (rc_container rc)"
  from assms(1) have reg: "ct_lifecycle ?c = Registered"
    by (auto simp: collect_round_def Let_def split: if_splits)
  show ?thesis
  proof (cases "pop_ready now (ct_list k ?c)")
    case None
    with assms reg show ?thesis by (auto simp: collect_round_def Let_def)
  next
    case (Some tl)
    obtain t l1 where tl: "tl = (t, l1)" by (cases tl)
    let ?cmp = "map_option (\<lambda>o'. (rc_priority o', rc_order o')) (heap_peek heap)"
    have "co_ticks co' = fst (drain_current now m ?cmp (co_ticks co @ [t]) l1)"
      using assms(1) reg Some tl
      by (auto simp: collect_round_def Let_def split: prod.splits option.splits if_splits)
    with drain_current_grows [of "co_ticks co @ [t]" now m ?cmp l1] show ?thesis by simp
  qed
qed

function collect_loop :: "tick_kind \<Rightarrow> int \<Rightarrow> nat \<Rightarrow> collect_state \<Rightarrow> collect_state option" where
  "collect_loop k now max_ticks co =
     (if length (co_ticks co) < max_ticks
      then
        (case co_heap co of
           [] \<Rightarrow> Some co
         | rc # heap \<Rightarrow>
             (case collect_round k now max_ticks rc heap co of
                None \<Rightarrow> None
              | Some co' \<Rightarrow> collect_loop k now max_ticks co'))
      else Some co)"
  by pat_completeness auto
termination
  by (relation "measures [\<lambda>(k, now, m, co). m - length (co_ticks co), \<lambda>(k, now, m, co). length (co_heap co)]")
    (auto dest!: collect_round_measure)

declare collect_loop.simps [simp del]

definition collect_registered_ticks ::
    "tick_kind \<Rightarrow> int \<Rightarrow> nat \<Rightarrow> active_container list \<Rightarrow> (nat \<Rightarrow> tick_container)
       \<Rightarrow> collect_state outcome" where
  "collect_registered_ticks k now max_ticks due store =
     (case prepare_ready_containers k now store due [] [] of
        Err e \<Rightarrow> Err e
      | Panic \<Rightarrow> Panic
      | Ok (heap, ups) \<Rightarrow>
          (case collect_loop k now max_ticks
                  \<lparr>co_store = store, co_heap = heap, co_ticks = [], co_changed = [], co_updates = ups\<rparr> of
             None \<Rightarrow> Panic
           | Some co \<Rightarrow>
               Ok (co\<lparr>co_updates := co_updates co @
                        map (\<lambda>rc. (rc_pos rc, head_trigger k (co_store co (rc_container rc)))) (co_heap co)\<rparr>)))"

fun apply_updates :: "tick_kind \<Rightarrow> head_update list \<Rightarrow> sched \<Rightarrow> unit outcome \<times> sched" where
  "apply_updates k [] s = (Ok (), s)"
| "apply_updates k ((pos, h) # us) s =
     (case set_head pos k h s of
        (Ok _, s1) \<Rightarrow> apply_updates k us s1
      | (Err e, s1) \<Rightarrow> (Panic, s1)
      | (Panic, s1) \<Rightarrow> (Panic, s1))"

type_synonym tick_batch = "scheduled_tick list \<times> nat list"

definition collect_ticks :: "tick_kind \<Rightarrow> int \<Rightarrow> nat \<Rightarrow> sched \<Rightarrow> tick_batch outcome \<times> sched" where
  "collect_ticks k now max_ticks s =
     (if max_ticks = 0 then (Ok ([], []), s)
      else
        (case take_due k now s of
           (Panic, s1) \<Rightarrow> (Panic, s1)
         | (Err e, s1) \<Rightarrow> (Err e, s1)
         | (Ok due, s1) \<Rightarrow>
             if due = [] then (Ok ([], []), s1)
             else
               (case collect_registered_ticks k now max_ticks due (ws_store s1) of
                  Panic \<Rightarrow> (Panic, s1)
                | Err e \<Rightarrow> (Err e, s1)
                | Ok co \<Rightarrow>
                    (case apply_updates k (co_updates co) (s1\<lparr>ws_store := co_store co\<rparr>) of
                       (Ok _, s2) \<Rightarrow> (Ok (co_ticks co, co_changed co), s2)
                     | (Err e, s2) \<Rightarrow> (Panic, s2)
                     | (Panic, s2) \<Rightarrow> (Panic, s2)))))"

definition begin_tick :: "int \<Rightarrow> nat \<Rightarrow> sched \<Rightarrow> tick_batch outcome \<times> sched" where
  "begin_tick now max_ticks = collect_ticks KBlock now max_ticks"

definition collect_fluid_ticks :: "int \<Rightarrow> nat \<Rightarrow> sched \<Rightarrow> tick_batch outcome \<times> sched" where
  "collect_fluid_ticks now max_ticks = collect_ticks KFluid now max_ticks"

end
