(* ===== verification/Tick_Index.thy ===== *)
theory Tick_Index
  imports Tick_Scheduler
begin

text \<open>
  The invariant of the world tick index and its preservation by registration, unpacking,
  reconciliation, scheduling and the updates of one head. The invariant says what every
  \<open>assert!\<close> of the index relies on: the deadline sets hold exactly the heads of the active
  chunks, recorded heads agree with the queues, and no two positions share a container.
\<close>

section \<open>The set of deadlines an index must hold\<close>

definition head_entry :: "tick_kind \<Rightarrow> nat \<Rightarrow> chunk_pos \<Rightarrow> registered_chunk_ticks \<Rightarrow> (int \<times> int) set" where
  "head_entry k g p r =
     (if active_rank g r = None then {}
      else case rg_head k r of None \<Rightarrow> {} | Some t \<Rightarrow> {(t, packed_chunk_of p)})"

definition indexed ::
    "tick_kind \<Rightarrow> nat \<Rightarrow> (chunk_pos \<Rightarrow> registered_chunk_ticks option) \<Rightarrow> (int \<times> int) set" where
  "indexed k g ch = (\<Union>p. case ch p of None \<Rightarrow> {} | Some r \<Rightarrow> head_entry k g p r)"

definition positions_ok :: "(chunk_pos \<Rightarrow> registered_chunk_ticks option) \<Rightarrow> bool" where
  "positions_ok ch \<longleftrightarrow> (\<forall>p r. ch p = Some r \<longrightarrow> chunk_pos_ok p)"

lemma head_entry_snd: "e \<in> head_entry k g p r \<Longrightarrow> snd e = packed_chunk_of p"
  by (auto simp: head_entry_def split: if_splits option.splits)

lemma in_indexed: "e \<in> indexed k g ch \<longleftrightarrow> (\<exists>p r. ch p = Some r \<and> e \<in> head_entry k g p r)"
  by (auto simp: indexed_def split: option.splits)

lemma indexed_at:
  assumes "positions_ok ch" "chunk_pos_ok p"
  shows "e \<in> indexed k g ch \<and> snd e = packed_chunk_of p \<longleftrightarrow> (\<exists>r. ch p = Some r \<and> e \<in> head_entry k g p r)"
  unfolding in_indexed
  using assms head_entry_snd packed_chunk_inj unfolding positions_ok_def by metis

lemma indexed_upd:
  assumes "positions_ok ch" "chunk_pos_ok p"
  shows "indexed k g (ch(p := v)) =
     {e \<in> indexed k g ch. snd e \<noteq> packed_chunk_of p} \<union>
     (case v of None \<Rightarrow> {} | Some r \<Rightarrow> head_entry k g p r)"
proof -
  have "e \<in> indexed k g (ch(p := v)) \<longleftrightarrow>
      (e \<in> indexed k g ch \<and> snd e \<noteq> packed_chunk_of p) \<or> (\<exists>r. v = Some r \<and> e \<in> head_entry k g p r)" for e
  proof -
    have "(\<exists>q r. q \<noteq> p \<and> ch q = Some r \<and> e \<in> head_entry k g q r) \<longleftrightarrow>
        e \<in> indexed k g ch \<and> snd e \<noteq> packed_chunk_of p"
      unfolding in_indexed
      using assms head_entry_snd packed_chunk_inj unfolding positions_ok_def by metis
    then show ?thesis unfolding in_indexed by (auto simp: fun_upd_apply)
  qed
  then show ?thesis by (auto split: option.splits)
qed

lemma rg_head_set [simp]:
  "rg_head k (rg_set_head k' h r) = (if k = k' then h else rg_head k r)"
  by (cases k; cases k') simp_all

lemma rg_set_head_same [simp]: "rg_set_head k (rg_head k r) r = r"
  by (cases k) simp_all

lemma rg_set_head_fields [simp]:
  "rg_container (rg_set_head k h r) = rg_container r"
  "rg_active (rg_set_head k h r) = rg_active r"
  "active_rank g (rg_set_head k h r) = active_rank g r"
  by (cases k; simp add: active_rank_def)+

lemma set_deadlines_fields [simp]:
  "ws_chunks (set_deadlines k d s) = ws_chunks s"
  "ws_store (set_deadlines k d s) = ws_store s"
  "ws_generation (set_deadlines k d s) = ws_generation s"
  "ws_order (set_deadlines k d s) = ws_order s"
  "deadlines k' (set_deadlines k d s) = (if k' = k then d else deadlines k' s)"
  by (cases k; cases k'; simp)+

lemma deadlines_other [simp]:
  "deadlines k (s\<lparr>ws_chunks := x\<rparr>) = deadlines k s"
  "deadlines k (s\<lparr>ws_store := y\<rparr>) = deadlines k s"
  "deadlines k (s\<lparr>ws_order := z\<rparr>) = deadlines k s"
  by (cases k; simp)+

section \<open>The invariant\<close>

definition index_ok :: "sched \<Rightarrow> bool" where
  "index_ok s \<longleftrightarrow> positions_ok (ws_chunks s) \<and>
     (\<forall>k. bts_ok (deadlines k s) \<and> set (deadlines k s) = indexed k (ws_generation s) (ws_chunks s))"

definition owners_ok :: "sched \<Rightarrow> bool" where
  "owners_ok s \<longleftrightarrow>
     (\<forall>p r. ws_chunks s p = Some r \<longrightarrow> ct_lifecycle (ws_store s (rg_container r)) = Registered) \<and>
     (\<forall>p q r r'. ws_chunks s p = Some r \<longrightarrow> ws_chunks s q = Some r' \<longrightarrow>
        rg_container r = rg_container r' \<longrightarrow> p = q)"

text \<open>The heads of the pairs in \<open>D\<close> may be stale; between operations \<open>D\<close> is empty.\<close>

definition heads_ok :: "(chunk_pos \<times> tick_kind) set \<Rightarrow> sched \<Rightarrow> bool" where
  "heads_ok D s \<longleftrightarrow>
     (\<forall>p r k. ws_chunks s p = Some r \<longrightarrow> (p, k) \<notin> D \<longrightarrow>
        rg_head k r = head_trigger k (ws_store s (rg_container r)))"

definition generations_ok :: "sched \<Rightarrow> bool" where
  "generations_ok s \<longleftrightarrow> ws_generation s < 2 ^ 64 \<and>
     (\<forall>p r a. ws_chunks s p = Some r \<longrightarrow> rg_active r = Some a \<longrightarrow> ar_generation a \<le> ws_generation s)"

definition queues_ok :: "sched \<Rightarrow> bool" where
  "queues_ok s \<longleftrightarrow> (\<forall>c k. tl_ordered (ct_list k (ws_store s c)))"

definition sched_inv_except :: "(chunk_pos \<times> tick_kind) set \<Rightarrow> sched \<Rightarrow> bool" where
  "sched_inv_except D s \<longleftrightarrow>
     index_ok s \<and> owners_ok s \<and> heads_ok D s \<and> generations_ok s \<and> queues_ok s"

abbreviation sched_inv :: "sched \<Rightarrow> bool" where
  "sched_inv \<equiv> sched_inv_except {}"

lemma sched_invD:
  assumes "sched_inv_except D s" "ws_chunks s p = Some r"
  shows "ct_lifecycle (ws_store s (rg_container r)) = Registered"
    and "chunk_pos_ok p"
    and "ws_chunks s q = Some r' \<Longrightarrow> rg_container r' = rg_container r \<Longrightarrow> q = p"
    and "(p, k) \<notin> D \<Longrightarrow> rg_head k r = head_trigger k (ws_store s (rg_container r))"
    and "rg_active r = Some a \<Longrightarrow> ar_generation a \<le> ws_generation s"
  using assms
  unfolding sched_inv_except_def owners_ok_def index_ok_def positions_ok_def heads_ok_def generations_ok_def
  by (blast, blast, metis, blast, blast)

lemmas sched_inv_defs = sched_inv_except_def index_ok_def owners_ok_def heads_ok_def
  generations_ok_def queues_ok_def

text \<open>The operations on heads, ranks and queues leave the registered containers alone.\<close>

definition same_containers :: "sched \<Rightarrow> sched \<Rightarrow> bool" where
  "same_containers s s' \<longleftrightarrow>
     (\<forall>p. map_option rg_container (ws_chunks s' p) = map_option rg_container (ws_chunks s p))"

lemma same_containers_upd:
  "ws_chunks s' = (ws_chunks s)(p \<mapsto> r') \<Longrightarrow> ws_chunks s p = Some r \<Longrightarrow> rg_container r' = rg_container r \<Longrightarrow>
     same_containers s s'"
  by (simp add: same_containers_def)

lemma same_containers_trans: "same_containers s s' \<Longrightarrow> same_containers s' s'' \<Longrightarrow> same_containers s s''"
  by (simp add: same_containers_def)

section \<open>Updating one head\<close>

lemma unindex_head_spec:
  assumes "bts_ok (deadlines k s)" "\<And>t. h = Some t \<Longrightarrow> (t, pk) \<in> set (deadlines k s)"
  obtains d where "unindex_head k pk h s = (True, set_deadlines k d s)" "bts_ok d"
    "set d = set (deadlines k s) - (\<lambda>t. (t, pk)) ` set_option h"
proof (cases h)
  case None
  have "set_deadlines k (deadlines k s) s = s" by (cases k) simp_all
  with None assms that [of "deadlines k s"] show ?thesis by (simp add: unindex_head_def)
next
  case (Some t)
  with assms that [of "snd (bts_remove (t, pk) (deadlines k s))"] show ?thesis
    by (simp add: unindex_head_def split_def bts_simps)
qed

lemma index_head_spec:
  assumes "bts_ok (deadlines k s)" "\<And>t. h = Some t \<Longrightarrow> (t, pk) \<notin> set (deadlines k s)"
  obtains d where "index_head k pk h s = (True, set_deadlines k d s)" "bts_ok d"
    "set d = set (deadlines k s) \<union> (\<lambda>t. (t, pk)) ` set_option h"
proof (cases h)
  case None
  have "set_deadlines k (deadlines k s) s = s" by (cases k) simp_all
  with None assms that [of "deadlines k s"] show ?thesis by (simp add: index_head_def)
next
  case (Some t)
  with assms that [of "snd (bts_insert (t, pk) (deadlines k s))"] show ?thesis
    by (simp add: index_head_def split_def bts_simps)
qed

lemma head_entry_eq:
  "head_entry k g p r = (if active_rank g r = None then {} else (\<lambda>t. (t, packed_chunk_of p)) ` set_option (rg_head k r))"
  by (auto simp: head_entry_def split: option.splits)

text \<open>
  Setting a head succeeds on a registered chunk whatever the new head is: neither \<open>assert!\<close> of
  the deadline index can fire, and the index again holds exactly the active heads.
\<close>

lemma set_head_spec:
  assumes ix: "index_ok s" and r: "ws_chunks s p = Some r"
  obtains s' where "set_head p k h s = (Ok (), s')" "index_ok s'"
    "ws_chunks s' = (ws_chunks s)(p \<mapsto> rg_set_head k h r)" "ws_store s' = ws_store s"
    "ws_generation s' = ws_generation s" "ws_order s' = ws_order s"
proof (cases "rg_head k r = h")
  case True
  then have "(ws_chunks s)(p \<mapsto> rg_set_head k h r) = ws_chunks s"
    using r by (auto simp: fun_eq_iff)
  with True r ix that [of s] show ?thesis by (simp add: set_head_def)
next
  case False
  let ?g = "ws_generation s" and ?pk = "packed_chunk_of p"
  let ?ch = "(ws_chunks s)(p \<mapsto> rg_set_head k h r)"
  have pos: "positions_ok (ws_chunks s)" and b: "\<And>k. bts_ok (deadlines k s)"
    and d: "\<And>k. set (deadlines k s) = indexed k ?g (ws_chunks s)"
    using ix by (simp_all add: index_ok_def)
  with r have okp: "chunk_pos_ok p" and pos': "positions_ok ?ch"
    by (auto simp: positions_ok_def)
  have at: "(t, ?pk) \<in> set (deadlines k' s) \<longleftrightarrow> active_rank ?g r \<noteq> None \<and> rg_head k' r = Some t" for t k'
    using indexed_at [OF pos okp, of "(t, ?pk)" k' ?g] r d by (auto simp: head_entry_eq)
  have upd: "indexed k' ?g ?ch = {e \<in> indexed k' ?g (ws_chunks s). snd e \<noteq> ?pk} \<union> head_entry k' ?g p (rg_set_head k h r)" for k'
    using indexed_upd [OF pos okp, of k' ?g "Some (rg_set_head k h r)"] by simp
  have rest: "indexed k' ?g (ws_chunks s) = {e \<in> indexed k' ?g (ws_chunks s). snd e \<noteq> ?pk} \<union> head_entry k' ?g p r" for k'
    using indexed_at [OF pos okp, of _ k' ?g] r by auto
  show ?thesis
  proof (cases "active_rank ?g r = None")
    case True
    have "index_ok (s\<lparr>ws_chunks := ?ch\<rparr>)"
      unfolding index_ok_def using b d pos' upd rest True
      by (simp add: head_entry_eq)
    with True False r that [of "s\<lparr>ws_chunks := ?ch\<rparr>"] show ?thesis
      by (simp add: set_head_def Let_def)
  next
    case active: False
    obtain d1 where u: "unindex_head k ?pk (rg_head k r) s = (True, set_deadlines k d1 s)" "bts_ok d1"
      "set d1 = set (deadlines k s) - (\<lambda>t. (t, ?pk)) ` set_option (rg_head k r)"
      using unindex_head_spec [OF b [of k], of "rg_head k r" ?pk] at active by blast
    let ?s2 = "(set_deadlines k d1 s)\<lparr>ws_chunks := ?ch\<rparr>"
    have "bts_ok (deadlines k ?s2)" "\<And>t. h = Some t \<Longrightarrow> (t, ?pk) \<notin> set (deadlines k ?s2)"
      using u(2,3) at active False by auto
    then obtain d2 where i: "index_head k ?pk h ?s2 = (True, set_deadlines k d2 ?s2)" "bts_ok d2"
      "set d2 = set (deadlines k ?s2) \<union> (\<lambda>t. (t, ?pk)) ` set_option h"
      by (rule index_head_spec)
    have entries: "head_entry k ?g p r = (\<lambda>t. (t, ?pk)) ` set_option (rg_head k r)"
      "head_entry k ?g p (rg_set_head k h r) = (\<lambda>t. (t, ?pk)) ` set_option h"
      using active by (auto simp: head_entry_eq)
    have "set d1 = {e \<in> indexed k ?g (ws_chunks s). snd e \<noteq> ?pk}"
      unfolding u(3) d using rest [of k] entries(1) by auto
    then have "set d2 = indexed k ?g ?ch"
      unfolding i(3) upd entries by simp
    moreover have "indexed k' ?g ?ch = indexed k' ?g (ws_chunks s)" if "k' \<noteq> k" for k'
    proof -
      from that have "head_entry k' ?g p (rg_set_head k h r) = head_entry k' ?g p r"
        by (simp add: head_entry_eq)
      with upd [of k'] rest [of k'] show ?thesis by simp
    qed
    ultimately have "index_ok (set_deadlines k d2 ?s2)"
      unfolding index_ok_def using b d pos' i(2) by simp
    with u(1) i(1) active False r that [of "set_deadlines k d2 ?s2"] show ?thesis
      by (simp add: set_head_def Let_def)
  qed
qed

text \<open>With the queue's own head, the pair stops being stale.\<close>

lemma set_head_inv:
  assumes inv: "sched_inv_except D s" and r: "ws_chunks s p = Some r"
    and h: "h = head_trigger k (ws_store s (rg_container r))"
  obtains s' where "set_head p k h s = (Ok (), s')" "sched_inv_except (D - {(p, k)}) s'"
    "ws_chunks s' = (ws_chunks s)(p \<mapsto> rg_set_head k h r)" "ws_store s' = ws_store s"
    "ws_generation s' = ws_generation s" "ws_order s' = ws_order s"
proof -
  from inv have "index_ok s" by (simp add: sched_inv_except_def)
  from this r obtain s' where s': "set_head p k h s = (Ok (), s')" "index_ok s'"
    "ws_chunks s' = (ws_chunks s)(p \<mapsto> rg_set_head k h r)" "ws_store s' = ws_store s"
    "ws_generation s' = ws_generation s" "ws_order s' = ws_order s"
    by (rule set_head_spec)
  have "owners_ok s'"
    using inv r s'(3,4) by (auto simp: sched_inv_except_def owners_ok_def split: if_splits)
  moreover have "heads_ok (D - {(p, k)}) s'"
    using inv r s'(3,4) h by (auto simp: sched_inv_except_def heads_ok_def split: if_splits)
  moreover have "generations_ok s'"
    using inv r s'(3,5) by (auto simp: sched_inv_except_def generations_ok_def split: if_splits)
  moreover have "queues_ok s'"
    using inv s'(4) by (simp add: sched_inv_except_def queues_ok_def)
  ultimately show ?thesis
    using that s' by (simp add: sched_inv_except_def)
qed

text \<open>Replacing the queue of one registered container makes only that head stale.\<close>

lemma store_update_inv:
  assumes inv: "sched_inv_except D s" and ord: "\<And>k. tl_ordered (ct_list k c)"
    and life: "ct_lifecycle c = ct_lifecycle (ws_store s cid)"
    and same: "\<And>p r k. ws_chunks s p = Some r \<Longrightarrow> rg_container r = cid \<Longrightarrow> (p, k) \<notin> D \<Longrightarrow>
                 head_trigger k c = head_trigger k (ws_store s cid)"
  shows "sched_inv_except D (s\<lparr>ws_store := (ws_store s)(cid := c)\<rparr>)"
proof -
  let ?s = "s\<lparr>ws_store := (ws_store s)(cid := c)\<rparr>"
  have "index_ok ?s" "generations_ok ?s"
    using inv by (simp_all add: sched_inv_except_def index_ok_def generations_ok_def)
  moreover have "owners_ok ?s"
    using inv life by (auto simp: sched_inv_except_def owners_ok_def)
  moreover have "heads_ok D ?s"
    using inv same by (auto simp: sched_inv_except_def heads_ok_def)
  moreover have "queues_ok ?s"
    using inv ord by (auto simp: sched_inv_except_def queues_ok_def)
  ultimately show ?thesis by (simp add: sched_inv_except_def)
qed

lemma sched_inv_mono: "sched_inv_except D s \<Longrightarrow> D \<subseteq> E \<Longrightarrow> sched_inv_except E s"
  by (auto simp: sched_inv_except_def heads_ok_def)

section \<open>Registration, unpacking, unregistration\<close>

lemma sched_new_inv: "(\<And>c k. tl_ordered (ct_list k (store c))) \<Longrightarrow> sched_inv (sched_new store)"
proof -
  assume "\<And>c k. tl_ordered (ct_list k (store c))"
  moreover have "deadlines k (sched_new store) = []" for k by (cases k) (simp_all add: sched_new_def)
  ultimately show ?thesis
    by (simp add: sched_inv_defs positions_ok_def indexed_def sched_new_def)
qed

lemma register_chunk_inv:
  assumes inv: "sched_inv s" and pos: "chunk_pos_ok (fc_pos ch)"
  shows "fst (register_chunk ch s) \<noteq> Panic \<and> sched_inv (snd (register_chunk ch s))"
proof (cases "ct_lifecycle (ws_store s (fc_container ch)) = PrePublication \<and> ws_chunks s (fc_pos ch) = None")
  case True
  let ?cid = "fc_container ch" and ?c = "ws_store s (fc_container ch)"
  let ?r = "\<lparr>rg_container = ?cid, rg_block_head = head_trigger KBlock ?c,
             rg_fluid_head = head_trigger KFluid ?c, rg_active = None\<rparr>"
  let ?s = "snd (register_chunk ch s)"
  have s': "ws_chunks ?s = (ws_chunks s)(fc_pos ch \<mapsto> ?r)"
    "ws_store ?s = (ws_store s)(?cid := ?c\<lparr>ct_lifecycle := Registered\<rparr>)"
    "ws_generation ?s = ws_generation s" "\<And>k. deadlines k ?s = deadlines k s"
    and ok: "fst (register_chunk ch s) = Ok ()"
    using True by (simp_all add: register_chunk_def Let_def)
  have fresh: "rg_container r \<noteq> ?cid" if "ws_chunks s p = Some r" for p r
    using sched_invD(1) [OF inv that] True by auto
  have head: "rg_head k ?r = head_trigger k ?c" for k by (cases k) simp_all
  have "index_ok ?s"
    unfolding index_ok_def s'
  proof (intro conjI allI)
    show "positions_ok ((ws_chunks s)(fc_pos ch \<mapsto> ?r))"
      using inv pos by (auto simp: sched_inv_except_def index_ok_def positions_ok_def)
    fix k
    from inv have ix: "positions_ok (ws_chunks s)" "bts_ok (deadlines k s)"
      "set (deadlines k s) = indexed k (ws_generation s) (ws_chunks s)"
      by (simp_all add: sched_inv_except_def index_ok_def)
    show "bts_ok (deadlines k s)" by (rule ix(2))
    have "{e \<in> indexed k (ws_generation s) (ws_chunks s). snd e = packed_chunk_of (fc_pos ch)} = {}"
      using indexed_at [OF ix(1) pos] True by auto
    then show "set (deadlines k s) = indexed k (ws_generation s) ((ws_chunks s)(fc_pos ch \<mapsto> ?r))"
      unfolding indexed_upd [OF ix(1) pos] ix(3) by (auto simp: head_entry_def active_rank_def)
  qed
  moreover have "owners_ok ?s"
    using sched_invD(1,3) [OF inv] fresh fresh [symmetric] unfolding owners_ok_def s' by (auto split: if_splits)
  moreover have "heads_ok {} ?s"
    using inv fresh head unfolding heads_ok_def s' sched_inv_except_def
    by (auto simp: head_trigger_def split: if_splits)
  moreover have "generations_ok ?s"
    using inv unfolding generations_ok_def s' sched_inv_except_def by (auto split: if_splits)
  moreover have "queues_ok ?s"
    using inv unfolding queues_ok_def s' sched_inv_except_def by auto
  ultimately show ?thesis using ok by (simp add: sched_inv_except_def)
next
  case False
  then show ?thesis using inv by (auto simp: register_chunk_def Let_def)
qed

text \<open>An index stays right when one chunk's entry changes together with its deadlines.\<close>

lemma index_ok_upd:
  assumes ix: "index_ok s" and okp: "chunk_pos_ok p"
    and ch: "ws_chunks s' = (ws_chunks s)(p := v)" and g: "ws_generation s' = ws_generation s"
    and b: "\<And>k. bts_ok (deadlines k s')"
    and d: "\<And>k. set (deadlines k s') = {e \<in> set (deadlines k s). snd e \<noteq> packed_chunk_of p}
              \<union> (case v of None \<Rightarrow> {} | Some r \<Rightarrow> head_entry k (ws_generation s) p r)"
  shows "index_ok s'"
proof -
  have pos: "positions_ok (ws_chunks s)" and i: "\<And>k. set (deadlines k s) = indexed k (ws_generation s) (ws_chunks s)"
    using ix by (simp_all add: index_ok_def)
  have "positions_ok (ws_chunks s')"
    using pos okp unfolding ch positions_ok_def by auto
  moreover have "set (deadlines k s') = indexed k (ws_generation s') (ws_chunks s')" for k
    unfolding ch g indexed_upd [OF pos okp] d i ..
  ultimately show ?thesis using b by (simp add: index_ok_def)
qed

lemma entries_of:
  assumes ix: "index_ok s" and okp: "chunk_pos_ok p"
  shows "(t, packed_chunk_of p) \<in> set (deadlines k s) \<longleftrightarrow>
     (\<exists>r. ws_chunks s p = Some r \<and> active_rank (ws_generation s) r \<noteq> None \<and> rg_head k r = Some t)"
  using indexed_at [OF _ okp, of "ws_chunks s" "(t, packed_chunk_of p)" k "ws_generation s"] ix
  by (auto simp: index_ok_def head_entry_eq)

lemma entries_other:
  assumes ix: "index_ok s" and okp: "chunk_pos_ok p"
    and r: "\<And>r. ws_chunks s p = Some r \<Longrightarrow> rg_head k r = h \<or> active_rank (ws_generation s) r = None"
  shows "set (deadlines k s) - (\<lambda>t. (t, packed_chunk_of p)) ` set_option h =
     {e \<in> set (deadlines k s). snd e \<noteq> packed_chunk_of p}"
proof -
  have "e \<in> (\<lambda>t. (t, packed_chunk_of p)) ` set_option h \<longleftrightarrow> snd e = packed_chunk_of p"
    if "e \<in> set (deadlines k s)" for e
  proof -
    obtain t q where e: "e = (t, q)" by (cases e)
    show ?thesis
    proof (cases "q = packed_chunk_of p")
      case True
      with that e entries_of [OF ix okp, of t k] r show ?thesis by auto
    qed (use e in auto)
  qed
  then show ?thesis by blast
qed

lemma unpack_chunk_inv:
  assumes inv: "sched_inv s"
  shows "(case ws_chunks s p of
            None \<Rightarrow> unpack_chunk p now s = (Err (MissingContainer p), s)
          | Some r \<Rightarrow> \<exists>s'. unpack_chunk p now s = (Ok (), s') \<and> sched_inv s' \<and>
              same_containers s s' \<and>
              (\<exists>c. ws_store s' = (ws_store s)(rg_container r := c) \<and> ct_lifecycle c = Registered \<and>
                (\<forall>k. ct_list k c = tl_unpack now (ct_list k (ws_store s (rg_container r))))))"
proof (cases "ws_chunks s p")
  case None
  then show ?thesis by (simp add: unpack_chunk_def)
next
  case (Some r)
  let ?cid = "rg_container r" and ?c = "ws_store s (rg_container r)"
  let ?c2 = "ct_put KFluid (tl_unpack now (ct_list KFluid ?c)) (ct_put KBlock (tl_unpack now (ct_list KBlock ?c)) ?c)"
  let ?s1 = "s\<lparr>ws_store := (ws_store s)(?cid := ?c2)\<rparr>"
  let ?D = "{(p, KBlock), (p, KFluid)}"
  have reg: "ct_lifecycle ?c = Registered" using sched_invD(1) [OF inv Some] .
  have lists: "ct_list k ?c2 = tl_unpack now (ct_list k ?c)" for k
    by (cases k) simp_all
  have ord: "tl_ordered (ct_list k ?c)" for k
    using inv by (simp add: sched_inv_except_def queues_ok_def)
  have all: "(p, k) \<in> ?D" for k by (cases k) simp_all
  have "sched_inv_except ?D ?s1"
  proof (rule store_update_inv)
    show "sched_inv_except ?D s" using inv by (rule sched_inv_mono) simp
    show "tl_ordered (ct_list k ?c2)" for k
      unfolding lists using ord by (rule tl_unpack_fields(4))
    fix q r' k
    assume "ws_chunks s q = Some r'" "rg_container r' = ?cid" "(q, k) \<notin> ?D"
    with sched_invD(3) [OF inv Some] all show "head_trigger k ?c2 = head_trigger k ?c" by blast
  qed simp
  moreover have "ws_chunks ?s1 p = Some r" using Some by simp
  ultimately obtain s2 where s2: "set_head p KBlock (head_trigger KBlock ?c2) ?s1 = (Ok (), s2)"
    "sched_inv_except (?D - {(p, KBlock)}) s2" "ws_store s2 = ws_store ?s1"
    "ws_chunks s2 = (ws_chunks ?s1)(p \<mapsto> rg_set_head KBlock (head_trigger KBlock ?c2) r)"
    by (rule set_head_inv) (auto intro: that)
  let ?r2 = "rg_set_head KBlock (head_trigger KBlock ?c2) r"
  have "ws_chunks s2 p = Some ?r2" using s2(4) by simp
  from s2(2) this obtain s3 where s3: "set_head p KFluid (head_trigger KFluid ?c2) s2 = (Ok (), s3)"
    "sched_inv_except (?D - {(p, KBlock)} - {(p, KFluid)}) s3" "ws_store s3 = ws_store s2"
    "ws_chunks s3 = (ws_chunks s2)(p \<mapsto> rg_set_head KFluid (head_trigger KFluid ?c2) ?r2)"
    by (rule set_head_inv [where h = "head_trigger KFluid ?c2"]) (auto simp: s2(3) intro: that)
  moreover have "?D - {(p, KBlock)} - {(p, KFluid)} = {}" by auto
  moreover have "unpack_chunk p now s = (Ok (), s3)"
    using Some reg s2(1) s3(1) by (simp add: unpack_chunk_def Let_def)
  moreover have "same_containers s s3"
    using Some s2(4) s3(4) by (simp add: same_containers_def)
  moreover have "ws_store s3 = (ws_store s)(?cid := ?c2)" using s3(3) s2(3) by simp
  moreover have "ct_lifecycle ?c2 = Registered" using reg by simp
  ultimately show ?thesis unfolding Some option.case
    using lists by (intro exI [of _ s3] conjI exI [of _ ?c2]) simp_all
qed

lemma unregister_chunk_inv:
  assumes inv: "sched_inv s"
  shows "\<exists>s'. unregister_chunk p s = (Ok (), s') \<and> sched_inv s' \<and> ws_chunks s' = (ws_chunks s)(p := None) \<and>
    ws_store s' = (case ws_chunks s p of None \<Rightarrow> ws_store s
      | Some r \<Rightarrow> (ws_store s)(rg_container r := (ws_store s (rg_container r))\<lparr>ct_lifecycle := Finalized\<rparr>))"
proof (cases "ws_chunks s p")
  case None
  then have "(ws_chunks s)(p := None) = ws_chunks s" by auto
  with None inv show ?thesis by (simp add: unregister_chunk_def)
next
  case (Some r)
  let ?g = "ws_generation s" and ?pk = "packed_chunk_of p"
  let ?s1 = "s\<lparr>ws_chunks := (ws_chunks s)(p := None)\<rparr>"
  have ix: "index_ok s" using inv by (simp add: sched_inv_except_def)
  have okp: "chunk_pos_ok p" using sched_invD(2) [OF inv Some] .
  have b: "bts_ok (deadlines k s)" for k using ix by (simp add: index_ok_def)
  define active where "active = (active_rank ?g r \<noteq> None)"
  have un: "\<exists>d. (if active then unindex_head k ?pk (rg_head k r) s' else (True, s')) = (True, set_deadlines k d s')
      \<and> bts_ok d \<and> set d = {e \<in> set (deadlines k s). snd e \<noteq> ?pk}"
    if "deadlines k s' = deadlines k s" for k s'
  proof (cases active)
    case True
    have "\<And>t. rg_head k r = Some t \<Longrightarrow> (t, ?pk) \<in> set (deadlines k s')"
      using entries_of [OF ix okp] Some True that by (auto simp: active_def)
    moreover have "bts_ok (deadlines k s')" unfolding that by (rule b)
    ultimately obtain d where
      "unindex_head k ?pk (rg_head k r) s' = (True, set_deadlines k d s')" "bts_ok d"
      "set d = set (deadlines k s') - (\<lambda>t. (t, ?pk)) ` set_option (rg_head k r)"
      by (metis unindex_head_spec [of k s' "rg_head k r" ?pk])
    moreover have "set (deadlines k s) - (\<lambda>t. (t, ?pk)) ` set_option (rg_head k r) = {e \<in> set (deadlines k s). snd e \<noteq> ?pk}"
      by (rule entries_other [OF ix okp]) (use Some in simp)
    ultimately show ?thesis using True that by (intro exI [of _ d]) simp
  next
    case False
    have "set (deadlines k s) = {e \<in> set (deadlines k s). snd e \<noteq> ?pk}"
      using entries_other [OF ix okp, of k None] Some False by (auto simp: active_def)
    moreover have "set_deadlines k (deadlines k s) s' = s'" using that by (cases k) auto
    ultimately show ?thesis using False b [of k] by (intro exI [of _ "deadlines k s"]) simp
  qed
  obtain d1 where d1: "(if active then unindex_head KBlock ?pk (rg_block_head r) ?s1 else (True, ?s1)) = (True, set_deadlines KBlock d1 ?s1)"
    "bts_ok d1" "set d1 = {e \<in> set (deadlines KBlock s). snd e \<noteq> ?pk}"
    using un [of KBlock ?s1] by (auto simp del: set_deadlines.simps cong: if_cong)
  let ?s2 = "set_deadlines KBlock d1 ?s1"
  obtain d2 where d2: "(if active then unindex_head KFluid ?pk (rg_fluid_head r) ?s2 else (True, ?s2)) = (True, set_deadlines KFluid d2 ?s2)"
    "bts_ok d2" "set d2 = {e \<in> set (deadlines KFluid s). snd e \<noteq> ?pk}"
    using un [of KFluid ?s2] by (auto simp del: set_deadlines.simps cong: if_cong)
  let ?s3 = "set_deadlines KFluid d2 ?s2"
  let ?c = "(ws_store s (rg_container r))\<lparr>ct_lifecycle := Finalized\<rparr>"
  let ?s4 = "?s3\<lparr>ws_store := (ws_store s)(rg_container r := ?c)\<rparr>"
  have run: "unregister_chunk p s = (Ok (), ?s4)"
    unfolding unregister_chunk_def Some option.case Let_def active_def [symmetric] d1(1) prod.case d2(1)
    by simp
  have "index_ok ?s4"
  proof (rule index_ok_upd [OF ix okp, of _ None])
    show "bts_ok (deadlines k ?s4)" for k using d1(2) d2(2) by (cases k) simp_all
    show "set (deadlines k ?s4) = {e \<in> set (deadlines k s). snd e \<noteq> ?pk} \<union>
        (case None of None \<Rightarrow> {} | Some r \<Rightarrow> head_entry k ?g p r)" for k
      using d1(3) d2(3) by (cases k) simp_all
  qed simp_all
  moreover have "owners_ok ?s4"
    using sched_invD(1,3) [OF inv] sched_invD(3) [OF inv Some] unfolding owners_ok_def by auto
  moreover have "heads_ok {} ?s4"
    using sched_invD(4) [OF inv] sched_invD(3) [OF inv Some] unfolding heads_ok_def by (auto simp: head_trigger_def)
  moreover have "generations_ok ?s4" "queues_ok ?s4"
    using inv by (auto simp: sched_inv_except_def generations_ok_def queues_ok_def)
  ultimately show ?thesis using run Some by (simp add: sched_inv_except_def)
qed

section \<open>Reconciliation\<close>

lemma advance_fields:
  assumes "generations_ok s"
  defines "s' \<equiv> advance_active_generation s"
  shows "ws_store s' = ws_store s" "deadlines k s' = deadlines k s"
    "generations_ok s'"
    "ws_chunks s' p = Some r' \<Longrightarrow> \<exists>r. ws_chunks s p = Some r \<and> rg_container r' = rg_container r
       \<and> (\<forall>k. rg_head k r' = rg_head k r) \<and> active_rank (ws_generation s') r' = None"
    "ws_chunks s' p = None \<longleftrightarrow> ws_chunks s p = None"
proof -
  show "ws_store s' = ws_store s" "deadlines k s' = deadlines k s"
    by (cases k; simp add: s'_def advance_active_generation_def)+
  show "generations_ok s'"
    using assms(1) unfolding s'_def generations_ok_def advance_active_generation_def by fastforce
  show "ws_chunks s' p = None \<longleftrightarrow> ws_chunks s p = None"
    by (simp add: s'_def advance_active_generation_def)
  have heads: "rg_head k (r\<lparr>rg_active := None\<rparr>) = rg_head k r" for k r by (cases k) simp_all
  assume r': "ws_chunks s' p = Some r'"
  show "\<exists>r. ws_chunks s p = Some r \<and> rg_container r' = rg_container r
       \<and> (\<forall>k. rg_head k r' = rg_head k r) \<and> active_rank (ws_generation s') r' = None"
  proof (cases "ws_generation s + 1 < 2 ^ 64")
    case True
    then have "ws_chunks s p = Some r'" "ws_generation s' = Suc (ws_generation s)"
      using r' by (simp_all add: s'_def advance_active_generation_def)
    moreover from this assms(1) have "active_rank (Suc (ws_generation s)) r' = None"
      by (fastforce simp: active_rank_def generations_ok_def split: option.splits)
    ultimately show ?thesis by simp
  next
    case False
    then show ?thesis
      using r' heads by (auto simp: s'_def advance_active_generation_def active_rank_def)
  qed
qed

text \<open>The index while the ranks are being handed out: the chunks still to come are inactive.\<close>

lemma activate_chunk:
  fixes rank :: nat
  assumes ix: "index_ok s" and r: "ws_chunks s p = Some r"
    and idle: "active_rank (ws_generation s) r = None"
  defines "r1 \<equiv> r\<lparr>rg_active := Some \<lparr>ar_generation = ws_generation s, ar_rank = rank\<rparr>\<rparr>"
  obtains s' where
    "reconcile_from (ws_generation s) rank (p # ps) s = reconcile_from (ws_generation s) (Suc rank) ps s'"
    "index_ok s'" "ws_chunks s' = (ws_chunks s)(p \<mapsto> r1)" "ws_store s' = ws_store s"
    "ws_generation s' = ws_generation s"
proof -
  let ?g = "ws_generation s" and ?pk = "packed_chunk_of p"
  let ?s1 = "s\<lparr>ws_chunks := (ws_chunks s)(p \<mapsto> r1)\<rparr>"
  have okp: "chunk_pos_ok p" using ix r by (simp add: index_ok_def positions_ok_def)
  have b: "bts_ok (deadlines k s)" for k using ix by (simp add: index_ok_def)
  have none: "(t, ?pk) \<notin> set (deadlines k s)" for t k
    using entries_of [OF ix okp] r idle by simp
  have heads: "rg_head k r1 = rg_head k r" for k by (cases k) (simp_all add: r1_def)
  have act: "active_rank ?g r1 = Some rank" by (simp add: active_rank_def r1_def)
  have ins: "\<exists>d. index_head k ?pk (rg_head k r) s' = (True, set_deadlines k d s') \<and> bts_ok d
      \<and> set d = set (deadlines k s) \<union> (\<lambda>t. (t, ?pk)) ` set_option (rg_head k r)"
    if "deadlines k s' = deadlines k s" for k s'
    by (rule index_head_spec [of k s' "rg_head k r" ?pk]) (use b [of k] none [of _ k] that in auto)
  obtain d1 where d1: "index_head KBlock ?pk (rg_block_head r) ?s1 = (True, set_deadlines KBlock d1 ?s1)"
    "bts_ok d1" "set d1 = set (deadlines KBlock s) \<union> (\<lambda>t. (t, ?pk)) ` set_option (rg_block_head r)"
    using ins [of KBlock ?s1] by auto
  let ?s2 = "set_deadlines KBlock d1 ?s1"
  obtain d2 where d2: "index_head KFluid ?pk (rg_fluid_head r) ?s2 = (True, set_deadlines KFluid d2 ?s2)"
    "bts_ok d2" "set d2 = set (deadlines KFluid s) \<union> (\<lambda>t. (t, ?pk)) ` set_option (rg_fluid_head r)"
    using ins [of KFluid ?s2] by auto
  let ?s3 = "set_deadlines KFluid d2 ?s2"
  have keep: "{e \<in> set (deadlines k s). snd e \<noteq> ?pk} = set (deadlines k s)" for k
    using none [of _ k] by (intro set_eqI) (case_tac x, auto)
  have "index_ok ?s3"
  proof (rule index_ok_upd [OF ix okp, of _ "Some r1"])
    show "bts_ok (deadlines k ?s3)" for k using d1(2) d2(2) by (cases k) simp_all
    show "set (deadlines k ?s3) = {e \<in> set (deadlines k s). snd e \<noteq> ?pk} \<union>
        (case Some r1 of None \<Rightarrow> {} | Some r \<Rightarrow> head_entry k ?g p r)" for k
      unfolding keep using d1(3) d2(3) act heads [of k] by (cases k) (simp_all add: head_entry_eq)
  qed simp_all
  moreover have "\<not> (case rg_active r of None \<Rightarrow> False | Some a \<Rightarrow> ar_generation a = ?g)"
    using idle by (auto simp: active_rank_def split: option.splits)
  then have "reconcile_from ?g rank (p # ps) s = reconcile_from ?g (Suc rank) ps ?s3"
    using r d1(1) d2(1) by (simp add: r1_def)
  ultimately show ?thesis using that by simp
qed

lemma activate_inv:
  fixes rank :: nat
  assumes inv: "sched_inv s" and r: "ws_chunks s p = Some r"
    and idle: "active_rank (ws_generation s) r = None"
  defines "r1 \<equiv> r\<lparr>rg_active := Some \<lparr>ar_generation = ws_generation s, ar_rank = rank\<rparr>\<rparr>"
  obtains s' where
    "reconcile_from (ws_generation s) rank (p # ps) s = reconcile_from (ws_generation s) (Suc rank) ps s'"
    "sched_inv s'" "ws_chunks s' = (ws_chunks s)(p \<mapsto> r1)" "ws_store s' = ws_store s"
    "ws_generation s' = ws_generation s"
proof -
  have "index_ok s" using inv by (simp add: sched_inv_except_def)
  from this r idle obtain s' where s':
    "reconcile_from (ws_generation s) rank (p # ps) s = reconcile_from (ws_generation s) (Suc rank) ps s'"
    "index_ok s'" "ws_chunks s' = (ws_chunks s)(p \<mapsto> r1)" "ws_store s' = ws_store s"
    "ws_generation s' = ws_generation s"
    unfolding r1_def by (rule activate_chunk)
  have same: "rg_container r1 = rg_container r" "rg_head k r1 = rg_head k r" for k
    by (cases k; simp add: r1_def)+
  have "owners_ok s'"
    using inv r unfolding sched_inv_except_def owners_ok_def s'(3,4) by (auto simp: same)
  moreover have "heads_ok {} s'"
    using inv r unfolding sched_inv_except_def heads_ok_def s'(3,4) by (auto simp: same)
  moreover have "generations_ok s'"
    using inv unfolding sched_inv_except_def generations_ok_def s'(3,5) by (auto simp: r1_def)
  moreover have "queues_ok s'"
    using inv s'(4) by (simp add: sched_inv_except_def queues_ok_def)
  ultimately show ?thesis using that s' by (simp add: sched_inv_except_def)
qed

definition inactive :: "chunk_pos \<Rightarrow> sched \<Rightarrow> bool" where
  "inactive p s \<longleftrightarrow> (\<exists>r. ws_chunks s p = Some r \<and> active_rank (ws_generation s) r = None)"

definition has_rank :: "chunk_pos \<Rightarrow> nat \<Rightarrow> sched \<Rightarrow> bool" where
  "has_rank p n s \<longleftrightarrow> (\<exists>r. ws_chunks s p = Some r \<and> active_rank (ws_generation s) r = Some n)"

text \<open>
  Handing out the ranks stops with a panic exactly when a chunk comes twice; otherwise the chunk
  at index \<open>i\<close> has rank \<open>i\<close> and the other chunks are as before.
\<close>

lemma reconcile_from_spec:
  assumes "sched_inv s" "\<forall>p \<in> set ps. ws_chunks s p \<noteq> None"
  shows "if distinct ps \<and> (\<forall>p \<in> set ps. inactive p s)
         then \<exists>s'. reconcile_from (ws_generation s) rank ps s = (Ok (), s') \<and> sched_inv s' \<and>
                ws_generation s' = ws_generation s \<and> ws_store s' = ws_store s \<and>
                same_containers s s' \<and> (\<forall>i < length ps. has_rank (ps ! i) (rank + i) s') \<and>
                (\<forall>p. p \<notin> set ps \<longrightarrow> ws_chunks s' p = ws_chunks s p)
         else fst (reconcile_from (ws_generation s) rank ps s) = Panic"
  using assms
proof (induction ps arbitrary: s rank)
  case Nil
  then show ?case by (auto simp: same_containers_def)
next
  case (Cons p ps)
  let ?g = "ws_generation s"
  obtain r where r: "ws_chunks s p = Some r" using Cons.prems(2) by auto
  show ?case
  proof (cases "active_rank ?g r")
    case (Some n)
    then have "case rg_active r of None \<Rightarrow> False | Some a \<Rightarrow> ar_generation a = ?g"
      by (auto simp: active_rank_def split: option.splits if_splits)
    moreover have "\<not> inactive p s" using r Some by (simp add: inactive_def)
    ultimately show ?thesis using r by simp
  next
    case None
    define r1 where "r1 = r\<lparr>rg_active := Some \<lparr>ar_generation = ?g, ar_rank = rank\<rparr>\<rparr>"
    obtain s1 where s1: "reconcile_from ?g rank (p # ps) s = reconcile_from ?g (Suc rank) ps s1"
      "sched_inv s1" "ws_chunks s1 = (ws_chunks s)(p \<mapsto> r1)" "ws_store s1 = ws_store s"
      "ws_generation s1 = ?g"
      using Cons.prems(1) r None unfolding r1_def by (rule activate_inv)
    have act: "active_rank ?g r1 = Some rank" by (simp add: r1_def active_rank_def)
    have inact: "inactive q s1 \<longleftrightarrow> inactive q s \<and> q \<noteq> p" for q
      unfolding inactive_def s1(3,5) using act by auto
    have hd: "inactive p s" using r None by (simp add: inactive_def)
    have all: "(\<forall>q \<in> set ps. inactive q s1) \<longleftrightarrow> p \<notin> set ps \<and> (\<forall>q \<in> set ps. inactive q s)"
      using inact by blast
    have reg: "\<forall>q \<in> set ps. ws_chunks s1 q \<noteq> None" using Cons.prems(2) by (simp add: s1(3))
    note IH = Cons.IH [OF s1(2) reg, of "Suc rank", unfolded s1(5) all]
    show ?thesis
    proof (cases "distinct (p # ps) \<and> (\<forall>q \<in> set (p # ps). inactive q s)")
      case True
      then obtain s2 where s2: "reconcile_from ?g (Suc rank) ps s1 = (Ok (), s2)" "sched_inv s2"
        "ws_generation s2 = ?g" "ws_store s2 = ws_store s1"
        "\<forall>i < length ps. has_rank (ps ! i) (Suc rank + i) s2"
        "\<forall>q. q \<notin> set ps \<longrightarrow> ws_chunks s2 q = ws_chunks s1 q" "same_containers s1 s2"
        using IH by auto
      have same: "same_containers s s2"
        by (rule same_containers_trans [OF same_containers_upd [OF s1(3) r] s2(7)]) (simp add: r1_def)
      have "has_rank p rank s2"
        using True s2(3,6) act by (simp add: has_rank_def s1(3))
      then have "\<forall>i < length (p # ps). has_rank ((p # ps) ! i) (rank + i) s2"
        using s2(5) by (auto simp: nth_Cons' less_Suc_eq_0_disj)
      moreover have "\<forall>q. q \<notin> set (p # ps) \<longrightarrow> ws_chunks s2 q = ws_chunks s q"
        using s2(6) by (simp add: s1(3))
      ultimately show ?thesis using True s1(1,4) s2(1-4) same by (metis (no_types, lifting))
    next
      case False
      then have "\<not> (distinct ps \<and> p \<notin> set ps \<and> (\<forall>q \<in> set ps. inactive q s))" using hd by auto
      with IH have "fst (reconcile_from ?g (Suc rank) ps s1) = Panic" by (auto split: if_splits)
      with False s1(1) show ?thesis by (simp only: if_False)
    qed
  qed
qed

lemma clear_advance_inv:
  assumes inv: "sched_inv s"
  defines "s2 \<equiv> advance_active_generation (s\<lparr>ws_block_deadlines := [], ws_fluid_deadlines := []\<rparr>)"
  shows "sched_inv s2" "ws_store s2 = ws_store s" "ws_chunks s2 p = None \<longleftrightarrow> ws_chunks s p = None"
    "ws_chunks s p \<noteq> None \<Longrightarrow> inactive p s2" "same_containers s s2"
proof -
  let ?s1 = "s\<lparr>ws_block_deadlines := [], ws_fluid_deadlines := []\<rparr>"
  have "generations_ok ?s1" using inv by (simp add: sched_inv_except_def generations_ok_def)
  note adv = advance_fields [OF this, folded s2_def]
  show store: "ws_store s2 = ws_store s" using adv(1) by simp
  show "ws_chunks s2 p = None \<longleftrightarrow> ws_chunks s p = None" using adv(5) [of p] by simp
  have at: "\<exists>r. ws_chunks s q = Some r \<and> rg_container r' = rg_container r
       \<and> (\<forall>k. rg_head k r' = rg_head k r) \<and> active_rank (ws_generation s2) r' = None"
    if "ws_chunks s2 q = Some r'" for q r'
    using adv(4) [OF that] by simp
  show "same_containers s s2"
    unfolding same_containers_def
  proof
    fix q
    show "map_option rg_container (ws_chunks s2 q) = map_option rg_container (ws_chunks s q)"
      using at [of q] adv(5) [of q] by (cases "ws_chunks s2 q") auto
  qed
  show "inactive p s2" if "ws_chunks s p \<noteq> None"
    using that adv(5) [of p] at [of p] by (auto simp: inactive_def)
  have "deadlines k s2 = []" for k using adv(2) [of k] by (cases k) simp_all
  moreover have "indexed k (ws_generation s2) (ws_chunks s2) = {}" for k
    using at by (fastforce simp: in_indexed head_entry_def)
  moreover have "positions_ok (ws_chunks s2)"
    using at sched_invD(2) [OF inv] unfolding positions_ok_def by blast
  ultimately have "index_ok s2" by (simp add: index_ok_def)
  moreover have "owners_ok s2"
    unfolding owners_ok_def store
  proof (intro conjI allI impI)
    show "ct_lifecycle (ws_store s (rg_container r)) = Registered" if "ws_chunks s2 q = Some r" for q r
      using at [OF that] sched_invD(1) [OF inv] by metis
    show "p = q" if "ws_chunks s2 p = Some r" "ws_chunks s2 q = Some r'" "rg_container r = rg_container r'"
      for p q r r'
      using at [OF that(1)] at [OF that(2)] that(3) sched_invD(3) [OF inv] by metis
  qed
  moreover have "heads_ok {} s2"
    unfolding heads_ok_def store
  proof (intro allI impI)
    show "rg_head k r = head_trigger k (ws_store s (rg_container r))" if "ws_chunks s2 q = Some r" for q r k
      using at [OF that] sched_invD(4) [OF inv] by (metis empty_iff)
  qed
  moreover have "queues_ok s2" using inv store by (simp add: sched_inv_except_def queues_ok_def)
  ultimately show "sched_inv s2" using adv(3) by (simp add: sched_inv_except_def)
qed

lemma reconcile_inv:
  assumes inv: "sched_inv s"
  shows "case find (\<lambda>p. ws_chunks s p = None) ps of
           Some p \<Rightarrow> reconcile_active_chunks ps s = (Err (MissingContainer p), s)
         | None \<Rightarrow>
             if distinct ps
             then \<exists>s'. reconcile_active_chunks ps s = (Ok (), s') \<and> sched_inv s' \<and>
                    ws_store s' = ws_store s \<and> same_containers s s' \<and>
                    (\<forall>p n. has_rank p n s' \<longleftrightarrow> n < length ps \<and> p = ps ! n)
             else fst (reconcile_active_chunks ps s) = Panic"
proof (cases "find (\<lambda>p. ws_chunks s p = None) ps")
  case (Some p)
  then show ?thesis by (simp add: reconcile_active_chunks_def)
next
  case None
  then have reg: "\<forall>p \<in> set ps. ws_chunks s p \<noteq> None" by (auto simp: find_None_iff)
  define s2 where "s2 = advance_active_generation (s\<lparr>ws_block_deadlines := [], ws_fluid_deadlines := []\<rparr>)"
  note clear = clear_advance_inv [OF inv, folded s2_def]
  have run: "reconcile_active_chunks ps s = reconcile_from (ws_generation s2) 0 ps s2"
    using None by (simp add: reconcile_active_chunks_def s2_def Let_def)
  have reg2: "\<forall>p \<in> set ps. ws_chunks s2 p \<noteq> None" "\<forall>p \<in> set ps. inactive p s2"
    using reg clear(3,4) by auto
  note spec = reconcile_from_spec [OF clear(1) reg2(1), of 0]
  show ?thesis
  proof (cases "distinct ps")
    case True
    then obtain s' where s': "reconcile_from (ws_generation s2) 0 ps s2 = (Ok (), s')" "sched_inv s'"
        "ws_generation s' = ws_generation s2" "ws_store s' = ws_store s2"
        "\<forall>i < length ps. has_rank (ps ! i) i s'" "\<forall>p. p \<notin> set ps \<longrightarrow> ws_chunks s' p = ws_chunks s2 p"
        "same_containers s2 s'"
      using spec reg2(2) by auto
    have "same_containers s s'" by (rule same_containers_trans [OF clear(5) s'(7)])
    moreover have "n < length ps \<and> p = ps ! n" if n: "has_rank p n s'" for p n
    proof -
      have "p \<in> set ps"
      proof (rule ccontr)
        assume "p \<notin> set ps"
        with s'(3,6) n have "has_rank p n s2" by (simp add: has_rank_def)
        then have "ws_chunks s p \<noteq> None" using clear(3) [of p] by (auto simp: has_rank_def)
        with clear(4) [of p] \<open>has_rank p n s2\<close> show False by (auto simp: has_rank_def inactive_def)
      qed
      then obtain i where i: "i < length ps" "p = ps ! i" by (metis in_set_conv_nth)
      with s'(5) n have "n = i" by (auto simp: has_rank_def)
      with i show ?thesis by simp
    qed
    ultimately show ?thesis using None True run s' clear(2) by auto
  next
    case False
    with spec None run show ?thesis by simp
  qed
qed

section \<open>Scheduling\<close>

lemma tl_schedule_ordered: "tl_ordered l \<Longrightarrow> tl_ordered (snd (tl_schedule t l))"
  by (simp add: tl_schedule_def tl_ordered_def push_unchecked_def queued.push_ordered)

text \<open>
  A chunk reference is coherent when its container is not registered under another position,
  and is registered under its own if its life cycle says so.
\<close>

definition coherent :: "full_chunk \<Rightarrow> sched \<Rightarrow> bool" where
  "coherent ch s \<longleftrightarrow> ct_lifecycle (ws_store s (fc_container ch)) \<noteq> Proto \<and>
     (\<forall>p r. ws_chunks s p = Some r \<longrightarrow> rg_container r = fc_container ch \<longrightarrow> p = fc_pos ch) \<and>
     (ct_lifecycle (ws_store s (fc_container ch)) = Registered \<longrightarrow>
       (\<exists>r. ws_chunks s (fc_pos ch) = Some r \<and> rg_container r = fc_container ch))"

lemma schedule_on_inv:
  assumes inv: "sched_inv s" and coh: "coherent ch s"
  defines "c \<equiv> ws_store s (fc_container ch)"
  shows "if ct_lifecycle c = Finalized then schedule_on k ch t s = (Err (MissingContainer (fc_pos ch)), s)
         else \<exists>s'. schedule_on k ch t s = (Ok (st_key t \<notin> tl_scheduled (ct_list k c)), s') \<and> sched_inv s' \<and>
                same_containers s s' \<and> ws_order s' = ws_order s \<and>
                ws_store s' = (ws_store s)(fc_container ch := ct_put k (snd (tl_schedule t (ct_list k c))) c)"
proof -
  let ?cid = "fc_container ch" and ?pos = "fc_pos ch"
  define l where "l = snd (tl_schedule t (ct_list k c))"
  let ?c1 = "ct_put k l c"
  let ?s1 = "s\<lparr>ws_store := (ws_store s)(?cid := ?c1)\<rparr>"
  have sch: "tl_schedule t (ct_list k c) = (st_key t \<notin> tl_scheduled (ct_list k c), l)"
    by (simp add: tl_schedule_def l_def)
  have ord: "tl_ordered (ct_list k' ?c1)" for k'
    using inv by (simp add: sched_inv_except_def queues_ok_def c_def l_def tl_schedule_ordered)
  have stale: "sched_inv_except {(?pos, k)} ?s1"
  proof (rule store_update_inv [OF _ ord])
    show "sched_inv_except {(?pos, k)} s" using inv by (rule sched_inv_mono) simp
    show "ct_lifecycle ?c1 = ct_lifecycle (ws_store s ?cid)" by (simp add: c_def)
    fix q r k'
    assume "ws_chunks s q = Some r" "rg_container r = ?cid" "(q, k') \<notin> {(?pos, k)}"
    with coh have "k' \<noteq> k" by (auto simp: coherent_def)
    then show "head_trigger k' ?c1 = head_trigger k' (ws_store s ?cid)"
      by (simp add: head_trigger_def c_def)
  qed
  have same: "sched_inv ?s1" if "head_trigger k ?c1 = head_trigger k c"
  proof (rule store_update_inv [OF inv ord])
    show "head_trigger k' ?c1 = head_trigger k' (ws_store s ?cid)" for k'
      using that by (cases "k' = k") (simp_all add: head_trigger_def c_def)
  qed (simp add: c_def)
  consider (fin) "ct_lifecycle c = Finalized" | (pre) "ct_lifecycle c = PrePublication"
    | (reg) "ct_lifecycle c = Registered"
    using coh by (cases "ct_lifecycle c") (auto simp: coherent_def c_def)
  then show ?thesis
  proof cases
    case fin
    then show ?thesis by (simp add: schedule_on_def Let_def c_def)
  next
    case pre
    have "sched_inv ?s1"
    proof (rule store_update_inv [OF inv ord])
      show "ct_lifecycle ?c1 = ct_lifecycle (ws_store s ?cid)" by (simp add: c_def)
      fix q r k'
      assume "ws_chunks s q = Some r" "rg_container r = ?cid"
      with sched_invD(1) [OF inv, of q r] pre show "head_trigger k' ?c1 = head_trigger k' (ws_store s ?cid)"
        by (simp add: c_def)
    qed
    moreover have "schedule_on k ch t s = (Ok (st_key t \<notin> tl_scheduled (ct_list k c)), ?s1)"
      unfolding schedule_on_def Let_def c_def [symmetric] sch using pre by simp
    ultimately show ?thesis using pre by (simp add: l_def same_containers_def)
  next
    case reg
    from reg coh obtain r where r: "ws_chunks s ?pos = Some r" "rg_container r = ?cid"
      by (auto simp: coherent_def c_def)
    show ?thesis
    proof (cases "st_key t \<in> tl_scheduled (ct_list k c) \<or> head_trigger k ?c1 = head_trigger k c")
      case True
      have "l = ct_list k c" if "st_key t \<in> tl_scheduled (ct_list k c)"
        using that by (simp add: tl_schedule_def l_def)
      with True have "head_trigger k ?c1 = head_trigger k c" by (auto simp: head_trigger_def)
      moreover have "schedule_on k ch t s = (Ok (st_key t \<notin> tl_scheduled (ct_list k c)), ?s1)"
        unfolding schedule_on_def Let_def c_def [symmetric] sch using reg True by auto
      ultimately show ?thesis using reg same by (simp add: l_def same_containers_def)
    next
      case False
      have "ws_chunks ?s1 ?pos = Some r" using r by simp
      from stale this obtain s2 where s2: "set_head ?pos k (head_trigger k ?c1) ?s1 = (Ok (), s2)"
        "sched_inv_except ({(?pos, k)} - {(?pos, k)}) s2" "ws_store s2 = ws_store ?s1"
        "ws_chunks s2 = (ws_chunks ?s1)(?pos \<mapsto> rg_set_head k (head_trigger k ?c1) r)"
        "ws_order s2 = ws_order ?s1"
        by (rule set_head_inv [where h = "head_trigger k ?c1"]) (auto simp: r intro: that)
      moreover have "schedule_on k ch t s = (Ok (st_key t \<notin> tl_scheduled (ct_list k c)), s2)"
        unfolding schedule_on_def Let_def c_def [symmetric] sch using reg False r s2(1) by simp
      moreover have "same_containers s s2" using s2(4) r(1) by (simp add: same_containers_def)
      ultimately show ?thesis using reg by (simp add: l_def)
    qed
  qed
qed

end
