(* ===== verification/Tick_Collect.thy ===== *)
theory Tick_Collect
  imports Tick_Index
begin

text \<open>
  Collecting the ready ticks of one game tick: the due containers are taken out of the deadline
  index, merged through a heap, and their new heads are put back. The abstract specification is
  a greedy merge: as long as the batch is not full and an active queue has a ready head, take a
  ready head that no other ready head precedes.
\<close>

section \<open>Taking the due containers\<close>

lemma take_due_step:
  assumes inv: "sched_inv_except D s" and ds: "deadlines k s = (t, packed) # ds"
  obtains r rank where "ws_chunks s (packed_to_chunk_pos packed) = Some r" "rg_head k r = Some t"
    "active_rank (ws_generation s) r = Some rank"
    "sched_inv_except (insert (packed_to_chunk_pos packed, k) D)
       ((set_deadlines k ds s)\<lparr>ws_chunks := (ws_chunks s)(packed_to_chunk_pos packed \<mapsto> rg_set_head k None r)\<rparr>)"
proof -
  have ix: "index_ok s" using inv by (simp add: sched_inv_except_def)
  have b: "bts_ok (deadlines k' s)" for k' using ix by (simp add: index_ok_def)
  have "(t, packed) \<in> indexed k (ws_generation s) (ws_chunks s)"
    using ix ds by (metis index_ok_def list.set_intros(1))
  then obtain p r where r: "ws_chunks s p = Some r" "active_rank (ws_generation s) r \<noteq> None"
    "rg_head k r = Some t" "packed = packed_chunk_of p"
    by (auto simp: in_indexed head_entry_eq split: if_splits)
  have okp: "chunk_pos_ok p" using sched_invD(2) [OF inv r(1)] .
  then have p: "packed_to_chunk_pos packed = p" using r(4) by (simp add: chunk_pack_unpack)
  let ?s = "(set_deadlines k ds s)\<lparr>ws_chunks := (ws_chunks s)(p \<mapsto> rg_set_head k None r)\<rparr>"
  have "index_ok ?s"
  proof (rule index_ok_upd [OF ix okp])
    show "ws_chunks ?s = (ws_chunks s)(p := Some (rg_set_head k None r))" by simp
    show "bts_ok (deadlines k' ?s)" for k'
      using b [of k'] b [of k] ds by (cases "k' = k") simp_all
    show "set (deadlines k' ?s) = {e \<in> set (deadlines k' s). snd e \<noteq> packed_chunk_of p} \<union>
        (case Some (rg_set_head k None r) of None \<Rightarrow> {} | Some r \<Rightarrow> head_entry k' (ws_generation s) p r)" for k'
    proof (cases "k' = k")
      case True
      have "set ds = set (deadlines k s) - {(t, packed)}" using b [of k] ds by auto
      also have "\<dots> = {e \<in> set (deadlines k s). snd e \<noteq> packed_chunk_of p}"
        using entries_other [OF ix okp, of k "Some t"] r(1,3,4) by simp
      finally show ?thesis using True by (simp add: head_entry_eq)
    next
      case False
      have "head_entry k' (ws_generation s) p (rg_set_head k None r) = head_entry k' (ws_generation s) p r"
        using False by (simp add: head_entry_eq)
      then have "set (deadlines k' s) = {e \<in> set (deadlines k' s). snd e \<noteq> packed_chunk_of p} \<union>
          head_entry k' (ws_generation s) p (rg_set_head k None r)"
        using indexed_at [of "ws_chunks s" p _ k' "ws_generation s"] ix okp r(1) by (auto simp: index_ok_def)
      then show ?thesis using False by simp
    qed
  qed simp
  moreover have "owners_ok ?s"
    using inv r(1) by (auto simp: sched_inv_except_def owners_ok_def split: if_splits)
  moreover have "heads_ok (insert (p, k) D) ?s"
    using inv r(1) by (auto simp: sched_inv_except_def heads_ok_def split: if_splits)
  moreover have "generations_ok ?s" "queues_ok ?s"
    using inv r(1) by (auto simp: sched_inv_except_def generations_ok_def queues_ok_def split: if_splits)
  ultimately have "sched_inv_except (insert (p, k) D) ?s" by (simp add: sched_inv_except_def)
  with r p that show ?thesis by auto
qed

text \<open>The position of a due container is active and its recorded head has passed.\<close>

definition due_at :: "tick_kind \<Rightarrow> int \<Rightarrow> sched \<Rightarrow> active_container \<Rightarrow> bool" where
  "due_at k now s a \<longleftrightarrow>
     (\<exists>r t. ws_chunks s (at_pos a) = Some r \<and> rg_container r = at_container a \<and>
        active_rank (ws_generation s) r = Some (at_rank a) \<and> rg_head k r = Some t \<and> t \<le> now)"

definition stale_of :: "tick_kind \<Rightarrow> active_container list \<Rightarrow> (chunk_pos \<times> tick_kind) set" where
  "stale_of k as = (\<lambda>a. (at_pos a, k)) ` set as"

lemma take_due_from_spec:
  assumes "sched_inv_except D s" "deadlines k s = ds"
  shows "\<exists>as s'. take_due_from k now ds s = (Ok as, s') \<and>
    sched_inv_except (D \<union> stale_of k as) s' \<and> distinct (map at_pos as) \<and>
    (\<forall>a. a \<in> set as \<longleftrightarrow> due_at k now s a) \<and>
    ws_store s' = ws_store s \<and> ws_generation s' = ws_generation s \<and>
    ws_chunks s' = (\<lambda>p. if p \<in> at_pos ` set as then map_option (rg_set_head k None) (ws_chunks s p)
                        else ws_chunks s p)"
  using assms
proof (induction ds arbitrary: D s)
  case Nil
  have "\<not> due_at k now s a" for a
    using Nil unfolding due_at_def sched_inv_except_def
    by (metis entries_of index_ok_def list.set(1) empty_iff option.distinct(1) positions_ok_def)
  with Nil show ?case by (simp add: stale_of_def)
next
  case (Cons e ds)
  obtain t packed where e: "e = (t, packed)" by (cases e)
  let ?p = "packed_to_chunk_pos packed"
  have ix: "index_ok s" and inv: "sched_inv_except D s" using Cons.prems by (simp_all add: sched_inv_except_def)
  have entry: "\<exists>t. (t, packed_chunk_of (at_pos a)) \<in> set (deadlines k s) \<and> t \<le> now" if "due_at k now s a" for a
    using that entries_of [OF ix] sched_invD(2) [OF inv] unfolding due_at_def by blast
  show ?case
  proof (cases "now < t")
    case True
    have "\<not> due_at k now s a" for a
    proof
      assume "due_at k now s a"
      then obtain t' where "(t', packed_chunk_of (at_pos a)) \<in> set (deadlines k s)" "t' \<le> now"
        using entry by blast
      moreover have "bts_ok (deadlines k s)" using ix by (simp add: index_ok_def)
      ultimately show False using True Cons.prems(2) e by (auto simp: less_prod_def)
    qed
    with True Cons.prems e show ?thesis by (simp add: stale_of_def)
  next
    case False
    obtain r rank where r: "ws_chunks s ?p = Some r" "rg_head k r = Some t"
      "active_rank (ws_generation s) r = Some rank"
      "sched_inv_except (insert (?p, k) D)
         ((set_deadlines k ds s)\<lparr>ws_chunks := (ws_chunks s)(?p \<mapsto> rg_set_head k None r)\<rparr>)"
      using inv Cons.prems(2) unfolding e by (rule take_due_step)
    define s1 where "s1 = (set_deadlines k ds s)\<lparr>ws_chunks := (ws_chunks s)(?p \<mapsto> rg_set_head k None r)\<rparr>"
    have "deadlines k s1 = ds" by (simp add: s1_def)
    from Cons.IH [OF r(4) [folded s1_def] this] obtain as s' where as:
      "take_due_from k now ds s1 = (Ok as, s')" "sched_inv_except (insert (?p, k) D \<union> stale_of k as) s'"
      "distinct (map at_pos as)" "\<And>a. a \<in> set as \<longleftrightarrow> due_at k now s1 a" "ws_store s' = ws_store s1"
      "ws_generation s' = ws_generation s1"
      "ws_chunks s' = (\<lambda>p. if p \<in> at_pos ` set as then map_option (rg_set_head k None) (ws_chunks s1 p)
                        else ws_chunks s1 p)"
      by blast
    let ?a = "\<lparr>at_pos = ?p, at_rank = rank, at_container = rg_container r\<rparr>"
    have s1: "ws_chunks s1 = (ws_chunks s)(?p \<mapsto> rg_set_head k None r)" "ws_store s1 = ws_store s"
      "ws_generation s1 = ws_generation s"
      by (simp_all add: s1_def)
    have other: "due_at k now s1 a \<longleftrightarrow> due_at k now s a \<and> at_pos a \<noteq> ?p" for a
      unfolding due_at_def s1 by auto
    have here: "due_at k now s a \<and> at_pos a = ?p \<longleftrightarrow> a = ?a" for a
      using r(1-3) False by (cases a) (auto simp: due_at_def)
    have mem: "a \<in> set (?a # as) \<longleftrightarrow> due_at k now s a" for a
      using as(4) other here [of a] by auto
    have notin: "?p \<notin> at_pos ` set as" using as(4) other by auto
    have run: "take_due_from k now (e # ds) s = (Ok (?a # as), s')"
      using False r(1-3) as(1) by (simp add: e s1_def Let_def)
    have "insert (?p, k) D \<union> stale_of k as = D \<union> stale_of k (?a # as)" by (auto simp: stale_of_def)
    moreover have "ws_chunks s' = (\<lambda>p. if p \<in> at_pos ` set (?a # as)
        then map_option (rg_set_head k None) (ws_chunks s p) else ws_chunks s p)"
      unfolding as(7) s1 using notin r(1) by (auto simp: fun_eq_iff)
    ultimately show ?thesis
      using run as(2,3,5,6) mem notin s1(2,3) by (intro exI [of _ "?a # as"] exI [of _ s']) simp
  qed
qed

section \<open>The greedy merge\<close>

definition batch_key :: "queued_tick \<Rightarrow> tick_priority \<times> int" where
  "batch_key q = (st_priority (qt_tick q), st_order (qt_tick q))"

definition ready_head :: "int \<Rightarrow> queued_tick list \<Rightarrow> queued_tick \<Rightarrow> bool" where
  "ready_head now h x \<longleftrightarrow> (\<exists>xs. h = x # xs) \<and> is_due now x"

text \<open>
  \<open>greedy now C q ts q'\<close>: from the queues \<open>q\<close> of the containers \<open>C\<close>, the tagged ticks \<open>ts\<close> were
  taken one after the other, each a ready head that no ready head of \<open>C\<close> precedes, leaving \<open>q'\<close>.
\<close>

inductive greedy ::
    "int \<Rightarrow> nat set \<Rightarrow> (nat \<Rightarrow> queued_tick list) \<Rightarrow> (nat \<times> queued_tick) list
       \<Rightarrow> (nat \<Rightarrow> queued_tick list) \<Rightarrow> bool"
  for now C q where
  greedy_nil: "greedy now C q [] q"
| greedy_snoc: "greedy now C q ts q1 \<Longrightarrow> c \<in> C \<Longrightarrow> q1 c = x # xs \<Longrightarrow> is_due now x \<Longrightarrow>
    (\<And>d y. d \<in> C \<Longrightarrow> ready_head now (q1 d) y \<Longrightarrow> batch_key x \<le> batch_key y) \<Longrightarrow>
    greedy now C q (ts @ [(c, x)]) (q1(c := xs))"

inductive_cases greedy_nilE: "greedy now C q [] q'"

lemma greedy_run:
  assumes "greedy now C q ts q1" "c \<in> C" "q1 c = xs @ rest"
    "\<And>x. x \<in> set xs \<Longrightarrow> is_due now x"
    "\<And>x d y. x \<in> set xs \<Longrightarrow> d \<in> C \<Longrightarrow> d \<noteq> c \<Longrightarrow> ready_head now (q1 d) y \<Longrightarrow> batch_key x \<le> batch_key y"
  shows "greedy now C q (ts @ map (Pair c) xs) (q1(c := rest))"
  using assms
proof (induction xs arbitrary: ts q1)
  case Nil
  then have "q1(c := rest) = q1" by auto
  with Nil.prems(1) show ?case by (simp del: fun_upd_apply)
next
  case (Cons x xs)
  have "greedy now C q (ts @ [(c, x)]) (q1(c := xs @ rest))"
  proof (rule greedy_snoc [OF Cons.prems(1,2)])
    show "q1 c = x # xs @ rest" using Cons.prems(3) by simp
    show "is_due now x" using Cons.prems(4) by simp
    fix d y
    assume "d \<in> C" "ready_head now (q1 d) y"
    then show "batch_key x \<le> batch_key y"
      using Cons.prems(3,5) by (cases "d = c") (auto simp: ready_head_def)
  qed
  then have "greedy now C q ((ts @ [(c, x)]) @ map (Pair c) xs) ((q1(c := xs @ rest))(c := rest))"
    by (rule Cons.IH [OF _ Cons.prems(2)]) (use Cons.prems(3-5) in auto)
  then show ?case by (simp del: fun_upd_apply)
qed

text \<open>What the greedy merge means for every single queue and for the batch.\<close>

lemma greedy_queue:
  "greedy now C q ts q' \<Longrightarrow> q c = map snd (filter (\<lambda>x. fst x = c) ts) @ q' c"
  by (induction rule: greedy.induct) auto

lemma greedy_members:
  "greedy now C q ts q' \<Longrightarrow> (c, x) \<in> set ts \<Longrightarrow> c \<in> C \<and> is_due now x"
  by (induction rule: greedy.induct) auto

lemma greedy_sorted_pairs:
  assumes "greedy now C q ts q'" "ts = us @ (c, x) # (d, y) # vs" "c \<noteq> d"
  shows "batch_key x \<le> batch_key y"
  using assms
proof (induction arbitrary: vs rule: greedy.induct)
  case greedy_nil
  then show ?case by simp
next
  case (greedy_snoc ts q1 e z zs)
  note outer = greedy_snoc.hyps
  show ?case
  proof (cases vs rule: rev_cases)
    case (snoc vs' v)
    with greedy_snoc show ?thesis by (metis append_Cons append_assoc butlast_snoc)
  next
    case Nil
    with greedy_snoc.prems have last: "ts = us @ [(c, x)]" "e = d" "z = y" by simp_all
    from greedy_snoc.hyps(1) last(1) show ?thesis
    proof (cases rule: greedy.cases)
      case (greedy_snoc ts0 q0 c0 x0 xs0)
      with last(1) have "c0 = c" "x0 = x" by simp_all
      moreover have "ready_head now (q0 d) y"
        using greedy_snoc \<open>c0 = c\<close> outer assms(3) last
        by (auto simp: ready_head_def)
      moreover have "d \<in> C" using outer(2) last(2) by simp
      ultimately show ?thesis using greedy_snoc(7) by simp
    qed (use last in simp)
  qed
qed

section \<open>The heap of ready containers\<close>

definition ready_key :: "ready_container \<Rightarrow> (tick_priority \<times> int) \<times> nat" where
  "ready_key rc = ((rc_priority rc, rc_order rc), rc_rank rc)"

interpretation ready: reverse_keyed_ord ready_cmp ready_key
  by unfold_locales
    (simp add: ready_cmp_def intra_tick_drain_order_def then_with_pair cmp_of_swap ready_key_def)

lemma outranked_iff:
  "outranked (Some (p, n)) t \<longleftrightarrow> (p, n) < (st_priority t, st_order t)"
  "\<not> outranked None t"
  by (simp_all add: outranked_def intra_tick_drain_order_def then_with_pair ordering_simps)

definition unbeaten :: "(tick_priority \<times> int) option \<Rightarrow> queued_tick \<Rightarrow> bool" where
  "unbeaten rival x \<longleftrightarrow> (\<forall>b. rival = Some b \<longrightarrow> batch_key x \<le> b)"

lemma outranked_unbeaten: "outranked rival (qt_tick x) \<longleftrightarrow> \<not> unbeaten rival x"
  by (cases rival) (auto simp: unbeaten_def outranked_iff batch_key_def not_le)

lemma drain_current_spec:
  assumes "length ticks \<le> m"
  shows "\<exists>xs l'. drain_current now m rival ticks l = (ticks @ map qt_tick xs, l') \<and>
      tl_ticks l = xs @ tl_ticks l' \<and> (\<forall>x \<in> set xs. is_due now x \<and> unbeaten rival x) \<and>
      length ticks + length xs \<le> m"
  using assms
proof (induction now m rival ticks l rule: drain_current.induct)
  case (1 now m rival ticks l)
  show ?case
  proof (cases "length ticks < m \<and> (\<exists>x xs. tl_ticks l = x # xs \<and> is_due now x \<and> unbeaten rival x)")
    case True
    then obtain x xs where x: "tl_ticks l = x # xs" "is_due now x" "unbeaten rival x" by blast
    let ?l = "l\<lparr>tl_ticks := xs, tl_scheduled := tl_scheduled l - {st_key (qt_tick x)}\<rparr>"
    have pk: "peek_ready now l = Some (qt_tick x)" using x by (simp add: peek_ready_def is_due_def)
    have pp: "pop_ready now l = Some (qt_tick x, ?l)" using x by (simp add: pop_ready_Cons is_due_def)
    have no: "\<not> outranked rival (qt_tick x)" using x by (simp add: outranked_unbeaten)
    have step: "drain_current now m rival ticks l = drain_current now m rival (ticks @ [qt_tick x]) ?l"
      using True pk pp no by (subst drain_current.simps) simp
    obtain ys l' where ys: "drain_current now m rival (ticks @ [qt_tick x]) ?l = ((ticks @ [qt_tick x]) @ map qt_tick ys, l')"
      "tl_ticks ?l = ys @ tl_ticks l'" "\<forall>y \<in> set ys. is_due now y \<and> unbeaten rival y"
      "length (ticks @ [qt_tick x]) + length ys \<le> m"
      using "1.IH" [OF conjunct1 [OF True] pk no pp refl] True by auto
    then show ?thesis unfolding step using x
      by (intro exI [of _ "x # ys"] exI [of _ l']) simp
  next
    case False
    then have "drain_current now m rival ticks l = (ticks, l)"
      by (subst drain_current.simps)
        (cases "tl_ticks l", auto simp: peek_ready_def is_due_def outranked_unbeaten)
    with "1.prems" show ?thesis by (intro exI [of _ "[]"] exI [of _ l]) simp
  qed
qed

lemma drain_current_ordered:
  "tl_ordered l \<Longrightarrow> tl_ordered (snd (drain_current now m rival ticks l))"
proof (induction now m rival ticks l rule: drain_current.induct)
  case (1 now m rival ticks l)
  then show ?case
    by (subst drain_current.simps) (auto split: option.splits prod.splits dest: pop_ready_ordered)
qed

section \<open>The invariant of the merge loop\<close>

abbreviation queues :: "tick_kind \<Rightarrow> (nat \<Rightarrow> tick_container) \<Rightarrow> nat \<Rightarrow> queued_tick list" where
  "queues k store c \<equiv> tl_ticks (ct_list k (store c))"

text \<open>What the loop is given: the due containers, and no other ready container in \<open>C\<close>.\<close>

definition batch_ok ::
    "tick_kind \<Rightarrow> int \<Rightarrow> nat set \<Rightarrow> (nat \<Rightarrow> tick_container) \<Rightarrow> active_container list \<Rightarrow> bool" where
  "batch_ok k now C store as \<longleftrightarrow>
     distinct (map at_pos as) \<and> inj_on at_container (set as) \<and> at_container ` set as \<subseteq> C \<and>
     (\<forall>a \<in> set as. ct_lifecycle (store (at_container a)) = Registered) \<and>
     (\<forall>c \<in> C - at_container ` set as. \<forall>x. \<not> ready_head now (queues k store c) x) \<and>
     (\<forall>c k'. tl_ordered (ct_list k' (store c)))"

definition same_rest :: "tick_kind \<Rightarrow> nat set \<Rightarrow> (nat \<Rightarrow> tick_container) \<Rightarrow> (nat \<Rightarrow> tick_container) \<Rightarrow> bool" where
  "same_rest k A store store' \<longleftrightarrow>
     (\<forall>c. ct_lifecycle (store' c) = ct_lifecycle (store c) \<and>
        (\<forall>k'. k' \<noteq> k \<longrightarrow> ct_list k' (store' c) = ct_list k' (store c)) \<and>
        (\<forall>k'. tl_ordered (ct_list k' (store c)) \<longrightarrow> tl_ordered (ct_list k' (store' c))) \<and>
        (c \<notin> A \<longrightarrow> store' c = store c))"

definition entry_ok ::
    "tick_kind \<Rightarrow> int \<Rightarrow> active_container list \<Rightarrow> nat set \<Rightarrow> (nat \<Rightarrow> tick_container) \<Rightarrow> ready_container \<Rightarrow> bool" where
  "entry_ok k now as touched store rc \<longleftrightarrow>
     (\<exists>a \<in> set as. rc_pos rc = at_pos a \<and> rc_rank rc = at_rank a \<and> rc_container rc = at_container a \<and>
        rc_dirty rc = (at_container a \<in> touched) \<and>
        (\<exists>x. ready_head now (queues k store (at_container a)) x \<and> batch_key x = (rc_priority rc, rc_order rc)))"

definition update_ok ::
    "tick_kind \<Rightarrow> int \<Rightarrow> bool \<Rightarrow> active_container list \<Rightarrow> (nat \<Rightarrow> tick_container) \<Rightarrow> head_update \<Rightarrow> bool" where
  "update_ok k now open as store u \<longleftrightarrow>
     (\<exists>a \<in> set as. fst u = at_pos a \<and> snd u = head_trigger k (store (at_container a)) \<and>
        (open \<longrightarrow> (\<forall>x. \<not> ready_head now (queues k store (at_container a)) x)))"

definition co_inv ::
    "tick_kind \<Rightarrow> int \<Rightarrow> nat \<Rightarrow> nat set \<Rightarrow> (nat \<Rightarrow> tick_container) \<Rightarrow> active_container list
       \<Rightarrow> (nat \<times> queued_tick) list \<Rightarrow> collect_state \<Rightarrow> bool" where
  "co_inv k now m C store as ts co \<longleftrightarrow>
     heap_ordered ready_cmp (co_heap co) \<and>
     mset (map rc_pos (co_heap co)) + mset (map fst (co_updates co)) = mset (map at_pos as) \<and>
     (\<forall>rc \<in> set (co_heap co). entry_ok k now as (fst ` set ts) (co_store co) rc) \<and>
     (\<forall>u \<in> set (co_updates co). update_ok k now (length ts < m) as (co_store co) u) \<and>
     same_rest k (at_container ` set as) store (co_store co) \<and>
     greedy now C (queues k store) ts (queues k (co_store co)) \<and>
     co_ticks co = map (\<lambda>x. qt_tick (snd x)) ts \<and> length ts \<le> m \<and>
     mset (co_changed co) = mset (map at_rank (filter (\<lambda>a. at_container a \<in> fst ` set ts) as))"

lemma co_invD:
  assumes "co_inv k now m C store as ts co"
  shows "heap_ordered ready_cmp (co_heap co)"
    "mset (map rc_pos (co_heap co)) + mset (map fst (co_updates co)) = mset (map at_pos as)"
    "rc \<in> set (co_heap co) \<Longrightarrow> entry_ok k now as (fst ` set ts) (co_store co) rc"
    "u \<in> set (co_updates co) \<Longrightarrow> update_ok k now (length ts < m) as (co_store co) u"
    "same_rest k (at_container ` set as) store (co_store co)"
    "greedy now C (queues k store) ts (queues k (co_store co))"
    "co_ticks co = map (\<lambda>x. qt_tick (snd x)) ts" "length ts \<le> m"
    "mset (co_changed co) = mset (map at_rank (filter (\<lambda>a. at_container a \<in> fst ` set ts) as))"
  using assms unfolding co_inv_def by blast+

lemma same_pos: "batch_ok k now C store as \<Longrightarrow> a \<in> set as \<Longrightarrow> b \<in> set as \<Longrightarrow> at_pos a = at_pos b \<Longrightarrow> a = b"
  unfolding batch_ok_def distinct_map by (metis inj_onD)

lemma same_container:
  "batch_ok k now C store as \<Longrightarrow> a \<in> set as \<Longrightarrow> b \<in> set as \<Longrightarrow> at_container a = at_container b \<Longrightarrow> a = b"
  unfolding batch_ok_def by (metis inj_onD)

lemma ready_head_unique: "ready_head now q x \<Longrightarrow> ready_head now q y \<Longrightarrow> x = y"
  by (auto simp: ready_head_def)

text \<open>While the batch is open, every ready container of \<open>C\<close> waits in the heap.\<close>

lemma ready_in_heap:
  assumes b: "batch_ok k now C store as" and co: "co_inv k now m C store as ts co" and len: "length ts < m"
    and d: "d \<in> C" "ready_head now (queues k (co_store co) d) y"
  obtains rc where "rc \<in> set (co_heap co)" "rc_container rc = d" "batch_key y = (rc_priority rc, rc_order rc)"
proof -
  have "d \<in> at_container ` set as"
  proof (rule ccontr)
    assume not: "d \<notin> at_container ` set as"
    then have "co_store co d = store d" using co_invD(5) [OF co] by (simp add: same_rest_def)
    with b d not show False by (auto simp: batch_ok_def)
  qed
  then obtain a where a: "a \<in> set as" "d = at_container a" by blast
  have "at_pos a \<in># mset (map at_pos as)" using a by simp
  then have "at_pos a \<in> rc_pos ` set (co_heap co) \<or> at_pos a \<in> fst ` set (co_updates co)"
    unfolding co_invD(2) [OF co, symmetric] by auto
  moreover have False if upd: "u \<in> set (co_updates co)" "fst u = at_pos a" for u
  proof -
    obtain a' where "a' \<in> set as" "fst u = at_pos a'" "\<not> ready_head now (queues k (co_store co) (at_container a')) y"
      using co_invD(4) [OF co upd(1)] len by (auto simp: update_ok_def)
    moreover from this upd a have "a' = a" by (metis same_pos [OF b])
    ultimately show False using a d by simp
  qed
  ultimately obtain rc where rc: "rc \<in> set (co_heap co)" "rc_pos rc = at_pos a" by (metis imageE)
  from co_invD(3) [OF co rc(1)] obtain a' x where "a' \<in> set as" "rc_pos rc = at_pos a'"
    "rc_container rc = at_container a'" "ready_head now (queues k (co_store co) (at_container a')) x"
    "batch_key x = (rc_priority rc, rc_order rc)"
    by (auto simp: entry_ok_def)
  moreover from this rc a have "a' = a" by (metis same_pos [OF b])
  ultimately show ?thesis
    using a d rc that by (metis ready_head_unique)
qed

lemma popped_alone:
  assumes b: "batch_ok k now C store as" and co: "co_inv k now m C store as ts co"
    and h: "co_heap co = rc # heap"
  shows "rc_pos rc \<notin> rc_pos ` set heap" "rc_pos rc \<notin> fst ` set (co_updates co)"
proof -
  have "mset (rc_pos rc # map rc_pos heap @ map fst (co_updates co)) = mset (map at_pos as)"
    using co_invD(2) [OF co] h by simp
  moreover have "distinct (map at_pos as)" using b by (simp add: batch_ok_def)
  ultimately have "distinct (rc_pos rc # map rc_pos heap @ map fst (co_updates co))"
    by (metis mset_eq_imp_distinct_iff)
  then show "rc_pos rc \<notin> rc_pos ` set heap" "rc_pos rc \<notin> fst ` set (co_updates co)" by auto
qed

text \<open>Entries and updates of the other containers survive a change of one container.\<close>

lemma entry_ok_other:
  assumes e: "entry_ok k now as touched store rc'" and b: "batch_ok k now C store0 as"
    and a: "a \<in> set as" "rc_pos rc' \<noteq> at_pos a"
  shows "entry_ok k now as (insert (at_container a) touched) (store(at_container a := c)) rc'"
proof -
  obtain a' x where a': "a' \<in> set as" "rc_pos rc' = at_pos a'" "rc_rank rc' = at_rank a'"
    "rc_container rc' = at_container a'" "rc_dirty rc' = (at_container a' \<in> touched)"
    "ready_head now (queues k store (at_container a')) x" "batch_key x = (rc_priority rc', rc_order rc')"
    using e unfolding entry_ok_def by blast
  then have "at_container a' \<noteq> at_container a" using a same_container [OF b] by metis
  with a' show ?thesis unfolding entry_ok_def by (intro bexI [of _ a']) auto
qed

lemma update_ok_other:
  assumes u: "update_ok k now open as store u" and b: "batch_ok k now C store0 as"
    and a: "a \<in> set as" "fst u \<noteq> at_pos a" and le: "open' \<longrightarrow> open"
  shows "update_ok k now open' as (store(at_container a := c)) u"
proof -
  obtain a' where a': "a' \<in> set as" "fst u = at_pos a'" "snd u = head_trigger k (store (at_container a'))"
    "open \<longrightarrow> (\<forall>x. \<not> ready_head now (queues k store (at_container a')) x)"
    using u unfolding update_ok_def by blast
  then have "at_container a' \<noteq> at_container a" using a same_container [OF b] by metis
  with a' le show ?thesis unfolding update_ok_def by (intro bexI [of _ a']) auto
qed

lemma mset_filter_insert:
  assumes "distinct xs" "a \<in> set xs" "\<not> P a"
  shows "mset (filter (\<lambda>x. P x \<or> x = a) xs) = add_mset a (mset (filter P xs))"
  using assms
proof (induction xs)
  case (Cons y ys)
  show ?case
  proof (cases "y = a")
    case True
    then have "filter (\<lambda>x. P x \<or> x = a) ys = filter P ys"
      using Cons.prems by (intro filter_cong) auto
    then show ?thesis using True Cons.prems by simp
  qed (use Cons in auto)
qed simp

text \<open>Both continuations of a round start from the same drained state.\<close>

lemma round_drained:
  assumes b: "batch_ok k now C store as" and co: "co_inv k now m C store as ts co" and len: "length ts < m"
    and h: "co_heap co = rc # heap"
  defines "rival \<equiv> map_option (\<lambda>o'. (rc_priority o', rc_order o')) (heap_peek heap)"
  obtains a x xs where "a \<in> set as" "rc_pos rc = at_pos a" "rc_rank rc = at_rank a"
    "rc_container rc = at_container a" "rc_dirty rc = (at_container a \<in> fst ` set ts)"
    "queues k (co_store co) (at_container a) = x # xs" "is_due now x"
    "\<And>y d z. y = x \<or> unbeaten rival y \<Longrightarrow> d \<in> C \<Longrightarrow> d \<noteq> at_container a \<Longrightarrow>
       ready_head now (queues k (co_store co) d) z \<Longrightarrow> batch_key y \<le> batch_key z"
proof -
  obtain a x xs where a: "a \<in> set as" "rc_pos rc = at_pos a" "rc_rank rc = at_rank a"
    "rc_container rc = at_container a" "rc_dirty rc = (at_container a \<in> fst ` set ts)"
    "queues k (co_store co) (at_container a) = x # xs" "is_due now x"
    "batch_key x = (rc_priority rc, rc_order rc)"
    using co_invD(3) [OF co, of rc] h unfolding entry_ok_def ready_head_def by auto
  have ord: "heap_ordered ready_cmp (rc # heap)" using co_invD(1) [OF co] h by simp
  have "batch_key y \<le> batch_key z"
    if y: "y = x \<or> unbeaten rival y" and d: "d \<in> C" "d \<noteq> at_container a" "ready_head now (queues k (co_store co) d) z"
    for y d z
  proof -
    obtain rc' where rc': "rc' \<in> set (co_heap co)" "rc_container rc' = d" "batch_key z = (rc_priority rc', rc_order rc')"
      using ready_in_heap [OF b co len d(1,3)] .
    then have inheap: "rc' \<in> set heap" using h a(4) d(2) by auto
    then obtain top rest where top: "heap = top # rest" by (cases heap) auto
    have "ready_key rc \<le> ready_key rc'" using ready.peek_least [OF ord, of rc rc'] inheap by simp
    moreover have "ready_key top \<le> ready_key rc'"
      using ready.peek_least [of heap top rc'] ord inheap top by simp
    moreover have "(rc_priority u, rc_order u) \<le> (rc_priority v, rc_order v)" if "ready_key u \<le> ready_key v" for u v
      using that unfolding ready_key_def less_eq_prod_def fst_conv snd_conv by auto
    ultimately show ?thesis
      using y a(8) rc'(3) top by (auto simp: unbeaten_def rival_def intro: order_trans)
  qed
  with a that show ?thesis by blast
qed

text \<open>What holds of the new store once a container's run of ticks is taken.\<close>

lemma run_taken:
  assumes b: "batch_ok k now C store as" and co: "co_inv k now m C store as ts co"
    and h: "co_heap co = rc # heap"
    and a: "a \<in> set as" "rc_pos rc = at_pos a" "rc_dirty rc = (at_container a \<in> fst ` set ts)" "rc_rank rc = at_rank a"
    and q: "queues k (co_store co) (at_container a) = xs @ tl_ticks l2" "xs \<noteq> []"
    and due: "\<And>y. y \<in> set xs \<Longrightarrow> is_due now y"
    and best: "\<And>y d z. y \<in> set xs \<Longrightarrow> d \<in> C \<Longrightarrow> d \<noteq> at_container a \<Longrightarrow>
       ready_head now (queues k (co_store co) d) z \<Longrightarrow> batch_key y \<le> batch_key z"
    and ord: "tl_ordered (ct_list k (co_store co (at_container a))) \<Longrightarrow> tl_ordered l2"
  defines "ts' \<equiv> ts @ map (Pair (at_container a)) xs"
    and "store' \<equiv> (co_store co)(at_container a := ct_put k l2 (co_store co (at_container a)))"
  shows "greedy now C (queues k store) ts' (queues k store')"
    "same_rest k (at_container ` set as) store store'"
    "\<forall>rc' \<in> set heap. entry_ok k now as (fst ` set ts') store' rc'"
    "\<forall>u \<in> set (co_updates co). update_ok k now (length ts' < m) as store' u"
    "mset (if rc_dirty rc then co_changed co else co_changed co @ [rc_rank rc]) =
       mset (map at_rank (filter (\<lambda>a. at_container a \<in> fst ` set ts') as))"
proof -
  let ?c = "at_container a"
  have touched: "fst ` set ts' = insert ?c (fst ` set ts)"
    using q(2) by (cases xs) (auto simp: ts'_def image_iff)
  have qs: "queues k store' = (queues k (co_store co))(?c := tl_ticks l2)"
    by (auto simp: store'_def)
  have "?c \<in> C" using b a(1) by (auto simp: batch_ok_def)
  with co_invD(6) [OF co] q(1) due best show "greedy now C (queues k store) ts' (queues k store')"
    unfolding qs ts'_def by (intro greedy_run) auto
  show "same_rest k (at_container ` set as) store store'"
    using co_invD(5) [OF co] a(1) ord by (auto simp: same_rest_def store'_def)
  show "\<forall>rc' \<in> set heap. entry_ok k now as (fst ` set ts') store' rc'"
  proof
    fix rc'
    assume rc': "rc' \<in> set heap"
    then have "rc_pos rc' \<noteq> at_pos a" using popped_alone(1) [OF b co h] a(2) by force
    moreover have "entry_ok k now as (fst ` set ts) (co_store co) rc'"
      using co_invD(3) [OF co] h rc' by simp
    ultimately show "entry_ok k now as (fst ` set ts') store' rc'"
      unfolding touched store'_def by (intro entry_ok_other [OF _ b a(1)])
  qed
  show "\<forall>u \<in> set (co_updates co). update_ok k now (length ts' < m) as store' u"
  proof
    fix u
    assume u: "u \<in> set (co_updates co)"
    then have "fst u \<noteq> at_pos a" using popped_alone(2) [OF b co h] a(2) by force
    then show "update_ok k now (length ts' < m) as store' u"
      unfolding store'_def by (intro update_ok_other [OF co_invD(4) [OF co u] b a(1)]) (simp_all add: ts'_def)
  qed
  show "mset (if rc_dirty rc then co_changed co else co_changed co @ [rc_rank rc]) =
      mset (map at_rank (filter (\<lambda>a. at_container a \<in> fst ` set ts') as))"
  proof (cases "?c \<in> fst ` set ts")
    case True
    then have "fst ` set ts' = fst ` set ts" using touched by auto
    with True show ?thesis using co_invD(9) [OF co] a(3) by simp
  next
    case False
    have "distinct as" using b by (simp add: batch_ok_def distinct_map)
    have "filter (\<lambda>a. at_container a \<in> fst ` set ts') as =
        filter (\<lambda>a'. at_container a' \<in> fst ` set ts \<or> a' = a) as"
      unfolding touched using same_container [OF b _ a(1)] by (intro filter_cong) auto
    then have "mset (filter (\<lambda>a. at_container a \<in> fst ` set ts') as) =
        add_mset a (mset (filter (\<lambda>a. at_container a \<in> fst ` set ts) as))"
      using mset_filter_insert [OF \<open>distinct as\<close> a(1), of "\<lambda>a'. at_container a' \<in> fst ` set ts"] False
      by simp
    then show ?thesis using False co_invD(9) [OF co] a(3,4) by (simp del: mset_filter)
  qed
qed

lemma collect_round_inv:
  assumes b: "batch_ok k now C store as" and co: "co_inv k now m C store as ts co" and len: "length ts < m"
    and h: "co_heap co = rc # heap"
  shows "\<exists>co' ts'. collect_round k now m rc heap co = Some co' \<and> co_inv k now m C store as ts' co'"
proof -
  define rival where "rival = map_option (\<lambda>o'. (rc_priority o', rc_order o')) (heap_peek heap)"
  obtain a x xs where a: "a \<in> set as" "rc_pos rc = at_pos a" "rc_rank rc = at_rank a"
    "rc_container rc = at_container a" "rc_dirty rc = (at_container a \<in> fst ` set ts)"
    "queues k (co_store co) (at_container a) = x # xs" "is_due now x"
    and best: "\<And>y d z. y = x \<or> unbeaten rival y \<Longrightarrow> d \<in> C \<Longrightarrow> d \<noteq> at_container a \<Longrightarrow>
       ready_head now (queues k (co_store co) d) z \<Longrightarrow> batch_key y \<le> batch_key z"
    using round_drained [OF b co len h] unfolding rival_def by blast
  let ?c = "co_store co (at_container a)"
  define l1 where "l1 = (ct_list k ?c)\<lparr>tl_ticks := xs, tl_scheduled := tl_scheduled (ct_list k ?c) - {st_key (qt_tick x)}\<rparr>"
  have pop: "pop_ready now (ct_list k ?c) = Some (qt_tick x, l1)"
    using a(6,7) by (simp add: pop_ready_Cons is_due_def l1_def)
  have "length (co_ticks co @ [qt_tick x]) \<le> m" using co_invD(7) [OF co] len by simp
  from drain_current_spec [OF this, of now rival l1] obtain ys l2 where ys:
    "drain_current now m rival (co_ticks co @ [qt_tick x]) l1 = (co_ticks co @ [qt_tick x] @ map qt_tick ys, l2)"
    "xs = ys @ tl_ticks l2" "\<forall>y \<in> set ys. is_due now y \<and> unbeaten rival y"
    "length (co_ticks co @ [qt_tick x]) + length ys \<le> m"
    by (auto simp: l1_def)
  have ord: "tl_ordered l2" if "tl_ordered (ct_list k ?c)"
    using drain_current_ordered [of l1 now m rival "co_ticks co @ [qt_tick x]"] pop_ready_ordered [OF that pop] ys(1)
    by simp
  define ts' where "ts' = ts @ map (Pair (at_container a)) (x # ys)"
  define store' where "store' = (co_store co)(at_container a := ct_put k l2 ?c)"
  define changed where "changed = (if rc_dirty rc then co_changed co else co_changed co @ [rc_rank rc])"
  define ticks where "ticks = co_ticks co @ [qt_tick x] @ map qt_tick ys"
  have "queues k (co_store co) (at_container a) = (x # ys) @ tl_ticks l2" using a(6) ys(2) by simp
  note taken = run_taken [OF b co h a(1,2,5,3) this _ _ _ ord, folded ts'_def store'_def changed_def]
  have due: "is_due now y" if "y \<in> set (x # ys)" for y using that a(7) ys(3) by auto
  have bst: "batch_key y \<le> batch_key z" if "y \<in> set (x # ys)" "d \<in> C" "d \<noteq> at_container a"
    "ready_head now (queues k (co_store co) d) z" for y d z
    using that best ys(3) by auto
  note taken = taken [OF _ due bst, simplified]
  have tk: "ticks = map (\<lambda>x. qt_tick (snd x)) ts'"
    using co_invD(7) [OF co] by (simp add: ticks_def ts'_def)
  then have lt: "length ticks = length ts'" by simp
  have lm: "length ts' \<le> m" using ys(4) co_invD(7) [OF co] by (simp add: ts'_def)
  have reg: "ct_lifecycle ?c = Registered"
    using b a(1) co_invD(5) [OF co] by (simp add: batch_ok_def same_rest_def)
  have dirty: "at_container a \<in> fst ` set ts'" by (simp add: ts'_def)
  have heapord: "heap_ordered ready_cmp heap" using co_invD(1) [OF co] h by simp
  have pos: "mset (map rc_pos heap) + mset (map fst (co_updates co @ [(at_pos a, hd)])) = mset (map at_pos as)" for hd
    using co_invD(2) [OF co] h a(2) by (simp add: ac_simps)
  have l2: "ct_list k (store' (at_container a)) = l2" by (simp add: store'_def)
  let ?co1 = "co\<lparr>co_store := store', co_ticks := ticks, co_changed := changed\<rparr>"
  have closed: "co_inv k now m C store as ts' (?co1\<lparr>co_heap := heap, co_updates := co_updates co @ [(rc_pos rc, head_trigger k (ct_put k l2 ?c))]\<rparr>)"
    if stop: "\<And>y. length ts' < m \<Longrightarrow> \<not> ready_head now (tl_ticks l2) y"
  proof -
    have "update_ok k now (length ts' < m) as store' (rc_pos rc, head_trigger k (ct_put k l2 ?c))"
      unfolding update_ok_def using a(1,2) stop l2 by (intro bexI [of _ a]) (simp_all add: store'_def)
    then show ?thesis
      unfolding co_inv_def using taken heapord pos a(2) tk lm by simp
  qed
  have pushed: "co_inv k now m C store as ts'
      (?co1\<lparr>co_heap := heap_push ready_cmp (ready_refresh (qt_tick z) (rc\<lparr>rc_dirty := True\<rparr>)) heap\<rparr>)"
    if z: "tl_ticks l2 = z # zs" "is_due now z" for z zs
  proof -
    let ?rc = "ready_refresh (qt_tick z) (rc\<lparr>rc_dirty := True\<rparr>)"
    have "ready_head now (queues k store' (at_container a)) z" using z l2 by (simp add: ready_head_def)
    then have "entry_ok k now as (fst ` set ts') store' ?rc"
      unfolding entry_ok_def using a(1-4) dirty
      by (intro bexI [of _ a]) (auto simp: ready_refresh_def batch_key_def)
    moreover have "rc_pos ?rc = at_pos a" using a(2) by (simp add: ready_refresh_def)
    ultimately show ?thesis
      unfolding co_inv_def using taken heapord co_invD(2) [OF co] h a(2) tk lm
      by (simp add: ready.push_ordered)
  qed
  have run: "collect_round k now m rc heap co = Some (case tl_peek l2 of
       Some nt \<Rightarrow>
         if length ticks < m \<and> st_trigger nt \<le> now
         then ?co1\<lparr>co_heap := heap_push ready_cmp (ready_refresh nt (rc\<lparr>rc_dirty := True\<rparr>)) heap\<rparr>
         else ?co1\<lparr>co_heap := heap, co_updates := co_updates co @ [(rc_pos rc, Some (st_trigger nt))]\<rparr>
     | None \<Rightarrow> ?co1\<lparr>co_heap := heap, co_updates := co_updates co @ [(rc_pos rc, None)]\<rparr>)"
    unfolding collect_round_def Let_def a(4) rival_def [symmetric] changed_def [symmetric]
    using reg pop ys(1) [folded ticks_def] by (simp add: store'_def split: option.split)
  show ?thesis
  proof (cases "tl_ticks l2")
    case Nil
    then show ?thesis using closed run by (auto simp: tl_peek_def ready_head_def head_trigger_def)
  next
    case (Cons z zs)
    then have pk: "tl_peek l2 = Some (qt_tick z)" by (simp add: tl_peek_def)
    show ?thesis
    proof (cases "length ticks < m \<and> is_due now z")
      case True
      then show ?thesis using pushed [OF Cons] run pk by (auto simp: is_due_def)
    next
      case False
      then have "length ts' < m \<Longrightarrow> \<not> ready_head now (tl_ticks l2) y" for y
        using Cons lt by (auto simp: ready_head_def)
      from closed [OF this] show ?thesis
        using False run pk by (auto simp: is_due_def head_trigger_def)
    qed
  qed
qed

lemma collect_loop_inv:
  assumes "batch_ok k now C store as" "co_inv k now m C store as ts co"
  shows "\<exists>co' ts'. collect_loop k now m co = Some co' \<and> co_inv k now m C store as ts' co' \<and>
    (length ts' < m \<longrightarrow> co_heap co' = [])"
  using assms
proof (induction k now m co arbitrary: ts rule: collect_loop.induct)
  case (1 k now m co)
  have len: "length (co_ticks co) = length ts" using co_invD(7) [OF "1.prems"(2)] by simp
  show ?case
  proof (cases "length ts < m \<and> co_heap co \<noteq> []")
    case True
    then obtain rc heap where h: "co_heap co = rc # heap" by (cases "co_heap co") auto
    then obtain co1 ts1 where co1: "collect_round k now m rc heap co = Some co1" "co_inv k now m C store as ts1 co1"
      using collect_round_inv [OF "1.prems" _ h] True by blast
    have "collect_loop k now m co = collect_loop k now m co1"
      using True h co1(1) len by (subst collect_loop.simps) simp
    then show ?thesis using "1.IH" [OF _ h co1(1) "1.prems"(1) co1(2)] True len by simp
  next
    case False
    then have "collect_loop k now m co = Some co"
      using len by (subst collect_loop.simps) (auto split: list.splits)
    with False "1.prems"(2) show ?thesis by auto
  qed
qed

section \<open>Preparing the heap\<close>

lemma entry_ok_mono: "entry_ok k now as T store rc \<Longrightarrow> set as \<subseteq> set bs \<Longrightarrow> entry_ok k now bs T store rc"
  unfolding entry_ok_def by blast

lemma update_ok_mono: "update_ok k now open as store u \<Longrightarrow> set as \<subseteq> set bs \<Longrightarrow> update_ok k now open bs store u"
  unfolding update_ok_def by blast

lemma prepare_spec:
  assumes "\<forall>a \<in> set as. ct_lifecycle (store (at_container a)) = Registered"
    "heap_ordered ready_cmp heap" "mset (map rc_pos heap) + mset (map fst ups) = mset (map at_pos ds)"
    "\<forall>rc \<in> set heap. entry_ok k now ds {} store rc" "\<forall>u \<in> set ups. update_ok k now True ds store u"
  shows "\<exists>heap' ups'. prepare_ready_containers k now store as heap ups = Ok (heap', ups') \<and>
    heap_ordered ready_cmp heap' \<and> mset (map rc_pos heap') + mset (map fst ups') = mset (map at_pos (ds @ as)) \<and>
    (\<forall>rc \<in> set heap'. entry_ok k now (ds @ as) {} store rc) \<and>
    (\<forall>u \<in> set ups'. update_ok k now True (ds @ as) store u)"
  using assms
proof (induction as arbitrary: heap ups ds)
  case Nil
  then show ?case by simp
next
  case (Cons a as)
  let ?l = "ct_list k (store (at_container a))"
  have es: "\<forall>rc \<in> set heap. entry_ok k now (ds @ [a]) {} store rc"
    using Cons.prems(4) entry_ok_mono [of k now ds] by (metis set_append Un_upper1)
  have us: "\<forall>u \<in> set ups. update_ok k now True (ds @ [a]) store u"
    using Cons.prems(5) update_ok_mono [of k now True ds] by (metis set_append Un_upper1)
  have reg: "ct_lifecycle (store (at_container a)) = Registered"
    "\<forall>a \<in> set as. ct_lifecycle (store (at_container a)) = Registered"
    using Cons.prems(1) by simp_all
  have later: ?case
    if "prepare_ready_containers k now store (a # as) heap ups =
          prepare_ready_containers k now store as heap (ups @ [(at_pos a, head_trigger k (store (at_container a)))])"
      "\<And>x. \<not> ready_head now (tl_ticks ?l) x"
  proof -
    have "update_ok k now True (ds @ [a]) store (at_pos a, head_trigger k (store (at_container a)))"
      using that(2) by (auto simp: update_ok_def)
    then show ?thesis
      using Cons.IH [OF reg(2) Cons.prems(2), of "ups @ [(at_pos a, head_trigger k (store (at_container a)))]" "ds @ [a]"]
        Cons.prems(3) es us that(1) by simp
  qed
  show ?case
  proof (cases "tl_ticks ?l")
    case Nil
    then show ?thesis using reg(1)
      by (intro later) (simp_all add: tl_peek_def head_trigger_def ready_head_def)
  next
    case (Cons x xs)
    show ?thesis
    proof (cases "is_due now x")
      case True
      let ?rc = "ready_new a (qt_tick x) False"
      have "entry_ok k now (ds @ [a]) {} store ?rc"
        unfolding entry_ok_def using True Cons
        by (intro bexI [of _ a]) (auto simp: ready_new_def ready_head_def batch_key_def)
      moreover have "rc_pos ?rc = at_pos a" by (simp add: ready_new_def)
      moreover have "prepare_ready_containers k now store (a # as) heap ups =
          prepare_ready_containers k now store as (heap_push ready_cmp ?rc heap) ups"
        using True Cons reg(1) by (simp add: tl_peek_def is_due_def)
      ultimately show ?thesis
        using Cons.IH [OF reg(2), of "heap_push ready_cmp ?rc heap" ups "ds @ [a]"]
          Cons.prems(2,3) es us by (simp add: ready.push_ordered)
    next
      case False
      then show ?thesis using Cons reg(1)
        by (intro later) (auto simp: tl_peek_def head_trigger_def ready_head_def is_due_def)
    qed
  qed
qed

text \<open>The whole merge, from the due containers to the batch and the heads to record.\<close>

lemma collect_registered_spec:
  assumes b: "batch_ok k now C store as" and m: "0 < m"
  shows "\<exists>co ts. collect_registered_ticks k now m as store = Ok co \<and>
    mset (map fst (co_updates co)) = mset (map at_pos as) \<and>
    (\<forall>u \<in> set (co_updates co). update_ok k now False as (co_store co) u) \<and>
    same_rest k (at_container ` set as) store (co_store co) \<and>
    greedy now C (queues k store) ts (queues k (co_store co)) \<and>
    co_ticks co = map (\<lambda>x. qt_tick (snd x)) ts \<and> length ts \<le> m \<and>
    mset (co_changed co) = mset (map at_rank (filter (\<lambda>a. at_container a \<in> fst ` set ts) as)) \<and>
    (length ts < m \<longrightarrow> (\<forall>c \<in> C. \<forall>x. \<not> ready_head now (queues k (co_store co) c) x))"
proof -
  have "\<forall>a \<in> set as. ct_lifecycle (store (at_container a)) = Registered" using b by (simp add: batch_ok_def)
  from prepare_spec [OF this, of "[]" "[]" "[]" k now] obtain heap ups where prep:
    "prepare_ready_containers k now store as [] [] = Ok (heap, ups)" "heap_ordered ready_cmp heap"
    "mset (map rc_pos heap) + mset (map fst ups) = mset (map at_pos as)"
    "\<forall>rc \<in> set heap. entry_ok k now as {} store rc" "\<forall>u \<in> set ups. update_ok k now True as store u"
    by auto
  let ?co0 = "\<lparr>co_store = store, co_heap = heap, co_ticks = [], co_changed = [], co_updates = ups\<rparr>"
  have "co_inv k now m C store as [] ?co0"
    unfolding co_inv_def using prep(2-5) m by (simp add: same_rest_def greedy_nil)
  from collect_loop_inv [OF b this] obtain co ts where co: "collect_loop k now m ?co0 = Some co"
    "co_inv k now m C store as ts co" "length ts < m \<longrightarrow> co_heap co = []"
    by blast
  let ?rest = "map (\<lambda>rc. (rc_pos rc, head_trigger k (co_store co (rc_container rc)))) (co_heap co)"
  let ?co = "co\<lparr>co_updates := co_updates co @ ?rest\<rparr>"
  have run: "collect_registered_ticks k now m as store = Ok ?co"
    using prep(1) co(1) by (simp add: collect_registered_ticks_def)
  have ups: "update_ok k now False as (co_store co) u" if "u \<in> set (co_updates ?co)" for u
  proof -
    consider (old) "u \<in> set (co_updates co)" | (new) rc where "rc \<in> set (co_heap co)"
        "u = (rc_pos rc, head_trigger k (co_store co (rc_container rc)))"
      using \<open>u \<in> set (co_updates ?co)\<close> by auto
    then show ?thesis
    proof cases
      case old
      then show ?thesis using co_invD(4) [OF co(2) old] by (auto simp: update_ok_def)
    next
      case new
      then show ?thesis using co_invD(3) [OF co(2) new(1)] by (auto simp: update_ok_def entry_ok_def)
    qed
  qed
  have "mset (map fst (co_updates ?co)) = mset (map at_pos as)"
    using co_invD(2) [OF co(2)] by (simp add: comp_def add.commute)
  moreover have "\<not> ready_head now (queues k (co_store co) c) x" if "length ts < m" "c \<in> C" for c x
    using ready_in_heap [OF b co(2) that] co(3) that(1) by (metis empty_iff empty_set)
  ultimately show ?thesis
    using run ups co_invD(5-9) [OF co(2)] by (intro exI [of _ ?co] exI [of _ ts]) simp
qed

section \<open>Recording the new heads\<close>

definition same_registrations :: "sched \<Rightarrow> sched \<Rightarrow> bool" where
  "same_registrations s s' \<longleftrightarrow> ws_generation s' = ws_generation s \<and>
     (\<forall>p. map_option (\<lambda>r. (rg_container r, rg_active r)) (ws_chunks s' p) =
          map_option (\<lambda>r. (rg_container r, rg_active r)) (ws_chunks s p))"

lemma apply_updates_spec:
  assumes "sched_inv_except D s"
    "\<forall>u \<in> set us. \<exists>r. ws_chunks s (fst u) = Some r \<and> snd u = head_trigger k (ws_store s (rg_container r))"
  shows "\<exists>s'. apply_updates k us s = (Ok (), s') \<and> sched_inv_except (D - (\<lambda>u. (fst u, k)) ` set us) s' \<and>
    ws_store s' = ws_store s \<and> same_registrations s s'"
  using assms
proof (induction us arbitrary: D s)
  case Nil
  then show ?case by (simp add: same_registrations_def)
next
  case (Cons u us)
  obtain p h where u: "u = (p, h)" by (cases u)
  obtain r where r: "ws_chunks s p = Some r" "h = head_trigger k (ws_store s (rg_container r))"
    using Cons.prems(2) u by auto
  obtain s1 where s1: "set_head p k h s = (Ok (), s1)" "sched_inv_except (D - {(p, k)}) s1"
    "ws_chunks s1 = (ws_chunks s)(p \<mapsto> rg_set_head k h r)" "ws_store s1 = ws_store s"
    "ws_generation s1 = ws_generation s"
    using set_head_inv [OF Cons.prems(1) r] by metis
  have "\<forall>u \<in> set us. \<exists>r. ws_chunks s1 (fst u) = Some r \<and> snd u = head_trigger k (ws_store s1 (rg_container r))"
  proof
    fix v
    assume "v \<in> set us"
    with Cons.prems(2) obtain r' where "ws_chunks s (fst v) = Some r'" "snd v = head_trigger k (ws_store s (rg_container r'))"
      by auto
    then show "\<exists>r. ws_chunks s1 (fst v) = Some r \<and> snd v = head_trigger k (ws_store s1 (rg_container r))"
      using r(1) by (cases "fst v = p") (simp_all add: s1(3,4))
  qed
  from Cons.IH [OF s1(2) this] obtain s' where s': "apply_updates k us s1 = (Ok (), s')"
    "sched_inv_except (D - {(p, k)} - (\<lambda>u. (fst u, k)) ` set us) s'" "ws_store s' = ws_store s1"
    "same_registrations s1 s'"
    by blast
  have "D - {(p, k)} - (\<lambda>u. (fst u, k)) ` set us = D - (\<lambda>u. (fst u, k)) ` set (u # us)" using u by auto
  moreover have "same_registrations s s'"
    using s'(4) r(1) unfolding same_registrations_def s1(3,5) by (auto split: if_splits)
  ultimately show ?case using s1(1,4) s'(1-3) u by simp
qed

text \<open>The store of the merged containers leaves only the due heads stale.\<close>

lemma merged_store_inv:
  assumes inv: "sched_inv_except (stale_of k as) s" and rest: "same_rest k A (ws_store s) store"
    and A: "\<And>p r. ws_chunks s p = Some r \<Longrightarrow> rg_container r \<in> A \<Longrightarrow> p \<in> at_pos ` set as"
  shows "sched_inv_except (stale_of k as) (s\<lparr>ws_store := store\<rparr>)"
proof -
  let ?s = "s\<lparr>ws_store := store\<rparr>"
  have "index_ok ?s" "generations_ok ?s"
    using inv by (simp_all add: sched_inv_except_def index_ok_def generations_ok_def)
  moreover have "owners_ok ?s"
    using inv rest by (simp add: sched_inv_except_def owners_ok_def same_rest_def)
  moreover have "queues_ok ?s"
    using inv rest by (simp add: sched_inv_except_def queues_ok_def same_rest_def)
  moreover have "heads_ok (stale_of k as) ?s"
    unfolding heads_ok_def
  proof (intro allI impI)
    fix p r k'
    assume p: "ws_chunks ?s p = Some r" "(p, k') \<notin> stale_of k as"
    then have "rg_head k' r = head_trigger k' (ws_store s (rg_container r))"
      using sched_invD(4) [OF inv] by simp
    moreover have "ct_list k' (store (rg_container r)) = ct_list k' (ws_store s (rg_container r))"
    proof (cases "k' = k")
      case True
      then have "rg_container r \<notin> A" using p A [of p r] by (auto simp: stale_of_def)
      then show ?thesis using rest by (simp add: same_rest_def)
    qed (use rest in \<open>simp add: same_rest_def\<close>)
    ultimately show "rg_head k' r = head_trigger k' (ws_store ?s (rg_container r))"
      by (simp add: head_trigger_def)
  qed
  ultimately show ?thesis by (simp add: sched_inv_except_def)
qed

definition active_containers :: "sched \<Rightarrow> nat set" where
  "active_containers s =
     {rg_container r | p r. ws_chunks s p = Some r \<and> active_rank (ws_generation s) r \<noteq> None}"

lemma due_batch_ok:
  assumes inv: "sched_inv s" and as: "\<And>a. a \<in> set as \<longleftrightarrow> due_at k now s a" "distinct (map at_pos as)"
  shows "batch_ok k now (active_containers s) (ws_store s) as"
  unfolding batch_ok_def
proof (intro conjI ballI allI)
  have r: "\<exists>r. ws_chunks s (at_pos a) = Some r \<and> rg_container r = at_container a \<and>
      active_rank (ws_generation s) r = Some (at_rank a)" if "a \<in> set as" for a
    using that as(1) [of a] by (auto simp: due_at_def)
  show "distinct (map at_pos as)" by (rule as(2))
  show "inj_on at_container (set as)"
  proof (rule inj_onI)
    fix a b
    assume ab: "a \<in> set as" "b \<in> set as" "at_container a = at_container b"
    then have "at_pos a = at_pos b" using r [of a] r [of b] sched_invD(3) [OF inv] by metis
    with ab as(2) show "a = b" by (metis distinct_map inj_onD)
  qed
  show "at_container ` set as \<subseteq> active_containers s"
  proof (rule image_subsetI)
    show "at_container a \<in> active_containers s" if "a \<in> set as" for a
      using r [OF that] unfolding active_containers_def by (metis (mono_tags, lifting) mem_Collect_eq option.distinct(1))
  qed
  show "ct_lifecycle (ws_store s (at_container a)) = Registered" if "a \<in> set as" for a
    using r [OF that] sched_invD(1) [OF inv] by metis
  show "tl_ordered (ct_list k' (ws_store s c))" for c k'
    using inv by (simp add: sched_inv_except_def queues_ok_def)
  fix c x
  assume c: "c \<in> active_containers s - at_container ` set as"
  then obtain p r n where p: "ws_chunks s p = Some r" "rg_container r = c" "active_rank (ws_generation s) r = Some n"
    unfolding active_containers_def by auto
  show "\<not> ready_head now (queues k (ws_store s) c) x"
  proof
    assume "ready_head now (queues k (ws_store s) c) x"
    then have "head_trigger k (ws_store s c) = Some (st_trigger (qt_tick x))" "st_trigger (qt_tick x) \<le> now"
      by (auto simp: ready_head_def head_trigger_def tl_peek_def is_due_def)
    then have "due_at k now s \<lparr>at_pos = p, at_rank = n, at_container = c\<rparr>"
      using p sched_invD(4) [OF inv p(1)] by (simp add: due_at_def)
    then have "\<lparr>at_pos = p, at_rank = n, at_container = c\<rparr> \<in> set as" using as(1) by blast
    then have "c \<in> at_container ` set as" by (metis active_container.select_convs(3) imageI)
    with c show False by simp
  qed
qed

text \<open>The ranks reported as changed are those of the containers the batch was taken from.\<close>

lemma changed_ranks:
  assumes b: "batch_ok k now C store as" and rest: "same_rest k (at_container ` set as) store store'"
    and g: "greedy now C (queues k store) ts (queues k store')"
    and ch: "mset changed = mset (map at_rank (filter (\<lambda>a. at_container a \<in> fst ` set ts) as))"
  shows "length changed = card (fst ` set ts)"
    and "set changed = {at_rank a | a. a \<in> set as \<and> at_container a \<in> fst ` set ts}"
    and "fst ` set ts \<subseteq> at_container ` set as"
proof -
  let ?fs = "filter (\<lambda>a. at_container a \<in> fst ` set ts) as"
  show sub: "fst ` set ts \<subseteq> at_container ` set as"
  proof
    fix c
    assume c: "c \<in> fst ` set ts"
    show "c \<in> at_container ` set as"
    proof (rule ccontr)
      assume "c \<notin> at_container ` set as"
      then have "queues k store' c = queues k store c" using rest by (simp add: same_rest_def)
      with greedy_queue [OF g, of c] have "filter (\<lambda>x. fst x = c) ts = []" by simp
      with c show False by (auto simp: filter_empty_conv)
    qed
  qed
  have "fst ` set ts = at_container ` set ?fs"
  proof
    show "fst ` set ts \<subseteq> at_container ` set ?fs"
    proof
      fix c
      assume c: "c \<in> fst ` set ts"
      then obtain a where "a \<in> set as" "c = at_container a" using sub by blast
      with c show "c \<in> at_container ` set ?fs" by simp
    qed
  qed (simp add: image_subset_iff)
  moreover have "inj_on at_container (set ?fs)" using b unfolding batch_ok_def by (auto intro: inj_on_subset)
  moreover have "distinct ?fs" using b by (auto simp: batch_ok_def distinct_map)
  ultimately have "card (fst ` set ts) = length ?fs" by (metis card_image distinct_card)
  moreover have "length changed = length ?fs" using ch by (metis length_map mset_eq_length)
  ultimately show "length changed = card (fst ` set ts)" by simp
  have "set changed = at_rank ` set ?fs" using ch by (metis list.set_map mset_eq_setD)
  then show "set changed = {at_rank a | a. a \<in> set as \<and> at_container a \<in> fst ` set ts}" by auto
qed

definition rank_of :: "sched \<Rightarrow> nat \<Rightarrow> nat \<Rightarrow> bool" where
  "rank_of s c n \<longleftrightarrow> (\<exists>p r. ws_chunks s p = Some r \<and> rg_container r = c \<and>
     active_rank (ws_generation s) r = Some n)"

lemma collect_ticks_greedy:
  assumes inv: "sched_inv s"
  shows "\<exists>ts changed s'. collect_ticks k now m s = (Ok (map (\<lambda>x. qt_tick (snd x)) ts, changed), s') \<and>
    sched_inv s' \<and> same_registrations s s' \<and>
    same_rest k (active_containers s) (ws_store s) (ws_store s') \<and>
    greedy now (active_containers s) (queues k (ws_store s)) ts (queues k (ws_store s')) \<and>
    length ts \<le> m \<and>
    (length ts < m \<longrightarrow> (\<forall>c \<in> active_containers s. \<forall>x. \<not> ready_head now (queues k (ws_store s') c) x)) \<and>
    length changed = card (fst ` set ts) \<and> set changed = {n. \<exists>c \<in> fst ` set ts. rank_of s c n}"
proof (cases "m = 0")
  case True
  then show ?thesis using inv
    by (intro exI [of _ "[]"] exI [of _ s])
      (simp add: collect_ticks_def same_registrations_def same_rest_def greedy_nil)
next
  case False
  let ?C = "active_containers s"
  obtain as s1 where due: "take_due k now s = (Ok as, s1)" "sched_inv_except (stale_of k as) s1"
    "distinct (map at_pos as)" "\<And>a. a \<in> set as \<longleftrightarrow> due_at k now s a" "ws_store s1 = ws_store s"
    "ws_generation s1 = ws_generation s"
    "ws_chunks s1 = (\<lambda>p. if p \<in> at_pos ` set as then map_option (rg_set_head k None) (ws_chunks s p)
                        else ws_chunks s p)"
    using take_due_from_spec [OF inv refl, of k now] unfolding take_due_def by auto
  have reg1: "same_registrations s s1"
    unfolding same_registrations_def due(6,7) by (simp add: option.map_comp comp_def)
  have b: "batch_ok k now ?C (ws_store s) as" by (rule due_batch_ok [OF inv due(4,3)])
  then have sub: "at_container ` set as \<subseteq> ?C" by (simp add: batch_ok_def)
  from False have "0 < m" by simp
  from collect_registered_spec [OF b this] obtain co ts where co:
    "collect_registered_ticks k now m as (ws_store s) = Ok co"
    "mset (map fst (co_updates co)) = mset (map at_pos as)"
    "\<forall>u \<in> set (co_updates co). update_ok k now False as (co_store co) u"
    "same_rest k (at_container ` set as) (ws_store s) (co_store co)"
    "greedy now ?C (queues k (ws_store s)) ts (queues k (co_store co))"
    "co_ticks co = map (\<lambda>x. qt_tick (snd x)) ts" "length ts \<le> m"
    "mset (co_changed co) = mset (map at_rank (filter (\<lambda>a. at_container a \<in> fst ` set ts) as))"
    "length ts < m \<longrightarrow> (\<forall>c \<in> ?C. \<forall>x. \<not> ready_head now (queues k (co_store co) c) x)"
    by blast
  have chunk: "\<exists>r. ws_chunks s1 (at_pos a) = Some r \<and> rg_container r = at_container a" if "a \<in> set as" for a
    using that due(4) [of a] by (auto simp: due_at_def due(7))
  have own: "p \<in> at_pos ` set as" if p: "ws_chunks s1 p = Some r" "rg_container r \<in> at_container ` set as" for p r
  proof -
    obtain a where "a \<in> set as" "rg_container r = at_container a" using p(2) by auto
    with chunk [of a] sched_invD(3) [OF due(2) p(1)] have "at_pos a = p" by metis
    with \<open>a \<in> set as\<close> show ?thesis by blast
  qed
  let ?s2 = "s1\<lparr>ws_store := co_store co\<rparr>"
  have "sched_inv_except (stale_of k as) ?s2"
    using own by (intro merged_store_inv [OF due(2) _]) (use co(4) due(5) in auto)
  moreover have "\<forall>u \<in> set (co_updates co). \<exists>r. ws_chunks ?s2 (fst u) = Some r \<and>
      snd u = head_trigger k (ws_store ?s2 (rg_container r))"
  proof
    fix u
    assume "u \<in> set (co_updates co)"
    then obtain a where a: "a \<in> set as" "fst u = at_pos a" "snd u = head_trigger k (co_store co (at_container a))"
      using co(3) unfolding update_ok_def by blast
    with chunk [OF a(1)] show "\<exists>r. ws_chunks ?s2 (fst u) = Some r \<and> snd u = head_trigger k (ws_store ?s2 (rg_container r))"
      by auto
  qed
  ultimately obtain s' where s': "apply_updates k (co_updates co) ?s2 = (Ok (), s')"
    "sched_inv_except (stale_of k as - (\<lambda>u. (fst u, k)) ` set (co_updates co)) s'"
    "ws_store s' = co_store co" "same_registrations ?s2 s'"
    using apply_updates_spec by fastforce
  have "fst ` set (co_updates co) = at_pos ` set as" using co(2) by (metis list.set_map mset_eq_setD)
  then have "stale_of k as - (\<lambda>u. (fst u, k)) ` set (co_updates co) = {}"
    unfolding stale_of_def by (auto simp: image_iff)
  with s'(2) have inv': "sched_inv s'" by simp
  have reg: "same_registrations s s'" using reg1 s'(4) by (simp add: same_registrations_def)
  have rest: "same_rest k ?C (ws_store s) (ws_store s')"
    using co(4) sub unfolding same_rest_def s'(3) by blast
  have ranks: "length (co_changed co) = card (fst ` set ts)"
    "set (co_changed co) = {at_rank a | a. a \<in> set as \<and> at_container a \<in> fst ` set ts}"
    "fst ` set ts \<subseteq> at_container ` set as"
    by (rule changed_ranks [OF b co(4,5,8)])+
  have rank: "rank_of s (at_container a) n \<longleftrightarrow> n = at_rank a" if a: "a \<in> set as" for a n
  proof -
    obtain r where r: "ws_chunks s (at_pos a) = Some r" "rg_container r = at_container a"
      "active_rank (ws_generation s) r = Some (at_rank a)"
      using a due(4) [of a] by (auto simp: due_at_def)
    have "p = at_pos a" if "ws_chunks s p = Some r'" "rg_container r' = at_container a" for p r'
      using sched_invD(3) [OF inv r(1) that(1)] that(2) r(2) by simp
    with r show ?thesis unfolding rank_of_def by auto
  qed
  have changed: "set (co_changed co) = {n. \<exists>c \<in> fst ` set ts. rank_of s c n}"
    unfolding ranks(2)
  proof (intro set_eqI iffI)
    fix n
    assume "n \<in> {at_rank a | a. a \<in> set as \<and> at_container a \<in> fst ` set ts}"
    then show "n \<in> {n. \<exists>c \<in> fst ` set ts. rank_of s c n}" using rank by blast
  next
    fix n
    assume "n \<in> {n. \<exists>c \<in> fst ` set ts. rank_of s c n}"
    then obtain c where c: "c \<in> fst ` set ts" "rank_of s c n" by blast
    then obtain a where a: "a \<in> set as" "c = at_container a" using ranks(3) by blast
    have "n = at_rank a" using rank [OF a(1)] c(2) a(2) by simp
    with c(1) a show "n \<in> {at_rank a | a. a \<in> set as \<and> at_container a \<in> fst ` set ts}"
      by (intro CollectI exI [of _ a]) simp
  qed
  have fin: "sched_inv s' \<and> same_registrations s s' \<and> same_rest k ?C (ws_store s) (ws_store s') \<and>
    greedy now ?C (queues k (ws_store s)) ts (queues k (ws_store s')) \<and> length ts \<le> m \<and>
    (length ts < m \<longrightarrow> (\<forall>c \<in> ?C. \<forall>x. \<not> ready_head now (queues k (ws_store s') c) x)) \<and>
    length (co_changed co) = card (fst ` set ts) \<and>
    set (co_changed co) = {n. \<exists>c \<in> fst ` set ts. rank_of s c n}"
    using inv' reg rest co(5,7,9) ranks(1) changed unfolding s'(3) by blast
  have "collect_ticks k now m s = (Ok (map (\<lambda>x. qt_tick (snd x)) ts, co_changed co), s')"
  proof (cases "as = []")
    case True
    then have "ts = []" "co_updates co = []" using ranks(3) co(2) by auto
    moreover from this have "co_changed co = []" using ranks(1) by simp
    moreover have "co_store co = ws_store s" using co(4) True by (auto simp: same_rest_def)
    moreover have "s1\<lparr>ws_store := ws_store s\<rparr> = s1" using due(5) by simp
    ultimately show ?thesis using True False due(1,5) s'(1) by (auto simp: collect_ticks_def)
  next
    case nonempty: False
    then show ?thesis using False due(1,5) co(1,6) s'(1) by (simp add: collect_ticks_def)
  qed
  with fin show ?thesis by (intro exI [of _ ts] exI [of _ "co_changed co"] exI [of _ s']) (rule conjI)
qed

end
