(* ===== verification/Tick_World.thy ===== *)
theory Tick_World
  imports Tick_Collect
begin

text \<open>
  The scheduler as the world drives it: the histories of scheduler operations a world can
  produce, the entry points of \<open>tick_scheduler/world.rs\<close> with the full-chunk handlers of
  \<open>chunk/full_chunk/mod.rs\<close> they call, and the batch of ticks being run
  (\<open>tick_scheduler/run_batch.rs\<close>).
\<close>

section \<open>Histories of the scheduler\<close>

text \<open>
  Every container belongs to one chunk, whose position is \<open>home c\<close>. Ticks are scheduled through
  full chunks, whose containers have been promoted; the active set of a ticking snapshot lists
  no chunk twice.
\<close>

definition chunk_of :: "(nat \<Rightarrow> chunk_pos) \<Rightarrow> nat \<Rightarrow> full_chunk" where
  "chunk_of home c = \<lparr>fc_pos = home c, fc_container = c\<rparr>"

definition promote_in :: "nat \<Rightarrow> sched \<Rightarrow> sched" where
  "promote_in c s = s\<lparr>ws_store := (ws_store s)(c := snd (promote_to_full (ws_store s c)))\<rparr>"

inductive sched_run :: "(nat \<Rightarrow> chunk_pos) \<Rightarrow> sched \<Rightarrow> bool" for home where
  run_new: "(\<And>c. ct_lifecycle (store c) = Proto \<or> ct_lifecycle (store c) = PrePublication) \<Longrightarrow>
     (\<And>c k. tl_ordered (ct_list k (store c))) \<Longrightarrow> (\<And>c. chunk_pos_ok (home c)) \<Longrightarrow>
     sched_run home (sched_new store)"
| run_promote: "sched_run home s \<Longrightarrow> sched_run home (promote_in c s)"
| run_register: "sched_run home s \<Longrightarrow> register_chunk (chunk_of home c) s = (res, s') \<Longrightarrow> sched_run home s'"
| run_unregister: "sched_run home s \<Longrightarrow> unregister_chunk p s = (res, s') \<Longrightarrow> sched_run home s'"
| run_unpack: "sched_run home s \<Longrightarrow> unpack_chunk p now s = (res, s') \<Longrightarrow> sched_run home s'"
| run_reconcile: "sched_run home s \<Longrightarrow> distinct ps \<Longrightarrow> reconcile_active_chunks ps s = (res, s') \<Longrightarrow>
     sched_run home s'"
| run_schedule: "sched_run home s \<Longrightarrow> ct_lifecycle (ws_store s c) \<noteq> Proto \<Longrightarrow>
     schedule_on k (chunk_of home c) t s = (res', s') \<Longrightarrow> sched_run home s'"
| run_order: "sched_run home s \<Longrightarrow> next_sub_tick_order s = (n, s') \<Longrightarrow> sched_run home s'"
| run_collect: "sched_run home s \<Longrightarrow> collect_ticks k now m s = (res'', s') \<Longrightarrow> sched_run home s'"

text \<open>In every history, a container is registered exactly when the index knows it at its home.\<close>

definition homes_ok :: "(nat \<Rightarrow> chunk_pos) \<Rightarrow> sched \<Rightarrow> bool" where
  "homes_ok home s \<longleftrightarrow>
     (\<forall>p r. ws_chunks s p = Some r \<longrightarrow> p = home (rg_container r)) \<and>
     (\<forall>c. ct_lifecycle (ws_store s c) = Registered \<longrightarrow>
        (\<exists>r. ws_chunks s (home c) = Some r \<and> rg_container r = c))"

lemma homes_okD:
  assumes "homes_ok home s"
  shows "ws_chunks s p = Some r \<Longrightarrow> p = home (rg_container r)"
    "ct_lifecycle (ws_store s c) = Registered \<Longrightarrow> \<exists>r. ws_chunks s (home c) = Some r \<and> rg_container r = c"
  using assms unfolding homes_ok_def by blast+

lemma homes_ok_same:
  assumes "homes_ok home s" "same_containers s s'"
    "\<And>c. ct_lifecycle (ws_store s' c) = Registered \<Longrightarrow> ct_lifecycle (ws_store s c) = Registered"
  shows "homes_ok home s'"
  unfolding homes_ok_def
proof (intro conjI allI impI)
  have old_of: "\<exists>r. ws_chunks s p = Some r \<and> rg_container r = rg_container r'" if "ws_chunks s' p = Some r'" for p r'
    using assms(2) that unfolding same_containers_def by (metis option.map(2) map_option_eq_Some)
  have new_of: "\<exists>r'. ws_chunks s' p = Some r' \<and> rg_container r' = rg_container r" if "ws_chunks s p = Some r" for p r
    using assms(2) that unfolding same_containers_def by (metis option.map(2) map_option_eq_Some)
  show "p = home (rg_container r)" if "ws_chunks s' p = Some r" for p r
    using old_of [OF that] assms(1) unfolding homes_ok_def by metis
  show "\<exists>r. ws_chunks s' (home c) = Some r \<and> rg_container r = c"
    if "ct_lifecycle (ws_store s' c) = Registered" for c
    using assms(3) [OF that] assms(1) new_of unfolding homes_ok_def by metis
qed

lemma coherent_home:
  assumes "homes_ok home s" "ct_lifecycle (ws_store s c) \<noteq> Proto"
  shows "coherent (chunk_of home c) s"
  using assms unfolding coherent_def chunk_of_def homes_ok_def by simp metis

lemma promote_in_inv:
  assumes "sched_inv s" "homes_ok home s"
  shows "sched_inv (promote_in c s) \<and> homes_ok home (promote_in c s)"
proof
  show "homes_ok home (promote_in c s)"
    by (rule homes_ok_same [OF assms(2)])
      (auto simp: promote_in_def same_containers_def promote_to_full_def split: if_splits)
  show "sched_inv (promote_in c s)"
    unfolding promote_in_def
  proof (cases "ct_lifecycle (ws_store s c) = Proto")
    case True
    then have free: "rg_container r \<noteq> c" if "ws_chunks s p = Some r" for p r
      using sched_invD(1) [OF assms(1) that] by auto
    let ?s = "s\<lparr>ws_store := (ws_store s)(c := snd (promote_to_full (ws_store s c)))\<rparr>"
    have "index_ok ?s" "generations_ok ?s"
      using assms(1) by (simp_all add: sched_inv_except_def index_ok_def generations_ok_def)
    moreover have "owners_ok ?s" "heads_ok {} ?s"
      using assms(1) free by (simp_all add: sched_inv_except_def owners_ok_def heads_ok_def)
    moreover have "queues_ok ?s"
      using assms(1) by (simp add: sched_inv_except_def queues_ok_def promote_to_full_def)
    ultimately show "sched_inv ?s" by (simp add: sched_inv_except_def)
  qed (use assms(1) in \<open>simp add: promote_to_full_def\<close>)
qed

lemma register_homes:
  assumes "sched_inv s" "homes_ok home s" "register_chunk (chunk_of home c) s = (res, s')"
  shows "homes_ok home s'"
proof (cases "ct_lifecycle (ws_store s c) = PrePublication \<and> ws_chunks s (home c) = None")
  case True
  then have free: "rg_container r \<noteq> c" if "ws_chunks s p = Some r" for p r
    using sched_invD(1) [OF assms(1) that] by auto
  from True assms(3) have s': "ws_store s' = (ws_store s)(c := (ws_store s c)\<lparr>ct_lifecycle := Registered\<rparr>)"
    by (auto simp: register_chunk_def chunk_of_def Let_def)
  define r where "r = \<lparr>rg_container = c, rg_block_head = head_trigger KBlock (ws_store s c),
    rg_fluid_head = head_trigger KFluid (ws_store s c), rg_active = None\<rparr>"
  have r: "rg_container r = c" "ws_chunks s' = (ws_chunks s)(home c \<mapsto> r)"
    using True assms(3) by (auto simp: register_chunk_def chunk_of_def Let_def r_def)
  show ?thesis
    unfolding homes_ok_def r(2) s'
  proof (intro conjI allI impI)
    show "p = home (rg_container r')" if "((ws_chunks s)(home c \<mapsto> r)) p = Some r'" for p r'
      using that homes_okD(1) [OF assms(2)] r(1) by (cases "p = home c") simp_all
    show "\<exists>r'. ((ws_chunks s)(home c \<mapsto> r)) (home d) = Some r' \<and> rg_container r' = d"
      if d: "ct_lifecycle (((ws_store s)(c := (ws_store s c)\<lparr>ct_lifecycle := Registered\<rparr>)) d) = Registered" for d
    proof (cases "d = c")
      case False
      with d have "ct_lifecycle (ws_store s d) = Registered" by simp
      from homes_okD(2) [OF assms(2) this] obtain r' where r': "ws_chunks s (home d) = Some r'" "rg_container r' = d"
        by blast
      moreover from r'(1) True have "home d \<noteq> home c" by auto
      ultimately show ?thesis by simp
    qed (use r(1) in simp)
  qed
next
  case False
  with assms(3) have "s' = s" by (auto simp: register_chunk_def chunk_of_def Let_def split: if_splits)
  with assms(2) show ?thesis by simp
qed

lemma unregister_homes:
  assumes "sched_inv s" "homes_ok home s" "unregister_chunk p s = (res, s')"
  shows "homes_ok home s'"
proof -
  from unregister_chunk_inv [OF assms(1), of p] assms(3)
  have s': "ws_chunks s' = (ws_chunks s)(p := None)" "ws_store s' = (case ws_chunks s p of None \<Rightarrow> ws_store s
      | Some r \<Rightarrow> (ws_store s)(rg_container r := (ws_store s (rg_container r))\<lparr>ct_lifecycle := Finalized\<rparr>))"
    by auto
  show ?thesis
  proof (cases "ws_chunks s p")
    case None
    then show ?thesis using s' assms(2) by (simp add: homes_ok_def fun_upd_idem)
  next
    case (Some r)
    have p: "p = home (rg_container r)" using Some assms(2) by (simp add: homes_ok_def)
    show ?thesis
      unfolding homes_ok_def s' Some option.case
    proof (intro conjI allI impI)
      show "q = home (rg_container r')" if "((ws_chunks s)(p := None)) q = Some r'" for q r'
        using that homes_okD(1) [OF assms(2)] by (cases "q = p") simp_all
      fix c
      assume "ct_lifecycle (((ws_store s)(rg_container r := (ws_store s (rg_container r))\<lparr>ct_lifecycle := Finalized\<rparr>)) c) = Registered"
      then have c: "c \<noteq> rg_container r" "ct_lifecycle (ws_store s c) = Registered" by (auto split: if_splits)
      then obtain r' where r': "ws_chunks s (home c) = Some r'" "rg_container r' = c"
        using homes_okD(2) [OF assms(2)] by blast
      with Some c(1) have "home c \<noteq> p" by auto
      with r' show "\<exists>r'. ((ws_chunks s)(p := None)) (home c) = Some r' \<and> rg_container r' = c" by simp
    qed
  qed
qed

text \<open>
  The invariant holds along every history, by induction over its steps, and it is what each
  operation needs to run without hitting an \<open>assert!\<close>.
\<close>

lemma sched_run_inv: "sched_run home s \<Longrightarrow> sched_inv s \<and> homes_ok home s \<and> (\<forall>c. chunk_pos_ok (home c))"
proof (induction rule: sched_run.induct)
  case (run_new store)
  then have "ct_lifecycle (store c) \<noteq> Registered" for c by (metis lifecycle.distinct(4) lifecycle.distinct(7))
  moreover have "sched_inv (sched_new store)" using run_new by (intro sched_new_inv)
  ultimately show ?case using run_new by (simp add: homes_ok_def sched_new_def)
next
  case (run_promote s c)
  then show ?case using promote_in_inv by blast
next
  case (run_register s c res s')
  then have "sched_inv (snd (register_chunk (chunk_of home c) s))"
    by (intro conjunct2 [OF register_chunk_inv]) (simp_all add: chunk_of_def)
  with run_register register_homes show ?case by (metis snd_conv)
next
  case (run_unregister s p res s')
  then show ?case using unregister_chunk_inv [of s p] unregister_homes by (metis prod.inject)
next
  case (run_unpack s p now res s')
  show ?case
  proof (cases "ws_chunks s p")
    case None
    with run_unpack unpack_chunk_inv [of s p now] show ?thesis by simp
  next
    case (Some r)
    with run_unpack unpack_chunk_inv [of s p now] obtain c where
      c: "sched_inv s'" "same_containers s s'" "ws_store s' = (ws_store s)(rg_container r := c)"
      by auto
    have reg: "ct_lifecycle (ws_store s (rg_container r)) = Registered"
      using sched_invD(1) Some run_unpack.IH by blast
    have "homes_ok home s" using run_unpack.IH by simp
    from homes_ok_same [OF this c(2)] have "homes_ok home s'" using c(3) reg by (simp split: if_splits)
    with c(1) run_unpack.IH show ?thesis by simp
  qed
next
  case (run_reconcile s ps res s')
  show ?case
  proof (cases "find (\<lambda>p. ws_chunks s p = None) ps")
    case None
    with run_reconcile reconcile_inv [of s ps] have "sched_inv s'" "ws_store s' = ws_store s" "same_containers s s'"
      by auto
    then show ?thesis using run_reconcile.IH homes_ok_same [of home s s'] by simp
  next
    case (Some p)
    with run_reconcile reconcile_inv [of s ps] show ?thesis by simp
  qed
next
  case (run_schedule s c k t res' s')
  note coh = coherent_home [of home s c]
  let ?c = "ws_store s c"
  from run_schedule.IH coh run_schedule.hyps(2) have co: "sched_inv s" "coherent (chunk_of home c) s" by simp_all
  show ?case
  proof (cases "ct_lifecycle ?c = Finalized")
    case True
    with schedule_on_inv [OF co, of k t] run_schedule show ?thesis by (simp add: chunk_of_def)
  next
    case False
    with schedule_on_inv [OF co, of k t] run_schedule.hyps(3) have
      s': "sched_inv s'" "same_containers s s'" "ws_store s' = (ws_store s)(c := ct_put k (snd (tl_schedule t (ct_list k ?c))) ?c)"
      by (auto simp: chunk_of_def)
    have "ct_lifecycle (ws_store s' d) = ct_lifecycle (ws_store s d)" for d by (simp add: s'(3))
    with s'(1,2) show ?thesis using run_schedule.IH homes_ok_same [of home s s'] by simp
  qed
next
  case (run_order s n s')
  then have "s' = s\<lparr>ws_order := wrap_i64 (ws_order s + 1)\<rparr>" by (auto simp: next_sub_tick_order_def)
  with run_order.IH show ?case by (simp add: sched_inv_defs homes_ok_def)
next
  case (run_collect s k now m res'' s')
  then have "sched_inv s' \<and> same_registrations s s' \<and> same_rest k (active_containers s) (ws_store s) (ws_store s')"
    using collect_ticks_greedy [of s k now m] by auto
  moreover from this have "same_containers s s'"
    unfolding same_registrations_def same_containers_def
    by (metis (no_types, lifting) fst_conv option.map_comp option.map_cong0 comp_apply)
  ultimately show ?case
    using run_collect.IH homes_ok_same [of home s s'] by (simp add: same_rest_def)
qed

section \<open>Properties of the index\<close>

text \<open>
  C4. Along every history of registrations, promotions, unloads, unpackings, reconciliations,
  schedulings and collections, the index invariant holds: the two deadline sets are exactly the
  heads of the active chunks, recorded heads agree with the queues, and no two chunks share a
  container. Consequently no operation can hit an \<open>assert!\<close> or \<open>panic!\<close> of the index, and an
  operation on a promoted, not yet finalized container never reports a missing or mismatched one.
\<close>

theorem scheduler_never_panics:
  assumes "sched_run home s"
  shows "sched_inv s \<and>
    fst (register_chunk (chunk_of home c) s) \<noteq> Panic \<and>
    fst (unregister_chunk p s) = Ok () \<and>
    fst (unpack_chunk p now s) \<noteq> Panic \<and>
    (distinct ps \<longrightarrow> fst (reconcile_active_chunks ps s) \<noteq> Panic) \<and>
    (ct_lifecycle (ws_store s c) \<in> {PrePublication, Registered} \<longrightarrow>
       fst (schedule_on k (chunk_of home c) t s) = Ok (st_key t \<notin> tl_scheduled (ct_list k (ws_store s c)))) \<and>
    (\<exists>b. fst (collect_ticks k now m s) = Ok b)"
proof -
  have inv: "sched_inv s" and homes: "homes_ok home s" and pos: "chunk_pos_ok (home c)" for c
    using sched_run_inv [OF assms] by simp_all
  have "fst (register_chunk (chunk_of home c) s) \<noteq> Panic"
    using conjunct1 [OF register_chunk_inv [OF inv, of "chunk_of home c"]] pos by (simp add: chunk_of_def)
  moreover have "fst (unregister_chunk p s) = Ok ()" using unregister_chunk_inv [OF inv, of p] by auto
  moreover have "fst (unpack_chunk p now s) \<noteq> Panic"
    using unpack_chunk_inv [OF inv, of p now] by (cases "ws_chunks s p") auto
  moreover have "distinct ps \<longrightarrow> fst (reconcile_active_chunks ps s) \<noteq> Panic"
    using reconcile_inv [OF inv, of ps] by (cases "find (\<lambda>p. ws_chunks s p = None) ps") auto
  moreover have "fst (schedule_on k (chunk_of home c) t s) = Ok (st_key t \<notin> tl_scheduled (ct_list k (ws_store s c)))"
    if "ct_lifecycle (ws_store s c) \<in> {PrePublication, Registered}"
  proof -
    have "ct_lifecycle (ws_store s c) \<noteq> Proto" using that by auto
    from schedule_on_inv [OF inv coherent_home [OF homes this], of k t] that show ?thesis
      by (auto simp: chunk_of_def)
  qed
  moreover have "\<exists>b. fst (collect_ticks k now m s) = Ok b" using collect_ticks_greedy [OF inv, of k now m] by auto
  ultimately show ?thesis using inv by blast
qed

definition sample_home :: "nat \<Rightarrow> chunk_pos" where
  "sample_home c = ChunkPos (int (c mod 2)) 0"

definition sample_store :: "nat \<Rightarrow> tick_container" where
  "sample_store c = container_new \<lparr>cl_block = tl_new, cl_fluid = tl_new\<rparr>"

lemma sample_start: "sched_run sample_home (sched_new sample_store)"
proof (rule run_new)
  have "ct_list k (sample_store c) = tl_new" for k c
    by (cases k) (simp_all add: sample_store_def container_new_def ct_list_def)
  then show "tl_ordered (ct_list k (sample_store c))" for c k by (simp add: tl_inv_ordered [OF tl_new_inv(1)])
  show "chunk_pos_ok (sample_home c)" for c by (simp add: sample_home_def i32_ok_def)
qed (simp add: sample_store_def container_new_def)

definition sample_registered :: sched where
  "sample_registered = snd (register_chunk (chunk_of sample_home 0) (sched_new sample_store))"

lemma sample_registered_run: "sched_run sample_home sample_registered"
  using run_register [OF sample_start, of 0] by (metis sample_registered_def prod.collapse)

lemma sample_registered_store:
  "ws_store sample_registered 0 = (sample_store 0)\<lparr>ct_lifecycle := Registered\<rparr>"
  by (simp add: sample_registered_def register_chunk_def chunk_of_def sched_new_def sample_store_def
      container_new_def Let_def)

theorem scheduler_never_panics_witness:
  "fst (schedule_on KBlock (chunk_of sample_home 0) (sample_tick 7 30 5) sample_registered) = Ok True"
proof -
  have "ct_lifecycle (ws_store sample_registered 0) \<in> {PrePublication, Registered}"
    "st_key (sample_tick 7 30 5) \<notin> tl_scheduled (ct_list KBlock (ws_store sample_registered 0))"
    by (simp_all add: sample_registered_store sample_store_def container_new_def ct_list_def tl_new_def)
  then show ?thesis
    using scheduler_never_panics [OF sample_registered_run, of 0 _ _ _ KBlock "sample_tick 7 30 5"] by simp
qed

text \<open>
  Reconciling the active chunks reports the first position that is not registered and changes
  nothing; it panics on a list with a repeated position; otherwise the position at index \<open>i\<close> gets
  rank \<open>i\<close>, no other chunk stays active, and the deadline sets are those of the new active set.
\<close>

theorem reconcile_assigns_ranks:
  assumes "sched_inv s"
  shows "case find (\<lambda>p. ws_chunks s p = None) ps of
           Some p \<Rightarrow> reconcile_active_chunks ps s = (Err (MissingContainer p), s)
         | None \<Rightarrow>
             if distinct ps
             then \<exists>s'. reconcile_active_chunks ps s = (Ok (), s') \<and> sched_inv s' \<and>
                    ws_store s' = ws_store s \<and> same_containers s s' \<and>
                    (\<forall>p n. has_rank p n s' \<longleftrightarrow> n < length ps \<and> p = ps ! n)
             else fst (reconcile_active_chunks ps s) = Panic"
  using reconcile_inv [OF assms] .

theorem reconcile_assigns_ranks_witness:
  "has_rank (sample_home 0) 0 (snd (reconcile_active_chunks [sample_home 0] sample_registered))"
proof -
  have "ws_chunks sample_registered (sample_home 0) \<noteq> None"
    by (simp add: sample_registered_def register_chunk_def chunk_of_def sched_new_def sample_store_def
        container_new_def Let_def)
  then have "find (\<lambda>p. ws_chunks sample_registered p = None) [sample_home 0] = None" by simp
  then show ?thesis
    using reconcile_assigns_ranks [of sample_registered "[sample_home 0]"] sched_run_inv [OF sample_registered_run]
    by auto
qed

text \<open>
  Scheduling a tick for a chunk that is not finalized adds it to the chunk's queue unless
  its position and type are already scheduled, answers whether it was added, and keeps the index
  invariant whether or not the queue got a new head; a finalized chunk is an error that changes
  nothing.
\<close>

theorem schedule_on_registered:
  assumes "sched_inv s" and "coherent ch s"
  shows "if ct_lifecycle (ws_store s (fc_container ch)) = Finalized
         then schedule_on k ch t s = (Err (MissingContainer (fc_pos ch)), s)
         else \<exists>s'. schedule_on k ch t s =
                  (Ok (st_key t \<notin> tl_scheduled (ct_list k (ws_store s (fc_container ch)))), s') \<and>
                sched_inv s' \<and> same_containers s s' \<and> ws_order s' = ws_order s \<and>
                ws_store s' = (ws_store s)(fc_container ch :=
                  ct_put k (snd (tl_schedule t (ct_list k (ws_store s (fc_container ch))))) (ws_store s (fc_container ch)))"
  using schedule_on_inv [OF assms] .

theorem schedule_on_registered_witness:
  "coherent (chunk_of sample_home 0) sample_registered \<and>
   sched_inv (snd (schedule_on KFluid (chunk_of sample_home 0) (sample_tick 7 30 5) sample_registered))"
proof -
  have "ct_lifecycle (ws_store sample_registered 0) = Registered" by (simp add: sample_registered_store)
  moreover have "coherent (chunk_of sample_home 0) sample_registered"
    using coherent_home [of sample_home sample_registered 0] sched_run_inv [OF sample_registered_run] calculation
    by simp
  moreover have "sched_inv sample_registered" using sched_run_inv [OF sample_registered_run] by simp
  ultimately show ?thesis
    using schedule_on_registered [of sample_registered "chunk_of sample_home 0" KFluid "sample_tick 7 30 5"]
    by (auto simp: chunk_of_def)
qed

definition sample_busy :: sched where
  "sample_busy = snd (schedule_on KBlock (chunk_of sample_home 0) (sample_tick 7 30 5)
     (snd (reconcile_active_chunks [sample_home 0] sample_registered)))"

lemma sample_busy_run: "sched_run sample_home sample_busy"
proof -
  let ?s = "snd (reconcile_active_chunks [sample_home 0] sample_registered)"
  have run: "sched_run sample_home ?s"
    using run_reconcile [OF sample_registered_run, of "[sample_home 0]"] by (metis prod.collapse distinct_singleton)
  have "ws_chunks sample_registered (sample_home 0) \<noteq> None"
    by (simp add: sample_registered_def register_chunk_def chunk_of_def sched_new_def sample_store_def
        container_new_def Let_def)
  then have "ws_store ?s = ws_store sample_registered"
    using reconcile_inv [of sample_registered "[sample_home 0]"] sched_run_inv [OF sample_registered_run] by auto
  then have "ct_lifecycle (ws_store ?s 0) \<noteq> Proto" by (simp add: sample_registered_store)
  from run_schedule [OF run this, of KBlock "sample_tick 7 30 5"] show ?thesis
    unfolding sample_busy_def by (metis prod.collapse)
qed

text \<open>
  C5. Collecting a batch refines the greedy merge of the active queues: each tick taken is a
  ready head that no ready head of an active chunk precedes by priority and sub-tick order; at
  most \<open>max_ticks\<close> are taken, and fewer only when no active queue has a ready head left. The index
  invariant is kept, no other queue and no registration changes, and the ranks reported for
  saving are exactly those of the chunks the batch was taken from, each once.
\<close>

theorem collect_ticks_refines_merge:
  assumes "sched_inv s"
  shows "\<exists>ts changed s'. collect_ticks k now m s = (Ok (map (\<lambda>x. qt_tick (snd x)) ts, changed), s') \<and>
    sched_inv s' \<and> same_registrations s s' \<and>
    same_rest k (active_containers s) (ws_store s) (ws_store s') \<and>
    greedy now (active_containers s) (queues k (ws_store s)) ts (queues k (ws_store s')) \<and>
    length ts \<le> m \<and>
    (length ts < m \<longrightarrow> (\<forall>c \<in> active_containers s. \<forall>x. \<not> ready_head now (queues k (ws_store s') c) x)) \<and>
    length changed = card (fst ` set ts) \<and> set changed = {n. \<exists>c \<in> fst ` set ts. rank_of s c n}"
  using collect_ticks_greedy [OF assms] .

theorem collect_ticks_refines_merge_witness:
  "sched_inv sample_busy \<and> (\<exists>ts changed s'.
     collect_ticks KBlock 30 5 sample_busy = (Ok (map (\<lambda>x. qt_tick (snd x)) ts, changed), s') \<and>
     greedy 30 (active_containers sample_busy) (queues KBlock (ws_store sample_busy)) ts (queues KBlock (ws_store s')) \<and>
     length ts \<le> 5)"
proof -
  have "sched_inv sample_busy" using sched_run_inv [OF sample_busy_run] by simp
  then show ?thesis using collect_ticks_refines_merge [of sample_busy KBlock 30 5] by blast
qed

text \<open>
  No tick is lost, invented or reordered within its chunk by collecting: every queue is the
  ticks taken from it, in the order they appear in the batch, followed by what it still holds;
  every tick of the batch was due; and where the batch passes from one chunk to another, the
  later tick does not precede the earlier one by priority and sub-tick order.
\<close>

theorem collect_ticks_conserves:
  assumes "sched_inv s" and "collect_ticks k now m s = (Ok (ticks, changed), s')"
  shows "\<exists>ts. ticks = map (\<lambda>x. qt_tick (snd x)) ts \<and>
    (\<forall>c. queues k (ws_store s) c = map snd (filter (\<lambda>x. fst x = c) ts) @ queues k (ws_store s') c) \<and>
    (\<forall>t \<in> set ticks. st_trigger t \<le> now) \<and>
    (\<forall>us c x d y vs. ts = us @ (c, x) # (d, y) # vs \<longrightarrow> c \<noteq> d \<longrightarrow> batch_key x \<le> batch_key y)"
proof -
  obtain ts where ts: "ticks = map (\<lambda>x. qt_tick (snd x)) ts"
    "greedy now (active_containers s) (queues k (ws_store s)) ts (queues k (ws_store s'))"
    using collect_ticks_greedy [OF assms(1), of k now m] assms(2) by auto
  have "st_trigger t \<le> now" if "t \<in> set ticks" for t
    using that greedy_members [OF ts(2)] unfolding ts(1) is_due_def by auto
  with ts greedy_queue [OF ts(2)] greedy_sorted_pairs [OF ts(2)] show ?thesis by blast
qed

theorem collect_ticks_conserves_witness:
  "\<exists>ticks changed s' ts. collect_ticks KBlock 30 5 sample_busy = (Ok (ticks, changed), s') \<and>
     ticks = map (\<lambda>x. qt_tick (snd x)) ts \<and> (\<forall>t \<in> set ticks. st_trigger t \<le> 30) \<and>
     queues KBlock (ws_store sample_busy) 0 = map snd (filter (\<lambda>x. fst x = (0::nat)) ts) @ queues KBlock (ws_store s') 0"
proof -
  have inv: "sched_inv sample_busy" using sched_run_inv [OF sample_busy_run] by simp
  obtain ticks changed s' where run: "collect_ticks KBlock 30 5 sample_busy = (Ok (ticks, changed), s')"
    using collect_ticks_greedy [OF inv, of KBlock 30 5] by blast
  from collect_ticks_conserves [OF inv run] obtain ts where "ticks = map (\<lambda>x. qt_tick (snd x)) ts"
    "\<forall>c. queues KBlock (ws_store sample_busy) c = map snd (filter (\<lambda>x. fst x = c) ts) @ queues KBlock (ws_store s') c"
    "\<forall>t \<in> set ticks. st_trigger t \<le> 30"
    by blast
  then have "ticks = map (\<lambda>x. qt_tick (snd x)) ts \<and> (\<forall>t \<in> set ticks. st_trigger t \<le> 30) \<and>
     queues KBlock (ws_store sample_busy) 0 = map snd (filter (\<lambda>x. fst x = (0::nat)) ts) @ queues KBlock (ws_store s') 0"
    by simp
  with run show ?thesis by blast
qed

section \<open>The batch being run\<close>

record run_batch =
  rb_ticks :: "scheduled_tick list"
  rb_next :: nat
  rb_lookup :: "(scheduled_tick_key \<Rightarrow> nat option) option"

definition rb_new :: "scheduled_tick list \<Rightarrow> run_batch" where
  "rb_new ticks = \<lparr>rb_ticks = ticks, rb_next = 0, rb_lookup = None\<rparr>"

definition rb_start :: "nat \<Rightarrow> run_batch \<Rightarrow> run_batch option" where
  "rb_start i b = (if i < length (rb_ticks b) then Some (b\<lparr>rb_next := i + 1\<rparr>) else None)"

text \<open>Collecting into a hash map keeps the last index of a key that occurs twice.\<close>

fun index_keys :: "nat \<Rightarrow> scheduled_tick list \<Rightarrow> (scheduled_tick_key \<Rightarrow> nat option) \<Rightarrow> scheduled_tick_key \<Rightarrow> nat option" where
  "index_keys i [] m = m"
| "index_keys i (t # ts) m = index_keys (Suc i) ts (m(st_key t \<mapsto> i))"

definition rb_contains :: "block_pos \<Rightarrow> tick_type \<Rightarrow> run_batch \<Rightarrow> bool \<times> run_batch" where
  "rb_contains p ty b =
     (if rb_next b \<ge> length (rb_ticks b) then (False, b)
      else
        (let lookup = (case rb_lookup b of
               Some m \<Rightarrow> m
             | None \<Rightarrow> index_keys (rb_next b) (drop (rb_next b) (rb_ticks b)) (\<lambda>_. None))
         in ((case lookup (p, tick_type_key ty) of None \<Rightarrow> False | Some i \<Rightarrow> i \<ge> rb_next b),
             b\<lparr>rb_lookup := Some lookup\<rparr>)))"

lemma index_keys_spec:
  "index_keys i ts m key =
     (if \<exists>j < length ts. st_key (ts ! j) = key
      then Some (i + Max {j. j < length ts \<and> st_key (ts ! j) = key}) else m key)"
proof (induction ts arbitrary: i m)
  case Nil
  then show ?case by simp
next
  case (Cons t ts)
  let ?A = "\<lambda>ts. {j. j < length ts \<and> st_key (ts ! j) = key}"
  have A: "?A (t # ts) = Suc ` ?A ts \<union> (if st_key t = key then {0} else {})"
    by (auto simp: image_iff nth_Cons' less_Suc_eq_0_disj split: if_splits)
  have ex: "(\<exists>j < length us. st_key (us ! j) = key) \<longleftrightarrow> ?A us \<noteq> {}" for us by auto
  have fin: "finite (?A ts)" by simp
  show ?case
  proof (cases "?A ts = {}")
    case True
    then have at0: "?A (t # ts) = (if st_key t = key then {0} else {})" unfolding A by (simp only: image_empty Un_empty_left)
    show ?thesis unfolding index_keys.simps Cons.IH ex at0 using True by simp
  next
    case False
    have "Max (?A (t # ts)) = Suc (Max (?A ts))"
    proof -
      have "Max (Suc ` ?A ts) = Suc (Max (?A ts))" using fin False by (simp add: mono_Max_commute mono_Suc)
      then show ?thesis unfolding A using fin False by (auto simp: Max_Un)
    qed
    then show ?thesis unfolding index_keys.simps Cons.IH ex using False A by auto
  qed
qed

text \<open>The states of a batch: the executor starts its ticks in order, and queries come in between.\<close>

inductive batch_run :: "scheduled_tick list \<Rightarrow> run_batch \<Rightarrow> bool" for ticks where
  batch_new: "batch_run ticks (rb_new ticks)"
| batch_start: "batch_run ticks b \<Longrightarrow> rb_next b \<le> i \<Longrightarrow> rb_start i b = Some b' \<Longrightarrow> batch_run ticks b'"
| batch_query: "batch_run ticks b \<Longrightarrow> rb_contains p ty b = (r, b') \<Longrightarrow> batch_run ticks b'"

definition batch_ok_at :: "scheduled_tick list \<Rightarrow> run_batch \<Rightarrow> bool" where
  "batch_ok_at ticks b \<longleftrightarrow> rb_ticks b = ticks \<and>
     (\<forall>m. rb_lookup b = Some m \<longrightarrow> (\<exists>i \<le> rb_next b. m = index_keys i (drop i ticks) (\<lambda>_. None)))"

lemma batch_run_ok: "batch_run ticks b \<Longrightarrow> batch_ok_at ticks b"
proof (induction rule: batch_run.induct)
  case batch_new
  then show ?case by (simp add: batch_ok_at_def rb_new_def)
next
  case (batch_start b i b')
  then have "b' = b\<lparr>rb_next := i + 1\<rparr>" by (simp add: rb_start_def split: if_splits)
  moreover have "j \<le> i + 1" if "j \<le> rb_next b" for j using that batch_start.hyps(2) by simp
  ultimately show ?case using batch_start.IH unfolding batch_ok_at_def by (simp, metis)
next
  case (batch_query b p ty r b')
  then show ?case
    by (auto simp: batch_ok_at_def rb_contains_def Let_def split: if_splits option.splits)
qed

lemma lookup_from:
  assumes "i \<le> n"
  shows "(case index_keys i (drop i ts) (\<lambda>_. None) key of None \<Rightarrow> False | Some j \<Rightarrow> n \<le> j) \<longleftrightarrow>
     (\<exists>j < length ts. n \<le> j \<and> st_key (ts ! j) = key)"
proof -
  let ?A = "{j. j < length (drop i ts) \<and> st_key (drop i ts ! j) = key}"
  have mem: "j \<in> ?A \<longleftrightarrow> i + j < length ts \<and> st_key (ts ! (i + j)) = key" for j by auto
  have fin: "finite ?A" by simp
  show ?thesis
  proof (cases "?A = {}")
    case True
    have "\<not> (j < length ts \<and> n \<le> j \<and> st_key (ts ! j) = key)" for j
    proof
      assume j: "j < length ts \<and> n \<le> j \<and> st_key (ts ! j) = key"
      then have "j - i \<in> ?A" using mem [of "j - i"] assms by simp
      with True show False by blast
    qed
    moreover have "index_keys i (drop i ts) (\<lambda>_. None) key = None"
      unfolding index_keys_spec using True by auto
    ultimately show ?thesis by auto
  next
    case False
    have look: "index_keys i (drop i ts) (\<lambda>_. None) key = Some (i + Max ?A)"
      unfolding index_keys_spec using False by auto
    have max: "i + Max ?A < length ts" "st_key (ts ! (i + Max ?A)) = key"
      using Max_in [OF fin False] mem by blast+
    have "n \<le> i + Max ?A" if j: "j < length ts" "n \<le> j" "st_key (ts ! j) = key" for j
    proof -
      have "j - i \<in> ?A" using mem [of "j - i"] j assms by simp
      from Max_ge [OF fin this] j(2) show ?thesis by simp
    qed
    with max look show ?thesis by auto
  qed
qed

text \<open>
  A query on the batch being run answers whether a selected tick with that position and type
  has not started yet, however many queries came before and whenever the lookup table was built,
  also when the batch holds the same key twice; the query changes nothing a later query sees.
\<close>

theorem batch_contains_unstarted:
  assumes "batch_run ticks b"
  shows "fst (rb_contains p ty b) \<longleftrightarrow>
      (\<exists>j < length ticks. rb_next b \<le> j \<and> st_key (ticks ! j) = (p, tick_type_key ty))"
proof -
  have ok: "rb_ticks b = ticks"
    and look: "\<And>m. rb_lookup b = Some m \<Longrightarrow> \<exists>i \<le> rb_next b. m = index_keys i (drop i ticks) (\<lambda>_. None)"
    using batch_run_ok [OF assms] by (auto simp: batch_ok_at_def)
  show ?thesis
  proof (cases "rb_next b \<ge> length ticks")
    case False
    define lookup where "lookup = (case rb_lookup b of Some m \<Rightarrow> m
       | None \<Rightarrow> index_keys (rb_next b) (drop (rb_next b) ticks) (\<lambda>_. None))"
    have "\<exists>i \<le> rb_next b. lookup = index_keys i (drop i ticks) (\<lambda>_. None)"
      using look by (auto simp: lookup_def split: option.split)
    then obtain i where "i \<le> rb_next b" "lookup = index_keys i (drop i ticks) (\<lambda>_. None)" by blast
    with lookup_from [of i "rb_next b" ticks] False ok show ?thesis
      by (simp add: rb_contains_def Let_def lookup_def [symmetric] cong: option.case_cong)
  qed (use ok in \<open>auto simp: rb_contains_def\<close>)
qed

theorem batch_contains_unstarted_witness:
  "fst (rb_contains (BlockPos 1 64 1) 9 (rb_new [sample_tick 7 30 5, sample_tick 9 20 6]))"
  using batch_contains_unstarted [OF batch_new [of "[sample_tick 7 30 5, sample_tick 9 20 6]"], of "BlockPos 1 64 1" 9]
  by (auto simp: rb_new_def st_key_def sample_tick_def intro!: exI [of _ 1])

section \<open>The entry points of the world\<close>

text \<open>
  \<open>tw_full\<close> is what the chunk map answers for a full chunk at a position. A panic is \<open>None\<close>. The
  run batches are shared through an \<open>Arc\<close>, kept as an identity beside the batch.
\<close>

record tick_world =
  tw_sched :: sched
  tw_time :: int
  tw_full :: "chunk_pos \<Rightarrow> full_chunk option"
  tw_dirty :: "chunk_pos set"
  tw_run :: "tick_kind \<Rightarrow> (nat \<times> run_batch) option"

definition full_schedule_tick :: "tick_kind \<Rightarrow> full_chunk \<Rightarrow> scheduled_tick \<Rightarrow> tick_world \<Rightarrow> tick_world option" where
  "full_schedule_tick k ch t w =
     (case schedule_on k ch t (tw_sched w) of
        (Ok added, s) \<Rightarrow>
          Some (if added then w\<lparr>tw_sched := s, tw_dirty := insert (fc_pos ch) (tw_dirty w)\<rparr>
                else w\<lparr>tw_sched := s\<rparr>)
      | (Err e, s) \<Rightarrow> None
      | (Panic, s) \<Rightarrow> None)"

definition world_schedule_tick ::
    "tick_kind \<Rightarrow> block_pos \<Rightarrow> tick_type \<Rightarrow> int \<Rightarrow> tick_priority \<Rightarrow> tick_world \<Rightarrow> tick_world option" where
  "world_schedule_tick k pos ty delay pr w =
     (let trigger = wrap_i64 (tw_time w + delay);
          (ord, s) = next_sub_tick_order (tw_sched w);
          w1 = w\<lparr>tw_sched := s\<rparr>
      in case tw_full w1 (chunk_of_block pos) of
           None \<Rightarrow> Some w1
         | Some ch \<Rightarrow>
             full_schedule_tick k ch
               \<lparr>st_type = ty, st_pos = pos, st_trigger = trigger, st_priority = pr, st_order = ord\<rparr> w1)"

definition world_schedule_tick_default ::
    "tick_kind \<Rightarrow> block_pos \<Rightarrow> tick_type \<Rightarrow> int \<Rightarrow> tick_world \<Rightarrow> tick_world option" where
  "world_schedule_tick_default k pos ty delay w = world_schedule_tick k pos ty delay Normal w"

definition full_has_tick :: "tick_kind \<Rightarrow> block_pos \<Rightarrow> tick_type \<Rightarrow> full_chunk \<Rightarrow> sched \<Rightarrow> bool option" where
  "full_has_tick k pos ty ch s =
     (case k of KBlock \<Rightarrow> has_block pos ty (ws_store s (fc_container ch))
      | KFluid \<Rightarrow> has_fluid pos ty (ws_store s (fc_container ch)))"

definition world_has_scheduled_tick ::
    "tick_kind \<Rightarrow> block_pos \<Rightarrow> tick_type \<Rightarrow> tick_world \<Rightarrow> bool option" where
  "world_has_scheduled_tick k pos ty w =
     (case tw_full w (chunk_of_block pos) of
        None \<Rightarrow> Some False
      | Some ch \<Rightarrow> full_has_tick k pos ty ch (tw_sched w))"

definition will_tick_this_tick ::
    "tick_kind \<Rightarrow> block_pos \<Rightarrow> tick_type \<Rightarrow> tick_world \<Rightarrow> bool \<times> tick_world" where
  "will_tick_this_tick k pos ty w =
     (case tw_run w k of
        None \<Rightarrow> (False, w)
      | Some (i, b) \<Rightarrow>
          (case rb_contains pos ty b of (r, b') \<Rightarrow> (r, w\<lparr>tw_run := (tw_run w)(k \<mapsto> (i, b'))\<rparr>)))"

definition begin_tick_batch :: "tick_kind \<Rightarrow> nat \<Rightarrow> scheduled_tick list \<Rightarrow> tick_world \<Rightarrow> tick_world option" where
  "begin_tick_batch k i ticks w =
     (if tw_run w k \<noteq> None then None else Some (w\<lparr>tw_run := (tw_run w)(k \<mapsto> (i, rb_new ticks))\<rparr>))"

definition end_tick_batch :: "tick_kind \<Rightarrow> nat \<Rightarrow> tick_world \<Rightarrow> tick_world option" where
  "end_tick_batch k i w =
     (case tw_run w k of
        Some (j, b) \<Rightarrow> if j = i then Some (w\<lparr>tw_run := (tw_run w)(k := None)\<rparr>) else None
      | None \<Rightarrow> None)"

lemma full_has_tick_eq:
  "full_has_tick k pos ty ch s =
     (if ct_lifecycle (ws_store s (fc_container ch)) \<noteq> Finalized
      then Some ((pos, tick_type_key ty) \<in> tl_scheduled (ct_list k (ws_store s (fc_container ch)))) else None)"
  by (cases k) (simp_all add: full_has_tick_def has_block_def has_fluid_def has_tick_def)

text \<open>What the chunk map guarantees of the chunks it hands out.\<close>

definition full_ok :: "(nat \<Rightarrow> chunk_pos) \<Rightarrow> tick_world \<Rightarrow> bool" where
  "full_ok home w \<longleftrightarrow> (\<forall>p ch. tw_full w p = Some ch \<longrightarrow>
     ch = chunk_of home (fc_container ch) \<and> fc_pos ch = p \<and>
     ct_lifecycle (ws_store (tw_sched w) (fc_container ch)) \<in> {PrePublication, Registered})"

text \<open>
  Scheduling a block or fluid tick through the world never panics while the chunk map hands
  out published chunks. If the chunk is loaded, the tick is known afterwards, the chunk is
  marked for saving exactly when the tick was new, and other keys of the chunk are unaffected;
  if it is not loaded, only the sub-tick order advances. The scheduler's history continues.
\<close>

theorem world_schedule_then_known:
  assumes "sched_run home (tw_sched w)" and "full_ok home w"
  shows "\<exists>w'. world_schedule_tick k pos ty delay pr w = Some w' \<and> sched_run home (tw_sched w') \<and>
    ws_order (tw_sched w') = wrap_i64 (ws_order (tw_sched w) + 1) \<and>
    (case tw_full w (chunk_of_block pos) of
       None \<Rightarrow> ws_store (tw_sched w') = ws_store (tw_sched w) \<and> tw_dirty w' = tw_dirty w
     | Some ch \<Rightarrow>
         world_has_scheduled_tick k pos ty w' = Some True \<and>
         (\<forall>ty'. tick_type_key ty' \<noteq> tick_type_key ty \<longrightarrow>
            world_has_scheduled_tick k pos ty' w' = world_has_scheduled_tick k pos ty' w) \<and>
         tw_dirty w' = (if world_has_scheduled_tick k pos ty w = Some True then tw_dirty w
                        else insert (fc_pos ch) (tw_dirty w)))"
proof -
  let ?s1 = "(tw_sched w)\<lparr>ws_order := wrap_i64 (ws_order (tw_sched w) + 1)\<rparr>"
  let ?t = "\<lparr>st_type = ty, st_pos = pos, st_trigger = wrap_i64 (tw_time w + delay), st_priority = pr,
    st_order = ws_order (tw_sched w)\<rparr>"
  have run1: "sched_run home ?s1"
    using run_order [OF assms(1)] by (simp add: next_sub_tick_order_def)
  show ?thesis
  proof (cases "tw_full w (chunk_of_block pos)")
    case None
    then show ?thesis using run1
      by (intro exI [of _ "w\<lparr>tw_sched := ?s1\<rparr>"]) (simp add: world_schedule_tick_def next_sub_tick_order_def)
  next
    case (Some ch)
    let ?c = "fc_container ch"
    have ch: "ch = chunk_of home ?c" "ct_lifecycle (ws_store (tw_sched w) ?c) \<in> {PrePublication, Registered}"
      using assms(2) Some by (auto simp: full_ok_def)
    then have live: "ct_lifecycle (ws_store ?s1 ?c) \<noteq> Proto" "ct_lifecycle (ws_store ?s1 ?c) \<noteq> Finalized" by auto
    define l where "l = ct_list k (ws_store (tw_sched w) ?c)"
    have "coherent ch ?s1"
      using coherent_home [of home ?s1 ?c] sched_run_inv [OF run1] live(1) ch(1) by metis
    from schedule_on_inv [OF conjunct1 [OF sched_run_inv [OF run1]] this, of k ?t] live(2) obtain s2 where
      s2: "schedule_on k ch ?t ?s1 = (Ok ((pos, tick_type_key ty) \<notin> tl_scheduled l), s2)"
      "ws_order s2 = ws_order ?s1"
      "ws_store s2 = (ws_store (tw_sched w))(?c := ct_put k (snd (tl_schedule ?t l)) (ws_store (tw_sched w) ?c))"
      by (auto simp: st_key_def l_def)
    have run2: "sched_run home s2"
      by (rule run_schedule [OF run1 live(1), of k ?t]) (simp only: ch(1) [symmetric] s2(1))
    let ?w' = "if (pos, tick_type_key ty) \<in> tl_scheduled l then w\<lparr>tw_sched := s2\<rparr>
      else w\<lparr>tw_sched := s2, tw_dirty := insert (fc_pos ch) (tw_dirty w)\<rparr>"
    have eval: "world_schedule_tick k pos ty delay pr w = Some ?w'"
      using Some s2(1) by (simp add: world_schedule_tick_def next_sub_tick_order_def full_schedule_tick_def)
    have was: "world_has_scheduled_tick k pos ty' w = Some ((pos, tick_type_key ty') \<in> tl_scheduled l)" for ty'
      using Some live(2) by (simp add: world_has_scheduled_tick_def full_has_tick_eq l_def)
    have keys: "tl_scheduled (snd (tl_schedule ?t l)) = insert (pos, tick_type_key ty) (tl_scheduled l)"
      by (auto simp: tl_schedule_def st_key_def)
    have "world_has_scheduled_tick k pos ty' ?w' =
        Some ((pos, tick_type_key ty') \<in> insert (pos, tick_type_key ty) (tl_scheduled l))" for ty'
      using Some live(2) s2(3) keys by (simp add: world_has_scheduled_tick_def full_has_tick_eq)
    with eval run2 s2(2) was Some show ?thesis by (intro exI [of _ ?w']) auto
  qed
qed

definition sample_world :: tick_world where
  "sample_world =
     \<lparr>tw_sched = sample_registered, tw_time = 100,
      tw_full = (\<lambda>p. if p = sample_home 0 then Some (chunk_of sample_home 0) else None),
      tw_dirty = {}, tw_run = (\<lambda>_. None)\<rparr>"

theorem world_schedule_then_known_witness:
  "\<exists>w'. world_schedule_tick KFluid (BlockPos 1 64 1) 7 20 Normal sample_world = Some w' \<and>
     world_has_scheduled_tick KFluid (BlockPos 1 64 1) 7 w' = Some True"
proof -
  have "full_ok sample_home sample_world"
    by (simp add: full_ok_def sample_world_def chunk_of_def sample_registered_store)
  moreover have "sched_run sample_home (tw_sched sample_world)"
    by (simp add: sample_world_def sample_registered_run)
  moreover have "tw_full sample_world (chunk_of_block (BlockPos 1 64 1)) = Some (chunk_of sample_home 0)"
    by (simp add: sample_world_def sample_home_def block_to_section_coord_def)
  ultimately show ?thesis
    using world_schedule_then_known [of sample_home sample_world KFluid "BlockPos 1 64 1" 7 20 Normal] by auto
qed

end
