(* ===== verification/Chunk_Pyramid.thy ===== *)
theory Chunk_Pyramid
  imports Steel_Prelude
begin

text \<open>
  Chunk statuses (\<open>steel-core/src/chunk/status.rs\<close>) and the dependency pyramids computed at compile
  time from them (\<open>chunk/chunk_pyramid.rs\<close>): which status the neighbours of a chunk need, at every
  distance, before the chunk can take a generation or loading step. An array access out of range
  is a compile-time error of the source; it is \<open>None\<close> here. The task of a step, a function
  pointer, is kept by name.
\<close>

section \<open>Statuses\<close>

datatype chunk_status =
  Empty | StructureStarts | StructureReferences | Biomes | Noise | Surface | Carvers | Features
  | InitializeLight | Light | Spawn | Full

fun get_index :: "chunk_status \<Rightarrow> nat" where
  "get_index Empty = 0"
| "get_index StructureStarts = 1"
| "get_index StructureReferences = 2"
| "get_index Biomes = 3"
| "get_index Noise = 4"
| "get_index Surface = 5"
| "get_index Carvers = 6"
| "get_index Features = 7"
| "get_index InitializeLight = 8"
| "get_index Light = 9"
| "get_index Spawn = 10"
| "get_index Full = 11"

definition status_all :: "chunk_status list" where
  "status_all = [Empty, StructureStarts, StructureReferences, Biomes, Noise, Surface, Carvers, Features,
     InitializeLight, Light, Spawn, Full]"

definition from_index :: "nat \<Rightarrow> chunk_status option" where
  "from_index i =
     (if i = 0 then Some Empty
      else if i = 1 then Some StructureStarts
      else if i = 2 then Some StructureReferences
      else if i = 3 then Some Biomes
      else if i = 4 then Some Noise
      else if i = 5 then Some Surface
      else if i = 6 then Some Carvers
      else if i = 7 then Some Features
      else if i = 8 then Some InitializeLight
      else if i = 9 then Some Light
      else if i = 10 then Some Spawn
      else if i = 11 then Some Full
      else None)"

fun next_status :: "chunk_status \<Rightarrow> chunk_status option" where
  "next_status Empty = Some StructureStarts"
| "next_status StructureStarts = Some StructureReferences"
| "next_status StructureReferences = Some Biomes"
| "next_status Biomes = Some Noise"
| "next_status Noise = Some Surface"
| "next_status Surface = Some Carvers"
| "next_status Carvers = Some Features"
| "next_status Features = Some InitializeLight"
| "next_status InitializeLight = Some Light"
| "next_status Light = Some Spawn"
| "next_status Spawn = Some Full"
| "next_status Full = None"

fun parent_status :: "chunk_status \<Rightarrow> chunk_status option" where
  "parent_status Empty = None"
| "parent_status StructureStarts = Some Empty"
| "parent_status StructureReferences = Some StructureStarts"
| "parent_status Biomes = Some StructureReferences"
| "parent_status Noise = Some Biomes"
| "parent_status Surface = Some Noise"
| "parent_status Carvers = Some Surface"
| "parent_status Features = Some Carvers"
| "parent_status InitializeLight = Some Features"
| "parent_status Light = Some InitializeLight"
| "parent_status Spawn = Some Light"
| "parent_status Full = Some Spawn"

lemma get_index_inj: "get_index s = get_index t \<Longrightarrow> s = t"
  by (cases s; cases t) simp_all

lemma get_index_less: "get_index s < 12"
  by (cases s) simp_all

text \<open>The derived \<open>Ord\<close> is the order of declaration.\<close>

instantiation chunk_status :: linorder
begin

definition less_eq_chunk_status :: "chunk_status \<Rightarrow> chunk_status \<Rightarrow> bool" where
  "less_eq_chunk_status s t \<longleftrightarrow> get_index s \<le> get_index t"

definition less_chunk_status :: "chunk_status \<Rightarrow> chunk_status \<Rightarrow> bool" where
  "less_chunk_status s t \<longleftrightarrow> get_index s < get_index t"

instance
  by intro_classes (auto simp: less_eq_chunk_status_def less_chunk_status_def intro: get_index_inj)

end

lemma status_all_complete: "s \<in> set status_all"
  by (cases s) (simp_all add: status_all_def)

section \<open>Dependencies\<close>

definition STATUS_COUNT :: nat where
  "STATUS_COUNT = 12"

definition MAX_RADIUS :: nat where
  "MAX_RADIUS = 16"

record chunk_dependencies =
  dependency_by_radius :: "chunk_status option list"
  dep_len :: nat
  radius_by_dependency :: "nat list"

definition deps_empty :: chunk_dependencies where
  "deps_empty =
     \<lparr>dependency_by_radius = replicate MAX_RADIUS None, dep_len = 0,
      radius_by_dependency = replicate STATUS_COUNT 0\<rparr>"

definition fill_entries :: "chunk_status \<Rightarrow> nat \<Rightarrow> nat \<Rightarrow> chunk_status option list \<Rightarrow> chunk_status option list" where
  "fill_entries status len new_len deps = fold (\<lambda>j d. d[j := Some status]) [len..<new_len] deps"

definition raise_entry :: "chunk_status \<Rightarrow> nat \<Rightarrow> chunk_status option list \<Rightarrow> chunk_status option list" where
  "raise_entry status j deps =
     (case deps ! j of
        Some existing \<Rightarrow> if get_index status > get_index existing then deps[j := Some status] else deps
      | None \<Rightarrow> deps)"

definition apply_requirement ::
    "chunk_status \<times> nat \<Rightarrow> chunk_status option list \<times> nat \<Rightarrow> (chunk_status option list \<times> nat) option" where
  "apply_requirement req st =
     (case (req, st) of ((status, radius), (deps, len)) \<Rightarrow>
        (let new_len = radius + 1
         in if new_len > len \<and> new_len > MAX_RADIUS then None
            else
              (let (deps1, len1) = (if new_len > len then (fill_entries status len new_len deps, new_len) else (deps, len));
                   limit = min len1 new_len
               in Some (fold (raise_entry status) [0..<limit] deps1, len1))))"

fun apply_requirements ::
    "(chunk_status \<times> nat) list \<Rightarrow> chunk_status option list \<times> nat \<Rightarrow> (chunk_status option list \<times> nat) option" where
  "apply_requirements [] st = Some st"
| "apply_requirements (r # rs) st =
     (case apply_requirement r st of None \<Rightarrow> None | Some st' \<Rightarrow> apply_requirements rs st')"

definition build_radius_lookup :: "chunk_status option list \<Rightarrow> nat \<Rightarrow> nat list" where
  "build_radius_lookup deps len =
     fold (\<lambda>radius tab.
        case deps ! radius of
          None \<Rightarrow> tab
        | Some dep \<Rightarrow> fold (\<lambda>j t. t[j := radius]) [0..<min (get_index dep + 1) STATUS_COUNT] tab)
       [0..<len] (replicate STATUS_COUNT 0)"

definition from_requirements ::
    "(chunk_status \<times> nat) list \<Rightarrow> chunk_status option \<Rightarrow> chunk_dependencies option" where
  "from_requirements reqs parent =
     (let init = (case parent of
            None \<Rightarrow> (replicate MAX_RADIUS None, 0)
          | Some p \<Rightarrow> ((replicate MAX_RADIUS None)[0 := Some p], 1))
      in case apply_requirements reqs init of
           None \<Rightarrow> None
         | Some (deps, len) \<Rightarrow>
             Some \<lparr>dependency_by_radius = deps, dep_len = len,
                   radius_by_dependency = build_radius_lookup deps len\<rparr>)"

definition const_max_status :: "chunk_status option \<Rightarrow> chunk_status option \<Rightarrow> chunk_status option" where
  "const_max_status a b =
     (case (a, b) of
        (Some sa, Some sb) \<Rightarrow> if get_index sa > get_index sb then Some sa else Some sb
      | (Some s, None) \<Rightarrow> Some s
      | (None, Some s) \<Rightarrow> Some s
      | (None, None) \<Rightarrow> None)"

definition dep_get :: "nat \<Rightarrow> chunk_dependencies \<Rightarrow> chunk_status option" where
  "dep_get distance d = (if distance < dep_len d then dependency_by_radius d ! distance else None)"

definition radius_of_parent :: "chunk_dependencies \<Rightarrow> chunk_status \<Rightarrow> nat" where
  "radius_of_parent d ps =
     fold (\<lambda>i r. case dependency_by_radius d ! i of
             Some s \<Rightarrow> if get_index s \<ge> get_index ps then i else r
           | None \<Rightarrow> r) [0..<dep_len d] 0"

definition accumulate :: "chunk_dependencies \<Rightarrow> chunk_dependencies \<Rightarrow> chunk_status \<Rightarrow> chunk_dependencies" where
  "accumulate d pa ps =
     (let rp = radius_of_parent d ps;
          new_len = max (rp + dep_len pa) (dep_len d);
          capped_len = min new_len MAX_RADIUS;
          accumulated = fold (\<lambda>dist acc. acc[dist := const_max_status (dep_get dist d) (dep_get (dist - rp) pa)])
            [0..<capped_len] (replicate MAX_RADIUS None)
      in \<lparr>dependency_by_radius = accumulated, dep_len = capped_len,
          radius_by_dependency = build_radius_lookup accumulated capped_len\<rparr>)"

definition get_radius_of :: "chunk_status \<Rightarrow> chunk_dependencies \<Rightarrow> nat" where
  "get_radius_of s d = radius_by_dependency d ! get_index s"

definition get_radius :: "chunk_dependencies \<Rightarrow> nat" where
  "get_radius d = dep_len d - 1"

section \<open>Steps and pyramids\<close>

record chunk_step =
  target_status :: chunk_status
  direct_dependencies :: chunk_dependencies
  accumulated_dependencies :: chunk_dependencies
  block_state_write_radius :: int
  step_task :: string

definition step_placeholder :: chunk_step where
  "step_placeholder =
     \<lparr>target_status = Empty, direct_dependencies = deps_empty, accumulated_dependencies = deps_empty,
      block_state_write_radius = -1, step_task = ''noop_task''\<rparr>"

definition get_accumulated_radius_of :: "chunk_status \<Rightarrow> chunk_step \<Rightarrow> nat" where
  "get_accumulated_radius_of s st =
     (if get_index s = get_index (target_status st) then 0
      else get_radius_of s (accumulated_dependencies st))"

record pyramid_builder =
  pb_steps :: "chunk_step list"
  pb_count :: nat

definition builder_new :: pyramid_builder where
  "builder_new = \<lparr>pb_steps = replicate STATUS_COUNT step_placeholder, pb_count = 0\<rparr>"

definition builder_step ::
    "chunk_status \<Rightarrow> (chunk_status \<times> nat) list \<Rightarrow> int \<Rightarrow> string \<Rightarrow> pyramid_builder \<Rightarrow> pyramid_builder option" where
  "builder_step status reqs bswr task b =
     (let parent = (if pb_count b > 0 then Some (pb_steps b ! (pb_count b - 1)) else None)
      in case from_requirements reqs (map_option target_status parent) of
           None \<Rightarrow> None
         | Some direct \<Rightarrow>
             (let acc = (case parent of
                    Some p \<Rightarrow> accumulate direct (accumulated_dependencies p) (target_status p)
                  | None \<Rightarrow> direct)
              in if pb_count b < STATUS_COUNT
                 then Some \<lparr>pb_steps = (pb_steps b)[pb_count b :=
                          \<lparr>target_status = status, direct_dependencies = direct,
                           accumulated_dependencies = acc, block_state_write_radius = bswr,
                           step_task = task\<rparr>],
                        pb_count = pb_count b + 1\<rparr>
                 else None))"

type_synonym step_spec = "chunk_status \<times> (chunk_status \<times> nat) list \<times> int \<times> string"

fun builder_steps :: "step_spec list \<Rightarrow> pyramid_builder \<Rightarrow> pyramid_builder option" where
  "builder_steps [] b = Some b"
| "builder_steps ((status, reqs, bswr, task) # ss) b =
     (case builder_step status reqs bswr task b of None \<Rightarrow> None | Some b' \<Rightarrow> builder_steps ss b')"

definition define_pyramid :: "step_spec list \<Rightarrow> chunk_step list option" where
  "define_pyramid specs = map_option pb_steps (builder_steps specs builder_new)"

definition generation_steps :: "step_spec list" where
  "generation_steps =
     [(Empty, [], -1, ''empty''),
      (StructureStarts, [], -1, ''generate_structure_starts''),
      (StructureReferences, [(StructureStarts, 8)], -1, ''generate_structure_references''),
      (Biomes, [(StructureStarts, 8)], -1, ''generate_biomes''),
      (Noise, [(StructureStarts, 8), (Biomes, 1)], 0, ''generate_noise''),
      (Surface, [(StructureStarts, 8), (Biomes, 1)], 0, ''generate_surface''),
      (Carvers, [(StructureStarts, 8)], 0, ''generate_carvers''),
      (Features, [(StructureStarts, 8), (Carvers, 1)], 1, ''generate_features''),
      (InitializeLight, [], -1, ''initialize_light''),
      (Light, [(InitializeLight, 1)], 0, ''light''),
      (Spawn, [(Biomes, 1)], -1, ''generate_spawn''),
      (Full, [], -1, ''full'')]"

definition loading_steps :: "step_spec list" where
  "loading_steps =
     [(Empty, [], -1, ''noop_task''),
      (StructureStarts, [], -1, ''load_structure_starts''),
      (StructureReferences, [], -1, ''noop_task''),
      (Biomes, [], -1, ''noop_task''),
      (Noise, [], -1, ''noop_task''),
      (Surface, [], -1, ''noop_task''),
      (Carvers, [], -1, ''noop_task''),
      (Features, [], -1, ''noop_task''),
      (InitializeLight, [], -1, ''initialize_light''),
      (Light, [(InitializeLight, 1)], -1, ''load_light''),
      (Spawn, [], -1, ''noop_task''),
      (Full, [], -1, ''full'')]"

definition GENERATION_PYRAMID :: "chunk_step list" where
  "GENERATION_PYRAMID = (case define_pyramid generation_steps of None \<Rightarrow> [] | Some p \<Rightarrow> p)"

definition LOADING_PYRAMID :: "chunk_step list" where
  "LOADING_PYRAMID = (case define_pyramid loading_steps of None \<Rightarrow> [] | Some p \<Rightarrow> p)"

definition get_step_to :: "chunk_status \<Rightarrow> chunk_step list \<Rightarrow> chunk_step" where
  "get_step_to s p = p ! get_index s"

section \<open>The tables\<close>

lemma status_less_iff: "s < t \<longleftrightarrow> get_index s < get_index t" "s \<le> t \<longleftrightarrow> get_index s \<le> get_index t"
  by (simp_all add: less_chunk_status_def less_eq_chunk_status_def)

lemma fold_update_range:
  "n \<le> length xs \<Longrightarrow> length (fold (\<lambda>j d. d[j := v]) [m..<n] xs) = length xs \<and>
     fold (\<lambda>j d. d[j := v]) [m..<n] xs ! i = (if m \<le> i \<and> i < n then v else xs ! i)"
proof (induction n)
  case (Suc n)
  show ?case
  proof (cases "m \<le> n")
    case True
    with Suc show ?thesis by (auto simp: nth_list_update less_Suc_eq)
  next
    case False
    then show ?thesis by auto
  qed
qed simp

lemma raise_entries:
  "n \<le> length xs \<Longrightarrow> length (fold (raise_entry s) [0..<n] xs) = length xs \<and>
     fold (raise_entry s) [0..<n] xs ! i =
       (if i < n then map_option (max s) (xs ! i) else xs ! i)"
proof (induction n arbitrary: i)
  case (Suc n)
  let ?ys = "fold (raise_entry s) [0..<n] xs"
  have len: "length ?ys = length xs" and at: "?ys ! n = xs ! n" using Suc.IH [of n] Suc.prems by simp_all
  have "length (raise_entry s n ?ys) = length xs" by (simp add: raise_entry_def len split: option.split)
  moreover have "raise_entry s n ?ys ! i = (if i = n then map_option (max s) (xs ! n) else ?ys ! i)"
    using Suc.prems len at
    by (auto simp: raise_entry_def nth_list_update max_def status_less_iff split: option.split)
  ultimately show ?case using Suc.IH [of i] Suc.prems by (auto simp: less_Suc_eq)
qed simp

text \<open>A table represents a requirement when its entry at each radius is the highest status required.\<close>

definition table_of :: "(nat \<Rightarrow> chunk_status set) \<Rightarrow> chunk_status option list \<times> nat \<Rightarrow> bool" where
  "table_of S st \<longleftrightarrow> length (fst st) = MAX_RADIUS \<and> snd st \<le> MAX_RADIUS \<and>
     (\<forall>j. finite (S j)) \<and> (\<forall>j. j < snd st \<longleftrightarrow> S j \<noteq> {}) \<and>
     (\<forall>j < snd st. fst st ! j = Some (Max (S j)))"

definition required_by :: "chunk_status \<times> nat \<Rightarrow> nat \<Rightarrow> chunk_status set" where
  "required_by r j = (if j \<le> snd r then {fst r} else {})"

lemma apply_requirement_table:
  assumes tab: "table_of S st" and R: "snd r < MAX_RADIUS"
  shows "\<exists>st'. apply_requirement r st = Some st' \<and> table_of (\<lambda>j. S j \<union> required_by r j) st'"
proof -
  obtain s R where r: "r = (s, R)" by (cases r)
  obtain deps len where st: "st = (deps, len)" by (cases st)
  have t: "length deps = MAX_RADIUS" "len \<le> MAX_RADIUS" "\<And>j. finite (S j)" "\<And>j. j < len \<longleftrightarrow> S j \<noteq> {}"
    "\<And>j. j < len \<Longrightarrow> deps ! j = Some (Max (S j))"
    using tab by (simp_all add: table_of_def st)
  let ?n = "R + 1"
  define deps1 where "deps1 = (if ?n > len then fill_entries s len ?n deps else deps)"
  define len1 where "len1 = max len ?n"
  have n: "?n \<le> length deps" using R r t(1) by simp
  have d1: "length deps1 = MAX_RADIUS" "deps1 ! j = (if len \<le> j \<and> j < ?n then Some s else deps ! j)" for j
    using fold_update_range [OF n, of "Some s" len] t(1) by (auto simp: deps1_def fill_entries_def)
  define deps2 where "deps2 = fold (raise_entry s) [0..<min len1 ?n] deps1"
  have "min len1 ?n \<le> length deps1" using n t(1) d1(1) by simp
  note raised = raise_entries [OF this, of s]
  have d2: "length deps2 = MAX_RADIUS" "deps2 ! j = (if j < ?n then map_option (max s) (deps1 ! j) else deps1 ! j)" for j
    using raised [of j] d1(1) unfolding deps2_def len1_def by auto
  have run: "apply_requirement r st = Some (deps2, len1)"
    using R by (auto simp: apply_requirement_def r st deps1_def deps2_def len1_def Let_def max_def)
  have ent: "deps2 ! j = Some (Max (S j \<union> required_by r j))" if j: "j < len1" for j
  proof (cases "j < len")
    case True
    have "Max (insert s (S j)) = max s (Max (S j))" using t(3,4) True by (intro Max_insert) simp_all
    with True t(5) d1(2) d2(2) show ?thesis by (simp add: required_by_def r)
  next
    case False
    with t(4) have "S j = {}" by simp
    moreover have "j < ?n" using False j by (simp add: len1_def)
    ultimately show ?thesis using False d1(2) [of j] d2(2) [of j] by (simp add: required_by_def r)
  qed
  have "j < len1 \<longleftrightarrow> S j \<union> required_by r j \<noteq> {}" for j
    using t(4) [of j] by (auto simp: required_by_def r len1_def less_max_iff_disj)
  moreover have "len1 \<le> MAX_RADIUS" using n t(1,2) by (simp add: len1_def)
  moreover have "finite (S j \<union> required_by r j)" for j using t(3) [of j] by (simp add: required_by_def)
  ultimately have "table_of (\<lambda>j. S j \<union> required_by r j) (deps2, len1)"
    using d2(1) ent unfolding table_of_def fst_conv snd_conv by blast
  with run show ?thesis by blast
qed

lemma apply_requirements_table:
  assumes "table_of S st" "\<forall>r \<in> set rs. snd r < MAX_RADIUS"
  shows "\<exists>st'. apply_requirements rs st = Some st' \<and>
    table_of (\<lambda>j. S j \<union> {s. \<exists>R. (s, R) \<in> set rs \<and> j \<le> R}) st'"
  using assms
proof (induction rs arbitrary: S st)
  case Nil
  then show ?case by simp
next
  case (Cons r rs)
  then obtain st1 where st1: "apply_requirement r st = Some st1" "table_of (\<lambda>j. S j \<union> required_by r j) st1"
    using apply_requirement_table [of S st r] by auto
  moreover have "(S j \<union> required_by r j) \<union> {s. \<exists>R. (s, R) \<in> set rs \<and> j \<le> R} =
      S j \<union> {s. \<exists>R. (s, R) \<in> set (r # rs) \<and> j \<le> R}" for j
    by (cases r) (auto simp: required_by_def)
  ultimately show ?case using Cons.IH [OF st1(2)] Cons.prems(2) by simp
qed

text \<open>The radius table: the farthest radius at which a status, or a later one, is needed.\<close>

definition radii_needing :: "chunk_status option list \<Rightarrow> nat \<Rightarrow> nat \<Rightarrow> nat set" where
  "radii_needing deps len i = {r. r < len \<and> (\<exists>dep. deps ! r = Some dep \<and> i \<le> get_index dep)}"

lemma build_radius_lookup_spec:
  "length (build_radius_lookup deps len) = STATUS_COUNT \<and>
   (i < STATUS_COUNT \<longrightarrow> build_radius_lookup deps len ! i = Max (insert 0 (radii_needing deps len i)))"
proof (induction len)
  case 0
  then show ?case by (simp add: build_radius_lookup_def radii_needing_def)
next
  case (Suc n)
  let ?t = "build_radius_lookup deps n"
  have step: "build_radius_lookup deps (Suc n) =
      (case deps ! n of None \<Rightarrow> ?t
       | Some dep \<Rightarrow> fold (\<lambda>j t. t[j := n]) [0..<min (get_index dep + 1) STATUS_COUNT] ?t)"
    by (simp add: build_radius_lookup_def split: option.split)
  have fin: "finite (radii_needing deps n i)" by (simp add: radii_needing_def)
  have more: "radii_needing deps (Suc n) i =
      (if \<exists>dep. deps ! n = Some dep \<and> i \<le> get_index dep then insert n (radii_needing deps n i) else radii_needing deps n i)"
    by (auto simp: radii_needing_def less_Suc_eq)
  have top: "Max (insert 0 (insert n (radii_needing deps n i))) = n"
    using fin by (intro Max_eqI) (auto simp: radii_needing_def)
  show ?case
  proof (cases "deps ! n")
    case None
    with Suc step more show ?thesis by simp
  next
    case (Some dep)
    have "min (get_index dep + 1) STATUS_COUNT \<le> length ?t" using Suc by simp
    from fold_update_range [OF this, of n 0 i] Suc Some step more top show ?thesis
      by (auto simp: STATUS_COUNT_def)
  qed
qed

definition required_at :: "(chunk_status \<times> nat) list \<Rightarrow> chunk_status option \<Rightarrow> nat \<Rightarrow> chunk_status set" where
  "required_at reqs parent j =
     (if j = 0 then set_option parent else {}) \<union> {s. \<exists>R. (s, R) \<in> set reqs \<and> j \<le> R}"

text \<open>
  The direct dependencies of a step are the requirements read off by distance: the entry at
  distance \<open>j\<close> is the highest status that some requirement of radius at least \<open>j\<close> asks for, with
  the parent status added at distance 0; and the radius table gives, for each status, the farthest
  distance at which that status or a later one is needed.
\<close>

theorem from_requirements_spec:
  assumes "\<forall>r \<in> set reqs. snd r < MAX_RADIUS"
  shows "\<exists>d. from_requirements reqs parent = Some d \<and>
    (\<forall>j. dep_get j d = (if required_at reqs parent j = {} then None else Some (Max (required_at reqs parent j)))) \<and>
    (\<forall>s. get_radius_of s d = Max (insert 0 {j. \<exists>t \<in> required_at reqs parent j. s \<le> t}))"
proof -
  define need where "need = required_at reqs parent"
  define init where "init = (case parent of None \<Rightarrow> (replicate MAX_RADIUS None, 0::nat)
    | Some p \<Rightarrow> ((replicate MAX_RADIUS None)[0 := Some p], 1))"
  have "table_of (\<lambda>j. if j = 0 then set_option parent else {}) init"
    by (cases parent) (auto simp: table_of_def init_def MAX_RADIUS_def)
  from apply_requirements_table [OF this assms(1)] obtain deps len where
    run: "apply_requirements reqs init = Some (deps, len)" and tab: "table_of need (deps, len)"
    unfolding need_def required_at_def [abs_def] by fastforce
  have t: "\<And>j. finite (need j)" "\<And>j. j < len \<longleftrightarrow> need j \<noteq> {}" "\<And>j. j < len \<Longrightarrow> deps ! j = Some (Max (need j))"
    using tab by (simp_all add: table_of_def)
  let ?d = "\<lparr>dependency_by_radius = deps, dep_len = len, radius_by_dependency = build_radius_lookup deps len\<rparr>"
  have "from_requirements reqs parent = Some ?d"
    unfolding from_requirements_def init_def [symmetric] using run by (simp add: Let_def)
  moreover have "dep_get j ?d = (if need j = {} then None else Some (Max (need j)))" for j
    using t(2,3) [of j] by (auto simp: dep_get_def)
  moreover have "get_radius_of s ?d = Max (insert 0 {j. \<exists>t \<in> need j. s \<le> t})" for s
  proof -
    have "j < len \<and> (\<exists>dep. deps ! j = Some dep \<and> get_index s \<le> get_index dep) \<longleftrightarrow> (\<exists>t \<in> need j. s \<le> t)" for j
      using t [of j] by (cases "j < len") (auto simp: status_less_iff(2) [symmetric] Max_ge_iff)
    then have "radii_needing deps len (get_index s) = {j. \<exists>t \<in> need j. s \<le> t}"
      by (simp add: radii_needing_def)
    with build_radius_lookup_spec [of deps len "get_index s"] get_index_less [of s] show ?thesis
      by (simp add: get_radius_of_def STATUS_COUNT_def)
  qed
  ultimately show ?thesis unfolding need_def by blast
qed

theorem from_requirements_spec_witness:
  "\<exists>d. from_requirements [(StructureStarts, 8), (Biomes, 1)] (Some Biomes) = Some d \<and>
     dep_get 8 d = Some StructureStarts"
proof -
  have "required_at [(StructureStarts, 8), (Biomes, 1)] (Some Biomes) 8 = {StructureStarts}"
    by (auto simp: required_at_def)
  then show ?thesis
    using from_requirements_spec [of "[(StructureStarts, 8), (Biomes, 1)]" "Some Biomes"]
    by (force simp: MAX_RADIUS_def)
qed

section \<open>The tables of a pyramid\<close>

text \<open>
  What a list of steps asks for, read off the list itself: the parent of a step is the step before
  it, its own needs are its requirements with the parent at distance 0, and the parent's needs come
  on top, moved outwards by the farthest distance at which the parent status is asked for. The
  arrays hold \<^const>\<open>MAX_RADIUS\<close> distances; needs beyond are cut off.
\<close>

definition step_parent :: "step_spec list \<Rightarrow> nat \<Rightarrow> chunk_status option" where
  "step_parent specs i = (if i = 0 then None else Some (fst (specs ! (i - 1))))"

definition step_needs :: "step_spec list \<Rightarrow> nat \<Rightarrow> nat \<Rightarrow> chunk_status set" where
  "step_needs specs i = required_at (fst (snd (specs ! i))) (step_parent specs i)"

definition parent_reach :: "step_spec list \<Rightarrow> nat \<Rightarrow> nat" where
  "parent_reach specs i = Max {j. \<exists>t \<in> step_needs specs i j. fst (specs ! (i - 1)) \<le> t}"

fun accumulated_needs :: "step_spec list \<Rightarrow> nat \<Rightarrow> nat \<Rightarrow> chunk_status set" where
  "accumulated_needs specs 0 j = step_needs specs 0 j"
| "accumulated_needs specs (Suc i) j =
     step_needs specs (Suc i) j
       \<union> (if j < MAX_RADIUS then accumulated_needs specs i (j - parent_reach specs (Suc i)) else {})"

definition highest :: "chunk_status set \<Rightarrow> chunk_status option" where
  "highest S = (if S = {} then None else Some (Max S))"

definition table_shows :: "(nat \<Rightarrow> chunk_status set) \<Rightarrow> chunk_dependencies \<Rightarrow> bool" where
  "table_shows need d \<longleftrightarrow>
     (\<forall>j. dep_get j d = highest (need j)) \<and>
     (\<forall>s. get_radius_of s d = Max (insert 0 {j. \<exists>t \<in> need j. s \<le> t}))"

definition short_radii :: "step_spec list \<Rightarrow> bool" where
  "short_radii specs \<longleftrightarrow> (\<forall>(_, reqs, _) \<in> set specs. \<forall>r \<in> set reqs. snd r < MAX_RADIUS)"

lemma finite_required_at: "finite (required_at reqs parent j)"
proof -
  have "{s. \<exists>R. (s, R) \<in> set reqs \<and> j \<le> R} \<subseteq> fst ` set reqs" by force
  then have "finite {s. \<exists>R. (s, R) \<in> set reqs \<and> j \<le> R}" by (rule finite_subset) simp
  then show ?thesis by (simp add: required_at_def)
qed

lemma finite_needs: "finite (step_needs specs i j)" "finite (accumulated_needs specs i j)"
proof -
  show one: "finite (step_needs specs i j)" for i j by (simp add: step_needs_def finite_required_at)
  show "finite (accumulated_needs specs i j)" by (induction i arbitrary: j) (simp_all add: one)
qed

lemma highest_Un: "finite A \<Longrightarrow> finite B \<Longrightarrow> const_max_status (highest A) (highest B) = highest (A \<union> B)"
  by (auto simp: highest_def const_max_status_def Max_Un max_def status_less_iff)

lemma highest_Some_ge: "finite A \<Longrightarrow> (\<exists>u. highest A = Some u \<and> s \<le> u) \<longleftrightarrow> (\<exists>t \<in> A. s \<le> t)"
  by (auto simp: highest_def Max_ge_iff)

lemma fold_fill:
  "n \<le> length xs \<Longrightarrow> length (fold (\<lambda>j d. d[j := f j]) [0..<n] xs) = length xs \<and>
     fold (\<lambda>j d. d[j := f j]) [0..<n] xs ! i = (if i < n then f i else xs ! i)"
  by (induction n) (auto simp: nth_list_update less_Suc_eq)

lemma radius_of_parent_spec:
  "radius_of_parent d ps = Max (insert 0 {i. \<exists>u. dep_get i d = Some u \<and> ps \<le> u})"
proof -
  define far where "far n = {i. i < n \<and> (\<exists>u. dependency_by_radius d ! i = Some u \<and> ps \<le> u)}" for n
  have "fold (\<lambda>i r. case dependency_by_radius d ! i of Some s \<Rightarrow> if get_index s \<ge> get_index ps then i else r | None \<Rightarrow> r)
      [0..<n] 0 = Max (insert 0 (far n))" for n
  proof (induction n)
    case (Suc n)
    have fin: "finite (far n)" by (simp add: far_def)
    have top: "Max (insert 0 (insert n (far n))) = n" using fin by (intro Max_eqI) (auto simp: far_def)
    have "far (Suc n) = (if \<exists>u. dependency_by_radius d ! n = Some u \<and> ps \<le> u then insert n (far n) else far n)"
      by (auto simp: far_def less_Suc_eq)
    with Suc top show ?case by (auto simp: status_less_iff split: option.split)
  qed (simp add: far_def)
  moreover have "far (dep_len d) = {i. \<exists>u. dep_get i d = Some u \<and> ps \<le> u}" by (auto simp: far_def dep_get_def)
  ultimately show ?thesis by (simp add: radius_of_parent_def)
qed

lemma dep_get_accumulate:
  "dep_get j (accumulate d pa ps) =
     (if j < MAX_RADIUS then const_max_status (dep_get j d) (dep_get (j - radius_of_parent d ps) pa) else None)"
proof -
  let ?n = "min (max (radius_of_parent d ps + dep_len pa) (dep_len d)) MAX_RADIUS"
  let ?f = "\<lambda>j. const_max_status (dep_get j d) (dep_get (j - radius_of_parent d ps) pa)"
  have "?n \<le> length (replicate MAX_RADIUS (None :: chunk_status option))" by simp
  from fold_fill [OF this, of ?f j] have "dep_get j (accumulate d pa ps) = (if j < ?n then ?f j else None)"
    by (simp add: accumulate_def Let_def dep_get_def)
  moreover have "?f j = None" if "\<not> j < max (radius_of_parent d ps + dep_len pa) (dep_len d)"
    using that by (auto simp: dep_get_def const_max_status_def)
  ultimately show ?thesis by auto
qed

lemma radius_lookup_needs:
  assumes "radius_by_dependency d = build_radius_lookup (dependency_by_radius d) (dep_len d)"
    and "\<And>j. dep_get j d = highest (need j)" and "\<And>j. finite (need j)"
  shows "table_shows need d"
proof -
  have "radii_needing (dependency_by_radius d) (dep_len d) (get_index s) = {j. \<exists>t \<in> need j. s \<le> t}" for s
  proof -
    have "r < dep_len d \<and> (\<exists>u. dependency_by_radius d ! r = Some u \<and> s \<le> u) \<longleftrightarrow> (\<exists>u. dep_get r d = Some u \<and> s \<le> u)" for r
      by (auto simp: dep_get_def)
    then show ?thesis
      using highest_Some_ge [OF assms(3)] by (simp add: radii_needing_def assms(2) status_less_iff(2) [symmetric])
  qed
  then have "get_radius_of s d = Max (insert 0 {j. \<exists>t \<in> need j. s \<le> t})" for s
    using build_radius_lookup_spec [of "dependency_by_radius d" "dep_len d" "get_index s"] get_index_less [of s]
    by (simp add: get_radius_of_def assms(1) STATUS_COUNT_def)
  with assms(2) show ?thesis by (simp add: table_shows_def)
qed

definition step_as_needed :: "step_spec list \<Rightarrow> nat \<Rightarrow> chunk_step \<Rightarrow> bool" where
  "step_as_needed specs i st \<longleftrightarrow>
     (target_status st, block_state_write_radius st, step_task st) = (fst (specs ! i), snd (snd (specs ! i))) \<and>
     table_shows (step_needs specs i) (direct_dependencies st) \<and>
     table_shows (accumulated_needs specs i) (accumulated_dependencies st)"

lemma step_needs_direct:
  assumes "short_radii specs" "i < length specs"
  shows "\<exists>d. from_requirements (fst (snd (specs ! i))) (step_parent specs i) = Some d \<and> table_shows (step_needs specs i) d"
proof -
  have "specs ! i \<in> set specs" using assms(2) by simp
  then have "\<forall>r \<in> set (fst (snd (specs ! i))). snd r < MAX_RADIUS"
    using assms(1) unfolding short_radii_def by fastforce
  from from_requirements_spec [OF this, of "step_parent specs i"] show ?thesis
    by (simp add: table_shows_def highest_def step_needs_def)
qed

lemma far_needs_empty:
  assumes "short_radii specs" "i < length specs" "MAX_RADIUS \<le> j"
  shows "step_needs specs i j = {}"
proof -
  have "specs ! i \<in> set specs" using assms(2) by simp
  then have "\<forall>r \<in> set (fst (snd (specs ! i))). snd r < MAX_RADIUS"
    using assms(1) unfolding short_radii_def by fastforce
  with assms(3) show ?thesis by (fastforce simp: step_needs_def required_at_def MAX_RADIUS_def)
qed

lemma accumulate_as_needed:
  assumes "table_shows (step_needs specs (Suc i)) d" "table_shows (accumulated_needs specs i) pa"
    and "short_radii specs" "Suc i < length specs"
  shows "table_shows (accumulated_needs specs (Suc i)) (accumulate d pa (fst (specs ! i)))"
proof (rule radius_lookup_needs)
  let ?ps = "fst (specs ! i)"
  show "radius_by_dependency (accumulate d pa ?ps) = build_radius_lookup (dependency_by_radius (accumulate d pa ?ps)) (dep_len (accumulate d pa ?ps))"
    by (simp add: accumulate_def Let_def)
  have "0 \<in> {j. \<exists>t \<in> step_needs specs (Suc i) j. ?ps \<le> t}"
    by (auto simp: step_needs_def required_at_def step_parent_def)
  then have "radius_of_parent d ?ps = parent_reach specs (Suc i)"
    using assms(1) highest_Some_ge [OF finite_needs(1)]
    by (simp add: radius_of_parent_spec table_shows_def parent_reach_def insert_absorb)
  then show "dep_get j (accumulate d pa ?ps) = highest (accumulated_needs specs (Suc i) j)" for j
    using assms(1,2) far_needs_empty [OF assms(3,4), of j]
    by (auto simp: dep_get_accumulate table_shows_def highest_Un finite_needs) (simp add: highest_def)
  show "finite (accumulated_needs specs (Suc i) j)" for j by (rule finite_needs)
qed

definition builder_as_needed :: "step_spec list \<Rightarrow> nat \<Rightarrow> pyramid_builder \<Rightarrow> bool" where
  "builder_as_needed specs k b \<longleftrightarrow>
     pb_count b = k \<and> length (pb_steps b) = STATUS_COUNT \<and> (\<forall>i < k. step_as_needed specs i (pb_steps b ! i))"

lemma builder_step_as_needed:
  assumes b: "builder_as_needed specs k b" and k: "k < length specs" "k < STATUS_COUNT" and short: "short_radii specs"
    and s: "specs ! k = (status, reqs, bswr, task)"
  shows "\<exists>b'. builder_step status reqs bswr task b = Some b' \<and> builder_as_needed specs (Suc k) b'"
proof -
  let ?parent = "if pb_count b > 0 then Some (pb_steps b ! (pb_count b - 1)) else None"
  have par: "map_option target_status ?parent = step_parent specs k"
    using b by (auto simp: builder_as_needed_def step_as_needed_def step_parent_def)
  obtain d where d: "from_requirements reqs (step_parent specs k) = Some d" "table_shows (step_needs specs k) d"
    using step_needs_direct [OF short k(1)] s by auto
  define acc where "acc = (case ?parent of Some p \<Rightarrow> accumulate d (accumulated_dependencies p) (target_status p) | None \<Rightarrow> d)"
  let ?st = "\<lparr>target_status = status, direct_dependencies = d, accumulated_dependencies = acc, block_state_write_radius = bswr, step_task = task\<rparr>"
  have "table_shows (accumulated_needs specs k) acc"
  proof (cases k)
    case 0
    with b d(2) show ?thesis by (simp add: acc_def builder_as_needed_def table_shows_def)
  next
    case (Suc i)
    with b have "step_as_needed specs i (pb_steps b ! i)" by (simp add: builder_as_needed_def)
    with Suc b d(2) k short show ?thesis
      using accumulate_as_needed [of specs i d "accumulated_dependencies (pb_steps b ! i)"]
      by (simp add: acc_def builder_as_needed_def step_as_needed_def)
  qed
  with d(2) s have st: "step_as_needed specs k ?st" by (simp add: step_as_needed_def)
  let ?b' = "\<lparr>pb_steps = (pb_steps b)[pb_count b := ?st], pb_count = pb_count b + 1\<rparr>"
  have "builder_step status reqs bswr task b = Some ?b'"
    unfolding builder_step_def Let_def par d(1) acc_def using b k(2) by (simp add: builder_as_needed_def)
  moreover have "builder_as_needed specs (Suc k) ?b'"
    using b st k(2) by (auto simp: builder_as_needed_def nth_list_update less_Suc_eq)
  ultimately show ?thesis by blast
qed

lemma builder_steps_as_needed:
  assumes "builder_as_needed specs k b" "k \<le> length specs" "length specs \<le> STATUS_COUNT" "short_radii specs"
  shows "\<exists>b'. builder_steps (drop k specs) b = Some b' \<and> builder_as_needed specs (length specs) b'"
  using assms
proof (induction "length specs - k" arbitrary: k b)
  case 0
  then show ?case by simp
next
  case (Suc n)
  then have k: "k < length specs" by simp
  obtain status reqs bswr task where s: "specs ! k = (status, reqs, bswr, task)" by (cases "specs ! k") auto
  from builder_step_as_needed [OF Suc.prems(1) k _ Suc.prems(4) s] k Suc.prems(3) obtain b1
    where b1: "builder_step status reqs bswr task b = Some b1" "builder_as_needed specs (Suc k) b1" by auto
  have "n = length specs - Suc k" using Suc.hyps(2) by simp
  from Suc.hyps(1) [OF this b1(2)] Suc.prems k obtain b'
    where "builder_steps (drop (Suc k) specs) b1 = Some b'" "builder_as_needed specs (length specs) b'" by auto
  then show ?case using b1(1) s Cons_nth_drop_Suc [OF k, symmetric] by simp
qed

lemma define_pyramid_as_needed:
  assumes "length specs \<le> STATUS_COUNT" "short_radii specs"
  shows "\<exists>p. define_pyramid specs = Some p \<and> length p = STATUS_COUNT \<and> (\<forall>i < length specs. step_as_needed specs i (p ! i))"
proof -
  have "builder_as_needed specs 0 builder_new" by (simp add: builder_as_needed_def builder_new_def)
  from builder_steps_as_needed [OF this _ assms] show ?thesis
    by (auto simp: define_pyramid_def builder_as_needed_def)
qed

text \<open>
  Closure: a neighbour that must reach a status at some distance has, within the table, everything
  that status needs around it.
\<close>

definition covers :: "chunk_status option \<Rightarrow> chunk_status option \<Rightarrow> bool" where
  "covers a b = (case b of None \<Rightarrow> True | Some t \<Rightarrow> (case a of None \<Rightarrow> False | Some s \<Rightarrow> t \<le> s))"

definition step_closed :: "chunk_step list \<Rightarrow> chunk_step \<Rightarrow> bool" where
  "step_closed p st =
     (let acc = accumulated_dependencies st
      in list_all (\<lambda>d. case dep_get d acc of
             None \<Rightarrow> True
           | Some u \<Rightarrow> list_all (\<lambda>e. covers (dep_get (d + e) acc)
               (dep_get e (accumulated_dependencies (get_step_to u p)))) [0..<MAX_RADIUS]) [0..<MAX_RADIUS])"

definition pyramid_closed :: "chunk_step list \<Rightarrow> bool" where
  "pyramid_closed p = list_all (\<lambda>s. step_closed p (get_step_to s p)) status_all"

lemma program_pyramids:
  "define_pyramid generation_steps = Some GENERATION_PYRAMID" "define_pyramid loading_steps = Some LOADING_PYRAMID"
  "pyramid_closed GENERATION_PYRAMID" "pyramid_closed LOADING_PYRAMID"
  "get_radius (accumulated_dependencies (get_step_to Full GENERATION_PYRAMID)) = 11"
  "get_radius (accumulated_dependencies (get_step_to Full LOADING_PYRAMID)) = 1"
  by code_simp+

text \<open>
  C6. For every list of at most twelve steps whose requirements have radii below 16, the pyramid
  builds without an array overrun, and the tables of every step are exact: the direct entry at a
  distance is the highest status that a requirement of at least that radius, or the parent at
  distance 0, asks for; the accumulated entry is the highest status that the step itself or, moved
  outwards by the farthest distance at which the parent is asked for, any earlier step asks for;
  and both radius tables give the farthest distance at which a status or a later one is needed. The
  two pyramids of the program are such lists, and they are closed: a neighbour that must reach a
  status has, within the accumulated table, everything that status needs around it.
\<close>

theorem pyramid_tables_exact:
  assumes "length specs \<le> STATUS_COUNT" "short_radii specs"
  shows "(\<exists>p. define_pyramid specs = Some p \<and> length p = STATUS_COUNT \<and>
      (\<forall>i < length specs. step_as_needed specs i (p ! i))) \<and>
    define_pyramid generation_steps = Some GENERATION_PYRAMID \<and> define_pyramid loading_steps = Some LOADING_PYRAMID \<and>
    pyramid_closed GENERATION_PYRAMID \<and> pyramid_closed LOADING_PYRAMID"
  using define_pyramid_as_needed [OF assms] program_pyramids by blast

theorem pyramid_tables_exact_witness:
  "step_as_needed generation_steps 11 (get_step_to Full GENERATION_PYRAMID)"
proof -
  have "length generation_steps \<le> STATUS_COUNT" "short_radii generation_steps"
    by (simp_all add: generation_steps_def STATUS_COUNT_def short_radii_def MAX_RADIUS_def)
  from pyramid_tables_exact [OF this] show ?thesis by (auto simp: generation_steps_def get_step_to_def)
qed

end
