(* ===== verification/Chunk_Tickets.thy ===== *)
theory Chunk_Tickets
  imports Chunk_Pyramid Positions Std_Collections "HOL-Library.AList"
begin

text \<open>
  Chunk tickets and the levels they propagate (\<open>steel-core/src/chunk/chunk_ticket_manager.rs\<close>).

  A level is a \<open>u8\<close> of which only the values up to \<open>MAX_LEVEL_RAW\<close> occur; the model keeps it as a
  natural number with the saturating operations written out. A hash map is an association list
  with distinct keys; its order stands for the unspecified iteration order of the hash map, and no
  theorem depends on it.
\<close>

section \<open>Levels\<close>

definition MAX_SUPPORTED_VIEW_DISTANCE :: nat where
  "MAX_SUPPORTED_VIEW_DISTANCE = 128"

definition FULL_CHUNK_LEVEL_RAW :: nat where
  "FULL_CHUNK_LEVEL_RAW = MAX_SUPPORTED_VIEW_DISTANCE + 2"

definition full_dependencies :: chunk_dependencies where
  "full_dependencies = accumulated_dependencies (get_step_to Full GENERATION_PYRAMID)"

definition RADIUS_AROUND_FULL_CHUNK :: nat where
  "RADIUS_AROUND_FULL_CHUNK = get_radius_of Empty full_dependencies"

definition MAX_LEVEL_RAW :: nat where
  "MAX_LEVEL_RAW = FULL_CHUNK_LEVEL_RAW + RADIUS_AROUND_FULL_CHUNK"

definition ENTITY_TICKING_CHUNK :: nat where
  "ENTITY_TICKING_CHUNK = MAX_SUPPORTED_VIEW_DISTANCE"

definition BLOCK_TICKING_CHUNK :: nat where
  "BLOCK_TICKING_CHUNK = MAX_SUPPORTED_VIEW_DISTANCE + 1"

definition level_new :: "nat \<Rightarrow> nat option" where
  "level_new raw = (if raw \<le> MAX_LEVEL_RAW then Some raw else None)"

definition for_full_chunk_radius :: "nat \<Rightarrow> nat" where
  "for_full_chunk_radius radius = FULL_CHUNK_LEVEL_RAW - radius"

definition for_entity_ticking_radius :: "nat \<Rightarrow> nat" where
  "for_entity_ticking_radius radius = ENTITY_TICKING_CHUNK - radius"

datatype full_chunk_status = FInaccessible | FFull | FBlockTicking | FEntityTicking

fun fcs_index :: "full_chunk_status \<Rightarrow> nat" where
  "fcs_index FInaccessible = 0"
| "fcs_index FFull = 1"
| "fcs_index FBlockTicking = 2"
| "fcs_index FEntityTicking = 3"

definition is_or_after :: "full_chunk_status \<Rightarrow> full_chunk_status \<Rightarrow> bool" where
  "is_or_after s t \<longleftrightarrow> fcs_index s \<ge> fcs_index t"

definition level_full_status :: "nat \<Rightarrow> full_chunk_status" where
  "level_full_status l =
     (if l \<le> ENTITY_TICKING_CHUNK then FEntityTicking
      else if l \<le> BLOCK_TICKING_CHUNK then FBlockTicking
      else if l \<le> FULL_CHUNK_LEVEL_RAW then FFull
      else FInaccessible)"

definition level_is_full :: "nat \<Rightarrow> bool" where
  "level_is_full l \<longleftrightarrow> l \<le> FULL_CHUNK_LEVEL_RAW"

definition level_is_block_ticking :: "nat \<Rightarrow> bool" where
  "level_is_block_ticking l \<longleftrightarrow> l \<le> BLOCK_TICKING_CHUNK"

definition level_is_entity_ticking :: "nat \<Rightarrow> bool" where
  "level_is_entity_ticking l \<longleftrightarrow> l \<le> ENTITY_TICKING_CHUNK"

definition with_distance :: "nat \<Rightarrow> nat \<Rightarrow> nat option" where
  "with_distance l distance = level_new (min 255 (l + distance))"

definition distance_to_max :: "nat \<Rightarrow> nat" where
  "distance_to_max l = MAX_LEVEL_RAW - l"

definition distance_to_block_ticking :: "nat \<Rightarrow> nat" where
  "distance_to_block_ticking l = BLOCK_TICKING_CHUNK - l"

definition full_status :: "nat option \<Rightarrow> full_chunk_status" where
  "full_status l = (case l of Some l \<Rightarrow> level_full_status l | None \<Rightarrow> FInaccessible)"

definition is_block_ticking :: "nat option \<Rightarrow> bool" where
  "is_block_ticking l = (case l of Some l \<Rightarrow> level_is_block_ticking l | None \<Rightarrow> False)"

definition is_entity_ticking :: "nat option \<Rightarrow> bool" where
  "is_entity_ticking l = (case l of Some l \<Rightarrow> level_is_entity_ticking l | None \<Rightarrow> False)"

definition generation_status :: "nat option \<Rightarrow> chunk_status option" where
  "generation_status l =
     (case l of
        None \<Rightarrow> None
      | Some l \<Rightarrow>
          if level_is_full l then Some Full
          else dep_get (l - FULL_CHUNK_LEVEL_RAW) full_dependencies)"

definition ticket_level_for_status :: "chunk_status \<Rightarrow> nat" where
  "ticket_level_for_status s =
     (if s = Full then FULL_CHUNK_LEVEL_RAW
      else FULL_CHUNK_LEVEL_RAW + get_radius_of s full_dependencies)"

section \<open>Tickets\<close>

record chunk_ticket =
  load_level :: nat
  simulation_level :: "nat option"

definition ticket_loading :: "nat \<Rightarrow> chunk_ticket" where
  "ticket_loading l = \<lparr>load_level = l, simulation_level = None\<rparr>"

definition full_chunks :: "nat \<Rightarrow> chunk_ticket" where
  "full_chunks radius = ticket_loading (for_full_chunk_radius radius)"

definition simulated_full_chunks :: "nat \<Rightarrow> chunk_ticket" where
  "simulated_full_chunks radius =
     (let level = for_full_chunk_radius radius in \<lparr>load_level = level, simulation_level = Some level\<rparr>)"

definition full_chunks_with_entity_ticking :: "nat \<Rightarrow> nat \<Rightarrow> chunk_ticket" where
  "full_chunks_with_entity_ticking load_radius entity_ticking_radius =
     (let er = (if entity_ticking_radius > load_radius then load_radius else entity_ticking_radius)
      in \<lparr>load_level = for_full_chunk_radius load_radius,
          simulation_level = Some (for_entity_ticking_radius er)\<rparr>)"

definition ticket_player :: "nat \<Rightarrow> nat \<Rightarrow> chunk_ticket" where
  "ticket_player view_distance simulation_radius =
     (let sr = (if simulation_radius > view_distance then view_distance else simulation_radius)
      in \<lparr>load_level = for_entity_ticking_radius view_distance,
          simulation_level = Some (for_entity_ticking_radius sr)\<rparr>)"

section \<open>Timed tickets\<close>

definition PORTAL_TICKET_RADIUS :: nat where
  "PORTAL_TICKET_RADIUS = 3"

definition PORTAL_TICKET_TIMEOUT_TICKS :: int where
  "PORTAL_TICKET_TIMEOUT_TICKS = 300"

definition ENDER_PEARL_TICKET_TIMEOUT_TICKS :: int where
  "ENDER_PEARL_TICKET_TIMEOUT_TICKS = 40"

definition ENDER_PEARL_TICKET_RADIUS :: nat where
  "ENDER_PEARL_TICKET_RADIUS = 2"

datatype timed_kind = TPortal | TEnderPearl

record timed_ticket =
  tt_kind :: timed_kind
  tt_pos :: chunk_pos
  tt_ticket :: chunk_ticket
  tt_left :: int

record persistent_ticket =
  pt_chunk_x :: int
  pt_chunk_z :: int
  pt_left :: int

definition portal_ticket :: chunk_ticket where
  "portal_ticket = simulated_full_chunks PORTAL_TICKET_RADIUS"

definition ender_pearl_ticket :: chunk_ticket where
  "ender_pearl_ticket = simulated_full_chunks ENDER_PEARL_TICKET_RADIUS"

definition timed_portal :: "chunk_pos \<Rightarrow> int \<Rightarrow> timed_ticket" where
  "timed_portal pos left = \<lparr>tt_kind = TPortal, tt_pos = pos, tt_ticket = portal_ticket, tt_left = left\<rparr>"

definition timed_to_persistent :: "timed_ticket \<Rightarrow> persistent_ticket option" where
  "timed_to_persistent t =
     (case tt_kind t of
        TPortal \<Rightarrow>
          (case tt_pos t of ChunkPos x z \<Rightarrow> Some \<lparr>pt_chunk_x = x, pt_chunk_z = z, pt_left = tt_left t\<rparr>)
      | TEnderPearl \<Rightarrow> None)"

definition to_persistent :: "timed_ticket list \<Rightarrow> persistent_ticket list" where
  "to_persistent ts = List.map_filter timed_to_persistent ts"

text \<open>\<open>iter_mut().find(..)\<close> followed by an assignment changes the first matching entry.\<close>

fun set_first_left :: "(timed_ticket \<Rightarrow> bool) \<Rightarrow> int \<Rightarrow> timed_ticket list \<Rightarrow> timed_ticket list option" where
  "set_first_left p left [] = None"
| "set_first_left p left (t # ts) =
     (if p t then Some (t\<lparr>tt_left := left\<rparr> # ts) else map_option ((#) t) (set_first_left p left ts))"

definition add_or_reset ::
    "timed_kind \<Rightarrow> chunk_pos \<Rightarrow> chunk_ticket \<Rightarrow> int \<Rightarrow> timed_ticket list \<Rightarrow> chunk_ticket option \<times> timed_ticket list" where
  "add_or_reset kind pos ticket left ts =
     (case set_first_left (\<lambda>e. tt_kind e = kind \<and> tt_pos e = pos \<and> tt_ticket e = ticket) left ts of
        Some ts' \<Rightarrow> (None, ts')
      | None \<Rightarrow>
          (Some ticket, ts @ [\<lparr>tt_kind = kind, tt_pos = pos, tt_ticket = ticket, tt_left = left\<rparr>]))"

definition add_portal_ticket :: "chunk_pos \<Rightarrow> timed_ticket list \<Rightarrow> chunk_ticket option \<times> timed_ticket list" where
  "add_portal_ticket pos ts = add_or_reset TPortal pos portal_ticket PORTAL_TICKET_TIMEOUT_TICKS ts"

definition add_ender_pearl_ticket :: "chunk_pos \<Rightarrow> timed_ticket list \<Rightarrow> chunk_ticket option \<times> timed_ticket list" where
  "add_ender_pearl_ticket pos ts =
     add_or_reset TEnderPearl pos ender_pearl_ticket ENDER_PEARL_TICKET_TIMEOUT_TICKS ts"

definition add_loaded_portal_ticket :: "chunk_pos \<Rightarrow> int \<Rightarrow> timed_ticket list \<Rightarrow> timed_ticket list" where
  "add_loaded_portal_ticket pos left ts =
     (case set_first_left (\<lambda>e. tt_kind e = TPortal \<and> tt_pos e = pos \<and> tt_ticket e = portal_ticket)
             PORTAL_TICKET_TIMEOUT_TICKS ts of
        Some ts' \<Rightarrow> ts'
      | None \<Rightarrow> ts @ [timed_portal pos left])"

definition add_loaded_persistent_ticket :: "persistent_ticket \<Rightarrow> timed_ticket list \<Rightarrow> timed_ticket list" where
  "add_loaded_persistent_ticket p ts =
     add_loaded_portal_ticket (ChunkPos (pt_chunk_x p) (pt_chunk_z p)) (pt_left p) ts"

fun load_persistent :: "persistent_ticket list \<Rightarrow> timed_ticket list \<Rightarrow> timed_ticket list" where
  "load_persistent [] ts = ts"
| "load_persistent (p # ps) ts = load_persistent ps (add_loaded_persistent_ticket p ts)"

definition from_persistent :: "persistent_ticket list \<Rightarrow> timed_ticket list" where
  "from_persistent ps = load_persistent ps []"

function timed_tick_from ::
    "(chunk_pos \<Rightarrow> bool) \<Rightarrow> nat \<Rightarrow> timed_ticket list \<Rightarrow> (chunk_pos \<times> chunk_ticket) list
       \<Rightarrow> (chunk_pos \<times> chunk_ticket) list \<times> timed_ticket list" where
  "timed_tick_from can_expire index ts expired =
     (if index < length ts
      then
        (let t = ts ! index
         in if \<not> can_expire (tt_pos t) then timed_tick_from can_expire (index + 1) ts expired
            else
              (let t1 = t\<lparr>tt_left := wrap_i64 (tt_left t - 1)\<rparr>; ts1 = ts[index := t1]
               in if tt_left t1 \<ge> 0 then timed_tick_from can_expire (index + 1) ts1 expired
                  else timed_tick_from can_expire index (swap_remove index ts1)
                         (expired @ [(tt_pos t1, tt_ticket t1)])))
      else (expired, ts))"
  by pat_completeness auto
termination
  by (relation "measure (\<lambda>(c, index, ts, e). length ts - index)") auto

declare timed_tick_from.simps [simp del]

definition timed_tick ::
    "(chunk_pos \<Rightarrow> bool) \<Rightarrow> timed_ticket list \<Rightarrow> (chunk_pos \<times> chunk_ticket) list \<times> timed_ticket list" where
  "timed_tick can_expire ts = timed_tick_from can_expire 0 ts []"

section \<open>The ticket manager\<close>

record level_change =
  lc_pos :: chunk_pos
  lc_level :: "nat option"
  lc_simulation :: "nat option"

record ticket_manager =
  tm_tickets :: "(chunk_pos \<times> chunk_ticket list) list"
  tm_levels :: "(chunk_pos \<times> nat) list"
  tm_simulation :: "(chunk_pos \<times> nat) list"
  tm_dirty :: bool
  tm_changes :: "level_change list"

definition manager_new :: ticket_manager where
  "manager_new = \<lparr>tm_tickets = [], tm_levels = [], tm_simulation = [], tm_dirty = False, tm_changes = []\<rparr>"

definition add_ticket :: "chunk_pos \<Rightarrow> chunk_ticket \<Rightarrow> ticket_manager \<Rightarrow> ticket_manager" where
  "add_ticket pos t m =
     m\<lparr>tm_tickets := AList.map_default pos [t] (\<lambda>ts. ts @ [t]) (tm_tickets m), tm_dirty := True\<rparr>"

fun position_of :: "('a \<Rightarrow> bool) \<Rightarrow> 'a list \<Rightarrow> nat option" where
  "position_of p [] = None"
| "position_of p (x # xs) = (if p x then Some 0 else map_option Suc (position_of p xs))"

definition remove_ticket :: "chunk_pos \<Rightarrow> chunk_ticket \<Rightarrow> ticket_manager \<Rightarrow> bool \<times> ticket_manager" where
  "remove_ticket pos t m =
     (case map_of (tm_tickets m) pos of
        None \<Rightarrow> (False, m)
      | Some ts \<Rightarrow>
          (case position_of (\<lambda>s. s = t) ts of
             None \<Rightarrow> (False, m)
           | Some idx \<Rightarrow>
               (let ts' = swap_remove idx ts;
                    m1 = m\<lparr>tm_tickets := AList.update pos ts' (tm_tickets m), tm_dirty := True\<rparr>
                in (True, if ts' = [] then m1\<lparr>tm_tickets := AList.delete pos (tm_tickets m1)\<rparr> else m1))))"

definition remove_all_tickets_at :: "chunk_pos \<Rightarrow> ticket_manager \<Rightarrow> bool \<times> ticket_manager" where
  "remove_all_tickets_at pos m =
     (let removed = (map_of (tm_tickets m) pos \<noteq> None);
          m1 = m\<lparr>tm_tickets := AList.delete pos (tm_tickets m)\<rparr>
      in (removed, if removed then m1\<lparr>tm_dirty := True\<rparr> else m1))"

definition iter_min :: "nat list \<Rightarrow> nat option" where
  "iter_min xs = (case xs of [] \<Rightarrow> None | y # ys \<Rightarrow> Some (fold min ys y))"

definition get_ticket :: "chunk_pos \<Rightarrow> ticket_manager \<Rightarrow> nat option" where
  "get_ticket pos m =
     (case map_of (tm_tickets m) pos of None \<Rightarrow> None | Some ts \<Rightarrow> iter_min (map load_level ts))"

definition tickets_at :: "chunk_pos \<Rightarrow> ticket_manager \<Rightarrow> chunk_ticket list" where
  "tickets_at pos m = (case map_of (tm_tickets m) pos of None \<Rightarrow> [] | Some ts \<Rightarrow> ts)"

definition manager_sources :: "ticket_manager \<Rightarrow> (chunk_pos \<times> nat) list" where
  "manager_sources m =
     List.map_filter (\<lambda>(pos, ts). map_option (Pair pos) (iter_min (map load_level ts))) (tm_tickets m)"

definition ticket_count :: "ticket_manager \<Rightarrow> nat" where
  "ticket_count m = sum_list (map (\<lambda>(pos, ts). length ts) (tm_tickets m))"

definition ticket_position_count :: "ticket_manager \<Rightarrow> nat" where
  "ticket_position_count m = length (tm_tickets m)"

definition offer_level :: "chunk_pos \<Rightarrow> nat \<Rightarrow> (chunk_pos \<times> nat) list \<Rightarrow> (chunk_pos \<times> nat) list" where
  "offer_level pos l m = AList.map_default pos l (\<lambda>e. min e l) m"

text \<open>The two nested loops over a square: rows first, then columns.\<close>

definition square :: "nat \<Rightarrow> (int \<times> int) list" where
  "square radius = concat (map (\<lambda>dy. map (\<lambda>dx. (dx, dy)) [- int radius..int radius]) [- int radius..int radius])"

definition propagate_cell ::
    "nat \<Rightarrow> chunk_pos \<Rightarrow> int \<times> int \<Rightarrow> (chunk_pos \<times> nat) list \<Rightarrow> (chunk_pos \<times> nat) list" where
  "propagate_cell level source d m =
     (case (source, d) of (ChunkPos sx sy, (dx, dy)) \<Rightarrow>
        (case with_distance level (nat (max \<bar>dx\<bar> \<bar>dy\<bar>) mod 256) of
           None \<Rightarrow> m
         | Some l \<Rightarrow> offer_level (ChunkPos (wrap_i32 (sx + dx)) (wrap_i32 (sy + dy))) l m))"

definition propagate_source ::
    "chunk_pos \<times> chunk_ticket list \<Rightarrow> (chunk_pos \<times> nat) list \<times> (chunk_pos \<times> nat) list
       \<Rightarrow> (chunk_pos \<times> nat) list \<times> (chunk_pos \<times> nat) list" where
  "propagate_source src st =
     (case (src, st) of ((pos, ts), (levels, sims)) \<Rightarrow>
        (case iter_min (map load_level ts) of
           None \<Rightarrow> (levels, sims)
         | Some l \<Rightarrow>
             (let levels1 = fold (propagate_cell l pos) (square (distance_to_max l)) levels
              in case iter_min (List.map_filter simulation_level ts) of
                   None \<Rightarrow> (levels1, sims)
                 | Some sl \<Rightarrow>
                     (levels1, fold (propagate_cell sl pos) (square (distance_to_block_ticking sl)) sims))))"

definition level_changes ::
    "(chunk_pos \<times> nat) list \<Rightarrow> (chunk_pos \<times> nat) list \<Rightarrow> (chunk_pos \<times> nat) list \<Rightarrow> level_change list" where
  "level_changes old levels sims =
     List.map_filter (\<lambda>(pos, l). if map_of old pos = Some l then None
         else Some \<lparr>lc_pos = pos, lc_level = Some l, lc_simulation = map_of sims pos\<rparr>) levels @
     List.map_filter (\<lambda>pos. if map_of levels pos = None
         then Some \<lparr>lc_pos = pos, lc_level = None, lc_simulation = None\<rparr> else None) (map fst old)"

definition record_simulation_only_changes ::
    "(chunk_pos \<times> nat) list \<Rightarrow> (chunk_pos \<times> nat) list \<Rightarrow> (chunk_pos \<times> nat) list \<Rightarrow> (chunk_pos \<times> nat) list
       \<Rightarrow> level_change list" where
  "record_simulation_only_changes old old_sims levels sims =
     List.map_filter (\<lambda>(pos, l).
         if map_of old pos \<noteq> map_of levels pos then None
         else if map_of old_sims pos = Some l then None
         else Some \<lparr>lc_pos = pos, lc_level = map_of levels pos, lc_simulation = Some l\<rparr>) sims @
     List.map_filter (\<lambda>pos.
         if map_of old pos \<noteq> map_of levels pos \<or> map_of sims pos \<noteq> None then None
         else Some \<lparr>lc_pos = pos, lc_level = map_of levels pos, lc_simulation = None\<rparr>) (map fst old_sims)"

definition run_all_updates :: "ticket_manager \<Rightarrow> ticket_manager" where
  "run_all_updates m =
     (if \<not> tm_dirty m then m\<lparr>tm_changes := []\<rparr>
      else
        (let old = tm_levels m; old_sims = tm_simulation m;
             (levels, sims) = fold propagate_source (tm_tickets m) ([], [])
         in m\<lparr>tm_dirty := False, tm_levels := levels, tm_simulation := sims,
              tm_changes := level_changes old levels sims @
                record_simulation_only_changes old old_sims levels sims\<rparr>))"

definition take_changes :: "ticket_manager \<Rightarrow> level_change list \<times> ticket_manager" where
  "take_changes m = (tm_changes m, m\<lparr>tm_changes := []\<rparr>)"

definition recycle_changes :: "level_change list \<Rightarrow> ticket_manager \<Rightarrow> ticket_manager" where
  "recycle_changes cs m = m\<lparr>tm_changes := []\<rparr>"

definition get_level :: "chunk_pos \<Rightarrow> ticket_manager \<Rightarrow> nat option" where
  "get_level pos m = map_of (tm_levels m) pos"

definition get_simulation_level :: "chunk_pos \<Rightarrow> ticket_manager \<Rightarrow> nat option" where
  "get_simulation_level pos m = map_of (tm_simulation m) pos"

fun activate_all :: "timed_ticket list \<Rightarrow> ticket_manager \<Rightarrow> ticket_manager" where
  "activate_all [] m = m"
| "activate_all (t # ts) m = activate_all ts (add_ticket (tt_pos t) (tt_ticket t) m)"

section \<open>Levels and statuses\<close>

definition full_table :: "chunk_status option list" where
  "full_table = [Some Spawn, Some InitializeLight, Some Carvers, Some Biomes] @ replicate 8 (Some StructureStarts) @ replicate 4 None"

definition full_radii :: "nat list" where
  "full_radii = [11, 11, 3, 3, 2, 2, 2, 1, 1, 0, 0, 0]"

lemma full_dependencies_table:
  "full_dependencies = \<lparr>dependency_by_radius = full_table, dep_len = 12, radius_by_dependency = full_radii\<rparr>"
  by code_simp

lemma level_values [simp]:
  "RADIUS_AROUND_FULL_CHUNK = 11" "MAX_LEVEL_RAW = 141" "FULL_CHUNK_LEVEL_RAW = 130"
  "BLOCK_TICKING_CHUNK = 129" "ENTITY_TICKING_CHUNK = 128"
  by (simp_all add: RADIUS_AROUND_FULL_CHUNK_def MAX_LEVEL_RAW_def FULL_CHUNK_LEVEL_RAW_def
      BLOCK_TICKING_CHUNK_def ENTITY_TICKING_CHUNK_def MAX_SUPPORTED_VIEW_DISTANCE_def get_radius_of_def
      full_dependencies_table full_radii_def)

text \<open>Past the boundary a level is the distance into the table of the full chunk's dependencies.\<close>

lemma generation_status_beyond:
  "0 < k \<Longrightarrow> k < 12 \<Longrightarrow> generation_status (Some (130 + k)) = full_table ! k"
  by (simp add: generation_status_def level_is_full_def dep_get_def full_dependencies_table)

lemma table_below_radius:
  "list_all (\<lambda>s. list_all (\<lambda>k. full_radii ! get_index s < k \<longrightarrow>
     (case full_table ! k of None \<Rightarrow> False | Some t \<Rightarrow> t < s)) [1..<12]) status_all"
  by code_simp

lemma table_at_radius:
  "list_all (\<lambda>s. full_radii ! get_index s < 12 \<and> (full_radii ! get_index s = 0 \<or>
     (case full_table ! (full_radii ! get_index s) of None \<Rightarrow> False | Some t \<Rightarrow> s \<le> t))) status_all"
  by code_simp

lemma case_some_iff: "(case x of None \<Rightarrow> False | Some t \<Rightarrow> P t) \<longleftrightarrow> (\<exists>t. x = Some t \<and> P t)"
  by (cases x) simp_all

lemma ticket_level_eq: "ticket_level_for_status s = 130 + full_radii ! get_index s"
  by (cases "s = Full") (simp_all add: ticket_level_for_status_def get_radius_of_def full_dependencies_table full_radii_def)

text \<open>
  The level requested for a status is right and the weakest that is: a chunk at that level may
  reach at least the status, a chunk at any weaker level that is still propagated only an earlier one.
\<close>

theorem ticket_level_permits_status:
  "(\<exists>t. generation_status (Some (ticket_level_for_status s)) = Some t \<and> s \<le> t) \<and>
   (\<forall>l. ticket_level_for_status s < l \<and> l \<le> MAX_LEVEL_RAW \<longrightarrow>
      (\<exists>t. generation_status (Some l) = Some t \<and> t < s))"
proof (intro conjI allI impI)
  let ?r = "full_radii ! get_index s"
  have r: "?r < 12" "?r = 0 \<or> (\<exists>t. full_table ! ?r = Some t \<and> s \<le> t)"
    using table_at_radius status_all_complete [of s] unfolding list_all_iff case_some_iff by blast+
  have top: "s \<le> Full" by (cases s) (simp_all add: less_eq_chunk_status_def)
  show "\<exists>t. generation_status (Some (ticket_level_for_status s)) = Some t \<and> s \<le> t"
  proof (cases "?r = 0")
    case True
    then show ?thesis unfolding ticket_level_eq using top by (simp add: generation_status_def level_is_full_def)
  next
    case False
    with r show ?thesis unfolding ticket_level_eq by (metis generation_status_beyond neq0_conv)
  qed
  fix l
  assume l: "ticket_level_for_status s < l \<and> l \<le> MAX_LEVEL_RAW"
  define k where "k = l - 130"
  have k: "l = 130 + k" "0 < k" "k < 12" "?r < k" using l unfolding k_def ticket_level_eq level_values by arith+
  then have "k \<in> set [1..<12]" by simp
  with table_below_radius status_all_complete [of s] k(4)
  have "\<exists>t. full_table ! k = Some t \<and> t < s" unfolding list_all_iff case_some_iff by blast
  then show "\<exists>t. generation_status (Some l) = Some t \<and> t < s"
    unfolding k(1) generation_status_beyond [OF k(2,3)] .
qed

theorem ticket_level_permits_status_witness:
  "\<exists>t. generation_status (Some (ticket_level_for_status Features + 1)) = Some t \<and> t < Features"
  using ticket_level_permits_status [of Features] by (simp add: ticket_level_eq full_radii_def)

section \<open>Timed tickets\<close>

definition aged :: "(chunk_pos \<Rightarrow> bool) \<Rightarrow> timed_ticket \<Rightarrow> timed_ticket" where
  "aged can_expire t = (if can_expire (tt_pos t) then t\<lparr>tt_left := wrap_i64 (tt_left t - 1)\<rparr> else t)"

definition lapses :: "(chunk_pos \<Rightarrow> bool) \<Rightarrow> timed_ticket \<Rightarrow> bool" where
  "lapses can_expire t \<longleftrightarrow> can_expire (tt_pos t) \<and> tt_left (aged can_expire t) < 0"

lemma timed_tick_from_spec:
  assumes "timed_tick_from c i ts e = (e', ts')"
  shows "mset ts' = mset (take i ts) + mset (map (aged c) (filter (\<lambda>t. \<not> lapses c t) (drop i ts))) \<and>
    mset e' = mset e + mset (map (\<lambda>t. (tt_pos t, tt_ticket t)) (filter (lapses c) (drop i ts)))"
  using assms
proof (induction c i ts e rule: timed_tick_from.induct)
  case (1 c i ts e)
  show ?case
  proof (cases "i < length ts")
    case False
    with "1.prems" show ?thesis by (simp add: timed_tick_from.simps [of c i ts e] Let_def)
  next
    case True
    let ?t = "ts ! i"
    let ?t1 = "?t\<lparr>tt_left := wrap_i64 (tt_left ?t - 1)\<rparr>"
    let ?ts1 = "ts[i := ?t1]"
    have split: "drop i ts = ?t # drop (Suc i) ts" using True by (simp add: Cons_nth_drop_Suc)
    have tk: "take (Suc i) us = take i us @ [us ! i]" if "i < length us" for us :: "timed_ticket list"
      using that by (simp add: take_Suc_conv_app_nth)
    consider (held) "\<not> c (tt_pos ?t)" | (alive) "c (tt_pos ?t)" "tt_left ?t1 \<ge> 0" | (gone) "c (tt_pos ?t)" "tt_left ?t1 < 0"
      by force
    then show ?thesis
    proof cases
      case held
      then have "timed_tick_from c (i + 1) ts e = (e', ts')"
        using "1.prems" True by (simp add: timed_tick_from.simps [of c i ts e] Let_def)
      from "1.IH"(1) [OF True refl held this] held show ?thesis
        unfolding split by (simp add: tk [OF True] lapses_def aged_def)
    next
      case alive
      then have run: "timed_tick_from c (i + 1) ?ts1 e = (e', ts')"
        using "1.prems" True by (simp add: timed_tick_from.simps [of c i ts e] Let_def)
      from "1.IH"(2) [OF True refl _ refl refl _ run] alive True show ?thesis
        unfolding split by (simp add: tk lapses_def aged_def)
    next
      case gone
      then have run: "timed_tick_from c i (swap_remove i ?ts1) (e @ [(tt_pos ?t1, tt_ticket ?t1)]) = (e', ts')"
        using "1.prems" True by (simp add: timed_tick_from.simps [of c i ts e] Let_def)
      have parts: "take i (swap_remove i ?ts1) = take i ts" "mset (drop i (swap_remove i ?ts1)) = mset (drop (Suc i) ts)"
        using swap_remove_parts [of i ?ts1] True by simp_all
      from "1.IH"(3) [OF True refl _ refl refl _ run] gone parts show ?thesis
        unfolding split by (simp add: lapses_def aged_def)
    qed
  qed
qed

text \<open>
  One tick ages every timed ticket whose chunk may expire by one, exactly once although expired
  entries are removed by swapping in the last one: the tickets kept are the aged tickets still
  non-negative and the untouched others, and the sources reported are exactly the lapsed ones.
\<close>

theorem timed_tick_ages_once:
  "mset (snd (timed_tick c ts)) = mset (map (aged c) (filter (\<lambda>t. \<not> lapses c t) ts)) \<and>
   mset (fst (timed_tick c ts)) = mset (map (\<lambda>t. (tt_pos t, tt_ticket t)) (filter (lapses c) ts))"
  using timed_tick_from_spec [of c 0 ts "[]" "fst (timed_tick c ts)" "snd (timed_tick c ts)"]
  by (simp add: timed_tick_def)

text \<open>The key under which a timed ticket is refreshed; portals carry the portal ticket.\<close>

definition tt_key :: "timed_ticket \<Rightarrow> timed_kind \<times> chunk_pos \<times> chunk_ticket" where
  "tt_key t = (tt_kind t, tt_pos t, tt_ticket t)"

definition timed_ok :: "timed_ticket list \<Rightarrow> bool" where
  "timed_ok ts \<longleftrightarrow> distinct (map tt_key ts) \<and>
     (\<forall>t \<in> set ts. tt_ticket t = (case tt_kind t of TPortal \<Rightarrow> portal_ticket | TEnderPearl \<Rightarrow> ender_pearl_ticket))"

lemma set_first_left_None: "set_first_left p left ts = None \<longleftrightarrow> (\<forall>t \<in> set ts. \<not> p t)"
  by (induction ts) auto

lemma set_first_left_keys: "set_first_left p left ts = Some ts' \<Longrightarrow> map tt_key ts' = map tt_key ts"
  by (induction ts arbitrary: ts') (auto simp: tt_key_def split: if_splits)

lemma set_first_left_found:
  assumes "set_first_left (\<lambda>e. tt_kind e = k \<and> tt_pos e = p \<and> tt_ticket e = t) left ts = Some ts'"
  shows "\<lparr>tt_kind = k, tt_pos = p, tt_ticket = t, tt_left = left\<rparr> \<in> set ts'"
  using assms
proof (induction ts arbitrary: ts')
  case (Cons e ts)
  show ?case
  proof (cases "tt_kind e = k \<and> tt_pos e = p \<and> tt_ticket e = t")
    case True
    then have "e\<lparr>tt_left := left\<rparr> = \<lparr>tt_kind = k, tt_pos = p, tt_ticket = t, tt_left = left\<rparr>" by (cases e) simp
    with True Cons.prems show ?thesis by auto
  qed (use Cons in auto)
qed simp

lemma timed_ok_keys:
  assumes "timed_ok ts" "map tt_key ts' = map tt_key ts"
  shows "timed_ok ts'"
proof -
  have "tt_ticket t = (case tt_kind t of TPortal \<Rightarrow> portal_ticket | TEnderPearl \<Rightarrow> ender_pearl_ticket)"
    if "t \<in> set ts'" for t
  proof -
    have "tt_key t \<in> set (map tt_key ts)" using that assms(2) by (metis image_eqI list.set_map)
    with assms(1) show ?thesis by (auto simp: timed_ok_def tt_key_def)
  qed
  with assms show ?thesis by (simp add: timed_ok_def)
qed

lemma add_or_reset_ok:
  assumes "timed_ok ts" "t = (case k of TPortal \<Rightarrow> portal_ticket | TEnderPearl \<Rightarrow> ender_pearl_ticket)"
  shows "timed_ok (snd (add_or_reset k p t left ts))"
proof (cases "set_first_left (\<lambda>e. tt_kind e = k \<and> tt_pos e = p \<and> tt_ticket e = t) left ts")
  case None
  then have "(k, p, t) \<notin> tt_key ` set ts" by (auto simp: set_first_left_None tt_key_def)
  with None assms show ?thesis by (simp add: add_or_reset_def timed_ok_def tt_key_def)
next
  case (Some ts')
  with assms set_first_left_keys [OF Some] show ?thesis by (simp add: add_or_reset_def timed_ok_keys)
qed

text \<open>
  Adding a portal or ender pearl ticket leaves exactly one entry for that kind and position, with
  the full timeout, and reports a new ticket source exactly when there was none before, so that the
  manager is given each source once.
\<close>

theorem timed_tickets_refresh:
  assumes "timed_ok ts"
  shows "timed_ok (snd (add_portal_ticket p ts)) \<and> timed_ok (snd (add_ender_pearl_ticket p ts)) \<and>
    timed_portal p PORTAL_TICKET_TIMEOUT_TICKS \<in> set (snd (add_portal_ticket p ts)) \<and>
    (fst (add_portal_ticket p ts) = (if \<exists>t \<in> set ts. tt_kind t = TPortal \<and> tt_pos t = p then None else Some portal_ticket)) \<and>
    length (snd (add_portal_ticket p ts)) = length ts + (if fst (add_portal_ticket p ts) = None then 0 else 1)"
proof -
  let ?f = "set_first_left (\<lambda>e. tt_kind e = TPortal \<and> tt_pos e = p \<and> tt_ticket e = portal_ticket) PORTAL_TICKET_TIMEOUT_TICKS ts"
  have has: "(\<exists>t \<in> set ts. tt_kind t = TPortal \<and> tt_pos t = p) \<longleftrightarrow> ?f \<noteq> None"
    using assms unfolding set_first_left_None timed_ok_def by fastforce
  have ok: "timed_ok (snd (add_portal_ticket p ts))" "timed_ok (snd (add_ender_pearl_ticket p ts))"
    using assms by (simp_all add: add_portal_ticket_def add_ender_pearl_ticket_def add_or_reset_ok)
  show ?thesis
  proof (cases ?f)
    case None
    with has ok show ?thesis by (auto simp: add_portal_ticket_def add_or_reset_def timed_portal_def)
  next
    case (Some ts')
    have "length ts' = length ts" using set_first_left_keys [OF Some] by (metis length_map)
    with Some has ok set_first_left_found [OF Some] show ?thesis
      by (auto simp: add_portal_ticket_def add_or_reset_def timed_portal_def)
  qed
qed

theorem timed_tickets_refresh_witness:
  "fst (add_portal_ticket (ChunkPos 4 5) [timed_portal (ChunkPos 4 5) 7]) = None"
  using timed_tickets_refresh [of "[timed_portal (ChunkPos 4 5) 7]" "ChunkPos 4 5"]
  by (simp add: timed_ok_def timed_portal_def)

lemma load_persistent_append:
  assumes "timed_ok (us @ ts)" "\<forall>t \<in> set ts. tt_kind t = TPortal"
  shows "load_persistent (to_persistent ts) us = us @ ts"
  using assms
proof (induction ts arbitrary: us)
  case Nil
  then show ?case by (simp add: to_persistent_def map_filter_simps)
next
  case (Cons t ts)
  obtain x z where pos: "tt_pos t = ChunkPos x z" by (cases "tt_pos t")
  have kind: "tt_kind t = TPortal" and tk: "tt_ticket t = portal_ticket"
    using Cons.prems by (simp_all add: timed_ok_def)
  have t: "timed_portal (tt_pos t) (tt_left t) = t" using kind tk by (cases t) (simp add: timed_portal_def)
  have "(TPortal, tt_pos t, portal_ticket) \<notin> tt_key ` set us"
    using Cons.prems(1) kind tk by (auto simp: timed_ok_def tt_key_def)
  then have fresh: "set_first_left (\<lambda>e. tt_kind e = TPortal \<and> tt_pos e = tt_pos t \<and> tt_ticket e = portal_ticket)
      PORTAL_TICKET_TIMEOUT_TICKS us = None"
    by (auto simp: set_first_left_None tt_key_def image_iff)
  have "add_loaded_persistent_ticket \<lparr>pt_chunk_x = x, pt_chunk_z = z, pt_left = tt_left t\<rparr> us = us @ [t]"
    using fresh t by (simp add: add_loaded_persistent_ticket_def add_loaded_portal_ticket_def pos)
  then show ?case
    using Cons.IH [of "us @ [t]"] Cons.prems kind pos
    by (simp add: to_persistent_def map_filter_simps timed_to_persistent_def)
qed

lemma to_persistent_filter: "to_persistent ts = to_persistent (filter (\<lambda>t. tt_kind t = TPortal) ts)"
proof (induction ts)
  case (Cons t ts)
  then show ?case
    by (cases "tt_kind t"; cases "tt_pos t") (simp_all add: to_persistent_def map_filter_simps timed_to_persistent_def)
qed simp

text \<open>
  Saving the timed tickets and restoring them gives back the portal tickets with the time they
  had left, in order; ender pearl tickets are not saved.
\<close>

theorem timed_tickets_restore:
  assumes "timed_ok ts"
  shows "from_persistent (to_persistent ts) = filter (\<lambda>t. tt_kind t = TPortal) ts"
proof -
  have "timed_ok (filter (\<lambda>t. tt_kind t = TPortal) ts)"
    using assms by (simp add: timed_ok_def distinct_map_filter)
  then have "load_persistent (to_persistent (filter (\<lambda>t. tt_kind t = TPortal) ts)) [] = filter (\<lambda>t. tt_kind t = TPortal) ts"
    using load_persistent_append [of "[]"] by simp
  then show ?thesis unfolding from_persistent_def by (simp only: to_persistent_filter [symmetric])
qed

theorem timed_tickets_restore_witness:
  "from_persistent (to_persistent [timed_portal (ChunkPos 4 5) 7]) = [timed_portal (ChunkPos 4 5) 7]"
  using timed_tickets_restore [of "[timed_portal (ChunkPos 4 5) 7]"]
  by (simp add: timed_ok_def timed_portal_def)

section \<open>Ticket sources\<close>

text \<open>
  A ticket simulates at most two levels stronger than it loads, which every constructor ensures:
  the levels that simulate are then always loaded.
\<close>

definition ticket_ok :: "chunk_ticket \<Rightarrow> bool" where
  "ticket_ok t \<longleftrightarrow> load_level t \<le> MAX_LEVEL_RAW \<and> (\<forall>s. simulation_level t = Some s \<longrightarrow> s \<le> MAX_LEVEL_RAW \<and> load_level t \<le> s + 2)"

lemma ticket_constructors_ok:
  "l \<le> MAX_LEVEL_RAW \<Longrightarrow> ticket_ok (ticket_loading l)" "ticket_ok (full_chunks r)"
  "ticket_ok (simulated_full_chunks r)" "ticket_ok (full_chunks_with_entity_ticking r r')" "ticket_ok (ticket_player r r')"
  by (simp_all add: ticket_ok_def ticket_loading_def full_chunks_def simulated_full_chunks_def Let_def
      full_chunks_with_entity_ticking_def ticket_player_def for_full_chunk_radius_def for_entity_ticking_radius_def) arith+

definition sources_ok :: "(chunk_pos \<times> chunk_ticket list) list \<Rightarrow> bool" where
  "sources_ok ss \<longleftrightarrow> distinct (map fst ss) \<and> (\<forall>(p, ts) \<in> set ss. ts \<noteq> [] \<and> (\<forall>t \<in> set ts. ticket_ok t))"

lemma map_of_sources: "sources_ok ss \<Longrightarrow> map_of ss p = Some ts \<longleftrightarrow> (p, ts) \<in> set ss"
  by (simp add: sources_ok_def)

lemma add_ticket_sources:
  assumes "sources_ok (tm_tickets m)" "ticket_ok t"
  shows "sources_ok (tm_tickets (add_ticket p t m))"
    "tickets_at q (add_ticket p t m) = (if q = p then tickets_at q m @ [t] else tickets_at q m)"
proof -
  let ?ss = "AList.map_default p [t] (\<lambda>ts. ts @ [t]) (tm_tickets m)"
  have dist: "distinct (map fst ?ss)" using assms(1) by (simp add: sources_ok_def AList.distinct_map_default)
  have "ts \<noteq> [] \<and> (\<forall>x \<in> set ts. ticket_ok x)" if "(q, ts) \<in> set ?ss" for q ts
  proof -
    have m: "map_of ?ss q = Some ts" using that dist by simp
    show ?thesis
    proof (cases "q = p")
      case True
      with m show ?thesis
        using assms map_of_sources [OF assms(1), of p]
        by (fastforce simp: AList.map_of_map_default sources_ok_def split: option.splits)
    next
      case False
      with m have "(q, ts) \<in> set (tm_tickets m)" by (simp add: AList.map_of_map_default map_of_SomeD)
      with assms(1) show ?thesis by (auto simp: sources_ok_def)
    qed
  qed
  with dist show "sources_ok (tm_tickets (add_ticket p t m))" by (auto simp: add_ticket_def sources_ok_def)
  show "tickets_at q (add_ticket p t m) = (if q = p then tickets_at q m @ [t] else tickets_at q m)"
    by (simp add: tickets_at_def add_ticket_def AList.map_of_map_default split: option.split)
qed

lemma position_of_some:
  "position_of P xs = Some i \<Longrightarrow> i < length xs \<and> P (xs ! i)"
  by (induction xs arbitrary: i) (auto split: if_splits)

lemma position_of_none: "position_of P xs = None \<longleftrightarrow> (\<forall>x \<in> set xs. \<not> P x)"
  by (induction xs) auto

lemma remove_ticket_sources:
  assumes ok: "sources_ok (tm_tickets m)"
  shows "(fst (remove_ticket p t m) \<longleftrightarrow> t \<in> set (tickets_at p m)) \<and>
    mset (tickets_at q (snd (remove_ticket p t m))) = mset (tickets_at q m) - (if q = p then {#t#} else {#}) \<and>
    sources_ok (tm_tickets (snd (remove_ticket p t m))) \<and>
    (fst (remove_ticket p t m) \<longrightarrow> tm_dirty (snd (remove_ticket p t m)))"
proof (cases "\<exists>ts i. map_of (tm_tickets m) p = Some ts \<and> position_of (\<lambda>s. s = t) ts = Some i")
  case False
  show ?thesis
  proof (cases "map_of (tm_tickets m) p")
    case None
    then show ?thesis using ok by (simp add: tickets_at_def remove_ticket_def)
  next
    case (Some ts)
    with False have pn: "position_of (\<lambda>s. s = t) ts = None" by auto
    then have "t \<notin> set ts" by (auto simp: position_of_none)
    with Some pn ok show ?thesis by (simp add: tickets_at_def remove_ticket_def)
  qed
next
  case True
  then obtain ts i where ts: "map_of (tm_tickets m) p = Some ts" and i: "position_of (\<lambda>s. s = t) ts = Some i" by blast
  let ?ts' = "swap_remove i ts"
  from position_of_some [OF i] have it: "i < length ts" "ts ! i = t" by simp_all
  from swap_remove_mset [OF it(1)] have ms: "mset ts = add_mset t (mset ?ts')" by (simp add: it)
  let ?m' = "snd (remove_ticket p t m)"
  have new: "map_of (tm_tickets ?m') q = (if q = p then if ?ts' = [] then None else Some ?ts' else map_of (tm_tickets m) q)" for q
    using ts i by (simp add: remove_ticket_def Let_def update_conv' delete_conv')
  have dist: "distinct (map fst (tm_tickets ?m'))"
    using ok ts i by (simp add: sources_ok_def remove_ticket_def Let_def distinct_update distinct_delete)
  have "(p, ts) \<in> set (tm_tickets m)" using ts by (rule map_of_SomeD)
  with ok have tok: "\<forall>x \<in> set ts. ticket_ok x" by (auto simp: sources_ok_def)
  have sub: "set ?ts' \<subseteq> set ts" using ms by (metis set_mset_mset set_mset_add_mset_insert subset_insertI)
  have "us \<noteq> [] \<and> (\<forall>x \<in> set us. ticket_ok x)" if "(q, us) \<in> set (tm_tickets ?m')" for q us
  proof -
    have m: "map_of (tm_tickets ?m') q = Some us" using that dist by simp
    show ?thesis
    proof (cases "q = p")
      case True
      with m new sub tok show ?thesis by (auto split: if_splits)
    next
      case False
      with m new have "(q, us) \<in> set (tm_tickets m)" by (simp add: map_of_SomeD)
      with ok show ?thesis by (auto simp: sources_ok_def)
    qed
  qed
  then have "sources_ok (tm_tickets ?m')" using dist by (auto simp: sources_ok_def)
  moreover have "t \<in> set (tickets_at p m)" using ts it by (auto simp: tickets_at_def)
  moreover have "fst (remove_ticket p t m)" "tm_dirty ?m'" using ts i by (simp_all add: remove_ticket_def Let_def)
  moreover have "mset (tickets_at q ?m') = mset (tickets_at q m) - (if q = p then {#t#} else {#})"
    using ts ms unfolding tickets_at_def new by auto
  ultimately show ?thesis by blast
qed

lemma remove_all_sources:
  assumes ok: "sources_ok (tm_tickets m)"
  shows "(fst (remove_all_tickets_at p m) \<longleftrightarrow> tickets_at p m \<noteq> []) \<and>
    tickets_at q (snd (remove_all_tickets_at p m)) = (if q = p then [] else tickets_at q m) \<and>
    sources_ok (tm_tickets (snd (remove_all_tickets_at p m)))"
proof -
  have "map_of (tm_tickets m) p = Some ts \<Longrightarrow> ts \<noteq> []" for ts
    using ok map_of_sources [OF ok] by (auto simp: sources_ok_def)
  then have "fst (remove_all_tickets_at p m) \<longleftrightarrow> tickets_at p m \<noteq> []"
    by (auto simp: remove_all_tickets_at_def Let_def tickets_at_def split: option.splits)
  moreover have tm: "tm_tickets (snd (remove_all_tickets_at p m)) = AList.delete p (tm_tickets m)"
    by (simp add: remove_all_tickets_at_def Let_def)
  moreover have "set (AList.delete p (tm_tickets m)) \<subseteq> set (tm_tickets m)" by (simp add: AList.delete_eq)
  then have "sources_ok (AList.delete p (tm_tickets m))"
    using ok unfolding sources_ok_def by (meson distinct_delete subset_iff)
  ultimately show ?thesis by (simp add: tickets_at_def delete_conv')
qed

text \<open>
  The manager keeps a multiset of tickets per position: adding a ticket adds one, removing one
  takes away exactly one equal ticket and reports whether there was any, removing all empties the
  position, other positions are untouched, and every change marks the levels for recomputation.
\<close>

theorem ticket_sources_multiset:
  assumes "sources_ok (tm_tickets m)" and "ticket_ok t"
  shows "mset (tickets_at q (add_ticket p t m)) = mset (tickets_at q m) + (if q = p then {#t#} else {#}) \<and>
    sources_ok (tm_tickets (add_ticket p t m)) \<and> tm_dirty (add_ticket p t m) \<and>
    (fst (remove_ticket p t m) \<longleftrightarrow> t \<in> set (tickets_at p m)) \<and>
    mset (tickets_at q (snd (remove_ticket p t m))) = mset (tickets_at q m) - (if q = p then {#t#} else {#}) \<and>
    sources_ok (tm_tickets (snd (remove_ticket p t m))) \<and>
    (fst (remove_ticket p t m) \<longrightarrow> tm_dirty (snd (remove_ticket p t m))) \<and>
    (fst (remove_all_tickets_at p m) \<longleftrightarrow> tickets_at p m \<noteq> []) \<and>
    tickets_at q (snd (remove_all_tickets_at p m)) = (if q = p then [] else tickets_at q m) \<and>
    sources_ok (tm_tickets (snd (remove_all_tickets_at p m)))"
  using add_ticket_sources(1) [OF assms, of p] add_ticket_sources(2) [OF assms, of q p] remove_ticket_sources [OF assms(1), of p t q] remove_all_sources [OF assms(1), of p q]
  by (simp add: add_ticket_def [of p t m])

theorem ticket_sources_multiset_witness:
  "fst (remove_ticket (ChunkPos 1 2) (full_chunks 3) (add_ticket (ChunkPos 1 2) (full_chunks 3) manager_new))"
proof -
  let ?m = "add_ticket (ChunkPos 1 2) (full_chunks 3) manager_new"
  have "sources_ok (tm_tickets ?m)"
    using add_ticket_sources(1) [of manager_new "full_chunks 3"] ticket_constructors_ok
    by (simp add: manager_new_def sources_ok_def)
  moreover have "full_chunks 3 \<in> set (tickets_at (ChunkPos 1 2) ?m)"
    by (simp add: add_ticket_def tickets_at_def manager_new_def)
  ultimately show ?thesis
    using ticket_sources_multiset [of ?m "full_chunks 3"] ticket_constructors_ok by blast
qed

end
