(* ===== verification/Ticket_Levels.thy ===== *)
theory Ticket_Levels
  imports Chunk_Tickets
begin

text \<open>
  The propagation of the ticket levels: what the levels must be, that an update run computes exactly
  that, and that it reports exactly what changed.
\<close>

section \<open>Least offers\<close>

definition least :: "nat set \<Rightarrow> nat option" where
  "least S = (if S = {} then None else Some (Min S))"

lemma least_insert: "finite S \<Longrightarrow> least (insert x S) = Some (case least S of None \<Rightarrow> x | Some y \<Rightarrow> min y x)"
  by (auto simp: least_def min.commute)

lemma least_dominated:
  assumes "A \<subseteq> B" "finite B" "\<And>b. b \<in> B \<Longrightarrow> \<exists>a \<in> A. a \<le> b"
  shows "least A = least B"
proof (cases "B = {}")
  case False
  then have ne: "A \<noteq> {}" using assms(3) by blast
  have fin: "finite A" using assms(1,2) by (rule finite_subset)
  have "Min A \<in> B" using Min_in [OF fin ne] assms(1) by blast
  moreover have "Min A \<le> b" if "b \<in> B" for b
    using assms(3) [OF that] Min_le [OF fin] order_trans by blast
  ultimately have "Min B = Min A" using assms(2) by (intro Min_eqI) auto
  with ne False show ?thesis by (simp add: least_def)
qed (use assms(1) in \<open>simp add: least_def\<close>)

definition cell_offer :: "nat \<Rightarrow> chunk_pos \<Rightarrow> int \<times> int \<Rightarrow> (chunk_pos \<times> nat) option" where
  "cell_offer level source d =
     (case (source, d) of (ChunkPos sx sy, (dx, dy)) \<Rightarrow>
        map_option (Pair (ChunkPos (wrap_i32 (sx + dx)) (wrap_i32 (sy + dy))))
          (with_distance level (nat (max \<bar>dx\<bar> \<bar>dy\<bar>) mod 256)))"

lemma propagate_cell_offer:
  "propagate_cell level source d m =
     (case cell_offer level source d of None \<Rightarrow> m | Some (p, l) \<Rightarrow> offer_level p l m)"
  by (simp add: propagate_cell_def cell_offer_def split: chunk_pos.split option.split prod.split)

lemma offer_level_lookup:
  "map_of (offer_level q l m) p = (if p = q then Some (case map_of m p of None \<Rightarrow> l | Some e \<Rightarrow> min e l) else map_of m p)"
  by (simp add: offer_level_def AList.map_of_map_default split: option.split)

lemma propagate_cells_lookup:
  assumes "map_of m p = least S" "finite S"
  shows "map_of (fold (propagate_cell level source) ds m) p =
     least (S \<union> {l. \<exists>d \<in> set ds. cell_offer level source d = Some (p, l)})"
  using assms
proof (induction ds arbitrary: m S)
  case Nil
  then show ?case by simp
next
  case (Cons d ds)
  let ?here = "{l. cell_offer level source d = Some (p, l)}"
  have split: "S \<union> {l. \<exists>e \<in> set (d # ds). cell_offer level source e = Some (p, l)} =
      (S \<union> ?here) \<union> {l. \<exists>e \<in> set ds. cell_offer level source e = Some (p, l)}" by auto
  have "map_of (propagate_cell level source d m) p = least (S \<union> ?here) \<and> finite (S \<union> ?here)"
  proof (cases "cell_offer level source d")
    case None
    with Cons.prems show ?thesis by (simp add: propagate_cell_offer)
  next
    case (Some ql)
    then obtain q l where ql: "cell_offer level source d = Some (q, l)" by (cases ql) simp
    then have "S \<union> ?here = (if p = q then insert l S else S)" by auto
    with ql Cons.prems show ?thesis
      by (cases "p = q") (auto simp: propagate_cell_offer offer_level_lookup least_insert)
  qed
  with Cons.IH show ?case unfolding split by simp
qed

lemma propagate_cells_distinct:
  "distinct (map fst m) \<Longrightarrow> distinct (map fst (fold (propagate_cell level source) ds m))"
proof (induction ds arbitrary: m)
  case (Cons d ds)
  have "distinct (map fst (propagate_cell level source d m))"
    using Cons.prems
    by (auto simp: propagate_cell_offer offer_level_def AList.distinct_map_default split: option.split prod.split)
  with Cons.IH show ?case by simp
qed simp

section \<open>Distances\<close>

fun cheb :: "chunk_pos \<Rightarrow> chunk_pos \<Rightarrow> nat" where
  "cheb (ChunkPos a b) (ChunkPos c d) = nat (max \<bar>a - c\<bar> \<bar>b - d\<bar>)"

text \<open>Sources far enough from the ends of \<open>i32\<close> that the square around them does not wrap.\<close>

fun inland :: "chunk_pos \<Rightarrow> bool" where
  "inland (ChunkPos x z) \<longleftrightarrow> \<bar>x\<bar> \<le> 2147483392 \<and> \<bar>z\<bar> \<le> 2147483392"

lemma set_square: "(dx, dy) \<in> set (square r) \<longleftrightarrow> \<bar>dx\<bar> \<le> int r \<and> \<bar>dy\<bar> \<le> int r"
  by (auto simp: square_def image_iff)

lemma square_offers:
  assumes "inland source" "level + r \<le> MAX_LEVEL_RAW"
  shows "{l. \<exists>d \<in> set (square r). cell_offer level source d = Some (p, l)} =
    (if cheb p source \<le> r then {level + cheb p source} else {})"
proof -
  obtain sx sy where s: "source = ChunkPos sx sy" by (cases source)
  obtain px py where p: "p = ChunkPos px py" by (cases p)
  have offer: "cell_offer level source (dx, dy) = Some (ChunkPos (sx + dx) (sy + dy), level + nat (max \<bar>dx\<bar> \<bar>dy\<bar>))"
    if "\<bar>dx\<bar> \<le> int r" "\<bar>dy\<bar> \<le> int r" for dx dy
  proof -
    have d: "nat (max \<bar>dx\<bar> \<bar>dy\<bar>) \<le> r" using that by simp
    have "i32_ok (sx + dx)" "i32_ok (sy + dy)"
      using that assms by (simp_all add: s i32_ok_def abs_le_iff)
    then show ?thesis
      using d assms(2) by (simp add: cell_offer_def s wrap_i32_id with_distance_def level_new_def)
  qed
  have "(\<exists>d \<in> set (square r). cell_offer level source d = Some (p, l)) \<longleftrightarrow> cheb p source \<le> r \<and> l = level + cheb p source" for l
  proof
    assume "\<exists>d \<in> set (square r). cell_offer level source d = Some (p, l)"
    then obtain dx dy where d: "\<bar>dx\<bar> \<le> int r" "\<bar>dy\<bar> \<le> int r" "cell_offer level source (dx, dy) = Some (p, l)"
      using set_square by fastforce
    with offer have "px = sx + dx" "py = sy + dy" "l = level + nat (max \<bar>dx\<bar> \<bar>dy\<bar>)" by (simp_all add: p)
    with d show "cheb p source \<le> r \<and> l = level + cheb p source" by (simp add: p s nat_le_iff)
  next
    assume l: "cheb p source \<le> r \<and> l = level + cheb p source"
    then have "\<bar>px - sx\<bar> \<le> int r" "\<bar>py - sy\<bar> \<le> int r" by (simp_all add: p s nat_le_iff)
    moreover from this offer [of "px - sx" "py - sy"] l have "cell_offer level source (px - sx, py - sy) = Some (p, l)"
      by (simp add: p s)
    ultimately show "\<exists>d \<in> set (square r). cell_offer level source d = Some (p, l)" using set_square by blast
  qed
  then show ?thesis by auto
qed

lemma iter_min_spec: "iter_min xs = least (set xs)"
proof (cases xs)
  case (Cons y ys)
  then show ?thesis by (simp add: iter_min_def least_def Min.set_eq_fold flip: list.set(2))
qed (simp add: iter_min_def least_def)

section \<open>What the levels must be\<close>

text \<open>
  The specification: a position has the least level that some ticket reaches it with, the ticket's
  level plus the square distance. Simulation reaches as far as blocks tick.
\<close>

definition load_offers :: "(chunk_pos \<times> chunk_ticket list) list \<Rightarrow> chunk_pos \<Rightarrow> nat set" where
  "load_offers ss p = {load_level t + cheb p q | q ts t. (q, ts) \<in> set ss \<and> t \<in> set ts \<and>
     load_level t + cheb p q \<le> MAX_LEVEL_RAW}"

definition simulation_offers :: "(chunk_pos \<times> chunk_ticket list) list \<Rightarrow> chunk_pos \<Rightarrow> nat set" where
  "simulation_offers ss p = {s + cheb p q | q ts t s. (q, ts) \<in> set ss \<and> t \<in> set ts \<and>
     simulation_level t = Some s \<and> cheb p q \<le> BLOCK_TICKING_CHUNK - s}"

definition load_spec :: "(chunk_pos \<times> chunk_ticket list) list \<Rightarrow> chunk_pos \<Rightarrow> nat option" where
  "load_spec ss p = least (load_offers ss p)"

definition simulation_spec :: "(chunk_pos \<times> chunk_ticket list) list \<Rightarrow> chunk_pos \<Rightarrow> nat option" where
  "simulation_spec ss p = least (simulation_offers ss p)"

lemma load_offers_finite: "finite (load_offers ss p)"
  by (rule finite_subset [of _ "{..MAX_LEVEL_RAW}"]) (auto simp: load_offers_def)

lemma simulation_offers_finite:
  assumes "\<forall>src \<in> set ss. \<forall>t \<in> set (snd src). ticket_ok t"
  shows "finite (simulation_offers ss p)"
  by (rule finite_subset [of _ "{..MAX_LEVEL_RAW + BLOCK_TICKING_CHUNK}"])
    (use assms in \<open>fastforce simp: simulation_offers_def ticket_ok_def\<close>, simp)

lemma least_le: "finite S \<Longrightarrow> x \<in> S \<Longrightarrow> \<exists>l. least S = Some l \<and> l \<le> x"
  by (auto simp: least_def)

definition load_reach :: "chunk_pos \<Rightarrow> chunk_pos \<times> chunk_ticket list \<Rightarrow> nat set" where
  "load_reach p src = (case iter_min (map load_level (snd src)) of
     None \<Rightarrow> {} | Some l \<Rightarrow> if cheb p (fst src) \<le> MAX_LEVEL_RAW - l then {l + cheb p (fst src)} else {})"

definition simulation_reach :: "chunk_pos \<Rightarrow> chunk_pos \<times> chunk_ticket list \<Rightarrow> nat set" where
  "simulation_reach p src = (case iter_min (List.map_filter simulation_level (snd src)) of
     None \<Rightarrow> {} | Some l \<Rightarrow> if cheb p (fst src) \<le> BLOCK_TICKING_CHUNK - l then {l + cheb p (fst src)} else {})"

lemma iter_min_in: "iter_min xs = Some l \<Longrightarrow> l \<in> set xs"
  unfolding iter_min_spec least_def by (metis List.finite_set Min_in option.distinct(1) option.inject)

lemma set_map_filter: "set (List.map_filter f xs) = {y. \<exists>x \<in> set xs. f x = Some y}"
  by (induction xs) (auto simp: map_filter_simps split: option.split)

lemma iter_min_least:
  assumes "x \<in> set xs"
  obtains l where "iter_min xs = Some l" "l \<le> x" "l \<in> set xs"
proof -
  from assms have "xs \<noteq> []" by auto
  then have "iter_min xs = Some (Min (set xs))" by (simp add: iter_min_spec least_def)
  moreover have "Min (set xs) \<le> x" using assms by simp
  moreover have "Min (set xs) \<in> set xs" using assms by (metis List.finite_set Min_in empty_iff)
  ultimately show ?thesis using that by blast
qed

lemma propagate_source_lookup:
  assumes src: "inland (fst src)" "snd src \<noteq> []" "\<forall>t \<in> set (snd src). ticket_ok t"
    and lv: "map_of levels p = least S" "finite S" and sm: "map_of sims p = least T" "finite T"
  shows "map_of (fst (propagate_source src (levels, sims))) p = least (S \<union> load_reach p src) \<and>
    map_of (snd (propagate_source src (levels, sims))) p = least (T \<union> simulation_reach p src)"
proof -
  obtain pos ts where s: "src = (pos, ts)" by (cases src)
  from src(2) have "hd ts \<in> set ts" by (simp add: s)
  then have "load_level (hd ts) \<in> set (map load_level ts)" by simp
  then obtain l where l: "iter_min (map load_level ts) = Some l" by (rule iter_min_least)
  then have lmax: "l \<le> MAX_LEVEL_RAW" using iter_min_in [OF l] src(3) by (auto simp: s ticket_ok_def)
  define levels1 where "levels1 = fold (propagate_cell l pos) (square (distance_to_max l)) levels"
  have "map_of levels1 p = least (S \<union> load_reach p src)"
    unfolding levels1_def propagate_cells_lookup [OF lv]
    using square_offers [of pos l "distance_to_max l" p] src(1) lmax l
    by (simp add: s load_reach_def distance_to_max_def)
  moreover have "map_of (snd (propagate_source src (levels, sims))) p = least (T \<union> simulation_reach p src)
     \<and> fst (propagate_source src (levels, sims)) = levels1"
  proof (cases "iter_min (List.map_filter simulation_level ts)")
    case None
    then show ?thesis using l sm by (simp add: propagate_source_def s simulation_reach_def levels1_def)
  next
    case (Some sl)
    then have slmax: "sl \<le> MAX_LEVEL_RAW"
      using iter_min_in [OF Some] src(3) by (auto simp: s ticket_ok_def set_map_filter)
    then have "sl + distance_to_block_ticking sl \<le> MAX_LEVEL_RAW" by (simp add: distance_to_block_ticking_def)
    from square_offers [OF _ this, of pos p] src(1) propagate_cells_lookup [OF sm, of sl pos]
    have "map_of (fold (propagate_cell sl pos) (square (distance_to_block_ticking sl)) sims) p = least (T \<union> simulation_reach p src)"
      using Some by (simp add: s simulation_reach_def distance_to_block_ticking_def)
    then show ?thesis using l Some by (simp add: propagate_source_def s levels1_def)
  qed
  ultimately show ?thesis by simp
qed

lemma reach_finite: "finite (load_reach p src)" "finite (simulation_reach p src)"
  by (simp_all add: load_reach_def simulation_reach_def split: option.split)

lemma propagate_all_lookup:
  assumes "\<forall>src \<in> set ss. inland (fst src) \<and> snd src \<noteq> [] \<and> (\<forall>t \<in> set (snd src). ticket_ok t)"
    and "map_of (fst st) p = least S" "finite S" "map_of (snd st) p = least T" "finite T"
  shows "map_of (fst (fold propagate_source ss st)) p = least (S \<union> (\<Union>src \<in> set ss. load_reach p src)) \<and>
    map_of (snd (fold propagate_source ss st)) p = least (T \<union> (\<Union>src \<in> set ss. simulation_reach p src))"
  using assms
proof (induction ss arbitrary: st S T)
  case Nil
  then show ?case by simp
next
  case (Cons src ss)
  obtain levels sims where st: "st = (levels, sims)" by (cases st)
  have "map_of (fst (propagate_source src st)) p = least (S \<union> load_reach p src) \<and>
    map_of (snd (propagate_source src st)) p = least (T \<union> simulation_reach p src)"
    unfolding st using Cons.prems st by (intro propagate_source_lookup) simp_all
  then show ?case
    using Cons.IH [of "propagate_source src st" "S \<union> load_reach p src" "T \<union> simulation_reach p src"] Cons.prems reach_finite
    by (simp add: Un_assoc)
qed

lemma propagate_all_distinct:
  "distinct (map fst (fst st)) \<and> distinct (map fst (snd st)) \<Longrightarrow>
   distinct (map fst (fst (fold propagate_source ss st))) \<and> distinct (map fst (snd (fold propagate_source ss st)))"
proof (induction ss arbitrary: st)
  case (Cons src ss)
  have "distinct (map fst (fst (propagate_source src st))) \<and> distinct (map fst (snd (propagate_source src st)))"
    using Cons.prems by (cases st; cases src)
      (auto simp: propagate_source_def Let_def propagate_cells_distinct split: option.split)
  with Cons.IH show ?case by simp
qed simp

lemma load_reach_spec:
  assumes "\<forall>src \<in> set ss. \<forall>t \<in> set (snd src). ticket_ok t"
  shows "least (\<Union>src \<in> set ss. load_reach p src) = load_spec ss p"
  unfolding load_spec_def
proof (rule least_dominated)
  let ?B = "load_offers ss p"
  show "finite ?B" by (rule load_offers_finite)
  show "(\<Union>src \<in> set ss. load_reach p src) \<subseteq> ?B"
  proof
    fix b
    assume "b \<in> (\<Union>src \<in> set ss. load_reach p src)"
    then obtain q ts l where l: "(q, ts) \<in> set ss" "iter_min (map load_level ts) = Some l" "cheb p q \<le> MAX_LEVEL_RAW - l" "b = l + cheb p q"
      by (auto simp: load_reach_def split: option.splits if_splits)
    from iter_min_in [OF l(2)] obtain t where t: "t \<in> set ts" "l = load_level t" by auto
    have "l \<le> MAX_LEVEL_RAW" using assms l(1) t by (auto simp: ticket_ok_def)
    with l(3) have "load_level t + cheb p q \<le> MAX_LEVEL_RAW" using t(2) by simp
    with l(1,4) t show "b \<in> ?B" unfolding load_offers_def by blast
  qed
  fix b
  assume "b \<in> ?B"
  then obtain q ts t where t: "(q, ts) \<in> set ss" "t \<in> set ts" "load_level t + cheb p q \<le> MAX_LEVEL_RAW" "b = load_level t + cheb p q"
    unfolding load_offers_def by blast
  obtain l where l: "iter_min (map load_level ts) = Some l" "l \<le> load_level t"
    using iter_min_least [of "load_level t" "map load_level ts"] t(2) by auto
  then have "l + cheb p q \<in> load_reach p (q, ts)" using t(3) by (simp add: load_reach_def)
  with t l show "\<exists>a \<in> (\<Union>src \<in> set ss. load_reach p src). a \<le> b" by (intro bexI [of _ "l + cheb p q"]) auto
qed

lemma simulation_reach_spec:
  assumes "\<forall>src \<in> set ss. \<forall>t \<in> set (snd src). ticket_ok t"
  shows "least (\<Union>src \<in> set ss. simulation_reach p src) = simulation_spec ss p"
  unfolding simulation_spec_def
proof (rule least_dominated)
  let ?B = "simulation_offers ss p"
  show "finite ?B" using assms by (rule simulation_offers_finite)
  show "(\<Union>src \<in> set ss. simulation_reach p src) \<subseteq> ?B"
  proof
    fix b
    assume "b \<in> (\<Union>src \<in> set ss. simulation_reach p src)"
    then obtain q ts l where l: "(q, ts) \<in> set ss" "iter_min (List.map_filter simulation_level ts) = Some l"
      "cheb p q \<le> BLOCK_TICKING_CHUNK - l" "b = l + cheb p q"
      by (auto simp: simulation_reach_def split: option.splits if_splits)
    from iter_min_in [OF l(2)] obtain t where "t \<in> set ts" "simulation_level t = Some l" by (auto simp: set_map_filter)
    with l show "b \<in> ?B" unfolding simulation_offers_def by blast
  qed
  fix b
  assume "b \<in> ?B"
  then obtain q ts t s where t: "(q, ts) \<in> set ss" "t \<in> set ts" "simulation_level t = Some s"
    "cheb p q \<le> BLOCK_TICKING_CHUNK - s" "b = s + cheb p q"
    unfolding simulation_offers_def by blast
  have "s \<in> set (List.map_filter simulation_level ts)" using t(2,3) by (auto simp: set_map_filter)
  then obtain l where l: "iter_min (List.map_filter simulation_level ts) = Some l" "l \<le> s" by (rule iter_min_least)
  then have "l + cheb p q \<in> simulation_reach p (q, ts)" using t(4) by (simp add: simulation_reach_def)
  with t l show "\<exists>a \<in> (\<Union>src \<in> set ss. simulation_reach p src). a \<le> b" by (intro bexI [of _ "l + cheb p q"]) auto
qed

section \<open>The manager's invariant\<close>

definition manager_ok :: "ticket_manager \<Rightarrow> bool" where
  "manager_ok m \<longleftrightarrow> sources_ok (tm_tickets m) \<and> (\<forall>src \<in> set (tm_tickets m). inland (fst src)) \<and>
     distinct (map fst (tm_levels m)) \<and> distinct (map fst (tm_simulation m)) \<and>
     (\<not> tm_dirty m \<longrightarrow> (\<forall>p. map_of (tm_levels m) p = load_spec (tm_tickets m) p \<and>
        map_of (tm_simulation m) p = simulation_spec (tm_tickets m) p))"

lemma propagate_all_spec:
  assumes "sources_ok ss" "\<forall>src \<in> set ss. inland (fst src)"
  shows "map_of (fst (fold propagate_source ss ([], []))) p = load_spec ss p"
    "map_of (snd (fold propagate_source ss ([], []))) p = simulation_spec ss p"
proof -
  have ok: "\<forall>src \<in> set ss. inland (fst src) \<and> snd src \<noteq> [] \<and> (\<forall>t \<in> set (snd src). ticket_ok t)"
    using assms by (auto simp: sources_ok_def)
  have none: "least {} = None" by (simp add: least_def)
  note all = propagate_all_lookup [OF ok, of "([], [])" p "{}" "{}"]
  show "map_of (fst (fold propagate_source ss ([], []))) p = load_spec ss p"
    "map_of (snd (fold propagate_source ss ([], []))) p = simulation_spec ss p"
    using all none load_reach_spec [of ss p] simulation_reach_spec [of ss p] ok by simp_all
qed

lemma run_all_updates_spec:
  assumes "manager_ok m"
  shows "get_level p (run_all_updates m) = load_spec (tm_tickets m) p \<and>
    get_simulation_level p (run_all_updates m) = simulation_spec (tm_tickets m) p \<and>
    \<not> tm_dirty (run_all_updates m) \<and> manager_ok (run_all_updates m)"
proof (cases "tm_dirty m")
  case False
  then show ?thesis
    using assms by (simp add: run_all_updates_def get_level_def get_simulation_level_def manager_ok_def)
next
  case True
  let ?f = "fold propagate_source (tm_tickets m) ([], [])"
  have ok: "sources_ok (tm_tickets m)" "\<forall>src \<in> set (tm_tickets m). inland (fst src)"
    using assms by (simp_all add: manager_ok_def)
  have run: "tm_levels (run_all_updates m) = fst ?f" "tm_simulation (run_all_updates m) = snd ?f"
    "tm_tickets (run_all_updates m) = tm_tickets m" "\<not> tm_dirty (run_all_updates m)"
    using True by (simp_all add: run_all_updates_def Let_def split_def)
  show ?thesis
    using propagate_all_spec [OF ok] propagate_all_distinct [of "([], [])" "tm_tickets m"] ok run
    by (simp add: get_level_def get_simulation_level_def manager_ok_def)
qed

text \<open>
  C7. After an update run the level of every position is the least that a ticket reaches it with,
  its load level plus the square distance as far as the weakest level, and likewise for simulation
  as far as blocks tick; this holds whatever the order of the hash map and however many tickets were
  added or removed since the last run, and the manager is consistent again.
\<close>

theorem run_all_updates_levels:
  assumes "manager_ok m"
  shows "get_level p (run_all_updates m) = load_spec (tm_tickets m) p \<and>
    get_simulation_level p (run_all_updates m) = simulation_spec (tm_tickets m) p \<and>
    \<not> tm_dirty (run_all_updates m) \<and> manager_ok (run_all_updates m)"
  using run_all_updates_spec [OF assms] .

definition sample_manager :: ticket_manager where
  "sample_manager = add_ticket (ChunkPos 0 0) (full_chunks 2) manager_new"

lemma sample_manager_ok: "manager_ok sample_manager"
  using add_ticket_sources(1) [of manager_new "full_chunks 2" "ChunkPos 0 0"] ticket_constructors_ok(2)
  by (simp add: sample_manager_def manager_ok_def manager_new_def add_ticket_def sources_ok_def)

lemma sample_manager_load: "load_spec (tm_tickets sample_manager) (ChunkPos 2 1) = Some 130"
proof -
  have ts: "tm_tickets sample_manager = [(ChunkPos 0 0, [full_chunks 2])]"
    by (simp add: sample_manager_def manager_new_def add_ticket_def)
  have "load_offers (tm_tickets sample_manager) (ChunkPos 2 1) = {130}"
    unfolding ts load_offers_def by (auto simp: full_chunks_def ticket_loading_def for_full_chunk_radius_def)
  then show ?thesis by (simp add: load_spec_def least_def)
qed

theorem run_all_updates_levels_witness:
  "get_level (ChunkPos 2 1) (run_all_updates sample_manager) = Some 130"
  using sample_manager_load run_all_updates_levels [OF sample_manager_ok] by simp

section \<open>The reported changes\<close>

lemma simulated_is_loaded:
  assumes "sources_ok ss" "simulation_spec ss p \<noteq> None"
  shows "load_spec ss p \<noteq> None"
proof -
  obtain q ts t s where t: "(q, ts) \<in> set ss" "t \<in> set ts" "simulation_level t = Some s" "cheb p q \<le> BLOCK_TICKING_CHUNK - s"
    using assms(2) by (auto simp: simulation_spec_def simulation_offers_def least_def split: if_splits)
  have "ticket_ok t" using assms(1) t(1,2) by (auto simp: sources_ok_def)
  then have "load_level t + cheb p q \<le> MAX_LEVEL_RAW" using t(3,4) by (auto simp: ticket_ok_def)
  with t(1,2) show ?thesis by (auto simp: load_spec_def load_offers_def least_def)
qed

lemma in_map_filter_alist:
  "distinct (map fst xs) \<Longrightarrow> c \<in> set (List.map_filter f xs) \<longleftrightarrow> (\<exists>p l. map_of xs p = Some l \<and> f (p, l) = Some c)"
  by (auto simp: set_map_filter)

lemma in_map_filter_keys:
  "c \<in> set (List.map_filter f (map fst xs)) \<longleftrightarrow> (\<exists>p. map_of xs p \<noteq> None \<and> f p = Some c)"
  by (auto simp: set_map_filter map_of_eq_None_iff image_iff)

lemma distinct_map_filter_key:
  assumes "distinct (map g xs)" and key: "\<And>x c. f x = Some c \<Longrightarrow> h c = g x"
  shows "distinct (map h (List.map_filter f xs))"
  using assms(1)
proof (induction xs)
  case (Cons x xs)
  have sub: "h ` set (List.map_filter f xs) \<subseteq> g ` set xs" using key by (auto simp: set_map_filter)
  show ?case
  proof (cases "f x")
    case None
    with Cons show ?thesis by (simp add: map_filter_simps)
  next
    case (Some d)
    have "h d \<notin> h ` set (List.map_filter f xs)" using key [OF Some] sub Cons.prems by auto
    with Some Cons show ?thesis by (simp add: map_filter_simps)
  qed
qed (simp add: map_filter_simps)

lemma changes_exact:
  assumes d: "distinct (map fst old)" "distinct (map fst old_sims)" "distinct (map fst levels)" "distinct (map fst sims)"
    and loaded: "\<And>p. map_of sims p \<noteq> None \<Longrightarrow> map_of levels p \<noteq> None"
  defines "cs \<equiv> level_changes old levels sims @ record_simulation_only_changes old old_sims levels sims"
  shows "c \<in> set cs \<longleftrightarrow> c = \<lparr>lc_pos = lc_pos c, lc_level = map_of levels (lc_pos c), lc_simulation = map_of sims (lc_pos c)\<rparr> \<and>
       (map_of levels (lc_pos c) \<noteq> map_of old (lc_pos c) \<or> map_of sims (lc_pos c) \<noteq> map_of old_sims (lc_pos c))"
    and "distinct (map lc_pos cs)"
proof -
  let ?A = "List.map_filter (\<lambda>(pos, l). if map_of old pos = Some l then None
         else Some \<lparr>lc_pos = pos, lc_level = Some l, lc_simulation = map_of sims pos\<rparr>) levels"
  let ?B = "List.map_filter (\<lambda>pos. if map_of levels pos = None
         then Some \<lparr>lc_pos = pos, lc_level = None, lc_simulation = None\<rparr> else None) (map fst old)"
  let ?C = "List.map_filter (\<lambda>(pos, l). if map_of old pos \<noteq> map_of levels pos then None
         else if map_of old_sims pos = Some l then None
         else Some \<lparr>lc_pos = pos, lc_level = map_of levels pos, lc_simulation = Some l\<rparr>) sims"
  let ?D = "List.map_filter (\<lambda>pos. if map_of old pos \<noteq> map_of levels pos \<or> map_of sims pos \<noteq> None then None
         else Some \<lparr>lc_pos = pos, lc_level = map_of levels pos, lc_simulation = None\<rparr>) (map fst old_sims)"
  let ?new = "\<lambda>p. \<lparr>lc_pos = p, lc_level = map_of levels p, lc_simulation = map_of sims p\<rparr>"
  have unloaded: "map_of levels p = None \<Longrightarrow> map_of sims p = None" for p using loaded by blast
  have A: "c \<in> set ?A \<longleftrightarrow> c = ?new (lc_pos c) \<and> map_of levels (lc_pos c) \<noteq> None \<and> map_of levels (lc_pos c) \<noteq> map_of old (lc_pos c)" for c
    unfolding in_map_filter_alist [OF d(3)] by (cases c) (auto split: if_splits; metis)
  have B: "c \<in> set ?B \<longleftrightarrow> c = ?new (lc_pos c) \<and> map_of levels (lc_pos c) = None \<and> map_of old (lc_pos c) \<noteq> None" for c
    unfolding in_map_filter_keys by (cases c) (auto simp: unloaded split: if_splits)
  have C: "c \<in> set ?C \<longleftrightarrow> c = ?new (lc_pos c) \<and> map_of levels (lc_pos c) = map_of old (lc_pos c) \<and>
      map_of sims (lc_pos c) \<noteq> None \<and> map_of sims (lc_pos c) \<noteq> map_of old_sims (lc_pos c)" for c
    unfolding in_map_filter_alist [OF d(4)] by (cases c) (auto split: if_splits; metis)
  have D: "c \<in> set ?D \<longleftrightarrow> c = ?new (lc_pos c) \<and> map_of levels (lc_pos c) = map_of old (lc_pos c) \<and>
      map_of sims (lc_pos c) = None \<and> map_of old_sims (lc_pos c) \<noteq> None" for c
    unfolding in_map_filter_keys by (cases c) (auto split: if_splits; metis)
  have cs: "cs = (?A @ ?B) @ ?C @ ?D" by (simp add: cs_def level_changes_def record_simulation_only_changes_def)
  show "c \<in> set cs \<longleftrightarrow> c = ?new (lc_pos c) \<and>
       (map_of levels (lc_pos c) \<noteq> map_of old (lc_pos c) \<or> map_of sims (lc_pos c) \<noteq> map_of old_sims (lc_pos c))"
    unfolding cs set_append Un_iff A B C D by (metis (no_types, lifting))
  have "distinct (map lc_pos ?A)" by (rule distinct_map_filter_key [where g = fst]) (use d(3) in \<open>auto split: if_splits\<close>)
  moreover have "distinct (map lc_pos ?B)" by (rule distinct_map_filter_key [where g = id]) (use d(1) in \<open>auto split: if_splits\<close>)
  moreover have "distinct (map lc_pos ?C)" by (rule distinct_map_filter_key [where g = fst]) (use d(4) in \<open>auto split: if_splits\<close>)
  moreover have "distinct (map lc_pos ?D)" by (rule distinct_map_filter_key [where g = id]) (use d(2) in \<open>auto split: if_splits\<close>)
  moreover have "lc_pos ` set ?A \<inter> lc_pos ` set ?B = {}" "lc_pos ` set ?C \<inter> lc_pos ` set ?D = {}"
    "lc_pos ` set (?A @ ?B) \<inter> lc_pos ` set (?C @ ?D) = {}"
    using A B C D by (auto 0 3)
  ultimately show "distinct (map lc_pos cs)"
    unfolding cs map_append distinct_append set_map set_append image_Un by (intro conjI) assumption+
qed

text \<open>
  An update run reports exactly the positions whose load or simulation level it changed, each
  once and with the new values of both; a run with nothing to do reports nothing.
\<close>

theorem run_all_updates_changes:
  assumes "manager_ok m"
  defines "m' \<equiv> run_all_updates m"
  shows "distinct (map lc_pos (tm_changes m')) \<and>
    (\<forall>p l s. \<lparr>lc_pos = p, lc_level = l, lc_simulation = s\<rparr> \<in> set (tm_changes m') \<longleftrightarrow>
       l = get_level p m' \<and> s = get_simulation_level p m' \<and>
       (get_level p m' \<noteq> get_level p m \<or> get_simulation_level p m' \<noteq> get_simulation_level p m))"
proof (cases "tm_dirty m")
  case False
  then show ?thesis by (simp add: m'_def run_all_updates_def get_level_def get_simulation_level_def)
next
  case True
  let ?f = "fold propagate_source (tm_tickets m) ([], [])"
  have ok: "sources_ok (tm_tickets m)" "\<forall>src \<in> set (tm_tickets m). inland (fst src)"
    "distinct (map fst (tm_levels m))" "distinct (map fst (tm_simulation m))"
    using assms(1) by (simp_all add: manager_ok_def)
  have run: "tm_levels m' = fst ?f" "tm_simulation m' = snd ?f"
    "tm_changes m' = level_changes (tm_levels m) (fst ?f) (snd ?f) @
       record_simulation_only_changes (tm_levels m) (tm_simulation m) (fst ?f) (snd ?f)"
    using True by (simp_all add: m'_def run_all_updates_def Let_def split_def)
  have d: "distinct (map fst (fst ?f))" "distinct (map fst (snd ?f))"
    using propagate_all_distinct [of "([], [])" "tm_tickets m"] by simp_all
  have loaded: "map_of (fst ?f) p \<noteq> None" if "map_of (snd ?f) p \<noteq> None" for p
    using simulated_is_loaded [OF ok(1)] that propagate_all_spec [OF ok(1,2)] by metis
  note exact = changes_exact [OF ok(3,4) d loaded, folded run(3)]
  show ?thesis
    using exact(2) exact(1) [where c = "\<lparr>lc_pos = _, lc_level = _, lc_simulation = _\<rparr>"]
    by (simp add: get_level_def get_simulation_level_def run(1,2))
qed

theorem run_all_updates_changes_witness:
  "\<lparr>lc_pos = ChunkPos 2 1, lc_level = Some 130, lc_simulation = None\<rparr> \<in> set (tm_changes (run_all_updates sample_manager))"
proof -
  have ts: "tm_tickets sample_manager = [(ChunkPos 0 0, [full_chunks 2])]"
    by (simp add: sample_manager_def manager_new_def add_ticket_def)
  have ok: "sources_ok (tm_tickets sample_manager)" "\<forall>src \<in> set (tm_tickets sample_manager). inland (fst src)"
    using sample_manager_ok by (simp_all add: manager_ok_def)
  have dirty: "tm_dirty sample_manager" by (simp add: sample_manager_def add_ticket_def)
  have "simulation_spec (tm_tickets sample_manager) (ChunkPos 2 1) = None"
    unfolding simulation_spec_def simulation_offers_def ts by (simp add: least_def full_chunks_def ticket_loading_def)
  with sample_manager_load have "get_level (ChunkPos 2 1) (run_all_updates sample_manager) = Some 130"
    "get_simulation_level (ChunkPos 2 1) (run_all_updates sample_manager) = None"
    using propagate_all_spec [OF ok] dirty
    by (simp_all add: run_all_updates_def get_level_def get_simulation_level_def Let_def split_def)
  moreover have "get_level (ChunkPos 2 1) sample_manager = None"
    by (simp add: get_level_def sample_manager_def manager_new_def add_ticket_def)
  ultimately show ?thesis using run_all_updates_changes [OF sample_manager_ok] by simp
qed

lemma player_levels:
  "load_level (ticket_player v r) = 128 - v" "simulation_level (ticket_player v r) = Some (128 - min v r)"
  by (simp_all add: ticket_player_def for_entity_ticking_radius_def min_def Let_def)

lemma tickets_at_source:
  assumes "t \<in> set (tickets_at q m)"
  shows "\<exists>ts. (q, ts) \<in> set (tm_tickets m) \<and> t \<in> set ts"
  using assms by (cases "map_of (tm_tickets m) q") (auto simp: tickets_at_def dest: map_of_SomeD)

lemma player_load_reach:
  assumes "manager_ok m" and "ticket_player v r \<in> set (tickets_at q m)" and "v \<le> MAX_SUPPORTED_VIEW_DISTANCE"
    and "cheb p q \<le> v + d" and "d \<le> 2"
  shows "\<exists>l. get_level p (run_all_updates m) = Some l \<and> l \<le> 128 + d"
proof -
  from tickets_at_source [OF assms(2)] obtain ts where ts: "(q, ts) \<in> set (tm_tickets m)" "ticket_player v r \<in> set ts" by blast
  have "load_level (ticket_player v r) + cheb p q \<le> MAX_LEVEL_RAW"
    using assms(3,4,5) by (simp add: player_levels MAX_SUPPORTED_VIEW_DISTANCE_def)
  then have "load_level (ticket_player v r) + cheb p q \<in> load_offers (tm_tickets m) p" using ts unfolding load_offers_def by blast
  from least_le [OF load_offers_finite this] obtain l where "load_spec (tm_tickets m) p = Some l" "l \<le> 128 - v + cheb p q"
    unfolding load_spec_def player_levels by blast
  moreover have "128 - v + cheb p q \<le> 128 + d" using assms(3,4) unfolding MAX_SUPPORTED_VIEW_DISTANCE_def by linarith
  ultimately show ?thesis using run_all_updates_spec [OF assms(1)] by auto
qed

lemma player_simulation_reach:
  assumes "manager_ok m" and "ticket_player v r \<in> set (tickets_at q m)" and "v \<le> MAX_SUPPORTED_VIEW_DISTANCE"
    and "cheb p q \<le> min v r"
  shows "\<exists>l. get_simulation_level p (run_all_updates m) = Some l \<and> l \<le> 128"
proof -
  from tickets_at_source [OF assms(2)] obtain ts where ts: "(q, ts) \<in> set (tm_tickets m)" "ticket_player v r \<in> set ts" by blast
  have "cheb p q \<le> BLOCK_TICKING_CHUNK - (128 - min v r)"
    using assms(3,4) unfolding MAX_SUPPORTED_VIEW_DISTANCE_def level_values by linarith
  then have in_B: "128 - min v r + cheb p q \<in> simulation_offers (tm_tickets m) p"
    using ts player_levels(2) [of v r] unfolding simulation_offers_def by blast
  have "\<forall>src \<in> set (tm_tickets m). \<forall>t \<in> set (snd src). ticket_ok t"
    using assms(1) by (auto simp: manager_ok_def sources_ok_def)
  from least_le [OF simulation_offers_finite [OF this] in_B]
  obtain l where "simulation_spec (tm_tickets m) p = Some l" "l \<le> 128 - min v r + cheb p q"
    unfolding simulation_spec_def by blast
  moreover have "128 - min v r + cheb p q \<le> 128"
    using assms(3,4) unfolding MAX_SUPPORTED_VIEW_DISTANCE_def by linarith
  ultimately show ?thesis using run_all_updates_spec [OF assms(1)] by auto
qed

lemmas level_reads = full_status_def level_full_status_def is_or_after_def generation_status_def level_is_full_def
  is_entity_ticking_def level_is_entity_ticking_def

text \<open>
  C16. A player's ticket loads what the client can see and one moat around it: while a player ticket
  of some view distance is held at a position, every chunk within the view distance is full and may
  tick entities, every chunk one farther may tick blocks and every chunk two farther is full, and
  chunks within the simulation radius (capped by the view distance) tick entities.
\<close>

theorem player_ticket_reach:
  assumes "manager_ok m" and "ticket_player v r \<in> set (tickets_at q m)" and "v \<le> MAX_SUPPORTED_VIEW_DISTANCE"
  shows "(cheb p q \<le> v \<longrightarrow> full_status (get_level p (run_all_updates m)) = FEntityTicking) \<and>
    (cheb p q \<le> v + 1 \<longrightarrow> is_or_after (full_status (get_level p (run_all_updates m))) FBlockTicking) \<and>
    (cheb p q \<le> v + 2 \<longrightarrow> is_or_after (full_status (get_level p (run_all_updates m))) FFull \<and>
       generation_status (get_level p (run_all_updates m)) = Some Full) \<and>
    (cheb p q \<le> min v r \<longrightarrow> is_entity_ticking (get_simulation_level p (run_all_updates m)))"
proof (intro conjI impI)
  note reach = player_load_reach [OF assms, of p]
  show "full_status (get_level p (run_all_updates m)) = FEntityTicking" if "cheb p q \<le> v"
    using reach [of 0] that by (auto simp: level_reads)
  show "is_or_after (full_status (get_level p (run_all_updates m))) FBlockTicking" if "cheb p q \<le> v + 1"
    using reach [of 1] that by (auto simp: level_reads)
  show "is_or_after (full_status (get_level p (run_all_updates m))) FFull" "generation_status (get_level p (run_all_updates m)) = Some Full"
    if "cheb p q \<le> v + 2"
    using reach [of 2] that by (auto simp: level_reads)
  show "is_entity_ticking (get_simulation_level p (run_all_updates m))" if "cheb p q \<le> min v r"
    using player_simulation_reach [OF assms that] by (auto simp: level_reads)
qed

theorem player_ticket_reach_witness:
  "full_status (get_level (ChunkPos 12 3) (run_all_updates (add_ticket (ChunkPos 2 3) (ticket_player 10 8) manager_new))) = FEntityTicking"
proof -
  let ?m = "add_ticket (ChunkPos 2 3) (ticket_player 10 8) manager_new"
  have "manager_ok ?m"
    using add_ticket_sources(1) [of manager_new "ticket_player 10 8" "ChunkPos 2 3"] ticket_constructors_ok(5)
    by (simp add: manager_ok_def manager_new_def add_ticket_def sources_ok_def)
  moreover have "ticket_player 10 8 \<in> set (tickets_at (ChunkPos 2 3) ?m)"
    by (simp add: tickets_at_def add_ticket_def manager_new_def)
  ultimately show ?thesis
    using player_ticket_reach [of ?m 10 8 "ChunkPos 2 3" "ChunkPos 12 3"] by (simp add: MAX_SUPPORTED_VIEW_DISTANCE_def)
qed

end
