(* ===== verification/Var_Int.thy ===== *)
theory Var_Int
  imports Steel_Prelude
begin

text \<open>
  The variable-length integers of the wire protocol
  (\<open>steel-utils/src/codec/variable_integer.rs\<close>). An \<open>i32\<close>, \<open>u32\<close> or \<open>i64\<close> is a word of its width,
  a byte an 8-bit word, a cursor over a slice the bytes not yet read. The three formats are the
  same loops at different widths; writing to a growing buffer cannot fail.
\<close>

type_synonym byte = "8 word"

datatype io_error =
    UnexpectedEof | VarTooLong | InvalidPrefix | PrefixTooLong | WriteTooLong | NotUtf8
  | InvalidData | InvalidInput | InvalidNamespace | InvalidPath

text \<open>The counted loop of the readers: at most \<open>n\<close> more bytes, the next one at position \<open>i\<close>.\<close>

fun var_read_from :: "nat \<Rightarrow> nat \<Rightarrow> 'a::len word \<Rightarrow> byte list \<Rightarrow> io_error + 'a word \<times> byte list" where
  "var_read_from 0 i val bs = Inl VarTooLong"
| "var_read_from (Suc n) i val [] = Inl UnexpectedEof"
| "var_read_from (Suc n) i val (b # bs) =
     (let val' = val OR push_bit (i * 7) (ucast b AND 0x7F)
      in if b AND 0x80 = 0 then Inr (val', bs) else var_read_from n (Suc i) val' bs)"

lemma unat_drop_bit_7: "unat (drop_bit 7 (v :: 'a::len word)) = unat v div 128"
  unfolding unat_drop_bit_eq by (simp add: drop_bit_eq_div)

lemma unat_drop_7:
  assumes "drop_bit 7 v \<noteq> 0"
  shows "unat (drop_bit 7 v) < unat (v :: 'a::len word)"
proof -
  have "v \<noteq> 0" using assms by auto
  then have "0 < unat v" by (metis unat_gt_0)
  then show ?thesis unfolding unat_drop_bit_7 by simp
qed

function var_write :: "'a::len word \<Rightarrow> byte list" where
  "var_write val =
     (let b = ucast val AND 0x7F; val' = drop_bit 7 val
      in if val' = 0 then [b] else (b OR 0x80) # var_write val')"
  by pat_completeness auto
termination
  by (relation "measure unat") (simp, simp only: in_measure unat_drop_7 not_False_eq_True)

declare var_write.simps [simp del]

fun bit_len :: "nat \<Rightarrow> nat" where
  "bit_len n = (if n = 0 then 0 else Suc (bit_len (n div 2)))"

declare bit_len.simps [simp del]

definition leading_zeros :: "32 word \<Rightarrow> nat" where
  "leading_zeros w = 32 - bit_len (unat w)"

section \<open>VarInt\<close>

definition VarInt_MAX_SIZE :: nat where
  "VarInt_MAX_SIZE = 5"

definition varint_written_size :: "32 word \<Rightarrow> nat" where
  "varint_written_size val = (if val = 0 then 1 else (31 - leading_zeros val) div 7 + 1)"

definition varint_read :: "byte list \<Rightarrow> io_error + 32 word \<times> byte list" where
  "varint_read bs = var_read_from VarInt_MAX_SIZE 0 0 bs"

definition varint_write :: "32 word \<Rightarrow> byte list" where
  "varint_write val = var_write val"

section \<open>VarLong\<close>

definition VarLong_MAX_SIZE :: nat where
  "VarLong_MAX_SIZE = 10"

definition varlong_read :: "byte list \<Rightarrow> io_error + 64 word \<times> byte list" where
  "varlong_read bs = var_read_from VarLong_MAX_SIZE 0 0 bs"

definition varlong_write :: "64 word \<Rightarrow> byte list" where
  "varlong_write val = var_write val"

section \<open>VarUint\<close>

definition VarUint_MAX_SIZE :: nat where
  "VarUint_MAX_SIZE = 5"

definition varuint_written_size :: "32 word \<Rightarrow> nat" where
  "varuint_written_size val = (max (32 - leading_zeros val) 1 + 6) div 7"

function varuint_write :: "32 word \<Rightarrow> byte list" where
  "varuint_write val =
     (let b = ucast (val AND 0x7F); val' = drop_bit 7 val; b' = (if val' \<noteq> 0 then b OR 0x80 else b)
      in b' # (if val' = 0 then [] else varuint_write val'))"
  by pat_completeness auto
termination
  by (relation "measure unat") (simp, simp only: in_measure unat_drop_7 not_False_eq_True)

declare varuint_write.simps [simp del]

definition varuint_read :: "byte list \<Rightarrow> io_error + 32 word \<times> byte list" where
  "varuint_read bs = var_read_from VarUint_MAX_SIZE 0 0 bs"

section \<open>Reading back what was written\<close>

lemma and_7F: "x AND 0x7F = take_bit 7 (x :: 'a::len word)"
  by (simp add: take_bit_eq_mask mask_eq_exp_minus_1)

lemma bit_80: "bit (0x80 :: byte) n \<longleftrightarrow> n = 7"
proof -
  have "(0x80 :: byte) = push_bit 7 1" by simp
  then show ?thesis by (simp only: bit_push_bit_iff) (auto simp: bit_1_iff)
qed

lemma continuation_bit:
  "(b AND 0x7F) AND (0x80 :: byte) = 0" "((b AND 0x7F) OR 0x80) AND (0x80 :: byte) \<noteq> 0"
proof -
  show "(b AND 0x7F) AND (0x80 :: byte) = 0"
    by (rule bit_eqI, unfold and_7F bit_and_iff bit_take_bit_iff bit_80) auto
  have "bit (((b AND 0x7F) OR 0x80) AND (0x80 :: byte)) 7"
    unfolding bit_and_iff bit_or_iff bit_80 by simp
  then show "((b AND 0x7F) OR 0x80) AND (0x80 :: byte) \<noteq> 0" by force
qed

text \<open>The seven bits of a group, put back at their place, complete the rest of the value.\<close>

lemma bit_group:
  fixes v :: "'a::len word"
  assumes "g = ucast v AND (0x7F :: byte) \<or> g = (ucast v AND 0x7F) OR (0x80 :: byte)" and "k < 7"
  shows "bit g k \<longleftrightarrow> bit v k"
  using assms(1)
proof
  assume "g = ucast v AND 0x7F"
  then show ?thesis using assms(2) by (simp only: and_7F bit_take_bit_iff bit_ucast_iff) simp
next
  assume "g = (ucast v AND 0x7F) OR 0x80"
  then show ?thesis using assms(2) by (simp only: and_7F bit_or_iff bit_80 bit_take_bit_iff bit_ucast_iff) simp
qed

lemma group_value:
  fixes v :: "'a::len word"
  assumes g: "g = ucast v AND (0x7F :: byte) \<or> g = (ucast v AND 0x7F) OR (0x80 :: byte)"
  shows "push_bit (i * 7) (ucast g AND 0x7F) OR push_bit (Suc i * 7) (drop_bit 7 v) = push_bit (i * 7) v"
proof (rule bit_word_eqI)
  fix n
  assume n: "n < LENGTH('a)"
  have "bit (push_bit (i * 7) (take_bit 7 (ucast g)) OR push_bit (Suc i * 7) (drop_bit 7 v)) (i * 7 + k)
      \<longleftrightarrow> bit (push_bit (i * 7) v) (i * 7 + k)" if "i * 7 + k < LENGTH('a)" for k
    using that bit_group [OF g, of k]
    unfolding bit_or_iff bit_push_bit_iff bit_take_bit_iff bit_drop_bit_eq bit_ucast_iff o_def by (cases "k < 7") auto
  moreover have "n = i * 7 + (n - i * 7)" if "i * 7 \<le> n" using that by simp
  moreover have "\<not> bit (push_bit (i * 7) (take_bit 7 (ucast g)) OR push_bit (Suc i * 7) (drop_bit 7 v)) n"
    "\<not> bit (push_bit (i * 7) v) n" if "\<not> i * 7 \<le> n"
    using that unfolding bit_or_iff bit_push_bit_iff by auto
  ultimately show "bit (push_bit (i * 7) (ucast g AND 0x7F) OR push_bit (Suc i * 7) (drop_bit 7 v)) n
      \<longleftrightarrow> bit (push_bit (i * 7) v) n"
    unfolding and_7F using n by metis
qed

lemma var_read_write:
  fixes v acc :: "'a::len word"
  shows "length (var_write v) \<le> n \<Longrightarrow>
    var_read_from n i acc (var_write v @ rest) = Inr (acc OR push_bit (i * 7) v, rest)"
proof (induction v arbitrary: n i acc rule: var_write.induct)
  case (1 v)
  let ?b = "ucast v AND (0x7F :: byte)"
  show ?case
  proof (cases "drop_bit 7 v = 0")
    case True
    then have w: "var_write v = [?b]" by (simp add: var_write.simps [of v])
    with "1.prems" obtain n' where n: "n = Suc n'" by (cases n) auto
    have "push_bit (i * 7) (ucast ?b AND 0x7F) = push_bit (i * 7) v"
      using group_value [of ?b v i] True by simp
    with w n continuation_bit(1) [of "ucast v"] show ?thesis by (simp add: Let_def)
  next
    case False
    then have w: "var_write v = (?b OR 0x80) # var_write (drop_bit 7 v)" by (simp add: var_write.simps [of v] Let_def)
    with "1.prems" obtain n' where n: "n = Suc n'" "length (var_write (drop_bit 7 v)) \<le> n'" by (cases n) auto
    let ?acc = "acc OR push_bit (i * 7) (ucast (?b OR 0x80) AND 0x7F)"
    have "var_read_from n i acc (var_write v @ rest) = var_read_from n' (Suc i) ?acc (var_write (drop_bit 7 v) @ rest)"
      using w n(1) continuation_bit(2) [of "ucast v"] by (simp add: Let_def)
    also have "\<dots> = Inr (?acc OR push_bit (Suc i * 7) (drop_bit 7 v), rest)"
      by (rule "1.IH" [OF refl refl False n(2)])
    also have "?acc OR push_bit (Suc i * 7) (drop_bit 7 v) = acc OR push_bit (i * 7) v"
      using group_value [of "?b OR 0x80" v i] by (simp add: or.assoc)
    finally show ?thesis .
  qed
qed

section \<open>Lengths\<close>

lemma bit_len_mono_step: "bit_len n = (if n < 128 then bit_len n else 7 + bit_len (n div 128))"
proof (cases "n < 128")
  case False
  have step: "bit_len m = Suc (bit_len (m div 2))" if "0 < m" for m using that by (subst bit_len.simps) simp
  have "bit_len n = 7 + bit_len (n div 2 div 2 div 2 div 2 div 2 div 2 div 2)"
    using False by (simp add: step)
  then show ?thesis using False by (simp add: div_mult2_eq [symmetric])
qed simp

lemma bit_len_pos: "0 < n \<Longrightarrow> 0 < bit_len n"
  by (subst bit_len.simps) simp

lemma bit_len_bound: "n < 2 ^ k \<Longrightarrow> bit_len n \<le> k"
proof (induction k arbitrary: n)
  case (Suc k)
  then have "n div 2 < 2 ^ k" by (simp add: less_mult_imp_div_less mult.commute)
  with Suc.IH show ?case by (subst bit_len.simps) simp
qed (simp add: bit_len.simps)

lemma length_var_write: "length (var_write v) = (max (bit_len (unat v)) 1 + 6) div 7"
proof (induction v rule: var_write.induct)
  case (1 v)
  note un = unat_drop_bit_7 [of v]
  have zero: "drop_bit 7 v = 0 \<longleftrightarrow> unat v < 128"
    by (metis un unat_eq_zero div_eq_0_iff zero_neq_numeral unat_0)
  show ?case
  proof (cases "unat v < 128")
    case True
    then have "bit_len (unat v) \<le> 7" by (intro bit_len_bound) simp
    then have "(max (bit_len (unat v)) 1 + 6) div 7 = 1" by (auto simp: max_def)
    with True zero show ?thesis by (simp add: var_write.simps [of v] Let_def)
  next
    case False
    then have pos: "0 < bit_len (unat v div 128)" by (intro bit_len_pos) simp
    have "length (var_write v) = Suc ((max (bit_len (unat v div 128)) 1 + 6) div 7)"
      using False zero "1.IH" [OF refl refl] un by (subst var_write.simps) (simp add: Let_def)
    also have "\<dots> = (max (bit_len (unat v)) 1 + 6) div 7"
    proof -
      have "max (bit_len (unat v)) 1 + 6 = (max (bit_len (unat v div 128)) 1 + 6) + 7"
        using bit_len_mono_step [of "unat v"] False pos by auto
      then show ?thesis by simp
    qed
    finally show ?thesis .
  qed
qed

lemma bit_len_word: "bit_len (unat (v :: 'a::len word)) \<le> LENGTH('a)"
  by (rule bit_len_bound) simp

lemma varuint_write_eq: "varuint_write v = var_write v"
proof (induction v rule: var_write.induct)
  case (1 v)
  have "(ucast (v AND 0x7F) :: byte) = ucast v AND 0x7F"
    unfolding and_7F by (rule bit_eqI) (auto simp: bit_ucast_iff bit_take_bit_iff)
  then show ?case
    using "1.IH" by (simp add: varuint_write.simps [of v] var_write.simps [of v] Let_def)
qed

lemma varint_written_size_eq: "varint_written_size v = length (varint_write v)"
proof (cases "v = 0")
  case True
  then show ?thesis by (simp add: varint_written_size_def varint_write_def var_write.simps [of 0])
next
  case False
  then have "0 < bit_len (unat v)" by (intro bit_len_pos) (simp add: unat_gt_0)
  moreover have "bit_len (unat v) \<le> 32" using bit_len_word [of v] by simp
  moreover have "(31 - (32 - b)) div 7 + 1 = (b + 6) div 7" if "0 < b" "b \<le> 32" for b :: nat
  proof -
    have "b + 6 = (31 - (32 - b)) + 7" using that by arith
    then show ?thesis by simp
  qed
  ultimately show ?thesis using False
    by (auto simp: varint_written_size_def leading_zeros_def varint_write_def length_var_write max_def)
qed

lemma varuint_written_size_eq: "varuint_written_size v = length (varuint_write v)"
proof -
  have "bit_len (unat v) \<le> 32" using bit_len_word [of v] by simp
  then show ?thesis
    by (simp add: varuint_written_size_def leading_zeros_def varuint_write_eq length_var_write)
qed

lemma length_var_write_le:
  assumes "LENGTH('a) \<le> 7 * n" and "0 < n"
  shows "length (var_write (v :: 'a::len word)) \<le> n"
proof -
  have "max (bit_len (unat v)) 1 + 6 < 7 * n + 7" using bit_len_word [of v] assms by (simp add: max_def)
  then have "(max (bit_len (unat v)) 1 + 6) div 7 < n + 1" by (intro less_mult_imp_div_less) simp
  then show ?thesis by (simp add: length_var_write)
qed

lemma length_var_write_pos: "0 < length (var_write v)"
  by (subst var_write.simps) (simp add: Let_def)

lemma varint_write_len: "length (varint_write v) \<le> 5" "0 < length (varint_write v)"
  using length_var_write_le [of 5 v] length_var_write_pos [of v] by (simp_all add: varint_write_def)

lemma varint_written_size_bounds: "0 < varint_written_size v" "varint_written_size v \<le> 5"
  using varint_write_len [of v] by (simp_all add: varint_written_size_eq)

lemma varint_read_write: "varint_read (varint_write v @ rest) = Inr (v, rest)"
  using var_read_write [OF length_var_write_le [of 5 v], of 0 0 rest]
  by (simp add: varint_read_def varint_write_def VarInt_MAX_SIZE_def)

section \<open>What a successful read consumed\<close>

lemma var_read_from_consumes:
  fixes acc v :: "'a::len word"
  assumes "var_read_from n i acc bs = Inr (v, rest)" and "take_bit (7 * i) acc = acc"
  shows "\<exists>used. bs = used @ rest \<and> 0 < length used \<and> length used \<le> n
    \<and> take_bit (7 * (i + length used)) v = v"
  using assms
proof (induction n i acc bs rule: var_read_from.induct)
  case (3 n i acc b bs)
  let ?acc = "acc OR push_bit (i * 7) (ucast b AND 0x7F)"
  have "take_bit (7 * Suc i) acc = acc"
    using "3.prems"(2) by (metis le_add1 min.absorb2 mult_Suc_right add.commute take_bit_take_bit)
  moreover have "take_bit (7 * Suc i) (push_bit (i * 7) (take_bit 7 (ucast b) :: 'a word)) = push_bit (i * 7) (take_bit 7 (ucast b))"
    by (simp add: take_bit_push_bit)
  ultimately have acc: "take_bit (7 * Suc i) ?acc = ?acc" by (simp only: take_bit_or and_7F)
  show ?case
  proof (cases "b AND 0x80 = 0")
    case True
    with "3.prems" acc show ?thesis by (intro exI [of _ "[b]"]) (simp add: Let_def)
  next
    case False
    with "3.prems"(1) have "var_read_from n (Suc i) ?acc bs = Inr (v, rest)" by (simp add: Let_def)
    from "3.IH" [OF refl False this acc] obtain used where
      "bs = used @ rest" "length used \<le> n" "take_bit (7 * (Suc i + length used)) v = v" by blast
    then show ?thesis by (intro exI [of _ "b # used"]) simp
  qed
qed simp_all

lemma unat_take_bit: "unat (take_bit n (w :: 'a::len word)) = take_bit n (unat w)"
  by transfer (simp add: take_bit_nat_eq take_bit_take_bit min.commute)

lemma written_size_minimal:
  assumes "take_bit (7 * k) v = (v :: 'a::len word)" and "0 < k"
  shows "length (var_write v) \<le> k"
proof -
  have "unat v = unat (take_bit (7 * k) v)" using assms(1) by simp
  also have "\<dots> = take_bit (7 * k) (unat v)" by (rule unat_take_bit)
  also have "\<dots> < 2 ^ (7 * k)" by simp
  finally have "bit_len (unat v) \<le> 7 * k" by (rule bit_len_bound)
  then have "max (bit_len (unat v)) 1 + 6 < 7 * k + 7" using assms(2) by (simp add: max_def)
  then have "(max (bit_len (unat v)) 1 + 6) div 7 < k + 1" by (intro less_mult_imp_div_less) simp
  then show ?thesis by (simp add: length_var_write)
qed

lemma varint_read_consumes:
  assumes "varint_read bs = Inr (v, rest)"
  shows "\<exists>used. bs = used @ rest \<and> varint_written_size v \<le> length used \<and> length used \<le> 5"
proof -
  from var_read_from_consumes [OF assms [unfolded varint_read_def]]
  obtain used where "bs = used @ rest" "0 < length used" "length used \<le> 5" "take_bit (7 * length used) v = v"
    by (auto simp: VarInt_MAX_SIZE_def)
  with written_size_minimal [of "length used" v] show ?thesis
    by (auto simp: varint_written_size_eq varint_write_def)
qed

lemma var_read_from_error:
  "var_read_from n i acc bs = Inl e \<longleftrightarrow>
    (\<forall>b\<in>set (take n bs). b AND 0x80 \<noteq> 0) \<and> e = (if n \<le> length bs then VarTooLong else UnexpectedEof)"
  by (induction n i acc bs rule: var_read_from.induct) (auto simp: Let_def)

section \<open>Properties\<close>

text \<open>
  Every value of the three formats is read back from what its writer produced, whatever
  bytes follow, and the reader stops exactly behind it.
\<close>
theorem var_roundtrip:
  "varint_read (varint_write v @ rest) = Inr (v, rest) \<and>
   varlong_read (varlong_write w @ rest) = Inr (w, rest) \<and>
   varuint_read (varuint_write u @ rest) = Inr (u, rest)"
proof (intro conjI)
  show "varint_read (varint_write v @ rest) = Inr (v, rest)" by (rule varint_read_write)
  show "varlong_read (varlong_write w @ rest) = Inr (w, rest)"
    using var_read_write [OF length_var_write_le [of 10 w], of 0 0 rest]
    by (simp add: varlong_read_def varlong_write_def VarLong_MAX_SIZE_def)
  show "varuint_read (varuint_write u @ rest) = Inr (u, rest)"
    using var_read_write [OF length_var_write_le [of 5 u], of 0 0 rest]
    by (simp add: varuint_read_def varuint_write_eq VarUint_MAX_SIZE_def)
qed

text \<open>
  The two closed forms of \<open>written_size\<close>, one by cases on zero and one by a rounded-up
  division, both give the number of bytes the writers emit, which is between one and
  \<open>MAX_SIZE\<close> for each format, so writing always fits the five-byte stack buffer.
\<close>
theorem var_sizes:
  "varint_written_size v = length (varint_write v) \<and>
   varuint_written_size u = length (varuint_write u) \<and>
   varint_written_size v \<in> {1..VarInt_MAX_SIZE} \<and>
   length (varlong_write w) \<in> {1..VarLong_MAX_SIZE} \<and>
   varuint_written_size u \<in> {1..VarUint_MAX_SIZE}"
  using varint_written_size_eq [of v] varint_written_size_bounds [of v] varuint_written_size_eq [of u]
    length_var_write_le [of 10 w] length_var_write_pos [of w] length_var_write_le [of 5 u] length_var_write_pos [of u]
  by (simp add: varlong_write_def VarInt_MAX_SIZE_def VarLong_MAX_SIZE_def VarUint_MAX_SIZE_def varuint_write_eq Suc_le_eq)

text \<open>
  \<open>VarInt\<close> and \<open>VarLong\<close> readers fail exactly when every byte they may look at carries the
  continuation bit: as too long when the full \<open>MAX_SIZE\<close> bytes were there, as a premature end of
  input otherwise. In particular no reader ever consumes more than \<open>MAX_SIZE\<close> bytes.
\<close>
theorem var_read_errors:
  "(varint_read bs = Inl e \<longleftrightarrow> (\<forall>b\<in>set (take VarInt_MAX_SIZE bs). b AND 0x80 \<noteq> 0)
    \<and> e = (if VarInt_MAX_SIZE \<le> length bs then VarTooLong else UnexpectedEof)) \<and>
   (varlong_read bs = Inl e \<longleftrightarrow> (\<forall>b\<in>set (take VarLong_MAX_SIZE bs). b AND 0x80 \<noteq> 0)
    \<and> e = (if VarLong_MAX_SIZE \<le> length bs then VarTooLong else UnexpectedEof))"
  unfolding varint_read_def varlong_read_def by (intro conjI var_read_from_error)

theorem var_read_errors_witness:
  "varint_read [0xFF, 0xFF, 0xFF, 0xFF, 0x8F, 0] = Inl VarTooLong \<and> varlong_read [0x80] = Inl UnexpectedEof"
  by (simp_all add: var_read_errors VarInt_MAX_SIZE_def VarLong_MAX_SIZE_def)

text \<open>
  A \<open>VarInt\<close> that was read took at least as many bytes as its shortest encoding and at most
  five, so subtracting \<open>written_size\<close> of the value from the length of the input it came from
  cannot wrap below zero, also for encodings padded with zero groups.
\<close>
theorem varint_read_size:
  assumes "varint_read bs = Inr (v, rest)"
  shows "varint_written_size v \<le> length bs - length rest \<and> length bs - length rest \<le> 5 \<and>
    (\<exists>used. bs = used @ rest)"
  using varint_read_consumes [OF assms] by auto

theorem varint_read_size_witness:
  "varint_written_size 0 \<le> length [0x80, 0x80, 0x00, 7 :: byte] - length [7 :: byte]"
proof -
  have "varint_read [0x80, 0x80, 0x00, 7] = Inr (0, [7])" by code_simp
  then show ?thesis using varint_read_size by blast
qed

end
