(* ===== verification/Front_Vec.thy ===== *)
theory Front_Vec
  imports Var_Int
begin

text \<open>
  The byte buffer packets are built in (\<open>steel-utils/src/front_vec.rs\<close>): a vector whose first
  \<open>front_space\<close> bytes are reserved for headers that are written last, and
  \<open>VarInt::set_in_front\<close>, which fills that reserve. A panic is \<open>None\<close>. The contents a reader
  sees are \<open>as_slice\<close>; every operation is characterised on it.
\<close>

record front_vec =
  fv_buf :: "byte list"
  front_space :: nat

definition fv_capacity :: "nat \<Rightarrow> nat \<Rightarrow> front_vec" where
  "fv_capacity reserve capacity = \<lparr>fv_buf = replicate reserve 0, front_space = reserve\<rparr>"

definition fv_new :: "nat \<Rightarrow> front_vec" where
  "fv_new reserve = fv_capacity reserve 0"

definition fv_len :: "front_vec \<Rightarrow> nat" where
  "fv_len v = length (fv_buf v) - front_space v"

definition fv_is_empty :: "front_vec \<Rightarrow> bool" where
  "fv_is_empty v \<longleftrightarrow> length (fv_buf v) - front_space v = 0"

definition fv_push :: "byte \<Rightarrow> front_vec \<Rightarrow> front_vec" where
  "fv_push b v = v\<lparr>fv_buf := fv_buf v @ [b]\<rparr>"

definition fv_extend_from_slice :: "byte list \<Rightarrow> front_vec \<Rightarrow> front_vec" where
  "fv_extend_from_slice bs v = v\<lparr>fv_buf := fv_buf v @ bs\<rparr>"

definition fv_set_in_front :: "byte list \<Rightarrow> front_vec \<Rightarrow> front_vec option" where
  "fv_set_in_front other v =
     (if front_space v < length other then None
      else let new_start = front_space v - length other
           in Some \<lparr>fv_buf = take new_start (fv_buf v) @ other @ drop (front_space v) (fv_buf v),
                    front_space = new_start\<rparr>)"

definition fv_as_slice :: "front_vec \<Rightarrow> byte list" where
  "fv_as_slice v = drop (front_space v) (fv_buf v)"

definition fv_write :: "byte list \<Rightarrow> front_vec \<Rightarrow> nat \<times> front_vec" where
  "fv_write bs v = (length bs, v\<lparr>fv_buf := fv_buf v @ bs\<rparr>)"

text \<open>
  The stack buffer of \<open>VarInt::set_in_front\<close>: five zero bytes overwritten from the start; writing
  past its end and slicing past its end are panics.
\<close>

definition varint_set_in_front :: "32 word \<Rightarrow> nat \<Rightarrow> front_vec \<Rightarrow> front_vec option" where
  "varint_set_in_front val varint_size v =
     (let bytes = varint_write val; buf = bytes @ replicate (VarInt_MAX_SIZE - length bytes) 0
      in if VarInt_MAX_SIZE < length bytes \<or> length buf < varint_size then None
         else fv_set_in_front (take varint_size buf) v)"

section \<open>Invariant and contents\<close>

definition fv_ok :: "front_vec \<Rightarrow> bool" where
  "fv_ok v \<longleftrightarrow> front_space v \<le> length (fv_buf v)"

lemma fv_new_ok: "fv_ok (fv_new n)" "front_space (fv_new n) = n" "fv_as_slice (fv_new n) = []"
  by (simp_all add: fv_ok_def fv_new_def fv_capacity_def fv_as_slice_def)

lemma fv_extend:
  assumes "fv_ok v"
  shows "fv_ok (fv_extend_from_slice bs v)" "front_space (fv_extend_from_slice bs v) = front_space v"
    "fv_as_slice (fv_extend_from_slice bs v) = fv_as_slice v @ bs"
  using assms by (simp_all add: fv_ok_def fv_extend_from_slice_def fv_as_slice_def)

lemma fv_len_slice: "fv_len v = length (fv_as_slice v)"
  by (simp add: fv_len_def fv_as_slice_def)

lemma fv_set_in_front_Some:
  assumes "fv_ok v" and "length bs \<le> front_space v"
  obtains v' where "fv_set_in_front bs v = Some v'" "fv_ok v'" "front_space v' = front_space v - length bs"
    "fv_as_slice v' = bs @ fv_as_slice v"
  using assms by (simp add: fv_ok_def fv_set_in_front_def fv_as_slice_def Let_def)

text \<open>With the size the value is written with, the header in front is the encoded value.\<close>

lemma varint_set_in_front_eq:
  "varint_set_in_front val (varint_written_size val) v = fv_set_in_front (varint_write val) v"
  using varint_write_len(1) [of val]
  by (simp add: varint_set_in_front_def varint_written_size_eq VarInt_MAX_SIZE_def Let_def)

lemma varint_set_in_front_Some:
  assumes "fv_ok v" and "varint_written_size val \<le> front_space v"
  obtains v' where "varint_set_in_front val (varint_written_size val) v = Some v'" "fv_ok v'"
    "front_space v' = front_space v - varint_written_size val" "fv_as_slice v' = varint_write val @ fv_as_slice v"
proof -
  have "length (varint_write val) \<le> front_space v" using assms(2) by (simp only: varint_written_size_eq)
  from fv_set_in_front_Some [OF assms(1) this] obtain v' where v': "fv_set_in_front (varint_write val) v = Some v'"
    "fv_ok v'" "front_space v' = front_space v - length (varint_write val)" "fv_as_slice v' = varint_write val @ fv_as_slice v" .
  show thesis
    by (rule that [of v', OF _ v'(2) _ v'(4)]) (simp_all only: varint_set_in_front_eq v'(1,3), simp only: varint_written_size_eq)
qed

section \<open>Properties\<close>

text \<open>
  The buffer behaves as the byte sequence behind its reserve: appending adds at the end,
  setting in front adds at the start and uses up as much of the reserve as it writes, it panics
  exactly when the reserve is smaller than the header, and no operation moves the reserve past
  the end of the vector, so \<open>len\<close> and \<open>as_slice\<close> never go out of range.
\<close>
theorem front_vec_refines_sequence:
  assumes "fv_ok v"
  shows "fv_ok (fv_push b v) \<and> fv_as_slice (fv_push b v) = fv_as_slice v @ [b]
    \<and> fv_ok (snd (fv_write bs v)) \<and> fv_as_slice (snd (fv_write bs v)) = fv_as_slice v @ bs
    \<and> (case fv_set_in_front bs v of
         None \<Rightarrow> front_space v < length bs
       | Some v' \<Rightarrow> fv_ok v' \<and> fv_as_slice v' = bs @ fv_as_slice v \<and> front_space v' + length bs = front_space v
            \<and> length (fv_buf v') = length (fv_buf v))
    \<and> fv_len v = length (fv_as_slice v) \<and> (fv_is_empty v \<longleftrightarrow> fv_as_slice v = [])"
  using assms
  by (auto simp: fv_ok_def fv_push_def fv_write_def fv_as_slice_def fv_set_in_front_def Let_def fv_len_def fv_is_empty_def)

theorem front_vec_refines_sequence_witness:
  "\<exists>v'. fv_set_in_front [0xAA, 0xBB] (fv_extend_from_slice [1, 2, 3] (fv_capacity 4 8)) = Some v'
    \<and> fv_as_slice v' = [0xAA, 0xBB, 1, 2, 3]"
  using front_vec_refines_sequence [of "fv_extend_from_slice [1, 2, 3] (fv_capacity 4 8)" 0 "[0xAA, 0xBB]"]
  by (simp add: fv_ok_def fv_extend_from_slice_def fv_capacity_def fv_as_slice_def fv_set_in_front_def Let_def)

end
