(* ===== verification/Packet_Framing.thy ===== *)
theory Packet_Framing
  imports Front_Vec
begin

text \<open>
  Packet frames (\<open>steel-protocol/src/packet_traits.rs\<close>, \<open>packet_reader.rs\<close> and the raw packet and
  limits of \<open>utils.rs\<close>). The writer puts a packet's id and payload into a \<open>FrontVec\<close> and the
  length headers in front, compressing when a threshold is set and reached; the reader takes one
  frame from the byte stream and splits it again. The zlib library is a parameter: an encoder
  that may fail, and a decoder giving the bytes it can produce and whether the stream then ended
  cleanly. A packet type is a parameter too: its id per protocol and its serialised fields.
  A panic is \<open>None\<close>; the messages inside errors are not kept.
\<close>

definition MAX_PACKET_SIZE :: nat where
  "MAX_PACKET_SIZE = 2097152"

definition MAX_PACKET_DATA_SIZE :: nat where
  "MAX_PACKET_DATA_SIZE = 8388608"

datatype connection_protocol = Handshake | Play | Status | Login | Config

datatype packet_error =
    DecodeID | TooLong nat | OutOfBounds | MalformedLength | MalformedValue io_error
  | DecompressionFailed | CompressionFailed | NotCompressed | DecryptionFailed | EncryptionFailed
  | ConnectionClosed | SendError | OtherError | InvalidProtocol connection_protocol

record raw_packet =
  rp_id :: "32 word"
  rp_buffer :: "byte list"
  payload_start :: "32 word"

definition raw_packet_new :: "32 word \<Rightarrow> byte list \<Rightarrow> raw_packet" where
  "raw_packet_new i pl = \<lparr>rp_id = i, rp_buffer = pl, payload_start = 0\<rparr>"

definition from_buffer :: "32 word \<Rightarrow> byte list \<Rightarrow> nat \<Rightarrow> raw_packet" where
  "from_buffer i buffer start = \<lparr>rp_id = i, rp_buffer = buffer, payload_start = of_nat start\<rparr>"

definition payload :: "raw_packet \<Rightarrow> byte list option" where
  "payload p = (if unat (payload_start p) \<le> length (rp_buffer p)
                then Some (drop (unat (payload_start p)) (rp_buffer p)) else None)"

text \<open>The casts between \<open>i32\<close> and \<open>usize\<close>; a negative value becomes a huge length.\<close>

definition as_i32 :: "nat \<Rightarrow> 32 word" where
  "as_i32 n = of_nat n"

definition as_usize :: "32 word \<Rightarrow> nat" where
  "as_usize v = unat (scast v :: 64 word)"

definition usize_sub :: "nat \<Rightarrow> nat \<Rightarrow> nat" where
  "usize_sub a b = (if b \<le> a then a - b else 2 ^ 64 + a - b)"

section \<open>Writing\<close>

record compression_info =
  threshold :: nat
  level :: int

definition compression_default :: compression_info where
  "compression_default = \<lparr>threshold = 256, level = 4\<rparr>"

definition write_packet ::
  "(connection_protocol \<Rightarrow> 32 word option) \<Rightarrow> (io_error + byte list) \<Rightarrow> front_vec \<Rightarrow> connection_protocol \<Rightarrow> packet_error + front_vec" where
  "write_packet get_id body writer protocol =
     (case get_id protocol of
        None \<Rightarrow> Inl (InvalidProtocol protocol)
      | Some packet_id \<Rightarrow>
          (let writer' = fv_extend_from_slice (varint_write packet_id) writer
           in case body of
                Inl e \<Rightarrow> Inl (MalformedValue e)
              | Inr bytes \<Rightarrow> Inr (fv_extend_from_slice bytes writer')))"

definition write_vec ::
  "(connection_protocol \<Rightarrow> 32 word option) \<Rightarrow> (io_error + byte list) \<Rightarrow> connection_protocol \<Rightarrow> packet_error + front_vec" where
  "write_vec get_id body protocol = write_packet get_id body (fv_new 6) protocol"

definition from_data_uncompressed :: "front_vec \<Rightarrow> (packet_error + front_vec) option" where
  "from_data_uncompressed packet_data =
     (let data_len = fv_len packet_data;
          varint_size = varint_written_size (as_i32 data_len);
          complete_len = varint_size + data_len
      in if MAX_PACKET_SIZE < complete_len then Some (Inl (TooLong complete_len))
         else map_option Inr (varint_set_in_front (as_i32 data_len) varint_size packet_data))"

definition from_packet_data ::
  "(int \<Rightarrow> byte list \<Rightarrow> byte list option) \<Rightarrow> front_vec \<Rightarrow> compression_info \<Rightarrow> (packet_error + front_vec) option" where
  "from_packet_data zlib_encode packet_data compression =
     (let data_len = fv_len packet_data
      in if MAX_PACKET_DATA_SIZE < data_len + VarInt_MAX_SIZE * 2 then Some (Inl (TooLong data_len))
         else if threshold compression \<le> data_len then
           (case zlib_encode (level compression) (fv_as_slice packet_data) of
              None \<Rightarrow> Some (Inl CompressionFailed)
            | Some z \<Rightarrow>
                (let buf = fv_extend_from_slice z (fv_new 10);
                     varint_size = varint_written_size (as_i32 data_len);
                     full_len = varint_size + fv_len buf;
                     full_varint_size = varint_written_size (as_i32 full_len)
                 in case varint_set_in_front (as_i32 data_len) varint_size buf of
                      None \<Rightarrow> None
                    | Some buf' \<Rightarrow> map_option Inr (varint_set_in_front (as_i32 full_len) full_varint_size buf')))
         else
           (let data_len_with_header = data_len + 1;
                varint_size = varint_written_size (as_i32 data_len_with_header)
            in case varint_set_in_front 0 1 packet_data of
                 None \<Rightarrow> None
               | Some pd \<Rightarrow> map_option Inr (varint_set_in_front (as_i32 data_len_with_header) varint_size pd)))"

definition from_data ::
  "(int \<Rightarrow> byte list \<Rightarrow> byte list option) \<Rightarrow> front_vec \<Rightarrow> compression_info option \<Rightarrow> (packet_error + front_vec) option" where
  "from_data zlib_encode buf compression =
     (case compression of Some c \<Rightarrow> from_packet_data zlib_encode buf c | None \<Rightarrow> from_data_uncompressed buf)"

definition from_bare ::
  "(int \<Rightarrow> byte list \<Rightarrow> byte list option) \<Rightarrow> (connection_protocol \<Rightarrow> 32 word option) \<Rightarrow> (io_error + byte list) \<Rightarrow>
   compression_info option \<Rightarrow> connection_protocol \<Rightarrow> (packet_error + front_vec) option" where
  "from_bare zlib_encode get_id body compression protocol =
     (case write_vec get_id body protocol of
        Inl e \<Rightarrow> Some (Inl e)
      | Inr buf \<Rightarrow> from_data zlib_encode buf compression)"

section \<open>Reading\<close>

definition varint_read_async :: "byte list \<Rightarrow> io_error + 32 word \<times> byte list" where
  "varint_read_async bs = var_read_from VarInt_MAX_SIZE 0 0 bs"

definition packet_body ::
  "(byte list \<Rightarrow> byte list \<times> bool) \<Rightarrow> nat option \<Rightarrow> byte list \<Rightarrow> packet_error + byte list \<times> nat" where
  "packet_body zlib_decode compression packet_data =
     (case compression of
        None \<Rightarrow> Inr (packet_data, 0)
      | Some thr \<Rightarrow>
          (case varint_read packet_data of
             Inl e \<Rightarrow> Inl (MalformedValue e)
           | Inr (v, cursor) \<Rightarrow>
               (let decompressed_len = as_usize v;
                    raw_packet_len = usize_sub (length packet_data) (varint_written_size (as_i32 decompressed_len))
                in if MAX_PACKET_DATA_SIZE < decompressed_len then Inl (TooLong decompressed_len)
                   else if 0 < decompressed_len then
                     (let (out, clean) = zlib_decode cursor
                      in if length out < decompressed_len then Inl DecompressionFailed
                         else if decompressed_len < length out \<or> \<not> clean then Inl DecompressionFailed
                         else Inr (take decompressed_len out, 0))
                   else if thr < raw_packet_len then Inl NotCompressed
                   else Inr (packet_data, length packet_data - length cursor))))"

definition get_raw_packet ::
  "(byte list \<Rightarrow> byte list \<times> bool) \<Rightarrow> nat option \<Rightarrow> byte list \<Rightarrow> packet_error + raw_packet \<times> byte list" where
  "get_raw_packet zlib_decode compression stream =
     (case varint_read_async stream of
        Inl e \<Rightarrow> Inl (MalformedValue e)
      | Inr (v, stream) \<Rightarrow>
          (let packet_len = as_usize v
           in if MAX_PACKET_SIZE < packet_len then Inl OutOfBounds
              else if length stream < packet_len then Inl OtherError
              else case packet_body zlib_decode compression (take packet_len stream) of
                     Inl e \<Rightarrow> Inl e
                   | Inr (packet_buffer, packet_data_start) \<Rightarrow>
                       (case varint_read (drop packet_data_start packet_buffer) of
                          Inl e \<Rightarrow> Inl (MalformedValue e)
                        | Inr (packet_id, cursor) \<Rightarrow>
                            Inr (from_buffer packet_id packet_buffer
                                   (packet_data_start + (length (drop packet_data_start packet_buffer) - length cursor)),
                                 drop packet_len stream))))"

section \<open>Casts and sizes\<close>

lemma as_usize_as_i32: "n < 2 ^ 31 \<Longrightarrow> as_usize (as_i32 n) = n"
proof -
  assume n: "n < 2 ^ 31"
  then have "sint (of_nat n :: 32 word) = int n"
    by (simp add: sint_uint uint_nat unat_of_nat take_bit_nat_eq_self_iff signed_take_bit_int_eq_self_iff)
  then have "(scast (of_nat n :: 32 word) :: 64 word) = of_nat n" by (simp add: scast_eq)
  then show ?thesis using n by (simp add: as_usize_def as_i32_def unat_of_nat take_bit_nat_eq_self_iff)
qed

lemma unat_offset: "n \<le> MAX_PACKET_DATA_SIZE \<Longrightarrow> unat (of_nat n :: 32 word) = n"
  by (simp add: MAX_PACKET_DATA_SIZE_def unat_of_nat take_bit_nat_eq_self_iff)

lemma varint_write_0: "varint_write 0 = [0]" "varint_written_size 0 = 1"
  by (simp_all add: varint_write_def var_write.simps [of 0] varint_written_size_def)

lemma varint_read_async_eq: "varint_read_async bs = varint_read bs"
  by (simp add: varint_read_async_def varint_read_def)

lemma varint_write_small: "unat v < 128 \<Longrightarrow> varint_write v = [ucast v]"
proof -
  assume v: "unat v < 128"
  then have z: "drop_bit 7 v = 0" using unat_drop_bit_7 [of v] by (simp add: unat_eq_zero [symmetric] del: unat_eq_zero)
  have low: "k < 7" if "bit v k" for k
    using arg_cong [OF z, of "\<lambda>w. bit w (k - 7)"] that by (rule_tac ccontr) (simp only: bit_drop_bit_eq o_def bit_0_eq bot_apply, simp)
  then have "ucast v AND (0x7F :: byte) = ucast v"
    unfolding and_7F by (intro bit_word_eqI) (auto simp: bit_take_bit_iff bit_ucast_iff)
  note z = z this
  then show ?thesis using z by (simp add: varint_write_def var_write.simps [of v])
qed

lemma varint_size_small: "unat v < 128 \<Longrightarrow> varint_written_size v = 1"
  by (simp add: varint_written_size_eq varint_write_small)

lemma varint_read_small: "b AND 0x80 = 0 \<Longrightarrow> varint_read (b # bs) = Inr (ucast b AND 0x7F, bs)"
  by (simp add: varint_read_def VarInt_MAX_SIZE_def eval_nat_numeral(3) numeral_eq_Suc)

section \<open>What the writer produces\<close>

definition frame :: "byte list \<Rightarrow> byte list" where
  "frame body = varint_write (as_i32 (length body)) @ body"

lemma from_data_uncompressed_cases:
  assumes "fv_ok v" and "6 \<le> front_space v"
  shows "from_data_uncompressed v =
      Some (Inl (TooLong (length (frame (fv_as_slice v))))) \<and> MAX_PACKET_SIZE < length (frame (fv_as_slice v))
    \<or> (\<exists>v'. from_data_uncompressed v = Some (Inr v') \<and> fv_as_slice v' = frame (fv_as_slice v)
        \<and> length (frame (fv_as_slice v)) \<le> MAX_PACKET_SIZE)"
proof -
  let ?n = "as_i32 (length (fv_as_slice v))"
  have len: "varint_written_size ?n + fv_len v = length (frame (fv_as_slice v))"
    by (simp add: frame_def varint_written_size_eq fv_len_slice)
  have "varint_written_size ?n \<le> front_space v" using varint_written_size_bounds(2) [of ?n] assms(2) by simp
  from varint_set_in_front_Some [OF assms(1) this] obtain v' where
    "varint_set_in_front ?n (varint_written_size ?n) v = Some v'" "fv_as_slice v' = varint_write ?n @ fv_as_slice v" .
  with len show ?thesis
    by (cases "MAX_PACKET_SIZE < length (frame (fv_as_slice v))")
      (simp_all add: from_data_uncompressed_def fv_len_slice Let_def frame_def)
qed

text \<open>The body of the frame the compressing writer builds.\<close>

definition compressed_body :: "(int \<Rightarrow> byte list \<Rightarrow> byte list option) \<Rightarrow> compression_info \<Rightarrow> byte list \<Rightarrow> byte list option" where
  "compressed_body zlib_encode c data =
     (if threshold c \<le> length data then map_option (\<lambda>z. varint_write (as_i32 (length data)) @ z) (zlib_encode (level c) data)
      else Some (0 # data))"

lemma varint_in_front_twice:
  assumes "fv_ok v" and "10 \<le> front_space v"
  shows "\<exists>v' v''. varint_set_in_front a (varint_written_size a) v = Some v'
    \<and> varint_set_in_front b (varint_written_size b) v' = Some v'' \<and> fv_as_slice v'' = varint_write b @ varint_write a @ fv_as_slice v"
proof -
  have "varint_written_size a \<le> front_space v" using varint_written_size_bounds(2) [of a] assms(2) by simp
  from varint_set_in_front_Some [OF assms(1) this] obtain v' where
    v': "varint_set_in_front a (varint_written_size a) v = Some v'" "fv_ok v'"
      "front_space v' = front_space v - varint_written_size a" "fv_as_slice v' = varint_write a @ fv_as_slice v" .
  have "varint_written_size b \<le> front_space v'"
    using v'(3) varint_written_size_bounds(2) [of a] varint_written_size_bounds(2) [of b] assms(2) by simp
  from varint_set_in_front_Some [OF v'(2) this] v' show ?thesis by (metis append_assoc)
qed

lemma from_packet_data_cases:
  assumes "fv_ok v" and "6 \<le> front_space v"
  shows "(MAX_PACKET_DATA_SIZE < fv_len v + 10 \<and> from_packet_data zenc v c = Some (Inl (TooLong (fv_len v))))
    \<or> (fv_len v + 10 \<le> MAX_PACKET_DATA_SIZE \<and> compressed_body zenc c (fv_as_slice v) = None
        \<and> from_packet_data zenc v c = Some (Inl CompressionFailed))
    \<or> (fv_len v + 10 \<le> MAX_PACKET_DATA_SIZE \<and> (\<exists>v' body. compressed_body zenc c (fv_as_slice v) = Some body
        \<and> from_packet_data zenc v c = Some (Inr v') \<and> fv_as_slice v' = frame body))"
proof (cases "MAX_PACKET_DATA_SIZE < fv_len v + 10")
  case True
  then show ?thesis by (simp add: from_packet_data_def VarInt_MAX_SIZE_def Let_def)
next
  case fits: False
  show ?thesis
  proof (cases "threshold c \<le> fv_len v")
    case True
    show ?thesis
    proof (cases "zenc (level c) (fv_as_slice v)")
      case None
      with True fits show ?thesis
        by (simp add: from_packet_data_def compressed_body_def VarInt_MAX_SIZE_def Let_def fv_len_slice)
    next
      case (Some z)
      let ?buf = "fv_extend_from_slice z (fv_new 10)" and ?a = "as_i32 (fv_len v)"
      let ?b = "as_i32 (varint_written_size ?a + fv_len ?buf)"
      have buf: "fv_ok ?buf" "front_space ?buf = 10" "fv_as_slice ?buf = z"
        by (simp_all add: fv_extend fv_new_ok)
      obtain v' v'' where v: "varint_set_in_front ?a (varint_written_size ?a) ?buf = Some v'"
        "varint_set_in_front ?b (varint_written_size ?b) v' = Some v''" "fv_as_slice v'' = varint_write ?b @ varint_write ?a @ z"
        using varint_in_front_twice [OF buf(1), of ?a ?b] buf by auto
      have "frame (varint_write ?a @ z) = fv_as_slice v''"
        by (simp add: frame_def v(3) varint_written_size_eq fv_len_slice buf(3))
      moreover have "from_packet_data zenc v c = Some (Inr v'')"
        using True fits Some v(1,2) by (simp add: from_packet_data_def VarInt_MAX_SIZE_def Let_def)
      ultimately show ?thesis using True Some fits by (simp add: compressed_body_def fv_len_slice)
    qed
  next
    case False
    have "length [0 :: byte] \<le> front_space v" using assms(2) by simp
    from fv_set_in_front_Some [OF assms(1) this] obtain v' where
      v': "fv_set_in_front [0] v = Some v'" "fv_ok v'" "front_space v' = front_space v - 1" "fv_as_slice v' = 0 # fv_as_slice v"
      by auto
    let ?b = "as_i32 (fv_len v + 1)"
    have "varint_written_size ?b \<le> front_space v'" using v'(3) assms(2) varint_written_size_bounds(2) [of ?b] by simp
    from varint_set_in_front_Some [OF v'(2) this] obtain v'' where
      v'': "varint_set_in_front ?b (varint_written_size ?b) v' = Some v''" "fv_as_slice v'' = varint_write ?b @ 0 # fv_as_slice v"
      using v'(4) by metis
    have "varint_set_in_front 0 1 v = Some v'"
      using varint_set_in_front_eq [of 0 v] v'(1) by (simp add: varint_write_0)
    with v''(1) False fits have "from_packet_data zenc v c = Some (Inr v'')"
      by (simp add: from_packet_data_def VarInt_MAX_SIZE_def Let_def)
    with False fits v''(2) show ?thesis by (simp add: compressed_body_def fv_len_slice frame_def)
  qed
qed

lemma write_vec_slice:
  "write_vec get_id body protocol = Inr v \<longleftrightarrow>
    (\<exists>i bytes. get_id protocol = Some i \<and> body = Inr bytes \<and>
      v = fv_extend_from_slice bytes (fv_extend_from_slice (varint_write i) (fv_new 6)))"
  by (auto simp: write_vec_def write_packet_def Let_def split: option.splits sum.splits)

lemma write_vec_ok:
  assumes "write_vec get_id body protocol = Inr v" and "get_id protocol = Some i" and "body = Inr bytes"
  shows "fv_ok v" "front_space v = 6" "fv_as_slice v = varint_write i @ bytes"
  using assms by (auto simp: write_vec_slice fv_extend fv_new_ok)

section \<open>What the reader makes of a frame\<close>

lemma get_raw_packet_frame:
  assumes "length body \<le> MAX_PACKET_SIZE" and "packet_body zdec c body = Inr (buf, start)"
    and "drop start buf = varint_write i @ pl" and "length buf \<le> MAX_PACKET_DATA_SIZE"
  shows "get_raw_packet zdec c (frame body @ rest) = Inr (from_buffer i buf (start + length (varint_write i)), rest)"
    "payload (from_buffer i buf (start + length (varint_write i))) = Some pl"
proof -
  have len: "as_usize (as_i32 (length body)) = length body"
    using assms(1) by (intro as_usize_as_i32) (simp add: MAX_PACKET_SIZE_def)
  show "get_raw_packet zdec c (frame body @ rest) = Inr (from_buffer i buf (start + length (varint_write i)), rest)"
    using assms(1-3)
    by (simp add: get_raw_packet_def frame_def varint_read_async_eq varint_read_write len Let_def del: length_drop)
  have "start + length (varint_write i) \<le> length buf"
    using arg_cong [OF assms(3), of length] varint_write_len(2) [of i] by (simp only: length_drop length_append)
  moreover from this have "unat (of_nat (start + length (varint_write i)) :: 32 word) = start + length (varint_write i)"
    using assms(4) by (intro unat_offset) (rule order_trans)
  moreover have "drop (start + length (varint_write i)) buf = pl"
    using arg_cong [OF assms(3), of "drop (length (varint_write i))"] by (simp add: add.commute)
  ultimately show "payload (from_buffer i buf (start + length (varint_write i))) = Some pl"
    by (simp add: payload_def from_buffer_def)
qed

lemma packet_body_compressed:
  assumes "compressed_body zenc c data = Some body" and "length data + 10 \<le> MAX_PACKET_DATA_SIZE" and "0 < threshold c"
    and "\<And>z. zenc (level c) data = Some z \<Longrightarrow> zdec z = (data, True)"
  shows "packet_body zdec (Some (threshold c)) body = (if threshold c \<le> length data then Inr (data, 0) else Inr (body, 1))"
proof (cases "threshold c \<le> length data")
  case True
  then obtain z where z: "zenc (level c) data = Some z" "body = varint_write (as_i32 (length data)) @ z"
    using assms(1) by (auto simp: compressed_body_def)
  have "as_usize (as_i32 (length data)) = length data"
    using assms(2) by (intro as_usize_as_i32) (simp add: MAX_PACKET_DATA_SIZE_def)
  moreover have "data \<noteq> []" using True assms(3) by auto
  ultimately show ?thesis using True z assms(2,3) assms(4) [OF z(1)]
    by (simp add: packet_body_def varint_read_write Let_def)
next
  case False
  then have "body = varint_write 0 @ data" using assms(1) by (simp add: compressed_body_def varint_write_0)
  moreover have "as_usize 0 = 0" by (simp add: as_usize_def)
  ultimately show ?thesis using False varint_read_write [of 0 data]
    by (simp add: packet_body_def Let_def as_i32_def varint_write_0 usize_sub_def MAX_PACKET_DATA_SIZE_def)
qed

lemma frame_too_long:
  assumes "MAX_PACKET_SIZE < length body" and "length body < 2 ^ 31"
  shows "get_raw_packet zdec c (frame body @ rest) = Inl OutOfBounds"
  using assms by (simp add: get_raw_packet_def frame_def varint_read_async_eq varint_read_write as_usize_as_i32 Let_def)

text \<open>The frame of a packet is built without a panic and, when it is small enough, read back.\<close>

lemma from_bare_frame:
  assumes "from_bare zenc get_id body compression protocol = Some (Inr fv)"
  shows "\<exists>i bytes b. get_id protocol = Some i \<and> body = Inr bytes \<and> fv_as_slice fv = frame b \<and>
    (case compression of None \<Rightarrow> b = varint_write i @ bytes \<and> length (frame b) \<le> MAX_PACKET_SIZE
     | Some c \<Rightarrow> compressed_body zenc c (varint_write i @ bytes) = Some b
         \<and> length (varint_write i @ bytes) + 10 \<le> MAX_PACKET_DATA_SIZE)"
proof -
  from assms obtain v where v: "write_vec get_id body protocol = Inr v" and d: "from_data zenc v compression = Some (Inr fv)"
    by (auto simp: from_bare_def split: sum.splits)
  from v obtain i bytes where ib: "get_id protocol = Some i" "body = Inr bytes" by (auto simp: write_vec_slice)
  note ok = write_vec_ok [OF v ib]
  show ?thesis
  proof (cases compression)
    case None
    with d ok from_data_uncompressed_cases [of v] ib show ?thesis by (auto simp: from_data_def)
  next
    case (Some c)
    with d ok from_packet_data_cases [of v zenc c] ib show ?thesis by (auto simp: from_data_def fv_len_slice)
  qed
qed

lemma from_bare_reads_back:
  assumes "from_bare zenc get_id body compression protocol = Some (Inr fv)"
    and "\<And>c data z. compression = Some c \<Longrightarrow> zenc (level c) data = Some z \<Longrightarrow> zdec z = (data, True)"
    and "\<And>c. compression = Some c \<Longrightarrow> 0 < threshold c"
    and "\<And>b. fv_as_slice fv = frame b \<Longrightarrow> length b \<le> MAX_PACKET_SIZE"
  shows "\<exists>i bytes p. get_id protocol = Some i \<and> body = Inr bytes
    \<and> get_raw_packet zdec (map_option threshold compression) (fv_as_slice fv @ rest) = Inr (p, rest)
    \<and> rp_id p = i \<and> payload p = Some bytes"
proof -
  from from_bare_frame [OF assms(1)] obtain i bytes b where ib: "get_id protocol = Some i" "body = Inr bytes"
    and b: "fv_as_slice fv = frame b"
    and c: "case compression of None \<Rightarrow> b = varint_write i @ bytes \<and> length (frame b) \<le> MAX_PACKET_SIZE
      | Some c \<Rightarrow> compressed_body zenc c (varint_write i @ bytes) = Some b
          \<and> length (varint_write i @ bytes) + 10 \<le> MAX_PACKET_DATA_SIZE"
    by blast
  have len: "length b \<le> MAX_PACKET_SIZE" by (rule assms(4) [OF b])
  then have dlen: "length b \<le> MAX_PACKET_DATA_SIZE" by (simp add: MAX_PACKET_SIZE_def MAX_PACKET_DATA_SIZE_def)
  have "\<exists>buf start. packet_body zdec (map_option threshold compression) b = Inr (buf, start)
    \<and> drop start buf = varint_write i @ bytes \<and> length buf \<le> MAX_PACKET_DATA_SIZE"
  proof (cases compression)
    case None
    with c dlen show ?thesis by (simp add: packet_body_def)
  next
    case (Some k)
    with c have k: "compressed_body zenc k (varint_write i @ bytes) = Some b"
      "length (varint_write i @ bytes) + 10 \<le> MAX_PACKET_DATA_SIZE" by simp_all
    from packet_body_compressed [OF k assms(3) [OF Some] assms(2) [OF Some]]
    show ?thesis using k dlen Some by (auto simp: compressed_body_def split: if_splits)
  qed
  then obtain buf start where "packet_body zdec (map_option threshold compression) b = Inr (buf, start)"
    "drop start buf = varint_write i @ bytes" "length buf \<le> MAX_PACKET_DATA_SIZE" by blast
  from get_raw_packet_frame [OF len this] ib b show ?thesis by (auto simp: from_buffer_def)
qed

section \<open>Properties\<close>

text \<open>
  A packet that the writer encoded is read back from the stream: with the same compression
  setting on both sides, and a zlib decoder that inverts the encoder, \<open>get_raw_packet\<close> takes
  exactly the frame off the stream and gives the packet id and the serialised fields as payload,
  for plain frames, for compressed ones and for the short ones sent uncompressed under a
  threshold, provided the frame's length field is within the packet size limit.
\<close>
theorem encoded_packet_is_read_back:
  assumes "from_bare zenc get_id body compression protocol = Some (Inr fv)"
    and "\<And>c data z. compression = Some c \<Longrightarrow> zenc (level c) data = Some z \<Longrightarrow> zdec z = (data, True)"
    and "\<And>c. compression = Some c \<Longrightarrow> 0 < threshold c"
    and "\<And>b. fv_as_slice fv = frame b \<Longrightarrow> length b \<le> MAX_PACKET_SIZE"
  shows "\<exists>i bytes p. get_id protocol = Some i \<and> body = Inr bytes
    \<and> get_raw_packet zdec (map_option threshold compression) (fv_as_slice fv @ rest) = Inr (p, rest)
    \<and> rp_id p = i \<and> payload p = Some bytes"
  by (rule from_bare_reads_back [OF assms])

theorem encoded_packet_is_read_back_witness:
  "\<exists>fv p. from_bare (\<lambda>l bs. Some bs) (\<lambda>_. Some 7) (Inr [1, 2]) (Some \<lparr>threshold = 2, level = 4\<rparr>) Play = Some (Inr fv)
    \<and> get_raw_packet (\<lambda>z. (z, True)) (Some 2) (fv_as_slice fv @ [9]) = Inr (p, [9]) \<and> payload p = Some [1, 2]"
proof -
  obtain fv where fv: "from_bare (\<lambda>l bs. Some bs) (\<lambda>_. Some 7) (Inr [1, 2]) (Some \<lparr>threshold = 2, level = 4\<rparr>) Play = Some (Inr fv)"
    "fv_as_slice fv = [4, 3, 7, 1, 2]"
    by (simp add: from_bare_def write_vec_def write_packet_def from_data_def from_packet_data_def as_i32_def
        fv_new_def fv_capacity_def fv_extend_from_slice_def fv_len_def fv_as_slice_def varint_set_in_front_def
        fv_set_in_front_def varint_write_small varint_size_small VarInt_MAX_SIZE_def MAX_PACKET_DATA_SIZE_def)
  have "length b \<le> MAX_PACKET_SIZE" if "fv_as_slice fv = frame b" for b
    using arg_cong [OF that, of length] by (simp add: fv(2) frame_def MAX_PACKET_SIZE_def)
  from encoded_packet_is_read_back [OF fv(1) _ _ this, where zdec = "\<lambda>z. (z, True)" and rest = "[9]"] fv(1) show ?thesis by auto
qed

text \<open>
  The writer never panics: the six reserved bytes hold the headers of a plain frame and of an
  uncompressed frame under a threshold, and the ten of the compression buffer hold both lengths.
  Every outcome is an encoded packet or an error value, and a plain frame that succeeds never
  exceeds the packet size limit while one that fails would have.
\<close>
theorem packet_writer_never_panics:
  "from_bare zenc get_id body compression protocol \<noteq> None \<and>
   (\<forall>i bytes. get_id protocol = Some i \<longrightarrow> body = Inr bytes \<longrightarrow>
      (if length (frame (varint_write i @ bytes)) \<le> MAX_PACKET_SIZE
       then \<exists>fv. from_bare zenc get_id body None protocol = Some (Inr fv) \<and> fv_as_slice fv = frame (varint_write i @ bytes)
       else from_bare zenc get_id body None protocol = Some (Inl (TooLong (length (frame (varint_write i @ bytes)))))))"
proof (intro conjI allI impI)
  show "from_bare zenc get_id body compression protocol \<noteq> None"
  proof (cases "write_vec get_id body protocol")
    case (Inr v)
    then obtain i bytes where "get_id protocol = Some i" "body = Inr bytes" by (auto simp: write_vec_slice)
    note ok = write_vec_ok [OF Inr this]
    from from_data_uncompressed_cases [OF ok(1)] from_packet_data_cases [OF ok(1), of zenc] ok(2) Inr
    show ?thesis by (fastforce simp: from_bare_def from_data_def split: option.splits)
  qed (simp add: from_bare_def)
next
  fix i bytes
  assume ib: "get_id protocol = Some i" "body = Inr bytes"
  then obtain v where v: "write_vec get_id body protocol = Inr v" by (simp add: write_vec_slice)
  from from_data_uncompressed_cases [OF write_vec_ok(1) [OF v ib]] write_vec_ok(2,3) [OF v ib] v
  show "if length (frame (varint_write i @ bytes)) \<le> MAX_PACKET_SIZE
       then \<exists>fv. from_bare zenc get_id body None protocol = Some (Inr fv) \<and> fv_as_slice fv = frame (varint_write i @ bytes)
       else from_bare zenc get_id body None protocol = Some (Inl (TooLong (length (frame (varint_write i @ bytes)))))"
    by (auto simp: from_bare_def from_data_def)
qed

theorem packet_writer_never_panics_witness:
  "from_bare (\<lambda>l bs. None) (\<lambda>_. Some 0) (Inr (replicate 3000000 0)) None Play = Some (Inl (TooLong 3000005))"
proof -
  have "varint_written_size (as_i32 3000001) = 4"
    by (simp add: varint_written_size_def leading_zeros_def as_i32_def bit_len.simps)
  then have "length (frame (varint_write 0 @ replicate 3000000 0)) = 3000005"
    by (simp add: frame_def varint_write_0 varint_written_size_eq)
  then show ?thesis
    using packet_writer_never_panics [of "\<lambda>l bs. None" "\<lambda>_. Some 0" "Inr (replicate 3000000 0)" None Play]
    by (simp add: MAX_PACKET_SIZE_def)
qed

text \<open>
  C39. With a compression threshold set, the size limit is not checked on the writing side: a
  packet below the threshold whose body is larger than the packet size limit is encoded all the
  same, and so is a compressed packet whose compressed form is that large. A reader of this
  protocol rejects every such frame as out of bounds.
\<close>
theorem oversized_frames_are_sent:
  assumes "get_id protocol = Some i" and "body = Inr bytes"
    and "length (varint_write i @ bytes) + 10 \<le> MAX_PACKET_DATA_SIZE"
    and "compressed_body zenc c (varint_write i @ bytes) = Some b"
    and "MAX_PACKET_SIZE < length b" and "length b < 2 ^ 31"
  shows "\<exists>fv. from_bare zenc get_id body (Some c) protocol = Some (Inr fv)
    \<and> get_raw_packet zdec d (fv_as_slice fv @ rest) = Inl OutOfBounds"
proof -
  from assms(1,2) obtain v where v: "write_vec get_id body protocol = Inr v" by (simp add: write_vec_slice)
  note ok = write_vec_ok [OF v assms(1,2)]
  from from_packet_data_cases [OF ok(1), of zenc c] ok(2,3) assms(3,4) obtain fv where
    "from_packet_data zenc v c = Some (Inr fv)" "fv_as_slice fv = frame b" by (auto simp: fv_len_slice)
  with v frame_too_long [OF assms(5,6)] show ?thesis by (simp add: from_bare_def from_data_def)
qed

theorem oversized_frames_are_sent_witness:
  "\<exists>fv. from_bare (\<lambda>l bs. None) (\<lambda>_. Some 0) (Inr (replicate 2500000 0)) (Some \<lparr>threshold = 3000000, level = 4\<rparr>) Play = Some (Inr fv)
    \<and> get_raw_packet (\<lambda>z. (z, True)) None (fv_as_slice fv @ []) = Inl OutOfBounds"
  by (rule oversized_frames_are_sent [where i = 0 and bytes = "replicate 2500000 0" and b = "0 # 0 # replicate 2500000 0"])
    (simp_all add: varint_write_0 compressed_body_def MAX_PACKET_DATA_SIZE_def MAX_PACKET_SIZE_def)

text \<open>
  C38. Whatever bytes arrive, a frame that is accepted took at most the packet size limit and its
  five length bytes off the stream, its payload lies inside its buffer and the buffer is within
  the data limit, so a decoded packet can be used without a panic; the subtraction that
  computes the raw length never wraps.
\<close>
theorem raw_packet_bounds:
  assumes "get_raw_packet zdec c stream = Inr (p, rest)"
  shows "\<exists>used pl. stream = used @ rest \<and> length used \<le> MAX_PACKET_SIZE + 5
    \<and> length (rp_buffer p) \<le> MAX_PACKET_DATA_SIZE \<and> payload p = Some pl \<and> (\<exists>h. rp_buffer p = h @ pl)"
proof -
  from assms obtain v s1 buf start i cur where r: "varint_read stream = Inr (v, s1)"
    and len: "as_usize v \<le> MAX_PACKET_SIZE" "as_usize v \<le> length s1"
    and body: "packet_body zdec c (take (as_usize v) s1) = Inr (buf, start)"
    and i: "varint_read (drop start buf) = Inr (i, cur)"
    and p: "p = from_buffer i buf (start + (length (drop start buf) - length cur))" "rest = drop (as_usize v) s1"
    by (auto simp: get_raw_packet_def varint_read_async_eq Let_def split: sum.splits if_splits simp del: length_drop)
  have buf: "length buf \<le> MAX_PACKET_DATA_SIZE"
    using body len by (auto simp: packet_body_def Let_def MAX_PACKET_SIZE_def MAX_PACKET_DATA_SIZE_def split: option.splits sum.splits if_splits prod.splits)
  from varint_read_consumes [OF i] obtain u where u: "drop start buf = u @ cur" by blast
  have "start + length u \<le> length buf \<or> length u = 0"
    using arg_cong [OF u, of length] by (simp only: length_drop length_append) arith
  moreover have "start \<le> length buf"
    using body varint_read_consumes by (fastforce simp: packet_body_def Let_def split: option.splits sum.splits if_splits prod.splits)
  ultimately have le: "start + length u \<le> length buf" by auto
  then have "unat (of_nat (start + length u) :: 32 word) = start + length u"
    using buf by (intro unat_offset) (rule order_trans)
  moreover have "drop (start + length u) buf = cur"
    using arg_cong [OF u, of "drop (length u)"] by (simp add: add.commute)
  ultimately have "payload p = Some cur" "\<exists>h. rp_buffer p = h @ cur"
    using le u by (auto simp: p payload_def from_buffer_def) (metis append_take_drop_id)
  moreover from varint_read_consumes [OF r] obtain h where "stream = h @ s1" "length h \<le> 5" by blast
  then have "stream = (h @ take (as_usize v) s1) @ rest" "length (h @ take (as_usize v) s1) \<le> MAX_PACKET_SIZE + 5"
    using len by (simp_all add: p)
  ultimately show ?thesis using buf by (metis p(1) from_buffer_def raw_packet.select_convs(2))
qed

theorem raw_packet_bounds_witness:
  "\<exists>p used pl. get_raw_packet (\<lambda>z. (z, True)) None [3, 7, 1, 2, 9] = Inr (p, [9])
    \<and> [3, 7, 1, 2, 9 :: byte] = used @ [9] \<and> payload p = Some pl \<and> (\<exists>h. rp_buffer p = h @ pl)"
proof -
  obtain p where p: "get_raw_packet (\<lambda>z. (z, True)) None [3, 7, 1, 2, 9] = Inr (p, [9])"
    by (simp add: get_raw_packet_def varint_read_async_eq varint_read_small packet_body_def as_usize_def MAX_PACKET_SIZE_def)
  with raw_packet_bounds [OF p] show ?thesis by blast
qed

end
