(* ===== verification/Utf8.thy ===== *)
theory Utf8
  imports Packet_Framing "HOL-Library.Monad_Syntax"
begin

text \<open>
  Strings on the wire. A Rust string is the list of its Unicode scalar values; \<open>utf8_encode\<close> and
  \<open>from_utf8\<close> are \<open>str::as_bytes\<close> and \<open>String::from_utf8\<close> of the standard library, \<open>utf16_len\<close>
  is \<open>encode_utf16().count()\<close>. The program's own code is the lossy decoder that follows Java's
  grouping of malformed sequences and the bounded reader \<open>read_utf\<close>
  (\<open>steel-utils/src/serial/prefixed_read.rs\<close>). Bytes are 8-bit words; a \<open>u32\<close> code point stays
  below \<open>2 ^ 21\<close> and is a natural number.
\<close>

section \<open>Characters of the standard library\<close>

type_synonym rust_string = "nat list"

definition is_scalar :: "nat \<Rightarrow> bool" where
  "is_scalar c \<longleftrightarrow> c < 0xD800 \<or> 0xE000 \<le> c \<and> c \<le> 0x10FFFF"

definition char_from_u32 :: "nat \<Rightarrow> nat option" where
  "char_from_u32 c = (if is_scalar c then Some c else None)"

definition REPLACEMENT_CHARACTER :: nat where
  "REPLACEMENT_CHARACTER = 0xFFFD"

definition utf8_encode_char :: "nat \<Rightarrow> byte list" where
  "utf8_encode_char c =
     (if c < 0x80 then [of_nat c]
      else if c < 0x800 then [of_nat (0xC0 + c div 64), of_nat (0x80 + c mod 64)]
      else if c < 0x10000 then [of_nat (0xE0 + c div 4096), of_nat (0x80 + c div 64 mod 64), of_nat (0x80 + c mod 64)]
      else [of_nat (0xF0 + c div 262144), of_nat (0x80 + c div 4096 mod 64), of_nat (0x80 + c div 64 mod 64), of_nat (0x80 + c mod 64)])"

definition utf8_encode :: "rust_string \<Rightarrow> byte list" where
  "utf8_encode cs = concat (map utf8_encode_char cs)"

definition utf16_len :: "rust_string \<Rightarrow> nat" where
  "utf16_len cs = sum_list (map (\<lambda>c. if c < 0x10000 then 1 else 2) cs)"

definition utf8_width :: "byte \<Rightarrow> nat" where
  "utf8_width b = (if b < 0x80 then 1 else if b < 0xE0 then 2 else if b < 0xF0 then 3 else 4)"

fun utf8_value :: "byte list \<Rightarrow> nat" where
  "utf8_value [a] = unat a"
| "utf8_value [a, b] = unat a mod 32 * 64 + unat b mod 64"
| "utf8_value [a, b, c] = unat a mod 16 * 4096 + unat b mod 64 * 64 + unat c mod 64"
| "utf8_value [a, b, c, d] = unat a mod 8 * 262144 + unat b mod 64 * 4096 + unat c mod 64 * 64 + unat d mod 64"
| "utf8_value _ = 0"

definition valid_sequence :: "byte list \<Rightarrow> bool" where
  "valid_sequence seq \<longleftrightarrow> is_scalar (utf8_value seq) \<and> utf8_encode_char (utf8_value seq) = seq"

function from_utf8 :: "byte list \<Rightarrow> rust_string option" where
  "from_utf8 [] = Some []"
| "from_utf8 (b # bs) =
     (if valid_sequence (take (utf8_width b) (b # bs))
      then map_option (Cons (utf8_value (take (utf8_width b) (b # bs)))) (from_utf8 (drop (utf8_width b - 1) bs))
      else None)"
  by pat_completeness auto
termination
  by (relation "measure length") simp_all

section \<open>The lossy decoder\<close>

definition is_utf8_continuation :: "byte \<Rightarrow> bool" where
  "is_utf8_continuation b \<longleftrightarrow> b AND 0xC0 = 0x80"

definition malformed_three_byte_prefix :: "byte \<Rightarrow> byte \<Rightarrow> bool" where
  "malformed_three_byte_prefix a b \<longleftrightarrow> a = 0xE0 \<and> b AND 0xE0 \<noteq> 0xA0 \<or> \<not> is_utf8_continuation b"

definition malformed_three_byte_sequence :: "byte \<Rightarrow> byte \<Rightarrow> byte \<Rightarrow> bool" where
  "malformed_three_byte_sequence a b c \<longleftrightarrow> malformed_three_byte_prefix a b \<or> \<not> is_utf8_continuation c"

definition malformed_three_byte_length :: "byte \<Rightarrow> byte \<Rightarrow> nat" where
  "malformed_three_byte_length a b = (if malformed_three_byte_prefix a b then 1 else 2)"

definition malformed_four_byte_second :: "byte \<Rightarrow> byte \<Rightarrow> bool" where
  "malformed_four_byte_second a b \<longleftrightarrow>
     a = 0xF0 \<and> (b < 0x90 \<or> 0xBF < b) \<or> a = 0xF4 \<and> (b < 0x80 \<or> 0x8F < b) \<or> 0xF4 < a \<or> \<not> is_utf8_continuation b"

definition malformed_four_byte_prefix_length :: "byte \<Rightarrow> byte option \<Rightarrow> byte option \<Rightarrow> nat \<Rightarrow> nat" where
  "malformed_four_byte_prefix_length a snd_byte third_byte remaining =
     (case snd_byte of
        None \<Rightarrow> 1
      | Some b \<Rightarrow>
          if malformed_four_byte_second a b then 1
          else case third_byte of
                 Some c \<Rightarrow> if \<not> is_utf8_continuation c then 2 else remaining
               | None \<Rightarrow> remaining)"

definition malformed_four_byte_sequence :: "byte \<Rightarrow> byte \<Rightarrow> byte \<Rightarrow> byte \<Rightarrow> bool" where
  "malformed_four_byte_sequence a b c d \<longleftrightarrow>
     malformed_four_byte_second a b \<or> \<not> is_utf8_continuation c \<or> \<not> is_utf8_continuation d"

definition malformed_four_byte_length :: "byte \<Rightarrow> byte \<Rightarrow> byte \<Rightarrow> nat" where
  "malformed_four_byte_length a b c =
     (if malformed_four_byte_second a b then 1 else if \<not> is_utf8_continuation c then 2 else 3)"

definition get_byte :: "byte list \<Rightarrow> nat \<Rightarrow> byte option" where
  "get_byte bs i = (if i < length bs then Some (bs ! i) else None)"

text \<open>Indexing \<open>bytes[i]\<close>: out of range it panics, which is \<open>None\<close>.\<close>

definition index_byte :: "byte list \<Rightarrow> nat \<Rightarrow> byte option" where
  "index_byte bs i = get_byte bs i"

text \<open>
  One round of the loop on the bytes from the offset on: the character pushed and the distance
  the offset moves, or a panic of one of the indexings. The conditions that Rust evaluates only
  when the test before them lets them are evaluated only then here too.
\<close>

definition decode_step :: "byte list \<Rightarrow> (nat \<times> nat) option" where
  "decode_step bytes = do {
     a \<leftarrow> index_byte bytes 0;
     let remaining = length bytes;
     if a < 0x80 then Some (unat a, 1)
     else if 0xC2 \<le> a \<and> a \<le> 0xDF then do {
       continued \<leftarrow> (if 2 \<le> remaining then map_option is_utf8_continuation (index_byte bytes 1) else Some False);
       if continued then do {
         b \<leftarrow> index_byte bytes 1;
         let code_point = push_bit 6 (unat (a AND 0x1F)) OR unat (b AND 0x3F);
         Some (case char_from_u32 code_point of Some c \<Rightarrow> c | None \<Rightarrow> REPLACEMENT_CHARACTER, 2)
       } else Some (REPLACEMENT_CHARACTER, 1)
     }
     else if 0xE0 \<le> a \<and> a \<le> 0xEF then
       if remaining < 3 then do {
         malformed \<leftarrow> (if remaining = 1 then Some True else map_option (malformed_three_byte_prefix a) (index_byte bytes 1));
         Some (REPLACEMENT_CHARACTER, if malformed then 1 else remaining)
       } else do {
         b \<leftarrow> index_byte bytes 1;
         c \<leftarrow> index_byte bytes 2;
         if malformed_three_byte_sequence a b c then Some (REPLACEMENT_CHARACTER, malformed_three_byte_length a b)
         else let code_point = push_bit 12 (unat (a AND 0x0F)) OR push_bit 6 (unat (b AND 0x3F)) OR unat (c AND 0x3F)
              in Some (case char_from_u32 code_point of Some ch \<Rightarrow> ch | None \<Rightarrow> REPLACEMENT_CHARACTER, 3)
       }
     else if 0xF0 \<le> a \<and> a \<le> 0xF7 then
       if remaining < 4
       then Some (REPLACEMENT_CHARACTER, malformed_four_byte_prefix_length a (get_byte bytes 1) (get_byte bytes 2) remaining)
       else do {
         b \<leftarrow> index_byte bytes 1;
         c \<leftarrow> index_byte bytes 2;
         d \<leftarrow> index_byte bytes 3;
         if malformed_four_byte_sequence a b c d then Some (REPLACEMENT_CHARACTER, malformed_four_byte_length a b c)
         else let code_point = push_bit 18 (unat (a AND 0x07)) OR push_bit 12 (unat (b AND 0x3F))
                               OR push_bit 6 (unat (c AND 0x3F)) OR unat (d AND 0x3F)
              in Some (case char_from_u32 code_point of Some ch \<Rightarrow> ch | None \<Rightarrow> REPLACEMENT_CHARACTER, 4)
       }
     else Some (REPLACEMENT_CHARACTER, 1)
   }"

text \<open>
  What a round guarantees: it does not panic, it moves the offset forward and not beyond the end,
  and the character it pushes is a scalar value, which needs two UTF-16 units only if the round
  consumed at least two bytes. The rules below take a round apart along the branches of the code.
\<close>

definition or_replacement :: "nat \<Rightarrow> nat" where
  "or_replacement c = (if is_scalar c then c else REPLACEMENT_CHARACTER)"

lemma char_or_replacement: "(case char_from_u32 c of Some c' \<Rightarrow> c' | None \<Rightarrow> REPLACEMENT_CHARACTER) = or_replacement c"
  by (simp add: char_from_u32_def or_replacement_def)

definition round_fine :: "nat \<Rightarrow> (nat \<times> nat) option \<Rightarrow> bool" where
  "round_fine remaining r \<longleftrightarrow>
     (\<exists>c n. r = Some (c, n) \<and> 1 \<le> n \<and> n \<le> remaining \<and> is_scalar c \<and> (0x10000 \<le> c \<longrightarrow> 2 \<le> n))"

lemma round_fine_if:
  "(P \<Longrightarrow> round_fine k x) \<Longrightarrow> (\<not> P \<Longrightarrow> round_fine k y) \<Longrightarrow> round_fine k (if P then x else y)"
  by simp

lemma round_fine_Some:
  "1 \<le> n \<and> n \<le> k \<Longrightarrow> round_fine k (Some (REPLACEMENT_CHARACTER, n))"
  "a < (0x80 :: byte) \<Longrightarrow> 1 \<le> k \<Longrightarrow> round_fine k (Some (unat a, 1))"
  "2 \<le> k \<Longrightarrow> round_fine k (Some (or_replacement c, 2))"
  "3 \<le> k \<Longrightarrow> round_fine k (Some (or_replacement c, 3))"
  "4 \<le> k \<Longrightarrow> round_fine k (Some (or_replacement c, 4))"
  by (simp_all add: round_fine_def or_replacement_def REPLACEMENT_CHARACTER_def is_scalar_def word_less_nat_alt)

lemma round_fine_index:
  "i < length bs \<Longrightarrow> round_fine k (f (bs ! i)) \<Longrightarrow> round_fine k (index_byte bs i \<bind> f)"
  by (simp add: index_byte_def get_byte_def)

lemma round_fine_guarded:
  "(P \<Longrightarrow> i < length bs) \<Longrightarrow> (P \<Longrightarrow> round_fine k (f (g (bs ! i)))) \<Longrightarrow> (\<not> P \<Longrightarrow> round_fine k (f v))
    \<Longrightarrow> round_fine k ((if P then map_option g (index_byte bs i) else Some v) \<bind> f)"
  "(\<not> P \<Longrightarrow> i < length bs) \<Longrightarrow> (P \<Longrightarrow> round_fine k (f v)) \<Longrightarrow> (\<not> P \<Longrightarrow> round_fine k (f (g (bs ! i))))
    \<Longrightarrow> round_fine k ((if P then Some v else map_option g (index_byte bs i)) \<bind> f)"
  by (simp_all add: index_byte_def get_byte_def)

lemma malformed_lengths:
  "4 \<le> k \<Longrightarrow> 1 \<le> malformed_four_byte_length a b c \<and> malformed_four_byte_length a b c \<le> k"
  "3 \<le> k \<Longrightarrow> 1 \<le> malformed_three_byte_length a b \<and> malformed_three_byte_length a b \<le> k"
  "1 \<le> length bs \<Longrightarrow> 1 \<le> malformed_four_byte_prefix_length a (get_byte bs 1) (get_byte bs 2) (length bs)
    \<and> malformed_four_byte_prefix_length a (get_byte bs 1) (get_byte bs 2) (length bs) \<le> length bs"
  "1 \<le> k \<Longrightarrow> 1 \<le> (if m then 1 else k) \<and> (if m then 1 else k) \<le> k"
  by (auto simp: malformed_four_byte_length_def malformed_three_byte_length_def malformed_four_byte_prefix_length_def get_byte_def
      split: option.split)

lemma decode_step_fine:
  assumes "bytes \<noteq> []"
  shows "round_fine (length bytes) (decode_step bytes)"
proof -
  have "1 \<le> length bytes" using assms by (cases bytes) simp_all
  then show ?thesis
    unfolding decode_step_def Let_def char_or_replacement
    by (intro round_fine_index round_fine_guarded round_fine_if round_fine_Some malformed_lengths; (assumption | linarith | simp))
qed

lemma decode_step_advance: "bytes \<noteq> [] \<Longrightarrow> decode_step bytes = Some (c, n) \<Longrightarrow> 1 \<le> n \<and> n \<le> length bytes"
  using decode_step_fine [of bytes] by (auto simp: round_fine_def)

text \<open>The loop; \<open>None\<close> is the panic of a round.\<close>

function decode_java_utf8_lossy :: "byte list \<Rightarrow> rust_string option" where
  "decode_java_utf8_lossy bytes =
     (if bytes = [] then Some []
      else do {
        (c, n) \<leftarrow> decode_step bytes;
        decoded \<leftarrow> decode_java_utf8_lossy (drop n bytes);
        Some (c # decoded)
      })"
  by pat_completeness auto
termination
proof (relation "measure length", simp, clarify)
  fix bytes :: "byte list" and c n
  assume "bytes \<noteq> []" "decode_step bytes = Some (c, n)"
  then show "(drop n bytes, bytes) \<in> measure length"
    using decode_step_advance [of bytes c n] by auto
qed

declare decode_java_utf8_lossy.simps [simp del]

text \<open>\<open>checked_mul\<close> and \<open>checked_add\<close> of \<open>usize\<close>; positions fit, since slices do.\<close>

definition checked_mul_usize :: "nat \<Rightarrow> nat \<Rightarrow> nat option" where
  "checked_mul_usize a b = (if a * b < 2 ^ 64 then Some (a * b) else None)"

definition read_utf :: "nat \<Rightarrow> byte list \<Rightarrow> (io_error + rust_string \<times> byte list) option" where
  "read_utf max_utf16_units data =
     (case varint_read data of
        Inl e \<Rightarrow> Some (Inl e)
      | Inr (v, rest) \<Rightarrow>
          if sint v < 0 then Some (Inl InvalidData)
          else let encoded_len = nat (sint v)
               in case checked_mul_usize max_utf16_units 3 of
                    None \<Rightarrow> Some (Inl InvalidInput)
                  | Some max_encoded_len \<Rightarrow>
                      if max_encoded_len < encoded_len then Some (Inl InvalidData)
                      else if length rest < encoded_len then Some (Inl UnexpectedEof)
                      else do {
                        decoded \<leftarrow> decode_java_utf8_lossy (take encoded_len rest);
                        Some (if max_utf16_units < utf16_len decoded then Inl InvalidData
                              else Inr (decoded, drop encoded_len rest))
                      })"

section \<open>Bytes as numbers\<close>

lemma unat_byte: "n < 256 \<Longrightarrow> unat (of_nat n :: byte) = n"
  by (simp add: unat_of_nat take_bit_nat_eq_self_iff)

lemma unat_and_low:
  "unat (b AND 0x3F) = unat (b :: byte) mod 64" "unat (b AND 0x1F) = unat b mod 32"
  "unat (b AND 0x0F) = unat b mod 16" "unat (b AND 0x07) = unat b mod 8"
proof -
  have low: "unat (take_bit n b) = unat b mod 2 ^ n" for n
    unfolding unat_take_bit by (simp add: take_bit_eq_mod)
  have "b AND 0x3F = take_bit 6 b" "b AND 0x1F = take_bit 5 b" "b AND 0x0F = take_bit 4 b" "b AND 0x07 = take_bit 3 b"
    by (simp_all add: take_bit_eq_mask mask_eq_exp_minus_1)
  then show "unat (b AND 0x3F) = unat (b :: byte) mod 64" "unat (b AND 0x1F) = unat b mod 32"
    "unat (b AND 0x0F) = unat b mod 16" "unat (b AND 0x07) = unat b mod 8"
    by (simp_all add: low)
qed

lemma and_high_table:
  "list_all (\<lambda>n. ((of_nat n :: byte) AND 0xC0 = 0x80 \<longleftrightarrow> n div 64 = 2) \<and> ((of_nat n :: byte) AND 0xE0 = 0xA0 \<longleftrightarrow> n div 32 = 5)) [0..<256]"
  by code_simp

lemma and_high:
  "b AND 0xC0 = (0x80 :: byte) \<longleftrightarrow> unat b div 64 = 2" "b AND 0xE0 = (0xA0 :: byte) \<longleftrightarrow> unat b div 32 = 5"
proof -
  have "unat b < 256" using unsigned_less [of b] by simp
  then have "((of_nat (unat b) :: byte) AND 0xC0 = 0x80 \<longleftrightarrow> unat b div 64 = 2)
    \<and> ((of_nat (unat b) :: byte) AND 0xE0 = 0xA0 \<longleftrightarrow> unat b div 32 = 5)"
    using and_high_table unfolding list_all_iff by (metis (no_types, lifting) atLeastLessThan_iff le0 set_upt)
  then show "b AND 0xC0 = (0x80 :: byte) \<longleftrightarrow> unat b div 64 = 2" "b AND 0xE0 = (0xA0 :: byte) \<longleftrightarrow> unat b div 32 = 5"
    by simp_all
qed

lemma push_or: "y < 2 ^ n \<Longrightarrow> push_bit n x OR y = x * 2 ^ n + (y :: nat)"
proof -
  assume y: "y < 2 ^ n"
  then have "take_bit n y = y" by (simp add: take_bit_nat_eq_self_iff)
  then have "\<not> bit (push_bit n x) m \<or> \<not> bit y m" for m
    by (metis bit_push_bit_iff bit_take_bit_iff not_le)
  then have "push_bit n x OR y = push_bit n x + y" by (metis disjunctive_add)
  then show ?thesis by (simp add: push_bit_eq_mult)
qed

section \<open>Decoding what was encoded\<close>

lemma byte_offsets:
  fixes x :: nat
  shows "x < 64 \<Longrightarrow> (0x80 + x) mod 64 = x" "x < 64 \<Longrightarrow> (0x80 + x) div 64 = 2"
    "x < 32 \<Longrightarrow> (0xC0 + x) mod 32 = x" "x < 16 \<Longrightarrow> (0xE0 + x) mod 16 = x" "x < 8 \<Longrightarrow> (0xF0 + x) mod 8 = x"
    "32 \<le> x \<Longrightarrow> x < 64 \<Longrightarrow> (0x80 + x) div 32 = 5"
proof -
  show "x < 64 \<Longrightarrow> (0x80 + x) mod 64 = x" using mod_mult_self4 [of 64 2 x] by simp
  show "x < 64 \<Longrightarrow> (0x80 + x) div 64 = 2" using div_mult_self4 [of 64 2 x] by simp
  show "x < 32 \<Longrightarrow> (0xC0 + x) mod 32 = x" using mod_mult_self4 [of 32 6 x] by simp
  show "x < 16 \<Longrightarrow> (0xE0 + x) mod 16 = x" using mod_mult_self4 [of 16 14 x] by simp
  show "x < 8 \<Longrightarrow> (0xF0 + x) mod 8 = x" using mod_mult_self4 [of 8 30 x] by simp
  show "32 \<le> x \<Longrightarrow> x < 64 \<Longrightarrow> (0x80 + x) div 32 = 5"
    using div_mult_self4 [of 32 4 x] div_nat_eqI [of 32 1 x] by simp
qed

lemma byte_values:
  fixes x :: nat
  shows "x < 64 \<Longrightarrow> unat (of_nat (0x80 + x) :: byte) = 0x80 + x" "x < 64 \<Longrightarrow> unat (of_nat (0xC0 + x) :: byte) = 0xC0 + x"
    "x < 32 \<Longrightarrow> unat (of_nat (0xE0 + x) :: byte) = 0xE0 + x" "x < 16 \<Longrightarrow> unat (of_nat (0xF0 + x) :: byte) = 0xF0 + x"
  by (rule unat_byte, simp)+

text \<open>The rounds that decode a character, on the numeric values of the bytes.\<close>

lemmas byte_order = word_less_nat_alt word_le_nat_alt

lemma decode_step_two:
  assumes "0xC2 \<le> unat a" "unat a \<le> 0xDF" "unat b div 64 = 2"
  shows "decode_step (a # b # rest) = Some (or_replacement (unat a mod 32 * 64 + unat b mod 64), 2)"
proof -
  have "push_bit 6 (unat (a AND 0x1F)) OR unat (b AND 0x3F) = unat a mod 32 * 64 + unat b mod 64"
    unfolding unat_and_low by (simp add: push_or)
  moreover have "\<not> a < 0x80" "0xC2 \<le> a" "a \<le> 0xDF" using assms by (simp_all add: byte_order)
  moreover have "is_utf8_continuation b" using assms by (simp add: is_utf8_continuation_def and_high)
  ultimately show ?thesis by (simp add: decode_step_def index_byte_def get_byte_def Let_def char_or_replacement)
qed

lemma decode_step_three:
  assumes "0xE0 \<le> unat a" "unat a \<le> 0xEF" "unat b div 64 = 2" "unat c div 64 = 2" "unat a = 0xE0 \<Longrightarrow> unat b div 32 = 5"
  shows "decode_step (a # b # c # rest) = Some (or_replacement (unat a mod 16 * 4096 + (unat b mod 64 * 64 + unat c mod 64)), 3)"
proof -
  have "unat b mod 64 * 64 + unat c mod 64 < 2 ^ 12" by simp
  then have "push_bit 12 (unat (a AND 0x0F)) OR push_bit 6 (unat (b AND 0x3F)) OR unat (c AND 0x3F)
      = unat a mod 16 * 4096 + (unat b mod 64 * 64 + unat c mod 64)"
    unfolding unat_and_low by (simp add: push_or)
  moreover have "\<not> a < 0x80" "\<not> (0xC2 \<le> a \<and> a \<le> 0xDF)" "0xE0 \<le> a" "a \<le> 0xEF" using assms by (simp_all add: byte_order)
  moreover have "\<not> malformed_three_byte_sequence a b c"
    using assms by (auto simp: malformed_three_byte_sequence_def malformed_three_byte_prefix_def is_utf8_continuation_def and_high)
  ultimately show ?thesis by (simp add: decode_step_def index_byte_def get_byte_def Let_def char_or_replacement)
qed

lemma decode_step_four:
  assumes "0xF0 \<le> unat a" "unat a \<le> 0xF4" "unat b div 64 = 2" "unat c div 64 = 2" "unat d div 64 = 2"
    "unat a = 0xF0 \<Longrightarrow> 0x90 \<le> unat b" "unat a = 0xF4 \<Longrightarrow> unat b \<le> 0x8F"
  shows "decode_step (a # b # c # d # rest) =
    Some (or_replacement (unat a mod 8 * 262144 + (unat b mod 64 * 4096 + (unat c mod 64 * 64 + unat d mod 64))), 4)"
proof -
  have "unat c mod 64 * 64 + unat d mod 64 < 2 ^ 12" by simp
  moreover have "unat b mod 64 \<le> 63" by simp
  then have "unat b mod 64 * 4096 + (unat c mod 64 * 64 + unat d mod 64) < 2 ^ 18" using calculation by simp
  ultimately have "push_bit 18 (unat (a AND 0x07)) OR push_bit 12 (unat (b AND 0x3F)) OR push_bit 6 (unat (c AND 0x3F)) OR unat (d AND 0x3F)
      = unat a mod 8 * 262144 + (unat b mod 64 * 4096 + (unat c mod 64 * 64 + unat d mod 64))"
    unfolding unat_and_low by (simp add: push_or)
  moreover have "\<not> a < 0x80" "\<not> a \<le> 0xDF" "\<not> a \<le> 0xEF" "0xF0 \<le> a" "a \<le> 0xF7"
    using assms by (simp_all add: byte_order)
  moreover have "unat b \<le> 0xBF" "0x80 \<le> unat b" using assms(3) by linarith+
  then have "\<not> malformed_four_byte_second a b"
    using assms by (auto simp: malformed_four_byte_second_def is_utf8_continuation_def and_high byte_order)
  then have "\<not> malformed_four_byte_sequence a b c d"
    using assms by (simp add: malformed_four_byte_sequence_def is_utf8_continuation_def and_high)
  ultimately show ?thesis by (simp add: decode_step_def index_byte_def get_byte_def Let_def char_or_replacement)
qed

lemma split_12: "c div 4096 * 4096 + (c div 64 mod 64 * 64 + c mod 64) = (c :: nat)"
proof -
  have "c div 64 mod 64 * 64 + c mod 64 = c mod 4096" using mod_mult2_eq [of c 64 64] by (simp add: mult.commute)
  then show ?thesis by simp
qed

lemma split_18: "c div 262144 * 262144 + (c div 4096 mod 64 * 4096 + (c div 64 mod 64 * 64 + c mod 64)) = (c :: nat)"
proof -
  have "c div 4096 mod 64 * 4096 + c mod 4096 = c mod 262144" using mod_mult2_eq [of c 4096 64] by (simp add: mult.commute)
  moreover have "c div 64 mod 64 * 64 + c mod 64 = c mod 4096" using mod_mult2_eq [of c 64 64] by (simp add: mult.commute)
  ultimately show ?thesis by simp
qed

lemma scalar_cases [consumes 1, case_names one two three four]:
  assumes "is_scalar c"
  obtains "c < 0x80" | "0x80 \<le> c" "c < 0x800"
  | "0x800 \<le> c" "c < 0x10000" | "0x10000 \<le> c" "c \<le> 0x10FFFF"
  using assms unfolding is_scalar_def by linarith

lemma decode_step_char:
  assumes "is_scalar c"
  shows "decode_step (utf8_encode_char c @ rest) = Some (c, length (utf8_encode_char c))"
  using assms
proof (cases rule: scalar_cases)
  case one
  then show ?thesis by (simp add: decode_step_def index_byte_def get_byte_def utf8_encode_char_def Let_def word_less_nat_alt unat_byte)
next
  case two
  let ?x = "c div 64" and ?y = "c mod 64"
  have d: "2 \<le> ?x" "?x < 32" "?y < 64" using two by auto
  have e: "utf8_encode_char c = [of_nat (0xC0 + ?x), of_nat (0x80 + ?y)]" using two by (simp add: utf8_encode_char_def)
  show ?thesis unfolding e append_Cons append_Nil
    by (subst decode_step_two) (use d assms in \<open>simp_all add: byte_offsets byte_values or_replacement_def del: of_nat_add\<close>)
next
  case three
  let ?x = "c div 4096" and ?y = "c div 64 mod 64" and ?z = "c mod 64"
  have d: "?x < 16" "?y < 64" "?z < 64" using three by auto
  have low: "32 \<le> ?y" if "?x = 0" using that three by auto
  have e: "utf8_encode_char c = [of_nat (0xE0 + ?x), of_nat (0x80 + ?y), of_nat (0x80 + ?z)]" using three by (simp add: utf8_encode_char_def)
  show ?thesis unfolding e append_Cons append_Nil
    by (subst decode_step_three) (use d low assms split_12 [of c] in \<open>simp_all add: byte_offsets byte_values or_replacement_def del: of_nat_add\<close>)
next
  case four
  let ?w = "c div 262144" and ?x = "c div 4096 mod 64" and ?y = "c div 64 mod 64" and ?z = "c mod 64"
  have d: "?w < 5" "?x < 64" "?y < 64" "?z < 64" using four by auto
  have b: "16 \<le> ?x" if "?w = 0" using that four by auto
  have t: "?x \<le> 15" if "?w = 4"
  proof -
    have "256 \<le> c div 4096" "c div 4096 \<le> 271" using that four by auto
    then obtain r where "c div 4096 = 4 * 64 + r" "r \<le> 15" using le_Suc_ex [of 256 "c div 4096"] by auto
    then show ?thesis using mod_mult_self4 [of 64 4 r] by simp
  qed
  have e: "utf8_encode_char c = [of_nat (0xF0 + ?w), of_nat (0x80 + ?x), of_nat (0x80 + ?y), of_nat (0x80 + ?z)]"
    using four by (simp add: utf8_encode_char_def)
  show ?thesis unfolding e append_Cons append_Nil
    by (subst decode_step_four) (use d b t assms split_18 [of c] in \<open>simp_all add: byte_offsets byte_values or_replacement_def del: of_nat_add\<close>)
qed

lemma utf8_encode_Cons [simp]: "utf8_encode (c # cs) = utf8_encode_char c @ utf8_encode cs" "utf8_encode [] = []"
  by (simp_all add: utf8_encode_def)

lemma utf8_encode_char_ne: "utf8_encode_char c \<noteq> []"
  by (simp add: utf8_encode_char_def)

lemma decode_utf8_encode: "list_all is_scalar cs \<Longrightarrow> decode_java_utf8_lossy (utf8_encode cs) = Some cs"
proof (induction cs)
  case Nil
  then show ?case by (simp add: decode_java_utf8_lossy.simps)
next
  case (Cons c cs)
  then show ?case using decode_step_char [of c "utf8_encode cs"] utf8_encode_char_ne [of c]
    by (subst decode_java_utf8_lossy.simps) simp
qed

text \<open>Lengths: a character takes between one and three bytes per UTF-16 unit.\<close>

lemma utf16_len_simps [simp]:
  "utf16_len [] = 0" "utf16_len (c # cs) = (if c < 0x10000 then 1 else 2) + utf16_len cs"
  by (simp_all add: utf16_len_def)

lemma utf8_length_le: "length (utf8_encode cs) \<le> 3 * utf16_len cs"
proof (induction cs)
  case (Cons c cs)
  have "length (utf8_encode_char c) \<le> 3 * (if c < 0x10000 then 1 else 2)" by (simp add: utf8_encode_char_def)
  with Cons show ?case by simp
qed simp

lemma decode_total:
  "\<exists>cs. decode_java_utf8_lossy bs = Some cs \<and> list_all is_scalar cs \<and> utf16_len cs \<le> length bs"
proof (induction bs rule: decode_java_utf8_lossy.induct)
  case (1 bs)
  show ?case
  proof (cases "bs = []")
    case True
    then show ?thesis by (simp add: decode_java_utf8_lossy.simps)
  next
    case False
    from decode_step_fine [OF False] obtain c n
      where cn: "decode_step bs = Some (c, n)" "is_scalar c" "0x10000 \<le> c \<longrightarrow> 2 \<le> n" by (auto simp: round_fine_def)
    from "1.IH" [OF False cn(1) refl] obtain cs where
      cs: "decode_java_utf8_lossy (drop n bs) = Some cs" "list_all is_scalar cs" "utf16_len cs \<le> length bs - n" by auto
    have "decode_java_utf8_lossy bs = Some (c # cs)"
      using False cn(1) cs(1) by (subst decode_java_utf8_lossy.simps) simp
    moreover have "1 \<le> n" "n \<le> length bs" using decode_step_advance [OF False cn(1)] by simp_all
    ultimately show ?thesis using cs cn(2,3) by auto
  qed
qed

section \<open>Strict decoding\<close>

lemma utf8_char_strict:
  assumes "is_scalar c"
  shows "\<exists>b bs. utf8_encode_char c = b # bs \<and> utf8_width b = Suc (length bs) \<and> utf8_value (b # bs) = c"
  using assms
proof (cases rule: scalar_cases)
  case one
  then show ?thesis by (simp add: utf8_encode_char_def utf8_width_def byte_order unat_byte)
next
  case two
  let ?x = "c div 64" and ?y = "c mod 64"
  have d: "?x < 32" "?y < 64" "2 \<le> ?x" using two by auto
  then have "unat (of_nat (0xC0 + ?x) :: byte) = 0xC0 + ?x" by (simp add: byte_offsets byte_values del: of_nat_add)
  then have "utf8_width (of_nat (0xC0 + ?x)) = 2" using d by (simp add: utf8_width_def byte_order del: of_nat_add)
  moreover have "utf8_value [of_nat (0xC0 + ?x), of_nat (0x80 + ?y)] = c" using d by (simp add: byte_offsets byte_values del: of_nat_add)
  ultimately show ?thesis using two by (simp add: utf8_encode_char_def del: of_nat_add)
next
  case three
  let ?x = "c div 4096" and ?y = "c div 64 mod 64" and ?z = "c mod 64"
  have d: "?x < 16" "?y < 64" "?z < 64" using three by auto
  then have "unat (of_nat (0xE0 + ?x) :: byte) = 0xE0 + ?x" by (simp add: byte_offsets byte_values del: of_nat_add)
  then have "utf8_width (of_nat (0xE0 + ?x)) = 3" using d by (simp add: utf8_width_def byte_order del: of_nat_add)
  moreover have "utf8_value [of_nat (0xE0 + ?x), of_nat (0x80 + ?y), of_nat (0x80 + ?z)] = c"
    using d split_12 [of c] by (simp add: byte_offsets byte_values del: of_nat_add)
  ultimately show ?thesis using three by (simp add: utf8_encode_char_def del: of_nat_add)
next
  case four
  let ?w = "c div 262144" and ?x = "c div 4096 mod 64" and ?y = "c div 64 mod 64" and ?z = "c mod 64"
  have d: "?w < 5" "?x < 64" "?y < 64" "?z < 64" using four by auto
  then have "unat (of_nat (0xF0 + ?w) :: byte) = 0xF0 + ?w" by (simp add: byte_offsets byte_values del: of_nat_add)
  then have "utf8_width (of_nat (0xF0 + ?w)) = 4" using d by (simp add: utf8_width_def byte_order del: of_nat_add)
  moreover have "utf8_value [of_nat (0xF0 + ?w), of_nat (0x80 + ?x), of_nat (0x80 + ?y), of_nat (0x80 + ?z)] = c"
    using d split_18 [of c] by (simp add: byte_offsets byte_values del: of_nat_add)
  ultimately show ?thesis using four by (simp add: utf8_encode_char_def del: of_nat_add)
qed

lemma from_utf8_encode: "list_all is_scalar cs \<Longrightarrow> from_utf8 (utf8_encode cs) = Some cs"
proof (induction cs)
  case (Cons c cs)
  from utf8_char_strict [of c] Cons.prems obtain b bs where
    "utf8_encode_char c = b # bs" "utf8_width b = Suc (length bs)" "utf8_value (b # bs) = c" by auto
  with Cons show ?case by (simp add: valid_sequence_def)
qed simp

lemma from_utf8_sound: "from_utf8 bs = Some cs \<Longrightarrow> utf8_encode cs = bs \<and> list_all is_scalar cs"
proof (induction bs arbitrary: cs rule: from_utf8.induct)
  case (2 b bs)
  then obtain cs' where v: "valid_sequence (take (utf8_width b) (b # bs))"
    and cs': "from_utf8 (drop (utf8_width b - 1) bs) = Some cs'" "cs = utf8_value (take (utf8_width b) (b # bs)) # cs'"
    by (auto split: if_splits)
  have "take (utf8_width b) (b # bs) @ drop (utf8_width b - 1) bs = b # bs"
    by (cases "utf8_width b") (auto simp: utf8_width_def split: if_splits)
  with "2.IH" [OF v cs'(1)] v cs'(2) show ?case by (simp add: valid_sequence_def)
qed simp

lemma sint_as_i32: "n < 2 ^ 31 \<Longrightarrow> sint (as_i32 n) = int n"
  by (simp add: as_i32_def sint_uint uint_nat unat_of_nat take_bit_nat_eq_self_iff signed_take_bit_int_eq_self_iff)

section \<open>Properties\<close>

text \<open>
  A string is read back: its length-prefixed UTF-8 form is accepted by \<open>read_utf\<close> whenever the
  string has at most the allowed number of UTF-16 units, since three bytes per unit always
  suffice, and what is read is the string itself, with the bytes behind it left on the cursor. A
  longer string is rejected.
\<close>
theorem read_utf_reads_back:
  assumes "list_all is_scalar s" and "length (utf8_encode s) < 2 ^ 31" and "max_units * 3 < 2 ^ 64"
  shows "read_utf max_units (varint_write (as_i32 (length (utf8_encode s))) @ utf8_encode s @ rest) =
    Some (if utf16_len s \<le> max_units then Inr (s, rest) else Inl InvalidData)"
proof -
  have "length (utf8_encode s) \<le> max_units * 3" if "utf16_len s \<le> max_units"
    using utf8_length_le [of s] that by simp
  then show ?thesis
    using assms sint_as_i32 [OF assms(2)]
    by (auto simp: read_utf_def varint_read_write checked_mul_usize_def Let_def decode_utf8_encode)
qed

theorem read_utf_reads_back_witness:
  "read_utf 2 (varint_write (as_i32 (length (utf8_encode [0x1F600]))) @ utf8_encode [0x1F600] @ [1]) = Some (Inr ([0x1F600], [1]))"
  by (subst read_utf_reads_back) (simp_all add: is_scalar_def utf8_encode_char_def utf16_len_def)

text \<open>
  C40. The lossy decoder never panics: on every byte sequence it returns a string, so none of the
  indexings behind the offset is out of range. Each round consumes at least one byte and no more
  than there are, every character produced is a Unicode scalar value, and the result has at most
  as many UTF-16 units as there were bytes. Nor does \<open>read_utf\<close> ever panic.
\<close>
theorem lossy_decoder_total:
  "(\<exists>cs. decode_java_utf8_lossy bs = Some cs \<and> list_all is_scalar cs \<and> utf16_len cs \<le> length bs)
   \<and> (bs \<noteq> [] \<longrightarrow> (\<exists>c n cs. decode_step bs = Some (c, n) \<and> 1 \<le> n \<and> n \<le> length bs
        \<and> decode_java_utf8_lossy (drop n bs) = Some cs \<and> decode_java_utf8_lossy bs = Some (c # cs)))
   \<and> read_utf max_units bs \<noteq> None"
proof (intro conjI impI)
  show "\<exists>cs. decode_java_utf8_lossy bs = Some cs \<and> list_all is_scalar cs \<and> utf16_len cs \<le> length bs"
    by (rule decode_total)
next
  assume ne: "bs \<noteq> []"
  from decode_step_fine [OF this] obtain c n where cn: "decode_step bs = Some (c, n)" by (auto simp: round_fine_def)
  from decode_total [of "drop n bs"] obtain cs where "decode_java_utf8_lossy (drop n bs) = Some cs" by blast
  with ne cn have "decode_java_utf8_lossy bs = Some (c # cs)" by (subst decode_java_utf8_lossy.simps) simp
  with cn \<open>decode_java_utf8_lossy (drop n bs) = Some cs\<close> decode_step_advance [OF ne cn]
  show "\<exists>c n cs. decode_step bs = Some (c, n) \<and> 1 \<le> n \<and> n \<le> length bs
      \<and> decode_java_utf8_lossy (drop n bs) = Some cs \<and> decode_java_utf8_lossy bs = Some (c # cs)" by blast
next
  have "\<exists>y. decode_java_utf8_lossy x \<bind> (\<lambda>d. Some (f d)) = Some y" for x and f :: "rust_string \<Rightarrow> io_error + rust_string \<times> byte list"
    using decode_total [of x] by auto
  then show "read_utf max_units bs \<noteq> None"
    by (auto simp: read_utf_def Let_def split: sum.splits prod.splits option.splits if_splits)
qed

theorem lossy_decoder_total_witness:
  "\<exists>cs. decode_java_utf8_lossy [0xE1] = Some (REPLACEMENT_CHARACTER # cs)"
  using lossy_decoder_total [of "[0xE1]" 1] by (auto simp: decode_step_def index_byte_def get_byte_def Let_def)

text \<open>
  On well-formed UTF-8 the lossy decoder agrees with the strict one of the standard library:
  it never replaces a character that was encoded properly.
\<close>
theorem lossy_agrees_with_strict:
  assumes "from_utf8 bs = Some s"
  shows "decode_java_utf8_lossy bs = Some s \<and> utf8_encode s = bs"
  using from_utf8_sound [OF assms] decode_utf8_encode [of s] by auto

theorem lossy_agrees_with_strict_witness:
  "decode_java_utf8_lossy [0x41] = Some [65]"
proof -
  have "utf8_value [0x41] = 65" "utf8_width 0x41 = 1" by (simp_all add: utf8_width_def)
  then have "from_utf8 [0x41] = Some [65]" by (simp add: valid_sequence_def is_scalar_def utf8_encode_char_def)
  from lossy_agrees_with_strict [OF this] show ?thesis by simp
qed

end
