(* ===== verification/Serial.thy ===== *)
theory Serial
  imports Utf8
begin

text \<open>
  Serialisation of values (\<open>steel-utils/src/serial/\<close> and \<open>codec/bit_set.rs\<close>): the \<open>ReadFrom\<close> and
  \<open>WriteTo\<close> implementations of the primitive types, of options, arrays and UUIDs, and the
  length-prefixed forms with their bounds. A reader takes the bytes left on its cursor and gives
  a value and the rest, or an error; a writer gives the bytes it appends, or an error (the bytes
  already written before an error are of no use to anyone and are not kept). The locale
  \<open>codec\<close> is the contract between a writer and its reader; every combinator keeps it.
\<close>

type_synonym 'a reader = "byte list \<Rightarrow> io_error + 'a \<times> byte list"
type_synonym 'a writer = "'a \<Rightarrow> io_error + byte list"

section \<open>Primitives\<close>

definition read_exact :: "nat \<Rightarrow> byte list reader" where
  "read_exact n data = (if length data < n then Inl UnexpectedEof else Inr (take n data, drop n data))"

text \<open>\<open>to_be_bytes\<close> and \<open>from_be_bytes\<close> of a word of any width.\<close>

definition to_be_bytes :: "'a::len word \<Rightarrow> byte list" where
  "to_be_bytes w = map (\<lambda>i. ucast (drop_bit (8 * i) w)) (rev [0..<LENGTH('a) div 8])"

definition from_be_bytes :: "byte list \<Rightarrow> 'a::len word" where
  "from_be_bytes bs = foldl (\<lambda>acc b. push_bit 8 acc OR ucast b) 0 bs"

definition read_be :: "'a::len word reader" where
  "read_be data =
     (case read_exact (LENGTH('a) div 8) data of
        Inl e \<Rightarrow> Inl e
      | Inr (buf, rest) \<Rightarrow> Inr (from_be_bytes buf, rest))"

definition read_u8 :: "8 word reader" where "read_u8 = read_be"
definition read_u16 :: "16 word reader" where "read_u16 = read_be"
definition read_u32 :: "32 word reader" where "read_u32 = read_be"
definition read_u64 :: "64 word reader" where "read_u64 = read_be"

definition write_u8 :: "8 word writer" where "write_u8 w = Inr (to_be_bytes w)"
definition write_u16 :: "16 word writer" where "write_u16 w = Inr (to_be_bytes w)"
definition write_u32 :: "32 word writer" where "write_u32 w = Inr (to_be_bytes w)"
definition write_u64 :: "64 word writer" where "write_u64 w = Inr (to_be_bytes w)"

definition read_bool :: "bool reader" where
  "read_bool data = (case read_u8 data of Inl e \<Rightarrow> Inl e | Inr (b, rest) \<Rightarrow> Inr (b \<noteq> 0, rest))"

definition write_bool :: "bool writer" where
  "write_bool b = write_u8 (if b then 1 else 0)"

definition write_varint :: "32 word writer" where
  "write_varint v = Inr (varint_write v)"

section \<open>Combinators\<close>

definition and_then :: "io_error + byte list \<Rightarrow> io_error + byte list \<Rightarrow> io_error + byte list" where
  "and_then x y = (case x of Inl e \<Rightarrow> Inl e | Inr a \<Rightarrow> (case y of Inl e \<Rightarrow> Inl e | Inr b \<Rightarrow> Inr (a @ b)))"

definition read_option :: "'a reader \<Rightarrow> 'a option reader" where
  "read_option rd data =
     (case read_bool data of
        Inl e \<Rightarrow> Inl e
      | Inr (present, data) \<Rightarrow>
          if present then (case rd data of Inl e \<Rightarrow> Inl e | Inr (v, rest) \<Rightarrow> Inr (Some v, rest))
          else Inr (None, data))"

definition write_option :: "'a writer \<Rightarrow> 'a option writer" where
  "write_option wr x = (case x of Some v \<Rightarrow> and_then (write_bool True) (wr v) | None \<Rightarrow> write_bool False)"

fun read_array :: "'a reader \<Rightarrow> nat \<Rightarrow> 'a list reader" where
  "read_array rd 0 data = Inr ([], data)"
| "read_array rd (Suc n) data =
     (case rd data of
        Inl e \<Rightarrow> Inl e
      | Inr (v, data) \<Rightarrow> (case read_array rd n data of Inl e \<Rightarrow> Inl e | Inr (vs, rest) \<Rightarrow> Inr (v # vs, rest)))"

fun write_array :: "'a writer \<Rightarrow> 'a list writer" where
  "write_array wr [] = Inr []"
| "write_array wr (v # vs) = and_then (wr v) (write_array wr vs)"

definition write_pair :: "'a writer \<Rightarrow> 'b writer \<Rightarrow> ('a \<times> 'b) writer" where
  "write_pair wa wb p = and_then (wa (fst p)) (wb (snd p))"

definition read_uuid :: "(64 word \<times> 64 word) reader" where
  "read_uuid data =
     (case read_u64 data of
        Inl e \<Rightarrow> Inl e
      | Inr (msb, data) \<Rightarrow> (case read_u64 data of Inl e \<Rightarrow> Inl e | Inr (lsb, rest) \<Rightarrow> Inr ((msb, lsb), rest)))"

definition write_uuid :: "(64 word \<times> 64 word) writer" where
  "write_uuid u = and_then (write_u64 (fst u)) (write_u64 (snd u))"

section \<open>Length prefixes\<close>

definition DEFAULT_BOUND :: nat where
  "DEFAULT_BOUND = 32767"

text \<open>The prefix type is any type with a reader, a writer and conversions from and to \<open>usize\<close>.\<close>

definition read_len :: "'p reader \<Rightarrow> ('p \<Rightarrow> nat option) \<Rightarrow> nat \<Rightarrow> nat reader" where
  "read_len rp to_usize bound data =
     (case rp data of
        Inl e \<Rightarrow> Inl e
      | Inr (p, rest) \<Rightarrow>
          (case to_usize p of
             None \<Rightarrow> Inl InvalidPrefix
           | Some len \<Rightarrow> if bound < len then Inl PrefixTooLong else Inr (len, rest)))"

definition write_len :: "'p writer \<Rightarrow> (nat \<Rightarrow> 'p option) \<Rightarrow> nat \<Rightarrow> nat \<Rightarrow> io_error + byte list" where
  "write_len wp of_usize bound len =
     (if bound < len then Inl WriteTooLong
      else case of_usize len of None \<Rightarrow> Inl InvalidPrefix | Some p \<Rightarrow> wp p)"

definition read_prefixed_string :: "'p reader \<Rightarrow> ('p \<Rightarrow> nat option) \<Rightarrow> nat \<Rightarrow> rust_string reader" where
  "read_prefixed_string rp to_usize bound data =
     (case read_len rp to_usize bound data of
        Inl e \<Rightarrow> Inl e
      | Inr (len, data) \<Rightarrow>
          (case read_exact len data of
             Inl e \<Rightarrow> Inl e
           | Inr (buf, rest) \<Rightarrow> (case from_utf8 buf of None \<Rightarrow> Inl NotUtf8 | Some s \<Rightarrow> Inr (s, rest))))"

definition write_prefixed_string :: "'p writer \<Rightarrow> (nat \<Rightarrow> 'p option) \<Rightarrow> nat \<Rightarrow> rust_string writer" where
  "write_prefixed_string wp of_usize bound s =
     and_then (write_len wp of_usize bound (length (utf8_encode s))) (Inr (utf8_encode s))"

definition read_prefixed_vec :: "'p reader \<Rightarrow> ('p \<Rightarrow> nat option) \<Rightarrow> 'a reader \<Rightarrow> nat \<Rightarrow> 'a list reader" where
  "read_prefixed_vec rp to_usize rd bound data =
     (case read_len rp to_usize bound data of Inl e \<Rightarrow> Inl e | Inr (len, data) \<Rightarrow> read_array rd len data)"

definition write_prefixed_vec :: "'p writer \<Rightarrow> (nat \<Rightarrow> 'p option) \<Rightarrow> 'a writer \<Rightarrow> nat \<Rightarrow> 'a list writer" where
  "write_prefixed_vec wp of_usize wr bound vs =
     and_then (write_len wp of_usize bound (length vs)) (write_array wr vs)"

text \<open>\<open>VarInt\<close> as a prefix: both conversions are plain casts and never fail.\<close>

definition varint_to_usize :: "32 word \<Rightarrow> nat option" where
  "varint_to_usize v = Some (as_usize v)"

definition varint_of_usize :: "nat \<Rightarrow> 32 word option" where
  "varint_of_usize n = Some (as_i32 n)"

section \<open>Bit sets\<close>

type_synonym bit_set = "64 word list"

definition bitset_set :: "nat \<Rightarrow> bool \<Rightarrow> bit_set \<Rightarrow> bit_set" where
  "bitset_set i value s =
     (let u64_index = i div 64; bit_index = i mod 64
      in if length s \<le> u64_index then s
         else if value then s[u64_index := s ! u64_index OR push_bit bit_index 1]
         else s[u64_index := s ! u64_index AND NOT (push_bit bit_index 1)])"

definition bitset_read :: "bit_set reader" where
  "bitset_read data = read_prefixed_vec varint_read varint_to_usize read_u64 DEFAULT_BOUND data"

text \<open>\<open>rposition\<close> of a non-zero word, plus one.\<close>

fun trimmed_len :: "bit_set \<Rightarrow> nat" where
  "trimmed_len [] = 0"
| "trimmed_len (w # ws) = (if trimmed_len ws = 0 then (if w = 0 then 0 else 1) else Suc (trimmed_len ws))"

definition bitset_write :: "bit_set writer" where
  "bitset_write s = write_prefixed_vec write_varint varint_of_usize write_u64 DEFAULT_BOUND (take (trimmed_len s) s)"

section \<open>The contract of a codec\<close>

locale codec =
  fixes wr :: "'a writer" and rd :: "'a reader" and ok :: "'a \<Rightarrow> bool"
  assumes writes: "ok v \<Longrightarrow> \<exists>bs. wr v = Inr bs"
    and reads_back: "ok v \<Longrightarrow> wr v = Inr bs \<Longrightarrow> rd (bs @ rest) = Inr (v, rest)"
begin

lemma array_codec: "list_all ok vs \<Longrightarrow> \<exists>bs. write_array wr vs = Inr bs \<and> (\<forall>rest. read_array rd (length vs) (bs @ rest) = Inr (vs, rest))"
proof (induction vs)
  case (Cons v vs)
  then obtain bs where bs: "write_array wr vs = Inr bs" "\<forall>rest. read_array rd (length vs) (bs @ rest) = Inr (vs, rest)" by auto
  from Cons.prems writes obtain b where b: "ok v" "wr v = Inr b" by auto
  with bs reads_back [OF b] show ?case by (intro exI [of _ "b @ bs"]) (simp add: and_then_def)
qed simp

end

text \<open>A codec for lengths: every length up to the limit has a prefix that is read back as it.\<close>

locale length_prefix = codec wp rp "\<lambda>_. True" for wp :: "'p writer" and rp +
  fixes to_usize :: "'p \<Rightarrow> nat option" and of_usize :: "nat \<Rightarrow> 'p option" and limit :: nat
  assumes of_to: "n \<le> limit \<Longrightarrow> \<exists>p. of_usize n = Some p \<and> to_usize p = Some n"
begin

lemma len_codec:
  assumes "n \<le> bound" and "bound \<le> limit"
  shows "\<exists>bs. write_len wp of_usize bound n = Inr bs \<and> (\<forall>rest. read_len rp to_usize bound (bs @ rest) = Inr (n, rest))"
proof -
  from of_to [of n] assms obtain p where p: "of_usize n = Some p" "to_usize p = Some n" by auto
  obtain bs where bs: "wp p = Inr bs" using writes by blast
  with p assms reads_back [OF TrueI bs] show ?thesis by (auto simp: write_len_def read_len_def)
qed

lemma vec_codec:
  assumes "codec w r ok" and "bound \<le> limit"
  shows "codec (write_prefixed_vec wp of_usize w bound) (read_prefixed_vec rp to_usize r bound)
    (\<lambda>vs. length vs \<le> bound \<and> list_all ok vs)"
proof -
  have *: "\<exists>bs. write_prefixed_vec wp of_usize w bound vs = Inr bs
      \<and> (\<forall>rest. read_prefixed_vec rp to_usize r bound (bs @ rest) = Inr (vs, rest))"
    if "length vs \<le> bound \<and> list_all ok vs" for vs
  proof -
    from len_codec [of "length vs", OF _ assms(2)] that obtain a where
      "write_len wp of_usize bound (length vs) = Inr a" "\<forall>rest. read_len rp to_usize bound (a @ rest) = Inr (length vs, rest)" by auto
    moreover from codec.array_codec [OF assms(1)] that obtain b where
      "write_array w vs = Inr b" "\<forall>rest. read_array r (length vs) (b @ rest) = Inr (vs, rest)" by blast
    ultimately show ?thesis
      by (intro exI [of _ "a @ b"]) (simp add: write_prefixed_vec_def read_prefixed_vec_def and_then_def)
  qed
  show ?thesis by unfold_locales (use * in fastforce)+
qed

lemma string_codec:
  assumes "bound \<le> limit"
  shows "codec (write_prefixed_string wp of_usize bound) (read_prefixed_string rp to_usize bound)
    (\<lambda>s. length (utf8_encode s) \<le> bound \<and> list_all is_scalar s)"
proof -
  have *: "\<exists>bs. write_prefixed_string wp of_usize bound s = Inr bs
      \<and> (\<forall>rest. read_prefixed_string rp to_usize bound (bs @ rest) = Inr (s, rest))"
    if "length (utf8_encode s) \<le> bound \<and> list_all is_scalar s" for s
  proof -
    from len_codec [of "length (utf8_encode s)", OF _ assms] that obtain a where
      "write_len wp of_usize bound (length (utf8_encode s)) = Inr a"
      "\<forall>rest. read_len rp to_usize bound (a @ rest) = Inr (length (utf8_encode s), rest)" by auto
    with that show ?thesis
      by (intro exI [of _ "a @ utf8_encode s"])
        (simp add: write_prefixed_string_def read_prefixed_string_def and_then_def read_exact_def from_utf8_encode)
  qed
  show ?thesis by unfold_locales (use * in fastforce)+
qed

end

section \<open>Big-endian words\<close>

lemma foldl_be:
  "foldl (\<lambda>acc b. push_bit 8 acc OR ucast b) acc (map (\<lambda>i. ucast (drop_bit (8 * i) w) :: byte) (rev [0..<n]))
    = push_bit (8 * n) acc OR take_bit (8 * n) (w :: 'a::len word)"
proof (induction n arbitrary: acc)
  case (Suc n)
  have "push_bit (8 * n) (ucast (ucast (drop_bit (8 * n) w) :: byte) :: 'a word) OR take_bit (8 * n) w = take_bit (8 * Suc n) w"
    by (rule bit_word_eqI) (auto simp: bit_or_iff bit_push_bit_iff bit_take_bit_iff bit_ucast_iff bit_drop_bit_eq)
  with Suc show ?case by (simp add: push_bit_or or.assoc add.commute)
qed simp

lemma be_roundtrip:
  assumes "8 dvd LENGTH('a)"
  shows "from_be_bytes (to_be_bytes (w :: 'a::len word)) = w"
  using assms foldl_be [of 0 w "LENGTH('a) div 8"] by (simp add: from_be_bytes_def to_be_bytes_def)

lemma read_be_roundtrip:
  assumes "8 dvd LENGTH('a)"
  shows "read_be (to_be_bytes (w :: 'a::len word) @ rest) = Inr (w, rest)"
  using be_roundtrip [OF assms, of w] by (simp add: read_be_def read_exact_def to_be_bytes_def)

section \<open>The codecs of the program\<close>

interpretation u8: codec write_u8 read_u8 "\<lambda>_. True"
  by unfold_locales (auto simp: write_u8_def read_u8_def read_be_roundtrip)

interpretation u16: codec write_u16 read_u16 "\<lambda>_. True"
  by unfold_locales (auto simp: write_u16_def read_u16_def read_be_roundtrip)

interpretation u32: codec write_u32 read_u32 "\<lambda>_. True"
  by unfold_locales (auto simp: write_u32_def read_u32_def read_be_roundtrip)

interpretation u64: codec write_u64 read_u64 "\<lambda>_. True"
  by unfold_locales (auto simp: write_u64_def read_u64_def read_be_roundtrip)

lemma u64_codec: "codec write_u64 read_u64 (\<lambda>_. True)"
  by unfold_locales

lemma read_write_bool: "write_bool b = Inr bs \<Longrightarrow> read_bool (bs @ rest) = Inr (b, rest)"
  using u8.reads_back [of "if b then 1 else 0" bs rest] by (simp add: write_bool_def read_bool_def split: if_splits)

interpretation bool: codec write_bool read_bool "\<lambda>_. True"
proof
  show "\<exists>bs. write_bool v = Inr bs" for v using u8.writes by (simp add: write_bool_def)
qed (rule read_write_bool)

lemma option_codec:
  assumes "codec wr rd ok"
  shows "codec (write_option wr) (read_option rd) (pred_option ok)"
proof -
  have *: "\<exists>bs. write_option wr x = Inr bs \<and> (\<forall>rest. read_option rd (bs @ rest) = Inr (x, rest))" if "pred_option ok x" for x
  proof -
    obtain f t where ft: "write_bool False = Inr f" "write_bool True = Inr t" using bool.writes by blast
    show ?thesis
    proof (cases x)
      case None
      with ft(1) read_write_bool show ?thesis by (auto simp: write_option_def read_option_def)
    next
      case (Some v)
      with that have "ok v" by simp
      with codec.writes [OF assms] obtain bs where "wr v = Inr bs" by blast
      with Some ft(2) read_write_bool [OF ft(2)] codec.reads_back [OF assms \<open>ok v\<close>] show ?thesis
        by (auto simp: write_option_def read_option_def and_then_def)
    qed
  qed
  show ?thesis by unfold_locales (use * in fastforce)+
qed

interpretation uuid: codec write_uuid read_uuid "\<lambda>_. True"
proof
  fix u bs rest
  obtain a b where ab: "write_u64 (fst u) = Inr a" "write_u64 (snd u) = Inr b" using u64.writes by blast
  then show "\<exists>bs. write_uuid u = Inr bs" by (simp add: write_uuid_def and_then_def)
  assume "write_uuid u = Inr bs"
  then have "bs = a @ b" using ab by (simp add: write_uuid_def and_then_def)
  then show "read_uuid (bs @ rest) = Inr (u, rest)"
    using u64.reads_back [OF TrueI ab(1)] u64.reads_back [OF TrueI ab(2)] by (simp add: read_uuid_def)
qed

interpretation varint: length_prefix write_varint varint_read varint_to_usize varint_of_usize "2 ^ 31 - 1"
proof
  show "\<exists>bs. write_varint v = Inr bs" for v by (simp add: write_varint_def)
  show "write_varint v = Inr bs \<Longrightarrow> varint_read (bs @ rest) = Inr (v, rest)" for v bs rest
    by (auto simp: write_varint_def varint_read_write)
  show "\<exists>p. varint_of_usize n = Some p \<and> varint_to_usize p = Some n" if "n \<le> 2 ^ 31 - 1" for n
    using that as_usize_as_i32 [of n] by (auto simp: varint_of_usize_def varint_to_usize_def)
qed

interpretation longs: codec "write_prefixed_vec write_varint varint_of_usize write_u64 DEFAULT_BOUND"
    "read_prefixed_vec varint_read varint_to_usize read_u64 DEFAULT_BOUND" "\<lambda>vs. length vs \<le> DEFAULT_BOUND \<and> list_all (\<lambda>_. True) vs"
  by (rule varint.vec_codec [OF u64_codec]) (simp add: DEFAULT_BOUND_def)

interpretation utf8_string: codec "write_prefixed_string write_varint varint_of_usize DEFAULT_BOUND"
    "read_prefixed_string varint_read varint_to_usize DEFAULT_BOUND" "\<lambda>s. length (utf8_encode s) \<le> DEFAULT_BOUND \<and> list_all is_scalar s"
  by (rule varint.string_codec) (simp add: DEFAULT_BOUND_def)

section \<open>Bit sets as sets of numbers\<close>

definition bitset_member :: "bit_set \<Rightarrow> nat \<Rightarrow> bool" where
  "bitset_member s i \<longleftrightarrow> i div 64 < length s \<and> bit (s ! (i div 64)) (i mod 64)"

lemma trimmed_len_le: "trimmed_len s \<le> length s"
  by (induction s) auto

lemma trimmed_zero: "trimmed_len s \<le> i \<Longrightarrow> i < length s \<Longrightarrow> s ! i = 0"
proof (induction s arbitrary: i)
  case (Cons w ws)
  then show ?case by (cases i) (auto split: if_splits)
qed simp

lemma member_trimmed: "bitset_member (take (trimmed_len s) s) i \<longleftrightarrow> bitset_member s i"
proof (cases "i div 64 < trimmed_len s")
  case True
  then show ?thesis using trimmed_len_le [of s] by (simp add: bitset_member_def)
next
  case False
  then show ?thesis using trimmed_zero [of s "i div 64"] by (auto simp: bitset_member_def)
qed

lemma trimmed_last: "trimmed_len s \<noteq> 0 \<Longrightarrow> s ! (trimmed_len s - 1) \<noteq> 0"
proof (induction s)
  case (Cons w ws)
  then show ?case by (cases "trimmed_len ws") (auto split: if_splits)
qed simp

lemma bit_one_at: "i < 64 \<Longrightarrow> bit ((2 :: 64 word) ^ i) j \<longleftrightarrow> j = i"
  by (auto simp: bit_exp_iff)

lemma as_usize_sint: "int (as_usize p) = (if sint p < 0 then sint p + 2 ^ 64 else sint p)"
proof -
  have b: "- (2 ^ 31) \<le> sint p" "sint p < 2 ^ 31" using sint_ge [of p] sint_lt [of p] by simp_all
  have "int (as_usize p) = sint p mod 2 ^ LENGTH(64)"
    unfolding as_usize_def scast_eq of_nat_unat by (rule uint_word_of_int)
  then have "int (as_usize p) = sint p mod 2 ^ 64" by simp
  moreover have "sint p mod 2 ^ 64 = sint p" if "0 \<le> sint p" by (rule mod_pos_pos_trivial) (use that b in simp_all)
  moreover have "sint p mod 2 ^ 64 = sint p + 2 ^ 64" if "sint p < 0"
  proof -
    have "(sint p + 2 ^ 64) mod 2 ^ 64 = sint p + 2 ^ 64" by (rule mod_pos_pos_trivial) (use that b in simp_all)
    then show ?thesis by simp
  qed
  ultimately show ?thesis by auto
qed

section \<open>Properties\<close>

text \<open>
  The fixed-width forms are read back by their readers: unsigned words of every width in
  big-endian order, booleans, UUIDs as two words, and options and arrays of anything that is
  itself read back.
\<close>
theorem primitives_read_back:
  "read_u8 (to_be_bytes a @ rest) = Inr (a, rest) \<and> read_u16 (to_be_bytes b @ rest) = Inr (b, rest)
   \<and> read_u32 (to_be_bytes c @ rest) = Inr (c, rest) \<and> read_u64 (to_be_bytes d @ rest) = Inr (d, rest)
   \<and> (\<exists>bs. write_option write_uuid u = Inr bs \<and> read_option read_uuid (bs @ rest) = Inr (u, rest))
   \<and> (\<exists>bs. write_array write_u16 vs = Inr bs \<and> read_array read_u16 (length vs) (bs @ rest) = Inr (vs, rest))"
proof -
  have o: "codec (write_option write_uuid) (read_option read_uuid) (pred_option (\<lambda>_. True))"
    by (rule option_codec) unfold_locales
  have u: "pred_option (\<lambda>_. True) u" by (cases u) simp_all
  from codec.writes [OF o u] obtain bs where bs: "write_option write_uuid u = Inr bs" ..
  moreover note codec.reads_back [OF o u bs, of rest]
  moreover have "\<exists>bs. write_array write_u16 vs = Inr bs \<and> read_array read_u16 (length vs) (bs @ rest) = Inr (vs, rest)"
    using u16.array_codec [of vs] by (auto simp: list_all_iff)
  ultimately show ?thesis
    by (simp add: read_u8_def read_u16_def read_u32_def read_u64_def read_be_roundtrip)
qed

text \<open>
  Length-prefixed strings and vectors up to the default bound are written, and read back
  exactly, whatever follows them.
\<close>
theorem prefixed_values_read_back:
  assumes "length (utf8_encode s) \<le> DEFAULT_BOUND" and "list_all is_scalar s" and "length vs \<le> DEFAULT_BOUND"
  shows "(\<exists>bs. write_prefixed_string write_varint varint_of_usize DEFAULT_BOUND s = Inr bs
      \<and> read_prefixed_string varint_read varint_to_usize DEFAULT_BOUND (bs @ rest) = Inr (s, rest))
    \<and> (\<exists>bs. write_prefixed_vec write_varint varint_of_usize write_u64 DEFAULT_BOUND vs = Inr bs
      \<and> read_prefixed_vec varint_read varint_to_usize read_u64 DEFAULT_BOUND (bs @ rest) = Inr (vs, rest))"
proof (intro conjI)
  have s: "length (utf8_encode s) \<le> DEFAULT_BOUND \<and> list_all is_scalar s" using assms by simp
  from utf8_string.writes [OF this] obtain bs where "write_prefixed_string write_varint varint_of_usize DEFAULT_BOUND s = Inr bs" ..
  with utf8_string.reads_back [OF s this] show "\<exists>bs. write_prefixed_string write_varint varint_of_usize DEFAULT_BOUND s = Inr bs
      \<and> read_prefixed_string varint_read varint_to_usize DEFAULT_BOUND (bs @ rest) = Inr (s, rest)" by blast
  have v: "length vs \<le> DEFAULT_BOUND \<and> list_all (\<lambda>_. True) vs" using assms by (simp add: list_all_iff)
  from longs.writes [OF this] obtain bs where "write_prefixed_vec write_varint varint_of_usize write_u64 DEFAULT_BOUND vs = Inr bs" ..
  with longs.reads_back [OF v this] show "\<exists>bs. write_prefixed_vec write_varint varint_of_usize write_u64 DEFAULT_BOUND vs = Inr bs
      \<and> read_prefixed_vec varint_read varint_to_usize read_u64 DEFAULT_BOUND (bs @ rest) = Inr (vs, rest)" by blast
qed

theorem prefixed_values_read_back_witness:
  "\<exists>bs. write_prefixed_string write_varint varint_of_usize DEFAULT_BOUND [104, 105] = Inr bs
    \<and> read_prefixed_string varint_read varint_to_usize DEFAULT_BOUND (bs @ [0]) = Inr ([104, 105], [0])"
  using prefixed_values_read_back [of "[104, 105]" "[]" "[0]"]
  by (simp add: utf8_encode_char_def is_scalar_def DEFAULT_BOUND_def)

text \<open>
  A prefix beyond the bound is refused before any element is read, and every negative prefix
  is beyond it, since the cast to \<open>usize\<close> makes it huge; a value longer than the bound is never
  written.
\<close>
theorem prefix_bound_is_enforced:
  assumes "sint p < 0 \<or> int bound < sint p" and "bound < 2 ^ 31" and "bound < length (utf8_encode s)"
  shows "read_prefixed_string varint_read varint_to_usize bound (varint_write p @ rest) = Inl PrefixTooLong
    \<and> read_prefixed_vec varint_read varint_to_usize read_u64 bound (varint_write p @ rest) = Inl PrefixTooLong
    \<and> write_prefixed_string write_varint varint_of_usize bound s = Inl WriteTooLong"
proof -
  have "int bound < int (as_usize p)"
    unfolding as_usize_sint using assms(1,2) sint_ge [of p] by auto
  then have "bound < as_usize p" by simp
  then show ?thesis using assms(3)
    by (simp add: read_prefixed_string_def read_prefixed_vec_def read_len_def varint_read_write varint_to_usize_def
        write_prefixed_string_def write_len_def and_then_def)
qed

theorem prefix_bound_is_enforced_witness:
  "read_prefixed_string varint_read varint_to_usize 2 (varint_write (- 1) @ [1]) = Inl PrefixTooLong
    \<and> write_prefixed_string write_varint varint_of_usize 2 [97, 97, 97] = Inl WriteTooLong"
  using prefix_bound_is_enforced [of "- 1" 2 "[97, 97, 97]" "[1]"] by (simp add: utf8_encode_char_def)

text \<open>
  A bit set keeps its elements over the wire although trailing zero words are not sent: what
  is read has the same members, no trailing zero word, and is empty only if the set was. Setting
  a bit changes that bit and no other, and outside the allocated words nothing.
\<close>
theorem bitset_read_back:
  assumes "length s \<le> DEFAULT_BOUND"
  shows "\<exists>bs t. bitset_write s = Inr bs \<and> bitset_read (bs @ rest) = Inr (t, rest)
    \<and> (\<forall>i. bitset_member t i \<longleftrightarrow> bitset_member s i) \<and> (t \<noteq> [] \<longrightarrow> last t \<noteq> 0)
    \<and> (\<forall>i j. bitset_member (bitset_set i value s) j \<longleftrightarrow> (if j = i \<and> i div 64 < length s then value else bitset_member s j))"
proof -
  let ?t = "take (trimmed_len s) s"
  have t: "length ?t \<le> DEFAULT_BOUND \<and> list_all (\<lambda>_. True) ?t" using assms by (simp add: list_all_iff)
  from longs.writes [OF t] obtain bs where bs: "bitset_write s = Inr bs" by (auto simp: bitset_write_def)
  then have "bitset_read (bs @ rest) = Inr (?t, rest)"
    using longs.reads_back [OF t] by (simp add: bitset_write_def bitset_read_def)
  moreover have "?t \<noteq> [] \<longrightarrow> last ?t \<noteq> 0"
    using trimmed_last [of s] trimmed_len_le [of s] by (auto simp: last_conv_nth)
  moreover have "bitset_member (bitset_set i value s) j \<longleftrightarrow> (if j = i \<and> i div 64 < length s then value else bitset_member s j)" for i j
  proof -
    have "j = i \<longleftrightarrow> j div 64 = i div 64 \<and> j mod 64 = i mod 64" by (metis div_mult_mod_eq)
    then show ?thesis
      by (auto simp: bitset_member_def bitset_set_def Let_def nth_list_update bit_or_iff bit_and_iff bit_not_iff bit_one_at)
  qed
  ultimately show ?thesis using bs member_trimmed by blast
qed

theorem bitset_read_back_witness:
  "\<exists>bs t. bitset_write [5, 0, 7, 0, 0] = Inr bs \<and> bitset_read (bs @ []) = Inr (t, []) \<and> bitset_member t 2"
proof -
  have "bitset_member [5, 0, 7, 0, 0] 2" by (simp add: bitset_member_def bit_numeral_rec)
  with bitset_read_back [of "[5, 0, 7, 0, 0]" "[]" True] show ?thesis by (auto simp: DEFAULT_BOUND_def)
qed

end
