(* ===== verification/Identifiers.thy ===== *)
theory Identifiers
  imports Serial
begin

text \<open>
  Identifiers (\<open>steel-utils/src/types/identifier.rs\<close>): the characters they may have, printing,
  parsing with the default namespace, ordering, and their form on the wire
  (\<open>serial/read.rs\<close>, \<open>serial/write.rs\<close>). Characters are code points; comparing two strings
  byte by byte in UTF-8 is comparing their code points in turn.
\<close>

record ident =
  namespace :: rust_string
  path :: rust_string

definition chars :: "string \<Rightarrow> rust_string" where
  "chars s = map of_char s"

definition VANILLA_NAMESPACE :: rust_string where
  "VANILLA_NAMESPACE = chars ''minecraft''"

definition STEEL_NAMESPACE :: rust_string where
  "STEEL_NAMESPACE = chars ''steel''"

definition identifier_new :: "rust_string \<Rightarrow> rust_string \<Rightarrow> ident" where
  "identifier_new ns p = \<lparr>namespace = ns, path = p\<rparr>"

definition from_steel :: "rust_string \<Rightarrow> ident" where
  "from_steel p = identifier_new STEEL_NAMESPACE p"

definition vanilla :: "rust_string \<Rightarrow> ident" where
  "vanilla p = \<lparr>namespace = VANILLA_NAMESPACE, path = p\<rparr>"

definition is_ascii_lowercase :: "nat \<Rightarrow> bool" where
  "is_ascii_lowercase c \<longleftrightarrow> of_char CHR ''a'' \<le> c \<and> c \<le> of_char CHR ''z''"

definition is_ascii_digit :: "nat \<Rightarrow> bool" where
  "is_ascii_digit c \<longleftrightarrow> of_char CHR ''0'' \<le> c \<and> c \<le> of_char CHR ''9''"

definition valid_namespace_char :: "nat \<Rightarrow> bool" where
  "valid_namespace_char c \<longleftrightarrow>
     c = of_char CHR ''_'' \<or> c = of_char CHR ''-'' \<or> is_ascii_lowercase c \<or> is_ascii_digit c \<or> c = of_char CHR ''.''"

definition valid_char :: "nat \<Rightarrow> bool" where
  "valid_char c \<longleftrightarrow> valid_namespace_char c \<or> c = of_char CHR ''/''"

definition validate_namespace :: "rust_string \<Rightarrow> bool" where
  "validate_namespace ns \<longleftrightarrow> ns \<noteq> chars ''..'' \<and> list_all valid_namespace_char ns"

definition validate_path :: "rust_string \<Rightarrow> bool" where
  "validate_path p \<longleftrightarrow> list_all valid_char p"

definition validate :: "rust_string \<Rightarrow> rust_string \<Rightarrow> bool" where
  "validate ns p \<longleftrightarrow> validate_namespace ns \<and> validate_path p"

definition identifier_to_string :: "ident \<Rightarrow> rust_string" where
  "identifier_to_string i = namespace i @ of_char CHR '':'' # path i"

text \<open>\<open>str::cmp\<close> and the order of identifiers, by path first.\<close>

fun str_cmp :: "rust_string \<Rightarrow> rust_string \<Rightarrow> ordering" where
  "str_cmp [] [] = Equal"
| "str_cmp [] (y # ys) = Less"
| "str_cmp (x # xs) [] = Greater"
| "str_cmp (x # xs) (y # ys) = then_with (cmp_of x y) (str_cmp xs ys)"

definition identifier_cmp :: "ident \<Rightarrow> ident \<Rightarrow> ordering" where
  "identifier_cmp a b = then_with (str_cmp (path a) (path b)) (str_cmp (namespace a) (namespace b))"

fun split_once :: "nat \<Rightarrow> rust_string \<Rightarrow> (rust_string \<times> rust_string) option" where
  "split_once d [] = None"
| "split_once d (c # cs) =
     (if c = d then Some ([], cs) else map_option (\<lambda>(a, b). (c # a, b)) (split_once d cs))"

definition identifier_from_str :: "rust_string \<Rightarrow> io_error + ident" where
  "identifier_from_str s =
     (let (ns, p) = (case split_once (of_char CHR '':'') s of
                       Some (ns, p) \<Rightarrow> if ns = [] then (VANILLA_NAMESPACE, p) else (ns, p)
                     | None \<Rightarrow> (VANILLA_NAMESPACE, s))
      in if \<not> validate_namespace ns then Inl InvalidNamespace
         else if \<not> validate_path p then Inl InvalidPath
         else Inr \<lparr>namespace = ns, path = p\<rparr>)"

definition read_identifier :: "ident reader" where
  "read_identifier data =
     (case read_prefixed_string varint_read varint_to_usize DEFAULT_BOUND data of
        Inl e \<Rightarrow> Inl e
      | Inr (s, rest) \<Rightarrow> (case identifier_from_str s of Inl e \<Rightarrow> Inl e | Inr i \<Rightarrow> Inr (i, rest)))"

definition write_identifier :: "ident writer" where
  "write_identifier i = write_prefixed_string write_varint varint_of_usize DEFAULT_BOUND (identifier_to_string i)"

section \<open>Parsing and printing\<close>

lemma split_once_append: "d \<notin> set a \<Longrightarrow> split_once d (a @ d # b) = Some (a, b)"
  by (induction a) auto

lemma valid_no_colon: "valid_namespace_char c \<Longrightarrow> c \<noteq> of_char CHR '':''" "valid_char c \<Longrightarrow> c \<noteq> of_char CHR '':''"
  by (auto simp: valid_char_def valid_namespace_char_def is_ascii_lowercase_def is_ascii_digit_def)

lemma valid_namespace_no_colon: "validate_namespace ns \<Longrightarrow> of_char CHR '':'' \<notin> set ns"
  using valid_no_colon by (auto simp: validate_namespace_def list_all_iff)

lemma vanilla_valid: "validate_namespace VANILLA_NAMESPACE" "VANILLA_NAMESPACE \<noteq> []"
  by (simp_all add: validate_namespace_def VANILLA_NAMESPACE_def chars_def valid_namespace_char_def is_ascii_lowercase_def is_ascii_digit_def)

lemma from_to_string:
  assumes "validate (namespace i) (path i)"
  shows "identifier_from_str (identifier_to_string i) =
    Inr (if namespace i = [] then vanilla (path i) else i)"
  using assms valid_namespace_no_colon [of "namespace i"] vanilla_valid
  by (simp add: identifier_from_str_def identifier_to_string_def split_once_append validate_def vanilla_def)

lemma from_str_valid:
  assumes "identifier_from_str s = Inr i"
  shows "validate (namespace i) (path i)" "namespace i \<noteq> []"
  using assms vanilla_valid
  by (auto simp: identifier_from_str_def Let_def validate_def split: option.splits if_splits prod.splits)

lemma valid_char_ascii: "valid_char c \<Longrightarrow> c < 0x80" "valid_namespace_char c \<Longrightarrow> c < 0x80"
  by (auto simp: valid_char_def valid_namespace_char_def is_ascii_lowercase_def is_ascii_digit_def)

lemma ascii_encode: "list_all (\<lambda>c. c < 0x80) s \<Longrightarrow> length (utf8_encode s) = length s \<and> list_all is_scalar s"
  by (induction s) (auto simp: utf8_encode_char_def is_scalar_def)

lemma valid_ascii: "validate (namespace i) (path i) \<Longrightarrow> list_all (\<lambda>c. c < 0x80) (identifier_to_string i)"
  using valid_char_ascii by (auto simp: validate_def validate_namespace_def validate_path_def identifier_to_string_def list_all_iff)

lemma str_cmp_Equal: "str_cmp a b = Equal \<longleftrightarrow> a = b"
  by (induction a b rule: str_cmp.induct) (auto simp: ordering_simps)

lemma str_cmp_swap: "reverse_ord (str_cmp a b) = str_cmp b a"
  by (induction a b rule: str_cmp.induct) (auto simp: reverse_then_with cmp_of_swap)

lemma then_with_Less: "then_with r s = Less \<longleftrightarrow> r = Less \<or> r = Equal \<and> s = Less"
  by (cases r) auto

lemma str_cmp_trans: "str_cmp a b = Less \<Longrightarrow> str_cmp b c = Less \<Longrightarrow> str_cmp a c = Less"
proof (induction a b arbitrary: c rule: str_cmp.induct)
  case (4 x xs y ys)
  then show ?case by (cases c) (auto simp: then_with_Less ordering_simps)
next
  case (2 y ys)
  then show ?case by (cases c) auto
qed auto

section \<open>Properties\<close>

text \<open>
  Printing and parsing identifiers agree: whatever string is accepted, the identifier has a
  valid, non-empty namespace and a valid path, and printing it gives a string that parses to the
  same identifier. A valid identifier with an empty namespace is the one that does not come
  back: it prints with a leading colon and is read as the vanilla namespace.
\<close>
theorem identifier_parse_print:
  "(case identifier_from_str s of
      Inl e \<Rightarrow> e = InvalidNamespace \<or> e = InvalidPath
    | Inr i \<Rightarrow> validate (namespace i) (path i) \<and> namespace i \<noteq> [] \<and> identifier_from_str (identifier_to_string i) = Inr i)
   \<and> (validate [] p \<longrightarrow> identifier_from_str (identifier_to_string (identifier_new [] p)) = Inr (vanilla p))"
proof (intro conjI impI)
  show "case identifier_from_str s of
      Inl e \<Rightarrow> e = InvalidNamespace \<or> e = InvalidPath
    | Inr i \<Rightarrow> validate (namespace i) (path i) \<and> namespace i \<noteq> [] \<and> identifier_from_str (identifier_to_string i) = Inr i"
  proof (cases "identifier_from_str s")
    case (Inl e)
    then have "e = InvalidNamespace \<or> e = InvalidPath"
      by (auto simp: identifier_from_str_def Let_def split: prod.splits if_splits)
    with Inl show ?thesis by simp
  next
    case (Inr i)
    with from_str_valid [OF this] from_to_string [of i] show ?thesis by simp
  qed
  show "validate [] p \<Longrightarrow> identifier_from_str (identifier_to_string (identifier_new [] p)) = Inr (vanilla p)"
    using from_to_string [of "identifier_new [] p"] by (simp add: identifier_new_def)
qed

theorem identifier_parse_print_witness:
  "identifier_from_str (identifier_to_string (identifier_new [] (chars ''stone''))) = Inr (vanilla (chars ''stone''))"
  using identifier_parse_print [of "[]" "chars ''stone''"]
  by (simp add: validate_def validate_namespace_def validate_path_def chars_def valid_char_def valid_namespace_char_def
      is_ascii_lowercase_def)

text \<open>
  A valid identifier of at most \<open>DEFAULT_BOUND\<close> characters is sent and read back unchanged,
  one byte per character.
\<close>
theorem identifier_read_back:
  assumes "validate (namespace i) (path i)" and "namespace i \<noteq> []" and "length (identifier_to_string i) \<le> DEFAULT_BOUND"
  shows "\<exists>bs. write_identifier i = Inr bs \<and> read_identifier (bs @ rest) = Inr (i, rest)"
proof -
  from ascii_encode [OF valid_ascii [OF assms(1)]] assms(3)
  have ok: "length (utf8_encode (identifier_to_string i)) \<le> DEFAULT_BOUND \<and> list_all is_scalar (identifier_to_string i)" by simp
  from utf8_string.writes [OF ok] obtain bs where bs: "write_identifier i = Inr bs" by (auto simp: write_identifier_def)
  with utf8_string.reads_back [OF ok, of bs rest] from_to_string [OF assms(1)] assms(2) show ?thesis
    by (simp add: write_identifier_def read_identifier_def)
qed

theorem identifier_read_back_witness:
  "\<exists>bs. write_identifier (vanilla (chars ''air'')) = Inr bs \<and> read_identifier (bs @ []) = Inr (vanilla (chars ''air''), [])"
  by (rule identifier_read_back)
    (simp_all add: vanilla_valid vanilla_def validate_def validate_path_def chars_def valid_char_def valid_namespace_char_def
      is_ascii_lowercase_def identifier_to_string_def DEFAULT_BOUND_def VANILLA_NAMESPACE_def validate_namespace_def)

text \<open>
  The order of identifiers is a strict total order that agrees with equality, so sorting and
  ordered maps over them are well defined.
\<close>
theorem identifier_order:
  "(identifier_cmp a b = Equal \<longleftrightarrow> a = b) \<and> reverse_ord (identifier_cmp a b) = identifier_cmp b a
   \<and> (identifier_cmp a b = Less \<longrightarrow> identifier_cmp b c = Less \<longrightarrow> identifier_cmp a c = Less)"
  by (auto simp: identifier_cmp_def str_cmp_Equal reverse_then_with str_cmp_swap then_with_Less intro: str_cmp_trans)

theorem identifier_order_witness:
  "identifier_cmp (vanilla (chars ''air'')) (from_steel (chars ''dirt'')) = Less"
  using identifier_order [of "vanilla (chars ''air'')" "vanilla (chars ''dirt'')" "from_steel (chars ''dirt'')"]
  by (simp add: identifier_cmp_def vanilla_def from_steel_def identifier_new_def chars_def cmp_of_def VANILLA_NAMESPACE_def STEEL_NAMESPACE_def)

end
