(* ===== verification/Stream_Cipher.thy ===== *)
theory Stream_Cipher
  imports Packet_Framing
begin

text \<open>
  The encrypting and decrypting ends of a connection (\<open>StreamEncryptor\<close> and \<open>StreamDecryptor\<close> of
  \<open>steel-protocol/src/utils.rs\<close>, \<open>EncryptionWriter\<close> and \<open>TCPNetworkEncoder\<close> of
  \<open>packet_writer.rs\<close>, \<open>DecryptionReader\<close> and \<open>TCPNetworkDecoder\<close> of \<open>packet_reader.rs\<close>). The
  AES/CFB8 ciphers are parameters: a step from a cipher state and a byte to a byte and the next
  state. The socket below is the bytes it has taken so far and the answers it gives, one per
  \<open>poll_write\<close> call; when no answer is left it stays pending. A panic is \<open>None\<close>.
\<close>

datatype 'a poll = Pending | Ready 'a

type_synonym 'k cipher_step = "'k \<Rightarrow> byte \<Rightarrow> byte \<times> 'k"
type_synonym write_answer = "(io_error + nat) poll"

record 'k stream_encryptor =
  cipher :: 'k
  sink :: "byte list"
  last_unwritten_encrypted_byte :: "byte option"

definition stream_encryptor_new :: "'k \<Rightarrow> byte list \<Rightarrow> 'k stream_encryptor" where
  "stream_encryptor_new k stream = \<lparr>cipher = k, sink = stream, last_unwritten_encrypted_byte = None\<rparr>"

fun next_answer :: "write_answer list \<Rightarrow> write_answer \<times> write_answer list" where
  "next_answer [] = (Pending, [])"
| "next_answer (a # as) = (a, as)"

text \<open>The loop of \<open>StreamEncryptor::poll_write\<close>, one byte per block.\<close>

fun poll_write_from ::
  "'k cipher_step \<Rightarrow> write_answer list \<Rightarrow> 'k stream_encryptor \<Rightarrow> nat \<Rightarrow> byte list \<Rightarrow> write_answer \<times> 'k stream_encryptor" where
  "poll_write_from enc as s total_written [] = (Ready (Inr total_written), s)"
| "poll_write_from enc as s total_written (block # buf) =
     (let (out, k) = (case last_unwritten_encrypted_byte s of
                        Some out_to_use \<Rightarrow> (out_to_use, cipher s)
                      | None \<Rightarrow> enc (cipher s) block);
          (answer, as') = next_answer as
      in case answer of
           Pending \<Rightarrow>
             (if total_written = 0 then Pending else Ready (Inr total_written),
              s\<lparr>cipher := k, last_unwritten_encrypted_byte := Some out\<rparr>)
         | Ready result \<Rightarrow>
             (case result of
                Inl err \<Rightarrow> (Ready (Inl err), s\<lparr>cipher := k, last_unwritten_encrypted_byte := None\<rparr>)
              | Inr written \<Rightarrow>
                  poll_write_from enc as'
                    (s\<lparr>cipher := k, sink := sink s @ take written [out], last_unwritten_encrypted_byte := None\<rparr>)
                    (total_written + written) buf))"

definition stream_poll_write ::
  "'k cipher_step \<Rightarrow> write_answer list \<Rightarrow> 'k stream_encryptor \<Rightarrow> byte list \<Rightarrow> write_answer \<times> 'k stream_encryptor" where
  "stream_poll_write enc as s buf = poll_write_from enc as s 0 buf"

text \<open>
  \<open>StreamDecryptor::poll_read\<close>: the bytes the socket added behind what was already filled are
  decrypted in place.
\<close>

fun decrypt_blocks :: "'k cipher_step \<Rightarrow> 'k \<Rightarrow> byte list \<Rightarrow> byte list \<times> 'k" where
  "decrypt_blocks dec k [] = ([], k)"
| "decrypt_blocks dec k (b # bs) =
     (let (p, k') = dec k b; (ps, k'') = decrypt_blocks dec k' bs in (p # ps, k''))"

fun stream_poll_read ::
  "'k cipher_step \<Rightarrow> 'k \<Rightarrow> byte list \<Rightarrow> (io_error + byte list) poll \<Rightarrow> (io_error + byte list) poll \<times> 'k" where
  "stream_poll_read dec k filled Pending = (Pending, k)"
| "stream_poll_read dec k filled (Ready (Inl e)) = (Ready (Inl e), k)"
| "stream_poll_read dec k filled (Ready (Inr added)) =
     (let (plain, k') = decrypt_blocks dec k added in (Ready (Inr (filled @ plain)), k'))"

section \<open>Switching encryption on\<close>

datatype 'k encryption_writer = Encrypt "'k stream_encryptor" | PlainWriter "byte list"

fun ew_upgrade :: "'k \<Rightarrow> 'k encryption_writer \<Rightarrow> 'k encryption_writer option" where
  "ew_upgrade k (PlainWriter stream) = Some (Encrypt (stream_encryptor_new k stream))"
| "ew_upgrade k (Encrypt s) = None"

fun ew_poll_write :: "'k cipher_step \<Rightarrow> write_answer list \<Rightarrow> 'k encryption_writer \<Rightarrow> byte list \<Rightarrow> write_answer \<times> 'k encryption_writer" where
  "ew_poll_write enc as (Encrypt s) buf = map_prod id Encrypt (stream_poll_write enc as s buf)"
| "ew_poll_write enc as (PlainWriter w) buf =
     (case fst (next_answer as) of
        Ready (Inr n) \<Rightarrow> (Ready (Inr n), PlainWriter (w @ take n buf))
      | answer \<Rightarrow> (answer, PlainWriter w))"

definition encoder_set_encryption :: "(byte list \<Rightarrow> 'k) \<Rightarrow> byte list \<Rightarrow> 'k encryption_writer \<Rightarrow> 'k encryption_writer option" where
  "encoder_set_encryption new_cipher key w =
     (case w of Encrypt s \<Rightarrow> None | PlainWriter _ \<Rightarrow> ew_upgrade (new_cipher key) w)"

datatype 'k decryption_reader = Decrypt 'k "byte list" | PlainReader "byte list"

fun dr_upgrade :: "'k \<Rightarrow> 'k decryption_reader \<Rightarrow> 'k decryption_reader option" where
  "dr_upgrade k (PlainReader stream) = Some (Decrypt k stream)"
| "dr_upgrade k (Decrypt _ _) = None"

definition decoder_set_encryption :: "(byte list \<Rightarrow> 'k) \<Rightarrow> byte list \<Rightarrow> 'k decryption_reader \<Rightarrow> 'k decryption_reader option" where
  "decoder_set_encryption new_cipher key r =
     (case r of Decrypt _ _ \<Rightarrow> None | PlainReader _ \<Rightarrow> dr_upgrade (new_cipher key) r)"

text \<open>The plain bytes a packet reader gets from the bytes waiting on the socket.\<close>

fun readable_bytes :: "'k cipher_step \<Rightarrow> 'k decryption_reader \<Rightarrow> byte list" where
  "readable_bytes dec (Decrypt k stream) = fst (decrypt_blocks dec k stream)"
| "readable_bytes dec (PlainReader stream) = stream"

section \<open>Encryption of a whole byte sequence\<close>

fun encrypt_all :: "'k cipher_step \<Rightarrow> 'k \<Rightarrow> byte list \<Rightarrow> byte list \<times> 'k" where
  "encrypt_all enc k [] = ([], k)"
| "encrypt_all enc k (b # bs) = (let (c, k') = enc k b; (cs, k'') = encrypt_all enc k' bs in (c # cs, k''))"

lemma encrypt_all_append:
  "encrypt_all enc k (xs @ ys) =
    (fst (encrypt_all enc k xs) @ fst (encrypt_all enc (snd (encrypt_all enc k xs)) ys),
     snd (encrypt_all enc (snd (encrypt_all enc k xs)) ys))"
  by (induction xs arbitrary: k) (simp_all add: Let_def split: prod.splits)

lemma decrypt_blocks_append:
  "decrypt_blocks dec k (xs @ ys) =
    (fst (decrypt_blocks dec k xs) @ fst (decrypt_blocks dec (snd (decrypt_blocks dec k xs)) ys),
     snd (decrypt_blocks dec (snd (decrypt_blocks dec k xs)) ys))"
  by (induction xs arbitrary: k) (simp_all add: Let_def split: prod.splits)

text \<open>The contract of a stream cipher pair: decryption follows encryption state by state.\<close>

definition inverse_ciphers :: "'k cipher_step \<Rightarrow> 'k cipher_step \<Rightarrow> bool" where
  "inverse_ciphers enc dec \<longleftrightarrow> (\<forall>k b. dec k (fst (enc k b)) = (b, snd (enc k b)))"

lemma decrypt_encrypt_all:
  "inverse_ciphers enc dec \<Longrightarrow> decrypt_blocks dec k (fst (encrypt_all enc k bs)) = (bs, snd (encrypt_all enc k bs))"
proof (induction bs arbitrary: k)
  case (Cons b bs)
  obtain c k' where "enc k b = (c, k')" by fastforce
  moreover from this Cons.prems have "dec k c = (b, k')" by (metis inverse_ciphers_def fst_conv snd_conv)
  ultimately show ?case using Cons.IH [OF Cons.prems, of k'] by (simp add: Let_def case_prod_beta)
qed simp

text \<open>
  A cipher that ties every byte to the ciphertext before it, as the feedback mode does: it shows
  that the contract can hold.
\<close>

definition feedback_enc :: "byte cipher_step" where
  "feedback_enc k b = (b XOR k, b XOR k)"

definition feedback_dec :: "byte cipher_step" where
  "feedback_dec k c = (c XOR k, c)"

lemma feedback_inverse: "inverse_ciphers feedback_enc feedback_dec"
  by (simp add: inverse_ciphers_def feedback_enc_def feedback_dec_def xor.assoc)

section \<open>A sender that retries\<close>

text \<open>
  The socket below either takes the byte it is offered or is not ready.
\<close>

fun well_behaved :: "write_answer \<Rightarrow> bool" where
  "well_behaved Pending = True"
| "well_behaved (Ready (Inr n)) \<longleftrightarrow> n = 1"
| "well_behaved (Ready (Inl e)) = False"

text \<open>
  A caller of \<open>poll_write\<close> that follows the contract of \<open>AsyncWrite\<close>: it offers some prefix of what
  has not been accepted yet, keeps everything when the call is pending and drops the accepted
  bytes otherwise.
\<close>

inductive sending :: "'k cipher_step \<Rightarrow> 'k stream_encryptor \<Rightarrow> byte list \<Rightarrow> 'k stream_encryptor \<Rightarrow> byte list \<Rightarrow> bool"
  for enc s0 data where
  start: "sending enc s0 data s0 data"
| not_ready: "sending enc s0 data s remaining \<Longrightarrow> list_all well_behaved as \<Longrightarrow>
    stream_poll_write enc as s (take m remaining) = (Pending, s') \<Longrightarrow> sending enc s0 data s' remaining"
| accepted: "sending enc s0 data s remaining \<Longrightarrow> list_all well_behaved as \<Longrightarrow>
    stream_poll_write enc as s (take m remaining) = (Ready (Inr n), s') \<Longrightarrow> sending enc s0 data s' (drop n remaining)"

text \<open>
  What holds between calls: the sink has the encryption of the accepted bytes, and a byte that
  waits is the encryption of the next one to be offered, with the cipher already past it.
\<close>

definition in_step :: "'k cipher_step \<Rightarrow> 'k \<Rightarrow> byte list \<Rightarrow> byte list \<Rightarrow> byte list \<Rightarrow> 'k stream_encryptor \<Rightarrow> bool" where
  "in_step enc k0 before acc remaining s \<longleftrightarrow>
     sink s = before @ fst (encrypt_all enc k0 acc) \<and>
     (case last_unwritten_encrypted_byte s of
        None \<Rightarrow> cipher s = snd (encrypt_all enc k0 acc)
      | Some c \<Rightarrow> \<exists>b bs. remaining = b # bs \<and> (c, cipher s) = enc (snd (encrypt_all enc k0 acc)) b)"

lemma in_step_byte:
  assumes "in_step enc k0 before acc (b # bs) s"
  shows "(case last_unwritten_encrypted_byte s of Some c \<Rightarrow> (c, cipher s) | None \<Rightarrow> enc (cipher s) b)
    = enc (snd (encrypt_all enc k0 acc)) b"
  using assms by (auto simp: in_step_def split: option.splits)

lemma poll_write_in_step:
  assumes "in_step enc k0 before acc (buf @ later) s" and "list_all well_behaved as"
  shows "case poll_write_from enc as s t buf of (r, s') \<Rightarrow>
    \<exists>k \<le> length buf. in_step enc k0 before (acc @ take k buf) (drop k buf @ later) s'
      \<and> (r = Ready (Inr (t + k)) \<or> r = Pending \<and> t + k = 0)"
  using assms
proof (induction buf arbitrary: as s t acc)
  case Nil
  then show ?case by simp
next
  case (Cons b buf)
  obtain out k where ok: "enc (snd (encrypt_all enc k0 acc)) b = (out, k)" by fastforce
  have byte: "(case last_unwritten_encrypted_byte s of Some c \<Rightarrow> (c, cipher s) | None \<Rightarrow> enc (cipher s) b) = (out, k)"
    using in_step_byte Cons.prems(1) ok by (metis append_Cons)
  show ?case
  proof (cases "fst (next_answer as)")
    case Pending
    moreover have "in_step enc k0 before acc (b # buf @ later) (s\<lparr>cipher := k, last_unwritten_encrypted_byte := Some out\<rparr>)"
      using Cons.prems(1) ok by (simp add: in_step_def)
    ultimately show ?thesis
      using byte by (cases "next_answer as") (auto intro!: exI [of _ 0])
  next
    case (Ready result)
    then obtain as' where as: "as = Ready (Inr 1) # as'" "list_all well_behaved as'"
      using Cons.prems(2) by (cases as rule: next_answer.cases; cases result) auto
    let ?s = "s\<lparr>cipher := k, sink := sink s @ [out], last_unwritten_encrypted_byte := None\<rparr>"
    have "in_step enc k0 before (acc @ [b]) (buf @ later) ?s"
      using Cons.prems(1) ok by (simp add: in_step_def encrypt_all_append Let_def)
    from Cons.IH [OF this as(2), of "t + 1"] show ?thesis
      using byte as(1) by (fastforce split: prod.splits intro: exI [of _ "Suc _"])
  qed
qed

lemma sending_in_step:
  assumes "sending enc s0 data s remaining" and "last_unwritten_encrypted_byte s0 = None"
  shows "\<exists>acc. data = acc @ remaining \<and> in_step enc (cipher s0) (sink s0) acc remaining s"
  using assms
proof (induction rule: sending.induct)
  case start
  then show ?case by (simp add: in_step_def)
next
  case (not_ready s remaining as m s')
  then obtain acc where acc: "data = acc @ remaining" "in_step enc (cipher s0) (sink s0) acc (take m remaining @ drop m remaining) s"
    by auto
  from poll_write_in_step [OF acc(2) not_ready.hyps(2), of 0] not_ready.hyps(3) acc(1) show ?case
    by (auto simp: stream_poll_write_def)
next
  case (accepted s remaining as m n s')
  then obtain acc where acc: "data = acc @ remaining" "in_step enc (cipher s0) (sink s0) acc (take m remaining @ drop m remaining) s"
    by auto
  from poll_write_in_step [OF acc(2) accepted.hyps(2), of 0] accepted.hyps(3)
  have n: "n \<le> length (take m remaining)" and st: "in_step enc (cipher s0) (sink s0) (acc @ take n (take m remaining)) (drop n (take m remaining) @ drop m remaining) s'"
    by (auto simp: stream_poll_write_def)
  have "take n (take m remaining) = take n remaining" using n by (simp add: min_absorb1)
  moreover have "drop n (take m remaining) @ drop m remaining = drop n remaining"
    using n drop_append [of n "take m remaining" "drop m remaining"] by simp
  ultimately show ?case using st acc(1) by (intro exI [of _ "acc @ take n remaining"]) simp
qed

lemma poll_write_all:
  assumes "last_unwritten_encrypted_byte s = None"
  shows "poll_write_from enc (replicate (length buf) (Ready (Inr 1))) s t buf =
    (Ready (Inr (t + length buf)), s\<lparr>cipher := snd (encrypt_all enc (cipher s) buf), sink := sink s @ fst (encrypt_all enc (cipher s) buf)\<rparr>)"
  using assms by (induction buf arbitrary: s t) (auto simp: Let_def split: prod.splits)

section \<open>Properties\<close>

text \<open>
  However often the socket is not ready, and whatever prefixes the caller offers, the bytes
  the socket has taken are at every moment the encryption of the bytes reported as accepted, in
  order: no byte is encrypted twice, skipped or sent before it was offered. Decrypting them with
  the matching cipher gives the accepted bytes back. When the caller has nothing left, the socket
  has the encryption of everything; a socket that is always ready takes everything in one call.
\<close>
theorem encrypted_stream_is_exact:
  assumes "sending enc (stream_encryptor_new k before) data s remaining" and "inverse_ciphers enc dec"
  shows "\<exists>acc sent. data = acc @ remaining \<and> sink s = before @ sent
    \<and> sent = fst (encrypt_all enc k acc) \<and> fst (decrypt_blocks dec k sent) = acc
    \<and> fst (stream_poll_write enc (replicate (length data) (Ready (Inr 1))) (stream_encryptor_new k before) data) = Ready (Inr (length data))"
proof -
  from sending_in_step [OF assms(1)] obtain acc where
    "data = acc @ remaining" "in_step enc k before acc remaining s" by (auto simp: stream_encryptor_new_def)
  moreover have "fst (stream_poll_write enc (replicate (length data) (Ready (Inr 1))) (stream_encryptor_new k before) data) = Ready (Inr (length data))"
    using poll_write_all [of "stream_encryptor_new k before" enc data 0] by (simp add: stream_poll_write_def stream_encryptor_new_def)
  ultimately show ?thesis using decrypt_encrypt_all [OF assms(2), of k acc] by (auto simp: in_step_def)
qed

theorem encrypted_stream_is_exact_witness:
  "\<exists>s acc. sending feedback_enc (stream_encryptor_new 5 []) [1, 2, 3] s [2, 3] \<and> [1, 2, 3] = acc @ [2, 3 :: byte]
    \<and> sink s = fst (encrypt_all feedback_enc 5 acc) \<and> last_unwritten_encrypted_byte s \<noteq> None"
proof -
  let ?s0 = "stream_encryptor_new 5 []"
  let ?s1 = "\<lparr>cipher = 4, sink = [], last_unwritten_encrypted_byte = Some 4\<rparr>"
  let ?s2 = "\<lparr>cipher = 6, sink = [4], last_unwritten_encrypted_byte = Some 6\<rparr>"
  have "sending feedback_enc ?s0 [1, 2, 3] ?s1 [1, 2, 3]"
    by (rule sending.not_ready [OF sending.start, of "[Pending]" _ _ 2])
      (simp_all add: stream_poll_write_def stream_encryptor_new_def feedback_enc_def)
  then have "sending feedback_enc ?s0 [1, 2, 3] ?s2 (drop 1 [1, 2, 3])"
    by (rule sending.accepted [of _ _ _ _ _ "[Ready (Inr 1), Pending]" 3])
      (simp_all add: stream_poll_write_def feedback_enc_def eval_nat_numeral)
  then have s: "sending feedback_enc ?s0 [1, 2, 3] ?s2 [2, 3]" by simp
  from encrypted_stream_is_exact [OF this feedback_inverse] s show ?thesis
    by (intro exI [of _ ?s2]) auto
qed

text \<open>
  Decryption does not depend on how the socket splits the bytes into reads: reading in two
  parts, each decrypted in place behind what the buffer already holds, leaves the same buffer and
  the same cipher state as reading the whole at once, and a read that is pending or fails leaves
  the cipher untouched.
\<close>
theorem decryption_ignores_chunking:
  "(let (r1, k1) = stream_poll_read dec k filled (Ready (Inr xs))
    in case r1 of Ready (Inr f1) \<Rightarrow> stream_poll_read dec k1 f1 (Ready (Inr ys)) | _ \<Rightarrow> (r1, k1))
     = stream_poll_read dec k filled (Ready (Inr (xs @ ys)))
   \<and> stream_poll_read dec k filled Pending = (Pending, k)
   \<and> stream_poll_read dec k filled (Ready (Inl e)) = (Ready (Inl e), k)"
  by (simp add: Let_def decrypt_blocks_append case_prod_beta)

end
