(* ===== verification/Neighbor_Updates.thy ===== *)
theory Neighbor_Updates
  imports Positions
begin

text \<open>
  Ordering of block neighbour updates (\<open>steel-core/src/world/block_updates/neighbor_updater.rs\<close>).
  Updates caused while an update runs are collected in a layer that is pushed onto a stack before
  the next one is taken, so that they run first, in the order they were caused, before the rest
  of an update that was interrupted. The counter is an \<open>i32\<close> that wraps.

  What an update does to the world is a parameter: reading a block state, and executing an
  update, which gives the new world and the updates it requested in turn, in order. Block states,
  blocks and flags are numbers. The mutex is held only around the operations on the collecting
  state, which are the definitions here; the reset guard matters only for unwinding, and a panic
  aborts the process.
\<close>

section \<open>Updates\<close>

definition UPDATE_ORDER :: "direction list" where
  "UPDATE_ORDER = [West, East, Down, Up, North, South]"

record shape_update =
  su_direction :: direction
  su_neighbor_state :: nat
  su_pos :: block_pos
  su_neighbor_pos :: block_pos
  su_flags :: nat
  su_update_limit :: int

datatype neighbor_update =
    Full nat block_pos nat bool
  | Multi block_pos nat "direction option" nat
  | Shape shape_update
  | Simple block_pos nat

definition shape_update_new :: "direction \<Rightarrow> nat \<Rightarrow> block_pos \<Rightarrow> block_pos \<Rightarrow> nat \<Rightarrow> int \<Rightarrow> shape_update" where
  "shape_update_new d ns p np fl lim =
     \<lparr>su_direction = d, su_neighbor_state = ns, su_pos = p, su_neighbor_pos = np, su_flags = fl, su_update_limit = lim\<rparr>"

text \<open>The updates the public operations enqueue.\<close>

definition shape_update_request :: "shape_update \<Rightarrow> neighbor_update" where
  "shape_update_request u = Shape u"

definition neighbor_changed :: "block_pos \<Rightarrow> nat \<Rightarrow> neighbor_update" where
  "neighbor_changed p source_block = Simple p source_block"

definition neighbor_changed_with_state :: "nat \<Rightarrow> block_pos \<Rightarrow> nat \<Rightarrow> bool \<Rightarrow> neighbor_update" where
  "neighbor_changed_with_state st p source_block moved_by_piston = Full st p source_block moved_by_piston"

definition update_neighbors_at_except_from_facing :: "block_pos \<Rightarrow> nat \<Rightarrow> direction option \<Rightarrow> neighbor_update" where
  "update_neighbors_at_except_from_facing p source_block skip_direction =
     Multi p source_block skip_direction (if skip_direction = Some (UPDATE_ORDER ! 0) then 1 else 0)"

text \<open>The world as the updater uses it.\<close>

record 'w world_ops =
  get_block_state :: "'w \<Rightarrow> block_pos \<Rightarrow> nat"
  execute_neighbor_update :: "'w \<Rightarrow> nat \<Rightarrow> block_pos \<Rightarrow> nat \<Rightarrow> bool \<Rightarrow> 'w \<times> neighbor_update list"
  execute_neighbor_shape_update :: "'w \<Rightarrow> shape_update \<Rightarrow> 'w \<times> neighbor_update list"

text \<open>
  One step of an update: the world after it, the updates requested, and the update to be
  returned when it is not finished. \<open>None\<close> is an index out of range, which panics.
\<close>

fun run_next :: "'w world_ops \<Rightarrow> 'w \<Rightarrow> neighbor_update \<Rightarrow> ('w \<times> neighbor_update list \<times> neighbor_update option) option" where
  "run_next ops w (Full st p source_block moved_by_piston) =
     (let (w', req) = execute_neighbor_update ops w st p source_block moved_by_piston in Some (w', req, None))"
| "run_next ops w (Multi source_pos source_block skip_direction i) =
     (if length UPDATE_ORDER \<le> i then None
      else let direction = UPDATE_ORDER ! i;
               i1 = i + 1;
               neighbor_pos = bp_relative source_pos direction;
               st = get_block_state ops w neighbor_pos;
               (w', req) = execute_neighbor_update ops w st neighbor_pos source_block False;
               i2 = (if i1 < length UPDATE_ORDER \<and> Some (UPDATE_ORDER ! i1) = skip_direction then i1 + 1 else i1)
           in Some (w', req, if i2 < length UPDATE_ORDER then Some (Multi source_pos source_block skip_direction i2) else None))"
| "run_next ops w (Shape u) = (let (w', req) = execute_neighbor_shape_update ops w u in Some (w', req, None))"
| "run_next ops w (Simple p source_block) =
     (let (w', req) = execute_neighbor_update ops w (get_block_state ops w p) p source_block False in Some (w', req, None))"

section \<open>The collecting state\<close>

record 'u collecting_state =
  stack :: "'u list"
  added_this_layer :: "'u list"
  count :: int

definition collecting_default :: "'u collecting_state" where
  "collecting_default = \<lparr>stack = [], added_this_layer = [], count = 0\<rparr>"

record add_result =
  should_run :: bool
  first_skipped :: bool

definition enqueue :: "int \<Rightarrow> 'u \<Rightarrow> 'u collecting_state \<Rightarrow> add_result \<times> 'u collecting_state" where
  "enqueue max_chained update s =
     (let running_already = 0 < count s;
          too_many_updates = 0 \<le> max_chained \<and> max_chained \<le> count s;
          s1 = s\<lparr>count := wrap_i32 (count s + 1)\<rparr>;
          s2 = (if \<not> too_many_updates
                then (if running_already then s1\<lparr>added_this_layer := added_this_layer s1 @ [update]\<rparr>
                      else s1\<lparr>stack := stack s1 @ [update]\<rparr>)
                else s1)
      in (\<lparr>should_run = \<not> running_already,
           first_skipped = too_many_updates \<and> wrap_i32 (count s2 - 1) = max_chained\<rparr>, s2))"

text \<open>Popping the layer from its end onto the stack.\<close>

function move_layer :: "'u list \<Rightarrow> 'u list \<Rightarrow> 'u list" where
  "move_layer st layer = (if layer = [] then st else move_layer (st @ [last layer]) (butlast layer))"
  by pat_completeness auto
termination
  by (relation "measure (length \<circ> snd)") auto

declare move_layer.simps [simp del]

definition take_next :: "'u collecting_state \<Rightarrow> 'u option \<times> 'u collecting_state" where
  "take_next s =
     (let st = move_layer (stack s) (added_this_layer s)
      in if st = [] then (None, s\<lparr>stack := [], added_this_layer := []\<rparr>)
         else (Some (last st), s\<lparr>stack := butlast st, added_this_layer := []\<rparr>))"

definition return_unfinished :: "'u \<Rightarrow> 'u collecting_state \<Rightarrow> 'u collecting_state" where
  "return_unfinished u s = s\<lparr>stack := stack s @ [u]\<rparr>"

definition collecting_reset :: "'u collecting_state \<Rightarrow> 'u collecting_state" where
  "collecting_reset s = s\<lparr>stack := [], added_this_layer := [], count := 0\<rparr>"

section \<open>Running\<close>

text \<open>
  The requests an executing update makes, each through \<open>add_and_run\<close>: \<open>None\<close> if one of them
  would start a run inside the run.
\<close>

fun enqueue_all :: "int \<Rightarrow> 'u list \<Rightarrow> 'u collecting_state \<Rightarrow> 'u collecting_state option" where
  "enqueue_all max_chained [] s = Some s"
| "enqueue_all max_chained (u # us) s =
     (let (r, s') = enqueue max_chained u s in if should_run r then None else enqueue_all max_chained us s')"

text \<open>
  The loop of \<open>run_updates\<close>; \<open>None\<close> when the steps allowed are used up, or on a panic or a nested
  run.
\<close>

fun run_updates ::
  "nat \<Rightarrow> 'w world_ops \<Rightarrow> int \<Rightarrow> 'w \<Rightarrow> neighbor_update collecting_state \<Rightarrow> ('w \<times> neighbor_update collecting_state) option" where
  "run_updates 0 ops max_chained w s = None"
| "run_updates (Suc n) ops max_chained w s =
     (case take_next s of
        (None, s') \<Rightarrow> Some (w, collecting_reset s')
      | (Some update, s') \<Rightarrow>
          (case run_next ops w update of
             None \<Rightarrow> None
           | Some (w', req, unfinished) \<Rightarrow>
               (case enqueue_all max_chained req s' of
                  None \<Rightarrow> None
                | Some s'' \<Rightarrow>
                    run_updates n ops max_chained w'
                      (case unfinished of None \<Rightarrow> s'' | Some u \<Rightarrow> return_unfinished u s''))))"

definition add_and_run ::
  "nat \<Rightarrow> 'w world_ops \<Rightarrow> int \<Rightarrow> 'w \<Rightarrow> neighbor_update \<Rightarrow> neighbor_update collecting_state \<Rightarrow>
   ('w \<times> neighbor_update collecting_state) option" where
  "add_and_run n ops max_chained w update s =
     (let (r, s') = enqueue max_chained update s
      in if should_run r then run_updates n ops max_chained w s' else Some (w, s'))"

section \<open>The agenda\<close>

text \<open>
  What the two vectors stand for: one list of updates still to run, the next one first.
\<close>

definition agenda :: "'u collecting_state \<Rightarrow> 'u list" where
  "agenda s = added_this_layer s @ rev (stack s)"

definition accepted :: "int \<Rightarrow> int \<Rightarrow> 'u list \<Rightarrow> 'u list" where
  "accepted max_chained c us = (if max_chained < 0 then us else take (nat (max_chained - c)) us)"

text \<open>
  The specification: take the first update, make one step, put the accepted requests in front, in
  order, then the unfinished update, then everything else.
\<close>

fun run_agenda :: "nat \<Rightarrow> 'w world_ops \<Rightarrow> int \<Rightarrow> int \<Rightarrow> 'w \<Rightarrow> neighbor_update list \<Rightarrow> 'w option" where
  "run_agenda 0 ops max_chained c w us = None"
| "run_agenda (Suc n) ops max_chained c w [] = Some w"
| "run_agenda (Suc n) ops max_chained c w (u # us) =
     (case run_next ops w u of
        None \<Rightarrow> None
      | Some (w', req, unfinished) \<Rightarrow>
          run_agenda n ops max_chained (c + int (length req)) w'
            (accepted max_chained c req @ (case unfinished of None \<Rightarrow> [] | Some u' \<Rightarrow> [u']) @ us))"

lemma move_layer_eq: "move_layer st layer = st @ rev layer"
proof (induction st layer rule: move_layer.induct)
  case (1 st layer)
  show ?case
  proof (cases layer rule: rev_cases)
    case Nil
    then show ?thesis by (simp add: move_layer.simps)
  next
    case (snoc xs x)
    then show ?thesis using 1 by (subst move_layer.simps) simp
  qed
qed

lemma take_next_agenda:
  "take_next s = (case agenda s of
     [] \<Rightarrow> (None, s\<lparr>stack := [], added_this_layer := []\<rparr>)
   | u # us \<Rightarrow> (Some u, s\<lparr>stack := rev us, added_this_layer := []\<rparr>))"
proof (cases "agenda s")
  case Nil
  then show ?thesis by (simp add: take_next_def move_layer_eq agenda_def)
next
  case (Cons u us)
  have st: "move_layer (stack s) (added_this_layer s) = rev (agenda s)" by (simp add: move_layer_eq agenda_def)
  then show ?thesis unfolding take_next_def Let_def st by (simp add: Cons)
qed

lemma agenda_return [simp]: "added_this_layer s = es \<Longrightarrow> agenda (return_unfinished u s) = es @ u # rev (stack s)"
  by (simp add: agenda_def return_unfinished_def)

lemma enqueue_running:
  assumes "0 < count s" and "count s < 2 ^ 31 - 1"
  shows "enqueue m u s = (\<lparr>should_run = False, first_skipped = (0 \<le> m \<and> count s = m)\<rparr>,
    s\<lparr>added_this_layer := added_this_layer s @ accepted m (count s) [u], count := count s + 1\<rparr>)"
proof -
  have "wrap_i32 (count s + 1) = count s + 1" "wrap_i32 (count s) = count s"
    using assms by (auto intro!: wrap_i32_id simp: i32_ok_def)
  then show ?thesis using assms by (auto simp: enqueue_def accepted_def Let_def)
qed

lemma accepted_Cons: "accepted m c (u # us) = accepted m c [u] @ accepted m (c + 1) us"
proof (cases "m < 0 \<or> m \<le> c")
  case True
  then show ?thesis by (auto simp: accepted_def)
next
  case False
  then have "nat (m - c) = Suc (nat (m - (c + 1)))" by arith
  with False show ?thesis by (simp add: accepted_def)
qed

lemma accepted_Nil [simp]: "accepted m c [] = []"
  by (simp add: accepted_def)

lemma enqueue_all_running:
  assumes "0 < count s" and "count s + int (length us) < 2 ^ 31"
  shows "enqueue_all m us s =
    Some (s\<lparr>added_this_layer := added_this_layer s @ accepted m (count s) us, count := count s + int (length us)\<rparr>)"
  using assms
proof (induction us arbitrary: s)
  case (Cons u us)
  then show ?case by (simp add: enqueue_running accepted_Cons [of m "count s" u us] add.assoc)
qed simp

text \<open>
  The worlds considered: updates are requested through the public operations, and, where a bound
  is wanted, no single step requests more than a given number of them.
\<close>

fun fresh_update :: "neighbor_update \<Rightarrow> bool" where
  "fresh_update (Multi p b skip i) \<longleftrightarrow> i = (if skip = Some West then 1 else 0)"
| "fresh_update _ = True"

definition bounded_world :: "nat \<Rightarrow> 'w world_ops \<Rightarrow> bool" where
  "bounded_world k ops \<longleftrightarrow>
     (\<forall>w st p b m. length (snd (execute_neighbor_update ops w st p b m)) \<le> k
        \<and> list_all fresh_update (snd (execute_neighbor_update ops w st p b m))) \<and>
     (\<forall>w u. length (snd (execute_neighbor_shape_update ops w u)) \<le> k
        \<and> list_all fresh_update (snd (execute_neighbor_shape_update ops w u)))"

definition public_world :: "'w world_ops \<Rightarrow> bool" where
  "public_world ops \<longleftrightarrow>
     (\<forall>w st p b m. list_all fresh_update (snd (execute_neighbor_update ops w st p b m))) \<and>
     (\<forall>w u. list_all fresh_update (snd (execute_neighbor_shape_update ops w u)))"

lemma run_next_bounded:
  assumes "bounded_world k ops" and "run_next ops w u = Some (w', req, unfinished)"
  shows "length req \<le> k"
  using assms by (cases u; auto simp: bounded_world_def Let_def case_prod_beta split: if_splits)

lemma run_next_public:
  assumes "public_world ops" and "run_next ops w u = Some (w', req, unfinished)"
  shows "list_all fresh_update req"
  using assms by (cases u; auto simp: public_world_def Let_def case_prod_beta split: if_splits)

text \<open>The number of updates requested in the first steps of a run, kept or dropped.\<close>

fun requests_made :: "nat \<Rightarrow> 'w world_ops \<Rightarrow> int \<Rightarrow> int \<Rightarrow> 'w \<Rightarrow> neighbor_update list \<Rightarrow> nat" where
  "requests_made 0 ops max_chained c w us = 0"
| "requests_made (Suc n) ops max_chained c w [] = 0"
| "requests_made (Suc n) ops max_chained c w (u # us) =
     (case run_next ops w u of
        None \<Rightarrow> 0
      | Some (w', req, unfinished) \<Rightarrow>
          length req + requests_made n ops max_chained (c + int (length req)) w'
            (accepted max_chained c req @ (case unfinished of None \<Rightarrow> [] | Some u' \<Rightarrow> [u']) @ us))"

lemma requests_made_bounded: "bounded_world k ops \<Longrightarrow> requests_made n ops m c w us \<le> n * k"
proof (induction n ops m c w us rule: requests_made.induct)
  case (3 n ops m c w u us)
  show ?case
  proof (cases "run_next ops w u")
    case (Some r)
    obtain w' req unf where r: "r = (w', req, unf)" by (cases r)
    from "3.IH" [OF Some r [symmetric] refl "3.prems"] run_next_bounded [OF "3.prems", of w u w' req unf] Some r
    show ?thesis by simp
  qed simp
qed simp_all

lemma run_updates_agenda:
  assumes "0 < count s" and "count s + int (requests_made n ops m (count s) w (agenda s)) < 2 ^ 31"
  shows "run_updates n ops m w s =
    map_option (\<lambda>w. (w, collecting_default)) (run_agenda n ops m (count s) w (agenda s))"
  using assms
proof (induction n arbitrary: w s)
  case (Suc n)
  show ?case
  proof (cases "agenda s")
    case Nil
    then show ?thesis by (simp add: take_next_agenda collecting_reset_def collecting_default_def)
  next
    case (Cons u us)
    let ?s = "s\<lparr>stack := rev us, added_this_layer := []\<rparr>"
    have t: "take_next s = (Some u, ?s)" by (simp add: take_next_agenda Cons)
    show ?thesis
    proof (cases "run_next ops w u")
      case None
      with t Cons show ?thesis by simp
    next
      case (Some r)
      obtain w' req unf where r: "r = (w', req, unf)" by (cases r)
      let ?s2 = "s\<lparr>stack := rev us, added_this_layer := accepted m (count s) req, count := count s + int (length req)\<rparr>"
      let ?s3 = "case unf of None \<Rightarrow> ?s2 | Some u' \<Rightarrow> return_unfinished u' ?s2"
      have a: "agenda ?s3 = accepted m (count s) req @ (case unf of None \<Rightarrow> [] | Some u' \<Rightarrow> [u']) @ us"
        "count ?s3 = count s + int (length req)"
        by (cases unf; simp add: agenda_def return_unfinished_def)+
      have cnt: "count ?s3 + int (requests_made n ops m (count ?s3) w' (agenda ?s3)) < 2 ^ 31"
        using Suc.prems(2) Some r Cons by (simp add: a)
      then have "count s + int (length req) < 2 ^ 31" unfolding a(2) by linarith
      then have e: "enqueue_all m req ?s = Some ?s2" using enqueue_all_running [of ?s req m] Suc.prems(1) by simp
      have "run_updates n ops m w' ?s3 = map_option (\<lambda>w. (w, collecting_default)) (run_agenda n ops m (count ?s3) w' (agenda ?s3))"
        by (rule Suc.IH) (use a(2) Suc.prems(1) cnt in simp_all)
      then show ?thesis using t Some r e Cons a by simp
    qed
  qed
qed simp

section \<open>Termination\<close>

text \<open>Steps an update can still make.\<close>

fun steps_left :: "neighbor_update \<Rightarrow> nat" where
  "steps_left (Multi p b skip i) = 6 - i"
| "steps_left _ = 1"

fun update_ok :: "neighbor_update \<Rightarrow> bool" where
  "update_ok (Multi p b skip i) \<longleftrightarrow> i < 6"
| "update_ok _ = True"

lemma fresh_ok: "fresh_update u \<Longrightarrow> update_ok u \<and> 1 \<le> steps_left u \<and> steps_left u \<le> 6"
  by (cases u) auto

lemma UPDATE_ORDER_length [simp]: "length UPDATE_ORDER = 6"
  by (simp add: UPDATE_ORDER_def)

lemma run_next_progress:
  assumes "update_ok u"
  shows "\<exists>w' req unf. run_next ops w u = Some (w', req, unf) \<and>
    (case unf of None \<Rightarrow> 0 < steps_left u | Some u' \<Rightarrow> update_ok u' \<and> steps_left u' < steps_left u)"
  using assms by (cases u) (auto simp: Let_def case_prod_beta)

definition budget :: "int \<Rightarrow> int \<Rightarrow> neighbor_update list \<Rightarrow> nat" where
  "budget m c us = 6 * nat (m - c) + sum_list (map steps_left us)"

lemma accepted_fresh: "list_all fresh_update us \<Longrightarrow> list_all fresh_update (accepted m c us)"
  by (auto simp: accepted_def list_all_iff dest: in_set_takeD)

lemma budget_accepted:
  assumes "0 \<le> m" and "list_all fresh_update us"
  shows "budget m (c + int (length us)) (accepted m c us @ vs) \<le> budget m c vs"
proof -
  have "sum_list (map steps_left xs) \<le> 6 * length xs" if "list_all fresh_update xs" for xs
    using that by (induction xs) (auto dest: fresh_ok)
  from this [OF accepted_fresh [OF assms(2)], of m c]
  have "sum_list (map steps_left (accepted m c us)) \<le> 6 * length (accepted m c us)" .
  moreover have "length (accepted m c us) = min (length us) (nat (m - c))" using assms(1) by (simp add: accepted_def)
  moreover have "nat (m - (c + int (length us))) + min (length us) (nat (m - c)) = nat (m - c)" by (simp add: min_def) arith
  ultimately show ?thesis by (simp add: budget_def)
qed

lemma run_agenda_returns:
  assumes "public_world ops" and "0 \<le> m" and "list_all update_ok us" and "budget m c us < n"
  shows "\<exists>w'. run_agenda n ops m c w us = Some w'"
  using assms(3,4)
proof (induction n arbitrary: c w us)
  case (Suc n)
  show ?case
  proof (cases us)
    case (Cons u us')
    with Suc.prems(1) run_next_progress [of u ops w] obtain w' req unf where
      r: "run_next ops w u = Some (w', req, unf)"
      and p: "case unf of None \<Rightarrow> 0 < steps_left u | Some u' \<Rightarrow> update_ok u' \<and> steps_left u' < steps_left u" by auto
    let ?vs = "(case unf of None \<Rightarrow> [] | Some u' \<Rightarrow> [u']) @ us'"
    note req = run_next_public [OF assms(1) r]
    have ok: "list_all update_ok (accepted m c req @ ?vs)"
      using accepted_fresh [OF req, of m c] p Suc.prems(1) Cons fresh_ok
      by (cases unf) (auto simp: list_all_iff)
    have "sum_list (map steps_left ?vs) < sum_list (map steps_left us)" using p Cons by (cases unf) auto
    then have "budget m c ?vs < budget m c us" by (simp add: budget_def)
    with budget_accepted [OF assms(2) req, of c ?vs] Suc.prems(2)
    have "budget m (c + int (length req)) (accepted m c req @ ?vs) < n" by linarith
    from Suc.IH [OF ok this] r Cons show ?thesis by simp
  qed simp
qed simp

lemma updates_run_depth_first_eq:
  assumes "1 + int (requests_made n ops m 1 w (accepted m 0 [u])) < 2 ^ 31"
  shows "add_and_run n ops m w u collecting_default =
    map_option (\<lambda>w. (w, collecting_default)) (run_agenda n ops m 1 w (accepted m 0 [u]))"
proof -
  have "wrap_i32 1 = 1" "wrap_i32 0 = 0" by (auto intro!: wrap_i32_id simp: i32_ok_def)
  then have e: "enqueue m u collecting_default =
      (\<lparr>should_run = True, first_skipped = (m = 0)\<rparr>, \<lparr>stack = accepted m 0 [u], added_this_layer = [], count = 1\<rparr>)"
    by (auto simp: enqueue_def collecting_default_def accepted_def Let_def take_Cons')
  have "agenda \<lparr>stack = accepted m 0 [u], added_this_layer = [], count = 1\<rparr> = accepted m 0 [u]"
    by (simp add: agenda_def accepted_def take_Cons')
  with run_updates_agenda [of "\<lparr>stack = accepted m 0 [u], added_this_layer = [], count = 1\<rparr>" n ops m w] assms
  show ?thesis by (simp add: add_and_run_def e)
qed

section \<open>Properties\<close>

text \<open>
  C17. The stack and the layer together are one agenda: a run does what the plain depth-first
  agenda does, executing the updates a step requested, in the order it requested them, before
  the rest of the interrupted update and before everything that waited already. It ends with the
  collecting state reset, and no request ever starts a run inside the run. This holds for any
  world whose steps request at most \<open>k\<close> updates, as long as the requests stay below the range of
  the counter.
\<close>
theorem updates_run_depth_first:
  assumes "bounded_world k ops" and "1 + int (n * k) < 2 ^ 31"
  shows "add_and_run n ops m w u collecting_default =
    map_option (\<lambda>w. (w, collecting_default)) (run_agenda n ops m 1 w (accepted m 0 [u]))"
  using requests_made_bounded [OF assms(1), of n m 1 w "accepted m 0 [u]"] assms(2) by (intro updates_run_depth_first_eq) linarith

text \<open>A world that requests nothing and records the positions it was told to update.\<close>

definition recording_ops :: "(block_pos list) world_ops" where
  "recording_ops = \<lparr>get_block_state = (\<lambda>w p. 0),
     execute_neighbor_update = (\<lambda>w st p b m. (w @ [p], [])),
     execute_neighbor_shape_update = (\<lambda>w u. (w, []))\<rparr>"

lemma bounded_recording: "bounded_world 0 recording_ops"
  by (simp add: bounded_world_def recording_ops_def)

theorem updates_run_depth_first_witness:
  "add_and_run 2 recording_ops 100 [] (neighbor_changed (BlockPos 1 2 3) 4) collecting_default =
    Some ([BlockPos 1 2 3], collecting_default)"
  using updates_run_depth_first [OF bounded_recording, of 2 100 "[]" "neighbor_changed (BlockPos 1 2 3) 4"]
  by (simp add: neighbor_changed_def accepted_def eval_nat_numeral recording_ops_def)

text \<open>
  C18. A run ends when the chain limit is not negative, updates are requested only through the
  public operations, and the run requests fewer than $2^{31} - 1$ updates in all, kept or dropped,
  so that the counter does not wrap. At most \<open>limit\<close> updates are then accepted and each makes at
  most six steps, so \<open>6 * limit + 1\<close> rounds of the loop suffice, and afterwards the updater is ready
  for the next update. No bound on what a single update requests is needed.
\<close>
theorem update_chain_terminates:
  assumes "public_world ops" and "0 \<le> m" and "fresh_update u"
    and "1 + int (requests_made (6 * nat m + 1) ops m 1 w (accepted m 0 [u])) < 2 ^ 31"
  shows "\<exists>w'. add_and_run (6 * nat m + 1) ops m w u collecting_default = Some (w', collecting_default)"
proof -
  have "list_all update_ok (accepted m 0 [u])"
    using accepted_fresh [of "[u]" m 0] assms(3) fresh_ok by (auto simp: list_all_iff)
  moreover have "budget m 1 (accepted m 0 [u]) < 6 * nat m + 1"
  proof (cases "m = 0")
    case False
    then have "budget m 1 [u] \<le> 6 * nat (m - 1) + 6" using fresh_ok [OF assms(3)] by (simp add: budget_def)
    then show ?thesis using False assms(2) by (simp add: accepted_def)
  qed (simp add: budget_def accepted_def)
  ultimately obtain w' where "run_agenda (6 * nat m + 1) ops m 1 w (accepted m 0 [u]) = Some w'"
    using run_agenda_returns [OF assms(1,2)] by blast
  with updates_run_depth_first_eq [OF assms(4)] show ?thesis by simp
qed

text \<open>A world in which every update requests two more, of the block itself, without end.\<close>

definition echoing_ops :: "nat world_ops" where
  "echoing_ops = \<lparr>get_block_state = (\<lambda>w p. 0),
     execute_neighbor_update = (\<lambda>w st p b m. (w + 1, [Simple p b, Simple p b])),
     execute_neighbor_shape_update = (\<lambda>w u. (w, []))\<rparr>"

theorem update_chain_terminates_witness:
  "\<exists>w'. add_and_run 13 echoing_ops 2 0 (neighbor_changed (BlockPos 0 0 0) 1) collecting_default = Some (w', collecting_default)"
proof -
  have "public_world echoing_ops" "bounded_world 2 echoing_ops" by (simp_all add: public_world_def bounded_world_def echoing_ops_def)
  with requests_made_bounded [of 2 echoing_ops 13 2 1 0 "accepted 2 0 [neighbor_changed (BlockPos 0 0 0) 1]"]
  show ?thesis
    using update_chain_terminates [of echoing_ops 2 "neighbor_changed (BlockPos 0 0 0) 1" 0] by (simp add: neighbor_changed_def)
qed

text \<open>
  A neighbour update of all sides visits each neighbour once, in the order west, east, down,
  up, north, south, leaving out exactly the direction to be skipped, wherever in that order it
  stands.
\<close>
theorem multi_update_visits:
  "run_agenda 7 recording_ops m c [] [update_neighbors_at_except_from_facing p b skip] =
    Some (map (bp_relative p) (filter (\<lambda>d. skip \<noteq> Some d) [West, East, Down, Up, North, South]))"
proof (cases skip)
  case None
  then show ?thesis
    by (simp add: update_neighbors_at_except_from_facing_def UPDATE_ORDER_def recording_ops_def eval_nat_numeral accepted_def)
next
  case (Some d)
  then show ?thesis
    by (cases d) (simp_all add: update_neighbors_at_except_from_facing_def UPDATE_ORDER_def recording_ops_def eval_nat_numeral accepted_def)
qed

text \<open>
  The chain limit counts requests, not executions: of the requests made while a run is in
  progress exactly those before the limit are kept, in order, the rest are dropped, and the
  first one dropped, and no other, is reported.
\<close>
theorem chain_limit:
  assumes "0 < count s" and "count s + int (length us) < 2 ^ 31 - 1" and "0 \<le> m"
  shows "\<exists>s'. enqueue_all m us s = Some s' \<and> agenda s' = added_this_layer s @ take (nat (m - count s)) us @ rev (stack s)
    \<and> (\<forall>u. first_skipped (fst (enqueue m u s')) \<longleftrightarrow> count s + int (length us) = m)"
proof -
  let ?s = "s\<lparr>added_this_layer := added_this_layer s @ accepted m (count s) us, count := count s + int (length us)\<rparr>"
  have "enqueue_all m us s = Some ?s" by (rule enqueue_all_running) (use assms in auto)
  moreover have "first_skipped (fst (enqueue m u ?s)) \<longleftrightarrow> count s + int (length us) = m" for u
    using assms by (subst enqueue_running) auto
  ultimately show ?thesis using assms(3) by (simp add: agenda_def accepted_def)
qed

theorem chain_limit_witness:
  "\<exists>s'. enqueue_all 2 [(10::nat), 11, 12] \<lparr>stack = [], added_this_layer = [], count = 1\<rparr> = Some s' \<and> agenda s' = [10]"
  using chain_limit [of "\<lparr>stack = [], added_this_layer = [], count = 1\<rparr>" "[(10::nat), 11, 12]" 2] by auto

end
