(* ===== verification/Profile_Keys.thy ===== *)
theory Profile_Keys
  imports Serial
begin

text \<open>
  Profile public keys (\<open>steel-core/src/player/chat/profile_key.rs\<close>): the key a player announces,
  its expiry, the payload the session service signs, and the byte form of the key data. RSA keys,
  their DER encoding and the signature check are parameters. A \<open>SystemTime\<close> is the nanoseconds
  since the epoch as an integer, a UUID a 128-bit word, a panic \<open>None\<close>.
\<close>

type_synonym uuid = "128 word"

definition be_i32 :: "int \<Rightarrow> byte list" where
  "be_i32 x = to_be_bytes (word_of_int x :: 32 word)"

definition be_i64 :: "int \<Rightarrow> byte list" where
  "be_i64 x = to_be_bytes (word_of_int x :: 64 word)"

datatype crypt_error = RsaError | Pkcs8Error | SpkiError | InvalidKeyFormat | OperationFailed

datatype validation_error = BadKeySignature | KeyHasExpired | KeyCryptoError crypt_error

definition EXPIRY_GRACE_PERIOD :: int where
  "EXPIRY_GRACE_PERIOD = 8 * 3600 * 1000000000"

definition MAX_KEY_SIGNATURE_SIZE :: nat where
  "MAX_KEY_SIGNATURE_SIZE = 4096"

definition system_time_from_millis :: "int \<Rightarrow> int" where
  "system_time_from_millis millis = (if 0 \<le> millis then 0 + millis * 1000000 else 0 - \<bar>millis\<bar> * 1000000)"

definition system_time_to_millis :: "int \<Rightarrow> int" where
  "system_time_to_millis t =
     (if 0 \<le> t then (let ms = t div 1000000 in if i64_ok ms then ms else 2 ^ 63 - 1)
      else (let ms = - t div 1000000 in if i64_ok ms then - ms else - (2 ^ 63)))"

record 'k profile_public_key_data =
  expires_at :: int
  pk_key :: 'k
  key_signature :: "byte list"

definition key_data_new :: "int \<Rightarrow> 'k \<Rightarrow> byte list \<Rightarrow> 'k profile_public_key_data" where
  "key_data_new t k sig = \<lparr>expires_at = t, pk_key = k, key_signature = sig\<rparr>"

definition has_expired :: "int \<Rightarrow> 'k profile_public_key_data \<Rightarrow> bool" where
  "has_expired now d \<longleftrightarrow> expires_at d \<le> now"

definition has_expired_with_grace :: "int \<Rightarrow> int \<Rightarrow> 'k profile_public_key_data \<Rightarrow> bool" where
  "has_expired_with_grace now grace d \<longleftrightarrow> expires_at d + grace \<le> now"

definition signed_payload ::
  "('k \<Rightarrow> crypt_error + byte list) \<Rightarrow> uuid \<Rightarrow> 'k profile_public_key_data \<Rightarrow> validation_error + byte list" where
  "signed_payload to_der profile_id d =
     (case to_der (pk_key d) of
        Inl e \<Rightarrow> Inl (KeyCryptoError e)
      | Inr key_bytes \<Rightarrow>
          Inr (to_be_bytes profile_id @ be_i64 (system_time_to_millis (expires_at d)) @ key_bytes))"

definition validate_signature ::
  "('k \<Rightarrow> crypt_error + byte list) \<Rightarrow> (byte list \<Rightarrow> byte list \<Rightarrow> crypt_error + bool) \<Rightarrow> uuid \<Rightarrow>
   'k profile_public_key_data \<Rightarrow> validation_error + unit" where
  "validate_signature to_der validator profile_id d =
     (case signed_payload to_der profile_id d of
        Inl e \<Rightarrow> Inl e
      | Inr pl \<Rightarrow>
          (case validator pl (key_signature d) of
             Inl e \<Rightarrow> Inl (KeyCryptoError e)
           | Inr is_valid \<Rightarrow> if is_valid then Inr () else Inl BadKeySignature))"

definition key_to_bytes :: "('k \<Rightarrow> crypt_error + byte list) \<Rightarrow> 'k profile_public_key_data \<Rightarrow> validation_error + byte list" where
  "key_to_bytes to_der d =
     (case to_der (pk_key d) of
        Inl e \<Rightarrow> Inl (KeyCryptoError e)
      | Inr key_bytes \<Rightarrow>
          Inr (be_i64 (system_time_to_millis (expires_at d))
               @ be_i32 (wrap_i32 (int (length key_bytes))) @ key_bytes
               @ be_i32 (wrap_i32 (int (length (key_signature d)))) @ key_signature d))"

text \<open>
  A length-prefixed slice at an offset, with the check the code makes. The end of the slice is
  computed modulo $2^{64}$, so that a negative length can pass the check; the slice then panics.
\<close>

definition usize_add :: "nat \<Rightarrow> nat \<Rightarrow> nat" where
  "usize_add a b = (a + b) mod 2 ^ 64"

definition byte_range :: "nat \<Rightarrow> nat \<Rightarrow> byte list \<Rightarrow> byte list option" where
  "byte_range a b bytes = (if a \<le> b \<and> b \<le> length bytes then Some (take (b - a) (drop a bytes)) else None)"

definition read_slice :: "nat \<Rightarrow> byte list \<Rightarrow> (validation_error + byte list \<times> nat) option" where
  "read_slice offset bytes =
     (if length bytes < usize_add offset 4 then Some (Inl (KeyCryptoError InvalidKeyFormat))
      else (case byte_range offset (usize_add offset 4) bytes of
              None \<Rightarrow> None
            | Some len_bytes \<Rightarrow>
                (let n = as_usize (from_be_bytes len_bytes); offset = usize_add offset 4
                 in if length bytes < usize_add offset n then Some (Inl (KeyCryptoError InvalidKeyFormat))
                    else (case byte_range offset (usize_add offset n) bytes of
                            None \<Rightarrow> None
                          | Some s \<Rightarrow> Some (Inr (s, usize_add offset n))))))"

definition key_from_bytes ::
  "(byte list \<Rightarrow> crypt_error + 'k) \<Rightarrow> byte list \<Rightarrow> (validation_error + 'k profile_public_key_data) option" where
  "key_from_bytes from_der bytes =
     (if length bytes < 16 then Some (Inl (KeyCryptoError InvalidKeyFormat))
      else
       (let expiry_millis = sint (from_be_bytes (take 8 bytes) :: 64 word);
            t = system_time_from_millis expiry_millis
        in case read_slice 8 bytes of
             None \<Rightarrow> None
           | Some (Inl e) \<Rightarrow> Some (Inl e)
           | Some (Inr (key_bytes, offset)) \<Rightarrow>
               (case from_der key_bytes of
                  Inl e \<Rightarrow> Some (Inl (KeyCryptoError e))
                | Inr key \<Rightarrow>
                    (case read_slice offset bytes of
                       None \<Rightarrow> None
                     | Some (Inl e) \<Rightarrow> Some (Inl e)
                     | Some (Inr (sig, _)) \<Rightarrow> Some (Inr (key_data_new t key sig))))))"

section \<open>Big-endian numbers\<close>

lemma to_be_bytes_inj:
  assumes "8 dvd LENGTH('a)" and "to_be_bytes (v :: 'a::len word) = to_be_bytes w"
  shows "v = w"
  by (metis assms be_roundtrip)

lemma to_be_bytes_length: "length (to_be_bytes (w :: 'a::len word)) = LENGTH('a) div 8"
  by (simp add: to_be_bytes_def)

lemma be_lengths: "length (be_i32 x) = 4" "length (be_i64 y) = 8" "length (to_be_bytes (u :: uuid)) = 16"
  by (simp_all add: be_i32_def be_i64_def to_be_bytes_length)

lemma be_append:
  "be_i32 x @ xs = be_i32 y @ ys \<longleftrightarrow> be_i32 x = be_i32 y \<and> xs = ys"
  "be_i64 x @ xs = be_i64 y @ ys \<longleftrightarrow> be_i64 x = be_i64 y \<and> xs = ys"
  "to_be_bytes (u :: uuid) @ xs = to_be_bytes (v :: uuid) @ ys \<longleftrightarrow> to_be_bytes u = to_be_bytes v \<and> xs = ys"
  by (rule append_eq_append_conv, simp add: be_lengths)+

lemma be_i32_inj:
  assumes "be_i32 x = be_i32 y" and "i32_ok x" and "i32_ok y"
  shows "x = y"
proof -
  have "sint (word_of_int x :: 32 word) = sint (word_of_int y :: 32 word)"
    using to_be_bytes_inj [of "word_of_int x :: 32 word" "word_of_int y"] assms(1) unfolding be_i32_def by simp
  then show ?thesis using assms(2,3)
    by (simp add: sint_uint uint_word_of_int_eq signed_take_bit_take_bit wrap_i32_def [symmetric] wrap_i32_id)
qed

lemma be_i64_inj:
  assumes "be_i64 x = be_i64 y" and "i64_ok x" and "i64_ok y"
  shows "x = y"
proof -
  have "sint (word_of_int x :: 64 word) = sint (word_of_int y :: 64 word)"
    using to_be_bytes_inj [of "word_of_int x :: 64 word" "word_of_int y"] assms(1) unfolding be_i64_def by simp
  then show ?thesis using assms(2,3)
    by (simp add: sint_uint uint_word_of_int_eq signed_take_bit_take_bit wrap_i64_def [symmetric] wrap_i64_id)
qed

lemma len_prefix_inj:
  assumes "be_i32 (wrap_i32 (int m)) = be_i32 (wrap_i32 (int n))" and "m < 2 ^ 31" and "n < 2 ^ 31"
  shows "m = n"
proof -
  have "i32_ok (int m)" "i32_ok (int n)" using assms by (simp_all add: i32_ok_def)
  then show ?thesis using be_i32_inj [OF assms(1)] by (simp add: wrap_i32_id)
qed


lemma be_read_back:
  "i32_ok x \<Longrightarrow> sint (from_be_bytes (be_i32 x) :: 32 word) = x"
  "i64_ok y \<Longrightarrow> sint (from_be_bytes (be_i64 y) :: 64 word) = y"
  by (simp_all add: be_i32_def be_i64_def be_roundtrip sint_uint uint_word_of_int_eq signed_take_bit_take_bit
      wrap_i32_def [symmetric] wrap_i64_def [symmetric] wrap_i32_id wrap_i64_id)

section \<open>Times\<close>

lemma millis_roundtrip: "i64_ok m \<Longrightarrow> system_time_to_millis (system_time_from_millis m) = m"
  by (auto simp: system_time_from_millis_def system_time_to_millis_def i64_ok_def Let_def)

lemma i64_ok_millis: "i64_ok (system_time_to_millis t)"
  by (auto simp: system_time_to_millis_def i64_ok_def Let_def)

section \<open>The byte form\<close>

lemma as_usize_be_i32: "n < 2 ^ 31 \<Longrightarrow> as_usize (from_be_bytes (be_i32 (wrap_i32 (int n)))) = n"
proof -
  assume n: "n < 2 ^ 31"
  let ?w = "from_be_bytes (be_i32 (wrap_i32 (int n))) :: 32 word"
  have "sint ?w = int n" using n be_read_back(1) [of "int n"] by (simp add: wrap_i32_id i32_ok_def)
  then have "int (as_usize ?w) = int n" using as_usize_sint [of ?w] by simp
  then show ?thesis by simp
qed

lemma read_slice_back:
  assumes "bytes = pre @ be_i32 (wrap_i32 (int (length s))) @ s @ post" and "offset = length pre"
    and "length s < 2 ^ 31" and "length bytes < 2 ^ 63"
  shows "read_slice offset bytes = Some (Inr (s, offset + 4 + length s))"
proof -
  have l: "length bytes = offset + 4 + length s + length post" using assms(1,2) by (simp add: be_lengths)
  then have u: "usize_add offset 4 = offset + 4" "usize_add (offset + 4) (length s) = offset + 4 + length s"
    using assms(4) by (simp_all add: usize_add_def)
  have r: "byte_range offset (offset + 4) bytes = Some (be_i32 (wrap_i32 (int (length s))))"
    "byte_range (offset + 4) (offset + 4 + length s) bytes = Some s"
    using assms(1,2) l by (simp_all add: byte_range_def be_lengths)
  show ?thesis using l assms(3) by (simp add: read_slice_def Let_def u r as_usize_be_i32)
qed

text \<open>A length field that is negative but not below the bytes before the slice.\<close>

definition wrapping_length :: "nat \<Rightarrow> byte list \<Rightarrow> bool" where
  "wrapping_length offset bytes \<longleftrightarrow> offset + 4 \<le> length bytes
     \<and> (let n = sint (from_be_bytes (take 4 (drop offset bytes)) :: 32 word) in - int (offset + 4) \<le> n \<and> n < 0)"

lemma read_slice_panics:
  assumes "offset \<le> length bytes" and "length bytes < 2 ^ 63"
  shows "read_slice offset bytes = None \<longleftrightarrow> wrapping_length offset bytes"
proof (cases "offset + 4 \<le> length bytes")
  case False
  then show ?thesis using assms by (simp add: read_slice_def usize_add_def wrapping_length_def)
next
  case True
  let ?w = "from_be_bytes (take 4 (drop offset bytes)) :: 32 word" and ?stop = "usize_add (offset + 4) (as_usize (from_be_bytes (take 4 (drop offset bytes))))"
  have u: "usize_add offset 4 = offset + 4" using assms True by (simp add: usize_add_def)
  have r: "byte_range offset (offset + 4) bytes = Some (take 4 (drop offset bytes))" using True by (simp add: byte_range_def)
  have eq: "read_slice offset bytes = None \<longleftrightarrow> ?stop \<le> length bytes \<and> ?stop < offset + 4"
    using True by (auto simp: read_slice_def Let_def u r byte_range_def split: option.splits)
  have w: "- (2 ^ 31) \<le> sint ?w" "sint ?w < 2 ^ 31" using sint_ge [of ?w] sint_lt [of ?w] by simp_all
  have e: "int ?stop = (int (offset + 4) + sint ?w) mod 2 ^ 64"
  proof -
    have "int (as_usize ?w) mod 2 ^ 64 = sint ?w mod 2 ^ 64" using as_usize_sint [of ?w] by simp
    then have "(int (offset + 4) + int (as_usize ?w)) mod 2 ^ 64 = (int (offset + 4) + sint ?w) mod 2 ^ 64"
      by (rule mod_add_cong [OF refl])
    then show ?thesis by (simp add: usize_add_def zmod_int)
  qed
  consider (neg) "sint ?w < 0" "int (offset + 4) + sint ?w < 0" | (wrap) "sint ?w < 0" "0 \<le> int (offset + 4) + sint ?w" | (pos) "0 \<le> sint ?w"
    by linarith
  then show ?thesis
  proof cases
    case neg
    have "int ?stop = (int (offset + 4) + sint ?w + 2 ^ 64) mod 2 ^ 64" unfolding e by (simp only: mod_add_self2)
    also have "\<dots> = int (offset + 4) + sint ?w + 2 ^ 64" using neg w by (intro mod_pos_pos_trivial) auto
    finally have "int ?stop = int (offset + 4) + sint ?w + 2 ^ 64" .
    then show ?thesis using neg w assms eq by (simp add: wrapping_length_def Let_def)
  next
    case wrap
    have "int ?stop = int (offset + 4) + sint ?w" unfolding e using wrap assms True by (intro mod_pos_pos_trivial) auto
    then show ?thesis using wrap True eq by (simp add: wrapping_length_def Let_def)
  next
    case pos
    have "int ?stop = int (offset + 4) + sint ?w" unfolding e using pos w assms True by (intro mod_pos_pos_trivial) auto
    then show ?thesis using pos eq by (simp add: wrapping_length_def Let_def)
  qed
qed

lemma read_slice_within:
  assumes "read_slice offset bytes = Some (Inr (s, stop))"
  shows "stop \<le> length bytes"
  using assms by (auto simp: read_slice_def byte_range_def Let_def split: if_splits option.splits)

section \<open>Properties\<close>

text \<open>
  Key data survives its byte form: expiry in whole milliseconds, key and service signature are
  read back, for a DER encoding that is read back.
\<close>
theorem key_data_reads_back:
  assumes "to_der (pk_key d) = Inr kb" and "from_der kb = Inr (pk_key d)"
    and "expires_at d = system_time_from_millis m" and "i64_ok m"
    and "length kb < 2 ^ 31" and "length (key_signature d) < 2 ^ 31"
  shows "\<exists>bytes. key_to_bytes to_der d = Inr bytes \<and> key_from_bytes from_der bytes = Some (Inr d)"
proof -
  let ?sig = "key_signature d"
  define bytes where "bytes = be_i64 m @ be_i32 (wrap_i32 (int (length kb))) @ kb @ be_i32 (wrap_i32 (int (length ?sig))) @ ?sig"
  have b: "key_to_bytes to_der d = Inr bytes"
    using assms(1,3,4) by (simp add: key_to_bytes_def bytes_def millis_roundtrip)
  have l: "length bytes = 16 + length kb + length ?sig" by (simp add: bytes_def be_lengths)
  have r1: "read_slice 8 bytes = Some (Inr (kb, 8 + 4 + length kb))"
    using assms(5,6) l by (intro read_slice_back [where pre = "be_i64 m"]) (auto simp: bytes_def be_lengths)
  have r2: "read_slice (8 + 4 + length kb) bytes = Some (Inr (?sig, 8 + 4 + length kb + 4 + length ?sig))"
    using assms(5,6) l
    by (intro read_slice_back [where pre = "be_i64 m @ be_i32 (wrap_i32 (int (length kb))) @ kb" and post = "[]"]) (auto simp: bytes_def be_lengths)
  have "take 8 bytes = be_i64 m" by (simp add: bytes_def be_lengths)
  then have "key_from_bytes from_der bytes = Some (Inr d)"
    using l r1 r2 assms(2,3,4) by (simp add: key_from_bytes_def Let_def be_read_back key_data_new_def)
  with b show ?thesis by blast
qed

theorem key_data_reads_back_witness:
  "\<exists>bytes. key_to_bytes (\<lambda>k. Inr [k]) (key_data_new (system_time_from_millis (- 5)) 7 [1, 2]) = Inr bytes
    \<and> key_from_bytes (\<lambda>b. Inr (hd b)) bytes = Some (Inr (key_data_new (system_time_from_millis (- 5)) 7 [1, 2]))"
  by (rule key_data_reads_back [where kb = "[7]" and m = "- 5"]) (simp_all add: key_data_new_def i64_ok_def)

text \<open>
  C36. Reading key data panics exactly on a length field that is negative but not below the number of
  bytes before the slice: adding it to the offset wraps around to a value below the offset, which
  passes the length check. On all other input an error or key data is returned.
\<close>
theorem key_data_read_panics:
  assumes "length bytes < 2 ^ 63"
  shows "key_from_bytes from_der bytes = None \<longleftrightarrow> 16 \<le> length bytes \<and>
    (wrapping_length 8 bytes \<or> (\<exists>kb offset key. read_slice 8 bytes = Some (Inr (kb, offset)) \<and> from_der kb = Inr key \<and> wrapping_length offset bytes))"
proof (cases "16 \<le> length bytes")
  case True
  have p: "read_slice 8 bytes = None \<longleftrightarrow> wrapping_length 8 bytes" using read_slice_panics [of 8 bytes] True assms by simp
  have q: "read_slice offset bytes = None \<longleftrightarrow> wrapping_length offset bytes"
    if "read_slice 8 bytes = Some (Inr (kb, offset))" for kb offset
    using read_slice_panics [OF read_slice_within [OF that] assms] .
  show ?thesis
    using True p q by (auto simp: key_from_bytes_def Let_def split: option.splits sum.splits prod.splits)
qed (simp add: key_from_bytes_def)

theorem key_data_read_panics_witness:
  "key_from_bytes (\<lambda>b. Inr (hd b)) (replicate 8 0 @ be_i32 (- 1) @ [0, 0, 0, 0]) = None"
proof -
  let ?b = "replicate 8 0 @ be_i32 (- 1) @ [0, 0, 0, 0]"
  have "wrapping_length 8 ?b"
    using be_read_back(1) [of "- 1"] by (simp add: wrapping_length_def Let_def be_lengths i32_ok_def)
  then show ?thesis using key_data_read_panics [of ?b "\<lambda>b. Inr (hd b)"] by (simp add: be_lengths)
qed

text \<open>
  The payload that the session service signs binds the owner, the expiry in milliseconds and the
  key: payloads are equal only if all three are.
\<close>
theorem signed_payload_binds:
  assumes "signed_payload to_der u d = Inr pl" and "signed_payload to_der u' d' = Inr pl"
  shows "u = u' \<and> system_time_to_millis (expires_at d) = system_time_to_millis (expires_at d') \<and> to_der (pk_key d) = to_der (pk_key d')"
proof -
  from assms obtain kb kb' where k: "to_der (pk_key d) = Inr kb" "to_der (pk_key d') = Inr kb'"
    and e: "to_be_bytes u @ be_i64 (system_time_to_millis (expires_at d)) @ kb = to_be_bytes u' @ be_i64 (system_time_to_millis (expires_at d')) @ kb'"
    by (auto simp: signed_payload_def split: sum.splits)
  from e have "to_be_bytes u = to_be_bytes u'" "be_i64 (system_time_to_millis (expires_at d)) = be_i64 (system_time_to_millis (expires_at d'))" "kb = kb'"
    unfolding be_append by blast+
  then show ?thesis using k to_be_bytes_inj [of u u'] be_i64_inj i64_ok_millis by simp
qed

theorem signed_payload_binds_witness:
  "signed_payload (\<lambda>k. Inr [k]) 1 (key_data_new 0 7 []) \<noteq> signed_payload (\<lambda>k. Inr [k]) 2 (key_data_new 0 7 [])"
proof
  assume a: "signed_payload (\<lambda>k. Inr [k]) 1 (key_data_new 0 7 []) = signed_payload (\<lambda>k. Inr [k]) 2 (key_data_new 0 7 [])"
  obtain pl where "signed_payload (\<lambda>k. Inr [k]) 2 (key_data_new 0 (7 :: byte) []) = Inr pl"
    by (simp add: signed_payload_def key_data_new_def)
  with signed_payload_binds [of "\<lambda>k. Inr [k]" 1 "key_data_new 0 7 []" pl 2] a show False by simp
qed

end
