(* ===== verification/Chat_Tracking.thy ===== *)
theory Chat_Tracking
  imports Var_Int "HOL-Library.Sublist"
begin

text \<open>
  Tracking of chat messages per player (\<open>steel-core/src/player/chat/\<close>): the validator of
  acknowledgement windows (\<open>message_validator.rs\<close>), the signature cache whose indices are sent
  instead of signatures (\<open>signature_cache.rs\<close>), the spam throttler (\<open>spam_throttler.rs\<close>), and the
  delivery of one broadcast message to one recipient (\<open>world/broadcasts.rs\<close>). A signature is its
  bytes; the double-ended queues are lists, front first.
\<close>

type_synonym signature = "byte list"

section \<open>Acknowledgement windows\<close>

definition MAX_TRACKED_MESSAGES :: nat where
  "MAX_TRACKED_MESSAGES = 20"

record tracked_entry =
  te_signature :: "signature option"
  te_pending :: bool

definition acknowledge :: "tracked_entry \<Rightarrow> tracked_entry" where
  "acknowledge e = \<lparr>te_signature = te_signature e, te_pending = False\<rparr>"

record last_seen_validator =
  tracked_messages :: "tracked_entry option list"
  last_pending_signature :: "signature option"

datatype ack_error = WindowAdvance int nat | AckUnknown nat | AckIgnored nat

definition validator_new :: last_seen_validator where
  "validator_new = \<lparr>tracked_messages = replicate MAX_TRACKED_MESSAGES None, last_pending_signature = None\<rparr>"

definition add_pending :: "signature option \<Rightarrow> last_seen_validator \<Rightarrow> last_seen_validator" where
  "add_pending sig v =
     (if sig \<noteq> last_pending_signature v
      then \<lparr>tracked_messages = tracked_messages v @ [Some \<lparr>te_signature = sig, te_pending = True\<rparr>],
            last_pending_signature = sig\<rparr>
      else v)"

definition tracked_count :: "last_seen_validator \<Rightarrow> nat" where
  "tracked_count v = length (tracked_messages v)"

definition apply_offset :: "int \<Rightarrow> last_seen_validator \<Rightarrow> (ack_error + unit) \<times> last_seen_validator" where
  "apply_offset offset v =
     (let removable = length (tracked_messages v) - MAX_TRACKED_MESSAGES
      in if offset < 0 \<or> removable < nat offset then (Inl (WindowAdvance offset removable), v)
         else (Inr (), v\<lparr>tracked_messages := drop (nat offset) (tracked_messages v)\<rparr>))"

definition is_acknowledged :: "byte list \<Rightarrow> nat \<Rightarrow> bool" where
  "is_acknowledged acknowledged i \<longleftrightarrow> (acknowledged ! (i div 8)) AND push_bit (i mod 8) 1 \<noteq> 0"

text \<open>
  The loop over the window from index \<open>i\<close> on: the error that ends it, the entries as they are
  left behind, and the signatures collected.
\<close>

fun ack_window ::
  "byte list \<Rightarrow> nat \<Rightarrow> tracked_entry option list \<Rightarrow> ack_error option \<times> tracked_entry option list \<times> signature list" where
  "ack_window acknowledged i [] = (None, [], [])"
| "ack_window acknowledged i (entry_opt # rest) =
     (if is_acknowledged acknowledged i then
        (case entry_opt of
           Some entry \<Rightarrow>
             (let (err, rest', sigs) = ack_window acknowledged (i + 1) rest
              in (err, Some (acknowledge entry) # rest',
                  (case te_signature entry of Some sig \<Rightarrow> [sig] | None \<Rightarrow> []) @ sigs))
         | None \<Rightarrow> (Some (AckUnknown i), entry_opt # rest, []))
      else
        (case entry_opt of
           Some entry \<Rightarrow>
             if \<not> te_pending entry then (Some (AckIgnored i), entry_opt # rest, [])
             else (let (err, rest', sigs) = ack_window acknowledged (i + 1) rest in (err, None # rest', sigs))
         | None \<Rightarrow> (let (err, rest', sigs) = ack_window acknowledged (i + 1) rest in (err, None # rest', sigs))))"

definition apply_update ::
  "byte list \<Rightarrow> int \<Rightarrow> byte \<Rightarrow> last_seen_validator \<Rightarrow> (ack_error + signature list) \<times> last_seen_validator" where
  "apply_update acknowledged offset checksum v =
     (case apply_offset offset v of
        (Inl e, v') \<Rightarrow> (Inl e, v')
      | (Inr _, v') \<Rightarrow>
          (let n = min MAX_TRACKED_MESSAGES (length (tracked_messages v'));
               (err, window, sigs) = ack_window acknowledged 0 (take n (tracked_messages v'));
               v'' = v'\<lparr>tracked_messages := window @ drop n (tracked_messages v')\<rparr>
           in case err of Some e \<Rightarrow> (Inl e, v'') | None \<Rightarrow> (Inr sigs, v'')))"

section \<open>The signature cache\<close>

definition MAX_CACHED_SIGNATURES :: nat where
  "MAX_CACHED_SIGNATURES = 128"

definition MAX_PREVIOUS_MESSAGES :: nat where
  "MAX_PREVIOUS_MESSAGES = 20"

record message_cache =
  full_cache :: "signature list"
  mc_last_seen :: "signature list"

definition cache_new :: message_cache where
  "cache_new = \<lparr>full_cache = [], mc_last_seen = []\<rparr>"

fun collect_cached :: "signature list \<Rightarrow> byte list \<Rightarrow> nat list \<Rightarrow> signature list option" where
  "collect_cached cache acknowledged [] = Some []"
| "collect_cached cache acknowledged (i # is) =
     (if \<not> is_acknowledged acknowledged i then collect_cached cache acknowledged is
      else if length cache \<le> i then None
      else map_option (Cons (cache ! i)) (collect_cached cache acknowledged is))"

definition unpack_acknowledged :: "int \<Rightarrow> byte list \<Rightarrow> message_cache \<Rightarrow> signature list option" where
  "unpack_acknowledged offset acknowledged c = collect_cached (full_cache c) acknowledged [0..<MAX_PREVIOUS_MESSAGES]"

fun cache_older :: "signature list \<Rightarrow> signature list \<Rightarrow> signature list" where
  "cache_older [] cache = cache"
| "cache_older (s # ss) cache =
     (if s \<in> set cache then cache_older ss cache
      else if length cache < MAX_CACHED_SIGNATURES then cache_older ss (cache @ [s])
      else cache_older ss cache)"

definition cache_signatures :: "signature list \<Rightarrow> message_cache \<Rightarrow> message_cache" where
  "cache_signatures sigs c = c\<lparr>full_cache := cache_older (rev sigs) (full_cache c)\<rparr>"

definition add_seen_signature :: "signature \<Rightarrow> message_cache \<Rightarrow> message_cache" where
  "add_seen_signature sig c =
     c\<lparr>mc_last_seen := (if MAX_PREVIOUS_MESSAGES \<le> length (mc_last_seen c) then tl (mc_last_seen c) else mc_last_seen c) @ [sig],
       full_cache := sig # take (MAX_CACHED_SIGNATURES - 1) (full_cache c)\<rparr>"

text \<open>The loop of \<open>push\<close> with \<open>n\<close> slots left, \<open>old\<close> the old entries from the current slot on.\<close>

fun push_loop :: "nat \<Rightarrow> signature set \<Rightarrow> signature list \<Rightarrow> signature list \<Rightarrow> signature list" where
  "push_loop 0 push_set old deque = []"
| "push_loop (Suc n) push_set old deque =
     (if deque = [] then []
      else last deque # push_loop n push_set (tl old)
             ((case old of x # _ \<Rightarrow> if x \<notin> push_set then [x] else [] | [] \<Rightarrow> []) @ butlast deque))"

definition cache_push :: "signature list \<Rightarrow> signature option \<Rightarrow> message_cache \<Rightarrow> message_cache" where
  "cache_push last_seen_signatures current c =
     (let deque = last_seen_signatures @ (case current of Some sig \<Rightarrow> [sig] | None \<Rightarrow> [])
      in c\<lparr>full_cache := push_loop MAX_CACHED_SIGNATURES (set deque) (full_cache c) deque\<rparr>)"

record previous_message =
  pm_id :: int
  pm_signature :: "signature option"

fun cache_position :: "signature \<Rightarrow> signature list \<Rightarrow> nat option" where
  "cache_position s [] = None"
| "cache_position s (x # xs) = (if x = s then Some 0 else map_option Suc (cache_position s xs))"

definition index_previous_messages :: "signature list \<Rightarrow> message_cache \<Rightarrow> previous_message list" where
  "index_previous_messages sender_last_seen c =
     map (\<lambda>s. case cache_position s (full_cache c) of
                Some i \<Rightarrow> \<lparr>pm_id = 1 + int i, pm_signature = None\<rparr>
              | None \<Rightarrow> \<lparr>pm_id = 0, pm_signature = Some s\<rparr>) sender_last_seen"

section \<open>Spam\<close>

record tick_throttler =
  increment_step :: int
  threshold_of :: int
  tt_count :: int

definition throttler_new :: "int \<Rightarrow> int \<Rightarrow> tick_throttler" where
  "throttler_new st thr = \<lparr>increment_step = st, threshold_of = thr, tt_count = 0\<rparr>"

definition throttler_increment :: "tick_throttler \<Rightarrow> tick_throttler" where
  "throttler_increment t = t\<lparr>tt_count := wrap_i32 (tt_count t + increment_step t)\<rparr>"

definition throttler_tick :: "tick_throttler \<Rightarrow> tick_throttler" where
  "throttler_tick t = (if 0 < tt_count t then t\<lparr>tt_count := tt_count t - 1\<rparr> else t)"

definition is_under_threshold :: "tick_throttler \<Rightarrow> bool" where
  "is_under_threshold t \<longleftrightarrow> threshold_of t \<le> 0 \<or> tt_count t < threshold_of t"

definition should_disconnect_for_rate_spam :: "bool \<Rightarrow> tick_throttler \<Rightarrow> bool \<times> tick_throttler" where
  "should_disconnect_for_rate_spam is_operator t =
     (let t' = throttler_increment t in (\<not> is_under_threshold t' \<and> \<not> is_operator, t'))"

section \<open>Delivery to one recipient\<close>

record recipient_chat =
  messages_received :: int
  signature_cache :: message_cache
  message_validator :: last_seen_validator

definition get_and_increment_messages_received :: "'a recipient_chat_scheme \<Rightarrow> int \<times> 'a recipient_chat_scheme" where
  "get_and_increment_messages_received r =
     (messages_received r, r\<lparr>messages_received := wrap_i32 (messages_received r + 1)\<rparr>)"

text \<open>The parts of the packet that depend on the recipient, and the recipient's state after it.\<close>

definition broadcast_chat ::
  "signature list \<Rightarrow> signature option \<Rightarrow> 'a recipient_chat_scheme \<Rightarrow>
   (int \<times> previous_message list) \<times> 'a recipient_chat_scheme" where
  "broadcast_chat sender_last_seen message_signature r =
     (let (global_index, r1) = get_and_increment_messages_received r;
          previous_messages = index_previous_messages sender_last_seen (signature_cache r1);
          r2 = (case message_signature of
                  Some sig \<Rightarrow>
                    r1\<lparr>signature_cache := cache_push sender_last_seen (Some sig) (signature_cache r1),
                       message_validator := add_pending (Some sig) (message_validator r1)\<rparr>
                | None \<Rightarrow> r1\<lparr>message_validator := add_pending None (message_validator r1)\<rparr>)
      in ((global_index, previous_messages), r2))"

definition broadcast_unsigned_chat ::
  "'a recipient_chat_scheme \<Rightarrow> (int \<times> previous_message list) \<times> 'a recipient_chat_scheme" where
  "broadcast_unsigned_chat r = (let (global_index, r1) = get_and_increment_messages_received r in ((global_index, []), r1))"

section \<open>Lemmas on the validator\<close>

definition window_ok :: "last_seen_validator \<Rightarrow> bool" where
  "window_ok v \<longleftrightarrow> MAX_TRACKED_MESSAGES \<le> length (tracked_messages v)"

lemma ack_window_length: "length (fst (snd (ack_window a i es))) = length es"
proof (induction es arbitrary: i)
  case (Cons e es)
  then show ?case by (cases "ack_window a (Suc i) es") (auto simp: Let_def split: option.splits, (metis fst_conv snd_conv)+)
qed simp

lemma window_ok_new: "window_ok validator_new"
  by (simp add: window_ok_def validator_new_def)

lemma window_ok_ops:
  assumes "window_ok v"
  shows "window_ok (add_pending sig v)" "window_ok (snd (apply_offset off v))" "window_ok (snd (apply_update a off chk v))"
proof -
  show ok: "window_ok (add_pending sig v)" "window_ok (snd (apply_offset off v))"
    using assms by (auto simp: window_ok_def add_pending_def apply_offset_def Let_def)
  show "window_ok (snd (apply_update a off chk v))"
    using ok(2) ack_window_length [of a 0]
    by (auto simp: apply_update_def window_ok_def Let_def min_def case_prod_beta split: prod.splits sum.splits option.splits)
qed

definition ack_fits :: "byte list \<Rightarrow> nat \<Rightarrow> tracked_entry option list \<Rightarrow> bool" where
  "ack_fits a i es \<longleftrightarrow> (\<forall>j < length es.
     if is_acknowledged a (i + j) then es ! j \<noteq> None else (case es ! j of None \<Rightarrow> True | Some e \<Rightarrow> te_pending e))"

definition ack_entry :: "byte list \<Rightarrow> nat \<Rightarrow> tracked_entry option \<Rightarrow> tracked_entry option" where
  "ack_entry a i e = (if is_acknowledged a i then map_option acknowledge e else None)"

fun acked_signatures :: "byte list \<Rightarrow> nat \<Rightarrow> tracked_entry option list \<Rightarrow> signature list" where
  "acked_signatures a i [] = []"
| "acked_signatures a i (e # es) =
     (case e of Some en \<Rightarrow> if is_acknowledged a i then (case te_signature en of Some s \<Rightarrow> [s] | None \<Rightarrow> []) else [] | None \<Rightarrow> [])
     @ acked_signatures a (Suc i) es"

lemma ack_fits_Cons: "ack_fits a i (e # es) \<longleftrightarrow>
   (if is_acknowledged a i then e \<noteq> None else (\<forall>en. e = Some en \<longrightarrow> te_pending en)) \<and> ack_fits a (Suc i) es"
  unfolding ack_fits_def by (cases e) (auto simp: less_Suc_eq_0_disj)

lemma ack_window_fits:
  "ack_fits a i es \<Longrightarrow> ack_window a i es =
    (None, map2 (ack_entry a) [i..<i + length es] es, acked_signatures a i es)"
proof (induction es arbitrary: i)
  case (Cons e es)
  then have f: "ack_fits a (Suc i) es" by (simp add: ack_fits_Cons)
  have u: "[i..<i + length (e # es)] = i # [Suc i..<Suc i + length es]"
    by (simp add: upt_conv_Cons del: upt_Suc)
  show ?case unfolding u
    using Cons.IH [OF f] Cons.prems by (cases e) (auto simp: ack_fits_Cons ack_entry_def)
qed simp

lemma ack_window_not_fits: "\<not> ack_fits a i es \<Longrightarrow> fst (ack_window a i es) \<noteq> None"
proof (induction es arbitrary: i)
  case (Cons e es)
  obtain err es' sigs where w: "ack_window a (Suc i) es = (err, es', sigs)" by (metis prod_cases3)
  then have "\<not> ack_fits a (Suc i) es \<longrightarrow> err \<noteq> None" using Cons.IH [of "Suc i"] by simp
  with Cons.prems w show ?case by (cases e) (auto simp: ack_fits_Cons split: if_splits)
qed (simp add: ack_fits_def)

lemma bit_is_acknowledged: "is_acknowledged a i \<longleftrightarrow> bit (a ! (i div 8)) (i mod 8)"
proof -
  have "(a ! (i div 8)) AND push_bit (i mod 8) 1 \<noteq> 0 \<longleftrightarrow> bit (a ! (i div 8)) (i mod 8)"
    by (simp add: bit_iff_and_push_bit_not_eq_0)
  then show ?thesis by (simp add: is_acknowledged_def)
qed

section \<open>Lemmas on the cache\<close>

text \<open>
  What \<open>push\<close> leaves: the queue is first in, first out, so the pushed signatures come first, the newest in
  front, then old entries that were not pushed again, in their order. The loop stops when the queue runs
  empty, so that old entries behind that point may be missing.
\<close>

lemma push_loop_prefix: "prefix (push_loop n S old dq) (rev dq @ filter (\<lambda>x. x \<notin> S) old)"
proof (induction n arbitrary: old dq)
  case (Suc n)
  show ?case
  proof (cases dq rule: rev_cases)
    case (snoc ds d)
    with Suc [of "tl old" "(case old of x # _ \<Rightarrow> if x \<notin> S then [x] else [] | [] \<Rightarrow> []) @ ds"] show ?thesis
      by (cases old) auto
  qed simp
qed simp

lemma push_loop_length: "length (push_loop n S old dq) \<le> n"
  by (induction n arbitrary: old dq) auto

lemma push_loop_pushed: "min n (length dq) \<le> length (push_loop n S old dq)"
proof (induction n arbitrary: old dq)
  case (Suc n)
  show ?case
  proof (cases dq rule: rev_cases)
    case (snoc ds d)
    with Suc [of "(case old of x # _ \<Rightarrow> if x \<notin> S then [x] else [] | [] \<Rightarrow> []) @ ds" "tl old"] show ?thesis by simp
  qed simp
qed simp

text \<open>Where no old entry is pushed again, as for fresh signatures, nothing but the overflow is lost.\<close>

lemma push_loop_fresh:
  assumes "set old \<inter> S = {}" and "dq \<noteq> []"
  shows "push_loop n S old dq = take n (rev dq @ old)"
  using assms
proof (induction n arbitrary: old dq)
  case (Suc n)
  obtain ds d where dq: "dq = ds @ [d]" using Suc.prems(2) by (cases dq rule: rev_cases) auto
  show ?case
  proof (cases old)
    case Nil
    have "push_loop n S [] ds = take n (rev ds)"
    proof (induction n arbitrary: ds)
      case (Suc n)
      show ?case by (cases ds rule: rev_cases) (simp_all add: Suc)
    qed simp
    with Nil dq show ?thesis by simp
  next
    case (Cons x xs)
    with Suc.IH [of xs "x # ds"] Suc.prems(1) dq show ?thesis by auto
  qed
qed simp

lemma cache_position_Some: "cache_position s xs = Some i \<Longrightarrow> i < length xs \<and> xs ! i = s"
  by (induction xs arbitrary: i) (auto split: if_splits)

lemma cache_position_None: "cache_position s xs = None \<longleftrightarrow> s \<notin> set xs"
  by (induction xs) auto

text \<open>
  A reference names the place of the signature in the recipient's cache, counted from one; a signature that is not
  cached is sent in full. No reference is beyond the size of the cache.
\<close>

lemma index_previous_exact:
  assumes "length (full_cache c) \<le> MAX_CACHED_SIGNATURES"
  shows "list_all2 (\<lambda>s p. if s \<in> set (full_cache c)
      then 1 \<le> pm_id p \<and> pm_id p \<le> int MAX_CACHED_SIGNATURES \<and> full_cache c ! nat (pm_id p - 1) = s \<and> pm_signature p = None
      else pm_id p = 0 \<and> pm_signature p = Some s) ls (index_previous_messages ls c)"
proof (induction ls)
  case (Cons s ls)
  show ?case
  proof (cases "cache_position s (full_cache c)")
    case None
    with cache_position_None [of s "full_cache c"] Cons show ?thesis by (simp add: index_previous_messages_def)
  next
    case (Some i)
    then have "s \<in> set (full_cache c)" using cache_position_None [of s "full_cache c"] by fastforce
    with Some Cons cache_position_Some [OF Some] assms show ?thesis by (simp add: index_previous_messages_def)
  qed
qed (simp add: index_previous_messages_def)

section \<open>Properties\<close>

text \<open>
  The recipient's cache after a signed message: at most 128 signatures, in front the message's own and then
  the sender's last seen, newest first; what follows are older entries in their order, each once.
\<close>
theorem cache_push_spec:
  assumes "length ls < MAX_CACHED_SIGNATURES" and "distinct (ls @ [sig])" and "distinct (full_cache c)"
  shows "case full_cache (cache_push ls (Some sig) c) of cache \<Rightarrow>
    length cache \<le> MAX_CACHED_SIGNATURES \<and> distinct cache \<and> take (Suc (length ls)) cache = sig # rev ls
    \<and> prefix (drop (Suc (length ls)) cache) (filter (\<lambda>x. x \<notin> set (ls @ [sig])) (full_cache c))"
proof -
  let ?S = "set (ls @ [sig])" and ?dq = "ls @ [sig]"
  let ?cache = "push_loop MAX_CACHED_SIGNATURES ?S (full_cache c) ?dq"
  obtain zs where zs: "rev ?dq @ filter (\<lambda>x. x \<notin> ?S) (full_cache c) = ?cache @ zs"
    using push_loop_prefix [of MAX_CACHED_SIGNATURES ?S "full_cache c" ?dq] by (auto simp: prefix_def)
  have len: "length (rev ?dq) \<le> length ?cache" using push_loop_pushed [of MAX_CACHED_SIGNATURES ?dq ?S "full_cache c"] assms(1) by simp
  have split: "\<exists>ys. cache = front @ ys \<and> F = ys @ us" if "front @ F = cache @ us" "length front \<le> length cache" for front F cache us :: "signature list"
    using that by (auto simp: append_eq_append_conv2)
  from split [OF zs len] obtain ys where ys: "?cache = rev ?dq @ ys" "filter (\<lambda>x. x \<notin> ?S) (full_cache c) = ys @ zs" by blast
  have "distinct (rev ?dq @ filter (\<lambda>x. x \<notin> ?S) (full_cache c))" using assms(2,3) by auto
  then have "distinct ?cache" unfolding zs by simp
  then show ?thesis using push_loop_length [of MAX_CACHED_SIGNATURES ?S "full_cache c" ?dq] ys by (simp add: cache_push_def)
qed

theorem cache_push_spec_witness:
  "take 2 (full_cache (cache_push [[1]] (Some [2]) \<lparr>full_cache = [[3]], mc_last_seen = []\<rparr>)) = [[2], [1]]"
  using cache_push_spec [of "[[1]]" "[2]" "\<lparr>full_cache = [[3]], mc_last_seen = []\<rparr>"] by (simp add: MAX_CACHED_SIGNATURES_def numeral_2_eq_2)

text \<open>
  The loop quoted in the comment of \<open>push\<close> keeps the entries behind the point where it stops; the code drops
  them: with \<open>c\<close> cached last, pushing \<open>b\<close> again forgets \<open>c\<close>.
\<close>
theorem cache_push_forgets:
  assumes "distinct [a, b, c]"
  shows "full_cache (cache_push [] (Some b) \<lparr>full_cache = [a, b, c], mc_last_seen = l\<rparr>) = [b, a]"
  using assms by (simp add: cache_push_def MAX_CACHED_SIGNATURES_def eval_nat_numeral)

theorem cache_push_forgets_witness:
  "full_cache (cache_push [] (Some [2]) \<lparr>full_cache = [[1], [2], [3]], mc_last_seen = []\<rparr>) = [[2], [1]]"
  using cache_push_forgets [of "[1]" "[2]" "[3]" "[]"] by simp

text \<open>
  C35. The acknowledgement window never has fewer than twenty entries. An update is accepted
  exactly when the offset removes no more than what is beyond the window, every acknowledged
  entry is known and no entry acknowledged before is left out; it then yields the signatures of
  the acknowledged entries in order, marks these as no longer pending, forgets the others and
  leaves what is behind the window alone.
\<close>
theorem validator_update:
  assumes "window_ok v"
  shows "window_ok (add_pending sig v) \<and> window_ok (snd (apply_offset off v)) \<and> window_ok (snd (apply_update a off chk v)) \<and>
    (let es = drop (nat off) (tracked_messages v)
     in if 0 \<le> off \<and> nat off + 20 \<le> length (tracked_messages v) \<and> ack_fits a 0 (take 20 es)
        then apply_update a off chk v = (Inr (acked_signatures a 0 (take 20 es)),
               v\<lparr>tracked_messages := map2 (ack_entry a) [0..<20] (take 20 es) @ drop 20 es\<rparr>)
        else isl (fst (apply_update a off chk v)))"
proof -
  let ?es = "drop (nat off) (tracked_messages v)"
  note ok = window_ok_ops(1,2) [OF assms] and upd = window_ok_ops(3) [OF assms, where a = a and off = off and chk = chk]
  show ?thesis
  proof (cases "0 \<le> off \<and> nat off + 20 \<le> length (tracked_messages v)")
    case True
    then have off: "apply_offset off v = (Inr (), v\<lparr>tracked_messages := ?es\<rparr>)" and len: "20 \<le> length ?es"
      by (auto simp: apply_offset_def MAX_TRACKED_MESSAGES_def Let_def)
    show ?thesis
    proof (cases "ack_fits a 0 (take 20 ?es)")
      case fits: True
      have "apply_update a off chk v = (Inr (acked_signatures a 0 (take 20 ?es)),
          v\<lparr>tracked_messages := map2 (ack_entry a) [0..<20] (take 20 ?es) @ drop 20 ?es\<rparr>)"
        using off len ack_window_fits [OF fits] by (simp add: apply_update_def MAX_TRACKED_MESSAGES_def Let_def min_absorb1 del: drop_drop)
      then show ?thesis using ok upd True fits by (simp add: Let_def del: drop_drop)
    next
      case False
      obtain e where "fst (ack_window a 0 (take 20 ?es)) = Some e" using ack_window_not_fits [OF False] by blast
      then have "isl (fst (apply_update a off chk v))"
        using off len by (cases "ack_window a 0 (take 20 ?es)") (simp add: apply_update_def MAX_TRACKED_MESSAGES_def Let_def min_absorb1 del: drop_drop)
      then show ?thesis using ok upd False by (simp add: Let_def del: drop_drop)
    qed
  next
    case False
    then have "\<exists>e. apply_offset off v = (Inl e, v)"
      using assms by (auto simp: apply_offset_def MAX_TRACKED_MESSAGES_def window_ok_def Let_def)
    then have "isl (fst (apply_update a off chk v))" by (auto simp: apply_update_def)
    then show ?thesis using ok upd False by (auto simp: Let_def)
  qed
qed

theorem validator_update_witness:
  "window_ok (snd (apply_update [0, 0, 8] 1 0 (add_pending (Some [1]) validator_new)))
    \<and> fst (apply_update [0, 0, 8] 1 0 (add_pending (Some [1]) validator_new)) = Inr [[1]]"
proof -
  let ?v = "add_pending (Some [1]) validator_new"
  let ?es = "take 20 (drop (nat 1) (tracked_messages ?v))"
  have fits: "0 \<le> (1 :: int) \<and> nat 1 + 20 \<le> length (tracked_messages ?v) \<and> ack_fits [0, 0, 8] 0 ?es" by code_simp
  have sigs: "acked_signatures [0, 0, 8] 0 ?es = [[1]]" by code_simp
  have "window_ok ?v" by code_simp
  from validator_update [OF this, where sig = None and off = 1 and a = "[0, 0, 8]" and chk = 0] show ?thesis
    unfolding Let_def if_P [OF fits] sigs by (elim conjE) (intro conjI, assumption, simp)
qed

text \<open>
  A player who leaves at least as many ticks between two messages as a message costs is never
  disconnected for spam: if the counter was at most zero it is again after that many ticks, and
  in between it stays below any threshold larger than one message.
\<close>
theorem spaced_messages_are_no_spam:
  assumes "tt_count t = 0" and "0 < increment_step t" and "increment_step t < threshold_of t" and "i32_ok (increment_step t)"
  shows "fst (should_disconnect_for_rate_spam op t) = False
    \<and> tt_count ((throttler_tick ^^ (nat (increment_step t) + k)) (snd (should_disconnect_for_rate_spam op t))) = 0"
proof -
  have ticks: "(throttler_tick ^^ n) u = u\<lparr>tt_count := max 0 (tt_count u - int n)\<rparr>" if "0 \<le> tt_count u" for n u
    using that
  proof (induction n)
    case (Suc n)
    then show ?case by (auto simp: throttler_tick_def)
  qed simp
  have inc: "throttler_increment t = t\<lparr>tt_count := increment_step t\<rparr>"
    using assms by (simp add: throttler_increment_def wrap_i32_id)
  show ?thesis
    using assms inc ticks [of "t\<lparr>tt_count := increment_step t\<rparr>"]
    by (simp add: should_disconnect_for_rate_spam_def is_under_threshold_def Let_def)
qed

theorem spaced_messages_are_no_spam_witness:
  "fst (should_disconnect_for_rate_spam False (throttler_new 20 200)) = False"
  using spaced_messages_are_no_spam [of "throttler_new 20 200" False 0] by (simp add: throttler_new_def i32_ok_def)

end
