(* ===== verification/Chat_Signing.thy ===== *)
theory Chat_Signing
  imports Profile_Keys Chat_Tracking
begin

text \<open>
  Signed chat (\<open>steel-core/src/player/chat/message_chain.rs\<close>, \<open>mod.rs\<close> and the expiry rule of
  \<open>profile_key.rs\<close>): links and bodies of signed messages, the bytes that are signed, the chain of
  a session, and how a chat packet is verified and turned into a broadcast. The signature scheme
  is a parameter, a check of bytes and a signature against a key that may fail. A UUID is a
  128-bit word, a \<open>SystemTime\<close> the nanoseconds since the epoch as an integer; one reading of the
  clock serves a whole call.
\<close>

record signed_message_link =
  lk_index :: int
  lk_sender :: uuid
  lk_session_id :: uuid

definition link_new :: "int \<Rightarrow> uuid \<Rightarrow> uuid \<Rightarrow> signed_message_link" where
  "link_new i sender session_id = \<lparr>lk_index = i, lk_sender = sender, lk_session_id = session_id\<rparr>"

definition link_root :: "uuid \<Rightarrow> uuid \<Rightarrow> signed_message_link" where
  "link_root sender session_id = \<lparr>lk_index = 0, lk_sender = sender, lk_session_id = session_id\<rparr>"

definition link_unsigned :: "uuid \<Rightarrow> signed_message_link" where
  "link_unsigned sender = link_root sender 0"

definition link_bytes :: "signed_message_link \<Rightarrow> byte list" where
  "link_bytes l = to_be_bytes (lk_sender l) @ to_be_bytes (lk_session_id l) @ be_i32 (lk_index l)"

definition is_descendant_of :: "signed_message_link \<Rightarrow> signed_message_link \<Rightarrow> bool" where
  "is_descendant_of a b \<longleftrightarrow> lk_index b < lk_index a \<and> lk_sender a = lk_sender b \<and> lk_session_id a = lk_session_id b"

definition link_advance :: "signed_message_link \<Rightarrow> signed_message_link option" where
  "link_advance l = (if lk_index l = 2147483647 then None else Some (l\<lparr>lk_index := lk_index l + 1\<rparr>))"

record signed_message_body =
  content :: rust_string
  time_stamp :: int
  salt :: int
  body_last_seen :: "signature list"

definition body_new :: "rust_string \<Rightarrow> int \<Rightarrow> int \<Rightarrow> signature list \<Rightarrow> signed_message_body" where
  "body_new c t s ls = \<lparr>content = c, time_stamp = t, salt = s, body_last_seen = ls\<rparr>"

definition epoch_seconds :: "int \<Rightarrow> int" where
  "epoch_seconds t = (if t < 0 then 0 else t div 1000000000)"

definition last_seen_bytes :: "signature list \<Rightarrow> byte list" where
  "last_seen_bytes ls = be_i32 (wrap_i32 (int (length ls))) @ concat ls"

definition body_bytes :: "signed_message_body \<Rightarrow> byte list" where
  "body_bytes b =
     (let content_bytes = utf8_encode (content b)
      in be_i64 (salt b) @ be_i64 (wrap_i64 (epoch_seconds (time_stamp b)))
         @ be_i32 (wrap_i32 (int (length content_bytes))) @ content_bytes @ last_seen_bytes (body_last_seen b))"

definition signed_bytes :: "signed_message_link \<Rightarrow> signed_message_body \<Rightarrow> byte list" where
  "signed_bytes l b = be_i32 1 @ link_bytes l @ body_bytes b"

section \<open>The chain\<close>

datatype chain_error =
  MissingProfileKey | ChainBroken | ExpiredProfileKey | ChainInvalidSignature | OutOfOrderChat | MessageExpired | CryptoError crypt_error

record signed_message_chain =
  next_link :: "signed_message_link option"
  last_timestamp :: int

definition chain_new :: "uuid \<Rightarrow> uuid \<Rightarrow> signed_message_chain" where
  "chain_new sender session_id = \<lparr>next_link = Some (link_root sender session_id), last_timestamp = 0\<rparr>"

definition chain_is_broken :: "signed_message_chain \<Rightarrow> bool" where
  "chain_is_broken c \<longleftrightarrow> next_link c = None"

definition break_chain :: "signed_message_chain \<Rightarrow> signed_message_chain" where
  "break_chain c = c\<lparr>next_link := None\<rparr>"

definition validate_and_advance ::
  "signed_message_body \<Rightarrow> signed_message_chain \<Rightarrow> (chain_error + signed_message_link) \<times> signed_message_chain" where
  "validate_and_advance b c =
     (case next_link c of
        None \<Rightarrow> (Inl ChainBroken, c)
      | Some link \<Rightarrow>
          if time_stamp b < last_timestamp c then (Inl OutOfOrderChat, break_chain c)
          else (Inr link, c\<lparr>last_timestamp := time_stamp b, next_link := link_advance link\<rparr>))"

definition chain_reset :: "uuid \<Rightarrow> uuid \<Rightarrow> signed_message_chain \<Rightarrow> signed_message_chain" where
  "chain_reset sender session_id c = c\<lparr>next_link := Some (link_root sender session_id), last_timestamp := 0\<rparr>"

section \<open>Verification of a packet\<close>

definition MESSAGE_EXPIRES_AFTER :: int where
  "MESSAGE_EXPIRES_AFTER = 5 * 60 * 1000000000"

record 'k remote_chat_session =
  session_id :: uuid
  profile_public_key :: "'k profile_public_key_data"

text \<open>The chat state of a player extends what it holds as a recipient of messages.\<close>

record 'k chat_state = recipient_chat +
  messages_sent :: int
  chat_session :: "'k remote_chat_session option"
  message_chain :: "signed_message_chain option"
  chat_spam_throttler :: tick_throttler
  command_spam_throttler :: tick_throttler

definition chat_state_new :: "int \<Rightarrow> int \<Rightarrow> 'k chat_state" where
  "chat_state_new chat_spam_threshold_seconds command_spam_threshold_seconds =
     \<lparr>messages_received = 0, signature_cache = cache_new, message_validator = validator_new,
      messages_sent = 0, chat_session = None, message_chain = None,
      chat_spam_throttler = throttler_new 20 (wrap_i32 (chat_spam_threshold_seconds * 20)),
      command_spam_throttler = throttler_new 20 (wrap_i32 (command_spam_threshold_seconds * 20))\<rparr>"

definition tick_spam_throttlers :: "'k chat_state \<Rightarrow> 'k chat_state" where
  "tick_spam_throttlers st =
     st\<lparr>chat_spam_throttler := throttler_tick (chat_spam_throttler st),
        command_spam_throttler := throttler_tick (command_spam_throttler st)\<rparr>"

text \<open>Both return whether the player is disconnected for spam.\<close>

definition detect_command_rate_spam :: "bool \<Rightarrow> 'k chat_state \<Rightarrow> bool \<times> 'k chat_state" where
  "detect_command_rate_spam is_operator st =
     (let (should_disconnect, t) = should_disconnect_for_rate_spam is_operator (command_spam_throttler st)
      in (should_disconnect, st\<lparr>command_spam_throttler := t\<rparr>))"

definition detect_chat_rate_spam :: "bool \<Rightarrow> 'k chat_state \<Rightarrow> bool \<times> 'k chat_state" where
  "detect_chat_rate_spam is_operator st =
     (let (should_disconnect, t) = should_disconnect_for_rate_spam is_operator (chat_spam_throttler st)
      in (should_disconnect, st\<lparr>chat_spam_throttler := t\<rparr>))"

record schat =
  sc_message :: rust_string
  sc_timestamp :: int
  sc_salt :: int
  sc_signature :: "signature option"
  sc_offset :: int
  sc_acknowledged :: "byte list"
  sc_checksum :: byte

datatype verify_error =
    NoSession | NoSignature | KeyExpired | NoChain | BrokenChain | Expired
  | AckFailed ack_error | ChainFailed chain_error | SignatureError crypt_error | InvalidSignature

definition packet_time :: "schat \<Rightarrow> int" where
  "packet_time p = (if sc_timestamp p < 0 then 0 else sc_timestamp p * 1000000)"

definition verify_chat_signature ::
  "('k \<Rightarrow> byte list \<Rightarrow> signature \<Rightarrow> crypt_error + bool) \<Rightarrow> int \<Rightarrow> schat \<Rightarrow> 'k chat_state \<Rightarrow>
   (verify_error + signed_message_link \<times> signature list) \<times> 'k chat_state" where
  "verify_chat_signature check now p st =
     (case chat_session st of
        None \<Rightarrow> (Inl NoSession, st)
      | Some session \<Rightarrow>
        (case sc_signature p of
           None \<Rightarrow> (Inl NoSignature, st)
         | Some sig \<Rightarrow>
           if has_expired_with_grace now EXPIRY_GRACE_PERIOD (profile_public_key session) then (Inl KeyExpired, st)
           else
           (case message_chain st of
              None \<Rightarrow> (Inl NoChain, st)
            | Some chain \<Rightarrow>
              if chain_is_broken chain then (Inl BrokenChain, st)
              else if MESSAGE_EXPIRES_AFTER < max 0 (now - packet_time p) then (Inl Expired, st)
              else
              (case apply_update (sc_acknowledged p) (sc_offset p) (sc_checksum p) (message_validator st) of
                 (Inl e, v) \<Rightarrow> (Inl (AckFailed e), st\<lparr>message_validator := v\<rparr>)
               | (Inr seen, v) \<Rightarrow>
                 (let st1 = st\<lparr>message_validator := v\<rparr>;
                      body = body_new (sc_message p) (packet_time p) (sc_salt p) seen
                  in case validate_and_advance body chain of
                       (Inl e, c) \<Rightarrow> (Inl (ChainFailed e), st1\<lparr>message_chain := Some c\<rparr>)
                     | (Inr link, c) \<Rightarrow>
                       (let st2 = st1\<lparr>message_chain := Some c\<rparr>
                        in case check (pk_key (profile_public_key session)) (signed_bytes link body) sig of
                             Inl e \<Rightarrow> (Inl (SignatureError e), st2)
                           | Inr valid \<Rightarrow> if valid then (Inr (link, seen), st2) else (Inl InvalidSignature, st2)))))))"

text \<open>
  What becomes of a chat packet. The players are those of all worlds, in the order in which the
  broadcasts visit them, and the sender is one of them, given by its index; a packet to a
  recipient is described by its own index and its references to earlier messages.
\<close>

datatype chat_outcome =
    DisconnectInvalid verify_error
  | DisconnectUnsigned
  | BroadcastSigned int "signature list" signature
  | BroadcastUnsigned int

definition broadcast_all ::
  "('k chat_state \<Rightarrow> (int \<times> previous_message list) \<times> 'k chat_state) \<Rightarrow> 'k chat_state list \<Rightarrow>
   (int \<times> previous_message list) list \<times> 'k chat_state list" where
  "broadcast_all f players = (map (fst \<circ> f) players, map (snd \<circ> f) players)"

definition handle_chat ::
  "('k \<Rightarrow> byte list \<Rightarrow> signature \<Rightarrow> crypt_error + bool) \<Rightarrow> bool \<Rightarrow> bool \<Rightarrow> int \<Rightarrow> schat \<Rightarrow> nat \<Rightarrow> 'k chat_state list \<Rightarrow>
   (chat_outcome \<times> (int \<times> previous_message list) list \<times> bool) \<times> 'k chat_state list" where
  "handle_chat check enforces_secure_chat is_operator now p sender players =
     (let (verification_result, players1) =
            (case sc_signature p of
               Some _ \<Rightarrow> (let (r, st) = verify_chat_signature check now p (players ! sender) in (Some r, players[sender := st]))
             | None \<Rightarrow> (None, players));
          continue =
            (let sig_opt = (case verification_result of Some (Inr _) \<Rightarrow> sc_signature p | _ \<Rightarrow> None);
                 st = players1 ! sender;
                 sender_index = messages_sent st;
                 players2 = players1[sender := st\<lparr>messages_sent := wrap_i32 (sender_index + 1)\<rparr>];
                 (outcome, packets, players3) =
                   (case sig_opt of
                      Some sig \<Rightarrow>
                        if length sig = 256 then
                          (let last_seen = (case verification_result of Some (Inr (_, seen)) \<Rightarrow> seen | _ \<Rightarrow> [])
                           in (BroadcastSigned sender_index last_seen sig, broadcast_all (broadcast_chat last_seen (Some sig)) players2))
                        else (BroadcastUnsigned sender_index, broadcast_all broadcast_unsigned_chat players2)
                    | None \<Rightarrow> (BroadcastUnsigned sender_index, broadcast_all broadcast_unsigned_chat players2));
                 (spam, st') = detect_chat_rate_spam is_operator (players3 ! sender)
             in ((outcome, packets, spam), players3[sender := st']))
      in if enforces_secure_chat then
           (case verification_result of
              Some (Inr _) \<Rightarrow> continue
            | Some (Inl e) \<Rightarrow> ((DisconnectInvalid e, [], False), players1)
            | None \<Rightarrow> ((DisconnectUnsigned, [], False), players1))
         else continue)"

definition handle_chat_ack :: "int \<Rightarrow> 'k chat_state \<Rightarrow> 'k chat_state" where
  "handle_chat_ack offset st = st\<lparr>message_validator := snd (apply_offset offset (message_validator st))\<rparr>"

definition set_chat_session :: "uuid \<Rightarrow> 'k remote_chat_session \<Rightarrow> 'k chat_state \<Rightarrow> 'k chat_state" where
  "set_chat_session player_id session st =
     st\<lparr>chat_session := Some session, message_chain := Some (chain_new player_id (session_id session))\<rparr>"

record schat_session_update =
  su_session_id :: uuid
  su_expires_at :: int
  su_public_key :: "byte list"
  su_key_signature :: "byte list"

datatype 'k chat_session_update_outcome =
    Unchanged | MissingServiceKeys | ExpiryDowngrade | Accepted "'k remote_chat_session" | InvalidSession validation_error

definition validate_session ::
  "('k \<Rightarrow> crypt_error + byte list) \<Rightarrow> (byte list \<Rightarrow> byte list \<Rightarrow> crypt_error + bool) \<Rightarrow> uuid \<Rightarrow>
   'k remote_chat_session \<Rightarrow> validation_error + 'k remote_chat_session" where
  "validate_session to_der validator profile_id s =
     (case validate_signature to_der validator profile_id (profile_public_key s) of Inl e \<Rightarrow> Inl e | Inr _ \<Rightarrow> Inr s)"

definition validate_chat_session_update ::
  "('k \<Rightarrow> crypt_error + byte list) \<Rightarrow> (byte list \<Rightarrow> byte list \<Rightarrow> crypt_error + bool) option \<Rightarrow> uuid \<Rightarrow>
   'k profile_public_key_data option \<Rightarrow> 'k remote_chat_session \<Rightarrow> 'k chat_session_update_outcome" where
  "validate_chat_session_update to_der validator profile_id old_profile_key new_session =
     (if old_profile_key = Some (profile_public_key new_session) then Unchanged
      else if (case old_profile_key of
                 Some old_key \<Rightarrow> expires_at (profile_public_key new_session) < expires_at old_key
               | None \<Rightarrow> False) then ExpiryDowngrade
      else (case validator of
              None \<Rightarrow> MissingServiceKeys
            | Some v \<Rightarrow>
                (case validate_session to_der v profile_id new_session of
                   Inr session \<Rightarrow> Accepted session
                 | Inl e \<Rightarrow> InvalidSession e)))"

datatype session_reply = SessionIgnored | SessionSet | DisconnectInvalidKey | DisconnectExpiredKey

definition handle_chat_session_update ::
  "('k \<Rightarrow> crypt_error + byte list) \<Rightarrow> (byte list \<Rightarrow> crypt_error + 'k) \<Rightarrow>
   (byte list \<Rightarrow> byte list \<Rightarrow> crypt_error + bool) option \<Rightarrow> uuid \<Rightarrow> schat_session_update \<Rightarrow> 'k chat_state \<Rightarrow>
   session_reply \<times> 'k chat_state" where
  "handle_chat_session_update to_der from_der validator profile_id p st =
     (case from_der (su_public_key p) of
        Inl e \<Rightarrow> (DisconnectInvalidKey, st)
      | Inr public_key \<Rightarrow>
          (let session_data = \<lparr>session_id = su_session_id p,
                 profile_public_key = key_data_new (system_time_from_millis (su_expires_at p)) public_key (su_key_signature p)\<rparr>;
               old_profile_key = map_option profile_public_key (chat_session st)
           in case validate_chat_session_update to_der validator profile_id old_profile_key session_data of
                Unchanged \<Rightarrow> (SessionIgnored, st)
              | MissingServiceKeys \<Rightarrow> (SessionIgnored, st)
              | ExpiryDowngrade \<Rightarrow> (DisconnectExpiredKey, st)
              | Accepted session \<Rightarrow> (SessionSet, set_chat_session profile_id session st)
              | InvalidSession e \<Rightarrow> (DisconnectInvalidKey, st)))"

section \<open>The signed bytes determine the message\<close>

lemma link_bytes_inj:
  assumes "link_bytes l @ xs = link_bytes l' @ ys" and "i32_ok (lk_index l)" and "i32_ok (lk_index l')"
  shows "l = l' \<and> xs = ys"
proof -
  have "to_be_bytes (lk_sender l) = to_be_bytes (lk_sender l')" "to_be_bytes (lk_session_id l) = to_be_bytes (lk_session_id l')"
    "be_i32 (lk_index l) = be_i32 (lk_index l')" "xs = ys"
    using assms(1) unfolding link_bytes_def append_assoc be_append by blast+
  then show ?thesis
    using to_be_bytes_inj [where 'a = 128] be_i32_inj assms(2,3) by (auto intro!: signed_message_link.equality)
qed

definition body_ok :: "signed_message_body \<Rightarrow> bool" where
  "body_ok b \<longleftrightarrow> i64_ok (salt b) \<and> list_all is_scalar (content b) \<and> length (utf8_encode (content b)) < 2 ^ 31
     \<and> length (body_last_seen b) < 2 ^ 31 \<and> list_all (\<lambda>s. length s = 256) (body_last_seen b)"

lemma last_seen_bytes_inj:
  assumes "last_seen_bytes xs = last_seen_bytes ys" and "length xs < 2 ^ 31" and "length ys < 2 ^ 31"
    and "list_all (\<lambda>s. length s = 256) xs" and "list_all (\<lambda>s. length s = 256) ys"
  shows "xs = ys"
proof -
  have e: "be_i32 (wrap_i32 (int (length xs))) = be_i32 (wrap_i32 (int (length ys)))" "concat xs = concat ys"
    using assms(1) unfolding last_seen_bytes_def be_append by blast+
  then have "length xs = length ys" using len_prefix_inj assms(2,3) by blast
  moreover have "\<forall>(x, y) \<in> set (zip xs ys). length x = length y"
    using assms(4,5) unfolding list_all_iff by (metis (mono_tags, lifting) case_prodI2 set_zip_leftD set_zip_rightD)
  ultimately show ?thesis using e(2) concat_injective by blast
qed

lemma body_bytes_inj:
  assumes "body_bytes a = body_bytes b" and "body_ok a" and "body_ok b"
  shows "content a = content b \<and> salt a = salt b \<and> body_last_seen a = body_last_seen b
    \<and> wrap_i64 (epoch_seconds (time_stamp a)) = wrap_i64 (epoch_seconds (time_stamp b))"
proof -
  let ?ca = "utf8_encode (content a)" and ?cb = "utf8_encode (content b)"
  have e: "be_i64 (salt a) = be_i64 (salt b)"
    "be_i64 (wrap_i64 (epoch_seconds (time_stamp a))) = be_i64 (wrap_i64 (epoch_seconds (time_stamp b)))"
    "be_i32 (wrap_i32 (int (length ?ca))) = be_i32 (wrap_i32 (int (length ?cb)))"
    "?ca @ last_seen_bytes (body_last_seen a) = ?cb @ last_seen_bytes (body_last_seen b)"
    using assms(1) unfolding body_bytes_def Let_def be_append by (iprover elim: conjE)+
  have "length ?ca = length ?cb" using len_prefix_inj [OF e(3)] assms(2,3) by (simp add: body_ok_def)
  then have c: "?ca = ?cb" "last_seen_bytes (body_last_seen a) = last_seen_bytes (body_last_seen b)" using e(4) by simp_all
  have "content a = content b"
    using assms(2,3) unfolding body_ok_def by (metis c(1) from_utf8_encode option.inject)
  moreover have "body_last_seen a = body_last_seen b"
    using last_seen_bytes_inj [OF c(2)] assms(2,3) by (simp add: body_ok_def)
  moreover have "salt a = salt b" using be_i64_inj [OF e(1)] assms(2,3) by (simp add: body_ok_def)
  ultimately show ?thesis using be_i64_inj [OF e(2)] by simp
qed

section \<open>The chain advances\<close>

definition chain_ok :: "signed_message_chain \<Rightarrow> bool" where
  "chain_ok c \<longleftrightarrow> (\<forall>l. next_link c = Some l \<longrightarrow> 0 \<le> lk_index l \<and> lk_index l \<le> 2147483647)"

text \<open>
  Links and times a chain can still accept: descendants of its next link, or that link, at or
  after the last timestamp.
\<close>

definition chain_admits :: "signed_message_chain \<Rightarrow> signed_message_link \<Rightarrow> int \<Rightarrow> bool" where
  "chain_admits c l t \<longleftrightarrow> last_timestamp c \<le> t \<and> i32_ok (lk_index l)
     \<and> (\<exists>n. next_link c = Some n \<and> lk_index n \<le> lk_index l \<and> lk_sender l = lk_sender n \<and> lk_session_id l = lk_session_id n)"

definition chain_follows :: "signed_message_chain \<Rightarrow> signed_message_chain \<Rightarrow> bool" where
  "chain_follows c c' \<longleftrightarrow> chain_ok c' \<and> (\<forall>l t. chain_admits c' l t \<longrightarrow> chain_admits c l t)"

lemma chain_follows_refl: "chain_ok c \<Longrightarrow> chain_follows c c"
  by (simp add: chain_follows_def)

lemma validate_and_advance_spec:
  assumes "chain_ok c" and "validate_and_advance b c = (r, c')"
  shows "chain_follows c c' \<and> (\<forall>l. r = Inr l \<longrightarrow> chain_admits c l (time_stamp b)
    \<and> (\<forall>l' t. chain_admits c' l' t \<longrightarrow> is_descendant_of l' l \<and> time_stamp b \<le> t))"
proof (cases "next_link c")
  case None
  then show ?thesis using assms by (auto simp: validate_and_advance_def chain_follows_refl)
next
  case (Some n)
  show ?thesis
  proof (cases "time_stamp b < last_timestamp c")
    case True
    then show ?thesis
      using assms Some by (auto simp: validate_and_advance_def break_chain_def chain_follows_def chain_ok_def chain_admits_def)
  next
    case False
    then have c': "c' = c\<lparr>last_timestamp := time_stamp b, next_link := link_advance n\<rparr>" "r = Inr n"
      using assms Some by (auto simp: validate_and_advance_def)
    have n: "0 \<le> lk_index n" "lk_index n \<le> 2147483647" using assms(1) Some by (auto simp: chain_ok_def)
    have "chain_ok c'" using n by (auto simp: chain_ok_def c' link_advance_def split: if_splits)
    moreover have "chain_admits c n (time_stamp b)" using Some False n by (simp add: chain_admits_def i32_ok_def)
    moreover have "is_descendant_of l' n \<and> time_stamp b \<le> t \<and> chain_admits c l' t" if "chain_admits c' l' t" for l' t
      using that Some False by (auto simp: chain_admits_def c' link_advance_def is_descendant_of_def split: if_splits)
    ultimately show ?thesis using c'(2) by (auto simp: chain_follows_def)
  qed
qed

lemma verify_chat_spec:
  assumes "verify_chat_signature check now p st = (r, st')" and "message_chain st = Some c" and "chain_ok c"
  shows "\<exists>c'. message_chain st' = Some c' \<and> chain_follows c c' \<and> chat_session st' = chat_session st \<and>
    (\<forall>l seen. r = Inr (l, seen) \<longrightarrow>
      (\<exists>session sig. chat_session st = Some session \<and> sc_signature p = Some sig
        \<and> check (pk_key (profile_public_key session)) (signed_bytes l (body_new (sc_message p) (packet_time p) (sc_salt p) seen)) sig = Inr True
        \<and> now < expires_at (profile_public_key session) + EXPIRY_GRACE_PERIOD \<and> now \<le> packet_time p + MESSAGE_EXPIRES_AFTER
        \<and> fst (apply_update (sc_acknowledged p) (sc_offset p) (sc_checksum p) (message_validator st)) = Inr seen)
      \<and> next_link c = Some l \<and> chain_admits c l (packet_time p)
      \<and> (\<forall>l' t. chain_admits c' l' t \<longrightarrow> is_descendant_of l' l \<and> packet_time p \<le> t))"
proof (cases "isl r \<and> message_chain st' = message_chain st \<and> chat_session st' = chat_session st")
  case True
  then show ?thesis using assms(2,3) chain_follows_refl by (cases r) auto
next
  case other: False
  from assms(1) other assms(2) obtain session sig seen v where
    sess: "chat_session st = Some session" "sc_signature p = Some sig" and
    live: "\<not> has_expired_with_grace now EXPIRY_GRACE_PERIOD (profile_public_key session)" "\<not> MESSAGE_EXPIRES_AFTER < max 0 (now - packet_time p)" and
    upd: "apply_update (sc_acknowledged p) (sc_offset p) (sc_checksum p) (message_validator st) = (Inr seen, v)"
    by (auto simp: verify_chat_signature_def Let_def split: option.splits if_splits prod.splits sum.splits)
  let ?b = "body_new (sc_message p) (packet_time p) (sc_salt p) seen"
  obtain q c' where q: "validate_and_advance ?b c = (q, c')" by fastforce
  have nb: "\<not> chain_is_broken c" using assms(1,2) other sess live by (auto simp: verify_chat_signature_def split: if_splits)
  from validate_and_advance_spec [OF assms(3) q] have f: "chain_follows c c'"
    and acc: "\<And>l. q = Inr l \<Longrightarrow> chain_admits c l (packet_time p)
      \<and> (\<forall>l' t. chain_admits c' l' t \<longrightarrow> is_descendant_of l' l \<and> packet_time p \<le> t)"
    by (auto simp: body_new_def)
  have nl: "next_link c = Some l" if "q = Inr l" for l
    using q that by (auto simp: validate_and_advance_def split: option.splits if_splits)
  have st': "message_chain st' = Some c' \<and> chat_session st' = chat_session st \<and>
      (\<forall>l seen'. r = Inr (l, seen') \<longrightarrow> seen' = seen \<and> q = Inr l \<and> check (pk_key (profile_public_key session)) (signed_bytes l ?b) sig = Inr True)"
    using assms(1,2) sess live upd q nb
    by (auto simp: verify_chat_signature_def Let_def split: option.splits if_splits sum.splits)
  have "(\<exists>session sig. chat_session st = Some session \<and> sc_signature p = Some sig
        \<and> check (pk_key (profile_public_key session)) (signed_bytes l (body_new (sc_message p) (packet_time p) (sc_salt p) seen')) sig = Inr True
        \<and> now < expires_at (profile_public_key session) + EXPIRY_GRACE_PERIOD \<and> now \<le> packet_time p + MESSAGE_EXPIRES_AFTER
        \<and> fst (apply_update (sc_acknowledged p) (sc_offset p) (sc_checksum p) (message_validator st)) = Inr seen')
      \<and> next_link c = Some l \<and> chain_admits c l (packet_time p)
      \<and> (\<forall>l' t. chain_admits c' l' t \<longrightarrow> is_descendant_of l' l \<and> packet_time p \<le> t)"
    if r: "r = Inr (l, seen')" for l seen'
  proof -
    have a: "seen' = seen" "q = Inr l" "check (pk_key (profile_public_key session)) (signed_bytes l ?b) sig = Inr True" using st' r by blast+
    then have "check (pk_key (profile_public_key session)) (signed_bytes l (body_new (sc_message p) (packet_time p) (sc_salt p) seen')) sig = Inr True
        \<and> now < expires_at (profile_public_key session) + EXPIRY_GRACE_PERIOD \<and> now \<le> packet_time p + MESSAGE_EXPIRES_AFTER
        \<and> fst (apply_update (sc_acknowledged p) (sc_offset p) (sc_checksum p) (message_validator st)) = Inr seen'"
      using live upd by (auto simp: has_expired_with_grace_def)
    then show ?thesis using sess nl [OF a(2)] acc [OF a(2)] by blast
  qed
  then show ?thesis using st' f by blast
qed

lemma verify_keeps_counters:
  assumes "verify_chat_signature check now p st = (r, st')"
  shows "messages_sent st' = messages_sent st \<and> messages_received st' = messages_received st
    \<and> signature_cache st' = signature_cache st"
  using assms by (auto simp: verify_chat_signature_def Let_def split: option.splits if_splits prod.splits sum.splits)

lemma broadcast_counters:
  "fst (fst (broadcast_chat ls sig r)) = messages_received r"
  "messages_received (snd (broadcast_chat ls sig r)) = wrap_i32 (messages_received r + 1)"
  "messages_sent (snd (broadcast_chat ls sig st)) = messages_sent st"
  by (simp_all add: broadcast_chat_def get_and_increment_messages_received_def Let_def split: option.splits)

lemma detect_keeps_counters:
  "messages_received (snd (detect_chat_rate_spam op st)) = messages_received st"
  "messages_sent (snd (detect_chat_rate_spam op st)) = messages_sent st"
  by (simp_all add: detect_chat_rate_spam_def should_disconnect_for_rate_spam_def Let_def)

section \<open>Histories of a player's chat\<close>

text \<open>
  What happens to one player's chat state: packets from its client, ticks, commands it ran, and
  messages of others (or its own) that are delivered to it.
\<close>

datatype chat_event =
    GetsChat int schat | GetsAck int | GetsSession schat_session_update | Ticked | Commanded bool
  | Hears "signature list" "signature option" | HearsUnsigned

fun chat_event_step ::
  "('k \<Rightarrow> byte list \<Rightarrow> signature \<Rightarrow> crypt_error + bool) \<Rightarrow> ('k \<Rightarrow> crypt_error + byte list) \<Rightarrow> (byte list \<Rightarrow> crypt_error + 'k) \<Rightarrow>
   (byte list \<Rightarrow> byte list \<Rightarrow> crypt_error + bool) option \<Rightarrow> uuid \<Rightarrow> chat_event \<Rightarrow> 'k chat_state \<Rightarrow> 'k chat_state" where
  "chat_event_step check to_der from_der validator player (GetsChat now p) st = snd (verify_chat_signature check now p st)"
| "chat_event_step check to_der from_der validator player (GetsAck off) st = handle_chat_ack off st"
| "chat_event_step check to_der from_der validator player (GetsSession p) st = snd (handle_chat_session_update to_der from_der validator player p st)"
| "chat_event_step check to_der from_der validator player Ticked st = tick_spam_throttlers st"
| "chat_event_step check to_der from_der validator player (Commanded op) st = snd (detect_command_rate_spam op st)"
| "chat_event_step check to_der from_der validator player (Hears ls sig) st = snd (broadcast_chat ls sig st)"
| "chat_event_step check to_der from_der validator player HearsUnsigned st = snd (broadcast_unsigned_chat st)"

definition chat_run ::
  "('k \<Rightarrow> byte list \<Rightarrow> signature \<Rightarrow> crypt_error + bool) \<Rightarrow> ('k \<Rightarrow> crypt_error + byte list) \<Rightarrow> (byte list \<Rightarrow> crypt_error + 'k) \<Rightarrow>
   (byte list \<Rightarrow> byte list \<Rightarrow> crypt_error + bool) option \<Rightarrow> uuid \<Rightarrow> chat_event list \<Rightarrow> 'k chat_state \<Rightarrow> 'k chat_state" where
  "chat_run check to_der from_der validator player es st = fold (chat_event_step check to_der from_der validator player) es st"

definition key_in_force ::
  "('k \<Rightarrow> crypt_error + byte list) \<Rightarrow> (byte list \<Rightarrow> byte list \<Rightarrow> crypt_error + bool) option \<Rightarrow> uuid \<Rightarrow> 'k remote_chat_session \<Rightarrow> bool" where
  "key_in_force to_der validator player s \<longleftrightarrow>
     (\<exists>v. validator = Some v \<and> validate_signature to_der v player (profile_public_key s) = Inr ())"

definition chain_of_session :: "uuid \<Rightarrow> 'k remote_chat_session \<Rightarrow> signed_message_chain \<Rightarrow> bool" where
  "chain_of_session player s c \<longleftrightarrow> chain_ok c \<and> (\<forall>l. next_link c = Some l \<longrightarrow> lk_sender l = player \<and> lk_session_id l = session_id s)"

definition session_inv ::
  "('k \<Rightarrow> crypt_error + byte list) \<Rightarrow> (byte list \<Rightarrow> byte list \<Rightarrow> crypt_error + bool) option \<Rightarrow> uuid \<Rightarrow> 'k chat_state \<Rightarrow> bool" where
  "session_inv to_der validator player st \<longleftrightarrow> window_ok (message_validator st)
     \<and> (case chat_session st of
          None \<Rightarrow> message_chain st = None
        | Some s \<Rightarrow> key_in_force to_der validator player s
            \<and> (\<exists>c. message_chain st = Some c \<and> chain_of_session player s c))"

lemma session_inv_new: "session_inv to_der validator player (chat_state_new a b)"
  by (simp add: session_inv_def chat_state_new_def window_ok_new)

lemma chain_of_session_follows:
  assumes "chain_of_session player s c" and "chain_follows c c'"
  shows "chain_of_session player s c'"
proof -
  have ok: "chain_ok c'" using assms(2) by (simp add: chain_follows_def)
  have "lk_sender l = player \<and> lk_session_id l = session_id s" if "next_link c' = Some l" for l
  proof -
    have "chain_admits c' l (last_timestamp c')" using that ok by (auto simp: chain_admits_def chain_ok_def i32_ok_def)
    then have "chain_admits c l (last_timestamp c')" using assms(2) by (simp add: chain_follows_def)
    then show ?thesis using assms(1) by (auto simp: chain_admits_def chain_of_session_def)
  qed
  with ok show ?thesis by (simp add: chain_of_session_def)
qed

lemma verify_keeps_window:
  assumes "window_ok (message_validator st)"
  shows "window_ok (message_validator (snd (verify_chat_signature check now p st)))"
  using assms window_ok_ops(3) [OF assms, where a = "sc_acknowledged p" and off = "sc_offset p" and chk = "sc_checksum p"]
  by (auto simp: verify_chat_signature_def Let_def split: option.splits if_splits prod.splits sum.splits)

lemma verify_keeps_inv:
  assumes "session_inv to_der validator player st"
  shows "session_inv to_der validator player (snd (verify_chat_signature check now p st))
    \<and> chat_session (snd (verify_chat_signature check now p st)) = chat_session st"
proof (cases "chat_session st")
  case None
  then show ?thesis using assms by (simp add: verify_chat_signature_def)
next
  case (Some s)
  then obtain c where c: "message_chain st = Some c" "chain_of_session player s c" and k: "key_in_force to_der validator player s"
    and w: "window_ok (message_validator st)" using assms by (auto simp: session_inv_def)
  obtain r st' where v: "verify_chat_signature check now p st = (r, st')" by fastforce
  have "chain_ok c" using c(2) by (simp add: chain_of_session_def)
  from verify_chat_spec [OF v c(1) this] obtain c' where
    "message_chain st' = Some c'" "chain_follows c c'" "chat_session st' = chat_session st" by blast
  then show ?thesis
    using v Some k chain_of_session_follows [OF c(2)] verify_keeps_window [OF w, of check now p] by (simp add: session_inv_def)
qed

lemma session_update_keeps_inv:
  assumes "session_inv to_der validator player st" and "handle_chat_session_update to_der from_der validator player p st = (r, st')"
  shows "session_inv to_der validator player st' \<and> (\<forall>s. chat_session st = Some s \<longrightarrow>
    (\<exists>s'. chat_session st' = Some s' \<and> expires_at (profile_public_key s) \<le> expires_at (profile_public_key s')))"
proof (cases "st' = st")
  case True
  then show ?thesis using assms(1) by auto
next
  case False
  then obtain s' where st': "st' = set_chat_session player s' st" and k: "key_in_force to_der validator player s'"
    and older: "\<And>s. chat_session st = Some s \<Longrightarrow> expires_at (profile_public_key s) \<le> expires_at (profile_public_key s')"
    using assms(2)
    by (auto simp: handle_chat_session_update_def validate_chat_session_update_def validate_session_def key_in_force_def Let_def
        split: sum.splits option.splits if_splits)
  have "chain_of_session player s' (chain_new player (session_id s'))"
    by (simp add: chain_of_session_def chain_ok_def chain_new_def link_root_def)
  then show ?thesis using assms(1) k older by (simp add: st' session_inv_def set_chat_session_def)
qed

lemma chat_event_keeps_inv:
  assumes "session_inv to_der validator player st" and st'_def: "st' = chat_event_step check to_der from_der validator player e st"
  shows "session_inv to_der validator player st' \<and> (\<forall>s. chat_session st = Some s \<longrightarrow>
    (\<exists>s'. chat_session st' = Some s' \<and> expires_at (profile_public_key s) \<le> expires_at (profile_public_key s')))"
proof -
  have other: ?thesis if "window_ok (message_validator st')" "chat_session st' = chat_session st" "message_chain st' = message_chain st"
    using that assms(1) by (auto simp: session_inv_def split: option.splits)
  have w: "window_ok (message_validator st)" using assms(1) by (simp add: session_inv_def)
  show ?thesis
  proof (cases e)
    case (GetsChat now p)
    then show ?thesis using verify_keeps_inv [OF assms(1), of check now p] by (auto simp: st'_def)
  next
    case (GetsSession p)
    then show ?thesis using session_update_keeps_inv [OF assms(1) surjective_pairing] by (simp add: st'_def)
  qed (rule other; simp add: st'_def window_ok_ops w handle_chat_ack_def tick_spam_throttlers_def detect_command_rate_spam_def
      broadcast_chat_def broadcast_unsigned_chat_def get_and_increment_messages_received_def Let_def case_prod_beta split: option.split)+
qed

lemma chat_run_inv:
  assumes "session_inv to_der validator player st"
  shows "session_inv to_der validator player (chat_run check to_der from_der validator player es st)
    \<and> (\<forall>s. chat_session st = Some s \<longrightarrow> (\<exists>s'. chat_session (chat_run check to_der from_der validator player es st) = Some s'
        \<and> expires_at (profile_public_key s) \<le> expires_at (profile_public_key s')))"
  using assms
proof (induction es arbitrary: st)
  case (Cons e es)
  note step = chat_event_keeps_inv [OF Cons.prems refl, of check from_der e]
  from Cons.IH [OF conjunct1 [OF step]] step show ?case by (fastforce simp: chat_run_def intro: order_trans)
qed (simp add: chat_run_def)

lemma chat_run_append:
  "chat_run check to_der from_der validator player (es @ es') st =
   chat_run check to_der from_der validator player es' (chat_run check to_der from_der validator player es st)"
  by (simp add: chat_run_def)

section \<open>Properties\<close>

text \<open>The messages accepted from a sequence of packets of one session, with the clock at each.\<close>

fun accepted_messages ::
  "('k \<Rightarrow> byte list \<Rightarrow> signature \<Rightarrow> crypt_error + bool) \<Rightarrow> (int \<times> schat) list \<Rightarrow> 'k chat_state \<Rightarrow>
   (signed_message_link \<times> signed_message_body) list" where
  "accepted_messages check [] st = []"
| "accepted_messages check ((now, p) # ps) st =
     (let (r, st') = verify_chat_signature check now p st
      in (case r of Inr (l, seen) \<Rightarrow> [(l, body_new (sc_message p) (packet_time p) (sc_salt p) seen)] | Inl _ \<Rightarrow> [])
         @ accepted_messages check ps st')"

lemma accepted_admitted:
  assumes "message_chain st = Some c" and "chain_ok c" and "(l, b) \<in> set (accepted_messages check ps st)"
  shows "chain_admits c l (time_stamp b)"
  using assms
proof (induction ps arbitrary: st c)
  case (Cons m ps)
  obtain now p where m: "m = (now, p)" by (cases m)
  obtain r st' where v: "verify_chat_signature check now p st = (r, st')" by fastforce
  from verify_chat_spec [OF v Cons.prems(1,2)] obtain c' where
    c': "message_chain st' = Some c'" "chain_follows c c'"
    and acc: "\<And>l seen. r = Inr (l, seen) \<Longrightarrow> chain_admits c l (packet_time p)" by blast
  from Cons.prems(3) m v consider (now) seen where "r = Inr (l, seen)" "time_stamp b = packet_time p"
    | (later) "(l, b) \<in> set (accepted_messages check ps st')"
    by (auto simp: body_new_def split: sum.splits)
  then show ?case
  proof cases
    case now
    then show ?thesis using acc by simp
  next
    case later
    then show ?thesis using Cons.IH [OF c'(1) _ later] c'(2) by (auto simp: chain_follows_def)
  qed
qed simp

lemma descendant_bytes:
  assumes "is_descendant_of l' l" and "i32_ok (lk_index l)" and "i32_ok (lk_index l')"
  shows "signed_bytes l b \<noteq> signed_bytes l' b'"
  using assms link_bytes_inj [of l "body_bytes b" l' "body_bytes b'"]
  unfolding signed_bytes_def be_append is_descendant_of_def by auto

lemma accepted_in_order:
  assumes "message_chain st = Some c" and "chain_ok c"
  shows "sorted_wrt (\<lambda>(l, b) (l', b'). is_descendant_of l' l \<and> time_stamp b \<le> time_stamp b' \<and> signed_bytes l b \<noteq> signed_bytes l' b')
    (accepted_messages check ps st)"
  using assms
proof (induction ps arbitrary: st c)
  case (Cons m ps)
  obtain now p where m: "m = (now, p)" by (cases m)
  obtain r st' where v: "verify_chat_signature check now p st = (r, st')" by fastforce
  from verify_chat_spec [OF v Cons.prems] obtain c' where
    c': "message_chain st' = Some c'" "chain_follows c c'"
    and acc: "\<And>l seen. r = Inr (l, seen) \<Longrightarrow> chain_admits c l (packet_time p)
      \<and> (\<forall>l' t. chain_admits c' l' t \<longrightarrow> is_descendant_of l' l \<and> packet_time p \<le> t)" by blast
  have ok': "chain_ok c'" using c'(2) by (simp add: chain_follows_def)
  show ?case
  proof (cases r)
    case (Inl e)
    then show ?thesis using Cons.IH [OF c'(1) ok'] m v by simp
  next
    case (Inr ls)
    obtain l seen where r: "r = Inr (l, seen)" using Inr by (cases ls) simp
    let ?b = "body_new (sc_message p) (packet_time p) (sc_salt p) seen"
    have "is_descendant_of l' l \<and> time_stamp ?b \<le> time_stamp b' \<and> signed_bytes l ?b \<noteq> signed_bytes l' b'"
      if "(l', b') \<in> set (accepted_messages check ps st')" for l' b'
    proof -
      have a: "chain_admits c' l' (time_stamp b')" by (rule accepted_admitted [OF c'(1) ok' that])
      then have d: "is_descendant_of l' l" "packet_time p \<le> time_stamp b'" using acc [OF r] by blast+
      moreover have "i32_ok (lk_index l)" "i32_ok (lk_index l')" using a acc [OF r] by (auto simp: chain_admits_def)
      ultimately show ?thesis using descendant_bytes by (simp add: body_new_def)
    qed
    then show ?thesis using Cons.IH [OF c'(1) ok'] m v r by auto
  qed
qed simp

definition sample_session :: "unit chat_state" where
  "sample_session = set_chat_session 7 \<lparr>session_id = 9, profile_public_key = key_data_new 100 () []\<rparr> (chat_state_new 10 10)"

definition sample_chat :: schat where
  "sample_chat = \<lparr>sc_message = [104, 105], sc_timestamp = 0, sc_salt = 3, sc_signature = Some [1], sc_offset = 0,
     sc_acknowledged = [0, 0, 0], sc_checksum = 0\<rparr>"

lemma sample_ack: "fst (apply_update [0, 0, 0] 0 0 validator_new) = Inr []"
proof -
  have z: "\<not> is_acknowledged [0, 0, 0] j" if "j < 20" for j
    using that nth_replicate [of "j div 8" 3 "0 :: byte"] by (simp add: is_acknowledged_def numeral_3_eq_3)
  have "ack_fits [0, 0, 0] 0 (replicate 20 None)" using z by (simp add: ack_fits_def)
  moreover have "acked_signatures [0, 0, 0] i (replicate n None) = []" for i n by (induction n arbitrary: i) simp_all
  ultimately show ?thesis
    using ack_window_fits [of "[0, 0, 0]" 0 "replicate 20 None"]
    by (simp add: apply_update_def apply_offset_def validator_new_def MAX_TRACKED_MESSAGES_def Let_def)
qed

text \<open>
  C32. Within a session no message can be replayed or reordered: whatever packets arrive, each
  accepted message has a link that strictly follows those of all messages accepted before it,
  for the same sender and session, carries a timestamp that is not earlier, and was signed over
  different bytes.
\<close>
theorem accepted_chat_is_ordered:
  assumes "message_chain st = Some (chain_new sender session)"
  shows "sorted_wrt (\<lambda>(l, b) (l', b'). is_descendant_of l' l \<and> time_stamp b \<le> time_stamp b' \<and> signed_bytes l b \<noteq> signed_bytes l' b')
    (accepted_messages check ps st)"
  by (rule accepted_in_order [OF assms]) (simp add: chain_new_def link_root_def chain_ok_def)

theorem accepted_chat_is_ordered_witness:
  "sorted_wrt (\<lambda>(l, b) (l', b'). is_descendant_of l' l \<and> time_stamp b \<le> time_stamp b' \<and> signed_bytes l b \<noteq> signed_bytes l' b')
    (accepted_messages (\<lambda>k bs sig. Inr True) [(50, sample_chat), (60, sample_chat)] sample_session)"
  by (rule accepted_chat_is_ordered [where sender = 7 and session = 9]) (simp add: sample_session_def set_chat_session_def)

text \<open>
  C33. A message is accepted only if the key of the session, which may have expired but less than eight hours ago,
  validated the signature over the bytes of exactly that message: its text, its time, which is
  at most five minutes ago, its salt, the signatures it acknowledged, which the validator
  confirmed, and the link the chain expected next.
\<close>
theorem accepted_chat_is_signed:
  assumes "verify_chat_signature check now p st = (Inr (l, seen), st')" and "message_chain st = Some c" and "chain_ok c"
  shows "\<exists>session sig. chat_session st = Some session \<and> sc_signature p = Some sig
    \<and> check (pk_key (profile_public_key session)) (signed_bytes l (body_new (sc_message p) (packet_time p) (sc_salt p) seen)) sig = Inr True
    \<and> now < expires_at (profile_public_key session) + EXPIRY_GRACE_PERIOD \<and> now \<le> packet_time p + MESSAGE_EXPIRES_AFTER
    \<and> fst (apply_update (sc_acknowledged p) (sc_offset p) (sc_checksum p) (message_validator st)) = Inr seen
    \<and> next_link c = Some l"
  using verify_chat_spec [OF assms] by blast

theorem accepted_chat_is_signed_witness:
  "\<exists>st'. verify_chat_signature (\<lambda>k bs sig. Inr (sig = [1])) 50 sample_chat sample_session = (Inr (link_root 7 9, []), st')
    \<and> (\<exists>sig. sc_signature sample_chat = Some sig \<and> sig = [1])"
proof -
  obtain v where v: "apply_update [0, 0, 0] 0 0 validator_new = (Inr [], v)" using sample_ack by (metis prod.collapse)
  obtain st' where st': "verify_chat_signature (\<lambda>k bs sig. Inr (sig = [1])) 50 sample_chat sample_session = (Inr (link_root 7 9, []), st')"
    by (simp add: verify_chat_signature_def sample_session_def sample_chat_def set_chat_session_def chat_state_new_def v
        has_expired_with_grace_def EXPIRY_GRACE_PERIOD_def MESSAGE_EXPIRES_AFTER_def packet_time_def chain_new_def chain_is_broken_def
        validate_and_advance_def body_new_def key_data_new_def)
  have "message_chain sample_session = Some (chain_new 7 9)" "chain_ok (chain_new 7 9)"
    by (simp_all add: sample_session_def set_chat_session_def chain_ok_def chain_new_def link_root_def)
  from accepted_chat_is_signed [OF st' this] st' show ?thesis by auto
qed

text \<open>
  The bytes that are signed determine the message: two messages with the same signed bytes
  have the same link, text, salt, acknowledged signatures and time in seconds, as the variable
  parts are preceded by their lengths.
\<close>
theorem signed_bytes_determine_message:
  assumes "signed_bytes l a = signed_bytes l' b" and "body_ok a" and "body_ok b" and "i32_ok (lk_index l)" and "i32_ok (lk_index l')"
  shows "l = l' \<and> content a = content b \<and> salt a = salt b \<and> body_last_seen a = body_last_seen b
    \<and> wrap_i64 (epoch_seconds (time_stamp a)) = wrap_i64 (epoch_seconds (time_stamp b))"
proof -
  from assms(1) have "link_bytes l @ body_bytes a = link_bytes l' @ body_bytes b" unfolding signed_bytes_def be_append by blast
  from link_bytes_inj [OF this assms(4,5)] show ?thesis using body_bytes_inj [OF _ assms(2,3)] by blast
qed

theorem signed_bytes_determine_message_witness:
  "signed_bytes (link_root 1 2) (body_new [104] 0 5 []) \<noteq> signed_bytes (link_root 1 2) (body_new [105] 0 5 [])"
proof
  assume "signed_bytes (link_root 1 2) (body_new [104] 0 5 []) = signed_bytes (link_root 1 2) (body_new [105] 0 5 [])"
  from signed_bytes_determine_message [OF this] show False
    by (simp add: body_new_def body_ok_def link_root_def i32_ok_def i64_ok_def is_scalar_def utf8_encode_char_def)
qed

text \<open>
  C34. On a server that enforces secure chat only messages whose signature was verified are passed
  on, with that signature and the signatures its sender acknowledged; every player then gets one
  packet, numbered by the messages it has received. A missing or bad signature disconnects the
  sender, nobody receives anything, and no counter moves.
\<close>
theorem secure_chat_is_enforced:
  assumes "handle_chat check True op now p i players = ((outcome, packets, spam), players')" and "i < length players"
    and "\<And>sig. sc_signature p = Some sig \<Longrightarrow> length sig = 256"
  shows "case outcome of
      BroadcastSigned k seen sig \<Rightarrow> k = messages_sent (players ! i) \<and> sc_signature p = Some sig
        \<and> (\<exists>l. fst (verify_chat_signature check now p (players ! i)) = Inr (l, seen))
        \<and> map fst packets = map messages_received players
        \<and> map messages_received players' = map (\<lambda>st. wrap_i32 (messages_received st + 1)) players
        \<and> messages_sent (players' ! i) = wrap_i32 (k + 1)
    | BroadcastUnsigned k \<Rightarrow> False
    | DisconnectInvalid e \<Rightarrow> fst (verify_chat_signature check now p (players ! i)) = Inl e \<and> packets = []
        \<and> map messages_sent players' = map messages_sent players \<and> map messages_received players' = map messages_received players
    | DisconnectUnsigned \<Rightarrow> sc_signature p = None \<and> packets = [] \<and> players' = players"
proof (cases "sc_signature p")
  case None
  then show ?thesis using assms by (auto simp: handle_chat_def)
next
  case (Some sig)
  obtain r s1 where v: "verify_chat_signature check now p (players ! i) = (r, s1)" by fastforce
  have keep: "map messages_sent (players[i := s1]) = map messages_sent players"
    "map messages_received (players[i := s1]) = map messages_received players"
    using verify_keeps_counters [OF v] by (simp_all add: map_update list_update_same_conv assms(2))
  show ?thesis
  proof (cases r)
    case (Inl e)
    then show ?thesis using assms(1) Some v keep by (auto simp: handle_chat_def)
  next
    case (Inr ls)
    obtain l seen where "ls = (l, seen)" by (cases ls)
    with Inr have r: "r = Inr (l, seen)" by simp
    have out: "outcome = BroadcastSigned (messages_sent (players ! i)) seen sig"
      and pk: "packets = fst (broadcast_all (broadcast_chat seen (Some sig)) (players[i := s1\<lparr>messages_sent := wrap_i32 (messages_sent s1 + 1)\<rparr>]))"
      and pl: "players' = (let q = snd (broadcast_all (broadcast_chat seen (Some sig)) (players[i := s1\<lparr>messages_sent := wrap_i32 (messages_sent s1 + 1)\<rparr>]))
        in q[i := snd (detect_chat_rate_spam op (q ! i))])"
      using assms Some v r verify_keeps_counters [OF v] by (auto simp: handle_chat_def Let_def case_prod_beta)
    show ?thesis
      using out pk pl Some v r keep(2) verify_keeps_counters [OF v] assms(2)
      by (auto simp: broadcast_all_def Let_def broadcast_counters detect_keeps_counters map_update comp_def nth_list_update intro: nth_equalityI)
  qed
qed

theorem secure_chat_is_enforced_witness:
  "\<exists>players'. handle_chat (\<lambda>k bs sig. Inr True) True False 50 (sample_chat\<lparr>sc_signature := None\<rparr>) 0 [sample_session]
      = ((DisconnectUnsigned, [], False), players') \<and> players' = [sample_session]"
proof -
  obtain players' where h: "handle_chat (\<lambda>k bs sig. Inr True) True False 50 (sample_chat\<lparr>sc_signature := None\<rparr>) 0 [sample_session]
    = ((DisconnectUnsigned, [], False), players')" by (simp add: handle_chat_def sample_chat_def)
  from secure_chat_is_enforced [OF h] h show ?thesis by (simp add: sample_chat_def)
qed

text \<open>
  Along every history of a player's chat, starting without a session, the key in force is one
  that the session service signed for this very player, the chain in use belongs to that player
  and session, the acknowledgement window keeps its size, and the expiry of the key never moves
  back: whatever the client sends, an older key is not accepted again.
\<close>
theorem chat_session_history:
  "session_inv to_der validator player (chat_run check to_der from_der validator player es (chat_state_new a b))
   \<and> (\<forall>s. chat_session (chat_run check to_der from_der validator player es (chat_state_new a b)) = Some s \<longrightarrow>
       (\<exists>s'. chat_session (chat_run check to_der from_der validator player (es @ es') (chat_state_new a b)) = Some s'
         \<and> expires_at (profile_public_key s) \<le> expires_at (profile_public_key s')))"
proof -
  have "session_inv to_der validator player (chat_run check to_der from_der validator player es (chat_state_new a b))"
    by (rule conjunct1 [OF chat_run_inv [OF session_inv_new]])
  from this chat_run_inv [OF this] show ?thesis unfolding chat_run_append by blast
qed

definition any_key :: "byte list \<Rightarrow> crypt_error + unit" where
  "any_key b = Inr ()"

definition sample_update :: schat_session_update where
  "sample_update = \<lparr>su_session_id = 9, su_expires_at = 5, su_public_key = [], su_key_signature = []\<rparr>"

lemma sample_run:
  "chat_session (chat_run (\<lambda>k bs sig. Inr True) (\<lambda>k. Inr []) any_key (Some (\<lambda>b sig. Inr True)) 7 [GetsSession sample_update] (chat_state_new 10 10))
    = Some \<lparr>session_id = 9, profile_public_key = key_data_new 5000000 () []\<rparr>"
  by (simp add: chat_run_def any_key_def sample_update_def handle_chat_session_update_def validate_chat_session_update_def validate_session_def
      validate_signature_def signed_payload_def set_chat_session_def chat_state_new_def system_time_from_millis_def Let_def)

theorem chat_session_history_witness:
  "\<exists>s'. chat_session (chat_run (\<lambda>k bs sig. Inr True) (\<lambda>k. Inr []) any_key (Some (\<lambda>b sig. Inr True)) 7
      [GetsSession sample_update, GetsSession (sample_update\<lparr>su_expires_at := 4\<rparr>)] (chat_state_new 10 10)) = Some s'
    \<and> 5000000 \<le> expires_at (profile_public_key s')"
  using chat_session_history [of "\<lambda>k. Inr []" "Some (\<lambda>b sig. Inr True)" 7 "\<lambda>k bs sig. Inr True" any_key
      "[GetsSession sample_update]" 10 10 "[GetsSession (sample_update\<lparr>su_expires_at := 4\<rparr>)]"] sample_run
  by (auto simp: key_data_new_def)

end
