(* ===== verification/Paletted_Container.thy ===== *)
theory Paletted_Container
  imports Std_Collections Serial
begin

text \<open>
  Storage of a chunk section (\<open>steel-core/src/chunk/paletted_container.rs\<close>): a cube of values that
  is either one value, a cube with a palette of the values in it and how often each occurs, or a
  raw cube while it is being built. A cube is a list of layers of rows, indexed by \<open>y\<close>, \<open>z\<close>, \<open>x\<close>;
  its side \<open>DIM\<close> is the argument \<open>dim\<close>. The occurrence counts are \<open>u16\<close>. An index out of range,
  an \<open>unreachable!\<close> and a \<open>panic!\<close> are \<open>None\<close>; the \<open>debug_assert!\<close>s do nothing in the release
  profile. Block states and biomes are 16-bit numbers on the wire.
\<close>

type_synonym 'v cube = "'v list list list"
type_synonym 'v palette = "('v \<times> 16 word) list"

section \<open>Cubes\<close>

definition cube_at :: "nat \<Rightarrow> nat \<Rightarrow> nat \<Rightarrow> 'v cube \<Rightarrow> 'v option" where
  "cube_at y z x cube =
     (if y < length cube \<and> z < length (cube ! y) \<and> x < length (cube ! y ! z) then Some (cube ! y ! z ! x) else None)"

definition cube_put :: "nat \<Rightarrow> nat \<Rightarrow> nat \<Rightarrow> 'v \<Rightarrow> 'v cube \<Rightarrow> 'v cube" where
  "cube_put y z x v cube = cube[y := (cube ! y)[z := (cube ! y ! z)[x := v]]]"

definition flat :: "'v cube \<Rightarrow> 'v list" where
  "flat cube = concat (concat cube)"

definition cube_of :: "nat \<Rightarrow> 'v \<Rightarrow> 'v cube" where
  "cube_of dim v = replicate dim (replicate dim (replicate dim v))"

section \<open>The heterogeneous palette\<close>

record 'v heterogeneous_palette =
  cube :: "'v cube"
  palette :: "'v palette"

definition hp_get :: "nat \<Rightarrow> nat \<Rightarrow> nat \<Rightarrow> 'v heterogeneous_palette \<Rightarrow> 'v option" where
  "hp_get x y z d = cube_at y z x (cube d)"

definition hp_get_at_index :: "nat \<Rightarrow> nat \<Rightarrow> 'v heterogeneous_palette \<Rightarrow> 'v option" where
  "hp_get_at_index dim index d =
     cube_at (index div (dim * dim)) (index div dim mod dim) (index mod dim) (cube d)"

definition iter_values :: "'v heterogeneous_palette \<Rightarrow> 'v list" where
  "iter_values d = flat (cube d)"

text \<open>Adding to the entry of a value, or a new entry at the end.\<close>

fun palette_add :: "'v \<Rightarrow> 16 word \<Rightarrow> 'v palette \<Rightarrow> 'v palette" where
  "palette_add v n [] = [(v, n)]"
| "palette_add v n ((w, c) # ps) = (if w = v then (w, c + n) # ps else (w, c) # palette_add v n ps)"

fun palette_index :: "'v \<Rightarrow> 'v palette \<Rightarrow> nat option" where
  "palette_index v [] = None"
| "palette_index v ((w, c) # ps) = (if w = v then Some 0 else map_option Suc (palette_index v ps))"

definition palette_sub :: "'v \<Rightarrow> 'v palette \<Rightarrow> 'v palette" where
  "palette_sub v ps =
     (case palette_index v ps of
        None \<Rightarrow> ps
      | Some i \<Rightarrow>
          (let count = snd (ps ! i) - 1; ps' = ps[i := (fst (ps ! i), count)]
           in if count = 0 then swap_remove i ps' else ps'))"

definition hp_set :: "nat \<Rightarrow> nat \<Rightarrow> nat \<Rightarrow> 'v \<Rightarrow> 'v heterogeneous_palette \<Rightarrow> ('v \<times> 'v heterogeneous_palette) option" where
  "hp_set x y z v d =
     (case cube_at y z x (cube d) of
        None \<Rightarrow> None
      | Some old_value \<Rightarrow>
          Some (old_value, \<lparr>cube = cube_put y z x v (cube d),
                            palette = palette_sub old_value (palette_add v 1 (palette d))\<rparr>))"

section \<open>The container\<close>

datatype 'v paletted_container =
  Homogeneous 'v | Heterogeneous "'v heterogeneous_palette" | Building "'v cube"

text \<open>Counting the values in runs of equal cells.\<close>

function count_runs :: "'v list \<Rightarrow> 'v palette \<Rightarrow> 'v palette" where
  "count_runs [] ps = ps"
| "count_runs (v # vs) ps =
     (let run_len = of_nat (1 + length (takeWhile (\<lambda>w. w = v) vs))
      in count_runs (dropWhile (\<lambda>w. w = v) vs) (palette_add v run_len ps))"
  by pat_completeness auto
termination
  by (relation "measure (length \<circ> fst)") (auto simp: le_imp_less_Suc length_dropWhile_le)

definition from_cube :: "'v cube \<Rightarrow> 'v paletted_container" where
  "from_cube c =
     (let ps = count_runs (flat c) []
      in if length ps = 1 then Homogeneous (fst (ps ! 0)) else Heterogeneous \<lparr>cube = c, palette = ps\<rparr>)"

fun pc_get :: "nat \<Rightarrow> nat \<Rightarrow> nat \<Rightarrow> 'v paletted_container \<Rightarrow> 'v option" where
  "pc_get x y z (Homogeneous v) = Some v"
| "pc_get x y z (Heterogeneous d) = hp_get x y z d"
| "pc_get x y z (Building c) = cube_at y z x c"

fun pc_get_at_index :: "nat \<Rightarrow> nat \<Rightarrow> 'v paletted_container \<Rightarrow> 'v option" where
  "pc_get_at_index dim index (Homogeneous v) = Some v"
| "pc_get_at_index dim index (Heterogeneous d) = hp_get_at_index dim index d"
| "pc_get_at_index dim index (Building c) =
     cube_at (index div (dim * dim)) (index div dim mod dim) (index mod dim) c"

text \<open>The column is copied over the front of the slice, which panics when the slice is shorter.\<close>

definition copy_column_into :: "nat \<Rightarrow> nat \<Rightarrow> nat \<Rightarrow> 'v paletted_container \<Rightarrow> 'v list \<Rightarrow> 'v list option" where
  "copy_column_into dim x z c out =
     (if length out < dim then None
      else map_option (\<lambda>col. col @ drop dim out)
             (case c of
                Homogeneous v \<Rightarrow> Some (replicate dim v)
              | Heterogeneous d \<Rightarrow> those (map (\<lambda>y. cube_at y z x (cube d)) [0..<dim])
              | Building q \<Rightarrow> those (map (\<lambda>y. cube_at y z x q) [0..<dim])))"

fun maybe_has :: "('v \<Rightarrow> bool) \<Rightarrow> 'v paletted_container \<Rightarrow> bool" where
  "maybe_has p (Homogeneous v) = p v"
| "maybe_has p (Heterogeneous d) = list_ex (\<lambda>e. p (fst e)) (palette d)"
| "maybe_has p (Building c) = list_ex p (flat c)"

fun collect_values :: "nat \<Rightarrow> 'v paletted_container \<Rightarrow> 'v list" where
  "collect_values dim (Homogeneous v) = replicate (dim * dim * dim) v"
| "collect_values dim (Heterogeneous d) = iter_values d"
| "collect_values dim (Building c) = flat c"

fun enter_building_mode :: "nat \<Rightarrow> 'v paletted_container \<Rightarrow> 'v paletted_container" where
  "enter_building_mode dim (Building c) = Building c"
| "enter_building_mode dim (Homogeneous v) = Building (cube_of dim v)"
| "enter_building_mode dim (Heterogeneous d) = Building (cube d)"

fun finalize_building :: "'v paletted_container \<Rightarrow> 'v paletted_container" where
  "finalize_building (Building c) = from_cube c"
| "finalize_building pc = pc"

fun pc_set :: "nat \<Rightarrow> nat \<Rightarrow> nat \<Rightarrow> nat \<Rightarrow> 'v \<Rightarrow> 'v paletted_container \<Rightarrow> ('v \<times> 'v paletted_container) option" where
  "pc_set dim x y z v (Homogeneous original) =
     (if v \<noteq> original then
        (case cube_at y z x (cube_of dim original) of
           None \<Rightarrow> None
         | Some _ \<Rightarrow> Some (original, from_cube (cube_put y z x v (cube_of dim original))))
      else Some (original, Homogeneous original))"
| "pc_set dim x y z v (Heterogeneous d) =
     (case hp_set x y z v d of
        None \<Rightarrow> None
      | Some (original, d') \<Rightarrow>
          Some (original, if length (palette d') = 1 then Homogeneous (fst (palette d' ! 0)) else Heterogeneous d'))"
| "pc_set dim x y z v (Building c) =
     (case cube_at y z x c of None \<Rightarrow> None | Some old \<Rightarrow> Some (old, Building (cube_put y z x v c)))"

section \<open>The wire format\<close>

datatype palette_mode = Linear | Hash | Global

definition calculate_strategy :: "nat \<Rightarrow> nat \<Rightarrow> (nat \<times> palette_mode) option" where
  "calculate_strategy dim n =
     (if dim = 16 then
        (if n \<le> 1 then None
         else if n \<le> 16 then Some (4, Linear)
         else if n \<le> 32 then Some (5, Hash)
         else if n \<le> 64 then Some (6, Hash)
         else if n \<le> 128 then Some (7, Hash)
         else if n \<le> 256 then Some (8, Hash)
         else Some (15, Global))
      else
        (if n \<le> 1 then None
         else if n \<le> 2 then Some (1, Linear)
         else if n \<le> 4 then Some (2, Linear)
         else if n \<le> 8 then Some (3, Hash)
         else Some (6, Global)))"

definition pack_step :: "nat \<Rightarrow> nat \<times> 32 word \<Rightarrow> 64 word list \<Rightarrow> 64 word list" where
  "pack_step bits e data =
     (let values_per_long = 64 div bits;
          array_index = fst e div values_per_long;
          offset = (fst e mod values_per_long) * bits
      in data[array_index := data ! array_index OR push_bit offset (ucast (snd e))])"

definition pack_bits :: "32 word list \<Rightarrow> nat \<Rightarrow> 64 word list" where
  "pack_bits indices bits =
     (let values_per_long = 64 div bits;
          len = (length indices + values_per_long - 1) div values_per_long
      in fold (pack_step bits) (enumerate 0 indices) (replicate len 0))"

definition to_global_id :: "16 word \<Rightarrow> 32 word" where
  "to_global_id v = ucast v"

fun pc_write :: "nat \<Rightarrow> 16 word paletted_container \<Rightarrow> byte list option" where
  "pc_write dim (Homogeneous v) = Some (0 # varint_write (to_global_id v))"
| "pc_write dim (Heterogeneous d) =
     (case calculate_strategy dim (length (palette d)) of
        None \<Rightarrow> None
      | Some (bits, mode) \<Rightarrow>
          (let head = (if mode = Global then []
                       else varint_write (as_i32 (length (palette d))) @ concat (map (\<lambda>e. varint_write (to_global_id (fst e))) (palette d)))
           in case those (map (\<lambda>v. if mode = Global then Some (to_global_id v)
                                    else map_option of_nat (palette_index v (palette d))) (flat (cube d))) of
                None \<Rightarrow> None
              | Some indices \<Rightarrow>
                  Some (of_nat bits # head @ concat (map to_be_bytes (pack_bits indices bits)))))"
| "pc_write dim (Building c) = None"

section \<open>Counts of a block palette\<close>

fun non_empty_block_count :: "16 word paletted_container \<Rightarrow> 16 word" where
  "non_empty_block_count (Homogeneous v) = (if v = 0 then 0 else 4096)"
| "non_empty_block_count (Heterogeneous d) = fold (\<lambda>(v, c) count. if v \<noteq> 0 then count + c else count) (palette d) 0"
| "non_empty_block_count (Building c) = fold (\<lambda>v count. if v \<noteq> 0 then count + 1 else count) (flat c) 0"

fun has_only_air :: "(16 word \<Rightarrow> bool) \<Rightarrow> 16 word paletted_container \<Rightarrow> bool" where
  "has_only_air is_air (Homogeneous v) = is_air v"
| "has_only_air is_air (Heterogeneous d) = False"
| "has_only_air is_air (Building c) = list_all is_air (flat c)"

section \<open>Cubes as lists\<close>

definition shaped :: "nat \<Rightarrow> 'v cube \<Rightarrow> bool" where
  "shaped dim c \<longleftrightarrow> length c = dim \<and> (\<forall>layer \<in> set c. length layer = dim \<and> (\<forall>row \<in> set layer. length row = dim))"

lemma length_concat_uniform: "\<forall>x \<in> set xs. length x = n \<Longrightarrow> length (concat xs) = length xs * n"
  by (induction xs) auto

lemma nth_concat_uniform:
  "\<forall>x \<in> set xs. length x = n \<Longrightarrow> i < length xs \<Longrightarrow> j < n \<Longrightarrow> concat xs ! (i * n + j) = xs ! i ! j"
proof (induction xs arbitrary: i)
  case (Cons a xs)
  show ?case
  proof (cases i)
    case 0
    then show ?thesis using Cons.prems by (simp add: nth_append)
  next
    case (Suc k)
    then show ?thesis using Cons.prems Cons.IH [of k] by (simp add: nth_append)
  qed
qed simp

lemma update_concat_uniform:
  "\<forall>x \<in> set xs. length x = n \<Longrightarrow> i < length xs \<Longrightarrow> j < n \<Longrightarrow>
   concat (xs[i := (xs ! i)[j := v]]) = (concat xs)[i * n + j := v]"
proof (induction xs arbitrary: i)
  case (Cons a xs)
  show ?case
  proof (cases i)
    case 0
    then show ?thesis using Cons.prems by (simp add: list_update_append)
  next
    case (Suc k)
    then show ?thesis using Cons.prems Cons.IH [of k] by (simp add: list_update_append)
  qed
qed simp

lemma shaped_layers:
  assumes "shaped dim c"
  shows "length c = dim" "\<forall>x \<in> set c. length x = dim" "\<forall>x \<in> set (concat c). length x = dim" "length (concat c) = dim * dim"
  using assms length_concat_uniform [of c dim] by (auto simp: shaped_def)

lemma flat_index_less:
  assumes "x < dim" "y < dim" "z < (dim :: nat)"
  shows "y * dim + z < dim * dim" "(y * dim + z) * dim + x < dim * dim * dim"
proof -
  have less: "a * n + b < m * n" if "a < m" "b < n" for a b m n :: nat
    using that by (metis Suc_leI add_strict_left_mono le_trans less_le_trans mult_Suc mult_le_mono1 add.commute)
  show "y * dim + z < dim * dim" by (rule less) (use assms in auto)
  then show "(y * dim + z) * dim + x < dim * dim * dim" by (rule less) (rule assms)
qed

lemma shaped_rows:
  assumes "shaped dim c" "x < dim" "y < dim" "z < dim"
  shows "y < length c" "z < length (c ! y)" "x < length (c ! y ! z)" "length (c ! y) = dim" "length (c ! y ! z) = dim"
    "\<forall>row \<in> set (c ! y). length row = dim"
proof -
  have "c ! y \<in> set c" using assms by (simp add: shaped_def)
  then show l: "length (c ! y) = dim" "\<forall>row \<in> set (c ! y). length row = dim" using assms(1) by (simp_all add: shaped_def)
  then have "c ! y ! z \<in> set (c ! y)" using assms(4) by simp
  with l show "length (c ! y ! z) = dim" by blast
  with l assms show "y < length c" "z < length (c ! y)" "x < length (c ! y ! z)" by (simp_all add: shaped_def)
qed

lemma flat_spec:
  assumes "shaped dim c"
  shows "length (flat c) = dim * dim * dim"
    and "x < dim \<Longrightarrow> y < dim \<Longrightarrow> z < dim \<Longrightarrow> cube_at y z x c = Some (flat c ! ((y * dim + z) * dim + x))"
    and "x < dim \<Longrightarrow> y < dim \<Longrightarrow> z < dim \<Longrightarrow>
      shaped dim (cube_put y z x v c) \<and> flat (cube_put y z x v c) = (flat c)[(y * dim + z) * dim + x := v]"
proof -
  note l = shaped_layers [OF assms]
  show "length (flat c) = dim * dim * dim"
    unfolding flat_def using length_concat_uniform [OF l(3)] l(4) by simp
  assume i: "x < dim" "y < dim" "z < dim"
  note r = shaped_rows [OF assms i]
  have row: "concat c ! (y * dim + z) = c ! y ! z" using nth_concat_uniform [OF l(2)] l(1) i by simp
  have len: "y * dim + z < length (concat c)" using flat_index_less(1) [OF i] l(4) by simp
  have at: "flat c ! ((y * dim + z) * dim + x) = c ! y ! z ! x"
    unfolding flat_def using nth_concat_uniform [OF l(3) len i(1)] row by simp
  show "cube_at y z x c = Some (flat c ! ((y * dim + z) * dim + x))" using r by (simp add: at cube_at_def)
  have "concat (cube_put y z x v c) = (concat c)[y * dim + z := (c ! y ! z)[x := v]]"
    unfolding cube_put_def by (rule update_concat_uniform [OF l(2)]) (use l(1) i in auto)
  then have "flat (cube_put y z x v c) = (flat c)[(y * dim + z) * dim + x := v]"
    unfolding flat_def using update_concat_uniform [OF l(3) len i(1)] row by metis
  moreover have "shaped dim (cube_put y z x v c)"
    using assms r(4-6) by (auto simp: shaped_def cube_put_def dest!: set_update_subset_insert [THEN subsetD])
  ultimately show "shaped dim (cube_put y z x v c) \<and> flat (cube_put y z x v c) = (flat c)[(y * dim + z) * dim + x := v]" by blast
qed

lemma shaped_cube_of: "shaped dim (cube_of dim v)"
  by (simp add: shaped_def cube_of_def)

lemma flat_cube_of: "flat (cube_of dim v) = replicate (dim * dim * dim) v"
proof -
  have "set (flat (cube_of dim v)) \<subseteq> {v}" by (auto simp: flat_def cube_of_def)
  then show ?thesis using flat_spec(1) [OF shaped_cube_of] by (metis replicate_eqI singletonD subsetD)
qed

section \<open>Palettes as occurrence counts\<close>

text \<open>A palette lists each value of the cube once, with the number of its cells.\<close>

definition palette_of :: "'v list \<Rightarrow> 'v palette \<Rightarrow> bool" where
  "palette_of vs ps \<longleftrightarrow> distinct (map fst ps) \<and>
     (\<forall>v. map_of ps v = (if v \<in> set vs then Some (of_nat (count (mset vs) v)) else None))"

lemma palette_add_keys: "fst ` set (palette_add v n ps) = insert v (fst ` set ps)"
  by (induction ps rule: palette_add.induct [of _ v n]) auto

lemma palette_add_distinct: "distinct (map fst ps) \<Longrightarrow> distinct (map fst (palette_add v n ps))"
proof (induction ps)
  case (Cons e ps)
  obtain w c where e: "e = (w, c)" by (cases e)
  have "w \<notin> fst ` set (palette_add v n ps)" if "w \<noteq> v" using that Cons.prems unfolding palette_add_keys by (simp add: e)
  with Cons show ?case by (auto simp: e)
qed simp

lemma palette_add_map: "map_of (palette_add v n ps) = (map_of ps)(v \<mapsto> (case map_of ps v of None \<Rightarrow> n | Some c \<Rightarrow> c + n))"
  by (induction ps rule: palette_add.induct [of _ v n]) auto

lemma palette_index_None: "palette_index v ps = None \<longleftrightarrow> v \<notin> fst ` set ps"
  by (induction ps rule: palette_index.induct [of _ v]) auto

lemma palette_index_Some: "palette_index v ps = Some i \<Longrightarrow> i < length ps \<and> fst (ps ! i) = v"
  by (induction ps arbitrary: i rule: palette_index.induct [of _ v]) (auto split: if_splits)

lemma map_of_same_mset:
  assumes "mset xs = mset ys" and "distinct (map fst xs)"
  shows "map_of xs = map_of ys \<and> distinct (map fst ys)"
proof -
  have "mset (map fst xs) = mset (map fst ys)" using assms(1) by simp
  then have "distinct (map fst ys)" using assms(2) mset_eq_imp_distinct_iff by blast
  then show ?thesis using assms map_of_inject_set [of xs ys] mset_eq_setD by blast
qed

lemma map_of_middle:
  assumes "distinct (map fst (xs @ (v, c) # ys))"
  shows "map_of (xs @ ys) = (map_of (xs @ (v, c) # ys))(v := None)" "map_of (xs @ (v, d) # ys) = (map_of (xs @ (v, c) # ys))(v \<mapsto> d)"
    and "distinct (map fst (xs @ ys))" "distinct (map fst (xs @ (v, d) # ys))"
proof -
  have "map_of xs v = None" "map_of ys v = None" using assms by (auto simp: map_of_eq_None_iff image_iff)
  then show "map_of (xs @ ys) = (map_of (xs @ (v, c) # ys))(v := None)" "map_of (xs @ (v, d) # ys) = (map_of (xs @ (v, c) # ys))(v \<mapsto> d)"
    by (auto simp: fun_eq_iff map_add_def split: option.splits)
  show "distinct (map fst (xs @ ys))" "distinct (map fst (xs @ (v, d) # ys))" using assms by auto
qed

lemma palette_sub_spec:
  assumes "distinct (map fst ps)" and "map_of ps v = Some c"
  shows "distinct (map fst (palette_sub v ps)) \<and>
    map_of (palette_sub v ps) = (if c - 1 = 0 then (map_of ps)(v := None) else (map_of ps)(v \<mapsto> c - 1))"
proof -
  have "v \<in> fst ` set ps" using assms(2) by (metis fst_conv imageI map_of_SomeD)
  then obtain i where i: "palette_index v ps = Some i" using palette_index_None by fastforce
  from palette_index_Some [OF i] have il: "i < length ps" and iv: "fst (ps ! i) = v" by auto
  have pi: "ps ! i = (v, c)" using assms il iv by (metis map_of_eq_Some_iff nth_mem option.inject prod.collapse)
  let ?u = "ps[i := (v, c - 1)]" and ?l = "take i ps" and ?r = "drop (Suc i) ps"
  have split: "ps = ?l @ (v, c) # ?r" "?u = ?l @ (v, c - 1) # ?r"
    using il pi by (metis id_take_nth_drop) (use il in \<open>simp add: upd_conv_take_nth_drop\<close>)
  note mid = map_of_middle [of ?l v c ?r, folded split(1), OF assms(1)]
  show ?thesis
  proof (cases "c - 1 = 0")
    case True
    have "take i ?u = ?l" "drop (Suc i) ?u = ?r" by simp_all
    then have "mset (swap_remove i ?u) = mset (?l @ ?r)"
      using swap_remove_parts [of i ?u] il by (metis append_take_drop_id length_list_update mset_append)
    then have "map_of (swap_remove i ?u) = map_of (?l @ ?r)" "distinct (map fst (swap_remove i ?u))"
      using map_of_same_mset [of "?l @ ?r" "swap_remove i ?u"] mid(3) by auto
    then show ?thesis using True mid(1) i pi by (simp add: palette_sub_def Let_def)
  next
    case False
    then show ?thesis using i pi mid(2,4) [of "c - 1"] split(2) by (simp add: palette_sub_def Let_def)
  qed
qed

lemma count_le_length: "count (mset vs) v \<le> length vs"
  by (metis count_le_size size_mset)

lemma count_absent: "v \<notin> set vs \<Longrightarrow> count (mset vs) v = 0"
  by (simp add: count_eq_zero_iff)

lemma of_nat_count_zero:
  assumes "length vs < 65536"
  shows "(of_nat (count (mset vs) v) :: 16 word) = 0 \<longleftrightarrow> v \<notin> set vs"
proof -
  have "count (mset vs) v < 65536" using count_le_length [of vs v] assms by simp
  then have "(of_nat (count (mset vs) v) :: 16 word) = 0 \<longleftrightarrow> count (mset vs) v = 0"
    unfolding word_of_nat_eq_0_iff using nat_dvd_not_less [of "count (mset vs) v" 65536] by (cases "count (mset vs) v = 0") (simp_all del: count_mset_0_iff)
  then show ?thesis by (metis count_eq_zero_iff set_mset_mset)
qed

text \<open>Overwriting a cell: the count of the new value goes up, then that of the old one down.\<close>

lemma palette_of_update:
  assumes "palette_of vs ps" and "i < length vs" and "length vs < 65535"
  shows "palette_of (vs[i := v]) (palette_sub (vs ! i) (palette_add v 1 ps))"
proof -
  let ?old = "vs ! i" and ?p = "palette_add v 1 ps" and ?n = "\<lambda>w. count (mset vs) w"
  have old: "?old \<in> set vs" using assms(2) by simp
  have dist: "distinct (map fst ?p)" using assms(1) palette_add_distinct by (auto simp: palette_of_def)
  have p: "map_of ?p w = (if w \<in> set vs \<or> w = v then Some (of_nat (?n w + (if w = v then 1 else 0))) else None)" for w
    using assms(1) by (auto simp: palette_of_def palette_add_map count_absent)
  have upd: "mset (vs[i := v]) = add_mset v (mset vs - {#?old#})" by (rule mset_update [OF assms(2)])
  have cnt: "count (mset (vs[i := v])) w + (if w = ?old then 1 else 0) = ?n w + (if w = v then 1 else 0)" for w
  proof -
    have "0 < ?n ?old" using old by (simp add: count_greater_zero_iff)
    then show ?thesis unfolding upd by auto
  qed
  have mem: "w \<in> set (vs[i := v]) \<longleftrightarrow> count (mset (vs[i := v])) w \<noteq> 0" for w by (simp add: count_eq_zero_iff)
  let ?c = "of_nat (?n ?old + (if ?old = v then 1 else 0)) :: 16 word"
  have c1: "?c - 1 = of_nat (count (mset (vs[i := v])) ?old)"
  proof -
    have "?n ?old + (if ?old = v then 1 else 0) = count (mset (vs[i := v])) ?old + 1" using cnt [of ?old] by simp
    then show ?thesis by (simp only: of_nat_add of_nat_1 add_diff_cancel_right')
  qed
  note sub = palette_sub_spec [OF dist p [of ?old, unfolded if_P [OF disjI1 [OF old]]]]
  have z: "?c - 1 = 0 \<longleftrightarrow> ?old \<notin> set (vs[i := v])"
    unfolding c1 by (rule of_nat_count_zero) (use assms(3) in simp)
  have "map_of (palette_sub ?old ?p) w = (if w \<in> set (vs[i := v]) then Some (of_nat (count (mset (vs[i := v])) w)) else None)" for w
  proof (cases "w = ?old")
    case True
    then show ?thesis using sub z c1 by simp
  next
    case False
    then have "map_of (palette_sub ?old ?p) w = map_of ?p w" using sub by simp
    moreover have "w \<in> set (vs[i := v]) \<longleftrightarrow> w \<in> set vs \<or> w = v" using cnt [of w] False by (auto simp: mem count_eq_zero_iff)
    ultimately show ?thesis using p [of w] cnt [of w] False by simp
  qed
  with sub show ?thesis by (simp add: palette_of_def)
qed

lemma run_split:
  "v # vs = replicate (1 + length (takeWhile (\<lambda>w. w = v) vs)) v @ dropWhile (\<lambda>w. w = v) vs"
proof -
  have "takeWhile (\<lambda>w. w = v) vs = replicate (length (takeWhile (\<lambda>w. w = v) vs)) v"
    by (rule replicate_eqI) (auto dest: set_takeWhileD)
  then show ?thesis using takeWhile_dropWhile_id [of "\<lambda>w. w = v" vs] by (metis append_Cons replicate_Suc plus_1_eq_Suc)
qed

lemma count_runs_spec:
  assumes "distinct (map fst ps)"
  shows "distinct (map fst (count_runs vs ps)) \<and>
    map_of (count_runs vs ps) w = (if w \<in> set vs \<or> map_of ps w \<noteq> None
      then Some ((case map_of ps w of None \<Rightarrow> 0 | Some c \<Rightarrow> c) + of_nat (count (mset vs) w)) else None)"
  using assms
proof (induction vs ps rule: count_runs.induct)
  case (2 v vs ps)
  let ?n = "1 + length (takeWhile (\<lambda>w. w = v) vs)" and ?rest = "dropWhile (\<lambda>w. w = v) vs"
  have m: "mset (v # vs) = replicate_mset ?n v + mset ?rest"
    by (subst run_split) (simp only: mset_append mset_replicate)
  have set: "set (v # vs) = insert v (set ?rest)" by (subst run_split) auto
  have "count (mset (v # vs)) w = (if w = v then ?n else 0) + count (mset ?rest) w" unfolding m by simp
  moreover note IH = "2.IH" [OF refl palette_add_distinct [OF "2.prems"]]
  ultimately show ?case
    using IH set by (auto simp: palette_add_map count_absent simp del: count_mset_0_iff split: option.splits)
qed (auto split: option.splits)

section \<open>Containers as lists of values\<close>

fun pc_ok :: "nat \<Rightarrow> 'v paletted_container \<Rightarrow> bool" where
  "pc_ok dim (Homogeneous v) \<longleftrightarrow> True"
| "pc_ok dim (Heterogeneous d) \<longleftrightarrow> shaped dim (cube d) \<and> palette_of (flat (cube d)) (palette d) \<and> length (palette d) \<noteq> 1"
| "pc_ok dim (Building c) \<longleftrightarrow> shaped dim c"

lemma palette_of_single:
  assumes "palette_of vs ps" and "length ps = 1"
  shows "vs = replicate (length vs) (fst (ps ! 0))"
proof -
  obtain v c where "ps = [(v, c)]" using assms(2) by (cases ps) auto
  then have "w = v" if "w \<in> set vs" for w using assms(1) that by (auto simp: palette_of_def split: if_splits)
  then show ?thesis using \<open>ps = [(v, c)]\<close> by (auto intro: replicate_eqI)
qed

lemma palette_of_count_runs: "palette_of vs (count_runs vs [])"
  using count_runs_spec [of "[]" vs] by (simp add: palette_of_def)

lemma from_cube_spec:
  assumes "shaped dim c"
  shows "pc_ok dim (from_cube c) \<and> collect_values dim (from_cube c) = flat c"
  using palette_of_count_runs [of "flat c"] palette_of_single [of "flat c"] assms flat_spec(1) [OF assms]
  by (auto simp: from_cube_def iter_values_def Let_def)

lemma collect_values_length: "pc_ok dim c \<Longrightarrow> length (collect_values dim c) = dim * dim * dim"
  by (cases c) (auto simp: flat_spec iter_values_def)

definition cell_index :: "nat \<Rightarrow> nat \<Rightarrow> nat \<Rightarrow> nat \<Rightarrow> nat" where
  "cell_index dim x y z = x + z * dim + y * dim * dim"

lemma cell_index_eq: "cell_index dim x y z = (y * dim + z) * dim + x"
  by (simp add: cell_index_def algebra_simps)

lemma cell_index_less: "x < dim \<Longrightarrow> y < dim \<Longrightarrow> z < dim \<Longrightarrow> cell_index dim x y z < dim * dim * dim"
  using flat_index_less(2) by (simp add: cell_index_eq)

lemma pc_get_spec:
  assumes "pc_ok dim c" and "x < dim" "y < dim" "z < dim"
  shows "pc_get x y z c = Some (collect_values dim c ! cell_index dim x y z)"
  using assms cell_index_less [OF assms(2-4)] flat_spec(2) [of dim _ x y z]
  by (cases c) (auto simp: hp_get_def iter_values_def cell_index_eq)

lemma pc_set_spec:
  assumes "pc_ok dim c" and "x < dim" "y < dim" "z < dim" and "dim \<le> 16"
  shows "\<exists>c'. pc_set dim x y z v c = Some (collect_values dim c ! cell_index dim x y z, c') \<and> pc_ok dim c'
    \<and> collect_values dim c' = (collect_values dim c)[cell_index dim x y z := v]"
proof (cases c)
  case (Homogeneous w)
  let ?q = "cube_put y z x v (cube_of dim w)"
  note f = flat_spec [OF shaped_cube_of [of dim w]]
  have q: "shaped dim ?q" "flat ?q = (replicate (dim * dim * dim) w)[cell_index dim x y z := v]"
    using f(3) [OF assms(2-4), of v] by (simp_all add: flat_cube_of cell_index_eq)
  have same: "(replicate (dim * dim * dim) w)[cell_index dim x y z := w] = replicate (dim * dim * dim) w"
    using cell_index_less [OF assms(2-4)] by (simp add: list_update_same_conv)
  show ?thesis
    using from_cube_spec [OF q(1)] q(2) f(2) [OF assms(2-4)] same cell_index_less [OF assms(2-4)] by (auto simp: Homogeneous)
next
  case (Heterogeneous d)
  then have d: "shaped dim (cube d)" "palette_of (flat (cube d)) (palette d)" using assms(1) by auto
  let ?i = "cell_index dim x y z" and ?old = "flat (cube d) ! cell_index dim x y z"
  let ?d = "\<lparr>cube = cube_put y z x v (cube d), palette = palette_sub ?old (palette_add v 1 (palette d))\<rparr>"
  have len: "length (flat (cube d)) = dim * dim * dim" by (rule flat_spec(1) [OF d(1)])
  have "dim * dim * dim \<le> 16 * 16 * 16" using assms(5) by (intro mult_le_mono)
  then have small: "length (flat (cube d)) < 65535" using len by simp
  have s: "hp_set x y z v d = Some (?old, ?d)"
    using flat_spec(2) [OF d(1) assms(2-4)] by (simp add: hp_set_def cell_index_eq)
  have q: "shaped dim (cube ?d)" "flat (cube ?d) = (flat (cube d))[?i := v]"
    using flat_spec(3) [OF d(1) assms(2-4), of v] by (simp_all add: cell_index_eq)
  have p: "palette_of (flat (cube ?d)) (palette ?d)"
    unfolding q(2) using palette_of_update [OF d(2) _ small, of ?i v] cell_index_less [OF assms(2-4)] len by simp
  show ?thesis
  proof (cases "length (palette ?d) = 1")
    case True
    from palette_of_single [OF p this] have "flat (cube ?d) = replicate (dim * dim * dim) (fst (palette ?d ! 0))"
      using q(2) len by simp
    then show ?thesis using True s q(2) by (simp add: Heterogeneous iter_values_def)
  next
    case False
    then show ?thesis using s q p by (simp add: Heterogeneous iter_values_def)
  qed
next
  case (Building q)
  then show ?thesis using assms flat_spec(2,3) [of dim q x y z] by (simp add: cell_index_eq)
qed

lemma pc_get_at_index_spec:
  assumes "pc_ok dim c" and "i < dim * dim * dim"
  shows "pc_get_at_index dim i c = Some (collect_values dim c ! i)"
proof -
  have d: "0 < dim" using assms(2) by (cases dim) auto
  have less: "i mod dim < dim" "i div dim mod dim < dim" using d by simp_all
  have y: "i div (dim * dim) < dim" using assms(2) by (simp add: less_mult_imp_div_less mult.commute)
  have "i div (dim * dim) * dim + i div dim mod dim = i div dim"
    by (metis div_mult2_eq div_mult_mod_eq)
  then have i: "cell_index dim (i mod dim) (i div (dim * dim)) (i div dim mod dim) = i" by (simp add: cell_index_eq)
  have "pc_get_at_index dim i c = pc_get (i mod dim) (i div (dim * dim)) (i div dim mod dim) c"
    by (cases c) (simp_all add: hp_get_at_index_def hp_get_def)
  then show ?thesis using pc_get_spec [OF assms(1) less(1) y less(2)] i by simp
qed

lemma those_map_Some: "those (map (\<lambda>i. Some (f i)) xs) = Some (map f xs)"
  by (induction xs) auto

lemma copy_column_spec:
  assumes "pc_ok dim c" and "x < dim" "z < dim" and "dim \<le> length out"
  shows "copy_column_into dim x z c out = Some (map (\<lambda>y. collect_values dim c ! cell_index dim x y z) [0..<dim] @ drop dim out)"
proof -
  have col: "those (map (\<lambda>y. cube_at y z x q) [0..<dim]) = Some (map (\<lambda>y. flat q ! cell_index dim x y z) [0..<dim])" if "shaped dim q" for q :: "'a cube"
  proof -
    have "map (\<lambda>y. cube_at y z x q) [0..<dim] = map (\<lambda>y. Some (flat q ! cell_index dim x y z)) [0..<dim]"
      using flat_spec(2) [OF that assms(2) _ assms(3)] by (simp add: cell_index_eq)
    then show ?thesis by (simp only: those_map_Some)
  qed
  have hom: "map (\<lambda>y. replicate (dim * dim * dim) v ! cell_index dim x y z) [0..<dim] = replicate dim v" for v :: 'a
    using cell_index_less [OF assms(2) _ assms(3)] by (auto intro!: nth_equalityI)
  show ?thesis using assms col hom by (cases c) (auto simp: copy_column_into_def iter_values_def not_less)
qed

lemma palette_keys:
  assumes "palette_of vs ps"
  shows "fst ` set ps = set vs"
proof -
  have "dom (map_of ps) = set vs" using assms by (auto simp: palette_of_def dom_def split: if_splits)
  then show ?thesis by (simp add: dom_map_of_conv_image_fst)
qed

lemma maybe_has_spec:
  assumes "pc_ok dim c" and "0 < dim"
  shows "maybe_has p c \<longleftrightarrow> (\<exists>v \<in> set (collect_values dim c). p v)"
proof (cases c)
  case (Heterogeneous d)
  then have "fst ` set (palette d) = set (flat (cube d))" using assms(1) by (intro palette_keys) simp
  then have "(\<exists>e \<in> set (palette d). p (fst e)) \<longleftrightarrow> (\<exists>v \<in> set (flat (cube d)). p v)" by (metis (no_types, lifting) imageE imageI)
  then show ?thesis using Heterogeneous by (simp add: list_ex_iff iter_values_def)
qed (use assms in \<open>auto simp: list_ex_iff\<close>)

lemma count_fold: "fold (\<lambda>(v, c) n. if v \<noteq> 0 then n + c else n) ps n = n + (\<Sum>e\<leftarrow>ps. if fst e \<noteq> 0 then snd e else 0)"
  by (induction ps arbitrary: n) (auto simp: algebra_simps)

lemma count_cells: "fold (\<lambda>v n. if v \<noteq> 0 then n + 1 else n) vs n = n + of_nat (length (filter (\<lambda>v. v \<noteq> 0) vs))"
  by (induction vs arbitrary: n) (auto simp: algebra_simps)

lemma palette_sum:
  assumes "palette_of vs ps"
  shows "(\<Sum>e\<leftarrow>ps. if P (fst e) then snd e else 0) = of_nat (length (filter P vs))"
proof -
  let ?f = "\<lambda>v. if P v then of_nat (count (mset vs) v) else (0 :: 16 word)"
  have d: "distinct (map fst ps)" using assms by (simp add: palette_of_def)
  have e: "(if P (fst e) then snd e else 0) = ?f (fst e)" if "e \<in> set ps" for e
  proof -
    have "map_of ps (fst e) = Some (snd e)" using d that by simp
    then show ?thesis using assms by (auto simp: palette_of_def split: if_splits)
  qed
  have "(\<Sum>e\<leftarrow>ps. if P (fst e) then snd e else 0) = (\<Sum>v\<leftarrow>map fst ps. ?f v)" using e by (simp add: comp_def cong: map_cong)
  also have "\<dots> = (\<Sum>v\<in>set vs. ?f v)" using sum_list_distinct_conv_sum_set [OF d, of ?f] palette_keys [OF assms] by simp
  also have "\<dots> = of_nat (\<Sum>v\<in>set vs. if P v then count (mset vs) v else 0)" by (simp add: if_distrib [of of_nat] cong: if_cong)
  also have "(\<Sum>v\<in>set vs. if P v then count (mset vs) v else 0) = size (filter_mset P (mset vs))"
    by (simp add: size_multiset_overloaded_eq sum.inter_filter [symmetric] Collect_conj_eq [symmetric] Int_def cong: if_cong)
  finally show ?thesis by (metis mset_filter size_mset)
qed

lemma non_empty_block_count_spec:
  assumes "pc_ok 16 c"
  shows "non_empty_block_count c = of_nat (length (filter (\<lambda>v. v \<noteq> 0) (collect_values 16 c)))"
  using assms palette_sum [where P = "\<lambda>v :: 16 word. v \<noteq> 0"]
  by (cases c) (simp_all add: count_fold count_cells iter_values_def filter_replicate)

section \<open>Packed indices\<close>

text \<open>
  The layout of packed longs: entry \<open>i\<close> is the field of \<open>bits\<close> bits at place \<open>i mod (64 div bits)\<close> of
  long \<open>i div (64 div bits)\<close>, the least significant field first.
\<close>

definition packed_field :: "nat \<Rightarrow> 64 word list \<Rightarrow> nat \<Rightarrow> 64 word" where
  "packed_field bits data i = take_bit bits (drop_bit ((i mod (64 div bits)) * bits) (data ! (i div (64 div bits))))"

definition unpack_bits :: "nat \<Rightarrow> nat \<Rightarrow> 64 word list \<Rightarrow> 64 word list" where
  "unpack_bits n bits data = map (packed_field bits data) [0..<n]"

lemma pack_step_length [simp]: "length (pack_step bits e data) = length data"
  by (simp add: pack_step_def Let_def)

lemma pack_fold_length [simp]: "length (fold (pack_step bits) es data) = length data"
  by (induction es arbitrary: data) auto

lemma pack_step_bit:
  assumes "i div (64 div bits) < length data" and "k < length data" and "j < 64"
  shows "bit (pack_step bits (i, w) data ! k) j \<longleftrightarrow> bit (data ! k) j \<or>
    k = i div (64 div bits) \<and> (i mod (64 div bits)) * bits \<le> j \<and> bit w (j - (i mod (64 div bits)) * bits)"
  using assms by (auto simp: pack_step_def Let_def nth_list_update bit_or_iff bit_push_bit_iff bit_ucast_iff)

lemma pack_fold_bit:
  assumes "(s + length xs) \<le> length data * (64 div bits)" and "0 < 64 div bits" and "k < length data" and "j < 64"
  shows "bit (fold (pack_step bits) (enumerate s xs) data ! k) j \<longleftrightarrow> bit (data ! k) j \<or>
    (\<exists>i < length xs. k = (s + i) div (64 div bits) \<and> ((s + i) mod (64 div bits)) * bits \<le> j
       \<and> bit (xs ! i) (j - ((s + i) mod (64 div bits)) * bits))"
  using assms
proof (induction xs arbitrary: s data)
  case (Cons x xs)
  have "s div (64 div bits) < length data" using Cons.prems(1,2) by (simp add: less_mult_imp_div_less)
  from pack_step_bit [OF this, of k j x] Cons.prems have step:
    "bit (pack_step bits (s, x) data ! k) j \<longleftrightarrow> bit (data ! k) j \<or>
      k = s div (64 div bits) \<and> (s mod (64 div bits)) * bits \<le> j \<and> bit x (j - (s mod (64 div bits)) * bits)" by simp
  have ex: "(\<exists>i < Suc n. P i) \<longleftrightarrow> P 0 \<or> (\<exists>i < n. P (Suc i))" for n P by (auto simp: less_Suc_eq_0_disj)
  show ?case using Cons.IH [of "Suc s" "pack_step bits (s, x) data"] Cons.prems step by (simp add: ex)
qed simp

lemma long_slots:
  fixes r b bits :: nat
  assumes "r < 64 div bits" and "b < bits"
  shows "r * bits + b < 64"
proof -
  have "r * bits + b < Suc r * bits" using assms(2) by simp
  also have "\<dots> \<le> (64 div bits) * bits" using assms(1) by (intro mult_le_mono1) simp
  also have "\<dots> \<le> 64" by simp
  finally show ?thesis .
qed

lemma div_ceil_covers: "0 < v \<Longrightarrow> n \<le> (n + v - 1) div v * (v :: nat)"
  using div_mult_mod_eq [of "n + v - 1" v] mod_less_divisor [of v "n + v - 1"] by linarith

lemma small_bits:
  assumes "unat (w :: 32 word) < 2 ^ bits" and "bit w b"
  shows "b < bits"
proof -
  have "take_bit bits w = w"
    by (rule word_unat_eq_iff [THEN iffD2]) (use assms(1) in \<open>simp add: unsigned_take_bit_eq take_bit_nat_eq_self_iff\<close>)
  then show ?thesis using assms(2) by (metis bit_take_bit_iff)
qed

lemma slot_unique:
  assumes "(m :: nat) mod v * bits \<le> i mod v * bits + b" and "i mod v * bits + b - m mod v * bits < bits" and "b < bits"
    and "i div v = m div v"
  shows "m = i"
proof -
  obtain e where e: "i mod v * bits + b = m mod v * bits + e" "e < bits" using assms(1,2) by (metis le_add_diff_inverse)
  have "(i mod v * bits + b) div bits = i mod v" "(m mod v * bits + e) div bits = m mod v" using assms(3) e(2) by simp_all
  then have "i mod v = m mod v" using e(1) by simp
  then show ?thesis using assms(4) by (metis div_mult_mod_eq)
qed

lemma unpack_pack:
  assumes "0 < bits" and "bits \<le> 32" and "\<forall>w \<in> set xs. unat w < 2 ^ bits"
  shows "unpack_bits (length xs) bits (pack_bits xs bits) = map ucast xs"
proof (rule nth_equalityI)
  let ?v = "64 div bits" and ?data = "pack_bits xs bits"
  have v: "0 < ?v" using assms(1,2) by (simp add: div_greater_zero_iff)
  let ?len = "(length xs + ?v - 1) div ?v"
  have cover: "length xs \<le> ?len * ?v" by (rule div_ceil_covers [OF v])
  fix i assume "i < length (unpack_bits (length xs) bits ?data)"
  then have i: "i < length xs" by (simp add: unpack_bits_def)
  have k: "i div ?v < ?len" using i cover by (simp add: less_mult_imp_div_less)
  have small: "b < bits" if "m < length xs" "bit (xs ! m) b" for m b
    using small_bits that assms(3) by (meson nth_mem)
  have data: "bit (?data ! (i div ?v)) (i mod ?v * bits + b) \<longleftrightarrow> bit (xs ! i) b" if b: "b < bits" for b
  proof -
    have j: "i mod ?v * bits + b < 64" by (rule long_slots) (use v b in auto)
    have "bit (?data ! (i div ?v)) (i mod ?v * bits + b) \<longleftrightarrow>
      (\<exists>m < length xs. i div ?v = m div ?v \<and> m mod ?v * bits \<le> i mod ?v * bits + b \<and> bit (xs ! m) (i mod ?v * bits + b - m mod ?v * bits))"
      unfolding pack_bits_def Let_def using pack_fold_bit [of 0 xs "replicate ?len 0" bits "i div ?v"] cover v k j by simp
    also have "\<dots> \<longleftrightarrow> bit (xs ! i) b"
    proof
      assume "\<exists>m < length xs. i div ?v = m div ?v \<and> m mod ?v * bits \<le> i mod ?v * bits + b \<and> bit (xs ! m) (i mod ?v * bits + b - m mod ?v * bits)"
      then obtain m where m: "m < length xs" "i div ?v = m div ?v" "m mod ?v * bits \<le> i mod ?v * bits + b"
        "bit (xs ! m) (i mod ?v * bits + b - m mod ?v * bits)" by blast
      then have "m = i" using slot_unique [OF m(3) small [OF m(1,4)] b m(2)] by simp
      with m(4) show "bit (xs ! i) b" by simp
    next
      assume "bit (xs ! i) b"
      with i show "\<exists>m < length xs. i div ?v = m div ?v \<and> m mod ?v * bits \<le> i mod ?v * bits + b \<and> bit (xs ! m) (i mod ?v * bits + b - m mod ?v * bits)"
        by (intro exI [of _ i]) simp
    qed
    finally show ?thesis .
  qed
  have "bit (unpack_bits (length xs) bits ?data ! i) b \<longleftrightarrow> bit (ucast (xs ! i) :: 64 word) b" for b
    using data [of b] small [OF i, of b] i assms(2)
    by (auto simp: unpack_bits_def packed_field_def bit_take_bit_iff bit_drop_bit_eq bit_ucast_iff)
  then show "unpack_bits (length xs) bits ?data ! i = map ucast xs ! i" using i by (simp add: bit_eq_iff)
qed (simp add: unpack_bits_def)

lemma packed_field_pack:
  assumes "0 < bits" and "bits \<le> 32" and "\<forall>w \<in> set xs. unat w < 2 ^ bits" and "i < length xs"
  shows "packed_field bits (pack_bits xs bits) i = ucast (xs ! i)"
proof -
  have "unpack_bits (length xs) bits (pack_bits xs bits) ! i = packed_field bits (pack_bits xs bits) i"
    using assms(4) by (simp add: unpack_bits_def)
  then show ?thesis using unpack_pack [OF assms(1-3)] assms(4) by simp
qed

lemma pack_bits_length: "length (pack_bits xs bits) = (length xs + 64 div bits - 1) div (64 div bits)"
  by (simp add: pack_bits_def Let_def)

section \<open>The bytes of a container\<close>

lemma strategy_spec:
  assumes "1 < n" and "dim = 16 \<or> dim = 4"
  shows "\<exists>bits mode. calculate_strategy dim n = Some (bits, mode) \<and> 0 < bits \<and> bits \<le> 15
    \<and> (mode \<noteq> Global \<longrightarrow> n \<le> 2 ^ bits \<and> n \<le> 256 \<and> bits \<le> (if dim = 16 then 8 else 3))
    \<and> (mode = Global \<longrightarrow> bits = (if dim = 16 then 15 else 6))"
  using assms unfolding calculate_strategy_def by auto

lemma unat_of_small: "i < 2 ^ 32 \<Longrightarrow> unat (of_nat i :: 32 word) = i"
  by (simp add: unsigned_of_nat take_bit_nat_eq_self)

lemma unat_global_id: "unat (to_global_id v) = unat v"
proof -
  have "unat v < 2 ^ 16" using unsigned_less [of v] by simp
  then have "unat v < 2 ^ 32" by simp
  then show ?thesis by (simp add: to_global_id_def unsigned_ucast_eq take_bit_nat_eq_self)
qed

lemma unat_ucast_long: "unat (ucast (w :: 32 word) :: 64 word) = unat w"
proof -
  have "unat w < 2 ^ 32" using unsigned_less [of w] by simp
  then have "unat w < 2 ^ 64" by simp
  then show ?thesis by (simp add: unsigned_ucast_eq take_bit_nat_eq_self)
qed

text \<open>In a local palette every cell becomes the index of its value.\<close>

lemma palette_indices:
  assumes "palette_of vs ps" and "length ps \<le> 256"
  shows "\<exists>xs :: 32 word list. those (map (\<lambda>v. map_option of_nat (palette_index v ps)) vs) = Some xs \<and> length xs = length vs
    \<and> (\<forall>w \<in> set xs. unat w < length ps)
    \<and> (\<forall>i < length vs. fst (ps ! unat (xs ! i)) = vs ! i)"
proof -
  define f where "f v = (of_nat (the (palette_index v ps)) :: 32 word)" for v
  have idx: "palette_index v ps = Some (unat (f v)) \<and> unat (f v) < length ps \<and> fst (ps ! unat (f v)) = v" if v: "v \<in> set vs" for v
  proof -
    have "v \<in> fst ` set ps" using v palette_keys [OF assms(1)] by simp
    then obtain i where i: "palette_index v ps = Some i" using palette_index_None [of v ps] by (cases "palette_index v ps") auto
    from palette_index_Some [OF i] have "i < length ps" "fst (ps ! i) = v" by auto
    with i assms(2) show ?thesis by (simp add: f_def unat_of_small)
  qed
  have "map (\<lambda>v. map_option of_nat (palette_index v ps)) vs = map (\<lambda>v. Some (f v)) vs"
    using idx by (intro map_cong refl) (force simp: f_def)
  then have "those (map (\<lambda>v. map_option of_nat (palette_index v ps)) vs) = Some (map f vs)" by (simp only: those_map_Some)
  then show ?thesis using idx by (intro exI [of _ "map f vs"]) auto
qed

text \<open>
  The bytes of the palette, which the direct form leaves out.
\<close>

definition palette_bytes :: "palette_mode \<Rightarrow> 16 word palette \<Rightarrow> byte list" where
  "palette_bytes mode ps =
     (if mode = Global then []
      else varint_write (as_i32 (length ps)) @ concat (map (\<lambda>e. varint_write (to_global_id (fst e))) ps))"

lemma heterogeneous_bytes:
  assumes ok: "pc_ok dim (Heterogeneous d)" and dim: "dim = 16 \<or> dim = 4"
  shows "\<exists>bits mode longs. calculate_strategy dim (length (palette d)) = Some (bits, mode)
    \<and> pc_write dim (Heterogeneous d) = Some (of_nat bits # palette_bytes mode (palette d) @ concat (map to_be_bytes longs))
    \<and> length longs = (dim * dim * dim + 64 div bits - 1) div (64 div bits)
    \<and> (mode = Global \<longrightarrow> (\<forall>v \<in> set (flat (cube d)). unat v < 2 ^ bits) \<longrightarrow>
         (\<forall>i < dim * dim * dim. unat (packed_field bits longs i) = unat (to_global_id (flat (cube d) ! i))))
    \<and> (mode \<noteq> Global \<longrightarrow>
         (\<forall>i < dim * dim * dim. unat (packed_field bits longs i) < length (palette d)
            \<and> fst (palette d ! unat (packed_field bits longs i)) = flat (cube d) ! i))"
proof -
  let ?vs = "flat (cube d)" and ?ps = "palette d" and ?n = "dim * dim * dim"
  have len: "length ?vs = ?n" and pal: "palette_of ?vs ?ps" using ok flat_spec(1) by auto
  have "?ps \<noteq> []" using len dim palette_keys [OF pal] by auto
  then have "1 < length ?ps" using ok by (cases ?ps) (auto simp: neq_Nil_conv)
  from strategy_spec [OF this dim] obtain bits mode where
    st: "calculate_strategy dim (length ?ps) = Some (bits, mode)" "0 < bits" "bits \<le> 15"
    and local: "mode \<noteq> Global \<Longrightarrow> length ?ps \<le> 2 ^ bits \<and> length ?ps \<le> 256" by blast
  then have bits: "bits \<le> 32" by simp
  show ?thesis
  proof (cases "mode = Global")
    case True
    let ?xs = "map to_global_id ?vs"
    have "pc_write dim (Heterogeneous d) = Some (of_nat bits # palette_bytes mode ?ps @ concat (map to_be_bytes (pack_bits ?xs bits)))"
      using True st(1) those_map_Some [of to_global_id ?vs] by (simp add: palette_bytes_def)
    moreover have "unat (packed_field bits (pack_bits ?xs bits) i) = unat (to_global_id (?vs ! i))"
      if "\<forall>v \<in> set ?vs. unat v < 2 ^ bits" "i < ?n" for i
      using packed_field_pack [OF st(2) bits, of ?xs i] that len by (simp add: unat_global_id unat_ucast_long)
    ultimately show ?thesis
      using True st(1) len by (intro exI [of _ bits] exI [of _ mode] exI [of _ "pack_bits ?xs bits"]) (simp add: pack_bits_length)
  next
    case False
    from palette_indices [OF pal] local [OF False] obtain xs :: "32 word list" where
      xs: "those (map (\<lambda>v. map_option of_nat (palette_index v ?ps)) ?vs) = Some xs" "length xs = length ?vs"
        "\<forall>w \<in> set xs. unat w < length ?ps" "\<forall>i < length ?vs. fst (?ps ! unat (xs ! i)) = ?vs ! i" by blast
    have "pc_write dim (Heterogeneous d) = Some (of_nat bits # palette_bytes mode ?ps @ concat (map to_be_bytes (pack_bits xs bits)))"
      using False st(1) xs(1) by (simp add: palette_bytes_def)
    moreover have "\<forall>w \<in> set xs. unat w < 2 ^ bits" using xs(3) local [OF False] by fastforce
    then have "unat (packed_field bits (pack_bits xs bits) i) = unat (xs ! i)" if "i < ?n" for i
      using packed_field_pack [OF st(2) bits, of xs i] that len xs(2) by (simp add: unat_ucast_long)
    ultimately show ?thesis
      using False st(1) len xs(2-4)
      by (intro exI [of _ bits] exI [of _ mode] exI [of _ "pack_bits xs bits"]) (simp add: pack_bits_length)
  qed
qed

text \<open>
  An entry wider than its field runs over into the next field of the same long, where it is mixed
  with that entry.
\<close>

lemma wide_entry_spills:
  assumes "Suc i < length xs" and "Suc (i mod (64 div bits)) < 64 div bits" and "0 < bits"
  shows "pack_bits xs bits = pack_bits (xs[i := take_bit bits (xs ! i), Suc i := drop_bit bits (xs ! i) OR xs ! Suc i]) bits"
    (is "_ = pack_bits ?ys bits")
proof (rule nth_equalityI)
  let ?v = "64 div bits"
  let ?len = "(length xs + ?v - 1) div ?v"
  have v: "0 < ?v" using assms(2) by linarith
  have cover: "length xs \<le> ?len * ?v" by (rule div_ceil_covers [OF v])
  have nxt: "Suc i mod ?v = Suc (i mod ?v)" "Suc i div ?v = i div ?v"
    using assms(2) by (simp_all add: mod_Suc div_Suc)
  show "length (pack_bits xs bits) = length (pack_bits ?ys bits)" by (simp add: pack_bits_length)
  fix k assume "k < length (pack_bits xs bits)"
  then have k: "k < ?len" by (simp add: pack_bits_length)
  define at where "at zs j m \<longleftrightarrow> m < length zs \<and> k = m div ?v \<and> m mod ?v * bits \<le> j \<and> bit (zs ! m) (j - m mod ?v * bits)"
    for zs :: "32 word list" and j m
  have bits_at: "bit (pack_bits zs bits ! k) j \<longleftrightarrow> (\<exists>m. at zs j m)" if "length zs = length xs" "j < 64" for zs j
    unfolding pack_bits_def Let_def at_def
    using pack_fold_bit [of 0 zs "replicate ?len 0" bits k j] cover v k that by auto
  have "(\<exists>m. at xs j m) \<longleftrightarrow> (\<exists>m. at ?ys j m)" for j
  proof -
    have other: "at ?ys j m \<longleftrightarrow> at xs j m" if "m \<noteq> i" "m \<noteq> Suc i" for m using that by (simp add: at_def)
    have field: "j - i mod ?v * bits < bits" if "\<not> bits + i mod ?v * bits \<le> j" "i mod ?v * bits \<le> j" using that by linarith
    have rest: "bits + (j - (bits + i mod ?v * bits)) = j - i mod ?v * bits" if "bits + i mod ?v * bits \<le> j" using that by linarith
    have "at ?ys j i \<or> at ?ys j (Suc i) \<longleftrightarrow> at xs j i \<or> at xs j (Suc i)"
      using assms(1) field rest unfolding at_def nxt
      by (cases "bits + i mod ?v * bits \<le> j") (auto simp: bit_take_bit_iff bit_or_iff bit_drop_bit_eq)
    then show ?thesis using other by metis
  qed
  then show "pack_bits xs bits ! k = pack_bits ?ys bits ! k"
    using bits_at [of xs] bits_at [of ?ys] by (intro bit_word_eqI) simp
qed

section \<open>The contract of a cell store\<close>

text \<open>
  What the users of a container rely on: inside the cube, reading never panics, writing returns
  what was there, keeps the container well-formed, and changes exactly that cell.
\<close>

locale cell_store =
  fixes get :: "nat \<Rightarrow> nat \<Rightarrow> nat \<Rightarrow> 'c \<Rightarrow> 'v option"
    and put :: "nat \<Rightarrow> nat \<Rightarrow> nat \<Rightarrow> 'v \<Rightarrow> 'c \<Rightarrow> ('v \<times> 'c) option"
    and ok :: "'c \<Rightarrow> bool" and dim :: nat
  assumes get_some: "ok c \<Longrightarrow> x < dim \<Longrightarrow> y < dim \<Longrightarrow> z < dim \<Longrightarrow> \<exists>v. get x y z c = Some v"
    and put_some: "ok c \<Longrightarrow> x < dim \<Longrightarrow> y < dim \<Longrightarrow> z < dim \<Longrightarrow>
      \<exists>c'. put x y z v c = Some (the (get x y z c), c')"
    and put_ok: "ok c \<Longrightarrow> x < dim \<Longrightarrow> y < dim \<Longrightarrow> z < dim \<Longrightarrow> put x y z v c = Some (u, c') \<Longrightarrow> ok c'"
    and get_put: "ok c \<Longrightarrow> x < dim \<Longrightarrow> y < dim \<Longrightarrow> z < dim \<Longrightarrow> x' < dim \<Longrightarrow> y' < dim \<Longrightarrow> z' < dim \<Longrightarrow>
      put x y z v c = Some (u, c') \<Longrightarrow> get x' y' z' c' = (if (x', y', z') = (x, y, z) then Some v else get x' y' z' c)"
begin

lemma put_old:
  assumes "ok c" "x < dim" "y < dim" "z < dim" "put x y z v c = Some (u, c')"
  shows "get x y z c = Some u"
  using put_some [OF assms(1-4), of v] get_some [OF assms(1-4)] assms(5) by auto

text \<open>Writing a cell twice, or writing back what was read.\<close>

lemma put_put:
  assumes "ok c" "x < dim" "y < dim" "z < dim" "put x y z v c = Some (u, c')" "put x y z w c' = Some (u', c'')"
  shows "u' = v \<and> (\<forall>x' < dim. \<forall>y' < dim. \<forall>z' < dim. get x' y' z' c'' = (if (x', y', z') = (x, y, z) then Some w else get x' y' z' c))"
proof -
  have ok': "ok c'" by (rule put_ok [OF assms(1-5)])
  have "get x y z c' = Some v" using get_put [OF assms(1-4) assms(2-4) assms(5)] by simp
  moreover have "get x y z c' = Some u'" by (rule put_old [OF ok' assms(2-4) assms(6)])
  ultimately show ?thesis
    using get_put [OF assms(1-4) _ _ _ assms(5)] get_put [OF ok' assms(2-4) _ _ _ assms(6)] by auto
qed

lemma put_back:
  assumes "ok c" "x < dim" "y < dim" "z < dim" "get x y z c = Some v" "put x y z v c = Some (u, c')" "x' < dim" "y' < dim" "z' < dim"
  shows "get x' y' z' c' = get x' y' z' c"
  using get_put [OF assms(1-4) assms(7-9) assms(6)] assms(5) by simp

end

lemma cell_index_inj:
  assumes "x < dim" "y < dim" "z < dim" "x' < dim" "y' < dim" "z' < dim" "cell_index dim x y z = cell_index dim x' y' z'"
  shows "x = x' \<and> y = y' \<and> z = z'"
proof -
  have split: "a = a' \<and> b = b'" if "a * dim + b = a' * dim + b'" "b < dim" "b' < dim" for a a' b b'
    using that by (metis add.commute div_mult_self3 div_less add_0 mod_less mod_mult_self3 not_less_zero)
  from assms(7) have "(y * dim + z) * dim + x = (y' * dim + z') * dim + x'" by (simp only: cell_index_eq)
  from split [OF this assms(1,4)] have "y * dim + z = y' * dim + z'" "x = x'" by auto
  with split [OF this(1) assms(3,6)] show ?thesis by simp
qed

lemma paletted_cell_store:
  assumes "dim \<le> 16"
  shows "cell_store pc_get (pc_set dim) (pc_ok dim) dim"
proof
  fix c :: "'v paletted_container" and x y z v
  assume c: "pc_ok dim c" "x < dim" "y < dim" "z < dim"
  note g = pc_get_spec [OF c] and s = pc_set_spec [OF c assms, of v]
  show "\<exists>v. pc_get x y z c = Some v" using g by simp
  show "\<exists>c'. pc_set dim x y z v c = Some (the (pc_get x y z c), c')" using g s by auto
  show "pc_ok dim c'" if "pc_set dim x y z v c = Some (u, c')" for u c' using s that by auto
  show "pc_get x' y' z' c' = (if (x', y', z') = (x, y, z) then Some v else pc_get x' y' z' c)"
    if "x' < dim" "y' < dim" "z' < dim" "pc_set dim x y z v c = Some (u, c')" for x' y' z' u c'
  proof -
    have c': "pc_ok dim c'" "collect_values dim c' = (collect_values dim c)[cell_index dim x y z := v]" using s that(4) by auto
    have "cell_index dim x y z < length (collect_values dim c)"
      using cell_index_less [OF c(2-4)] collect_values_length [OF c(1)] by simp
    then show ?thesis
      using pc_get_spec [OF c'(1) that(1-3)] pc_get_spec [OF c(1) that(1-3)] c'(2) cell_index_inj [OF c(2-4) that(1-3)]
      by (auto simp: nth_list_update)
  qed
qed

interpretation block_palette: cell_store pc_get "pc_set 16" "pc_ok 16" 16
  by (rule paletted_cell_store) simp

interpretation biome_palette: cell_store pc_get "pc_set 4" "pc_ok 4" 4
  by (rule paletted_cell_store) simp

section \<open>Properties\<close>

text \<open>
  C14. A container is a list of values, whatever its representation: writing a cell returns the value
  that was there and updates the list at the index of the cell, and the container stays
  well-formed, with a palette that holds exactly the values that occur and how often; it becomes
  homogeneous as soon as all cells agree.
\<close>
theorem container_refines_list:
  assumes "pc_ok dim c" and "x < dim" "y < dim" "z < dim" and "dim \<le> 16"
  shows "pc_get x y z c = Some (collect_values dim c ! cell_index dim x y z)
    \<and> pc_get_at_index dim (cell_index dim x y z) c = pc_get x y z c
    \<and> (\<exists>c'. pc_set dim x y z v c = Some (collect_values dim c ! cell_index dim x y z, c') \<and> pc_ok dim c'
        \<and> collect_values dim c' = (collect_values dim c)[cell_index dim x y z := v])"
  using pc_get_spec [OF assms(1-4)] pc_get_at_index_spec [OF assms(1) cell_index_less [OF assms(2-4)]] pc_set_spec [OF assms] by simp

theorem container_refines_list_witness:
  "\<exists>c'. pc_set 4 1 2 3 (9 :: 16 word) (Homogeneous 5) = Some (5, c') \<and> pc_ok 4 c' \<and> pc_get 1 2 3 c' = Some 9"
proof -
  have "pc_ok 4 (Homogeneous (5 :: 16 word))" by simp
  from container_refines_list [OF this, of 1 2 3 9] obtain c' where c': "pc_set 4 1 2 3 9 (Homogeneous (5 :: 16 word)) = Some (5, c')"
    "pc_ok 4 c'" "collect_values 4 c' = (replicate 64 5)[cell_index 4 1 2 3 := 9]" by (auto simp: cell_index_def)
  from container_refines_list [OF c'(2), of 1 2 3] c' show ?thesis by (simp add: cell_index_def)
qed

text \<open>
  Leaving build mode loses nothing: entering and finalizing keep the values, the result is not in
  build mode and has a palette that counts them, so that the palette scan answers the question of
  a full scan and the counts of non-empty blocks agree.
\<close>
theorem building_mode_keeps_values:
  assumes "pc_ok dim c" and "0 < dim" and "c' = finalize_building (enter_building_mode dim c)"
  shows "pc_ok dim c' \<and> collect_values dim c' = collect_values dim c \<and> (\<forall>q. c' \<noteq> Building q)
    \<and> maybe_has p c' = (\<exists>v \<in> set (collect_values dim c). p v)"
proof -
  obtain q where q: "enter_building_mode dim c = Building q" "shaped dim q" "flat q = collect_values dim c"
    using assms(1) by (cases c) (auto simp: shaped_cube_of flat_cube_of iter_values_def)
  have c': "c' = from_cube q" using assms(3) q(1) by simp
  with from_cube_spec [OF q(2)] q(3) have "pc_ok dim c'" "collect_values dim c' = collect_values dim c" by auto
  moreover have "\<forall>q. c' \<noteq> Building q" by (auto simp: c' from_cube_def Let_def)
  ultimately show ?thesis using maybe_has_spec [of dim c' p] assms(2) by simp
qed

theorem building_mode_keeps_values_witness:
  "collect_values 2 (finalize_building (enter_building_mode 2 (Homogeneous (7 :: 16 word)))) = replicate 8 7"
  using building_mode_keeps_values [of 2 "Homogeneous (7 :: 16 word)" _ "\<lambda>_. True"] by simp

text \<open>
  C15. The bytes of a container, for blocks (16 cells a side) and biomes (4): a single value is a zero
  byte and its identifier. Otherwise the bytes are the number of bits an entry has, the palette
  with its length unless the direct form is chosen, and exactly as many big-endian longs as the
  entries need. In the indexed form field \<open>i\<close> of the longs is an index into the palette, and the
  value there is cell \<open>i\<close>; in the direct form it is the identifier of cell \<open>i\<close>, provided that all
  identifiers fit the field, that is are below $2^{15}$ for blocks and $2^6$ for biomes. A container
  in build mode cannot be written.
\<close>
theorem container_bytes_hold_cells:
  assumes "pc_ok dim c" and "dim = 16 \<or> dim = 4" and "n = dim * dim * dim"
  shows "(\<forall>v. c = Homogeneous v \<longrightarrow> pc_write dim c = Some (0 # varint_write (to_global_id v)))
    \<and> (\<forall>d. c = Heterogeneous d \<longrightarrow>
         (\<exists>bits mode longs. calculate_strategy dim (length (palette d)) = Some (bits, mode)
            \<and> pc_write dim c = Some (of_nat bits # palette_bytes mode (palette d) @ concat (map to_be_bytes longs))
            \<and> length longs = (n + 64 div bits - 1) div (64 div bits)
            \<and> (mode = Global \<longrightarrow> (\<forall>v \<in> set (collect_values dim c). unat v < 2 ^ bits) \<longrightarrow>
                 (\<forall>i < n. unat (packed_field bits longs i) = unat (to_global_id (collect_values dim c ! i))))
            \<and> (mode \<noteq> Global \<longrightarrow>
                 (\<forall>i < n. unat (packed_field bits longs i) < length (palette d)
                    \<and> fst (palette d ! unat (packed_field bits longs i)) = collect_values dim c ! i))))
    \<and> (\<forall>q. c = Building q \<longrightarrow> pc_write dim c = None)"
  using heterogeneous_bytes [of dim _] assms by (auto simp: iter_values_def)

theorem container_bytes_hold_cells_witness:
  "\<exists>d longs. pc_set 4 1 0 0 7 (Homogeneous 5) = Some (5, Heterogeneous d)
     \<and> pc_write 4 (Heterogeneous d) = Some (1 # palette_bytes Linear (palette d) @ concat (map to_be_bytes longs))
     \<and> length longs = 1 \<and> fst (palette d ! unat (packed_field 1 longs 1)) = 7"
proof -
  let ?c = "Homogeneous (5 :: 16 word)"
  have "case pc_set 4 1 0 0 7 ?c of Some (u, Heterogeneous d) \<Rightarrow> u = 5 \<and> length (palette d) = 2 | _ \<Rightarrow> False" by code_simp
  then obtain d where d: "pc_set 4 1 0 0 7 ?c = Some (5, Heterogeneous d)" "length (palette d) = 2"
    by (auto split: option.splits prod.splits paletted_container.splits)
  from pc_set_spec [of 4 ?c 1 0 0 7] d(1) have ok: "pc_ok 4 (Heterogeneous d)"
    and cells: "collect_values 4 (Heterogeneous d) = (replicate 64 5)[1 := 7]" by (auto simp: cell_index_def)
  have st: "calculate_strategy 4 (length (palette d)) = Some (1, Linear)" by (simp add: calculate_strategy_def d(2))
  have "(4 :: nat) = 16 \<or> (4 :: nat) = 4" "64 = 4 * 4 * (4 :: nat)" by simp_all
  from container_bytes_hold_cells [OF ok this, THEN conjunct2, THEN conjunct1, rule_format, OF refl] obtain longs where
    longs: "pc_write 4 (Heterogeneous d) = Some (of_nat 1 # palette_bytes Linear (palette d) @ concat (map to_be_bytes longs))"
      "length longs = 1" "fst (palette d ! unat (packed_field 1 longs 1)) = collect_values 4 (Heterogeneous d) ! 1"
    unfolding st by (auto simp del: pc_write.simps collect_values.simps)
  then show ?thesis using d(1) unfolding cells by (intro exI [of _ d] exI [of _ longs]) simp
qed

text \<open>
  The direct form of biomes is ambiguous. Its entries are six bits wide, and an identifier of 64
  or more, which a registry with more than 64 biomes has, runs over into the next field of its
  long, where it is mixed into that entry: two containers whose cells differ in this way, both with more than eight biomes, have the
  same bytes.
\<close>
theorem direct_biomes_are_ambiguous:
  assumes "pc_ok 4 (Heterogeneous d)" and "pc_ok 4 (Heterogeneous e)"
    and "8 < length (palette d)" and "8 < length (palette e)" and "Suc i < 64" and "i mod 10 < 9"
    and "flat (cube e) = (flat (cube d))[i := take_bit 6 (flat (cube d) ! i), Suc i := drop_bit 6 (flat (cube d) ! i) OR flat (cube d) ! Suc i]"
  shows "pc_write 4 (Heterogeneous d) = pc_write 4 (Heterogeneous e)
    \<and> (64 \<le> unat (flat (cube d) ! i) \<longrightarrow> collect_values 4 (Heterogeneous d) \<noteq> collect_values 4 (Heterogeneous e))"
proof
  let ?xs = "flat (cube d)"
  have len: "length ?xs = 64" using assms(1) flat_spec(1) [of 4 "cube d"] by simp
  have st: "calculate_strategy 4 n = Some (6, Global)" if "8 < n" for n using that by (simp add: calculate_strategy_def)
  have gl: "to_global_id (take_bit 6 a) = take_bit 6 (to_global_id a)" "to_global_id (drop_bit 6 a OR b) = drop_bit 6 (to_global_id a) OR to_global_id b" for a b
    by (auto simp: to_global_id_def bit_eq_iff bit_ucast_iff bit_take_bit_iff bit_or_iff bit_drop_bit_eq dest: bit_imp_le_length)
  have "pack_bits (map to_global_id (flat (cube e))) 6 = pack_bits (map to_global_id ?xs) 6"
    using wide_entry_spills [of i "map to_global_id ?xs" 6] assms(5,6) len by (simp add: assms(7) map_update gl)
  then show "pc_write 4 (Heterogeneous d) = pc_write 4 (Heterogeneous e)"
    using st [OF assms(3)] st [OF assms(4)] those_map_Some [of to_global_id ?xs] those_map_Some [of to_global_id "flat (cube e)"]
    by simp
  show "64 \<le> unat (?xs ! i) \<longrightarrow> collect_values 4 (Heterogeneous d) \<noteq> collect_values 4 (Heterogeneous e)"
  proof
    assume big: "64 \<le> unat (?xs ! i)"
    have "unat (take_bit 6 (?xs ! i)) < 64" by (simp add: unsigned_take_bit_eq take_bit_nat_less_exp [of 6, simplified])
    then have "flat (cube e) ! i \<noteq> ?xs ! i" using big len assms(5) by (auto simp: assms(7))
    then show "collect_values 4 (Heterogeneous d) \<noteq> collect_values 4 (Heterogeneous e)" by (auto simp: iter_values_def)
  qed
qed

theorem direct_biomes_are_ambiguous_witness:
  "\<exists>c e. c = from_cube [[[64, 0, 1, 2], [3, 4, 5, 6], [7, 8, 0, 0], [0, 0, 0, 0]], replicate 4 (replicate 4 0), replicate 4 (replicate 4 0), replicate 4 (replicate 4 0)]
     \<and> e = from_cube [[[0, 1, 1, 2], [3, 4, 5, 6], [7, 8, 0, 0], [0, 0, 0, 0]], replicate 4 (replicate 4 0), replicate 4 (replicate 4 0), replicate 4 (replicate 4 0)]
     \<and> pc_write 4 c = pc_write 4 e \<and> collect_values 4 c \<noteq> collect_values 4 e"
proof -
  let ?z = "replicate 4 (replicate 4 0) :: 16 word list list"
  let ?p = "[[[64, 0, 1, 2], [3, 4, 5, 6], [7, 8, 0, 0], [0, 0, 0, 0]], ?z, ?z, ?z] :: 16 word cube"
  let ?q = "[[[0, 1, 1, 2], [3, 4, 5, 6], [7, 8, 0, 0], [0, 0, 0, 0]], ?z, ?z, ?z] :: 16 word cube"
  have ok: "pc_ok 4 (from_cube ?p)" "pc_ok 4 (from_cube ?q)" using from_cube_spec [of 4 ?p] from_cube_spec [of 4 ?q] by (simp_all add: shaped_def)
  have "case from_cube ?p of Heterogeneous d \<Rightarrow> 8 < length (palette d) \<and> flat (cube d) = flat ?p | _ \<Rightarrow> False"
    "case from_cube ?q of Heterogeneous d \<Rightarrow> 8 < length (palette d) \<and> flat (cube d) = flat ?q | _ \<Rightarrow> False" by code_simp+
  then obtain d e where d: "from_cube ?p = Heterogeneous d" "8 < length (palette d)" "flat (cube d) = flat ?p"
    and e: "from_cube ?q = Heterogeneous e" "8 < length (palette e)" "flat (cube e) = flat ?q"
    by (auto split: paletted_container.splits)
  have "flat ?q = (flat ?p)[0 := take_bit 6 (flat ?p ! 0), Suc 0 := drop_bit 6 (flat ?p ! 0) OR flat ?p ! Suc 0]" "64 \<le> unat (flat ?p ! 0)"
    by code_simp+
  then show ?thesis
    using direct_biomes_are_ambiguous [of d e 0] ok d e by simp
qed

end
