(* ===== verification/Chunk_Section.thy ===== *)
theory Chunk_Section
  imports Paletted_Container Positions
begin

text \<open>
  Chunk sections (\<open>steel-core/src/chunk/section.rs\<close>): a cube of block states and one of biomes with
  cached counters, the sections of a chunk, and the index of the sections that tick randomly,
  which mirrors the counters. What the registry says of a block state, whether it is air, holds
  fluid, ticks or emits light, is a parameter. A write lock is held from its acquisition to the
  end of the operation on the section, so the operation is one step, followed by the update of
  the index that the guard makes when dropped. A panic is \<open>None\<close>.
\<close>

section \<open>The index of randomly ticking sections\<close>

record random_tick_section_bits =
  rt_words :: "64 word list"
  section_count :: nat

definition rtb_new :: "nat \<Rightarrow> random_tick_section_bits" where
  "rtb_new n = \<lparr>rt_words = replicate ((n + 63) div 64) 0, section_count = n\<rparr>"

definition rtb_set :: "nat \<Rightarrow> bool \<Rightarrow> random_tick_section_bits \<Rightarrow> random_tick_section_bits option" where
  "rtb_set section_index randomly_ticking b =
     (let word_index = section_index div 64; m = push_bit (section_index mod 64) 1
      in if word_index < length (rt_words b)
         then Some (b\<lparr>rt_words := (rt_words b)[word_index :=
                if randomly_ticking then rt_words b ! word_index OR m else rt_words b ! word_index AND NOT m]\<rparr>)
         else None)"

definition rtb_contains :: "nat \<Rightarrow> random_tick_section_bits \<Rightarrow> bool option" where
  "rtb_contains section_index b =
     (let word_index = section_index div 64; m = push_bit (section_index mod 64) 1
      in if word_index < length (rt_words b) then Some (rt_words b ! word_index AND m \<noteq> 0) else None)"

definition trailing_zeros :: "64 word \<Rightarrow> nat" where
  "trailing_zeros w = length (takeWhile (\<lambda>i. \<not> bit w i) [0..<64])"

fun next_word :: "nat \<Rightarrow> 64 word \<Rightarrow> 64 word list \<Rightarrow> nat option" where
  "next_word word_index bits ws =
     (if bits \<noteq> 0 then Some (word_index * 64 + trailing_zeros bits)
      else case ws of [] \<Rightarrow> None | w # ws' \<Rightarrow> next_word (word_index + 1) w ws')"

text \<open>The outer option is the panic of the first word access, the inner one the result.\<close>

definition rtb_next :: "nat \<Rightarrow> random_tick_section_bits \<Rightarrow> nat option option" where
  "rtb_next start b =
     (if section_count b \<le> start then Some None
      else
        (let word_index = start div 64; bit_index = start mod 64
         in if word_index < length (rt_words b) then
              Some (case next_word word_index (rt_words b ! word_index AND push_bit bit_index (- 1)) (drop (word_index + 1) (rt_words b)) of
                      None \<Rightarrow> None
                    | Some i \<Rightarrow> if i < section_count b then Some i else None)
            else None))"

definition rtb_is_empty :: "random_tick_section_bits \<Rightarrow> bool option" where
  "rtb_is_empty b = map_option (\<lambda>r. r = None) (rtb_next 0 b)"

section \<open>One section\<close>

record block_state_section_counts =
  bc_is_air :: bool
  bc_has_fluid :: bool
  bc_ticking_block :: bool
  bc_ticking_fluid :: bool

definition BLOCKS_PER_SECTION :: "16 word" where
  "BLOCKS_PER_SECTION = 16 * 16 * 16"

record chunk_section =
  states :: "16 word paletted_container"
  biomes :: "16 word paletted_container"
  non_empty_count :: "16 word"
  fluid_count :: "16 word"
  ticking_block_count :: "16 word"
  ticking_fluid_count :: "16 word"

definition new_with_biomes :: "16 word paletted_container \<Rightarrow> 16 word paletted_container \<Rightarrow> chunk_section" where
  "new_with_biomes st bi =
     \<lparr>states = st, biomes = bi, non_empty_count = 0, fluid_count = 0, ticking_block_count = 0, ticking_fluid_count = 0\<rparr>"

definition new_empty :: "16 word \<Rightarrow> chunk_section" where
  "new_empty plains_id =
     \<lparr>states = Homogeneous 0, biomes = Homogeneous plains_id, non_empty_count = 0, fluid_count = 0,
      ticking_block_count = 0, ticking_fluid_count = 0\<rparr>"

definition section_is_empty :: "chunk_section \<Rightarrow> bool" where
  "section_is_empty s \<longleftrightarrow> non_empty_count s = 0"

definition is_randomly_ticking :: "chunk_section \<Rightarrow> bool" where
  "is_randomly_ticking s \<longleftrightarrow> 0 < ticking_block_count s \<or> 0 < ticking_fluid_count s"

definition section_has_fluid :: "chunk_section \<Rightarrow> bool" where
  "section_has_fluid s \<longleftrightarrow> 0 < fluid_count s"

definition accumulate_counter_traits ::
  "block_state_section_counts \<Rightarrow> 16 word \<Rightarrow> 16 word \<times> 16 word \<times> 16 word \<times> 16 word \<Rightarrow> 16 word \<times> 16 word \<times> 16 word \<times> 16 word" where
  "accumulate_counter_traits counts block_count acc =
     (case acc of (non_empty, fluid, ticking_blocks, ticking_fluids) \<Rightarrow>
        (if \<not> bc_is_air counts then non_empty + block_count else non_empty,
         if bc_has_fluid counts then fluid + block_count else fluid,
         if bc_ticking_block counts then ticking_blocks + block_count else ticking_blocks,
         if bc_ticking_fluid counts then ticking_fluids + block_count else ticking_fluids))"

definition recalculate_counts :: "(16 word \<Rightarrow> block_state_section_counts) \<Rightarrow> chunk_section \<Rightarrow> chunk_section option" where
  "recalculate_counts counts_for_state s =
     (let st = finalize_building (states s)
      in case (case st of
                 Homogeneous v \<Rightarrow> Some (accumulate_counter_traits (counts_for_state v) BLOCKS_PER_SECTION (0, 0, 0, 0))
               | Heterogeneous d \<Rightarrow>
                   Some (fold (\<lambda>(v, n). accumulate_counter_traits (counts_for_state v) n) (palette d) (0, 0, 0, 0))
               | Building _ \<Rightarrow> None) of
           None \<Rightarrow> None
         | Some (non_empty, fluid, ticking_blocks, ticking_fluids) \<Rightarrow>
             Some (s\<lparr>states := st, non_empty_count := non_empty, fluid_count := fluid,
                     ticking_block_count := ticking_blocks, ticking_fluid_count := ticking_fluids\<rparr>))"

definition contains_poi :: "(16 word \<Rightarrow> bool) \<Rightarrow> chunk_section \<Rightarrow> bool" where
  "contains_poi is_poi_state s =
     (case states s of
        Homogeneous v \<Rightarrow> is_poi_state v
      | Heterogeneous d \<Rightarrow> list_ex (\<lambda>e. is_poi_state (fst e)) (palette d)
      | Building _ \<Rightarrow> True)"

definition ensure_counter_ready_for_delta :: "(16 word \<Rightarrow> block_state_section_counts) \<Rightarrow> chunk_section \<Rightarrow> chunk_section option" where
  "ensure_counter_ready_for_delta counts_for_state s =
     (case states s of Building _ \<Rightarrow> recalculate_counts counts_for_state s | _ \<Rightarrow> Some s)"

definition finalize_generation_counts_if_needed :: "(16 word \<Rightarrow> block_state_section_counts) \<Rightarrow> chunk_section \<Rightarrow> chunk_section option" where
  "finalize_generation_counts_if_needed counts_for_state s =
     (case states s of Building _ \<Rightarrow> recalculate_counts counts_for_state s | _ \<Rightarrow> Some s)"

definition count_change :: "bool \<Rightarrow> bool \<Rightarrow> 16 word \<Rightarrow> 16 word" where
  "count_change was is n = (if was \<and> \<not> is then n - 1 else if \<not> was \<and> is then n + 1 else n)"

definition apply_count_change :: "block_state_section_counts \<Rightarrow> block_state_section_counts \<Rightarrow> chunk_section \<Rightarrow> chunk_section" where
  "apply_count_change old new s =
     s\<lparr>non_empty_count := count_change (\<not> bc_is_air old) (\<not> bc_is_air new) (non_empty_count s),
       fluid_count := count_change (bc_has_fluid old) (bc_has_fluid new) (fluid_count s),
       ticking_block_count := count_change (bc_ticking_block old) (bc_ticking_block new) (ticking_block_count s),
       ticking_fluid_count := count_change (bc_ticking_fluid old) (bc_ticking_fluid new) (ticking_fluid_count s)\<rparr>"

definition set_block_state ::
  "(16 word \<Rightarrow> block_state_section_counts) \<Rightarrow> nat \<Rightarrow> nat \<Rightarrow> nat \<Rightarrow> 16 word \<Rightarrow> chunk_section \<Rightarrow> (16 word \<times> chunk_section) option" where
  "set_block_state counts_for_state x y z new_state s =
     (case ensure_counter_ready_for_delta counts_for_state s of
        None \<Rightarrow> None
      | Some s1 \<Rightarrow>
          (case pc_set 16 x y z new_state (states s1) of
             None \<Rightarrow> None
           | Some (old_state, st) \<Rightarrow>
               (let s2 = s1\<lparr>states := st\<rparr>
                in Some (old_state,
                     if old_state \<noteq> new_state
                     then apply_count_change (counts_for_state old_state) (counts_for_state new_state) s2 else s2))))"

definition set_block_state_for_generation ::
  "nat \<Rightarrow> nat \<Rightarrow> nat \<Rightarrow> 16 word \<Rightarrow> chunk_section \<Rightarrow> (16 word \<times> chunk_section) option" where
  "set_block_state_for_generation x y z new_state s =
     (case pc_set 16 x y z new_state (enter_building_mode 16 (states s)) of
        None \<Rightarrow> None
      | Some (old_state, st) \<Rightarrow> Some (old_state, s\<lparr>states := st\<rparr>))"

definition maybe_has_block_light_sources :: "(16 word \<Rightarrow> nat) \<Rightarrow> chunk_section \<Rightarrow> bool" where
  "maybe_has_block_light_sources emission s \<longleftrightarrow>
     \<not> section_is_empty s \<and> maybe_has (\<lambda>v. 0 < emission v) (states s)"

definition append_block_light_sources ::
  "(16 word \<Rightarrow> nat) \<Rightarrow> int \<Rightarrow> int \<Rightarrow> int \<Rightarrow> chunk_section \<Rightarrow> block_pos list \<Rightarrow> block_pos list option" where
  "append_block_light_sources emission chunk_min_x section_min_y chunk_min_z s sources =
     (if \<not> maybe_has_block_light_sources emission s then Some sources
      else map_option (\<lambda>cells. sources @ concat cells)
        (those (map (\<lambda>local_index.
           map_option (\<lambda>v. if emission v = 0 then []
                            else [BlockPos (wrap_i32 (chunk_min_x + int (local_index mod 16)))
                                           (wrap_i32 (section_min_y + int (local_index div 256)))
                                           (wrap_i32 (chunk_min_z + int (local_index div 16 mod 16)))])
             (pc_get_at_index 16 local_index (states s))) [0..<4096])))"

definition section_write :: "chunk_section \<Rightarrow> byte list option" where
  "section_write s =
     (case (pc_write 16 (states s), pc_write 4 (biomes s)) of
        (Some a, Some b) \<Rightarrow> Some (to_be_bytes (non_empty_count s) @ to_be_bytes (fluid_count s) @ a @ b)
      | _ \<Rightarrow> None)"

section \<open>The sections of a chunk\<close>

record chunk_sections =
  holders :: "chunk_section list"
  tick_bits :: random_tick_section_bits

fun fill_bits :: "nat \<Rightarrow> chunk_section list \<Rightarrow> random_tick_section_bits \<Rightarrow> random_tick_section_bits option" where
  "fill_bits i [] b = Some b"
| "fill_bits i (s # ss) b =
     (case (if is_randomly_ticking s then rtb_set i True b else Some b) of
        None \<Rightarrow> None
      | Some b' \<Rightarrow> fill_bits (i + 1) ss b')"

definition from_owned :: "chunk_section list \<Rightarrow> chunk_sections option" where
  "from_owned ss = map_option (\<lambda>b. \<lparr>holders = ss, tick_bits = b\<rparr>) (fill_bits 0 ss (rtb_new (length ss)))"

text \<open>An operation under the write guard of a section, and what the guard does when dropped.\<close>

definition with_write :: "nat \<Rightarrow> (chunk_section \<Rightarrow> ('r \<times> chunk_section) option) \<Rightarrow> chunk_sections \<Rightarrow> ('r \<times> chunk_sections) option" where
  "with_write i f ss =
     (if i < length (holders ss) then
        (case f (holders ss ! i) of
           None \<Rightarrow> None
         | Some (r, s') \<Rightarrow>
             (case (if is_randomly_ticking s' \<noteq> is_randomly_ticking (holders ss ! i)
                    then rtb_set i (is_randomly_ticking s') (tick_bits ss) else Some (tick_bits ss)) of
                None \<Rightarrow> None
              | Some b \<Rightarrow> Some (r, \<lparr>holders = (holders ss)[i := s'], tick_bits = b\<rparr>)))
      else None)"

definition get_relative_block :: "nat \<Rightarrow> nat \<Rightarrow> nat \<Rightarrow> chunk_sections \<Rightarrow> 16 word option option" where
  "get_relative_block x y z ss =
     (if y div 16 < length (holders ss)
      then map_option Some (pc_get x (y mod 16) z (states (holders ss ! (y div 16)))) else Some None)"

definition read_column_into :: "nat \<Rightarrow> nat \<Rightarrow> chunk_sections \<Rightarrow> 16 word list option" where
  "read_column_into x z ss =
     map_option concat (those (map (\<lambda>s. copy_column_into 16 x z (states s) (replicate 16 0)) (holders ss)))"

definition section_emptiness_map :: "chunk_sections \<Rightarrow> bool list" where
  "section_emptiness_map ss = map section_is_empty (holders ss)"

definition read_all_biomes :: "chunk_sections \<Rightarrow> 16 word list option" where
  "read_all_biomes ss =
     map_option concat (those (map (\<lambda>s. those (map (\<lambda>(qy, qz, qx). pc_get qx qy qz (biomes s))
       [(qy, qz, qx). qy \<leftarrow> [0..<4], qz \<leftarrow> [0..<4], qx \<leftarrow> [0..<4]])) (holders ss)))"

fun light_sources_from :: "(16 word \<Rightarrow> nat) \<Rightarrow> int \<Rightarrow> int \<Rightarrow> int \<Rightarrow> nat \<Rightarrow> chunk_section list \<Rightarrow> block_pos list \<Rightarrow> block_pos list option" where
  "light_sources_from emission cx my cz i [] sources = Some sources"
| "light_sources_from emission cx my cz i (s # ss) sources =
     (case append_block_light_sources emission cx (wrap_i32 (my + wrap_i32 (int (i * 16)))) cz s sources of
        None \<Rightarrow> None
      | Some sources' \<Rightarrow> light_sources_from emission cx my cz (i + 1) ss sources')"

definition block_light_sources :: "(16 word \<Rightarrow> nat) \<Rightarrow> chunk_pos \<Rightarrow> int \<Rightarrow> chunk_sections \<Rightarrow> block_pos list option" where
  "block_light_sources emission p min_y ss =
     (case p of ChunkPos px pz \<Rightarrow>
        light_sources_from emission (wrap_i32 (px * 16)) min_y (wrap_i32 (pz * 16)) 0 (holders ss) [])"

definition set_relative_block ::
  "(16 word \<Rightarrow> block_state_section_counts) \<Rightarrow> nat \<Rightarrow> nat \<Rightarrow> nat \<Rightarrow> 16 word \<Rightarrow> chunk_sections \<Rightarrow> chunk_sections option" where
  "set_relative_block counts_for_state x y z v ss =
     map_option snd (with_write (y div 16) (set_block_state counts_for_state x (y mod 16) z v) ss)"

definition set_relative_block_for_generation :: "nat \<Rightarrow> nat \<Rightarrow> nat \<Rightarrow> 16 word \<Rightarrow> chunk_sections \<Rightarrow> chunk_sections option" where
  "set_relative_block_for_generation x y z v ss =
     map_option snd (with_write (y div 16) (set_block_state_for_generation x (y mod 16) z v) ss)"

section \<open>Batches of writes\<close>

text \<open>A store through the flat view of a cube in build mode.\<close>

fun building_store :: "nat \<Rightarrow> nat \<Rightarrow> 'v \<Rightarrow> 'v paletted_container \<Rightarrow> 'v paletted_container option" where
  "building_store dim i v (Building c) =
     (if i < dim * dim * dim
      then Some (Building (cube_put (i div (dim * dim)) (i div dim mod dim) (i mod dim) v c)) else None)"
| "building_store dim i v _ = None"

type_synonym block_entry = "nat \<times> nat \<times> nat \<times> 16 word"

definition entry_section :: "block_entry \<Rightarrow> nat" where
  "entry_section e = (case e of (x, y, z, v) \<Rightarrow> y div 16)"

fun store_all :: "block_entry list \<Rightarrow> 16 word paletted_container \<Rightarrow> 16 word paletted_container option" where
  "store_all [] c = Some c"
| "store_all ((x, y, z, v) # es) c =
     (case building_store 16 ((y mod 16) * 16 * 16 + z * 16 + x) v c of None \<Rightarrow> None | Some c' \<Rightarrow> store_all es c')"

fun set_all :: "(16 word \<Rightarrow> block_state_section_counts) \<Rightarrow> block_entry list \<Rightarrow> chunk_section \<Rightarrow> chunk_section option" where
  "set_all counts_for_state [] s = Some s"
| "set_all counts_for_state ((x, y, z, v) # es) s =
     (case set_block_state counts_for_state x (y mod 16) z v s of None \<Rightarrow> None | Some (_, s') \<Rightarrow> set_all counts_for_state es s')"

text \<open>The outer loop of a batch: one write guard for each run of entries in the same section.\<close>

function by_section :: "(block_entry list \<Rightarrow> chunk_section \<Rightarrow> chunk_section option) \<Rightarrow> block_entry list \<Rightarrow> chunk_sections \<Rightarrow> chunk_sections option" where
  "by_section f [] ss = Some ss"
| "by_section f (e # es) ss =
     (let i = entry_section e;
          run = takeWhile (\<lambda>e'. entry_section e' = i) es;
          rest = dropWhile (\<lambda>e'. entry_section e' = i) es
      in case with_write i (\<lambda>s. map_option (Pair ()) (f (e # run) s)) ss of
           None \<Rightarrow> None
         | Some (_, ss') \<Rightarrow> by_section f rest ss')"
  by pat_completeness auto
termination
  by (relation "measure (\<lambda>(f, es, ss). length es)") (auto simp: le_imp_less_Suc length_dropWhile_le)

definition write_tracked_block_batch ::
  "(16 word \<Rightarrow> block_state_section_counts) \<Rightarrow> block_entry list \<Rightarrow> chunk_sections \<Rightarrow> chunk_sections option" where
  "write_tracked_block_batch counts_for_state = by_section (set_all counts_for_state)"

definition store_run :: "block_entry list \<Rightarrow> chunk_section \<Rightarrow> chunk_section option" where
  "store_run es s = map_option (\<lambda>c. s\<lparr>states := c\<rparr>) (store_all es (enter_building_mode 16 (states s)))"

definition write_block_batch :: "block_entry list \<Rightarrow> chunk_sections \<Rightarrow> chunk_sections option" where
  "write_block_batch = by_section store_run"

definition write_column_blocks :: "nat \<Rightarrow> nat \<Rightarrow> (nat \<times> 16 word) list \<Rightarrow> chunk_sections \<Rightarrow> chunk_sections option" where
  "write_column_blocks x z blocks = by_section store_run (map (\<lambda>(y, v). (x, y, z, v)) blocks)"

section \<open>The index as a list of flags\<close>

declare next_word.simps [simp del]

definition rtb_mirrors :: "random_tick_section_bits \<Rightarrow> bool list \<Rightarrow> bool" where
  "rtb_mirrors b ts \<longleftrightarrow> section_count b = length ts \<and> length (rt_words b) = (length ts + 63) div 64 \<and>
     (\<forall>k < length (rt_words b). \<forall>j < 64. bit (rt_words b ! k) j \<longleftrightarrow> k * 64 + j < length ts \<and> ts ! (k * 64 + j))"

lemma word_of_section: "i < n \<Longrightarrow> i div 64 < (n + 63) div (64 :: nat)"
  by linarith

lemma rtb_mirrors_unique:
  assumes "rtb_mirrors b ts" and "rtb_mirrors c ts"
  shows "b = c"
proof -
  have "rt_words b = rt_words c"
  proof (rule nth_equalityI)
    show "length (rt_words b) = length (rt_words c)" using assms by (simp add: rtb_mirrors_def)
    fix k assume "k < length (rt_words b)"
    then show "rt_words b ! k = rt_words c ! k"
      using assms by (intro bit_word_eqI) (simp add: rtb_mirrors_def)
  qed
  then show ?thesis using assms by (simp add: rtb_mirrors_def)
qed

lemma rtb_new_mirrors: "rtb_mirrors (rtb_new n) (replicate n False)"
  by (simp add: rtb_mirrors_def rtb_new_def)

lemma rtb_contains_spec:
  assumes "rtb_mirrors b ts" and "i < length ts"
  shows "rtb_contains i b = Some (ts ! i)"
proof -
  have "(rt_words b ! (i div 64) AND push_bit (i mod 64) 1 \<noteq> 0) \<longleftrightarrow> bit (rt_words b ! (i div 64)) (i mod 64)"
    by (simp add: bit_iff_and_push_bit_not_eq_0)
  moreover have "i div 64 * 64 + i mod 64 = i" by simp
  ultimately show ?thesis
    using assms word_of_section [OF assms(2)] by (auto simp: rtb_contains_def rtb_mirrors_def Let_def)
qed

lemma rtb_set_spec:
  assumes "rtb_mirrors b ts" and "i < length ts"
  shows "\<exists>b'. rtb_set i v b = Some b' \<and> rtb_mirrors b' (ts[i := v])"
proof -
  let ?k = "i div 64" and ?j = "i mod 64" and ?m = "push_bit (i mod 64) 1 :: 64 word"
  have k: "?k < length (rt_words b)" using assms word_of_section [OF assms(2)] by (simp add: rtb_mirrors_def)
  let ?w = "if v then rt_words b ! ?k OR ?m else rt_words b ! ?k AND NOT ?m"
  have w: "bit ?w j \<longleftrightarrow> (if j = ?j then v else bit (rt_words b ! ?k) j)" if "j < 64" for j
    using that by (auto simp: bit_or_iff bit_and_iff bit_not_iff bit_exp_iff)
  have old: "bit (rt_words b ! k') j \<longleftrightarrow> k' * 64 + j < length ts \<and> ts ! (k' * 64 + j)" if "k' < length (rt_words b)" "j < 64" for k' j
    using assms(1) that by (simp add: rtb_mirrors_def)
  have pos: "k' * 64 + j = i \<longleftrightarrow> k' = ?k \<and> j = ?j" if "j < 64" for k' j using that by auto
  have "bit ((rt_words b)[?k := ?w] ! k') j \<longleftrightarrow> k' * 64 + j < length ts \<and> ts[i := v] ! (k' * 64 + j)"
    if k': "k' < length (rt_words b)" and j: "j < 64" for k' j
  proof (cases "k' * 64 + j = i")
    case True
    then have "k' = ?k" "j = ?j" using pos [OF j] by auto
    then show ?thesis using w [OF j] k assms(2) True by simp
  next
    case False
    then have "bit ((rt_words b)[?k := ?w] ! k') j \<longleftrightarrow> bit (rt_words b ! k') j"
      using w [OF j] pos [OF j, of k'] k by (cases "k' = ?k") auto
    then show ?thesis using old [OF k' j] False by simp
  qed
  then have "rtb_mirrors (b\<lparr>rt_words := (rt_words b)[?k := ?w]\<rparr>) (ts[i := v])"
    using assms(1) by (simp add: rtb_mirrors_def)
  then show ?thesis using k by (auto simp: rtb_set_def Let_def)
qed

lemma trailing_zeros_spec:
  assumes "w \<noteq> 0"
  shows "trailing_zeros w < 64 \<and> bit w (trailing_zeros w) \<and> (\<forall>j < trailing_zeros w. \<not> bit w j)"
proof -
  let ?t = "takeWhile (\<lambda>i. \<not> bit w i) [0..<64]"
  obtain n where n: "bit w n" using assms by (metis bit_eq_iff bit_0_eq bot_apply bot_bool_def)
  then have "n < 64" using bit_imp_le_length [of w n] by simp
  have "length ?t \<noteq> 64"
  proof
    assume "length ?t = 64"
    then have "?t = [0..<64]" using takeWhile_eq_take [of "\<lambda>i. \<not> bit w i" "[0..<64]"] by simp
    moreover have "n \<in> set [0..<64]" using \<open>n < 64\<close> by simp
    ultimately have "n \<in> set ?t" by metis
    then show False using n by (auto dest: set_takeWhileD)
  qed
  then have l: "length ?t < 64" using length_takeWhile_le [of "\<lambda>i. \<not> bit w i" "[0..<64]"] by simp
  from nth_length_takeWhile [of "\<lambda>i. \<not> bit w i" "[0..<64]"] l have "bit w (length ?t)" by simp
  moreover have "\<not> bit w j" if "j < length ?t" for j
  proof -
    have "?t ! j = [0..<64] ! j" by (rule takeWhile_nth [OF that])
    then have "j \<in> set ?t" using that l by (metis add_0 nth_mem nth_upt order.strict_trans)
    then show ?thesis by (auto dest: set_takeWhileD)
  qed
  ultimately show ?thesis using l by (simp add: trailing_zeros_def)
qed

text \<open>The bits from a word on: those of \<open>w\<close> first, then those of the words that follow.\<close>

definition bit_from :: "nat \<Rightarrow> 64 word \<Rightarrow> 64 word list \<Rightarrow> nat \<Rightarrow> bool" where
  "bit_from k w ws i \<longleftrightarrow> k \<le> i div 64 \<and> i div 64 - k < Suc (length ws) \<and> bit ((w # ws) ! (i div 64 - k)) (i mod 64)"

lemma bit_from_Cons: "bit_from k 0 (w # ws) i \<longleftrightarrow> bit_from (Suc k) w ws i"
proof -
  consider "i div 64 < k" | "i div 64 = k" | n where "i div 64 = Suc (k + n)"
    by (metis less_imp_Suc_add linorder_neqE_nat)
  then show ?thesis by cases (auto simp: bit_from_def)
qed

lemma first_bit:
  assumes "w \<noteq> 0"
  shows "bit_from k w ws (k * 64 + trailing_zeros w) \<and> (\<forall>j < k * 64 + trailing_zeros w. \<not> bit_from k w ws j)"
proof -
  note t = trailing_zeros_spec [OF assms]
  have "\<not> bit_from k w ws j" if j: "j < k * 64 + trailing_zeros w" for j
  proof
    assume b: "bit_from k w ws j"
    then have "k \<le> j div 64" by (simp add: bit_from_def)
    moreover have "j div 64 \<le> k" using j t by linarith
    ultimately have d: "j div 64 = k" by simp
    then have "j mod 64 < trailing_zeros w" using j by (metis add_less_cancel_left div_mult_mod_eq)
    then show False using b t d by (simp add: bit_from_def)
  qed
  moreover have "(k * 64 + trailing_zeros w) div 64 = k" "(k * 64 + trailing_zeros w) mod 64 = trailing_zeros w" using t by simp_all
  ultimately show ?thesis using t unfolding bit_from_def [of k w ws "k * 64 + trailing_zeros w"] by simp
qed

lemma next_word_spec:
  "case next_word k w ws of
     None \<Rightarrow> \<forall>i. \<not> bit_from k w ws i
   | Some i \<Rightarrow> bit_from k w ws i \<and> (\<forall>j < i. \<not> bit_from k w ws j)"
proof (induction ws arbitrary: k w)
  case Nil
  then show ?case
    using first_bit [of w k "[]"] by (auto simp: next_word.simps bit_from_def)
next
  case (Cons v ws)
  show ?case
  proof (cases "w = 0")
    case True
    then have "next_word k w (v # ws) = next_word (Suc k) v ws" by (simp add: next_word.simps [of k])
    then show ?thesis using Cons.IH [of "Suc k" v] True by (simp only: bit_from_Cons)
  next
    case False
    then show ?thesis using first_bit [of w k "v # ws"] by (simp add: next_word.simps [of k])
  qed
qed

lemma bits_from_start:
  assumes "rtb_mirrors b ts" and "start < length ts"
  defines "k \<equiv> start div 64"
  shows "bit_from k (rt_words b ! k AND push_bit (start mod 64) (- 1)) (drop (k + 1) (rt_words b)) i \<longleftrightarrow> start \<le> i \<and> i < length ts \<and> ts ! i"
proof -
  let ?ws = "rt_words b" and ?w = "rt_words b ! k AND push_bit (start mod 64) (- 1)"
  have k: "k < length ?ws" using assms(1) word_of_section [OF assms(2)] by (simp add: rtb_mirrors_def k_def)
  have at: "i div 64 < length ?ws \<Longrightarrow> bit (?ws ! (i div 64)) (i mod 64) \<longleftrightarrow> i < length ts \<and> ts ! i"
    using assms(1) by (simp add: rtb_mirrors_def)
  consider (less) "i div 64 < k" | (same) "i div 64 = k" | (more) n where "i div 64 = Suc (k + n)"
    by (metis less_imp_Suc_add linorder_neqE_nat)
  then show ?thesis
  proof cases
    case less
    moreover have "\<not> start \<le> i" using less by (metis div_le_mono k_def not_less)
    ultimately show ?thesis by (simp add: bit_from_def)
  next
    case same
    have "bit ?w (i mod 64) \<longleftrightarrow> bit (?ws ! k) (i mod 64) \<and> start mod 64 \<le> i mod 64"
      by (auto simp: bit_and_iff bit_not_iff bit_mask_iff)
    moreover have "start mod 64 \<le> i mod 64 \<longleftrightarrow> start \<le> i"
      using same by (metis add_le_cancel_left div_mult_mod_eq k_def)
    ultimately show ?thesis using same at k by (auto simp: bit_from_def)
  next
    case more
    have "start \<le> i" using more unfolding k_def by linarith
    moreover have "bit_from k ?w (drop (k + 1) ?ws) i \<longleftrightarrow> i div 64 < length ?ws \<and> bit (?ws ! (i div 64)) (i mod 64)"
      using more k by (auto simp: bit_from_def)
    moreover have "i div 64 < length ?ws" if "i < length ts" using assms(1) word_of_section [OF that] by (simp add: rtb_mirrors_def)
    ultimately show ?thesis using at by blast
  qed
qed

lemma rtb_next_spec:
  assumes "rtb_mirrors b ts"
  shows "rtb_next start b = Some (find (\<lambda>i. ts ! i) [start..<length ts])"
proof (cases "start < length ts")
  case False
  then show ?thesis using assms by (simp add: rtb_next_def rtb_mirrors_def)
next
  case True
  let ?k = "start div 64" and ?ws = "rt_words b"
  let ?r = "next_word ?k (?ws ! ?k AND push_bit (start mod 64) (- 1)) (drop (?k + 1) ?ws)"
  have k: "?k < length ?ws" using assms word_of_section [OF True] by (simp add: rtb_mirrors_def)
  have spec: "case ?r of
      None \<Rightarrow> \<forall>i. \<not> (start \<le> i \<and> i < length ts \<and> ts ! i)
    | Some i \<Rightarrow> (start \<le> i \<and> i < length ts \<and> ts ! i) \<and> (\<forall>j < i. \<not> (start \<le> j \<and> j < length ts \<and> ts ! j))"
    using next_word_spec [of ?k "?ws ! ?k AND push_bit (start mod 64) (- 1)" "drop (?k + 1) ?ws"]
    unfolding bits_from_start [OF assms True] .
  have "find (\<lambda>i. ts ! i) [start..<length ts] = ?r"
  proof (cases ?r)
    case None
    then show ?thesis using spec by (auto simp: find_None_iff)
  next
    case (Some i)
    then show ?thesis using spec by (auto simp: find_Some_iff intro!: exI [of _ "i - start"])
  qed
  moreover have "i < length ts" if "?r = Some i" for i using spec that by simp
  ultimately show ?thesis using True k assms by (auto simp: rtb_next_def rtb_mirrors_def Let_def split: option.splits)
qed

section \<open>Sections keep their counters\<close>

lemma filter_update_count:
  assumes "i < length vs"
  shows "length (filter P (vs[i := v])) + of_bool (P (vs ! i)) = length (filter P vs) + of_bool (P v)"
proof -
  obtain l r where vs: "vs = l @ vs ! i # r" "length l = i" using assms id_take_nth_drop [of i vs] by (metis length_take min.absorb4)
  then have "vs[i := v] = l @ v # r" by (metis list_update_length)
  then show ?thesis by (subst (2) vs(1)) simp
qed

text \<open>The number of cells with a property, as a counter.\<close>

definition tally :: "(16 word \<Rightarrow> bool) \<Rightarrow> 16 word list \<Rightarrow> 16 word" where
  "tally P vs = of_nat (length (filter P vs))"

lemma tally_update:
  assumes "i < length vs"
  shows "tally P (vs[i := v]) = count_change (P (vs ! i)) (P v) (tally P vs)"
proof -
  have "tally P (vs[i := v]) + of_bool (P (vs ! i)) = tally P vs + of_bool (P v)"
    using arg_cong [OF filter_update_count [OF assms, of P v], of "of_nat :: nat \<Rightarrow> 16 word"] by (simp add: tally_def)
  then show ?thesis by (auto simp: count_change_def algebra_simps)
qed

definition counted :: "(16 word \<Rightarrow> block_state_section_counts) \<Rightarrow> 16 word list \<Rightarrow> 16 word \<times> 16 word \<times> 16 word \<times> 16 word" where
  "counted f vs = (tally (\<lambda>v. \<not> bc_is_air (f v)) vs, tally (\<lambda>v. bc_has_fluid (f v)) vs,
                   tally (\<lambda>v. bc_ticking_block (f v)) vs, tally (\<lambda>v. bc_ticking_fluid (f v)) vs)"

definition counters :: "chunk_section \<Rightarrow> 16 word \<times> 16 word \<times> 16 word \<times> 16 word" where
  "counters s = (non_empty_count s, fluid_count s, ticking_block_count s, ticking_fluid_count s)"

lemma accumulate_eq:
  "accumulate_counter_traits t n (a, b, c, d) =
    (a + (if \<not> bc_is_air t then n else 0), b + (if bc_has_fluid t then n else 0),
     c + (if bc_ticking_block t then n else 0), d + (if bc_ticking_fluid t then n else 0))"
  by (simp add: accumulate_counter_traits_def)

lemma accumulate_fold:
  "fold (\<lambda>(v, n). accumulate_counter_traits (f v) n) ps (a, b, c, d) =
    (a + (\<Sum>e\<leftarrow>ps. if \<not> bc_is_air (f (fst e)) then snd e else 0), b + (\<Sum>e\<leftarrow>ps. if bc_has_fluid (f (fst e)) then snd e else 0),
     c + (\<Sum>e\<leftarrow>ps. if bc_ticking_block (f (fst e)) then snd e else 0), d + (\<Sum>e\<leftarrow>ps. if bc_ticking_fluid (f (fst e)) then snd e else 0))"
proof (induction ps arbitrary: a b c d)
  case (Cons e ps)
  obtain v n where "e = (v, n)" by (cases e)
  then show ?case by (simp add: accumulate_eq Cons.IH add.assoc del: if_not_P)
qed simp

lemma finalize_spec:
  assumes "pc_ok dim c"
  shows "pc_ok dim (finalize_building c) \<and> collect_values dim (finalize_building c) = collect_values dim c \<and> (\<forall>q. finalize_building c \<noteq> Building q)"
proof (cases c)
  case (Building q)
  then show ?thesis using from_cube_spec [of dim q] assms by (simp add: from_cube_def Let_def)
qed (use assms in auto)

lemma recalculate_spec:
  assumes "pc_ok 16 (states s)"
  shows "\<exists>s'. recalculate_counts f s = Some s' \<and> states s' = finalize_building (states s) \<and> biomes s' = biomes s
    \<and> pc_ok 16 (states s') \<and> collect_values 16 (states s') = collect_values 16 (states s) \<and> (\<forall>q. states s' \<noteq> Building q)
    \<and> counters s' = counted f (collect_values 16 (states s))"
proof -
  let ?st = "finalize_building (states s)"
  have st: "pc_ok 16 ?st" "collect_values 16 ?st = collect_values 16 (states s)" "\<forall>q. ?st \<noteq> Building q"
    using finalize_spec [OF assms] by auto
  show ?thesis
  proof (cases ?st)
    case (Homogeneous v)
    then have "collect_values 16 (states s) = replicate 4096 v" using st(2) by simp
    then show ?thesis using Homogeneous st
      by (auto simp: recalculate_counts_def Let_def accumulate_counter_traits_def counters_def counted_def tally_def BLOCKS_PER_SECTION_def)
  next
    case (Heterogeneous d)
    then have pal: "palette_of (collect_values 16 (states s)) (palette d)" using st(1,2) by (auto simp: iter_values_def)
    note sums = palette_sum [OF pal, where P = "\<lambda>v. \<not> bc_is_air (f v)"] palette_sum [OF pal, where P = "\<lambda>v. bc_has_fluid (f v)"]
      palette_sum [OF pal, where P = "\<lambda>v. bc_ticking_block (f v)"] palette_sum [OF pal, where P = "\<lambda>v. bc_ticking_fluid (f v)"]
    show ?thesis using Heterogeneous st
      by (auto simp: recalculate_counts_def Let_def accumulate_fold counters_def counted_def tally_def sums)
  qed (use st in simp)
qed

text \<open>
  A section is well-formed when its containers are and, unless it is being built, its counters
  are the numbers of cells they stand for.
\<close>

definition section_ok :: "(16 word \<Rightarrow> block_state_section_counts) \<Rightarrow> chunk_section \<Rightarrow> bool" where
  "section_ok f s \<longleftrightarrow> pc_ok 16 (states s) \<and> pc_ok 4 (biomes s) \<and>
     ((\<forall>q. states s \<noteq> Building q) \<longrightarrow> counters s = counted f (collect_values 16 (states s)))"

lemma ensure_spec:
  assumes "section_ok f s"
  shows "\<exists>s'. ensure_counter_ready_for_delta f s = Some s' \<and> section_ok f s' \<and> (\<forall>q. states s' \<noteq> Building q)
    \<and> collect_values 16 (states s') = collect_values 16 (states s) \<and> biomes s' = biomes s"
proof (cases "states s")
  case (Building q)
  then show ?thesis using recalculate_spec [of s f] assms
    by (auto simp: ensure_counter_ready_for_delta_def section_ok_def)
qed (use assms in \<open>auto simp: ensure_counter_ready_for_delta_def\<close>)

lemma set_not_building: "\<forall>q. c \<noteq> Building q \<Longrightarrow> pc_set dim x y z v c = Some (u, c') \<Longrightarrow> c' \<noteq> Building q"
  by (cases c) (auto simp: from_cube_def Let_def split: if_splits option.splits)

lemma set_block_state_spec:
  assumes "section_ok f s" and "x < 16" "y < 16" "z < 16"
  shows "\<exists>s'. set_block_state f x y z v s = Some (collect_values 16 (states s) ! cell_index 16 x y z, s') \<and> section_ok f s'
    \<and> (\<forall>q. states s' \<noteq> Building q) \<and> biomes s' = biomes s
    \<and> collect_values 16 (states s') = (collect_values 16 (states s))[cell_index 16 x y z := v]"
proof -
  let ?vs = "collect_values 16 (states s)" and ?i = "cell_index 16 x y z"
  from ensure_spec [OF assms(1)] obtain s1 where s1: "ensure_counter_ready_for_delta f s = Some s1" "section_ok f s1"
    "\<forall>q. states s1 \<noteq> Building q" "collect_values 16 (states s1) = ?vs" "biomes s1 = biomes s" by blast
  then have ok: "pc_ok 16 (states s1)" and cnt: "counters s1 = counted f ?vs" by (auto simp: section_ok_def)
  from pc_set_spec [OF ok assms(2-4), of v] s1(4) obtain st where st: "pc_set 16 x y z v (states s1) = Some (?vs ! ?i, st)"
    "pc_ok 16 st" "collect_values 16 st = ?vs[?i := v]" by auto
  have i: "?i < length ?vs" using cell_index_less [OF assms(2-4)] collect_values_length [OF ok] s1(4) by simp
  have nb: "\<forall>q. st \<noteq> Building q" using set_not_building [OF s1(3) st(1)] by blast
  have "counters (apply_count_change (f (?vs ! ?i)) (f v) (s1\<lparr>states := st\<rparr>)) = counted f (?vs[?i := v])"
    using cnt by (simp add: counters_def counted_def apply_count_change_def tally_update [OF i])
  moreover have "counters (s1\<lparr>states := st\<rparr>) = counted f (?vs[?i := v])" if "?vs ! ?i = v"
    using cnt that i by (simp add: counters_def flip: that)
  ultimately show ?thesis
    using s1 st nb by (auto simp: set_block_state_def Let_def section_ok_def apply_count_change_def)
qed

lemma enter_building_spec:
  assumes "pc_ok dim c"
  shows "\<exists>q. enter_building_mode dim c = Building q \<and> shaped dim q \<and> flat q = collect_values dim c"
  using assms by (cases c) (auto simp: shaped_cube_of flat_cube_of iter_values_def)

lemma set_for_generation_spec:
  assumes "section_ok f s" and "x < 16" "y < 16" "z < 16"
  shows "\<exists>s' q. set_block_state_for_generation x y z v s = Some (collect_values 16 (states s) ! cell_index 16 x y z, s') \<and> section_ok f s'
    \<and> states s' = Building q \<and> s' = s\<lparr>states := Building q\<rparr>
    \<and> collect_values 16 (states s') = (collect_values 16 (states s))[cell_index 16 x y z := v]"
proof -
  from enter_building_spec [of 16 "states s"] assms(1) obtain q where
    q: "enter_building_mode 16 (states s) = Building q" "shaped 16 q" "flat q = collect_values 16 (states s)" by (auto simp: section_ok_def)
  from pc_set_spec [of 16 "Building q" x y z v] q assms(2-4) show ?thesis
    using assms(1) flat_spec(2) [OF q(2) assms(2-4)]
    by (auto simp: set_block_state_for_generation_def section_ok_def split: option.splits)
qed

section \<open>The index mirrors the counters\<close>

definition mirrored :: "chunk_sections \<Rightarrow> bool" where
  "mirrored ss \<longleftrightarrow> rtb_mirrors (tick_bits ss) (map is_randomly_ticking (holders ss))"

definition sections_ok :: "(16 word \<Rightarrow> block_state_section_counts) \<Rightarrow> chunk_sections \<Rightarrow> bool" where
  "sections_ok f ss \<longleftrightarrow> mirrored ss \<and> list_all (section_ok f) (holders ss)"

lemma mirrored_unique: "mirrored a \<Longrightarrow> mirrored b \<Longrightarrow> holders a = holders b \<Longrightarrow> a = b"
  using rtb_mirrors_unique by (auto simp: mirrored_def intro: chunk_sections.equality)

lemma fill_bits_spec:
  assumes "rtb_mirrors b (map is_randomly_ticking (take i all) @ replicate (length ss) False)" and "ss = drop i all" and "i \<le> length all"
  shows "\<exists>b'. fill_bits i ss b = Some b' \<and> rtb_mirrors b' (map is_randomly_ticking all)"
  using assms
proof (induction ss arbitrary: i b)
  case (Cons s ss)
  let ?ts = "map is_randomly_ticking (take i all) @ replicate (length (s # ss)) False"
  have i: "i < length all" "all ! i = s" "ss = drop (Suc i) all"
    using Cons.prems(2,3) by (metis drop_all list.distinct(1) not_le) (metis Cons.prems(2) drop_eq_Nil hd_drop_conv_nth list.distinct(1) list.sel(1) not_le, metis Cons.prems(2) drop_Suc list.sel(3) tl_drop)
  have len: "length (map is_randomly_ticking (take i all)) = i" using i(1) by simp
  have upd: "?ts[i := is_randomly_ticking s] = map is_randomly_ticking (take (Suc i) all) @ replicate (length ss) False"
    using i len by (simp add: take_Suc_conv_app_nth list_update_append)
  have same: "?ts[i := False] = ?ts" using len by (simp add: list_update_append)
  obtain b' where b': "(if is_randomly_ticking s then rtb_set i True b else Some b) = Some b'"
    "rtb_mirrors b' (map is_randomly_ticking (take (Suc i) all) @ replicate (length ss) False)"
  proof (cases "is_randomly_ticking s")
    case True
    then show ?thesis using rtb_set_spec [OF Cons.prems(1), of i True] len upd that by auto
  next
    case False
    then have "rtb_mirrors b (?ts[i := is_randomly_ticking s])" using Cons.prems(1) same by metis
    then show ?thesis using upd that [of b] False by metis
  qed
  from Cons.IH [OF b'(2) i(3)] i(1) b'(1) show ?case by simp
qed simp

lemma from_owned_mirrored: "\<exists>sec. from_owned ss = Some sec \<and> holders sec = ss \<and> mirrored sec"
  using fill_bits_spec [of "rtb_new (length ss)" 0 ss ss] rtb_new_mirrors [of "length ss"]
  by (auto simp: from_owned_def mirrored_def)

lemma with_write_spec:
  assumes "mirrored ss" and "i < length (holders ss)" and "f (holders ss ! i) = Some (r, s')"
  shows "\<exists>ss'. with_write i f ss = Some (r, ss') \<and> mirrored ss' \<and> holders ss' = (holders ss)[i := s']"
proof -
  let ?ts = "map is_randomly_ticking (holders ss)"
  have m: "rtb_mirrors (tick_bits ss) ?ts" using assms(1) by (simp add: mirrored_def)
  have upd: "map is_randomly_ticking ((holders ss)[i := s']) = ?ts[i := is_randomly_ticking s']" by (simp add: map_update)
  show ?thesis
  proof (cases "is_randomly_ticking s' = is_randomly_ticking (holders ss ! i)")
    case True
    then have "?ts[i := is_randomly_ticking s'] = ?ts" using assms(2) by (simp add: list_update_same_conv)
    then show ?thesis using True assms m upd by (simp add: with_write_def mirrored_def)
  next
    case False
    then show ?thesis using rtb_set_spec [OF m, of i "is_randomly_ticking s'"] assms upd by (auto simp: with_write_def mirrored_def)
  qed
qed

lemma with_write_None:
  "length (holders ss) \<le> i \<Longrightarrow> with_write i f ss = None"
  "f (holders ss ! i) = None \<Longrightarrow> with_write i f ss = None"
  by (simp_all add: with_write_def)

lemma with_write_cong: "f (holders ss ! i) = g (holders ss ! i) \<Longrightarrow> with_write i f ss = with_write i g ss"
  by (simp add: with_write_def)

text \<open>Two operations on the same section, each under its own guard or both under one.\<close>

lemma with_write_seq:
  assumes "mirrored ss"
  shows "Option.bind (with_write i f ss) (\<lambda>(_, ss'). with_write i g ss') =
    with_write i (\<lambda>s. Option.bind (f s) (\<lambda>(_, s'). g s')) ss"
proof (cases "i < length (holders ss)")
  case True
  show ?thesis
  proof (cases "f (holders ss ! i)")
    case None
    then show ?thesis by (simp add: with_write_None)
  next
    case (Some rs)
    obtain r s1 where rs: "rs = (r, s1)" by (cases rs)
    from with_write_spec [where f = f, OF assms True, of r s1] Some rs obtain ss1 where
      1: "with_write i f ss = Some (r, ss1)" "mirrored ss1" "holders ss1 = (holders ss)[i := s1]" by blast
    show ?thesis
    proof (cases "g s1")
      case None
      then show ?thesis using 1 True Some rs by (simp add: with_write_None)
    next
      case g: (Some qs)
      obtain q s2 where qs: "qs = (q, s2)" by (cases qs)
      have "i < length (holders ss1)" "g (holders ss1 ! i) = Some (q, s2)" using 1(3) g qs True by simp_all
      from with_write_spec [where f = g, OF 1(2) this] obtain ss2 where
        2: "with_write i g ss1 = Some (q, ss2)" "mirrored ss2" "holders ss2 = (holders ss)[i := s2]" unfolding 1(3) by auto
      let ?h = "\<lambda>s. Option.bind (f s) (\<lambda>(_, s'). g s')"
      have "?h (holders ss ! i) = Some (q, s2)" using Some rs g qs by simp
      from with_write_spec [where f = ?h, OF assms True this] obtain ss3 where
        3: "with_write i ?h ss = Some (q, ss3)" "mirrored ss3" "holders ss3 = (holders ss)[i := s2]" by blast
      have "ss3 = ss2" using mirrored_unique 2 3 by simp
      then show ?thesis using 1 2 3 by simp
    qed
  qed
qed (simp add: with_write_None)

section \<open>Batches and single writes\<close>

text \<open>A sequence of operations, stopping at a panic.\<close>

fun each :: "('e \<Rightarrow> 's \<Rightarrow> 's option) \<Rightarrow> 'e list \<Rightarrow> 's \<Rightarrow> 's option" where
  "each g [] s = Some s"
| "each g (e # es) s = Option.bind (g e s) (each g es)"

lemma each_append: "each g (xs @ ys) s = Option.bind (each g xs s) (each g ys)"
  by (induction xs arbitrary: s) (auto split: Option.bind_split)

lemma each_one: "each g [e] s = g e s"
  by (cases "g e s") auto

definition write_one :: "(block_entry \<Rightarrow> chunk_section \<Rightarrow> chunk_section option) \<Rightarrow> block_entry \<Rightarrow> chunk_sections \<Rightarrow> chunk_sections option" where
  "write_one g e ss = map_option snd (with_write (entry_section e) (\<lambda>s. map_option (Pair ()) (g e s)) ss)"

lemma run_each:
  assumes "mirrored ss" and "\<forall>e' \<in> set es. entry_section e' = entry_section e"
  shows "each (write_one g) (e # es) ss =
    map_option snd (with_write (entry_section e) (\<lambda>s. map_option (Pair ()) (each g (e # es) s)) ss)"
  using assms
proof (induction es arbitrary: e ss)
  case Nil
  show ?case by (simp only: each_one write_one_def)
next
  case (Cons e' es)
  let ?i = "entry_section e" and ?one = "\<lambda>s. map_option (Pair ()) (g e s)" and ?rest = "\<lambda>s. map_option (Pair ()) (each g (e' # es) s)"
  have i: "entry_section e' = ?i" "\<forall>x \<in> set es. entry_section x = entry_section e'" using Cons.prems(2) by auto
  have seq: "(\<lambda>s. Option.bind (?one s) (\<lambda>(_, s'). ?rest s')) = (\<lambda>s. map_option (Pair ()) (each g (e # e' # es) s))"
    by (auto simp: fun_eq_iff split: Option.bind_split)
  have "each (write_one g) (e # e' # es) ss = Option.bind (with_write ?i ?one ss) (\<lambda>(_, ss'). each (write_one g) (e' # es) ss')"
    by (simp add: write_one_def map_option_case split: option.splits)
  also have "\<dots> = Option.bind (with_write ?i ?one ss) (\<lambda>(_, ss'). map_option snd (with_write ?i ?rest ss'))"
  proof (cases "with_write ?i ?one ss")
    case (Some rs)
    obtain r ss' where rs: "rs = (r, ss')" by (cases rs)
    have "mirrored ss'"
    proof -
      from Some have "?i < length (holders ss)" "?one (holders ss ! ?i) \<noteq> None" by (auto simp: with_write_def split: if_splits option.splits)
      then show ?thesis using with_write_spec [OF Cons.prems(1), of ?i ?one] Some rs by fastforce
    qed
    then show ?thesis using Cons.IH [OF _ i(2)] Some rs i(1) by simp
  qed simp
  also have "\<dots> = map_option snd (Option.bind (with_write ?i ?one ss) (\<lambda>(_, ss'). with_write ?i ?rest ss'))"
    by (simp add: map_option_bind comp_def split_def)
  also have "\<dots> = map_option snd (with_write ?i (\<lambda>s. map_option (Pair ()) (each g (e # e' # es) s)) ss)"
    by (simp only: with_write_seq [OF Cons.prems(1)] seq)
  finally show ?case .
qed

text \<open>
  The contract of a batch: on well-formed sections and entries in range, the operation on a run
  is the sequence of the single operations, which keep sections well-formed.
\<close>

locale batch_writer =
  fixes run :: "block_entry list \<Rightarrow> chunk_section \<Rightarrow> chunk_section option"
    and one :: "block_entry \<Rightarrow> chunk_section \<Rightarrow> chunk_section option"
    and ok :: "chunk_section \<Rightarrow> bool"
  assumes run_is_each: "ok s \<Longrightarrow> \<forall>(x, y, z, v) \<in> set (e # es). x < 16 \<and> z < 16 \<Longrightarrow> run (e # es) s = each one (e # es) s"
    and one_ok: "ok s \<Longrightarrow> x < 16 \<Longrightarrow> z < 16 \<Longrightarrow> \<exists>s'. one (x, y, z, v) s = Some s' \<and> ok s'"
begin

lemma each_ok:
  assumes "ok s" and "\<forall>(x, y, z, v) \<in> set es. x < 16 \<and> z < 16"
  shows "\<exists>s'. each one es s = Some s' \<and> ok s'"
  using assms
proof (induction es arbitrary: s)
  case (Cons e es)
  obtain x y z v where e: "e = (x, y, z, v)" by (cases e)
  then obtain s' where "one e s = Some s'" "ok s'" using one_ok [OF Cons.prems(1), of x z y v] Cons.prems(2) by auto
  then show ?case using Cons.IH [of s'] Cons.prems(2) by simp
qed simp

lemma batch_is_sequence:
  assumes "mirrored ss" and "list_all ok (holders ss)" and "\<forall>(x, y, z, v) \<in> set es. x < 16 \<and> z < 16"
  shows "by_section run es ss = each (write_one one) es ss"
  using assms
proof (induction "length es" arbitrary: es ss rule: less_induct)
  case less
  show ?case
  proof (cases es)
    case (Cons e tail)
    let ?i = "entry_section e"
    let ?run = "takeWhile (\<lambda>e'. entry_section e' = ?i) tail" and ?rest = "dropWhile (\<lambda>e'. entry_section e' = ?i) tail"
    let ?run_op = "\<lambda>s. map_option (Pair ()) (run (e # ?run) s)" and ?each_op = "\<lambda>s. map_option (Pair ()) (each one (e # ?run) s)"
    have "set ?run \<subseteq> set tail" "set ?rest \<subseteq> set tail" by (auto dest: set_takeWhileD set_dropWhileD)
    then have ranges: "\<forall>(x, y, z, v) \<in> set (e # ?run). x < 16 \<and> z < 16" "\<forall>(x, y, z, v) \<in> set ?rest. x < 16 \<and> z < 16"
      using less.prems(3) Cons by auto
    have eq: "each (write_one one) es ss = Option.bind (map_option snd (with_write ?i ?each_op ss)) (each (write_one one) ?rest)"
    proof -
      have "es = (e # ?run) @ ?rest" using Cons by simp
      from arg_cong [OF this, of "\<lambda>xs. each (write_one one) xs ss"]
      have "each (write_one one) es ss = Option.bind (each (write_one one) (e # ?run) ss) (each (write_one one) ?rest)"
        by (simp only: each_append)
      moreover have "\<forall>e' \<in> set ?run. entry_section e' = ?i" by (auto dest: set_takeWhileD)
      note run_each [OF less.prems(1) this, of one]
      ultimately show ?thesis by (simp only:)
    qed
    have bs: "by_section run es ss = Option.bind (map_option snd (with_write ?i ?run_op ss)) (by_section run ?rest)"
      using Cons by (auto simp: Let_def split: option.splits)
    show ?thesis
    proof (cases "?i < length (holders ss)")
      case True
      then have ok: "ok (holders ss ! ?i)" using less.prems(2) by (simp add: list_all_length)
      from each_ok [OF ok ranges(1)] obtain s' where s': "each one (e # ?run) (holders ss ! ?i) = Some s'" "ok s'" by blast
      have same: "with_write ?i ?run_op ss = with_write ?i ?each_op ss"
        by (rule with_write_cong) (simp only: run_is_each [OF ok ranges(1)])
      from with_write_spec [where f = ?each_op, OF less.prems(1) True, of "()" s'] s'(1) obtain ss' where
        ss': "with_write ?i ?each_op ss = Some ((), ss')" "mirrored ss'" "holders ss' = (holders ss)[?i := s']" by auto
      have "set (holders ss') \<subseteq> insert s' (set (holders ss))" unfolding ss'(3) by (rule set_update_subset_insert)
      then have "list_all ok (holders ss')" using less.prems(2) s'(2) by (auto simp: list_all_iff)
      moreover have "length ?rest < length es" using Cons by (simp add: le_imp_less_Suc length_dropWhile_le)
      ultimately show ?thesis unfolding eq bs same ss'(1) using less.hyps [of ?rest ss'] ss'(2) ranges(2) by simp
    qed (simp add: eq bs with_write_None)
  qed simp
qed

end

definition set_one :: "(16 word \<Rightarrow> block_state_section_counts) \<Rightarrow> block_entry \<Rightarrow> chunk_section \<Rightarrow> chunk_section option" where
  "set_one f e s = (case e of (x, y, z, v) \<Rightarrow> map_option snd (set_block_state f x (y mod 16) z v s))"

definition generate_one :: "block_entry \<Rightarrow> chunk_section \<Rightarrow> chunk_section option" where
  "generate_one e s = (case e of (x, y, z, v) \<Rightarrow> map_option snd (set_block_state_for_generation x (y mod 16) z v s))"

lemma set_all_each: "set_all f es s = each (set_one f) es s"
  by (induction f es s rule: set_all.induct) (auto simp: set_one_def split: option.splits)

interpretation tracked: batch_writer "set_all f" "set_one f" "section_ok f" for f
proof
  show "set_all f (e # es) s = each (set_one f) (e # es) s" for e es s by (rule set_all_each)
  show "\<exists>s'. set_one f (x, y, z, v) s = Some s' \<and> section_ok f s'" if "section_ok f s" "x < 16" "z < 16" for x y z v s
    using set_block_state_spec [OF that(1,2) _ that(3), of "y mod 16" v] by (auto simp: set_one_def)
qed

lemma cell_store_index:
  assumes "x < 16" "y < 16" "z < 16"
  shows "(y * 16 * 16 + z * 16 + x) div (16 * 16) = y" "(y * 16 * 16 + z * 16 + x) div 16 mod 16 = z" "(y * 16 * 16 + z * 16 + x) mod 16 = x"
    "y * 16 * 16 + z * 16 + x < 16 * 16 * (16 :: nat)"
proof -
  have i: "y * 16 * 16 + z * 16 + x = (y * 16 + z) * 16 + x" by simp
  have d: "(y * 16 * 16 + z * 16 + x) div 16 = y * 16 + z" unfolding i using assms(1) by (simp only: div_mult_self3 div_less add_0_right)
  show "(y * 16 * 16 + z * 16 + x) mod 16 = x" unfolding i using assms(1) by (simp only: mod_mult_self3 mod_less)
  show "(y * 16 * 16 + z * 16 + x) div 16 mod 16 = z" unfolding d using assms(3) by (simp only: mod_mult_self3 mod_less)
  show "(y * 16 * 16 + z * 16 + x) div (16 * 16) = y" unfolding div_mult2_eq d using assms(3) by simp
  show "y * 16 * 16 + z * 16 + x < 16 * 16 * (16 :: nat)" using assms by simp
qed

lemma generate_building:
  assumes "enter_building_mode 16 (states s) = Building q" and "shaped 16 q" and "x < 16" "z < 16"
  shows "generate_one (x, y, z, v) s = Some (s\<lparr>states := Building (cube_put (y mod 16) z x v q)\<rparr>)"
    and "building_store 16 ((y mod 16) * 16 * 16 + z * 16 + x) v (Building q) = Some (Building (cube_put (y mod 16) z x v q))"
    and "shaped 16 (cube_put (y mod 16) z x v q)"
proof -
  have y: "y mod 16 < 16" by simp
  show "shaped 16 (cube_put (y mod 16) z x v q)" using flat_spec(3) [OF assms(2,3) y assms(4)] by blast
  show "generate_one (x, y, z, v) s = Some (s\<lparr>states := Building (cube_put (y mod 16) z x v q)\<rparr>)"
    using flat_spec(2) [OF assms(2,3) y assms(4)] assms(1) by (simp add: generate_one_def set_block_state_for_generation_def)
  show "building_store 16 ((y mod 16) * 16 * 16 + z * 16 + x) v (Building q) = Some (Building (cube_put (y mod 16) z x v q))"
    unfolding building_store.simps cell_store_index [OF assms(3) y assms(4)] using cell_store_index(4) [OF assms(3) y assms(4)] by simp
qed

lemma store_all_each:
  assumes "shaped 16 q" and "\<forall>(x, y, z, v) \<in> set es. x < 16 \<and> z < 16"
  shows "map_option (\<lambda>c. s\<lparr>states := c\<rparr>) (store_all es (Building q)) = each generate_one es (s\<lparr>states := Building q\<rparr>)"
  using assms
proof (induction es arbitrary: q)
  case (Cons e es)
  obtain x y z v where e: "e = (x, y, z, v)" by (cases e)
  then have r: "x < 16" "z < 16" using Cons.prems(2) by auto
  have b: "enter_building_mode 16 (states (s\<lparr>states := Building q\<rparr>)) = Building q" by simp
  note g = generate_building [OF b Cons.prems(1) r, of y v]
  show ?case using Cons.IH [OF g(3)] Cons.prems(2) g(1,2) by (simp add: e)
qed simp

interpretation generating: batch_writer store_run generate_one "\<lambda>s. pc_ok 16 (states s)"
proof
  fix s :: chunk_section and e es x z y v
  assume s: "pc_ok 16 (states s)"
  from enter_building_spec [OF this] obtain q where q: "enter_building_mode 16 (states s) = Building q" "shaped 16 q" by blast
  show "store_run (e # es) s = each generate_one (e # es) s" if r: "\<forall>(x, y, z, v) \<in> set (e # es). x < 16 \<and> z < 16"
  proof -
    obtain x y z v where e: "e = (x, y, z, v)" by (cases e)
    then have xz: "x < 16" "z < 16" using r by auto
    have "generate_one e s = generate_one e (s\<lparr>states := Building q\<rparr>)"
      using generate_building(1) [OF q xz, of y v] generate_building(1) [of "s\<lparr>states := Building q\<rparr>" q x z y v] q(2) xz by (simp add: e)
    then have "each generate_one (e # es) s = each generate_one (e # es) (s\<lparr>states := Building q\<rparr>)" by simp
    then show ?thesis using store_all_each [OF q(2) r, of s] q(1) by (simp add: store_run_def)
  qed
  show "\<exists>s'. generate_one (x, y, z, v) s = Some s' \<and> pc_ok 16 (states s')" if "x < 16" "z < 16"
    using generate_building(1,3) [OF q that, of y v] by simp
qed

lemma with_write_result: "map_option snd (with_write i (\<lambda>s. map_option (Pair ()) (map_option snd (f s))) ss) = map_option snd (with_write i f ss)"
  by (auto simp: with_write_def map_option_case split: option.splits)

lemma write_one_set: "write_one (set_one f) (x, y, z, v) = set_relative_block f x y z v"
  by (simp add: fun_eq_iff write_one_def set_one_def entry_section_def set_relative_block_def with_write_result)

lemma write_one_generate: "write_one generate_one (x, y, z, v) = set_relative_block_for_generation x y z v"
  by (simp add: fun_eq_iff write_one_def generate_one_def entry_section_def set_relative_block_for_generation_def with_write_result)

lemma sections_ok_generating: "sections_ok f ss \<Longrightarrow> list_all (\<lambda>s. pc_ok 16 (states s)) (holders ss)"
  by (auto simp: sections_ok_def section_ok_def list_all_iff)

lemma tally_pos:
  assumes "length vs \<le> 4096"
  shows "0 < tally P vs \<longleftrightarrow> (\<exists>v \<in> set vs. P v)"
proof -
  have "length (filter P vs) < 2 ^ 16" using le_trans [OF length_filter_le assms, of P] by simp
  then have "unat (tally P vs) = length (filter P vs)" by (simp add: tally_def unsigned_of_nat take_bit_nat_eq_self)
  moreover have "0 < tally P vs \<longleftrightarrow> unat (tally P vs) \<noteq> 0" by (simp add: word_greater_zero_iff unsigned_eq_0_iff)
  ultimately show ?thesis by (simp add: filter_empty_conv)
qed

lemma ticking_cells:
  assumes "section_ok f s" and "\<forall>q. states s \<noteq> Building q"
  shows "is_randomly_ticking s \<longleftrightarrow> (\<exists>v \<in> set (collect_values 16 (states s)). bc_ticking_block (f v) \<or> bc_ticking_fluid (f v))"
proof -
  let ?vs = "collect_values 16 (states s)"
  have "length ?vs \<le> 4096" using assms(1) collect_values_length [of 16 "states s"] by (simp add: section_ok_def)
  then have "0 < tally (\<lambda>v. bc_ticking_block (f v)) ?vs \<longleftrightarrow> (\<exists>v \<in> set ?vs. bc_ticking_block (f v))"
    "0 < tally (\<lambda>v. bc_ticking_fluid (f v)) ?vs \<longleftrightarrow> (\<exists>v \<in> set ?vs. bc_ticking_fluid (f v))" by (rule tally_pos)+
  moreover have "ticking_block_count s = tally (\<lambda>v. bc_ticking_block (f v)) ?vs" "ticking_fluid_count s = tally (\<lambda>v. bc_ticking_fluid (f v)) ?vs"
    using assms by (simp_all add: section_ok_def counters_def counted_def)
  ultimately show ?thesis by (auto simp: is_randomly_ticking_def)
qed

lemma sections_ok_update:
  assumes "list_all (section_ok f) (holders ss)" and "section_ok f s" and "mirrored ss'" and "holders ss' = (holders ss)[i := s]"
  shows "sections_ok f ss'"
  using assms set_update_subset_insert [of "holders ss" i s] by (auto simp: sections_ok_def list_all_iff)

lemma new_empty_ok: "bc_is_air (f 0) \<Longrightarrow> \<not> bc_has_fluid (f 0) \<Longrightarrow> \<not> bc_ticking_block (f 0) \<Longrightarrow> \<not> bc_ticking_fluid (f 0) \<Longrightarrow> section_ok f (new_empty p)"
  by (simp add: section_ok_def new_empty_def counters_def counted_def tally_def)

lemma from_owned_ok:
  assumes "list_all (section_ok f) ss"
  shows "\<exists>sec. from_owned ss = Some sec \<and> holders sec = ss \<and> sections_ok f sec"
  using from_owned_mirrored [of ss] assms by (auto simp: sections_ok_def)

lemma generated_one: "write_one generate_one = (\<lambda>(x, y, z, v). set_relative_block_for_generation x y z v)"
  by (simp add: fun_eq_iff write_one_generate)

lemma column_is_sequence:
  assumes "sections_ok f ss" and "x < 16" "z < 16"
  shows "write_column_blocks x z ys ss = each (\<lambda>(y, v). set_relative_block_for_generation x y z v) ys ss"
proof -
  have m: "mirrored ss" using assms(1) by (simp add: sections_ok_def)
  have map: "each g (map h xs) t = each (\<lambda>x. g (h x)) xs t" for g :: "block_entry \<Rightarrow> chunk_sections \<Rightarrow> chunk_sections option" and h xs t
    by (induction xs arbitrary: t) (auto split: Option.bind_split)
  have "\<forall>(x, y, z, v) \<in> set (map (\<lambda>(y, v). (x, y, z, v)) ys). x < 16 \<and> z < 16" using assms(2,3) by auto
  from generating.batch_is_sequence [OF m sections_ok_generating [OF assms(1)] this] show ?thesis
    unfolding write_column_blocks_def generated_one map by (simp add: case_prod_beta')
qed

section \<open>Histories of writes\<close>

text \<open>
  The operations that change the cells or the counters of a section under its write guard: the
  counter-aware write, the write of the world generator, and the two recounts that end generation
  (\<open>section.write().recalculate_counts()\<close> when a chunk is finished or loaded, and
  \<open>finalize_generation_counts_if_needed\<close> in the world generation region).
\<close>

datatype section_op =
    WriteBlock nat nat nat "16 word"
  | GenerateBlock nat nat nat "16 word"
  | Recount nat
  | FinishGeneration nat

fun section_step :: "(16 word \<Rightarrow> block_state_section_counts) \<Rightarrow> section_op \<Rightarrow> chunk_sections \<Rightarrow> chunk_sections option" where
  "section_step f (WriteBlock x y z v) ss = set_relative_block f x y z v ss"
| "section_step f (GenerateBlock x y z v) ss = set_relative_block_for_generation x y z v ss"
| "section_step f (Recount i) ss = map_option snd (with_write i (\<lambda>s. map_option (Pair ()) (recalculate_counts f s)) ss)"
| "section_step f (FinishGeneration i) ss =
     map_option snd (with_write i (\<lambda>s. map_option (Pair ()) (finalize_generation_counts_if_needed f s)) ss)"

fun op_section :: "section_op \<Rightarrow> nat" where
  "op_section (WriteBlock x y z v) = y div 16"
| "op_section (GenerateBlock x y z v) = y div 16"
| "op_section (Recount i) = i"
| "op_section (FinishGeneration i) = i"

fun op_within :: "nat \<Rightarrow> section_op \<Rightarrow> bool" where
  "op_within n (WriteBlock x y z v) \<longleftrightarrow> x < 16 \<and> z < 16 \<and> y div 16 < n"
| "op_within n (GenerateBlock x y z v) \<longleftrightarrow> x < 16 \<and> z < 16 \<and> y div 16 < n"
| "op_within n (Recount i) \<longleftrightarrow> i < n"
| "op_within n (FinishGeneration i) \<longleftrightarrow> i < n"

text \<open>
  The abstract view of a section: its cells now, and its cells when they were last counted. A
  generation write leaves the latter behind, every other operation brings it up to date.
\<close>

type_synonym section_view = "16 word list \<times> 16 word list"

fun view_step :: "section_op \<Rightarrow> section_view \<Rightarrow> section_view" where
  "view_step (WriteBlock x y z v) (now, counted_at) =
     (now[cell_index 16 x (y mod 16) z := v], now[cell_index 16 x (y mod 16) z := v])"
| "view_step (GenerateBlock x y z v) (now, counted_at) = (now[cell_index 16 x (y mod 16) z := v], counted_at)"
| "view_step (Recount i) (now, counted_at) = (now, now)"
| "view_step (FinishGeneration i) (now, counted_at) = (now, now)"

fun view_after :: "section_op list \<Rightarrow> nat \<Rightarrow> section_view \<Rightarrow> section_view" where
  "view_after [] i w = w"
| "view_after (op # ops) i w = view_after ops i (if op_section op = i then view_step op w else w)"

definition some_cell_ticks :: "(16 word \<Rightarrow> block_state_section_counts) \<Rightarrow> 16 word list \<Rightarrow> bool" where
  "some_cell_ticks f cells \<longleftrightarrow> (\<exists>u \<in> set cells. bc_ticking_block (f u) \<or> bc_ticking_fluid (f u))"

definition viewed :: "(16 word \<Rightarrow> block_state_section_counts) \<Rightarrow> chunk_section \<Rightarrow> section_view \<Rightarrow> bool" where
  "viewed f s w \<longleftrightarrow> section_ok f s \<and> collect_values 16 (states s) = fst w \<and> is_randomly_ticking s = some_cell_ticks f (snd w)"

lemma viewed_settled:
  "section_ok f s \<Longrightarrow> \<forall>q. states s \<noteq> Building q \<Longrightarrow> collect_values 16 (states s) = now \<Longrightarrow> viewed f s (now, now)"
  using ticking_cells [of f s] by (simp add: viewed_def some_cell_ticks_def)

lemma recount_viewed:
  assumes "section_ok f s"
  shows "\<exists>s'. recalculate_counts f s = Some s' \<and> viewed f s' (collect_values 16 (states s), collect_values 16 (states s))"
    and "\<exists>s'. finalize_generation_counts_if_needed f s = Some s' \<and> viewed f s' (collect_values 16 (states s), collect_values 16 (states s))"
proof -
  from recalculate_spec [of s f] assms obtain s' where s': "recalculate_counts f s = Some s'" "biomes s' = biomes s"
    "pc_ok 16 (states s')" "collect_values 16 (states s') = collect_values 16 (states s)" "\<forall>q. states s' \<noteq> Building q"
    "counters s' = counted f (collect_values 16 (states s))" by (auto simp: section_ok_def)
  then have "section_ok f s'" using assms by (simp add: section_ok_def)
  from viewed_settled [OF this s'(5) s'(4)] s'(1)
  show one: "\<exists>s'. recalculate_counts f s = Some s' \<and> viewed f s' (collect_values 16 (states s), collect_values 16 (states s))" by blast
  show "\<exists>s'. finalize_generation_counts_if_needed f s = Some s' \<and> viewed f s' (collect_values 16 (states s), collect_values 16 (states s))"
    using one viewed_settled [OF assms _ refl] by (cases "states s") (auto simp: finalize_generation_counts_if_needed_def)
qed

lemma guarded_step:
  assumes "sections_ok f ss" and "i < length (holders ss)" and "g (holders ss ! i) = Some (r, s')" and "viewed f s' w"
  shows "\<exists>ss'. map_option snd (with_write i g ss) = Some ss' \<and> sections_ok f ss' \<and> holders ss' = (holders ss)[i := s'] \<and> viewed f s' w"
  using with_write_spec [of ss i g r s'] sections_ok_update [of f ss s' _ i] assms by (auto simp: sections_ok_def viewed_def)

lemma section_step_spec:
  assumes ok: "sections_ok f ss" and op: "op_within (length (holders ss)) op"
    and w: "viewed f (holders ss ! op_section op) w"
  shows "\<exists>ss' s'. section_step f op ss = Some ss' \<and> sections_ok f ss' \<and> holders ss' = (holders ss)[op_section op := s']
    \<and> viewed f s' (view_step op w)"
proof -
  let ?s = "holders ss ! op_section op"
  have i: "op_section op < length (holders ss)" using op by (cases op) simp_all
  have s: "section_ok f ?s" "collect_values 16 (states ?s) = fst w" using w by (simp_all add: viewed_def)
  obtain now old where [simp]: "w = (now, old)" by (cases w)
  show ?thesis
  proof (cases op)
    case (WriteBlock x y z v)
    with op s set_block_state_spec [of f ?s x "y mod 16" z v] obtain u s' where
      s': "set_block_state f x (y mod 16) z v ?s = Some (u, s')" "section_ok f s'" "\<forall>q. states s' \<noteq> Building q"
        "collect_values 16 (states s') = now[cell_index 16 x (y mod 16) z := v]" by auto
    from guarded_step [where g = "set_block_state f x (y mod 16) z v", OF ok i s'(1) viewed_settled [OF s'(2,3) refl]]
    show ?thesis using WriteBlock s'(4) by (auto simp: set_relative_block_def)
  next
    case (GenerateBlock x y z v)
    with op s set_for_generation_spec [of f ?s x "y mod 16" z v] obtain u s' q where
      s': "set_block_state_for_generation x (y mod 16) z v ?s = Some (u, s')" "section_ok f s'" "s' = ?s\<lparr>states := Building q\<rparr>"
        "collect_values 16 (states s') = now[cell_index 16 x (y mod 16) z := v]" by auto
    have "is_randomly_ticking s' = is_randomly_ticking ?s" using s'(3) by (simp add: is_randomly_ticking_def)
    then have "viewed f s' (view_step op w)" using w s'(2,4) GenerateBlock by (simp add: viewed_def)
    from guarded_step [where g = "set_block_state_for_generation x (y mod 16) z v", OF ok i s'(1) this]
    show ?thesis using GenerateBlock by (auto simp: set_relative_block_for_generation_def)
  next
    case (Recount k)
    with recount_viewed(1) [OF s(1)] obtain s' where s': "recalculate_counts f ?s = Some s'" "viewed f s' (now, now)" using s(2) by auto
    then have "map_option (Pair ()) (recalculate_counts f ?s) = Some ((), s')" by simp
    from guarded_step [where g = "\<lambda>s. map_option (Pair ()) (recalculate_counts f s)", OF ok i this s'(2)] Recount show ?thesis by auto
  next
    case (FinishGeneration k)
    with recount_viewed(2) [OF s(1)] obtain s' where s': "finalize_generation_counts_if_needed f ?s = Some s'" "viewed f s' (now, now)" using s(2) by auto
    then have "map_option (Pair ()) (finalize_generation_counts_if_needed f ?s) = Some ((), s')" by simp
    from guarded_step [where g = "\<lambda>s. map_option (Pair ()) (finalize_generation_counts_if_needed f s)", OF ok i this s'(2)] FinishGeneration
    show ?thesis by auto
  qed
qed

lemma history_viewed:
  assumes "sections_ok f ss" and "list_all (op_within (length (holders ss))) ops"
    and "\<forall>i < length (holders ss). viewed f (holders ss ! i) (w i)"
  shows "\<exists>ss'. each (section_step f) ops ss = Some ss' \<and> sections_ok f ss' \<and> length (holders ss') = length (holders ss)
    \<and> (\<forall>i < length (holders ss). viewed f (holders ss' ! i) (view_after ops i (w i)))"
  using assms
proof (induction ops arbitrary: ss w)
  case (Cons op ops)
  have i: "op_section op < length (holders ss)" using Cons.prems(2) by (cases op) simp_all
  from section_step_spec [of f ss op "w (op_section op)"] Cons.prems i obtain ss1 s' where
    1: "section_step f op ss = Some ss1" "sections_ok f ss1" "holders ss1 = (holders ss)[op_section op := s']"
      "viewed f s' (view_step op (w (op_section op)))" by auto
  define w1 where "w1 i = (if op_section op = i then view_step op (w i) else w i)" for i
  have "\<forall>i < length (holders ss1). viewed f (holders ss1 ! i) (w1 i)"
    using 1(3,4) Cons.prems(3) by (auto simp: w1_def nth_list_update)
  from Cons.IH [OF 1(2) _ this] Cons.prems(2) 1(1,3) show ?case by (auto simp: w1_def)
qed auto

section \<open>Properties\<close>

text \<open>
  C13. Writing a block keeps the counters of the section exact, on every representation of its cells:
  the previous state is returned, the cells change at the written place only, and afterwards the
  four counters are the numbers of cells that are not air, hold fluid, tick as blocks and tick as
  fluids, also when the section was being generated and its counters were stale.
\<close>
theorem block_writes_keep_counters:
  assumes "section_ok f s" and "x < 16" "y < 16" "z < 16"
  shows "\<exists>s'. set_block_state f x y z v s = Some (collect_values 16 (states s) ! cell_index 16 x y z, s')
    \<and> counters s' = counted f ((collect_values 16 (states s))[cell_index 16 x y z := v])
    \<and> collect_values 16 (states s') = (collect_values 16 (states s))[cell_index 16 x y z := v]
    \<and> section_ok f s' \<and> biomes s' = biomes s"
  using set_block_state_spec [OF assms, of v] by (auto simp: section_ok_def)

theorem block_writes_keep_counters_witness:
  "\<exists>s'. set_block_state (\<lambda>v. \<lparr>bc_is_air = (v = 0), bc_has_fluid = False, bc_ticking_block = (v = 3), bc_ticking_fluid = False\<rparr>) 1 2 3 3 (new_empty 0)
     = Some (0, s') \<and> ticking_block_count s' = 1 \<and> non_empty_count s' = 1"
proof -
  let ?f = "\<lambda>v :: 16 word. \<lparr>bc_is_air = (v = 0), bc_has_fluid = False, bc_ticking_block = (v = 3), bc_ticking_fluid = False\<rparr>"
  have ok: "section_ok ?f (new_empty 0)" by (rule new_empty_ok) simp_all
  have cells: "collect_values 16 (states (new_empty 0)) = replicate 4096 0" by (simp add: new_empty_def)
  have i: "cell_index 16 1 2 3 < 4096" by (simp add: cell_index_def)
  have none: "tally P (replicate 4096 0) = 0" if "\<not> P 0" for P using that by (simp add: tally_def)
  have "counted ?f ((replicate 4096 0)[cell_index 16 1 2 3 := 3]) = (1, 0, 1, 0)"
    using i by (simp add: counted_def tally_update none count_change_def)
  then show ?thesis using block_writes_keep_counters [OF ok, of 1 2 3 3] i unfolding cells by (auto simp: counters_def)
qed

text \<open>
  C8. The batches are optimisations only: a batch of block writes, which locks a section once for a
  run of entries, is the sequence of the single writes, for tracked writes and, stored through the
  flat view of the cube, for the writes of the world generator, whatever the order of the entries;
  a column is such a batch.
\<close>
theorem batches_are_single_writes:
  assumes "sections_ok f ss" and "\<forall>(x, y, z, v) \<in> set es. x < 16 \<and> z < 16" and "cx < 16" "cz < 16"
  shows "write_tracked_block_batch f es ss = each (\<lambda>(x, y, z, v). set_relative_block f x y z v) es ss
    \<and> write_block_batch es ss = each (\<lambda>(x, y, z, v). set_relative_block_for_generation x y z v) es ss
    \<and> write_column_blocks cx cz ys ss = each (\<lambda>(y, v). set_relative_block_for_generation cx y cz v) ys ss"
proof (intro conjI)
  have m: "mirrored ss" "list_all (section_ok f) (holders ss)" using assms(1) by (simp_all add: sections_ok_def)
  have one: "write_one (set_one f) = (\<lambda>(x, y, z, v). set_relative_block f x y z v)" by (simp add: fun_eq_iff write_one_set)
  show "write_tracked_block_batch f es ss = each (\<lambda>(x, y, z, v). set_relative_block f x y z v) es ss"
    unfolding write_tracked_block_batch_def one [symmetric] by (rule tracked.batch_is_sequence [OF m assms(2)])
  show "write_block_batch es ss = each (\<lambda>(x, y, z, v). set_relative_block_for_generation x y z v) es ss"
    unfolding write_block_batch_def generated_one [symmetric]
    by (rule generating.batch_is_sequence [OF m(1) sections_ok_generating [OF assms(1)] assms(2)])
  show "write_column_blocks cx cz ys ss = each (\<lambda>(y, v). set_relative_block_for_generation cx y cz v) ys ss"
    by (rule column_is_sequence [OF assms(1,3,4)])
qed

theorem batches_are_single_writes_witness:
  "\<exists>ss. from_owned [new_empty 0, new_empty 0] = Some ss \<and>
     write_block_batch [(1, 2, 3, 7), (1, 18, 3, 7), (1, 2, 3, 0)] ss =
       each (\<lambda>(x, y, z, v). set_relative_block_for_generation x y z v) [(1, 2, 3, 7), (1, 18, 3, 7), (1, 2, 3, 0)] ss"
proof -
  let ?f = "\<lambda>v :: 16 word. \<lparr>bc_is_air = (v = 0), bc_has_fluid = False, bc_ticking_block = False, bc_ticking_fluid = False\<rparr>"
  have "section_ok ?f (new_empty 0)" by (rule new_empty_ok) simp_all
  then obtain ss where ss: "from_owned [new_empty 0, new_empty 0] = Some ss" "sections_ok ?f ss"
    using from_owned_ok [of ?f "[new_empty 0, new_empty 0]"] by auto
  show ?thesis
    using batches_are_single_writes [OF ss(2), of "[(1, 2, 3, 7), (1, 18, 3, 7), (1, 2, 3, 0)]" 0 0 "[]"] ss(1) by auto
qed

text \<open>
  C9. Along every sequence of counter-aware writes, generation writes and recounts, on any sections,
  no operation panics, the cells are those the sequence of writes leaves, and the index of randomly
  ticking sections is exact with respect to the last count: looking for the next ticking section
  from any start finds the first section one of whose cells ticked when the section was last counted.
  A counter-aware write and a recount count the section as it is then, so behind them a section
  ticks exactly when one of its cells does; a generation write leaves the count, and with it the
  index, as it was until a recount or a counter-aware write follows.
\<close>
theorem random_tick_index_is_exact:
  assumes "sections_ok f ss" and "\<forall>s \<in> set (holders ss). \<forall>q. states s \<noteq> Building q"
    and "list_all (op_within (length (holders ss))) ops"
    and "w = (\<lambda>i. let cells = collect_values 16 (states (holders ss ! i)) in view_after ops i (cells, cells))"
  shows "\<exists>ss'. each (section_step f) ops ss = Some ss' \<and> sections_ok f ss' \<and> length (holders ss') = length (holders ss)
    \<and> (\<forall>i < length (holders ss). collect_values 16 (states (holders ss' ! i)) = fst (w i)
         \<and> is_randomly_ticking (holders ss' ! i) = some_cell_ticks f (snd (w i)))
    \<and> (\<forall>start. rtb_next start (tick_bits ss') = Some (find (\<lambda>i. some_cell_ticks f (snd (w i))) [start..<length (holders ss)]))"
proof -
  let ?n = "length (holders ss)"
  have "\<forall>i < ?n. viewed f (holders ss ! i) (let cells = collect_values 16 (states (holders ss ! i)) in (cells, cells))"
    using assms(1,2) by (auto simp: Let_def sections_ok_def list_all_length intro!: viewed_settled)
  from history_viewed [OF assms(1,3) this] obtain ss' where ss': "each (section_step f) ops ss = Some ss'" "sections_ok f ss'"
    "length (holders ss') = ?n" "\<forall>i < ?n. viewed f (holders ss' ! i) (w i)" by (auto simp: assms(4) Let_def)
  have "rtb_next start (tick_bits ss') = Some (find (\<lambda>i. some_cell_ticks f (snd (w i))) [start..<?n])" for start
  proof -
    have "find (\<lambda>i. map is_randomly_ticking (holders ss') ! i) [start..<?n] = find (\<lambda>i. some_cell_ticks f (snd (w i))) [start..<?n]"
      by (rule find_cong) (use ss'(3,4) in \<open>auto simp: viewed_def\<close>)
    then show ?thesis
      using rtb_next_spec [of "tick_bits ss'" "map is_randomly_ticking (holders ss')" start] ss'(2,3)
      by (simp add: sections_ok_def mirrored_def)
  qed
  with ss' show ?thesis by (auto simp: viewed_def)
qed

theorem random_tick_index_is_exact_witness:
  "\<exists>ss ss1 ss2. from_owned [new_empty 0, new_empty 0] = Some ss
     \<and> section_step (\<lambda>v. \<lparr>bc_is_air = (v = 0), bc_has_fluid = False, bc_ticking_block = (v = 3), bc_ticking_fluid = False\<rparr>) (GenerateBlock 1 18 3 3) ss = Some ss1
     \<and> rtb_next 0 (tick_bits ss1) = Some None
     \<and> section_step (\<lambda>v. \<lparr>bc_is_air = (v = 0), bc_has_fluid = False, bc_ticking_block = (v = 3), bc_ticking_fluid = False\<rparr>) (FinishGeneration 1) ss1 = Some ss2
     \<and> rtb_next 0 (tick_bits ss2) = Some (Some 1)"
proof -
  let ?f = "\<lambda>v :: 16 word. \<lparr>bc_is_air = (v = 0), bc_has_fluid = False, bc_ticking_block = (v = 3), bc_ticking_fluid = False\<rparr>"
  have ok: "section_ok ?f (new_empty 0)" by (rule new_empty_ok) simp_all
  then obtain ss where ss: "from_owned [new_empty 0, new_empty 0] = Some ss" "holders ss = [new_empty 0, new_empty 0]" "sections_ok ?f ss"
    using from_owned_ok [of ?f "[new_empty 0, new_empty 0]"] by auto
  let ?i = "cell_index 16 1 2 3" and ?vs = "replicate 4096 (0 :: 16 word)"
  have "?i < length ?vs" by (simp add: cell_index_def)
  then have "3 \<in> set (?vs[?i := 3])" by (rule set_update_memI)
  then have tick: "some_cell_ticks ?f (?vs[?i := 3])" "\<not> some_cell_ticks ?f ?vs" by (auto simp: some_cell_ticks_def)
  have cells: "collect_values 16 (states (new_empty 0)) = ?vs" "states (new_empty 0) \<noteq> Building q" for q by (simp_all add: new_empty_def)
  have "18 mod 16 = (2 :: nat)" "18 div 16 = (1 :: nat)" by simp_all
  then show ?thesis
    using random_tick_index_is_exact [OF ss(3), of "[GenerateBlock 1 18 3 3]", OF _ _ refl]
      random_tick_index_is_exact [OF ss(3), of "[GenerateBlock 1 18 3 3, FinishGeneration 1]", OF _ _ refl] ss(1,2) cells tick
    by (auto simp: Let_def numeral_2_eq_2 nth_Cons' split: Option.bind_split_asm)
qed

end
