(* ===== verification/Heightmaps.thy ===== *)
theory Heightmaps
  imports Chunk_Section Chunk_Pyramid
begin

text \<open>
  Heightmaps (\<open>steel-core/src/chunk/heightmap.rs\<close>) and the parts of a chunk that keep them
  (\<open>chunk/data.rs\<close>, \<open>chunk/full_chunk/mod.rs\<close>): for each column and each kind of map, the place
  above the highest block that counts. What the registry says of a block state is a parameter.
  Heights are \<open>u16\<close> offsets from \<open>min_y\<close>, coordinates are \<open>i32\<close> with the wrap-around written
  out, a panic is \<open>None\<close>. The read locks of the sections are held within one operation on the
  heightmaps, which is one step.
\<close>

section \<open>Kinds of heightmap\<close>

datatype heightmap_type =
  WorldSurface | MotionBlocking | MotionBlockingNoLeaves | OceanFloor | WorldSurfaceWg | OceanFloorWg

definition worldgen_types :: "heightmap_type list" where
  "worldgen_types = [WorldSurfaceWg, OceanFloorWg]"

definition final_types :: "heightmap_type list" where
  "final_types = [WorldSurface, MotionBlocking, MotionBlockingNoLeaves, OceanFloor]"

definition all_types :: "heightmap_type list" where
  "all_types = [WorldSurface, MotionBlocking, MotionBlockingNoLeaves, OceanFloor, WorldSurfaceWg, OceanFloorWg]"

fun persistence_id :: "heightmap_type \<Rightarrow> nat" where
  "persistence_id WorldSurface = 0"
| "persistence_id MotionBlocking = 1"
| "persistence_id MotionBlockingNoLeaves = 2"
| "persistence_id OceanFloor = 3"
| "persistence_id WorldSurfaceWg = 4"
| "persistence_id OceanFloorWg = 5"

definition from_persistence_id :: "nat \<Rightarrow> heightmap_type option" where
  "from_persistence_id i =
     (if i = 0 then Some WorldSurface else if i = 1 then Some MotionBlocking
      else if i = 2 then Some MotionBlockingNoLeaves else if i = 3 then Some OceanFloor
      else if i = 4 then Some WorldSurfaceWg else if i = 5 then Some OceanFloorWg else None)"

definition WORLD_SURFACE_MASK :: "8 word" where "WORLD_SURFACE_MASK = push_bit 0 1"
definition MOTION_BLOCKING_MASK :: "8 word" where "MOTION_BLOCKING_MASK = push_bit 1 1"
definition MOTION_BLOCKING_NO_LEAVES_MASK :: "8 word" where "MOTION_BLOCKING_NO_LEAVES_MASK = push_bit 2 1"
definition OCEAN_FLOOR_MASK :: "8 word" where "OCEAN_FLOOR_MASK = push_bit 3 1"
definition WORLD_SURFACE_WG_MASK :: "8 word" where "WORLD_SURFACE_WG_MASK = push_bit 4 1"
definition OCEAN_FLOOR_WG_MASK :: "8 word" where "OCEAN_FLOOR_WG_MASK = push_bit 5 1"

fun hm_mask :: "heightmap_type \<Rightarrow> 8 word" where
  "hm_mask WorldSurface = WORLD_SURFACE_MASK"
| "hm_mask MotionBlocking = MOTION_BLOCKING_MASK"
| "hm_mask MotionBlockingNoLeaves = MOTION_BLOCKING_NO_LEAVES_MASK"
| "hm_mask OceanFloor = OCEAN_FLOOR_MASK"
| "hm_mask WorldSurfaceWg = WORLD_SURFACE_WG_MASK"
| "hm_mask OceanFloorWg = OCEAN_FLOOR_WG_MASK"

fun heightmaps_after :: "chunk_status \<Rightarrow> heightmap_type list" where
  "heightmaps_after Empty = worldgen_types"
| "heightmaps_after StructureStarts = worldgen_types"
| "heightmaps_after StructureReferences = worldgen_types"
| "heightmaps_after Biomes = worldgen_types"
| "heightmaps_after Noise = worldgen_types"
| "heightmaps_after Surface = worldgen_types"
| "heightmaps_after Carvers = final_types"
| "heightmaps_after Features = final_types"
| "heightmaps_after InitializeLight = final_types"
| "heightmaps_after Light = final_types"
| "heightmaps_after Spawn = final_types"
| "heightmaps_after Full = final_types"

section \<open>Which blocks count\<close>

text \<open>
  The answers of the registry: the number of block states, whether the block of a state is
  configured as air, whether the cached metadata of the state say it is air, whether the state
  blocks motion, holds fluid, and whether its block is in the leaves tag.
\<close>

record block_registry =
  state_count :: nat
  config_is_air :: "16 word \<Rightarrow> bool"
  metadata_is_air :: "16 word \<Rightarrow> bool"
  blocks_motion :: "16 word \<Rightarrow> bool"
  state_has_fluid :: "16 word \<Rightarrow> bool"
  is_leaves :: "16 word \<Rightarrow> bool"

definition build_world_surface_opacity_masks :: "block_registry \<Rightarrow> 8 word list option" where
  "build_world_surface_opacity_masks R =
     (if state_count R \<le> 65536 then
        Some (map (\<lambda>i. if config_is_air R (of_nat i) then 0 else WORLD_SURFACE_MASK OR WORLD_SURFACE_WG_MASK) [0..<state_count R])
      else None)"

definition state_opacity_mask :: "block_registry \<Rightarrow> 16 word \<Rightarrow> 8 word" where
  "state_opacity_mask R v =
     (if config_is_air R v then 0
      else
        (let m1 = WORLD_SURFACE_MASK OR WORLD_SURFACE_WG_MASK;
             m2 = (if blocks_motion R v then m1 OR (OCEAN_FLOOR_MASK OR OCEAN_FLOOR_WG_MASK) else m1)
         in if blocks_motion R v \<or> state_has_fluid R v
            then (let m3 = m2 OR MOTION_BLOCKING_MASK in if is_leaves R v then m3 else m3 OR MOTION_BLOCKING_NO_LEAVES_MASK)
            else m2))"

definition build_state_opacity_masks :: "block_registry \<Rightarrow> 8 word list option" where
  "build_state_opacity_masks R =
     (if state_count R \<le> 65536 then Some (map (\<lambda>i. state_opacity_mask R (of_nat i)) [0..<state_count R]) else None)"

definition heightmap_opacity_mask :: "block_registry \<Rightarrow> 16 word \<Rightarrow> 8 word \<Rightarrow> 8 word option" where
  "heightmap_opacity_mask R v requested_mask =
     (case (if requested_mask AND NOT (WORLD_SURFACE_MASK OR WORLD_SURFACE_WG_MASK) = 0
            then build_world_surface_opacity_masks R else build_state_opacity_masks R) of
        None \<Rightarrow> None
      | Some masks \<Rightarrow> if unat v < length masks then Some (masks ! unat v AND requested_mask) else None)"

definition is_opaque :: "block_registry \<Rightarrow> heightmap_type \<Rightarrow> 16 word \<Rightarrow> bool option" where
  "is_opaque R t v = map_option (\<lambda>m. m \<noteq> 0) (heightmap_opacity_mask R v (hm_mask t))"

definition state_is_air :: "block_registry \<Rightarrow> 16 word \<Rightarrow> bool option" where
  "state_is_air R v = (if unat v < state_count R then Some (metadata_is_air R v) else None)"

section \<open>One heightmap\<close>

record heightmap =
  hm_data :: "16 word list"
  map_type :: heightmap_type
  hm_min_y :: int
  hm_height :: int

definition hm_new :: "heightmap_type \<Rightarrow> int \<Rightarrow> int \<Rightarrow> heightmap" where
  "hm_new t min_y height = \<lparr>hm_data = replicate 256 0, map_type = t, hm_min_y = min_y, hm_height = height\<rparr>"

definition hm_index :: "nat \<Rightarrow> nat \<Rightarrow> nat" where
  "hm_index local_x local_z = local_x + local_z * 16"

definition get_first_available :: "nat \<Rightarrow> nat \<Rightarrow> heightmap \<Rightarrow> int option" where
  "get_first_available local_x local_z h =
     (if hm_index local_x local_z < length (hm_data h)
      then Some (wrap_i32 (int (unat (hm_data h ! hm_index local_x local_z)) + hm_min_y h)) else None)"

definition get_highest_taken :: "nat \<Rightarrow> nat \<Rightarrow> heightmap \<Rightarrow> int option" where
  "get_highest_taken local_x local_z h = map_option (\<lambda>y. wrap_i32 (y - 1)) (get_first_available local_x local_z h)"

definition set_height :: "nat \<Rightarrow> nat \<Rightarrow> int \<Rightarrow> heightmap \<Rightarrow> heightmap option" where
  "set_height local_x local_z y h =
     (if hm_index local_x local_z < length (hm_data h)
      then Some (h\<lparr>hm_data := (hm_data h)[hm_index local_x local_z := word_of_int (wrap_i32 (y - hm_min_y h))]\<rparr>) else None)"

text \<open>The downward scan; the block reader can panic.\<close>

fun scan_down :: "block_registry \<Rightarrow> heightmap_type \<Rightarrow> (int \<Rightarrow> 16 word option) \<Rightarrow> int list \<Rightarrow> int option option" where
  "scan_down R t get_block [] = Some None"
| "scan_down R t get_block (y # ys) =
     (case get_block y of
        None \<Rightarrow> None
      | Some v \<Rightarrow>
          (case is_opaque R t v of
             None \<Rightarrow> None
           | Some opaque \<Rightarrow> if opaque then Some (Some y) else scan_down R t get_block ys))"

definition hm_update ::
  "block_registry \<Rightarrow> nat \<Rightarrow> int \<Rightarrow> nat \<Rightarrow> 16 word \<Rightarrow> (nat \<Rightarrow> int \<Rightarrow> nat \<Rightarrow> 16 word option) \<Rightarrow> heightmap \<Rightarrow> (bool \<times> heightmap) option" where
  "hm_update R local_x y local_z v get_block h =
     (case get_first_available local_x local_z h of
        None \<Rightarrow> None
      | Some first_available \<Rightarrow>
          if y \<le> wrap_i32 (first_available - 2) then Some (False, h)
          else
            (case is_opaque R (map_type h) v of
               None \<Rightarrow> None
             | Some opaque \<Rightarrow>
                 if opaque then
                   (if first_available \<le> y
                    then map_option (Pair True) (set_height local_x local_z (wrap_i32 (y + 1)) h) else Some (False, h))
                 else if wrap_i32 (first_available - 1) = y then
                   (case scan_down R (map_type h) (\<lambda>scan_y. get_block local_x scan_y local_z) (rev [hm_min_y h..y - 1]) of
                      None \<Rightarrow> None
                    | Some (Some scan_y) \<Rightarrow> map_option (Pair True) (set_height local_x local_z (wrap_i32 (scan_y + 1)) h)
                    | Some None \<Rightarrow> map_option (Pair True) (set_height local_x local_z (hm_min_y h) h))
                 else Some (False, h)))"

definition update_for_initial_fill :: "block_registry \<Rightarrow> nat \<Rightarrow> int \<Rightarrow> nat \<Rightarrow> 16 word \<Rightarrow> heightmap \<Rightarrow> (bool \<times> heightmap) option" where
  "update_for_initial_fill R local_x y local_z v h =
     (case (get_first_available local_x local_z h, is_opaque R (map_type h) v) of
        (Some first_available, Some opaque) \<Rightarrow>
          if opaque \<and> first_available \<le> y
          then map_option (Pair True) (set_height local_x local_z (wrap_i32 (y + 1)) h) else Some (False, h)
      | _ \<Rightarrow> None)"

definition calculate_bits_per_value :: "int \<Rightarrow> nat" where
  "calculate_bits_per_value height =
     (let max_value = (word_of_int height :: 32 word) + 1
      in if max_value \<le> 1 then 1 else 32 - leading_zeros (max_value - 1))"

definition raw_step :: "nat \<Rightarrow> nat \<times> 16 word \<Rightarrow> 64 word list \<Rightarrow> 64 word list" where
  "raw_step bits_per_value e result =
     (let values_per_long = 64 div bits_per_value;
          m = push_bit bits_per_value 1 - 1;
          long_index = fst e div values_per_long;
          bit_offset = (fst e mod values_per_long) * bits_per_value
      in result[long_index := result ! long_index OR push_bit bit_offset (ucast (snd e) AND m)])"

definition get_raw_data :: "heightmap \<Rightarrow> 64 word list" where
  "get_raw_data h =
     (let bits_per_value = calculate_bits_per_value (hm_height h);
          values_per_long = 64 div bits_per_value;
          num_longs = (256 + values_per_long - 1) div values_per_long
      in fold (raw_step bits_per_value) (enumerate 0 (hm_data h)) (replicate num_longs 0))"

section \<open>The heightmaps of a chunk\<close>

record chunk_heightmaps =
  world_surface_wg :: "heightmap option"
  ocean_floor_wg :: "heightmap option"
  world_surface :: "heightmap option"
  motion_blocking :: "heightmap option"
  motion_blocking_no_leaves :: "heightmap option"
  ocean_floor :: "heightmap option"

definition hms_empty :: chunk_heightmaps where
  "hms_empty = \<lparr>world_surface_wg = None, ocean_floor_wg = None, world_surface = None, motion_blocking = None,
                motion_blocking_no_leaves = None, ocean_floor = None\<rparr>"

fun hms_get :: "heightmap_type \<Rightarrow> chunk_heightmaps \<Rightarrow> heightmap option" where
  "hms_get WorldSurfaceWg m = world_surface_wg m"
| "hms_get OceanFloorWg m = ocean_floor_wg m"
| "hms_get WorldSurface m = world_surface m"
| "hms_get MotionBlocking m = motion_blocking m"
| "hms_get MotionBlockingNoLeaves m = motion_blocking_no_leaves m"
| "hms_get OceanFloor m = ocean_floor m"

text \<open>Storing into the slot of a kind: what is done through \<open>get_mut\<close> and \<open>get_or_insert\<close>.\<close>

fun hms_put :: "heightmap_type \<Rightarrow> heightmap \<Rightarrow> chunk_heightmaps \<Rightarrow> chunk_heightmaps" where
  "hms_put WorldSurfaceWg h m = m\<lparr>world_surface_wg := Some h\<rparr>"
| "hms_put OceanFloorWg h m = m\<lparr>ocean_floor_wg := Some h\<rparr>"
| "hms_put WorldSurface h m = m\<lparr>world_surface := Some h\<rparr>"
| "hms_put MotionBlocking h m = m\<lparr>motion_blocking := Some h\<rparr>"
| "hms_put MotionBlockingNoLeaves h m = m\<lparr>motion_blocking_no_leaves := Some h\<rparr>"
| "hms_put OceanFloor h m = m\<lparr>ocean_floor := Some h\<rparr>"

definition hms_replace :: "heightmap \<Rightarrow> chunk_heightmaps \<Rightarrow> chunk_heightmaps" where
  "hms_replace h m = hms_put (map_type h) h m"

definition get_or_insert :: "int \<Rightarrow> int \<Rightarrow> heightmap_type \<Rightarrow> chunk_heightmaps \<Rightarrow> chunk_heightmaps" where
  "get_or_insert min_y height t m = (case hms_get t m of None \<Rightarrow> hms_put t (hm_new t min_y height) m | Some _ \<Rightarrow> m)"

definition with_types :: "heightmap_type list \<Rightarrow> int \<Rightarrow> int \<Rightarrow> chunk_heightmaps" where
  "with_types types min_y height = fold (get_or_insert min_y height) types hms_empty"

definition hms_new :: "int \<Rightarrow> int \<Rightarrow> chunk_heightmaps" where
  "hms_new min_y height = with_types final_types min_y height"

definition get_final :: "heightmap_type \<Rightarrow> chunk_heightmaps \<Rightarrow> heightmap option" where
  "get_final t m = (if t = WorldSurfaceWg \<or> t = OceanFloorWg then None else hms_get t m)"

fun update_each ::
  "block_registry \<Rightarrow> (heightmap_type \<Rightarrow> chunk_heightmaps \<Rightarrow> heightmap option) \<Rightarrow> nat \<Rightarrow> int \<Rightarrow> nat \<Rightarrow> 16 word
     \<Rightarrow> (nat \<Rightarrow> int \<Rightarrow> nat \<Rightarrow> 16 word option) \<Rightarrow> heightmap_type list \<Rightarrow> chunk_heightmaps \<Rightarrow> chunk_heightmaps option" where
  "update_each R slot local_x y local_z v get_block [] m = Some m"
| "update_each R slot local_x y local_z v get_block (t # ts) m =
     (case slot t m of
        None \<Rightarrow> None
      | Some h \<Rightarrow>
          (case hm_update R local_x y local_z v get_block h of
             None \<Rightarrow> None
           | Some (_, h') \<Rightarrow> update_each R slot local_x y local_z v get_block ts (hms_put t h' m)))"

definition update_final ::
  "block_registry \<Rightarrow> nat \<Rightarrow> int \<Rightarrow> nat \<Rightarrow> 16 word \<Rightarrow> (nat \<Rightarrow> int \<Rightarrow> nat \<Rightarrow> 16 word option) \<Rightarrow> chunk_heightmaps \<Rightarrow> chunk_heightmaps option" where
  "update_final R local_x y local_z v get_block m = update_each R get_final local_x y local_z v get_block final_types m"

definition set_primed_height :: "heightmap_type \<Rightarrow> nat \<Rightarrow> nat \<Rightarrow> int \<Rightarrow> chunk_heightmaps \<Rightarrow> chunk_heightmaps option" where
  "set_primed_height t local_x local_z y m =
     (case hms_get t m of
        None \<Rightarrow> None
      | Some h \<Rightarrow> map_option (\<lambda>h'. hms_put t h' m) (set_height local_x local_z y h))"

section \<open>Priming\<close>

record priming =
  pending_masks :: "8 word list"
  pending_columns :: nat
  primed :: chunk_heightmaps

fun prime_types :: "8 word \<Rightarrow> nat \<Rightarrow> nat \<Rightarrow> int \<Rightarrow> (heightmap_type \<times> 8 word) list \<Rightarrow> chunk_heightmaps \<Rightarrow> chunk_heightmaps option" where
  "prime_types matched_mask x z y [] m = Some m"
| "prime_types matched_mask x z y ((t, k) # ts) m =
     (case (if matched_mask AND k \<noteq> 0 then set_primed_height t x z y m else Some m) of
        None \<Rightarrow> None
      | Some m' \<Rightarrow> prime_types matched_mask x z y ts m')"

definition prime_cell ::
  "block_registry \<Rightarrow> (heightmap_type \<times> 8 word) list \<Rightarrow> 16 word paletted_container \<Rightarrow> int \<Rightarrow> nat \<Rightarrow> nat \<Rightarrow> priming \<Rightarrow> priming option" where
  "prime_cell R types st y layer_start column_index p =
     (let pending_mask = pending_masks p ! column_index
      in if pending_mask = 0 then Some p
         else
           (case pc_get_at_index 16 (layer_start + column_index) st of
              None \<Rightarrow> None
            | Some v \<Rightarrow>
                (case heightmap_opacity_mask R v pending_mask of
                   None \<Rightarrow> None
                 | Some matched_mask \<Rightarrow>
                     if matched_mask = 0 then Some p
                     else
                       (case prime_types matched_mask (column_index mod 16) (column_index div 16) (wrap_i32 (y + 1)) types (primed p) of
                          None \<Rightarrow> None
                        | Some m \<Rightarrow>
                            (let rest = pending_mask AND NOT matched_mask
                             in Some (p\<lparr>pending_masks := (pending_masks p)[column_index := rest],
                                       pending_columns := if rest = 0 then pending_columns p - 1 else pending_columns p,
                                       primed := m\<rparr>))))))"

fun prime_layer ::
  "block_registry \<Rightarrow> (heightmap_type \<times> 8 word) list \<Rightarrow> 16 word paletted_container \<Rightarrow> int \<Rightarrow> nat \<Rightarrow> nat list \<Rightarrow> priming \<Rightarrow> priming option" where
  "prime_layer R types st y layer_start [] p = Some p"
| "prime_layer R types st y layer_start (c # cs) p =
     (case prime_cell R types st y layer_start c p of None \<Rightarrow> None | Some p' \<Rightarrow> prime_layer R types st y layer_start cs p')"

text \<open>The layers of a section from the top; the flag says that the loop over the sections is left.\<close>

fun prime_layers ::
  "block_registry \<Rightarrow> (heightmap_type \<times> 8 word) list \<Rightarrow> int \<Rightarrow> nat \<Rightarrow> 16 word paletted_container \<Rightarrow> nat list \<Rightarrow> priming \<Rightarrow> (bool \<times> priming) option" where
  "prime_layers R types min_y section_idx st [] p = Some (False, p)"
| "prime_layers R types min_y section_idx st (local_y # ys) p =
     (case prime_layer R types st (wrap_i32 (min_y + wrap_i32 (int (section_idx * 16 + local_y)))) (local_y * 16 * 16) [0..<length (pending_masks p)] p of
        None \<Rightarrow> None
      | Some p' \<Rightarrow> if pending_columns p' = 0 then Some (True, p') else prime_layers R types min_y section_idx st ys p')"

fun prime_sections ::
  "block_registry \<Rightarrow> (heightmap_type \<times> 8 word) list \<Rightarrow> int \<Rightarrow> chunk_section list \<Rightarrow> nat list \<Rightarrow> priming \<Rightarrow> priming option" where
  "prime_sections R types min_y secs [] p = Some p"
| "prime_sections R types min_y secs (i # is) p =
     (case (case states (secs ! i) of Homogeneous v \<Rightarrow> state_is_air R v | _ \<Rightarrow> Some False) of
        None \<Rightarrow> None
      | Some skip \<Rightarrow>
          if skip then prime_sections R types min_y secs is p
          else
            (case prime_layers R types min_y i (states (secs ! i)) (rev [0..<16]) p of
               None \<Rightarrow> None
             | Some (left, p') \<Rightarrow> if left then Some p' else prime_sections R types min_y secs is p'))"

definition prime_from_sections ::
  "block_registry \<Rightarrow> heightmap_type list \<Rightarrow> int \<Rightarrow> int \<Rightarrow> chunk_section list \<Rightarrow> chunk_heightmaps \<Rightarrow> chunk_heightmaps option" where
  "prime_from_sections R types min_y height secs m =
     (let to_prime = map (\<lambda>t. (t, hm_mask t)) (filter (\<lambda>t. hms_get t m = None) types)
      in if to_prime = [] then Some m
         else
           (let base = fold (\<lambda>e k. k OR snd e) to_prime 0;
                m1 = fold (\<lambda>e. get_or_insert min_y height (fst e)) to_prime m
            in map_option primed
                 (prime_sections R to_prime min_y secs (rev [0..<length secs])
                    \<lparr>pending_masks = replicate 256 base, pending_columns = 256, primed = m1\<rparr>)))"

section \<open>Heightmaps of a chunk under block changes\<close>

text \<open>The block reader that a chunk hands to its heightmaps.\<close>

definition scan_block :: "int \<Rightarrow> chunk_section list \<Rightarrow> nat \<Rightarrow> int \<Rightarrow> nat \<Rightarrow> 16 word option" where
  "scan_block min_y secs lx scan_y lz =
     (let d = wrap_i32 (scan_y - min_y);
          scan_section_index = nat ((sgn d * (\<bar>d\<bar> div 16)) mod 2 ^ 64);
          scan_local_y = nat ((sgn d * (\<bar>d\<bar> mod 16)) mod 2 ^ 64)
      in if scan_section_index < length secs then pc_get lx scan_local_y lz (states (secs ! scan_section_index)) else None)"

definition update_heightmaps_after_block_change ::
  "block_registry \<Rightarrow> int \<Rightarrow> int \<Rightarrow> chunk_section list \<Rightarrow> heightmap_type list \<Rightarrow> nat \<Rightarrow> int \<Rightarrow> nat \<Rightarrow> 16 word \<Rightarrow> chunk_heightmaps \<Rightarrow> chunk_heightmaps option" where
  "update_heightmaps_after_block_change R min_y height secs types local_x y local_z v m =
     (case prime_from_sections R types min_y height secs m of
        None \<Rightarrow> None
      | Some m1 \<Rightarrow> update_each R hms_get local_x y local_z v (scan_block min_y secs) types m1)"

fun update_writes ::
  "block_registry \<Rightarrow> int \<Rightarrow> chunk_section list \<Rightarrow> heightmap_type list \<Rightarrow> nat \<Rightarrow> nat \<Rightarrow> (nat \<times> 16 word) list \<Rightarrow> chunk_heightmaps \<Rightarrow> chunk_heightmaps option" where
  "update_writes R min_y secs types local_x local_z [] m = Some m"
| "update_writes R min_y secs types local_x local_z ((relative_y, v) # ws) m =
     (case update_each R hms_get local_x (wrap_i32 (min_y + wrap_i32 (int relative_y))) local_z v (scan_block min_y secs) types m of
        None \<Rightarrow> None
      | Some m' \<Rightarrow> update_writes R min_y secs types local_x local_z ws m')"

definition update_heightmaps_after_column_block_changes ::
  "block_registry \<Rightarrow> int \<Rightarrow> int \<Rightarrow> chunk_section list \<Rightarrow> heightmap_type list \<Rightarrow> nat \<Rightarrow> nat \<Rightarrow> (nat \<times> 16 word) list \<Rightarrow> chunk_heightmaps \<Rightarrow> chunk_heightmaps option" where
  "update_heightmaps_after_column_block_changes R min_y height secs types local_x local_z relative_writes m =
     (if relative_writes = [] then Some m
      else
        (case prime_from_sections R types min_y height secs m of
           None \<Rightarrow> None
         | Some m1 \<Rightarrow> update_writes R min_y secs types local_x local_z relative_writes m1))"

definition generation_height_at ::
  "block_registry \<Rightarrow> int \<Rightarrow> int \<Rightarrow> chunk_section list \<Rightarrow> heightmap_type \<Rightarrow> nat \<Rightarrow> nat \<Rightarrow> chunk_heightmaps \<Rightarrow> (int \<times> chunk_heightmaps) option" where
  "generation_height_at R min_y height secs t local_x local_z m =
     (case hms_get t m of
        Some h \<Rightarrow> map_option (\<lambda>y. (y, m)) (get_first_available local_x local_z h)
      | None \<Rightarrow>
          (case prime_from_sections R [t] min_y height secs m of
             None \<Rightarrow> None
           | Some m1 \<Rightarrow>
               (case hms_get t m1 of
                  None \<Rightarrow> None
                | Some h \<Rightarrow> map_option (\<lambda>y. (y, m1)) (get_first_available local_x local_z h))))"

definition get_height :: "heightmap_type \<Rightarrow> nat \<Rightarrow> nat \<Rightarrow> chunk_heightmaps \<Rightarrow> int option" where
  "get_height t local_x local_z m = Option.bind (get_final t m) (get_first_available local_x local_z)"

section \<open>The highest place that counts\<close>

text \<open>One above the greatest place below \<open>n\<close> with a property, or zero.\<close>

fun top :: "(nat \<Rightarrow> bool) \<Rightarrow> nat \<Rightarrow> nat" where
  "top P 0 = 0"
| "top P (Suc n) = (if P n then Suc n else top P n)"

text \<open>
  A height is near the top when it is wrong only because of places that are still to be treated:
  what counts at or above it, and the place just below it, is in \<open>B\<close>.
\<close>

definition near :: "(nat \<Rightarrow> bool) \<Rightarrow> nat set \<Rightarrow> nat \<Rightarrow> nat \<Rightarrow> bool" where
  "near P B n d \<longleftrightarrow> d \<le> n \<and> (\<forall>i. d \<le> i \<and> i < n \<and> P i \<longrightarrow> i \<in> B) \<and> (d = 0 \<or> P (d - 1) \<or> d - 1 \<in> B)"

lemma near_exact: "near P {} n d \<longleftrightarrow> d = top P n"
proof (induction n)
  case (Suc n)
  show ?case
  proof (cases "P n")
    case True
    then have "near P {} (Suc n) d \<longleftrightarrow> d = Suc n" by (auto simp: near_def le_Suc_eq)
    with True show ?thesis by simp
  next
    case False
    have "near P {} (Suc n) d \<longleftrightarrow> near P {} n d"
      using False by (auto simp: near_def less_Suc_eq le_Suc_eq)
    with False Suc show ?thesis by simp
  qed
qed (auto simp: near_def)

lemma top_near: "near P {} n (top P n)"
  by (simp add: near_exact)

lemma top_le: "top P n \<le> n"
  using top_near [of P n] by (simp add: near_def)

lemma near_change:
  assumes "near P A n d" and "\<forall>i < n. i \<notin> B \<longrightarrow> P i = Q i" and "A \<subseteq> B"
  shows "near Q B n d"
proof -
  have "i \<in> B" if "d \<le> i" "i < n" "Q i" for i using assms that unfolding near_def by blast
  moreover have "d = 0 \<or> Q (d - 1) \<or> d - 1 \<in> B"
  proof (cases "d = 0")
    case False
    then have "d - 1 < n" using assms(1) by (auto simp: near_def)
    then show ?thesis using assms unfolding near_def by blast
  qed simp
  ultimately show ?thesis using assms(1) by (simp add: near_def)
qed

lemma top_cong: "(\<And>i. i < n \<Longrightarrow> P i = Q i) \<Longrightarrow> top P n = top Q n"
  by (induction n) auto

text \<open>What an update does to a height, for a block at \<open>y\<close> that counts or does not.\<close>

definition next_top :: "(nat \<Rightarrow> bool) \<Rightarrow> bool \<Rightarrow> nat \<Rightarrow> nat \<Rightarrow> nat" where
  "next_top P opaque y d =
     (if y + 2 \<le> d then d else if opaque then (if d \<le> y then y + 1 else d) else if d = y + 1 then top P y else d)"

lemma near_step:
  assumes "near P B n d" and "y < n" and "B' = B - {y} \<or> B' = B" and "y \<notin> B' \<Longrightarrow> P y = opaque"
  shows "near P B' n (next_top P opaque y d)"
proof -
  have above: "i \<in> B" if "d \<le> i" "i < n" "P i" for i using assms(1) that by (auto simp: near_def)
  have below: "d = 0 \<or> P (d - 1) \<or> d - 1 \<in> B" and le: "d \<le> n" using assms(1) by (auto simp: near_def)
  have top: "i \<notin> {top P y..<y}" if "P i" for i using top_near [of P y] that by (auto simp: near_def)
  have topb: "top P y = 0 \<or> P (top P y - 1)" and tople: "top P y \<le> y" using top_near [of P y] by (auto simp: near_def)
  consider "y + 2 \<le> d" | "\<not> y + 2 \<le> d" opaque "d \<le> y" | "d = y + 1" opaque | "d = y + 1" "\<not> opaque" | "d \<le> y" "\<not> opaque"
    by linarith
  then show ?thesis
  proof cases
    case 1
    then have "next_top P opaque y d = d" by (simp add: next_top_def)
    moreover have "i \<in> B'" if "d \<le> i" "i < n" "P i" for i using above [OF that] 1 that assms(3) by auto
    moreover have "d = 0 \<or> P (d - 1) \<or> d - 1 \<in> B'" using below 1 assms(3) by auto
    ultimately show ?thesis using le by (simp add: near_def)
  next
    case 2
    then have "next_top P opaque y d = y + 1" by (simp add: next_top_def)
    moreover have "i \<in> B'" if "y + 1 \<le> i" "i < n" "P i" for i using above [of i] 2 that assms(3) by auto
    moreover have "P y \<or> y \<in> B'" using assms(4) 2 by blast
    ultimately show ?thesis using assms(2) by (simp add: near_def)
  next
    case 3
    then have "next_top P opaque y d = d" by (simp add: next_top_def)
    moreover have "i \<in> B'" if "d \<le> i" "i < n" "P i" for i using above [OF that] 3 that assms(3) by auto
    moreover have "P y \<or> y \<in> B'" using assms(4) 3 by blast
    ultimately show ?thesis using le 3 by (simp add: near_def)
  next
    case 4
    then have "next_top P opaque y d = top P y" by (simp add: next_top_def)
    moreover have "i \<in> B'" if i: "top P y \<le> i" "i < n" "P i" for i
    proof (cases "i = y")
      case True
      then show ?thesis using assms(4) 4 i(3) by blast
    next
      case False
      then have "d \<le> i" using top [OF i(3)] i(1) 4 by auto
      then show ?thesis using above [OF _ i(2,3)] False assms(3) by auto
    qed
    ultimately show ?thesis using topb tople assms(2) by (auto simp: near_def)
  next
    case 5
    then have "next_top P opaque y d = d" by (simp add: next_top_def)
    moreover have "i \<in> B'" if "d \<le> i" "i < n" "P i" for i using above [OF that] that assms(3,4) 5 by auto
    moreover have "d = 0 \<or> P (d - 1) \<or> d - 1 \<in> B'" using below 5 assms(3) by auto
    ultimately show ?thesis using le by (simp add: near_def)
  qed
qed

lemma next_top_changes: "next_top P opaque y d \<noteq> d \<longleftrightarrow> (\<not> y + 2 \<le> d \<and> (if opaque then d \<le> y else d = y + 1))"
  using top_le [of P y] by (auto simp: next_top_def)

section \<open>Opacity masks\<close>

fun counts :: "block_registry \<Rightarrow> heightmap_type \<Rightarrow> 16 word \<Rightarrow> bool" where
  "counts R WorldSurface v = (\<not> config_is_air R v)"
| "counts R WorldSurfaceWg v = (\<not> config_is_air R v)"
| "counts R OceanFloor v = (\<not> config_is_air R v \<and> blocks_motion R v)"
| "counts R OceanFloorWg v = (\<not> config_is_air R v \<and> blocks_motion R v)"
| "counts R MotionBlocking v = (\<not> config_is_air R v \<and> (blocks_motion R v \<or> state_has_fluid R v))"
| "counts R MotionBlockingNoLeaves v = (\<not> config_is_air R v \<and> (blocks_motion R v \<or> state_has_fluid R v) \<and> \<not> is_leaves R v)"

definition registry_ok :: "block_registry \<Rightarrow> bool" where
  "registry_ok R \<longleftrightarrow> state_count R \<le> 65536 \<and> (\<forall>v. metadata_is_air R v \<longrightarrow> config_is_air R v)"

lemmas mask_defs = WORLD_SURFACE_MASK_def MOTION_BLOCKING_MASK_def MOTION_BLOCKING_NO_LEAVES_MASK_def
  OCEAN_FLOOR_MASK_def WORLD_SURFACE_WG_MASK_def OCEAN_FLOOR_WG_MASK_def

lemma persistence_id_less: "persistence_id t < 6"
  by (cases t) simp_all

lemma from_persistence_id: "from_persistence_id (persistence_id t) = Some t"
  by (cases t) (simp_all add: from_persistence_id_def)

lemma persistence_id_inj: "persistence_id t = persistence_id u \<longleftrightarrow> t = u"
  using from_persistence_id by (metis option.inject)

lemma persistence_id_ex: "j < 6 \<Longrightarrow> \<exists>t. j = persistence_id t"
proof -
  assume "j < 6"
  then consider "j = 0" | "j = 1" | "j = 2" | "j = 3" | "j = 4" | "j = 5" by linarith
  then show ?thesis by cases (metis persistence_id.simps)+
qed

lemma bit_one_shift: "bit (push_bit i 1 :: 8 word) j \<longleftrightarrow> i < 8 \<and> j = i"
  by (auto simp: bit_exp_iff)

lemma mask_bits:
  "bit WORLD_SURFACE_MASK j \<longleftrightarrow> j = 0" "bit MOTION_BLOCKING_MASK j \<longleftrightarrow> j = 1" "bit MOTION_BLOCKING_NO_LEAVES_MASK j \<longleftrightarrow> j = 2"
  "bit OCEAN_FLOOR_MASK j \<longleftrightarrow> j = 3" "bit WORLD_SURFACE_WG_MASK j \<longleftrightarrow> j = 4" "bit OCEAN_FLOOR_WG_MASK j \<longleftrightarrow> j = 5"
  unfolding mask_defs bit_one_shift by auto

lemma bit_hm_mask: "bit (hm_mask t) j \<longleftrightarrow> j = persistence_id t"
  by (cases t) (simp_all add: mask_bits)

lemma state_mask_bit: "bit (state_opacity_mask R v) (persistence_id t) \<longleftrightarrow> counts R t v"
  by (cases t) (simp_all add: state_opacity_mask_def Let_def bit_or_iff mask_bits)

lemma word_AND_bits: "(a :: 8 word) AND b = 0 \<longleftrightarrow> (\<forall>j < 8. \<not> (bit a j \<and> bit b j))"
  by (auto simp: bit_eq_iff bit_and_iff)

lemma opacity_spec:
  assumes "registry_ok R" and "unat v < state_count R"
  shows "\<exists>k. heightmap_opacity_mask R v requested = Some k \<and> (\<forall>t. bit k (persistence_id t) \<longleftrightarrow> bit requested (persistence_id t) \<and> counts R t v)
    \<and> (\<forall>j. bit k j \<longrightarrow> bit requested j)"
proof (cases "requested AND NOT (WORLD_SURFACE_MASK OR WORLD_SURFACE_WG_MASK) = 0")
  case True
  then have only: "j = 0 \<or> j = 4" if "bit requested j" for j
  proof -
    have "j < 8" using bit_imp_le_length [OF that] by simp
    then have "bit (WORLD_SURFACE_MASK OR WORLD_SURFACE_WG_MASK) j" using True that unfolding word_AND_bits by (simp only: bit_not_iff) auto
    then show ?thesis by (simp add: bit_or_iff mask_bits)
  qed
  have "heightmap_opacity_mask R v requested =
      Some ((if config_is_air R v then 0 else WORLD_SURFACE_MASK OR WORLD_SURFACE_WG_MASK) AND requested)"
    using True assms by (simp add: heightmap_opacity_mask_def build_world_surface_opacity_masks_def registry_ok_def)
  moreover have "bit ((if config_is_air R v then 0 else WORLD_SURFACE_MASK OR WORLD_SURFACE_WG_MASK) AND requested) (persistence_id t)
      \<longleftrightarrow> bit requested (persistence_id t) \<and> counts R t v" for t
    using only [of "persistence_id t"] by (cases t) (auto simp: bit_and_iff bit_or_iff mask_bits)
  ultimately show ?thesis by (auto simp: bit_and_iff)
next
  case False
  then have "heightmap_opacity_mask R v requested = Some (state_opacity_mask R v AND requested)"
    using assms by (simp add: heightmap_opacity_mask_def build_state_opacity_masks_def registry_ok_def)
  then show ?thesis by (auto simp: bit_and_iff state_mask_bit)
qed

lemma is_opaque_spec:
  assumes "registry_ok R" and "unat v < state_count R"
  shows "is_opaque R t v = Some (counts R t v)"
proof -
  from opacity_spec [OF assms, of "hm_mask t"] obtain k where k: "heightmap_opacity_mask R v (hm_mask t) = Some k"
    "bit k (persistence_id t) \<longleftrightarrow> counts R t v" "\<And>j. bit k j \<Longrightarrow> j = persistence_id t"
    by (auto simp: bit_hm_mask)
  then have "k \<noteq> 0 \<longleftrightarrow> counts R t v" by (metis bit_0_eq bot_apply bot_bool_def bit_eqI)
  with k(1) show ?thesis by (simp add: is_opaque_def)
qed

section \<open>Columns of a chunk\<close>

text \<open>The block state at a place of a column, counted from the bottom of the chunk.\<close>

definition cell :: "chunk_section list \<Rightarrow> nat \<Rightarrow> nat \<Rightarrow> nat \<Rightarrow> 16 word" where
  "cell secs x z i = collect_values 16 (states (secs ! (i div 16))) ! cell_index 16 x (i mod 16) z"

text \<open>A chunk whose heights fit their types and whose block states the registry knows.\<close>

definition world_ok :: "block_registry \<Rightarrow> int \<Rightarrow> int \<Rightarrow> chunk_section list \<Rightarrow> bool" where
  "world_ok R min_y height secs \<longleftrightarrow> registry_ok R \<and> - (2 ^ 30) \<le> min_y \<and> min_y \<le> 2 ^ 30 \<and> height = int (16 * length secs) \<and> length secs < 4096 \<and>
     (\<forall>s \<in> set secs. pc_ok 16 (states s) \<and> (\<forall>v \<in> set (collect_values 16 (states s)). unat v < state_count R))"

lemma world_cells:
  assumes "world_ok R min_y height secs" and "x < 16" "z < 16" and "i < 16 * length secs"
  shows "pc_ok 16 (states (secs ! (i div 16)))" and "unat (cell secs x z i) < state_count R"
    and "pc_get x (i mod 16) z (states (secs ! (i div 16))) = Some (cell secs x z i)" and "i div 16 < length secs"
proof -
  show l: "i div 16 < length secs" using assms(4) by (simp add: less_mult_imp_div_less mult.commute)
  then have "secs ! (i div 16) \<in> set secs" by simp
  then show ok: "pc_ok 16 (states (secs ! (i div 16)))" and "unat (cell secs x z i) < state_count R"
    using assms(1) cell_index_less [of x 16 "i mod 16" z] assms(2,3) collect_values_length [of 16 "states (secs ! (i div 16))"]
    by (auto simp: world_ok_def cell_def)
  show "pc_get x (i mod 16) z (states (secs ! (i div 16))) = Some (cell secs x z i)"
    using pc_get_spec [OF ok assms(2) _ assms(3), of "i mod 16"] by (simp add: cell_def)
qed

lemma wrap_small [simp]: "- (2 ^ 31) \<le> x \<Longrightarrow> x < 2 ^ 31 \<Longrightarrow> wrap_i32 x = x"
  by (rule wrap_i32_id) (simp add: i32_ok_def)

lemma scan_block_spec:
  assumes "world_ok R min_y height secs" and "x < 16" "z < 16" and "i < 16 * length secs"
  shows "scan_block min_y secs x (min_y + int i) z = Some (cell secs x z i)"
proof -
  have "length secs < 4096" using assms(1) by (simp add: world_ok_def)
  then have i: "int i < 2 ^ 31" using assms(4) by simp
  have "sgn (int i) * (\<bar>int i\<bar> div 16) = int (i div 16)" "sgn (int i) * (\<bar>int i\<bar> mod 16) = int (i mod 16)"
    by (cases "i = 0"; simp add: zdiv_int zmod_int)+
  moreover have "int (i div 16) mod 2 ^ 64 = int (i div 16)" using i by (intro mod_pos_pos_trivial) auto
  moreover have "int (i mod 16) mod 2 ^ 64 = int (i mod 16)" by (intro mod_pos_pos_trivial) auto
  ultimately show ?thesis using world_cells(3,4) [OF assms] i by (simp add: scan_block_def Let_def)
qed

text \<open>One heightmap of a chunk, with the place of a height in it.\<close>

definition hm_ok :: "int \<Rightarrow> int \<Rightarrow> heightmap_type \<Rightarrow> heightmap \<Rightarrow> bool" where
  "hm_ok min_y height t h \<longleftrightarrow> length (hm_data h) = 256 \<and> map_type h = t \<and> hm_min_y h = min_y \<and> hm_height h = height"

definition height_at :: "nat \<Rightarrow> nat \<Rightarrow> heightmap \<Rightarrow> nat" where
  "height_at x z h = unat (hm_data h ! hm_index x z)"

lemma hm_index_less: "x < 16 \<Longrightarrow> z < 16 \<Longrightarrow> hm_index x z < 256"
  by (simp add: hm_index_def)

lemma hm_index_inj: "x < 16 \<Longrightarrow> z < 16 \<Longrightarrow> x' < 16 \<Longrightarrow> z' < 16 \<Longrightarrow> hm_index x z = hm_index x' z' \<longleftrightarrow> x = x' \<and> z = z'"
proof
  assume r: "x < 16" "z < 16" "x' < 16" "z' < 16" and e: "hm_index x z = hm_index x' z'"
  have "hm_index x z mod 16 = x" "hm_index x' z' mod 16 = x'" using r by (simp_all add: hm_index_def)
  moreover have "hm_index x z div 16 = z" "hm_index x' z' div 16 = z'" using r by (simp_all add: hm_index_def)
  ultimately show "x = x' \<and> z = z'" using e by simp
qed simp

lemma height_at_less: "height_at x z h < 65536"
  using unsigned_less [of "hm_data h ! hm_index x z"] by (simp add: height_at_def)

lemma first_available_spec:
  assumes "hm_ok min_y height t h" and "x < 16" "z < 16" and "- (2 ^ 30) \<le> min_y" "min_y \<le> 2 ^ 30"
  shows "get_first_available x z h = Some (min_y + int (height_at x z h))"
proof -
  have "wrap_i32 (int (height_at x z h) + min_y) = min_y + int (height_at x z h)"
    using assms(4,5) height_at_less [of x z h] by (subst wrap_small) simp_all
  then show ?thesis
    using assms hm_index_less [OF assms(2,3)] by (simp add: get_first_available_def hm_ok_def height_at_def)
qed

lemma set_height_spec:
  assumes "hm_ok min_y height t h" and "x < 16" "z < 16" and "d < 65536"
  shows "\<exists>h'. set_height x z (min_y + int d) h = Some h' \<and> hm_ok min_y height t h' \<and>
    (\<forall>x' < 16. \<forall>z' < 16. height_at x' z' h' = (if (x', z') = (x, z) then d else height_at x' z' h))"
proof -
  have "wrap_i32 (int d) = int d" using assms(4) by simp
  moreover have "unat (word_of_int (int d) :: 16 word) = d" using assms(4) by (simp add: unsigned_of_nat take_bit_nat_eq_self)
  ultimately show ?thesis
    using assms(1) hm_index_less [OF assms(2,3)] hm_index_inj [OF assms(2,3)]
    by (auto simp: set_height_def hm_ok_def height_at_def nth_list_update)
qed

lemma scan_down_spec:
  assumes "registry_ok R" and "\<And>i. i < n \<Longrightarrow> get_block (min_y + int i) = Some (c i) \<and> unat (c i) < state_count R"
  shows "scan_down R t get_block (rev [min_y..min_y + int n - 1]) =
    Some (if top (\<lambda>i. counts R t (c i)) n = 0 then None else Some (min_y + int (top (\<lambda>i. counts R t (c i)) n) - 1))"
  using assms(2)
proof (induction n)
  case (Suc n)
  have "[min_y..min_y + int (Suc n) - 1] = [min_y..min_y + int n - 1] @ [min_y + int n]"
    using upto_rec2 [of min_y "min_y + int n"] by (simp add: add.commute)
  moreover have "scan_down R t get_block (rev [min_y..min_y + int n - 1]) =
    Some (if top (\<lambda>i. counts R t (c i)) n = 0 then None else Some (min_y + int (top (\<lambda>i. counts R t (c i)) n) - 1))"
    by (rule Suc.IH) (rule Suc.prems, simp)
  ultimately show ?case using Suc.prems [of n] is_opaque_spec [OF assms(1), of "c n" t] by simp
qed simp

lemma hm_update_spec:
  assumes "world_ok R min_y height secs" and "hm_ok min_y height t h" and "x < 16" "z < 16" and "y < 16 * length secs"
    and "unat v < state_count R"
  defines "d \<equiv> height_at x z h"
  defines "d' \<equiv> next_top (\<lambda>i. counts R t (cell secs x z i)) (counts R t v) y d"
  shows "\<exists>h'. hm_update R x (min_y + int y) z v (scan_block min_y secs) h = Some (d' \<noteq> d, h') \<and> hm_ok min_y height t h' \<and>
    (\<forall>x' < 16. \<forall>z' < 16. height_at x' z' h' = (if (x', z') = (x, z) then d' else height_at x' z' h))"
proof -
  let ?P = "\<lambda>i. counts R t (cell secs x z i)"
  have w: "registry_ok R" "- (2 ^ 30) \<le> min_y" "min_y \<le> 2 ^ 30" "length secs < 4096" using assms(1) by (simp_all add: world_ok_def)
  have fa: "get_first_available x z h = Some (min_y + int d)" unfolding d_def by (rule first_available_spec [OF assms(2-4) w(2,3)])
  have t: "map_type h = t" "hm_min_y h = min_y" using assms(2) by (simp_all add: hm_ok_def)
  have d: "d < 65536" unfolding d_def by (rule height_at_less)
  have y: "y < 65535" using assms(5) w(4) by simp
  have wraps: "wrap_i32 (min_y + int d - 2) = min_y + int d - 2" "wrap_i32 (min_y + int d - 1) = min_y + int d - 1"
    "wrap_i32 (min_y + int y + 1) = min_y + int (Suc y)" using w d y by simp_all
  have op: "is_opaque R t v = Some (counts R t v)" by (rule is_opaque_spec [OF w(1) assms(6)])
  have scan: "scan_down R t (\<lambda>scan_y. scan_block min_y secs x scan_y z) (rev [min_y..min_y + int y - 1]) =
      Some (if top ?P y = 0 then None else Some (min_y + int (top ?P y) - 1))"
    by (rule scan_down_spec [OF w(1)]) (use scan_block_spec [OF assms(1,3,4)] world_cells(2) [OF assms(1,3,4)] assms(5) in auto)
  have top: "top ?P y < 65536" using top_le [of ?P y] y by simp
  have again: "wrap_i32 (min_y + int (top ?P y) - 1 + 1) = min_y + int (top ?P y)" using w top by simp
  note up = set_height_spec [OF assms(2-4), of "Suc y"] and down = set_height_spec [OF assms(2-4) top]
  consider "y + 2 \<le> d" | "\<not> y + 2 \<le> d" "counts R t v" "d \<le> y" | "d = y + 1" "counts R t v"
    | "d = y + 1" "\<not> counts R t v" | "d \<le> y" "\<not> counts R t v"
    by linarith
  then show ?thesis
  proof cases
    case 4
    have "hm_update R x (min_y + int y) z v (scan_block min_y secs) h =
        map_option (Pair True) (set_height x z (min_y + int (top ?P y)) h)"
      using 4 fa wraps op t scan again by (simp add: hm_update_def)
    moreover have "d' = top ?P y" "d' \<noteq> d" using 4 top_le [of ?P y] by (simp_all add: d'_def next_top_def)
    ultimately show ?thesis using down by auto
  next
    case 2
    have "hm_update R x (min_y + int y) z v (scan_block min_y secs) h = map_option (Pair True) (set_height x z (min_y + int (Suc y)) h)"
      using 2 fa wraps op t by (simp add: hm_update_def)
    moreover have "d' = Suc y" "d' \<noteq> d" using 2 by (simp_all add: d'_def next_top_def)
    ultimately show ?thesis using up y by auto
  qed (use fa wraps op t assms(2) in \<open>auto simp: hm_update_def d'_def next_top_def d_def\<close>)
qed

section \<open>All heightmaps of a chunk\<close>

lemma hms_get_put [simp]: "hms_get t (hms_put u h m) = (if t = u then Some h else hms_get t m)"
  by (cases t; cases u) auto

definition maps_near ::
  "block_registry \<Rightarrow> int \<Rightarrow> int \<Rightarrow> chunk_section list \<Rightarrow> heightmap_type set \<Rightarrow> (nat \<Rightarrow> nat \<Rightarrow> nat set) \<Rightarrow> chunk_heightmaps \<Rightarrow> bool" where
  "maps_near R min_y height secs T B m \<longleftrightarrow> (\<forall>t \<in> T. \<exists>h. hms_get t m = Some h \<and> hm_ok min_y height t h \<and>
     (\<forall>x < 16. \<forall>z < 16. near (\<lambda>i. counts R t (cell secs x z i)) (B x z) (16 * length secs) (height_at x z h)))"

text \<open>Every map of the given kinds tells the highest place that counts, in every column.\<close>

definition maps_exact :: "block_registry \<Rightarrow> int \<Rightarrow> int \<Rightarrow> chunk_section list \<Rightarrow> heightmap_type set \<Rightarrow> chunk_heightmaps \<Rightarrow> bool" where
  "maps_exact R min_y height secs T m \<longleftrightarrow> (\<forall>t \<in> T. \<exists>h. hms_get t m = Some h \<and> hm_ok min_y height t h \<and>
     (\<forall>x < 16. \<forall>z < 16. height_at x z h = top (\<lambda>i. counts R t (cell secs x z i)) (16 * length secs)))"

lemma maps_exact_near: "maps_exact R min_y height secs T m \<longleftrightarrow> maps_near R min_y height secs T (\<lambda>_ _. {}) m"
  by (simp add: maps_exact_def maps_near_def near_exact)

lemma maps_near_cong:
  "maps_near R min_y height secs T B m \<Longrightarrow> (\<And>t. t \<in> T \<Longrightarrow> hms_get t m' = hms_get t m) \<Longrightarrow> maps_near R min_y height secs T B m'"
  by (simp add: maps_near_def)

lemma maps_near_Un:
  "maps_near R min_y height secs S B m \<Longrightarrow> maps_near R min_y height secs T B m \<Longrightarrow> maps_near R min_y height secs (S \<union> T) B m"
  by (simp add: maps_near_def ball_Un)

lemma maps_near_change:
  assumes "maps_near R min_y height secs T A m" and "length secs' = length secs"
    and "\<And>x z i. x < 16 \<Longrightarrow> z < 16 \<Longrightarrow> i < 16 * length secs \<Longrightarrow> i \<notin> B x z \<Longrightarrow> cell secs' x z i = cell secs x z i"
    and "\<And>x z. A x z \<subseteq> B x z"
  shows "maps_near R min_y height secs' T B m"
proof -
  have "near (\<lambda>i. counts R t (cell secs' x z i)) (B x z) (16 * length secs) d"
    if "near (\<lambda>i. counts R t (cell secs x z i)) (A x z) (16 * length secs) d" "x < 16" "z < 16" for t x z d
    by (rule near_change [OF that(1)]) (use assms(3,4) that(2,3) in auto)
  then show ?thesis using assms(1,2) unfolding maps_near_def by metis
qed

lemma update_each_spec:
  assumes "world_ok R min_y height secs" and "maps_near R min_y height secs (set types) B m" and "distinct types"
    and "x < 16" "z < 16" and "y < 16 * length secs" and "unat v < state_count R"
    and "C = B x z - {y} \<or> C = B x z" and "y \<notin> C \<Longrightarrow> cell secs x z y = v"
    and "\<And>t m. t \<in> set types \<Longrightarrow> slot t m = hms_get t m"
  shows "\<exists>m'. update_each R slot x (min_y + int y) z v (scan_block min_y secs) types m = Some m'
    \<and> maps_near R min_y height secs (set types) (\<lambda>x' z'. if (x', z') = (x, z) then C else B x' z') m'
    \<and> (\<forall>t. t \<notin> set types \<longrightarrow> hms_get t m' = hms_get t m)"
  using assms(2,3,10)
proof (induction types arbitrary: m)
  case (Cons t ts)
  let ?B = "\<lambda>x' z'. if (x', z') = (x, z) then C else B x' z'" and ?P = "\<lambda>x z i. counts R t (cell secs x z i)"
  from Cons.prems(1) obtain h where h: "hms_get t m = Some h" "hm_ok min_y height t h"
    "\<And>x z. x < 16 \<Longrightarrow> z < 16 \<Longrightarrow> near (?P x z) (B x z) (16 * length secs) (height_at x z h)" by (auto simp: maps_near_def)
  from hm_update_spec [OF assms(1) h(2) assms(4-7)] obtain h' b where
    h': "hm_update R x (min_y + int y) z v (scan_block min_y secs) h = Some (b, h')" "hm_ok min_y height t h'"
    "\<And>x' z'. x' < 16 \<Longrightarrow> z' < 16 \<Longrightarrow> height_at x' z' h' =
      (if (x', z') = (x, z) then next_top (?P x z) (counts R t v) y (height_at x z h) else height_at x' z' h)" by blast
  have here: "near (?P x z) C (16 * length secs) (next_top (?P x z) (counts R t v) y (height_at x z h))"
    by (rule near_step [OF h(3) assms(6,8)]) (use assms(4,5,9) in auto)
  have rest: "maps_near R min_y height secs (set ts) B (hms_put t h' m)"
    using Cons.prems(1,2) by (auto simp: maps_near_def)
  from Cons.IH [OF rest] Cons.prems(2,3) obtain m' where
    m': "update_each R slot x (min_y + int y) z v (scan_block min_y secs) ts (hms_put t h' m) = Some m'"
    "maps_near R min_y height secs (set ts) ?B m'" "\<forall>u. u \<notin> set ts \<longrightarrow> hms_get u m' = hms_get u (hms_put t h' m)" by auto
  have "hms_get t m' = Some h'" using m'(3) Cons.prems(2) by simp
  moreover have "near (?P x' z') (?B x' z') (16 * length secs) (height_at x' z' h')" if "x' < 16" "z' < 16" for x' z'
    using h'(3) [OF that] here h(3) [OF that] by auto
  ultimately have "maps_near R min_y height secs (set (t # ts)) ?B m'" using m'(2) h'(2) by (simp add: maps_near_def)
  moreover have "update_each R slot x (min_y + int y) z v (scan_block min_y secs) (t # ts) m = Some m'"
    using h(1) h'(1) m'(1) Cons.prems(3) by simp
  ultimately show ?case using m'(3) by auto
qed (simp add: maps_near_def)

lemma update_writes_spec:
  assumes "world_ok R min_y height secs" and "distinct types" and "x < 16" "z < 16"
    and "maps_near R min_y height secs (set types) (\<lambda>x' z'. if (x', z') = (x, z) then fst ` set ws else {}) m"
    and "\<forall>(y, v) \<in> set ws. y < 16 * length secs \<and> unat v < state_count R"
    and "\<And>y v. map_of (rev ws) y = Some v \<Longrightarrow> cell secs x z y = v"
  shows "\<exists>m'. update_writes R min_y secs types x z ws m = Some m' \<and> maps_exact R min_y height secs (set types) m'
    \<and> (\<forall>t. t \<notin> set types \<longrightarrow> hms_get t m' = hms_get t m)"
  using assms(5-7)
proof (induction ws arbitrary: m)
  case Nil
  have none: "(\<lambda>x' z'. if (x', z') = (x, z) then fst ` set ([] :: (nat \<times> 16 word) list) else {}) = (\<lambda>_ _. {})" by (simp add: fun_eq_iff)
  from Nil.prems(1) [unfolded none] show ?case by (simp add: maps_exact_near)
next
  case (Cons w ws)
  obtain y v where w: "w = (y, v)" by (cases w)
  let ?B = "\<lambda>ws x' z'. if (x', z') = (x, z) then fst ` set ws else {}"
  have y: "y < 16 * length secs" "unat v < state_count R" using Cons.prems(2) w by auto
  have C: "fst ` set ws = ?B (w # ws) x z - {y} \<or> fst ` set ws = ?B (w # ws) x z" using w by (auto simp: image_iff)
  have last: "cell secs x z y = v" if "y \<notin> fst ` set ws"
  proof (rule Cons.prems(3))
    have "map_of (rev ws) y = None" using that by (simp add: map_of_eq_None_iff)
    then show "map_of (rev (w # ws)) y = Some v" using w by (simp add: map_add_def)
  qed
  from update_each_spec [OF assms(1) Cons.prems(1) assms(2-4) y C last refl] obtain m1 where
    m1: "update_each R hms_get x (min_y + int y) z v (scan_block min_y secs) types m = Some m1"
    "maps_near R min_y height secs (set types) (\<lambda>x' z'. if (x', z') = (x, z) then fst ` set ws else ?B (w # ws) x' z') m1"
    "\<forall>t. t \<notin> set types \<longrightarrow> hms_get t m1 = hms_get t m" by blast
  have "(\<lambda>x' z'. if (x', z') = (x, z) then fst ` set ws else ?B (w # ws) x' z') = ?B ws" by (auto simp: fun_eq_iff)
  with m1(2) have near: "maps_near R min_y height secs (set types) (?B ws) m1" by simp
  have vals: "cell secs x z y' = v'" if "map_of (rev ws) y' = Some v'" for y' v'
    by (rule Cons.prems(3)) (use that in \<open>simp add: map_add_def\<close>)
  from Cons.IH [OF near _ vals] Cons.prems(2) obtain m2 where
    m2: "update_writes R min_y secs types x z ws m1 = Some m2" "maps_exact R min_y height secs (set types) m2"
    "\<forall>t. t \<notin> set types \<longrightarrow> hms_get t m2 = hms_get t m1" by auto
  have "wrap_i32 (min_y + wrap_i32 (int y)) = min_y + int y"
    using assms(1) y(1) by (auto simp: world_ok_def)
  then show ?case using m1(1,3) m2 w by simp
qed

section \<open>Priming scans every column from the top\<close>

text \<open>
  The state of the scan: column \<open>c\<close> is treated down to the place \<open>L c\<close>. A kind still pending in
  a column has met nothing that counts, the others have their height.
\<close>

definition column_ok :: "(nat \<Rightarrow> bool) \<Rightarrow> nat \<Rightarrow> nat \<Rightarrow> bool \<Rightarrow> nat \<Rightarrow> bool" where
  "column_ok P n l pending d \<longleftrightarrow> (if pending then d = 0 \<and> (\<forall>i. l \<le> i \<and> i < n \<longrightarrow> \<not> P i) else d = top P n)"

lemma column_ok_step:
  assumes "column_ok P n (Suc y) b d" and "y < n"
  shows "column_ok P n y (b \<and> \<not> P y) (if b \<and> P y then Suc y else d)"
proof (cases "b \<and> P y")
  case True
  with assms have "near P {} n (Suc y)" by (auto simp: near_def column_ok_def)
  with True show ?thesis by (simp add: near_exact column_ok_def)
next
  case False
  have "\<not> P i" if "b" "y \<le> i" "i < n" for i using False that assms(1) by (cases "i = y") (auto simp: column_ok_def)
  with False assms(1) show ?thesis by (auto simp: column_ok_def)
qed

definition scanned ::
  "block_registry \<Rightarrow> int \<Rightarrow> int \<Rightarrow> chunk_section list \<Rightarrow> heightmap_type set \<Rightarrow> chunk_heightmaps \<Rightarrow> (nat \<Rightarrow> nat) \<Rightarrow> priming \<Rightarrow> bool" where
  "scanned R min_y height secs T m0 L p \<longleftrightarrow>
     length (pending_masks p) = 256 \<and> pending_columns p = length (filter (\<lambda>k. k \<noteq> 0) (pending_masks p)) \<and>
     (\<forall>t. t \<notin> T \<longrightarrow> hms_get t (primed p) = hms_get t m0) \<and>
     (\<forall>t \<in> T. \<exists>h. hms_get t (primed p) = Some h \<and> hm_ok min_y height t h \<and>
        (\<forall>x < 16. \<forall>z < 16. column_ok (\<lambda>i. counts R t (cell secs x z i)) (16 * length secs) (L (hm_index x z))
           (bit (pending_masks p ! hm_index x z) (persistence_id t)) (height_at x z h)))"

definition treats :: "(heightmap_type \<times> 8 word) list \<Rightarrow> heightmap_type set \<Rightarrow> bool" where
  "treats types T \<longleftrightarrow> fst ` set types = T \<and> (\<forall>(t, k) \<in> set types. k = hm_mask t)"

lemma mask_test: "k AND hm_mask t \<noteq> 0 \<longleftrightarrow> bit k (persistence_id t)"
  using persistence_id_less [of t] by (auto simp: word_AND_bits bit_hm_mask)

lemma prime_types_spec:
  assumes "treats types T" and "\<forall>t \<in> T. \<exists>h. hms_get t m = Some h \<and> hm_ok min_y height t h" and "x < 16" "z < 16" and "d < 65536"
  shows "\<exists>m'. prime_types matched x z (min_y + int d) types m = Some m' \<and> (\<forall>t. t \<notin> T \<longrightarrow> hms_get t m' = hms_get t m) \<and>
    (\<forall>t \<in> T. \<exists>h h'. hms_get t m = Some h \<and> hms_get t m' = Some h' \<and> hm_ok min_y height t h' \<and>
       (\<forall>x' < 16. \<forall>z' < 16. height_at x' z' h' = (if (x', z') = (x, z) \<and> bit matched (persistence_id t) then d else height_at x' z' h)))"
  using assms(1,2)
proof (induction types arbitrary: m T)
  case Nil
  then show ?case by (auto simp: treats_def)
next
  case (Cons e es)
  obtain t k where e: "e = (t, k)" by (cases e)
  have k: "k = hm_mask t" and T: "T = insert t (fst ` set es)" and es: "treats es (fst ` set es)"
    using Cons.prems(1) e by (auto simp: treats_def)
  from Cons.prems(2) T obtain h where h: "hms_get t m = Some h" "hm_ok min_y height t h" by auto
  from set_height_spec [OF h(2) assms(3-5)] obtain h1 where h1: "set_height x z (min_y + int d) h = Some h1" "hm_ok min_y height t h1"
    "\<forall>x' < 16. \<forall>z' < 16. height_at x' z' h1 = (if (x', z') = (x, z) then d else height_at x' z' h)" by blast
  define h2 where "h2 = (if bit matched (persistence_id t) then h1 else h)"
  have h2: "hm_ok min_y height t h2"
    "\<forall>x' < 16. \<forall>z' < 16. height_at x' z' h2 = (if (x', z') = (x, z) \<and> bit matched (persistence_id t) then d else height_at x' z' h)"
    using h1 h(2) by (auto simp: h2_def)
  obtain m1 where m1: "(if matched AND k \<noteq> 0 then set_primed_height t x z (min_y + int d) m else Some m) = Some m1"
    "hms_get t m1 = Some h2" "\<And>u. u \<noteq> t \<Longrightarrow> hms_get u m1 = hms_get u m"
  proof (cases "bit matched (persistence_id t)")
    case True
    then have "(if matched AND k \<noteq> 0 then set_primed_height t x z (min_y + int d) m else Some m) = Some (hms_put t h1 m)"
      using h(1) h1(1) unfolding k mask_test by (simp add: set_primed_height_def)
    then show ?thesis using that [of "hms_put t h1 m"] True by (simp add: h2_def)
  next
    case False
    then show ?thesis using that [of m] h(1) unfolding k mask_test by (simp add: h2_def)
  qed
  have "\<forall>u \<in> fst ` set es. \<exists>h. hms_get u m1 = Some h \<and> hm_ok min_y height u h"
    using Cons.prems(2) T m1(2,3) h2(1) by (metis insertI2)
  from Cons.IH [OF es this] obtain m' where m': "prime_types matched x z (min_y + int d) es m1 = Some m'"
    "\<And>u. u \<notin> fst ` set es \<Longrightarrow> hms_get u m' = hms_get u m1"
    "\<And>u. u \<in> fst ` set es \<Longrightarrow> \<exists>h h'. hms_get u m1 = Some h \<and> hms_get u m' = Some h' \<and> hm_ok min_y height u h' \<and>
       (\<forall>x' < 16. \<forall>z' < 16. height_at x' z' h' = (if (x', z') = (x, z) \<and> bit matched (persistence_id u) then d else height_at x' z' h))" by blast
  have "\<exists>h h'. hms_get u m = Some h \<and> hms_get u m' = Some h' \<and> hm_ok min_y height u h' \<and>
       (\<forall>x' < 16. \<forall>z' < 16. height_at x' z' h' = (if (x', z') = (x, z) \<and> bit matched (persistence_id u) then d else height_at x' z' h))"
    if "u \<in> T" for u
  proof (cases "u = t")
    case True
    then show ?thesis
      using m'(2,3) [of t] m1(2) h(1) h2 by (cases "t \<in> fst ` set es") auto
  next
    case False
    then show ?thesis using m'(3) [of u] m1(3) [OF False] that T by auto
  qed
  then show ?case using m1 m' e T by auto
qed

lemma filter_list_update:
  "c < length ks \<Longrightarrow> P (ks ! c) \<Longrightarrow> length (filter P (ks[c := k])) = (if P k then length (filter P ks) else length (filter P ks) - 1)"
  using filter_update_count [of c ks P k] by (cases "P k") simp_all

text \<open>Treating one more cell of a column, for all kinds at once.\<close>

lemma scanned_step:
  assumes "scanned R min_y height secs T m0 L p" and "x < 16" "z < 16" and "L (hm_index x z) = Suc y" and "y < 16 * length secs"
    and "k' = pending_masks p ! hm_index x z AND NOT k"
    and "\<And>t. bit k (persistence_id t) \<longleftrightarrow> bit (pending_masks p ! hm_index x z) (persistence_id t) \<and> counts R t (cell secs x z y)"
    and "\<And>t. t \<notin> T \<Longrightarrow> hms_get t m' = hms_get t (primed p)"
    and "\<And>t. t \<in> T \<Longrightarrow> \<exists>h h'. hms_get t (primed p) = Some h \<and> hms_get t m' = Some h' \<and> hm_ok min_y height t h' \<and>
       (\<forall>x' < 16. \<forall>z' < 16. height_at x' z' h' = (if (x', z') = (x, z) \<and> bit k (persistence_id t) then Suc y else height_at x' z' h))"
    and "n' = length (filter (\<lambda>k. k \<noteq> 0) ((pending_masks p)[hm_index x z := k']))"
  shows "scanned R min_y height secs T m0 (L(hm_index x z := y))
    (p\<lparr>pending_masks := (pending_masks p)[hm_index x z := k'], pending_columns := n', primed := m'\<rparr>)"
  (is "scanned _ _ _ _ _ _ ?L ?p")
proof -
  let ?n = "16 * length secs" and ?c = "hm_index x z" and ?k = "pending_masks p ! hm_index x z"
  have len: "length (pending_masks p) = 256" using assms(1) by (simp add: scanned_def)
  have k': "bit k' (persistence_id t) \<longleftrightarrow> bit ?k (persistence_id t) \<and> \<not> counts R t (cell secs x z y)" for t
    using assms(7) [of t] bit_imp_le_length [of ?k] unfolding assms(6) by (auto simp: bit_and_iff bit_not_iff)
  have "\<exists>h. hms_get t (primed ?p) = Some h \<and> hm_ok min_y height t h \<and>
      (\<forall>x < 16. \<forall>z < 16. column_ok (\<lambda>i. counts R t (cell secs x z i)) ?n (?L (hm_index x z))
         (bit (pending_masks ?p ! hm_index x z) (persistence_id t)) (height_at x z h))" if t: "t \<in> T" for t
  proof -
    from assms(1) t obtain h where h: "hms_get t (primed p) = Some h"
      "\<And>x z. x < 16 \<Longrightarrow> z < 16 \<Longrightarrow> column_ok (\<lambda>i. counts R t (cell secs x z i)) ?n (L (hm_index x z))
         (bit (pending_masks p ! hm_index x z) (persistence_id t)) (height_at x z h)" unfolding scanned_def by blast
    from assms(9) [OF t] h(1) obtain h' where h': "hms_get t m' = Some h'" "hm_ok min_y height t h'"
      "\<And>x' z'. x' < 16 \<Longrightarrow> z' < 16 \<Longrightarrow> height_at x' z' h' = (if (x', z') = (x, z) \<and> bit k (persistence_id t) then Suc y else height_at x' z' h)" by auto
    have "column_ok (\<lambda>i. counts R t (cell secs x z i)) ?n y (bit ?k (persistence_id t) \<and> \<not> counts R t (cell secs x z y))
        (if bit ?k (persistence_id t) \<and> counts R t (cell secs x z y) then Suc y else height_at x z h)"
      using column_ok_step [OF h(2) [OF assms(2,3), unfolded assms(4)] assms(5)] .
    then have here: "column_ok (\<lambda>i. counts R t (cell secs x z i)) ?n y (bit k' (persistence_id t)) (height_at x z h')"
      using k' [of t] assms(7) [of t] h'(3) [OF assms(2,3)] by simp
    have "column_ok (\<lambda>i. counts R t (cell secs x' z' i)) ?n (?L (hm_index x' z'))
         (bit (pending_masks ?p ! hm_index x' z') (persistence_id t)) (height_at x' z' h')" if r: "x' < 16" "z' < 16" for x' z'
      using here h(2) [OF r] h'(3) [OF r] hm_index_inj [OF assms(2,3) r] len hm_index_less [OF assms(2,3)]
      by (cases "(x', z') = (x, z)") auto
    then show ?thesis using h' by simp
  qed
  then show ?thesis using assms(1,8,10) by (auto simp: scanned_def)
qed

lemma prime_cell_spec:
  assumes "world_ok R min_y height secs" and "treats types T" and "scanned R min_y height secs T m0 L p"
    and "x < 16" "z < 16" and "c = hm_index x z" and "L c = Suc y" and "y < 16 * length secs"
    and "pc_get_at_index 16 (layer_start + c) st = Some (cell secs x z y)"
  shows "\<exists>p'. prime_cell R types st (min_y + int y) layer_start c p = Some p' \<and> scanned R min_y height secs T m0 (L(c := y)) p'"
proof -
  let ?k = "pending_masks p ! c" and ?v = "cell secs x z y"
  have c: "c < 256" "c mod 16 = x" "c div 16 = z" using assms(4-6) by (auto simp: hm_index_def)
  have w: "registry_ok R" "- (2 ^ 30) \<le> min_y" "min_y \<le> 2 ^ 30" "length secs < 4096" using assms(1) by (simp_all add: world_ok_def)
  from opacity_spec [OF w(1) world_cells(2) [OF assms(1,4,5,8)], of ?k] obtain k where k: "heightmap_opacity_mask R ?v ?k = Some k"
    "\<And>t. bit k (persistence_id t) \<longleftrightarrow> bit ?k (persistence_id t) \<and> counts R t ?v" "\<And>j. bit k j \<Longrightarrow> bit ?k j" by blast
  have len: "length (pending_masks p) = 256" and cols: "pending_columns p = length (filter (\<lambda>k. k \<noteq> 0) (pending_masks p))"
    and present: "\<forall>t \<in> T. \<exists>h. hms_get t (primed p) = Some h \<and> hm_ok min_y height t h"
    using assms(3) by (auto simp: scanned_def)
  have yabs: "wrap_i32 (min_y + int y + 1) = min_y + int (Suc y)" and small: "Suc y < 65536" using w assms(8) by simp_all
  from prime_types_spec [OF assms(2) present assms(4,5) small, of k] obtain m' where
    m': "prime_types k x z (min_y + int (Suc y)) types (primed p) = Some m'" "\<And>t. t \<notin> T \<Longrightarrow> hms_get t m' = hms_get t (primed p)"
    "\<And>t. t \<in> T \<Longrightarrow> \<exists>h h'. hms_get t (primed p) = Some h \<and> hms_get t m' = Some h' \<and> hm_ok min_y height t h' \<and>
     (\<forall>x' < 16. \<forall>z' < 16. height_at x' z' h' = (if (x', z') = (x, z) \<and> bit k (persistence_id t) then Suc y else height_at x' z' h))" by blast
  let ?rest = "?k AND NOT k" and ?n = "length (filter (\<lambda>k. k \<noteq> 0) ((pending_masks p)[c := ?k AND NOT k]))"
  let ?p = "p\<lparr>pending_masks := (pending_masks p)[c := ?rest], pending_columns := ?n, primed := m'\<rparr>"
  have "scanned R min_y height secs T m0 (L(c := y)) ?p"
    unfolding assms(6) by (rule scanned_step [OF assms(3-5) assms(7) [unfolded assms(6)] assms(8) refl k(2) [unfolded assms(6)] m'(2,3) refl])
  moreover have "prime_cell R types st (min_y + int y) layer_start c p = Some ?p"
  proof (cases "?k = 0 \<or> k = 0")
    case True
    then have k0: "k = 0" using k(3) by (auto intro!: bit_eqI)
    have "prime_types 0 x z (min_y + int (Suc y)) ts m = Some m" for ts m by (induction ts) auto
    then have "m' = primed p" using m'(1) k0 by simp
    then have "?p = p" using k0 cols list_update_id [of "pending_masks p" c] by simp
    then show ?thesis using k0 assms(9) k(1) by (simp add: prime_cell_def Let_def)
  next
    case False
    then have "?n = (if ?rest = 0 then pending_columns p - 1 else pending_columns p)"
      using filter_list_update [of c "pending_masks p" "\<lambda>k. k \<noteq> 0" ?rest] cols len c(1) by simp
    then show ?thesis using False assms(9) k(1) m'(1) yabs c by (simp add: prime_cell_def Let_def)
  qed
  ultimately show ?thesis by blast
qed

lemma scanned_cong: "scanned R min_y height secs T m0 L p \<Longrightarrow> (\<And>c. c < 256 \<Longrightarrow> L c = L' c) \<Longrightarrow> scanned R min_y height secs T m0 L' p"
  using hm_index_less by (simp add: scanned_def)

lemma prime_layer_spec:
  assumes "world_ok R min_y height secs" and "treats types T" and "s < length secs" "ly < 16" and "j \<le> 256"
    and "scanned R min_y height secs T m0 (\<lambda>c. if c < j then s * 16 + ly else Suc (s * 16 + ly)) p"
  shows "\<exists>p'. prime_layer R types (states (secs ! s)) (min_y + int (s * 16 + ly)) (ly * 16 * 16) [j..<256] p = Some p'
    \<and> scanned R min_y height secs T m0 (\<lambda>_. s * 16 + ly) p'"
  using assms(5,6)
proof (induction "256 - j" arbitrary: j p)
  case 0
  then show ?case using scanned_cong [OF 0(3), of "\<lambda>_. s * 16 + ly"] by simp
next
  case (Suc n)
  let ?y = "s * 16 + ly" and ?L = "\<lambda>j c. if c < j then s * 16 + ly else Suc (s * 16 + ly)"
  have j: "j < 256" using Suc.hyps(2) by simp
  have x: "j mod 16 < 16" "j div 16 < 16" "j = hm_index (j mod 16) (j div 16)" using j by (simp_all add: hm_index_def)
  have y: "?y < 16 * length secs" using assms(3,4) by linarith
  have pl: "?y div 16 = s" "?y mod 16 = ly" using assms(4) by simp_all
  have "cell_index 16 (j mod 16) ly (j div 16) = ly * 16 * 16 + j"
    using div_mult_mod_eq [of j 16] by (simp add: cell_index_eq)
  then have at: "pc_get_at_index 16 (ly * 16 * 16 + j) (states (secs ! s)) = Some (cell secs (j mod 16) (j div 16) ?y)"
    using pc_get_at_index_spec [OF world_cells(1) [OF assms(1) x(1,2) y], of "cell_index 16 (j mod 16) ly (j div 16)"]
      cell_index_less [of "j mod 16" 16 ly "j div 16"] x assms(4) by (simp add: cell_def pl)
  from prime_cell_spec [OF assms(1,2) Suc.prems(2) x _ y at] obtain p1 where
    p1: "prime_cell R types (states (secs ! s)) (min_y + int ?y) (ly * 16 * 16) j p = Some p1"
    "scanned R min_y height secs T m0 ((?L j)(j := ?y)) p1" by auto
  have "(?L j)(j := ?y) = ?L (Suc j)" by (auto simp: fun_eq_iff)
  with p1(2) have "scanned R min_y height secs T m0 (?L (Suc j)) p1" by simp
  from Suc.hyps(1) [OF _ _ this] Suc.hyps(2) j show ?case using p1(1) by (simp add: upt_conv_Cons)
qed

lemma scanned_finished:
  assumes "scanned R min_y height secs T m0 L p" and "pending_columns p = 0"
  shows "scanned R min_y height secs T m0 L' p"
proof -
  have "pending_masks p ! hm_index x z = 0" if "x < 16" "z < 16" for x z
    using assms hm_index_less [OF that] by (auto simp: scanned_def filter_empty_conv)
  then show ?thesis using assms(1) by (simp add: scanned_def column_ok_def)
qed

lemma prime_layers_spec:
  assumes "world_ok R min_y height secs" and "treats types T" and "s < length secs" and "k \<le> 16"
    and "scanned R min_y height secs T m0 (\<lambda>_. s * 16 + k) p"
  shows "\<exists>b p'. prime_layers R types min_y s (states (secs ! s)) (rev [0..<k]) p = Some (b, p')
    \<and> (if b then (\<forall>L. scanned R min_y height secs T m0 L p') else scanned R min_y height secs T m0 (\<lambda>_. s * 16) p')"
  using assms(4,5)
proof (induction k arbitrary: p)
  case (Suc k)
  have len: "length (pending_masks p) = 256" using Suc.prems(2) by (simp add: scanned_def)
  have "length secs < 4096" "- (2 ^ 30) \<le> min_y" "min_y \<le> 2 ^ 30" using assms(1) by (simp_all add: world_ok_def)
  moreover have "s * 16 + k < 65536" using calculation(1) assms(3) Suc.prems(1) by simp
  ultimately have y: "wrap_i32 (min_y + wrap_i32 (int (s * 16 + k))) = min_y + int (s * 16 + k)" by simp
  from prime_layer_spec [OF assms(1-3), of k 0 m0 p] Suc.prems obtain p1 where
    p1: "prime_layer R types (states (secs ! s)) (min_y + int (s * 16 + k)) (k * 16 * 16) [0..<256] p = Some p1"
    "scanned R min_y height secs T m0 (\<lambda>_. s * 16 + k) p1" by auto
  show ?case
  proof (cases "pending_columns p1 = 0")
    case True
    have "\<forall>L. scanned R min_y height secs T m0 L p1" using scanned_finished [OF p1(2) True] by blast
    then show ?thesis using p1(1) y len True by (intro exI [of _ True] exI [of _ p1]) (simp del: of_nat_add)
  next
    case False
    then show ?thesis using Suc.IH [OF _ p1(2)] Suc.prems(1) p1(1) y len by (simp del: of_nat_add)
  qed
next
  case 0
  then show ?case by (intro exI [of _ False] exI [of _ p]) simp
qed

lemma skipped_section:
  assumes "world_ok R min_y height secs" and "s < length secs" and "states (secs ! s) = Homogeneous v" and "metadata_is_air R v"
    and "scanned R min_y height secs T m0 (\<lambda>_. s * 16 + 16) p"
  shows "scanned R min_y height secs T m0 (\<lambda>_. s * 16) p"
proof -
  have "config_is_air R v" using assms(1,4) by (simp add: world_ok_def registry_ok_def)
  moreover have "cell secs x z i = v" if "x < 16" "z < 16" "s * 16 \<le> i" "i < s * 16 + 16" for x z i
  proof -
    have "i div 16 = s" using that by linarith
    then show ?thesis using assms(3) cell_index_less [of x 16 "i mod 16" z] that by (simp add: cell_def)
  qed
  ultimately have none: "\<not> counts R t (cell secs x z i)" if "x < 16" "z < 16" "s * 16 \<le> i" "i < s * 16 + 16" for x z i t
    using that by (cases t) auto
  have "column_ok (\<lambda>i. counts R t (cell secs x z i)) n (s * 16) b d"
    if "column_ok (\<lambda>i. counts R t (cell secs x z i)) n (s * 16 + 16) b d" "x < 16" "z < 16" for t x z n b d
    using that none [OF that(2,3)] by (auto simp: column_ok_def) (meson not_less)
  then show ?thesis using assms(5) unfolding scanned_def by blast
qed

lemma prime_sections_spec:
  assumes "world_ok R min_y height secs" and "treats types T" and "k \<le> length secs"
    and "scanned R min_y height secs T m0 (\<lambda>_. k * 16) p"
  shows "\<exists>p'. prime_sections R types min_y secs (rev [0..<k]) p = Some p' \<and> scanned R min_y height secs T m0 (\<lambda>_. 0) p'"
  using assms(3,4)
proof (induction k arbitrary: p)
  case (Suc k)
  then have k: "k < length secs" and p: "scanned R min_y height secs T m0 (\<lambda>_. k * 16 + 16) p" by (simp_all add: add.commute)
  have valid: "unat v < state_count R" if "states (secs ! k) = Homogeneous v" for v
  proof -
    have "v \<in> set (collect_values 16 (states (secs ! k)))" using that by simp
    then show ?thesis using assms(1) nth_mem [OF k] unfolding world_ok_def by blast
  qed
  have "\<exists>skip. (case states (secs ! k) of Homogeneous v \<Rightarrow> state_is_air R v | _ \<Rightarrow> Some False) = Some skip"
    using valid by (cases "states (secs ! k)") (auto simp: state_is_air_def)
  then obtain skip where skip: "(case states (secs ! k) of Homogeneous v \<Rightarrow> state_is_air R v | _ \<Rightarrow> Some False) = Some skip" ..
  show ?case
  proof (cases skip)
    case True
    then obtain v where "states (secs ! k) = Homogeneous v" "metadata_is_air R v"
      using skip by (auto simp: state_is_air_def split: paletted_container.splits if_splits)
    from skipped_section [OF assms(1) k this p] Suc.IH skip True Suc.prems(1) show ?thesis by auto
  next
    case False
    from prime_layers_spec [OF assms(1,2) k order.refl p] obtain b p1 where
      p1: "prime_layers R types min_y k (states (secs ! k)) (rev [0..<16]) p = Some (b, p1)"
      "if b then \<forall>L. scanned R min_y height secs T m0 L p1 else scanned R min_y height secs T m0 (\<lambda>_. k * 16) p1" by blast
    then show ?thesis using Suc.IH [of p1] Suc.prems(1) skip False by (cases b) auto
  qed
qed simp

lemma fold_or_bit: "bit (fold (\<lambda>e k. k OR snd e) es k0) b \<longleftrightarrow> bit k0 b \<or> (\<exists>e \<in> set es. bit (snd e) b)"
  for k0 :: "8 word" and es :: "(heightmap_type \<times> 8 word) list"
  by (induction es arbitrary: k0) (auto simp: bit_or_iff)

lemma fold_insert_get:
  "hms_get t (fold (\<lambda>e. get_or_insert min_y height (fst e)) es m) =
    (if hms_get t m = None \<and> t \<in> fst ` set es then Some (hm_new t min_y height) else hms_get t m)"
  by (induction es arbitrary: m) (auto simp: get_or_insert_def split: option.splits)

lemma prime_from_sections_spec:
  assumes "world_ok R min_y height secs"
  shows "\<exists>m'. prime_from_sections R types min_y height secs m = Some m'
    \<and> maps_exact R min_y height secs {t \<in> set types. hms_get t m = None} m'
    \<and> (\<forall>t. t \<notin> set types \<or> hms_get t m \<noteq> None \<longrightarrow> hms_get t m' = hms_get t m)"
proof -
  let ?es = "map (\<lambda>t. (t, hm_mask t)) (filter (\<lambda>t. hms_get t m = None) types)" and ?T = "{t \<in> set types. hms_get t m = None}"
  let ?n = "16 * length secs"
  have T: "fst ` set ?es = ?T" by force
  show ?thesis
  proof (cases "?es = []")
    case True
    then have "?T = {}" by (auto simp: filter_empty_conv)
    then show ?thesis using True by (auto simp: prime_from_sections_def maps_exact_def)
  next
    case False
    let ?base = "fold (\<lambda>e k. k OR snd e) ?es 0" and ?m1 = "fold (\<lambda>e. get_or_insert min_y height (fst e)) ?es m"
    let ?p = "\<lparr>pending_masks = replicate 256 ?base, pending_columns = 256, primed = ?m1\<rparr>"
    have base: "bit ?base (persistence_id t) \<longleftrightarrow> t \<in> ?T" for t by (auto simp: fold_or_bit bit_hm_mask persistence_id_inj)
    have get: "hms_get t ?m1 = (if t \<in> ?T then Some (hm_new t min_y height) else hms_get t m)" for t
      unfolding fold_insert_get T by auto
    obtain t where "t \<in> ?T" using False T by (cases ?es) auto
    then have "?base \<noteq> 0" using base [of t] by auto
    moreover have "height_at x z (hm_new t min_y height) = 0" if "x < 16" "z < 16" for x z t
      using hm_index_less [OF that] by (simp add: height_at_def hm_new_def)
    ultimately have "scanned R min_y height secs ?T m (\<lambda>_. length secs * 16) ?p"
      using base hm_index_less get by (auto simp: scanned_def column_ok_def hm_ok_def hm_new_def)
    from prime_sections_spec [OF assms _ order.refl this, of ?es] obtain p' where
      p': "prime_sections R ?es min_y secs (rev [0..<length secs]) ?p = Some p'" "scanned R min_y height secs ?T m (\<lambda>_. 0) p'"
      using T by (auto simp: treats_def)
    have "near P {} n 0" if "\<forall>i. i < n \<longrightarrow> \<not> P i" for P :: "nat \<Rightarrow> bool" and n using that by (simp add: near_def)
    then have exact: "d = top P n" if "column_ok P n 0 b d" for P n b d using that by (auto simp: column_ok_def near_exact split: if_splits)
    have "maps_exact R min_y height secs ?T (primed p')"
      unfolding maps_exact_def
    proof
      fix t assume "t \<in> ?T"
      with p'(2) obtain h where h: "hms_get t (primed p') = Some h" "hm_ok min_y height t h"
        "\<And>x z. x < 16 \<Longrightarrow> z < 16 \<Longrightarrow> column_ok (\<lambda>i. counts R t (cell secs x z i)) ?n 0
           (bit (pending_masks p' ! hm_index x z) (persistence_id t)) (height_at x z h)" unfolding scanned_def by blast
      show "\<exists>h. hms_get t (primed p') = Some h \<and> hm_ok min_y height t h \<and>
          (\<forall>x < 16. \<forall>z < 16. height_at x z h = top (\<lambda>i. counts R t (cell secs x z i)) ?n)"
        using h(1,2) exact [OF h(3)] by blast
    qed
    then show ?thesis using p' False by (auto simp: prime_from_sections_def Let_def scanned_def)
  qed
qed

section \<open>Writes to the sections\<close>

lemma cell_update:
  assumes "list_all (section_ok f) secs" and "x < 16" "z < 16" "y < 16 * length secs"
    and "collect_values 16 (states s') = (collect_values 16 (states (secs ! (y div 16))))[cell_index 16 x (y mod 16) z := v]"
    and "x' < 16" "z' < 16" "i < 16 * length secs"
  shows "cell (secs[y div 16 := s']) x' z' i = (if (x', z', i) = (x, z, y) then v else cell secs x' z' i)"
proof (cases "i div 16 = y div 16")
  case True
  have l: "y div 16 < length secs" using assms(4) by (simp add: less_mult_imp_div_less mult.commute)
  then have "length (collect_values 16 (states (secs ! (y div 16)))) = 4096"
    using assms(1) collect_values_length [of 16 "states (secs ! (y div 16))"] by (simp add: list_all_length section_ok_def)
  moreover have "cell_index 16 x (y mod 16) z < 4096" using cell_index_less [of x 16 "y mod 16" z] assms(2,3) by simp
  moreover have "cell_index 16 x (y mod 16) z = cell_index 16 x' (i mod 16) z' \<longleftrightarrow> (x', z', i) = (x, z, y)"
  proof
    assume "cell_index 16 x (y mod 16) z = cell_index 16 x' (i mod 16) z'"
    then have "x = x' \<and> y mod 16 = i mod 16 \<and> z = z'" using cell_index_inj [of x 16 "y mod 16" z x' "i mod 16" z'] assms(2,3,6,7) by simp
    moreover have "i = y" if "y mod 16 = i mod 16" using that True by (metis div_mult_mod_eq)
    ultimately show "(x', z', i) = (x, z, y)" by simp
  qed simp
  ultimately show ?thesis using True l assms(5) by (auto simp: cell_def nth_list_update)
next
  case False
  then show ?thesis by (auto simp: cell_def)
qed

lemma world_ok_update:
  assumes "world_ok R min_y height secs" and "s < length secs" and "pc_ok 16 (states s')" and "unat v < state_count R"
    and "set (collect_values 16 (states s')) \<subseteq> insert v (set (collect_values 16 (states (secs ! s))))"
  shows "world_ok R min_y height (secs[s := s'])"
proof -
  let ?ok = "\<lambda>s. pc_ok 16 (states s) \<and> (\<forall>v \<in> set (collect_values 16 (states s)). unat v < state_count R)"
  have old: "\<forall>s \<in> set secs. ?ok s" using assms(1) by (simp add: world_ok_def)
  then have "?ok (secs ! s)" using nth_mem [OF assms(2)] by blast
  then have "?ok s'" using assms(3-5) by blast
  then have "\<forall>s \<in> set (secs[s := s']). ?ok s" using old set_update_subset_insert [of secs s s'] by blast
  then show ?thesis using assms(1) by (simp add: world_ok_def)
qed

text \<open>What one write does to the cells, whichever of the two operations makes it.\<close>

lemma written_cells:
  assumes "sections_ok f ss" and "world_ok R min_y height (holders ss)" and "x < 16" "z < 16" "y < 16 * length (holders ss)" and "unat v < state_count R"
    and "op = set_relative_block f x y z v \<or> op = set_relative_block_for_generation x y z v"
  shows "\<exists>ss'. op ss = Some ss' \<and> sections_ok f ss' \<and> world_ok R min_y height (holders ss') \<and> length (holders ss') = length (holders ss)
    \<and> (\<forall>x' < 16. \<forall>z' < 16. \<forall>i < 16 * length (holders ss).
         cell (holders ss') x' z' i = (if (x', z', i) = (x, z, y) then v else cell (holders ss) x' z' i))"
proof -
  let ?s = "y div 16" and ?y = "y mod 16"
  have m: "mirrored ss" "list_all (section_ok f) (holders ss)" using assms(1) by (simp_all add: sections_ok_def)
  have s: "?s < length (holders ss)" using assms(5) by (simp add: less_mult_imp_div_less mult.commute)
  have ok: "section_ok f (holders ss ! ?s)" using m(2) s by (simp add: list_all_length)
  obtain g where g: "op = (\<lambda>ss. map_option snd (with_write ?s g ss))" "g = set_block_state f x ?y z v \<or> g = set_block_state_for_generation x ?y z v"
    using assms(7) by (auto simp: fun_eq_iff set_relative_block_def set_relative_block_for_generation_def)
  obtain old s' where s': "g (holders ss ! ?s) = Some (old, s')" "section_ok f s'"
    "collect_values 16 (states s') = (collect_values 16 (states (holders ss ! ?s)))[cell_index 16 x ?y z := v]"
    using g(2) set_block_state_spec [OF ok assms(3) _ assms(4), of ?y v] set_for_generation_spec [OF ok assms(3) _ assms(4), of ?y v] by auto
  from with_write_spec [where f = g, OF m(1) s s'(1)] obtain ss' where
    ss': "with_write ?s g ss = Some (old, ss')" "mirrored ss'" "holders ss' = (holders ss)[?s := s']" by blast
  have "set (collect_values 16 (states s')) \<subseteq> insert v (set (collect_values 16 (states (holders ss ! ?s))))"
    unfolding s'(3) by (rule set_update_subset_insert)
  then have "world_ok R min_y height (holders ss')"
    unfolding ss'(3) by (intro world_ok_update [OF assms(2) s _ assms(6)]) (use s'(2) in \<open>auto simp: section_ok_def\<close>)
  then show ?thesis
    using g(1) ss' sections_ok_update [OF m(2) s'(2) ss'(2,3)] cell_update [OF m(2) assms(3-5) s'(3)] by simp
qed

lemma written_column:
  assumes "sections_ok f ss" and "world_ok R min_y height (holders ss)" and "x < 16" "z < 16"
    and "\<forall>(y, v) \<in> set ws. y < 16 * length (holders ss) \<and> unat v < state_count R"
  shows "\<exists>ss'. each (\<lambda>(y, v). set_relative_block_for_generation x y z v) ws ss = Some ss' \<and> sections_ok f ss'
    \<and> world_ok R min_y height (holders ss') \<and> length (holders ss') = length (holders ss)
    \<and> (\<forall>x' < 16. \<forall>z' < 16. \<forall>i < 16 * length (holders ss). cell (holders ss') x' z' i =
         (case if (x', z') = (x, z) then map_of (rev ws) i else None of Some v \<Rightarrow> v | None \<Rightarrow> cell (holders ss) x' z' i))"
  using assms(1,2,5)
proof (induction ws arbitrary: ss)
  case (Cons w ws)
  obtain y v where w: "w = (y, v)" by (cases w)
  from written_cells [OF Cons.prems(1,2) assms(3,4), of y v "set_relative_block_for_generation x y z v"] Cons.prems(3) w obtain ss1 where
    ss1: "set_relative_block_for_generation x y z v ss = Some ss1" "sections_ok f ss1" "world_ok R min_y height (holders ss1)"
    "length (holders ss1) = length (holders ss)"
    "\<forall>x' < 16. \<forall>z' < 16. \<forall>i < 16 * length (holders ss).
         cell (holders ss1) x' z' i = (if (x', z', i) = (x, z, y) then v else cell (holders ss) x' z' i)" by auto
  from Cons.IH [OF ss1(2,3)] Cons.prems(3) ss1(4) obtain ss' where
    ss': "each (\<lambda>(y, v). set_relative_block_for_generation x y z v) ws ss1 = Some ss'" "sections_ok f ss'" "world_ok R min_y height (holders ss')"
    "length (holders ss') = length (holders ss)"
    "\<forall>x' < 16. \<forall>z' < 16. \<forall>i < 16 * length (holders ss). cell (holders ss') x' z' i =
         (case if (x', z') = (x, z) then map_of (rev ws) i else None of Some v \<Rightarrow> v | None \<Rightarrow> cell (holders ss1) x' z' i)" by auto
  have "cell (holders ss') x' z' i = (case if (x', z') = (x, z) then map_of (rev (w # ws)) i else None of Some v \<Rightarrow> v | None \<Rightarrow> cell (holders ss) x' z' i)"
    if "x' < 16" "z' < 16" "i < 16 * length (holders ss)" for x' z' i
    using ss'(5) ss1(5) that w by (auto simp: map_add_def split: option.splits)
  then show ?case using ss1(1) ss'(1-4) w by simp
qed simp

lemma final_slots: "t \<in> set final_types \<Longrightarrow> get_final t m = hms_get t m"
  by (auto simp: final_types_def get_final_def)

lemma distinct_types: "distinct final_types" "distinct worldgen_types" "distinct (heightmaps_after st)"
  by (cases st; simp add: final_types_def worldgen_types_def)+

section \<open>The packet form\<close>

lemma bit_len_less: "n < 2 ^ bit_len n"
proof (induction n rule: bit_len.induct)
  case (1 n)
  show ?case
  proof (cases "n = 0")
    case False
    then have "n div 2 < 2 ^ bit_len (n div 2)" using 1 by simp
    then show ?thesis using False by (subst bit_len.simps) simp
  qed simp
qed

lemma bits_per_value:
  assumes "0 \<le> height" and "height < 65536"
  shows "0 < calculate_bits_per_value height" and "calculate_bits_per_value height \<le> 16" and "nat height < 2 ^ calculate_bits_per_value height"
proof -
  let ?w = "word_of_int height :: 32 word"
  have w: "unat ?w = nat height" using assms by (simp add: unat_eq_nat_uint unsigned_of_int take_bit_int_eq_self)
  have "unat (?w + 1) = nat height + 1" using assms w by (simp add: unat_word_ariths)
  then have small: "?w + 1 \<le> 1 \<longleftrightarrow> nat height = 0" by (simp add: word_le_nat_alt)
  have len: "bit_len (nat height) \<le> 16" by (rule bit_len_bound) (use assms in simp)
  have eq: "calculate_bits_per_value height = (if nat height = 0 then 1 else bit_len (nat height))"
    using len by (simp add: calculate_bits_per_value_def Let_def small leading_zeros_def w)
  show "0 < calculate_bits_per_value height" "calculate_bits_per_value height \<le> 16" "nat height < 2 ^ calculate_bits_per_value height"
    using len bit_len_less [of "nat height"] bit_len_pos [of "nat height"] unfolding eq by auto
qed

lemma widen: "(ucast (ucast d :: 32 word) :: 64 word) = ucast d" for d :: "16 word"
  by (rule bit_word_eqI) (auto simp: bit_ucast_iff dest: bit_imp_le_length)

lemma raw_step_pack:
  assumes "bits \<le> 16" and "unat d < 2 ^ bits"
  shows "raw_step bits (i, d) data = pack_step bits (i, ucast d) data"
proof -
  have "ucast d AND (push_bit bits 1 - 1) = (take_bit bits (ucast d) :: 64 word)"
    by (simp add: take_bit_eq_mask mask_eq_exp_minus_1)
  also have "\<dots> = ucast d"
  proof -
    have "unat (ucast d :: 64 word) < 2 ^ bits" using le_less_trans [OF take_bit_nat_less_eq_self assms(2)] by (simp add: unsigned_ucast_eq)
    then show ?thesis by (simp add: word_unat_eq_iff unsigned_take_bit_eq take_bit_nat_eq_self)
  qed
  finally show ?thesis unfolding raw_step_def pack_step_def Let_def fst_conv snd_conv widen by (simp only:)
qed

lemma raw_data_pack:
  assumes "bits \<le> 16" and "\<forall>d \<in> set ds. unat d < 2 ^ bits"
  shows "fold (raw_step bits) (enumerate k ds) data = fold (pack_step bits) (enumerate k (map ucast ds)) data"
  using assms(2) by (induction ds arbitrary: k data) (simp_all add: raw_step_pack [OF assms(1)])

section \<open>Properties\<close>

text \<open>
  C12. Priming never panics, builds every requested map that was missing so that each column holds the
  place above the highest block that counts for its kind, although sections of air are skipped
  and the scan stops as soon as all columns are settled, and leaves the other maps alone.
\<close>
theorem primed_heightmaps_are_exact:
  assumes "world_ok R min_y height secs"
  shows "\<exists>m'. prime_from_sections R types min_y height secs m = Some m'
    \<and> maps_exact R min_y height secs {t \<in> set types. hms_get t m = None} m'
    \<and> (\<forall>t. t \<notin> set types \<or> hms_get t m \<noteq> None \<longrightarrow> hms_get t m' = hms_get t m)"
  by (rule prime_from_sections_spec [OF assms])

definition sample_registry :: block_registry where
  "sample_registry = \<lparr>state_count = 4, config_is_air = (\<lambda>v. v = 0), metadata_is_air = (\<lambda>v. v = 0),
     blocks_motion = (\<lambda>v. v = 1 \<or> v = 2), state_has_fluid = (\<lambda>v. v = 3), is_leaves = (\<lambda>v. v = 2)\<rparr>"

definition sample_counts :: "16 word \<Rightarrow> block_state_section_counts" where
  "sample_counts v = \<lparr>bc_is_air = (v = 0), bc_has_fluid = (v = 3), bc_ticking_block = False, bc_ticking_fluid = False\<rparr>"

lemma sample_chunk:
  "\<exists>ss. from_owned [new_empty 0] = Some ss \<and> holders ss = [new_empty 0] \<and> sections_ok sample_counts ss \<and> world_ok sample_registry (- 64) 16 [new_empty 0]"
proof -
  have "section_ok sample_counts (new_empty 0)" by (rule new_empty_ok) (simp_all add: sample_counts_def)
  moreover have "world_ok sample_registry (- 64) 16 [new_empty 0]"
    by (simp add: world_ok_def registry_ok_def sample_registry_def new_empty_def)
  ultimately show ?thesis using from_owned_ok [of sample_counts "[new_empty 0]"] by auto
qed

theorem primed_heightmaps_are_exact_witness:
  "\<exists>m. prime_from_sections sample_registry final_types (- 64) 16 [new_empty 0] hms_empty = Some m
    \<and> maps_exact sample_registry (- 64) 16 [new_empty 0] (set final_types) m"
proof -
  have "{t \<in> set final_types. hms_get t hms_empty = None} = set final_types" by (auto simp: final_types_def hms_empty_def)
  then show ?thesis
    using sample_chunk primed_heightmaps_are_exact [of sample_registry "- 64" 16 "[new_empty 0]" final_types hms_empty] by auto
qed

text \<open>
  C10. Setting a block of a full chunk keeps all its heightmaps exact: the block is written with its
  counters, the final maps are updated from the sections that result, scanning down where the top
  was removed, and the heights then read are those of the new column.
\<close>
theorem block_changes_keep_heightmaps:
  assumes "sections_ok f ss" and "world_ok R min_y height (holders ss)" and "maps_exact R min_y height (holders ss) (set final_types) m"
    and "x < 16" "z < 16" "y < 16 * length (holders ss)" and "unat v < state_count R"
  shows "\<exists>ss' m'. set_relative_block f x y z v ss = Some ss'
    \<and> update_final R x (min_y + int y) z v (scan_block min_y (holders ss')) m = Some m'
    \<and> sections_ok f ss' \<and> world_ok R min_y height (holders ss') \<and> maps_exact R min_y height (holders ss') (set final_types) m'
    \<and> (\<forall>t \<in> set final_types. get_height t x z m' = Some (min_y + int (top (\<lambda>i. counts R t (cell (holders ss') x z i)) (16 * length (holders ss)))))"
proof -
  from written_cells [OF assms(1,2,4-7), of "set_relative_block f x y z v"] obtain ss' where
    ss': "set_relative_block f x y z v ss = Some ss'" "sections_ok f ss'" "world_ok R min_y height (holders ss')"
    "length (holders ss') = length (holders ss)"
    "\<And>x' z' i. x' < 16 \<Longrightarrow> z' < 16 \<Longrightarrow> i < 16 * length (holders ss) \<Longrightarrow>
         cell (holders ss') x' z' i = (if (x', z', i) = (x, z, y) then v else cell (holders ss) x' z' i)" by auto
  let ?B = "\<lambda>x' z'. if (x', z') = (x, z) then {y} else {}"
  have near: "maps_near R min_y height (holders ss') (set final_types) ?B m"
    by (rule maps_near_change [OF assms(3) [unfolded maps_exact_near] ss'(4)]) (use ss'(5) in \<open>auto split: if_splits\<close>)
  have y: "y < 16 * length (holders ss')" and v: "cell (holders ss') x z y = v" using assms(4-6) ss'(4,5) by auto
  have none: "(\<lambda>x' z'. if (x', z') = (x, z) then {} else ?B x' z') = (\<lambda>_ _. {})" by (auto simp: fun_eq_iff)
  from update_each_spec [OF ss'(3) near distinct_types(1) assms(4,5) y assms(7), of "{}" get_final] v final_slots obtain m' where
    m': "update_final R x (min_y + int y) z v (scan_block min_y (holders ss')) m = Some m'" "maps_exact R min_y height (holders ss') (set final_types) m'"
    unfolding none maps_exact_near update_final_def by auto
  have "get_height t x z m' = Some (min_y + int (top (\<lambda>i. counts R t (cell (holders ss') x z i)) (16 * length (holders ss))))" if "t \<in> set final_types" for t
    using m'(2) that first_available_spec [of min_y height t _ x z] assms(4,5) ss'(3,4) final_slots [OF that]
    by (fastforce simp: maps_exact_def get_height_def world_ok_def)
  then show ?thesis using ss' m' by auto
qed

theorem block_changes_keep_heightmaps_witness:
  "\<exists>ss m ss' m'. from_owned [new_empty 0] = Some ss
    \<and> prime_from_sections sample_registry final_types (- 64) 16 (holders ss) hms_empty = Some m
    \<and> set_relative_block sample_counts 3 9 5 1 ss = Some ss'
    \<and> update_final sample_registry 3 (- 55) 5 1 (scan_block (- 64) (holders ss')) m = Some m'
    \<and> maps_exact sample_registry (- 64) 16 (holders ss') (set final_types) m'"
proof -
  from sample_chunk obtain ss where ss: "from_owned [new_empty 0] = Some ss" "holders ss = [new_empty 0]" "sections_ok sample_counts ss"
    "world_ok sample_registry (- 64) 16 (holders ss)" by auto
  have "{t \<in> set final_types. hms_get t hms_empty = None} = set final_types" by (auto simp: final_types_def hms_empty_def)
  with prime_from_sections_spec [OF ss(4), of final_types hms_empty] obtain m where
    m: "prime_from_sections sample_registry final_types (- 64) 16 (holders ss) hms_empty = Some m"
    "maps_exact sample_registry (- 64) 16 (holders ss) (set final_types) m" by auto
  have "unat (1 :: 16 word) < state_count sample_registry" by (simp add: sample_registry_def)
  from block_changes_keep_heightmaps [OF ss(3,4) m(2) _ _ _ this, of 3 5 9] ss(1,2) m(1) show ?thesis by auto
qed

text \<open>
  C11. Direct column writes of the world generator keep the heightmaps of the status exact: the blocks
  of a column are stored first, in any order and possibly several times at the same place, the
  maps are updated afterwards, one write at a time but always scanning the final column.
\<close>
theorem column_writes_keep_heightmaps:
  assumes "sections_ok f ss" and "world_ok R min_y height (holders ss)" and "types = heightmaps_after status"
    and "maps_exact R min_y height (holders ss) {t \<in> set types. hms_get t m \<noteq> None} m"
    and "x < 16" "z < 16" and "ws \<noteq> []" and "\<forall>(y, v) \<in> set ws. y < 16 * length (holders ss) \<and> unat v < state_count R"
  shows "\<exists>ss' m'. write_column_blocks x z ws ss = Some ss'
    \<and> update_heightmaps_after_column_block_changes R min_y height (holders ss') types x z ws m = Some m'
    \<and> maps_exact R min_y height (holders ss') (set types) m' \<and> world_ok R min_y height (holders ss')
    \<and> (\<forall>t. t \<notin> set types \<longrightarrow> hms_get t m' = hms_get t m)"
proof -
  from written_column [OF assms(1,2,5,6,8)] obtain ss' where
    ss': "each (\<lambda>(y, v). set_relative_block_for_generation x y z v) ws ss = Some ss'" "sections_ok f ss'" "world_ok R min_y height (holders ss')"
    "length (holders ss') = length (holders ss)"
    "\<And>x' z' i. x' < 16 \<Longrightarrow> z' < 16 \<Longrightarrow> i < 16 * length (holders ss) \<Longrightarrow> cell (holders ss') x' z' i =
         (case if (x', z') = (x, z) then map_of (rev ws) i else None of Some v \<Rightarrow> v | None \<Rightarrow> cell (holders ss) x' z' i)" by blast
  have wr: "write_column_blocks x z ws ss = Some ss'" using column_is_sequence [OF assms(1,5,6)] ss'(1) by simp
  from prime_from_sections_spec [OF ss'(3), of types m] obtain m1 where
    m1: "prime_from_sections R types min_y height (holders ss') m = Some m1"
    "maps_exact R min_y height (holders ss') {t \<in> set types. hms_get t m = None} m1"
    "\<And>t. t \<notin> set types \<or> hms_get t m \<noteq> None \<Longrightarrow> hms_get t m1 = hms_get t m" by blast
  let ?B = "\<lambda>x' z'. if (x', z') = (x, z) then fst ` set ws else {}"
  have keys: "map_of (rev ws) i = None \<longleftrightarrow> i \<notin> fst ` set ws" for i by (simp add: map_of_eq_None_iff)
  have fresh: "maps_near R min_y height (holders ss') {t \<in> set types. hms_get t m = None} ?B m1"
    by (rule maps_near_change [OF m1(2) [unfolded maps_exact_near] refl]) auto
  have old: "maps_near R min_y height (holders ss') {t \<in> set types. hms_get t m \<noteq> None} ?B m"
  proof (rule maps_near_change [OF assms(4) [unfolded maps_exact_near] ss'(4)])
    fix x' z' i :: nat assume r: "x' < 16" "z' < 16" "i < 16 * length (holders ss)" and i: "i \<notin> ?B x' z'"
    have "(if (x', z') = (x, z) then map_of (rev ws) i else None) = None" using i keys [of i] by (cases "(x', z') = (x, z)") (simp_all only: if_True if_False refl not_False_eq_True)
    then show "cell (holders ss') x' z' i = cell (holders ss) x' z' i" using ss'(5) [OF r] by simp
  qed simp
  have near: "maps_near R min_y height (holders ss') (set types) ?B m1"
  proof -
    have "maps_near R min_y height (holders ss') {t \<in> set types. hms_get t m \<noteq> None} ?B m1"
      by (rule maps_near_cong [OF old]) (simp add: m1(3))
    note both = maps_near_Un [OF fresh this]
    have "{t \<in> set types. hms_get t m = None} \<union> {t \<in> set types. hms_get t m \<noteq> None} = set types" by blast
    from both [unfolded this] show ?thesis .
  qed
  have range: "\<forall>(y, v) \<in> set ws. y < 16 * length (holders ss') \<and> unat v < state_count R" using assms(8) ss'(4) by simp
  have vals: "cell (holders ss') x z y = v" if "map_of (rev ws) y = Some v" for y v
  proof -
    have "(y, v) \<in> set ws" using map_of_SomeD [OF that] by simp
    then show ?thesis using ss'(5) [OF assms(5,6), of y] assms(8) that by auto
  qed
  have "distinct types" using distinct_types(3) assms(3) by simp
  from update_writes_spec [OF ss'(3) this assms(5,6) near range vals] show ?thesis
    using wr m1 ss'(3) assms(7) by (auto simp: update_heightmaps_after_column_block_changes_def)
qed

theorem column_writes_keep_heightmaps_witness:
  "\<exists>ss ss' m'. from_owned [new_empty 0] = Some ss \<and> write_column_blocks 3 5 [(9, 1), (4, 2), (9, 0)] ss = Some ss'
    \<and> update_heightmaps_after_column_block_changes sample_registry (- 64) 16 (holders ss') (heightmaps_after Noise) 3 5 [(9, 1), (4, 2), (9, 0)] hms_empty = Some m'
    \<and> maps_exact sample_registry (- 64) 16 (holders ss') {WorldSurfaceWg, OceanFloorWg} m'"
proof -
  from sample_chunk obtain ss where ss: "from_owned [new_empty 0] = Some ss" "holders ss = [new_empty 0]" "sections_ok sample_counts ss"
    "world_ok sample_registry (- 64) 16 (holders ss)" by auto
  have ws: "\<forall>(y, v) \<in> set [(9, 1), (4, 2), (9, 0 :: 16 word)]. y < 16 * length (holders ss) \<and> unat v < state_count sample_registry"
    by (simp add: ss(2) sample_registry_def)
  have types: "set (heightmaps_after Noise) = {WorldSurfaceWg, OceanFloorWg}" by (simp add: worldgen_types_def)
  have none: "{t \<in> set (heightmaps_after Noise). hms_get t hms_empty \<noteq> None} = {}" by (auto simp: worldgen_types_def hms_empty_def)
  have "maps_exact sample_registry (- 64) 16 (holders ss) {} hms_empty" by (simp add: maps_exact_def)
  then have "maps_exact sample_registry (- 64) 16 (holders ss) {t \<in> set (heightmaps_after Noise). hms_get t hms_empty \<noteq> None} hms_empty"
    unfolding none .
  from column_writes_keep_heightmaps [OF ss(3,4) refl this _ _ _ ws, of 3 5] ss(1) show ?thesis unfolding types by auto
qed

text \<open>
  The heights sent to a client can be read back: packed with as many bits as the height of the
  world needs, every height of a map whose values lie in the world comes out again.
\<close>
theorem heightmap_packet_reads_back:
  assumes "hm_ok min_y height t h" and "0 \<le> height" "height < 65536" and "\<forall>d \<in> set (hm_data h). int (unat d) \<le> height"
  shows "unpack_bits 256 (calculate_bits_per_value height) (get_raw_data h) = map ucast (hm_data h)"
proof -
  let ?b = "calculate_bits_per_value height"
  note b = bits_per_value [OF assms(2,3)]
  have small: "unat d < 2 ^ ?b" if "d \<in> set (hm_data h)" for d
  proof -
    have "int (unat d) \<le> height" using assms(4) that by blast
    then show ?thesis using b(3) by linarith
  qed
  have len: "length (hm_data h) = 256" "hm_height h = height" using assms(1) by (simp_all add: hm_ok_def)
  have "get_raw_data h = pack_bits (map ucast (hm_data h)) ?b"
    using raw_data_pack [OF b(2), of "hm_data h" 0] small len by (simp add: get_raw_data_def pack_bits_def Let_def)
  moreover have "unat (ucast d :: 32 word) < 2 ^ ?b" if "d \<in> set (hm_data h)" for d
    using le_less_trans [OF take_bit_nat_less_eq_self small [OF that]] by (simp add: unsigned_ucast_eq)
  then have "unpack_bits 256 ?b (pack_bits (map ucast (hm_data h)) ?b) = map ucast (map ucast (hm_data h) :: 32 word list)"
    using unpack_pack [of ?b "map ucast (hm_data h)"] b(1,2) len by auto
  ultimately show ?thesis by (simp add: widen)
qed

theorem heightmap_packet_reads_back_witness:
  "unpack_bits 256 (calculate_bits_per_value 384) (get_raw_data (hm_new MotionBlocking (- 64) 384)) = replicate 256 0"
  using heightmap_packet_reads_back [of "- 64" 384 MotionBlocking "hm_new MotionBlocking (- 64) 384"]
  by (simp add: hm_ok_def hm_new_def)

end
