(* ===== verification/Item_Stacks.thy ===== *)
theory Item_Stacks
  imports Steel_Prelude
begin

text \<open>
  Item stacks (\<open>steel-registry/src/item_stack.rs\<close>) and the containers that hold them
  (\<open>steel-core/src/inventory/container/mod.rs\<close>, \<open>player/player_inventory/container.rs\<close>). An item is
  its registry number, with \<open>AIR\<close> as zero; the prototypes of the items and the reading of a
  component as an integer are parameters, component values are arbitrary. Counts are \<open>i32\<close> with
  the wrap-around written out. A container is the list of its stacks; its change counter and the
  notification of its owner are left out. Slot numbers are in range of their container, as the
  menus set them up: an access outside would panic.
\<close>

section \<open>Components\<close>

datatype component_key = MAX_STACK_SIZE | MAX_DAMAGE | DAMAGE | UNBREAKABLE | OtherKey nat

text \<open>A patch entry sets a component or removes it.\<close>

record 'v item_stack =
  st_item :: nat
  st_count :: int
  st_patch :: "(component_key \<times> 'v option) list"

record 'v item_registry =
  prototype :: "nat \<Rightarrow> (component_key \<times> 'v) list"
  as_integer :: "'v \<Rightarrow> int option"

definition AIR :: nat where
  "AIR = 0"

definition get_effective_value_raw :: "'v item_registry \<Rightarrow> 'v item_stack \<Rightarrow> component_key \<Rightarrow> 'v option" where
  "get_effective_value_raw R s key =
     (case map_of (st_patch s) key of
        Some (Some v) \<Rightarrow> Some v
      | Some None \<Rightarrow> None
      | None \<Rightarrow> map_of (prototype R (st_item s)) key)"

definition has_component :: "'v item_registry \<Rightarrow> 'v item_stack \<Rightarrow> component_key \<Rightarrow> bool" where
  "has_component R s key =
     (case map_of (st_patch s) key of
        Some (Some _) \<Rightarrow> True
      | Some None \<Rightarrow> False
      | None \<Rightarrow> map_of (prototype R (st_item s)) key \<noteq> None)"

definition get_integer :: "'v item_registry \<Rightarrow> 'v item_stack \<Rightarrow> component_key \<Rightarrow> int option" where
  "get_integer R s key = Option.bind (get_effective_value_raw R s key) (as_integer R)"

definition present_keys :: "'v item_registry \<Rightarrow> 'v item_stack \<Rightarrow> component_key list" where
  "present_keys R s =
     filter (\<lambda>key. map_of (st_patch s) key \<noteq> Some None) (map fst (prototype R (st_item s)))
     @ map fst (filter (\<lambda>e. snd e \<noteq> None) (st_patch s))"

definition components_equal :: "'v item_registry \<Rightarrow> 'v item_stack \<Rightarrow> 'v item_stack \<Rightarrow> bool" where
  "components_equal R a b \<longleftrightarrow>
     list_all (\<lambda>key. get_effective_value_raw R a key = get_effective_value_raw R b key) (present_keys R a @ present_keys R b)"

section \<open>Stacks\<close>

definition empty_stack :: "'v item_stack" where
  "empty_stack = \<lparr>st_item = AIR, st_count = 0, st_patch = []\<rparr>"

definition with_count :: "nat \<Rightarrow> int \<Rightarrow> 'v item_stack" where
  "with_count i n = \<lparr>st_item = i, st_count = n, st_patch = []\<rparr>"

definition is_empty_stack :: "'v item_stack \<Rightarrow> bool" where
  "is_empty_stack s \<longleftrightarrow> st_item s = AIR \<or> st_count s \<le> 0"

definition item_of :: "'v item_stack \<Rightarrow> nat" where
  "item_of s = (if is_empty_stack s then AIR else st_item s)"

definition count_of :: "'v item_stack \<Rightarrow> int" where
  "count_of s = (if is_empty_stack s then 0 else st_count s)"

definition set_count :: "int \<Rightarrow> 'v item_stack \<Rightarrow> 'v item_stack" where
  "set_count n s = s\<lparr>st_count := n\<rparr>"

definition grow :: "int \<Rightarrow> 'v item_stack \<Rightarrow> 'v item_stack" where
  "grow n s = s\<lparr>st_count := wrap_i32 (st_count s + n)\<rparr>"

definition shrink :: "int \<Rightarrow> 'v item_stack \<Rightarrow> 'v item_stack" where
  "shrink n s = s\<lparr>st_count := wrap_i32 (st_count s - n)\<rparr>"

text \<open>The part split off, and what is left.\<close>

definition split_stack :: "int \<Rightarrow> 'v item_stack \<Rightarrow> 'v item_stack \<times> 'v item_stack" where
  "split_stack n s = (let take = min n (st_count s) in (s\<lparr>st_count := take\<rparr>, shrink take s))"

definition copy_with_count :: "int \<Rightarrow> 'v item_stack \<Rightarrow> 'v item_stack" where
  "copy_with_count n s = (if is_empty_stack s then empty_stack else s\<lparr>st_count := n\<rparr>)"

definition max_stack_size :: "'v item_registry \<Rightarrow> 'v item_stack \<Rightarrow> int" where
  "max_stack_size R s = (case get_integer R s MAX_STACK_SIZE of None \<Rightarrow> 1 | Some n \<Rightarrow> n)"

definition is_damageable_item :: "'v item_registry \<Rightarrow> 'v item_stack \<Rightarrow> bool" where
  "is_damageable_item R s \<longleftrightarrow> has_component R s MAX_DAMAGE \<and> \<not> has_component R s UNBREAKABLE \<and> has_component R s DAMAGE"

definition get_max_damage :: "'v item_registry \<Rightarrow> 'v item_stack \<Rightarrow> int" where
  "get_max_damage R s = (case get_integer R s MAX_DAMAGE of None \<Rightarrow> 0 | Some n \<Rightarrow> n)"

text \<open>\<open>clamp\<close> panics when the maximum is negative.\<close>

definition get_damage_value :: "'v item_registry \<Rightarrow> 'v item_stack \<Rightarrow> int option" where
  "get_damage_value R s =
     (if get_max_damage R s < 0 then None
      else Some (max 0 (min (get_max_damage R s) (case get_integer R s DAMAGE of None \<Rightarrow> 0 | Some n \<Rightarrow> n))))"

definition is_damaged :: "'v item_registry \<Rightarrow> 'v item_stack \<Rightarrow> bool option" where
  "is_damaged R s = (if is_damageable_item R s then map_option (\<lambda>d. 0 < d) (get_damage_value R s) else Some False)"

definition is_stackable :: "'v item_registry \<Rightarrow> 'v item_stack \<Rightarrow> bool option" where
  "is_stackable R s =
     (if 1 < max_stack_size R s then (if is_damageable_item R s then map_option Not (is_damaged R s) else Some True) else Some False)"

definition is_same_item :: "'v item_stack \<Rightarrow> 'v item_stack \<Rightarrow> bool" where
  "is_same_item a b \<longleftrightarrow> item_of a = item_of b"

definition is_same_item_same_components :: "'v item_registry \<Rightarrow> 'v item_stack \<Rightarrow> 'v item_stack \<Rightarrow> bool" where
  "is_same_item_same_components R a b \<longleftrightarrow>
     is_same_item a b \<and> (is_empty_stack a \<and> is_empty_stack b \<or> components_equal R a b)"

definition stacks_match :: "'v item_registry \<Rightarrow> 'v item_stack \<Rightarrow> 'v item_stack \<Rightarrow> bool" where
  "stacks_match R a b \<longleftrightarrow> count_of a = count_of b \<and> is_same_item_same_components R a b"

section \<open>Containers\<close>

definition CONTAINER_MAX_STACK_SIZE :: int where
  "CONTAINER_MAX_STACK_SIZE = 99"

definition contains_stack :: "'v item_registry \<Rightarrow> 'v item_stack \<Rightarrow> 'v item_stack list \<Rightarrow> bool" where
  "contains_stack R search items = list_ex (\<lambda>s. \<not> is_empty_stack s \<and> is_same_item_same_components R s search) items"

text \<open>
  Adding a stack: onto matching stacks first, then into empty places, in the order of the given
  places and stopping when nothing is left. \<open>can_place\<close> is \<open>can_place_item\<close> of the container.
\<close>

fun merge_pass :: "'v item_registry \<Rightarrow> int \<Rightarrow> (nat \<Rightarrow> 'v item_stack \<Rightarrow> bool) \<Rightarrow> nat list \<Rightarrow> 'v item_stack list \<Rightarrow> 'v item_stack \<Rightarrow> 'v item_stack list \<times> 'v item_stack" where
  "merge_pass R max_size can_place [] items stack = (items, stack)"
| "merge_pass R max_size can_place (slot # slots) items stack =
     (if is_empty_stack stack then (items, stack)
      else
        (let existing = items ! slot; space = wrap_i32 (max_size - count_of existing); to_add = min (count_of stack) space
         in if can_place slot stack \<and> \<not> is_empty_stack existing \<and> is_same_item_same_components R existing stack \<and> 0 < space
            then merge_pass R max_size can_place slots (items[slot := grow to_add existing]) (shrink to_add stack)
            else merge_pass R max_size can_place slots items stack))"

fun fill_pass :: "int \<Rightarrow> (nat \<Rightarrow> 'v item_stack \<Rightarrow> bool) \<Rightarrow> nat list \<Rightarrow> 'v item_stack list \<Rightarrow> 'v item_stack \<Rightarrow> 'v item_stack list \<times> 'v item_stack" where
  "fill_pass max_size can_place [] items stack = (items, stack)"
| "fill_pass max_size can_place (slot # slots) items stack =
     (if is_empty_stack stack then (items, stack)
      else if is_empty_stack (items ! slot) \<and> can_place slot stack
      then (case split_stack (min (count_of stack) max_size) stack of
              (placed, rest) \<Rightarrow> fill_pass max_size can_place slots (items[slot := placed]) rest)
      else fill_pass max_size can_place slots items stack)"

definition add_over ::
  "'v item_registry \<Rightarrow> (nat \<Rightarrow> 'v item_stack \<Rightarrow> bool) \<Rightarrow> nat list \<Rightarrow> nat list \<Rightarrow> 'v item_stack list \<Rightarrow> 'v item_stack
     \<Rightarrow> (bool \<times> 'v item_stack list \<times> 'v item_stack) option" where
  "add_over R can_place merge_slots fill_slots items stack =
     (if is_empty_stack stack then Some (True, items, stack)
      else
        (let max_size = min CONTAINER_MAX_STACK_SIZE (max_stack_size R stack)
         in case is_stackable R stack of
              None \<Rightarrow> None
            | Some stackable \<Rightarrow>
                (let (items1, stack1) = (if stackable then merge_pass R max_size can_place merge_slots items stack else (items, stack));
                     (items2, stack2) = fill_pass max_size can_place fill_slots items1 stack1
                 in Some (is_empty_stack stack2, items2, stack2))))"

definition container_add ::
  "'v item_registry \<Rightarrow> (nat \<Rightarrow> 'v item_stack \<Rightarrow> bool) \<Rightarrow> 'v item_stack list \<Rightarrow> 'v item_stack \<Rightarrow> (bool \<times> 'v item_stack list \<times> 'v item_stack) option" where
  "container_add R can_place items stack = add_over R can_place [0..<length items] [0..<length items] items stack"

definition INVENTORY_SIZE :: nat where "INVENTORY_SIZE = 36"
definition CONTAINER_SIZE :: nat where "CONTAINER_SIZE = 43"
definition SLOT_OFFHAND :: nat where "SLOT_OFFHAND = 40"

text \<open>The player inventory tries the selected place and the offhand before its main places.\<close>

definition inventory_add ::
  "'v item_registry \<Rightarrow> nat \<Rightarrow> 'v item_stack list \<Rightarrow> 'v item_stack \<Rightarrow> (bool \<times> 'v item_stack list \<times> 'v item_stack) option" where
  "inventory_add R selected items stack =
     add_over R (\<lambda>_ _. True) ([selected, SLOT_OFFHAND] @ filter (\<lambda>slot. slot \<noteq> selected) [0..<INVENTORY_SIZE]) [0..<INVENTORY_SIZE] items stack"

definition matching_item_count :: "'v item_stack \<Rightarrow> ('v item_stack \<Rightarrow> bool) \<Rightarrow> int \<Rightarrow> bool \<Rightarrow> int" where
  "matching_item_count s p amount_to_remove counting_only =
     (if is_empty_stack s \<or> \<not> p s then 0
      else if counting_only then count_of s
      else if amount_to_remove < 0 then count_of s else min amount_to_remove (count_of s))"

fun clear_pass :: "('v item_stack \<Rightarrow> bool) \<Rightarrow> int \<Rightarrow> bool \<Rightarrow> nat list \<Rightarrow> int \<Rightarrow> 'v item_stack list \<Rightarrow> int \<times> 'v item_stack list" where
  "clear_pass p amount counting_only [] n items = (n, items)"
| "clear_pass p amount counting_only (slot # slots) n items =
     (let removed = matching_item_count (items ! slot) p (wrap_i32 (amount - n)) counting_only
      in clear_pass p amount counting_only slots (wrap_i32 (n + removed))
           (if 0 < removed \<and> \<not> counting_only
            then (if removed = count_of (items ! slot) then items[slot := empty_stack] else items[slot := shrink removed (items ! slot)])
            else items))"

definition clear_or_count_matching_items :: "('v item_stack \<Rightarrow> bool) \<Rightarrow> int \<Rightarrow> bool \<Rightarrow> 'v item_stack list \<Rightarrow> int \<times> 'v item_stack list" where
  "clear_or_count_matching_items p amount counting_only items = clear_pass p amount counting_only [0..<length items] 0 items"

section \<open>Amounts\<close>

text \<open>What makes two stacks merge: the item and its effective components.\<close>

definition kind :: "'v item_registry \<Rightarrow> 'v item_stack \<Rightarrow> nat \<times> (component_key \<Rightarrow> 'v option)" where
  "kind R s = (st_item s, get_effective_value_raw R s)"

text \<open>The number of items of the given kinds in a stack.\<close>

definition amount :: "'v item_registry \<Rightarrow> (nat \<times> (component_key \<Rightarrow> 'v option) \<Rightarrow> bool) \<Rightarrow> 'v item_stack \<Rightarrow> int" where
  "amount R K s = (if is_empty_stack s then 0 else if K (kind R s) then st_count s else 0)"

text \<open>
  The ranges the component registry gives: an effective maximum stack size between 1 and 99 and a
  maximum damage that is not negative (\<open>register_ranged_i32!\<close> of
  \<open>steel-registry/src/data_components/vanilla_components/mod.rs\<close>). Nothing is said about other
  components.
\<close>

definition in_range :: "'v item_registry \<Rightarrow> 'v item_stack \<Rightarrow> bool" where
  "in_range R s \<longleftrightarrow> 1 \<le> max_stack_size R s \<and> max_stack_size R s \<le> 99 \<and> 0 \<le> get_max_damage R s"

text \<open>
  A stack as the operations leave it: no negative count, air is not counted, and an item's two
  components are in range.
\<close>

definition count_ok :: "'v item_stack \<Rightarrow> bool" where
  "count_ok s \<longleftrightarrow> 0 \<le> st_count s \<and> (st_item s = AIR \<longrightarrow> st_count s = 0)"

definition stack_ok :: "'v item_registry \<Rightarrow> 'v item_stack \<Rightarrow> bool" where
  "stack_ok R s \<longleftrightarrow> 0 \<le> st_count s \<and> (st_item s = AIR \<longrightarrow> st_count s = 0) \<and> (st_item s \<noteq> AIR \<longrightarrow> in_range R s)"

lemma effective_count [simp]: "get_effective_value_raw R (s\<lparr>st_count := n\<rparr>) = get_effective_value_raw R s"
  by (simp add: get_effective_value_raw_def fun_eq_iff split: option.split)

lemma in_range_count [simp]: "in_range R (s\<lparr>st_count := n\<rparr>) = in_range R s"
  by (simp add: in_range_def max_stack_size_def get_max_damage_def get_integer_def)

lemma in_range_stackable: "in_range R s \<Longrightarrow> \<exists>b. is_stackable R s = Some b"
  by (auto simp: in_range_def is_stackable_def is_damaged_def get_damage_value_def)

lemma components_equal_iff: "components_equal R a b \<longleftrightarrow> get_effective_value_raw R a = get_effective_value_raw R b"
proof
  assume eq: "components_equal R a b"
  have absent: "get_effective_value_raw R s key = None" if "key \<notin> set (present_keys R s)" for s key
  proof (cases "map_of (st_patch s) key")
    case None
    then have "map_of (prototype R (st_item s)) key = None"
      using that None by (simp add: present_keys_def map_of_eq_None_iff)
    with None show ?thesis by (simp add: get_effective_value_raw_def)
  next
    case (Some e)
    have "e = None"
    proof (rule ccontr)
      assume "e \<noteq> None"
      then have "key \<in> set (map fst (filter (\<lambda>e. snd e \<noteq> None) (st_patch s)))" using map_of_SomeD [OF Some] by (force simp: image_iff)
      with that show False by (simp add: present_keys_def)
    qed
    with Some show ?thesis by (simp add: get_effective_value_raw_def)
  qed
  show "get_effective_value_raw R a = get_effective_value_raw R b"
  proof
    fix key
    show "get_effective_value_raw R a key = get_effective_value_raw R b key"
      using eq absent [of key a] absent [of key b]
      by (cases "key \<in> set (present_keys R a @ present_keys R b)") (auto simp: components_equal_def list_all_iff)
  qed
qed (simp add: components_equal_def list_all_iff)

lemma same_iff_kind:
  assumes "\<not> is_empty_stack a" and "\<not> is_empty_stack b"
  shows "is_same_item_same_components R a b \<longleftrightarrow> kind R a = kind R b"
  using assms by (auto simp: is_same_item_same_components_def is_same_item_def item_of_def kind_def components_equal_iff)

lemma kind_count [simp]: "kind R (s\<lparr>st_count := n\<rparr>) = kind R s"
  by (simp add: kind_def)

lemma empty_iff: "stack_ok R s \<Longrightarrow> is_empty_stack s \<longleftrightarrow> st_count s = 0"
  by (auto simp: stack_ok_def is_empty_stack_def)

lemma count_of_ok: "stack_ok R s \<Longrightarrow> count_of s = st_count s"
  by (auto simp: stack_ok_def is_empty_stack_def count_of_def)

lemma count_ok_count: "count_ok s \<Longrightarrow> count_of s = st_count s"
  by (auto simp: count_ok_def is_empty_stack_def count_of_def)

lemma amount_ok: "stack_ok R s \<Longrightarrow> amount R K s = (if K (kind R s) then st_count s else 0)"
  by (auto simp: stack_ok_def is_empty_stack_def amount_def)

lemma stack_ok_empty [simp]: "stack_ok R empty_stack" "count_ok empty_stack" "amount R K empty_stack = 0" "is_empty_stack empty_stack" "st_count empty_stack = 0"
  by (simp_all add: stack_ok_def count_ok_def empty_stack_def amount_def is_empty_stack_def)

lemma amount_nonneg: "stack_ok R s \<Longrightarrow> 0 \<le> amount R K s"
  by (simp add: amount_ok stack_ok_def)

definition stored :: "'v item_registry \<Rightarrow> (nat \<times> (component_key \<Rightarrow> 'v option) \<Rightarrow> bool) \<Rightarrow> 'v item_stack list \<Rightarrow> int" where
  "stored R K items = sum_list (map (amount R K) items)"

lemma stored_update: "i < length items \<Longrightarrow> stored R K (items[i := s]) = stored R K items - amount R K (items ! i) + amount R K s"
proof (induction items arbitrary: i)
  case (Cons a items)
  then show ?case by (cases i) (auto simp: stored_def)
qed simp

lemma stored_nonneg: "list_all (stack_ok R) items \<Longrightarrow> 0 \<le> stored R K items"
  by (auto simp: stored_def list_all_iff amount_nonneg intro!: sum_list_nonneg)

lemma stored_member:
  assumes "list_all (stack_ok R) items" and "i < length items"
  shows "st_count (items ! i) \<le> stored R (\<lambda>_. True) items"
proof -
  have ok: "stack_ok R (items ! i)" using assms by (simp add: list_all_length)
  have "list_all (stack_ok R) (items[i := empty_stack])"
    using assms(1) by (auto simp: list_all_iff dest!: set_update_subset_insert [THEN subsetD])
  from stored_nonneg [OF this, of "\<lambda>_. True"] show ?thesis using stored_update [OF assms(2), of R "\<lambda>_. True" empty_stack] ok by (simp add: amount_ok)
qed

text \<open>All items together are few enough for \<open>i32\<close>, and for the \<open>f32\<close> of a drag.\<close>

definition few :: int where "few = 2 ^ 24"

lemma list_all_update: "list_all P xs \<Longrightarrow> P x \<Longrightarrow> list_all P (xs[i := x])"
  by (auto simp: list_all_iff dest!: set_update_subset_insert [THEN subsetD])

lemma wrap_few: "- (2 ^ 31) \<le> x \<Longrightarrow> x < 2 ^ 31 \<Longrightarrow> wrap_i32 x = x"
  by (rule wrap_i32_id) (simp add: i32_ok_def)

lemma move_amount:
  assumes "stack_ok R a" and "stack_ok R b" and "is_empty_stack a \<or> kind R a = kind R b" and "st_count a + st_count b \<le> few" and "0 \<le> n" "n \<le> st_count b"
    and "\<not> is_empty_stack a"
  shows "stack_ok R (grow n a)" "stack_ok R (shrink n b)" "amount R K (grow n a) + amount R K (shrink n b) = amount R K a + amount R K b"
    "st_count (shrink n b) = st_count b - n" "st_count (grow n a) = st_count a + n"
proof -
  have a: "0 < st_count a" "st_item a \<noteq> AIR" using assms(1,7) by (auto simp: stack_ok_def is_empty_stack_def)
  have b: "0 \<le> st_count b" using assms(2) by (simp add: stack_ok_def)
  have w: "wrap_i32 (st_count a + n) = st_count a + n" "wrap_i32 (st_count b - n) = st_count b - n"
    using a b assms(4-6) by (simp_all add: few_def wrap_few)
  show c: "st_count (shrink n b) = st_count b - n" "st_count (grow n a) = st_count a + n" using w by (simp_all add: grow_def shrink_def)
  show ok: "stack_ok R (grow n a)" "stack_ok R (shrink n b)" using assms(1,2,5,6) a b w by (auto simp: stack_ok_def grow_def shrink_def)
  have "kind R (grow n a) = kind R a" "kind R (shrink n b) = kind R b" by (simp_all add: grow_def shrink_def)
  then show "amount R K (grow n a) + amount R K (shrink n b) = amount R K a + amount R K b"
    using ok assms(1,2,3,7) c by (simp add: amount_ok)
qed

lemma split_spec:
  assumes "stack_ok R s" and "0 \<le> n" and "st_count s \<le> few" and "split_stack n s = (a, b)"
  shows "stack_ok R a" "stack_ok R b" "amount R K a + amount R K b = amount R K s" "st_count a = min n (st_count s)" "st_count b = st_count s - min n (st_count s)"
    "kind R a = kind R s" "kind R b = kind R s"
proof -
  let ?t = "min n (st_count s)"
  have s: "0 \<le> st_count s" using assms(1) by (simp add: stack_ok_def)
  have w: "wrap_i32 (st_count s - ?t) = st_count s - ?t" using s assms(2,3) by (simp add: few_def wrap_few)
  have ab: "a = s\<lparr>st_count := ?t\<rparr>" "b = s\<lparr>st_count := st_count s - ?t\<rparr>" using assms(4) w by (auto simp: split_stack_def Let_def shrink_def)
  show k: "kind R a = kind R s" "kind R b = kind R s" "st_count a = ?t" "st_count b = st_count s - ?t" using ab by simp_all
  show ok: "stack_ok R a" "stack_ok R b" using ab assms(1,2) s by (auto simp: stack_ok_def)
  show "amount R K a + amount R K b = amount R K s" using ok assms(1) k by (simp add: amount_ok)
qed

lemma merge_pass_spec:
  assumes "list_all (stack_ok R) items" and "stack_ok R stack" and "stored R (\<lambda>_. True) items + st_count stack \<le> few"
    and "\<forall>i \<in> set slots. i < length items" and "0 \<le> max_size" "max_size \<le> 99" and "merge_pass R max_size can_place slots items stack = (items', stack')"
  shows "list_all (stack_ok R) items' \<and> stack_ok R stack' \<and> length items' = length items \<and> kind R stack' = kind R stack
    \<and> stored R K items' + amount R K stack' = stored R K items + amount R K stack \<and> st_count stack' \<le> st_count stack"
  using assms
proof (induction R max_size can_place slots items stack rule: merge_pass.induct)
  case (2 R max_size can_place slot slots items stack)
  let ?e = "items ! slot" and ?space = "wrap_i32 (max_size - count_of (items ! slot))"
  let ?n = "min (count_of stack) ?space"
  let ?go = "can_place slot stack \<and> \<not> is_empty_stack ?e \<and> is_same_item_same_components R ?e stack \<and> 0 < ?space"
  show ?case
  proof (cases "\<not> is_empty_stack stack \<and> ?go")
    case False
    then show ?thesis using 2 by (auto simp: Let_def split: if_splits)
  next
    case True
    have i: "slot < length items" using 2(6) by simp
    have e: "stack_ok R ?e" using 2(3) i by (simp add: list_all_length)
    have sum: "st_count ?e + st_count stack \<le> few" using stored_member [OF 2(3) i] 2(5) by linarith
    have same: "kind R ?e = kind R stack" using True same_iff_kind by blast
    have n: "0 \<le> ?n" "?n \<le> st_count stack" using True count_of_ok [OF 2(4)] 2(4) by (auto simp: stack_ok_def)
    note m = move_amount [OF e 2(4) _ sum n]
    have m': "stack_ok R (grow ?n ?e)" "stack_ok R (shrink ?n stack)" "\<And>K. amount R K (grow ?n ?e) + amount R K (shrink ?n stack) = amount R K ?e + amount R K stack"
      "st_count (shrink ?n stack) = st_count stack - ?n" using m same True by blast+
    let ?items = "items[slot := grow ?n ?e]"
    have st: "stored R K ?items + amount R K (shrink ?n stack) = stored R K items + amount R K stack" for K
      using stored_update [OF i, of R K "grow ?n ?e"] m'(3) [of K] by linarith
    have total: "stored R (\<lambda>_. True) ?items + st_count (shrink ?n stack) \<le> few"
      using st [of "\<lambda>_. True"] 2(5) m'(2) 2(4) by (simp add: amount_ok)
    have run: "merge_pass R max_size can_place slots ?items (shrink ?n stack) = (items', stack')" using 2(9) True by (simp add: Let_def)
    have "kind R (shrink ?n stack) = kind R stack" by (simp add: shrink_def)
    then show ?thesis
      using 2(1) [OF _ refl refl refl _ list_all_update [OF 2(3) m'(1)] m'(2) total _ 2(7,8) run] True 2(6) st m'(4) n by auto
  qed
qed simp

lemma fill_pass_spec:
  assumes "list_all (stack_ok R) items" and "stack_ok R stack" and "stored R (\<lambda>_. True) items + st_count stack \<le> few"
    and "\<forall>i \<in> set slots. i < length items" and "0 \<le> max_size" and "fill_pass max_size can_place slots items stack = (items', stack')"
  shows "list_all (stack_ok R) items' \<and> stack_ok R stack' \<and> length items' = length items \<and> kind R stack' = kind R stack
    \<and> stored R K items' + amount R K stack' = stored R K items + amount R K stack \<and> st_count stack' \<le> st_count stack"
  using assms
proof (induction max_size can_place slots items stack rule: fill_pass.induct)
  case (2 max_size can_place slot slots items stack)
  show ?case
  proof (cases "\<not> is_empty_stack stack \<and> is_empty_stack (items ! slot) \<and> can_place slot stack")
    case False
    then show ?thesis using 2 by (auto split: if_splits)
  next
    case True
    obtain a b where ab: "split_stack (min (count_of stack) max_size) stack = (a, b)" by (cases "split_stack (min (count_of stack) max_size) stack")
    have i: "slot < length items" using 2(6) by simp
    have "stack_ok R (items ! slot)" using 2(3) i by (simp add: list_all_length)
    have few: "st_count stack \<le> few" using stored_nonneg [OF 2(3), of "\<lambda>_. True"] 2(5) by linarith
    have n: "0 \<le> min (count_of stack) max_size" using count_of_ok [OF 2(4)] 2(4,7) by (simp add: stack_ok_def)
    note s = split_spec [OF 2(4) n few ab]
    have st: "stored R K (items[slot := a]) + amount R K b = stored R K items + amount R K stack" for K
      using stored_update [OF i, of R K a] s(3) [of K] True by (simp add: amount_def)
    have total: "stored R (\<lambda>_. True) (items[slot := a]) + st_count b \<le> few"
      using st [of "\<lambda>_. True"] 2(5) s(2) 2(4) by (simp add: amount_ok)
    have run: "fill_pass max_size can_place slots (items[slot := a]) b = (items', stack')" using 2(8) True ab by simp
    have less: "st_count b \<le> st_count stack" using s(5) n 2(4) by (simp add: stack_ok_def)
    show ?thesis
      using 2(1) [OF _ _ ab [symmetric] list_all_update [OF 2(3) s(1)] s(2) total _ 2(7) run] True 2(6) st s(7) less by auto
  qed
qed simp

lemma add_over_spec:
  assumes "list_all (stack_ok R) items" and "stack_ok R stack" and "stored R (\<lambda>_. True) items + st_count stack \<le> few"
    and "\<forall>i \<in> set merge_slots \<union> set fill_slots. i < length items"
  shows "\<exists>added items' stack'. add_over R can_place merge_slots fill_slots items stack = Some (added, items', stack') \<and> added = is_empty_stack stack'
    \<and> list_all (stack_ok R) items' \<and> stack_ok R stack' \<and> length items' = length items \<and> kind R stack' = kind R stack
    \<and> (\<forall>K. stored R K items' + amount R K stack' = stored R K items + amount R K stack)"
proof (cases "is_empty_stack stack")
  case True
  then show ?thesis using assms by (auto simp: add_over_def)
next
  case False
  let ?max = "min CONTAINER_MAX_STACK_SIZE (max_stack_size R stack)"
  have range: "in_range R stack" using False assms(2) by (simp add: stack_ok_def is_empty_stack_def)
  then have max: "0 \<le> ?max" "?max \<le> 99" using range by (simp_all add: in_range_def CONTAINER_MAX_STACK_SIZE_def)
  obtain stackable where stackable: "is_stackable R stack = Some stackable" using in_range_stackable [OF range] by blast
  obtain items1 stack1 where 1: "(if stackable then merge_pass R ?max can_place merge_slots items stack else (items, stack)) = (items1, stack1)" by fastforce
  have m: "list_all (stack_ok R) items1" "stack_ok R stack1" "length items1 = length items" "kind R stack1 = kind R stack"
    "\<And>K. stored R K items1 + amount R K stack1 = stored R K items + amount R K stack"
    using merge_pass_spec [OF assms(1-3), of merge_slots ?max can_place items1 stack1] 1 assms(1,2,4) max by (auto split: if_splits)
  obtain items2 stack2 where 2: "fill_pass ?max can_place fill_slots items1 stack1 = (items2, stack2)" by fastforce
  have total: "stored R (\<lambda>_. True) items1 + st_count stack1 \<le> few" using m(5) [of "\<lambda>_. True"] assms(2,3) m(2) by (simp add: amount_ok)
  have f: "list_all (stack_ok R) items2 \<and> stack_ok R stack2 \<and> length items2 = length items1 \<and> kind R stack2 = kind R stack1
      \<and> stored R K items2 + amount R K stack2 = stored R K items1 + amount R K stack1" for K
    using fill_pass_spec [OF m(1,2) total _ max(1) 2] assms(4) m(3) by simp
  have "add_over R can_place merge_slots fill_slots items stack = Some (is_empty_stack stack2, items2, stack2)"
    using False stackable 1 2 by (simp add: add_over_def Let_def)
  then show ?thesis using f m by auto
qed

lemma inventory_add_spec:
  assumes "list_all (stack_ok R) items" and "stack_ok R stack" and "stored R (\<lambda>_. True) items + st_count stack \<le> few"
    and "length items = CONTAINER_SIZE" and "selected < 9"
  shows "\<exists>added items' stack'. inventory_add R selected items stack = Some (added, items', stack') \<and> added = is_empty_stack stack'
    \<and> list_all (stack_ok R) items' \<and> stack_ok R stack' \<and> length items' = length items \<and> kind R stack' = kind R stack
    \<and> (\<forall>K. stored R K items' + amount R K stack' = stored R K items + amount R K stack)"
  unfolding inventory_add_def
  by (rule add_over_spec [OF assms(1-3)]) (use assms(4,5) in \<open>auto simp: CONTAINER_SIZE_def INVENTORY_SIZE_def SLOT_OFFHAND_def\<close>)

text \<open>
  Adding a stack to the player inventory loses nothing and makes nothing up: of every kind the
  inventory and what is left of the stack hold together what they held before, the call succeeds
  exactly when nothing is left, and it does not panic.
\<close>
theorem inventory_add_conserves:
  assumes "list_all (stack_ok R) items" and "stack_ok R stack" and "stored R (\<lambda>_. True) items + st_count stack \<le> few"
    and "length items = CONTAINER_SIZE" and "selected < 9"
  shows "\<exists>added items' stack'. inventory_add R selected items stack = Some (added, items', stack') \<and> added = (st_count stack' = 0)
    \<and> list_all (stack_ok R) items' \<and> length items' = length items \<and> kind R stack' = kind R stack
    \<and> (\<forall>K. stored R K items' + amount R K stack' = stored R K items + amount R K stack)"
proof -
  from inventory_add_spec [OF assms] obtain added items' stack' where
    a: "inventory_add R selected items stack = Some (added, items', stack')" "added = is_empty_stack stack'" "list_all (stack_ok R) items'" "stack_ok R stack'"
      "length items' = length items" "kind R stack' = kind R stack" "\<forall>K. stored R K items' + amount R K stack' = stored R K items + amount R K stack"
    by blast
  then show ?thesis using empty_iff [OF a(4)] by blast
qed

theorem inventory_add_conserves_witness:
  "\<exists>added items' stack'. inventory_add \<lparr>prototype = (\<lambda>_. []), as_integer = (\<lambda>_. Some 64)\<rparr> 3 (replicate 43 (empty_stack :: int item_stack)) (with_count 7 30)
      = Some (added, items', stack') \<and> added = (st_count stack' = 0)"
proof -
  let ?R = "\<lparr>prototype = (\<lambda>_. []), as_integer = (\<lambda>_. Some 64)\<rparr> :: int item_registry" and ?s = "with_count 7 30 :: int item_stack"
  have 1: "in_range ?R ?s"
    by (simp add: in_range_def max_stack_size_def get_max_damage_def get_integer_def get_effective_value_raw_def with_count_def)
  have 2: "list_all (stack_ok ?R) (replicate 43 (empty_stack :: int item_stack))" "stack_ok ?R ?s"
    using 1 by (simp_all add: list_all_iff) (simp add: stack_ok_def with_count_def AIR_def)
  have 3: "stored ?R (\<lambda>_. True) (replicate 43 empty_stack) + st_count ?s \<le> few"
    by (simp add: stored_def sum_list_replicate with_count_def few_def)
  from inventory_add_conserves [OF 2 3, of 3] show ?thesis unfolding CONTAINER_SIZE_def by fastforce
qed

section \<open>Clearing and counting\<close>

definition matching :: "('v item_stack \<Rightarrow> bool) \<Rightarrow> 'v item_stack \<Rightarrow> int" where
  "matching p s = (if p s then count_of s else 0)"

lemma count_of_shrink:
  assumes "count_ok s" and "st_count s \<le> few" and "0 < k" and "k < count_of s"
  shows "count_of (shrink k s) = count_of s - k" "count_ok (shrink k s)"
  using assms by (auto simp: count_ok_count count_ok_def shrink_def few_def wrap_few count_of_def is_empty_stack_def)

lemma matching_nonneg: "count_ok s \<Longrightarrow> 0 \<le> matching p s"
  by (simp add: matching_def count_ok_count count_ok_def)

lemma count_sum_update: "i < length items \<Longrightarrow> sum_list (map f (items[i := s])) = sum_list (map f items) - f (items ! i) + (f s :: int)"
proof (induction items arbitrary: i)
  case (Cons a items)
  then show ?case by (cases i) auto
qed simp

lemma removed_spec:
  assumes "count_ok s" and "0 \<le> n" and "n + matching p s \<le> few" and "- few \<le> limit" "limit < 2 ^ 31" and "counting \<or> limit < 0 \<or> n \<le> limit"
  defines "r \<equiv> matching_item_count s p (wrap_i32 (limit - n)) counting"
  shows "n + r = (if counting \<or> limit < 0 then n + matching p s else min limit (n + matching p s))"
    "wrap_i32 (n + r) = n + r" "0 \<le> r" "r \<le> matching p s"
proof -
  have m0: "0 \<le> matching p s" by (rule matching_nonneg [OF assms(1)])
  have w: "wrap_i32 (limit - n) = limit - n" using assms(2-6) m0 by (intro wrap_few) (auto simp: few_def)
  have m: "r = (if counting \<or> limit < 0 then matching p s else min (limit - n) (matching p s))"
    unfolding r_def w using assms(2,6) by (auto simp: matching_item_count_def matching_def count_of_def)
  show "n + r = (if counting \<or> limit < 0 then n + matching p s else min limit (n + matching p s))" unfolding m by auto
  show r: "0 \<le> r" "r \<le> matching p s" unfolding m using assms(6) m0 by auto
  show "wrap_i32 (n + r) = n + r" using r assms(2,3) by (intro wrap_few) (auto simp: few_def)
qed

lemma clear_pass_spec:
  assumes "list_all count_ok items" and "distinct slots" and "\<forall>i \<in> set slots. i < length items \<and> st_count (items ! i) \<le> few" and "0 \<le> n"
    and "n + sum_list (map (\<lambda>i. matching p (items ! i)) slots) \<le> few" and "- few \<le> limit" "limit < 2 ^ 31" and "counting \<or> limit < 0 \<or> n \<le> limit"
    and "clear_pass p limit counting slots n items = (n', items')"
  shows "n' = (if counting \<or> limit < 0 then n + sum_list (map (\<lambda>i. matching p (items ! i)) slots) else min limit (n + sum_list (map (\<lambda>i. matching p (items ! i)) slots)))
    \<and> length items' = length items \<and> (counting \<longrightarrow> items' = items) \<and> list_all count_ok items'
    \<and> (\<not> counting \<longrightarrow> sum_list (map count_of items') = sum_list (map count_of items) - (n' - n))
    \<and> (\<forall>j < length items. j \<notin> set slots \<or> \<not> p (items ! j) \<longrightarrow> items' ! j = items ! j)"
  using assms
proof (induction slots arbitrary: n items)
  case (Cons i slots)
  let ?s = "items ! i" and ?rest = "sum_list (map (\<lambda>i. matching p (items ! i)) slots)"
  define r where "r = matching_item_count ?s p (wrap_i32 (limit - n)) counting"
  define items1 where "items1 = (if 0 < r \<and> \<not> counting then (if r = count_of ?s then items[i := empty_stack] else items[i := shrink r ?s]) else items)"
  have i: "i < length items" and ok: "count_ok ?s" using Cons.prems(1,3) by (auto simp: list_all_length)
  have "\<forall>j \<in> set slots. count_ok (items ! j)" using Cons.prems(1,3) by (auto simp: list_all_length)
  then have rest: "0 \<le> ?rest" by (auto intro!: sum_list_nonneg simp: matching_nonneg)
  have "n + matching p ?s \<le> few" using Cons.prems(5) rest by simp
  note rs = removed_spec [OF ok Cons.prems(4) this Cons.prems(6-8), folded r_def]
  have run: "clear_pass p limit counting slots (n + r) items1 = (n', items')"
    using Cons.prems(9) unfolding clear_pass.simps Let_def r_def [symmetric] items1_def [symmetric] rs(2) .
  have others: "items1 ! j = items ! j" if "j \<noteq> i \<or> \<not> p (items ! j)" for j using that rs(3,4) by (auto simp: items1_def matching_def)
  have later: "items1 ! j = items ! j" if "j \<in> set slots" for j
  proof -
    have "j \<noteq> i" using that Cons.prems(2) by auto
    then show ?thesis using others [of j] by simp
  qed
  have same: "map (\<lambda>j. matching p (items1 ! j)) slots = map (\<lambda>j. matching p (items ! j)) slots" 
  proof (rule map_cong [OF refl])
    show "matching p (items1 ! j) = matching p (items ! j)" if "j \<in> set slots" for j using later [OF that] by simp
  qed
  have len: "length items1 = length items" by (simp add: items1_def)
  have sh: "count_of (shrink r ?s) = count_of ?s - r" "count_ok (shrink r ?s)" if "0 < r" "r \<noteq> count_of ?s"
    using count_of_shrink [OF ok] that rs(3,4) Cons.prems(3) by (auto simp: matching_def split: if_splits)
  have ok1: "list_all count_ok items1" using Cons.prems(1) sh(2) by (auto simp: items1_def intro!: list_all_update)
  have cnt: "sum_list (map count_of items1) = sum_list (map count_of items) - r" if "\<not> counting"
    using that rs(3) sh(1) count_sum_update [OF i, of count_of] by (auto simp: items1_def count_of_def [of empty_stack])
  have "\<forall>j \<in> set slots. j < length items1 \<and> st_count (items1 ! j) \<le> few" using Cons.prems(3) later len by simp
  moreover have "n + r + sum_list (map (\<lambda>j. matching p (items1 ! j)) slots) \<le> few" unfolding same using rs(4) Cons.prems(5) by simp
  moreover have "counting \<or> limit < 0 \<or> n + r \<le> limit" "0 \<le> n + r" using rs(1,3) Cons.prems(4) by (auto split: if_splits)
  ultimately have ih: "n' = (if counting \<or> limit < 0 then n + r + ?rest else min limit (n + r + ?rest))" "length items' = length items" "counting \<longrightarrow> items' = items1"
    "list_all count_ok items'" "\<not> counting \<longrightarrow> sum_list (map count_of items') = sum_list (map count_of items1) - (n' - (n + r))"
    "\<forall>j < length items. j \<notin> set slots \<or> \<not> p (items1 ! j) \<longrightarrow> items' ! j = items1 ! j"
    using Cons.IH [OF ok1 _ _ _ _ Cons.prems(6,7) _ run, unfolded same len] Cons.prems(2) same len by (simp_all split: if_splits)
  have "items' ! j = items ! j" if "j < length items" "j \<notin> set (i # slots) \<or> \<not> p (items ! j)" for j
  proof -
    have "items1 ! j = items ! j" using that(2) by (intro others) auto
    then show ?thesis using that ih(6) by auto
  qed
  moreover have "n' = (if counting \<or> limit < 0 then n + (matching p ?s + ?rest) else min limit (n + (matching p ?s + ?rest)))"
    using ih(1) rs(1) rest by (auto split: if_splits)
  moreover have "counting \<longrightarrow> items1 = items" by (simp add: items1_def)
  ultimately show ?case using ih(2-5) cnt by auto
qed auto

text \<open>
  Clearing items from a container: with a limit, exactly that many matching items are removed or
  all there are; without one, all; and when only counting, nothing changes and the count is that of the
  matching items. What is reported is what is gone, and a stack that does not match is left alone.
\<close>
theorem clear_removes_what_it_reports:
  assumes "list_all count_ok items" and "sum_list (map count_of items) \<le> few" and "- few \<le> limit" and "limit < 2 ^ 31"
    and "clear_or_count_matching_items p limit counting items = (n, items')"
  shows "n = (if counting \<or> limit < 0 then sum_list (map (matching p) items) else min limit (sum_list (map (matching p) items)))
    \<and> sum_list (map count_of items') = sum_list (map count_of items) - (if counting then 0 else n)
    \<and> length items' = length items \<and> (\<forall>j < length items. counting \<or> \<not> p (items ! j) \<longrightarrow> items' ! j = items ! j)"
proof -
  have ok: "count_ok (items ! i)" if "i < length items" for i using that assms(1) by (simp add: list_all_length)
  have c0: "\<forall>s \<in> set items. 0 \<le> count_of s" using assms(1) by (auto simp: list_all_iff count_ok_count count_ok_def)
  have le: "st_count (items ! i) \<le> few" if i: "i < length items" for i
  proof -
    have "\<forall>s \<in> set (items[i := empty_stack]). 0 \<le> count_of s"
      using c0 by (auto simp: count_of_def [of empty_stack] dest!: set_update_subset_insert [THEN subsetD])
    then have "0 \<le> sum_list (map count_of (items[i := empty_stack]))" by (auto intro!: sum_list_nonneg)
    then show ?thesis using count_sum_update [OF i, of count_of empty_stack] assms(2) count_ok_count [OF ok [OF i]] by (simp add: count_of_def [of empty_stack])
  qed
  have map: "map (\<lambda>i. matching p (items ! i)) [0..<length items] = map (matching p) items" by (intro nth_equalityI) simp_all
  have "sum_list (map (matching p) items) \<le> sum_list (map count_of items)" using c0 by (intro sum_list_mono) (auto simp: matching_def)
  then show ?thesis
    using clear_pass_spec [OF assms(1), of "[0..<length items]" 0 p limit counting n items', unfolded map] assms(2-) le
    by (auto simp: clear_or_count_matching_items_def)
qed

theorem clear_removes_what_it_reports_witness:
  "clear_or_count_matching_items (\<lambda>s. st_item s = 1) 30 False [with_count 1 20, with_count 2 5, with_count 1 64 :: int item_stack]
     = (30, [empty_stack, with_count 2 5, with_count 1 54])
   \<and> sum_list (map count_of [empty_stack, with_count 2 5, with_count 1 54 :: int item_stack]) = 59"
proof -
  let ?items = "[with_count 1 20, with_count 2 5, with_count 1 64 :: int item_stack]"
  have run: "clear_or_count_matching_items (\<lambda>s. st_item s = 1) 30 False ?items = (30, [empty_stack, with_count 2 5, with_count 1 54])"
    by code_simp
  have "list_all count_ok ?items" "sum_list (map count_of ?items) = 89"
    by (simp_all add: count_ok_def with_count_def AIR_def count_of_def is_empty_stack_def)
  with clear_removes_what_it_reports [OF _ _ _ _ run] have "sum_list (map count_of [empty_stack, with_count 2 5, with_count 1 54 :: int item_stack]) = 59"
    by (simp add: few_def)
  with run show ?thesis by blast
qed

end
