(* ===== verification/Menu_Clicks.thy ===== *)
theory Menu_Clicks
  imports Item_Stacks
begin

text \<open>
  Menus and container clicks (\<open>steel-core/src/inventory/click.rs\<close>, \<open>inventory/slots\<close>,
  \<open>inventory/menu/behavior.rs\<close>, \<open>menu/mod.rs\<close>, \<open>menu/layout.rs\<close>). The containers a menu looks at are
  a store of lists of stacks; a slot names a container and a place in it, so two slots, or a slot
  and the inventory of the player, can be the same place. The slots are those backed by a
  container: normal, restricted and armour slots. Whether a slot accepts a stack or lets go of
  one, and the vetoes of the kind of menu, are parameters, the latter with the kind's other hooks
  as they are by default. Items dropped into the world are collected, and so are those whose item
  entity the world refused to add, which is a parameter. The containers stay locked
  for a whole click. A panic, and a loop that has run out of fuel, is \<open>None\<close>.
\<close>

section \<open>Clicks\<close>

datatype mouse_button = LeftButton | RightButton

datatype swap_target = Hotbar nat | Offhand

datatype drag_kind = LeftDrag | RightDrag | CloneDrag

datatype quick_craft = Start drag_kind | AddSlot nat | EndDrag

datatype fill_direction = Forward | Backward

datatype click =
  Pickup nat mouse_button | DropCarried mouse_button | QuickMove nat | Swap nat swap_target
| Clone nat | Throw nat bool | PickupAll nat fill_direction | QuickCraft quick_craft

datatype click_type = CtPickup | CtQuickMove | CtSwap | CtClone | CtThrow | CtQuickCraft | CtPickupAll

definition SLOT_CLICKED_OUTSIDE :: int where
  "SLOT_CLICKED_OUTSIDE = - 999"

fun click_slot :: "click \<Rightarrow> nat option" where
  "click_slot (Pickup s _) = Some s"
| "click_slot (QuickMove s) = Some s"
| "click_slot (Swap s _) = Some s"
| "click_slot (Clone s) = Some s"
| "click_slot (Throw s _) = Some s"
| "click_slot (PickupAll s _) = Some s"
| "click_slot (DropCarried _) = None"
| "click_slot (QuickCraft _) = None"

fun is_valid_for :: "nat \<Rightarrow> click \<Rightarrow> bool" where
  "is_valid_for n (Pickup s _) = (s < n)"
| "is_valid_for n (QuickMove s) = (s < n)"
| "is_valid_for n (Clone s) = (s < n)"
| "is_valid_for n (Throw s _) = (s < n)"
| "is_valid_for n (PickupAll s _) = (s < n)"
| "is_valid_for n (QuickCraft (AddSlot s)) = (s < n)"
| "is_valid_for n (Swap s w) = (s < n \<and> (case w of Hotbar i \<Rightarrow> i < 9 | Offhand \<Rightarrow> True))"
| "is_valid_for n (DropCarried _) = True"
| "is_valid_for n (QuickCraft (Start _)) = True"
| "is_valid_for n (QuickCraft EndDrag) = True"

fun inventory_slot :: "swap_target \<Rightarrow> nat" where
  "inventory_slot (Hotbar i) = i"
| "inventory_slot Offhand = 40"

text \<open>The raw slot is an \<open>i16\<close>, the button an \<open>i8\<close>.\<close>

definition click_parse :: "int \<Rightarrow> int \<Rightarrow> click_type \<Rightarrow> nat \<Rightarrow> click option" where
  "click_parse slot_num button click_type slot_count =
     (if 0 \<le> slot_num \<and> slot_count \<le> nat slot_num then None
      else
        (let slot = (if 0 \<le> slot_num \<and> nat slot_num < slot_count then Some (nat slot_num) else None);
             mouse_button = (if button = 0 then Some LeftButton else if button = 1 then Some RightButton else None)
         in case click_type of
              CtPickup \<Rightarrow>
                Option.bind mouse_button (\<lambda>b. if slot_num = SLOT_CLICKED_OUTSIDE then Some (DropCarried b)
                                              else map_option (\<lambda>s. Pickup s b) slot)
            | CtQuickMove \<Rightarrow> if button = 0 \<or> button = 1 then map_option QuickMove slot else None
            | CtSwap \<Rightarrow>
                Option.bind (if 0 \<le> button \<and> button \<le> 8 then Some (Hotbar (nat button)) else if button = 40 then Some Offhand else None)
                  (\<lambda>w. map_option (\<lambda>s. Swap s w) slot)
            | CtClone \<Rightarrow> map_option Clone slot
            | CtThrow \<Rightarrow> Option.bind slot (\<lambda>s. if button = 0 then Some (Throw s False) else if button = 1 then Some (Throw s True) else None)
            | CtPickupAll \<Rightarrow>
                Option.bind slot (\<lambda>s. if button = 0 then Some (PickupAll s Forward) else if button = 1 then Some (PickupAll s Backward) else None)
            | CtQuickCraft \<Rightarrow>
                (if button AND 3 = 0 then
                   (if drop_bit 2 button AND 3 = 0 then Some (QuickCraft (Start LeftDrag))
                    else if drop_bit 2 button AND 3 = 1 then Some (QuickCraft (Start RightDrag))
                    else if drop_bit 2 button AND 3 = 2 then Some (QuickCraft (Start CloneDrag)) else None)
                 else if button AND 3 = 1 then map_option (\<lambda>s. QuickCraft (AddSlot s)) slot
                 else if button AND 3 = 2 then Some (QuickCraft EndDrag)
                 else None)))"

text \<open>The share of a left drag is a rounded-down \<open>f32\<close> quotient, exact for counts below \<open>2 ^ 24\<close>.\<close>

fun place_count :: "'v item_registry \<Rightarrow> drag_kind \<Rightarrow> nat \<Rightarrow> 'v item_stack \<Rightarrow> int" where
  "place_count R LeftDrag slot_count c = st_count c div int slot_count"
| "place_count R RightDrag slot_count c = 1"
| "place_count R CloneDrag slot_count c = max_stack_size R c"

definition can_item_quick_replace :: "'v item_registry \<Rightarrow> 'v item_stack \<Rightarrow> 'v item_stack \<Rightarrow> bool \<Rightarrow> bool" where
  "can_item_quick_replace R slot_item c ignore_size =
     (if is_empty_stack slot_item then True
      else if \<not> is_same_item_same_components R c slot_item then False
      else wrap_i32 (st_count slot_item + (if ignore_size then 0 else st_count c)) \<le> max_stack_size R c)"

section \<open>Slots\<close>

type_synonym 'v store = "'v item_stack list list"

record 'v menu_slot =
  slot_container :: nat
  slot_place :: nat
  may_place :: "'v item_stack \<Rightarrow> bool"
  may_pickup :: "'v store \<Rightarrow> bool"
  slot_limit :: "int option"

definition normal_slot :: "nat \<Rightarrow> nat \<Rightarrow> 'v menu_slot" where
  "normal_slot c i = \<lparr>slot_container = c, slot_place = i, may_place = (\<lambda>_. True), may_pickup = (\<lambda>_. True), slot_limit = None\<rparr>"

definition restricted_slot :: "nat \<Rightarrow> nat \<Rightarrow> (nat \<Rightarrow> 'v item_stack \<Rightarrow> bool) \<Rightarrow> (nat \<Rightarrow> 'v item_stack \<Rightarrow> 'v store \<Rightarrow> bool) option \<Rightarrow> 'v menu_slot" where
  "restricted_slot c i place pickup =
     \<lparr>slot_container = c, slot_place = i, may_place = place i,
      may_pickup = (\<lambda>cs. case pickup of None \<Rightarrow> True | Some p \<Rightarrow> p i (cs ! c ! i) cs), slot_limit = None\<rparr>"

definition armor_slot :: "nat \<Rightarrow> nat \<Rightarrow> ('v item_stack \<Rightarrow> bool) \<Rightarrow> bool \<Rightarrow> ('v item_stack \<Rightarrow> bool) \<Rightarrow> 'v menu_slot" where
  "armor_slot c i equippable infinite_materials prevents_change =
     \<lparr>slot_container = c, slot_place = i, may_place = equippable,
      may_pickup = (\<lambda>cs. \<not> (\<not> is_empty_stack (cs ! c ! i) \<and> \<not> infinite_materials \<and> prevents_change (cs ! c ! i))), slot_limit = Some 1\<rparr>"

definition slot_get :: "'v menu_slot \<Rightarrow> 'v store \<Rightarrow> 'v item_stack" where
  "slot_get sl cs = cs ! slot_container sl ! slot_place sl"

definition slot_put :: "'v menu_slot \<Rightarrow> 'v item_stack \<Rightarrow> 'v store \<Rightarrow> 'v store" where
  "slot_put sl s cs = cs[slot_container sl := (cs ! slot_container sl)[slot_place sl := s]]"

definition same_place :: "'v menu_slot \<Rightarrow> 'v menu_slot \<Rightarrow> bool" where
  "same_place a b \<longleftrightarrow> (slot_container a, slot_place a) = (slot_container b, slot_place b)"

definition allow_modification :: "'v menu_slot \<Rightarrow> 'v store \<Rightarrow> bool" where
  "allow_modification sl cs \<longleftrightarrow> may_pickup sl cs \<and> may_place sl (slot_get sl cs)"

definition get_max_stack_size_for_item :: "'v item_registry \<Rightarrow> 'v menu_slot \<Rightarrow> 'v item_stack \<Rightarrow> int" where
  "get_max_stack_size_for_item R sl s =
     min (case slot_limit sl of None \<Rightarrow> CONTAINER_MAX_STACK_SIZE | Some n \<Rightarrow> n) (max_stack_size R s)"

definition slot_remove :: "int \<Rightarrow> 'v menu_slot \<Rightarrow> 'v store \<Rightarrow> 'v item_stack \<times> 'v store" where
  "slot_remove n sl cs =
     (if n \<le> 0 \<or> is_empty_stack (slot_get sl cs) then (empty_stack, cs)
      else (case split_stack n (slot_get sl cs) of (taken, rest) \<Rightarrow> (taken, slot_put sl rest cs)))"

definition try_remove :: "int \<Rightarrow> int \<Rightarrow> 'v menu_slot \<Rightarrow> 'v store \<Rightarrow> ('v item_stack \<times> 'v store) option" where
  "try_remove n max_amount sl cs =
     (if \<not> may_pickup sl cs then None
      else if \<not> allow_modification sl cs \<and> max_amount < count_of (slot_get sl cs) then None
      else
        (case slot_remove (min n max_amount) sl cs of
           (result, cs1) \<Rightarrow>
             if is_empty_stack result then None
             else Some (result, if is_empty_stack (slot_get sl cs1) then slot_put sl empty_stack cs1 else cs1)))"

text \<open>Taking from a container slot leaves no remainder to give back.\<close>

definition safe_take :: "int \<Rightarrow> int \<Rightarrow> 'v menu_slot \<Rightarrow> 'v store \<Rightarrow> 'v item_stack \<times> 'v store" where
  "safe_take n max_amount sl cs =
     (case try_remove n max_amount sl cs of None \<Rightarrow> (empty_stack, cs) | Some (taken, cs1) \<Rightarrow> (taken, cs1))"

definition safe_insert :: "'v item_registry \<Rightarrow> 'v item_stack \<Rightarrow> int \<Rightarrow> 'v menu_slot \<Rightarrow> 'v store \<Rightarrow> 'v item_stack \<times> 'v store" where
  "safe_insert R input n sl cs =
     (if is_empty_stack input \<or> \<not> may_place sl input then (input, cs)
      else
        (let slot_stack = slot_get sl cs;
             transferable = min (min n (st_count input)) (wrap_i32 (get_max_stack_size_for_item R sl input - st_count slot_stack))
         in if transferable \<le> 0 then (input, cs)
            else if is_empty_stack slot_stack
            then (case split_stack transferable input of (placed, rest) \<Rightarrow> (rest, slot_put sl placed cs))
            else if is_same_item_same_components R slot_stack input
            then (shrink transferable input, slot_put sl (grow transferable slot_stack) cs)
            else (input, cs)))"

section \<open>Menus\<close>

record 'v menu =
  m_slots :: "'v menu_slot list"
  store :: "'v store"
  carried :: "'v item_stack"
  quickcraft :: "drag_kind option"
  quickcraft_slots :: "nat list"
  dropped :: "'v item_stack list"
  lost :: "'v item_stack list"
  try_add_entity :: "nat \<Rightarrow> bool"

record route =
  from_start :: nat
  from_limit :: nat
  targets :: "(nat \<times> nat) list"
  route_direction :: fill_direction

record player_view =
  inventory_id :: nat
  selected_slot :: nat
  creative_mode :: bool
  infinite_materials :: bool
  can_drop_items :: bool

record 'v menu_kind =
  can_drag_to :: "nat \<Rightarrow> bool"
  can_take_item_for_pick_all :: "'v item_stack \<Rightarrow> nat \<Rightarrow> bool"
  routes :: "route list"

text \<open>
  Dropping a stack spawns an item entity, which the world may refuse (\<open>spawn_item_with_velocity\<close> gives
  \<open>None\<close> when \<open>try_add_entity\<close> fails); every caller ignores that, so the stack is then gone. Whether the
  attempt with a given number succeeds is a parameter, and the refused stacks are kept in a list of
  their own.
\<close>

definition drop_item :: "'v item_stack \<Rightarrow> 'v menu \<Rightarrow> 'v menu" where
  "drop_item s m =
     (if is_empty_stack s then m
      else if try_add_entity m (length (dropped m) + length (lost m)) then m\<lparr>dropped := dropped m @ [s]\<rparr>
      else m\<lparr>lost := lost m @ [s]\<rparr>)"

definition reset_quick_craft :: "'v menu \<Rightarrow> 'v menu" where
  "reset_quick_craft m = m\<lparr>quickcraft := None, quickcraft_slots := []\<rparr>"

subsection \<open>Shift-click\<close>

fun stack_pass :: "'v item_registry \<Rightarrow> 'v menu_slot list \<Rightarrow> nat \<Rightarrow> nat list \<Rightarrow> 'v store \<Rightarrow> 'v item_stack \<Rightarrow> bool \<Rightarrow> 'v store \<times> 'v item_stack \<times> bool" where
  "stack_pass R slots source [] cs stack changed = (cs, stack, changed)"
| "stack_pass R slots source (dest # rest) cs stack changed =
     (if is_empty_stack stack then (cs, stack, changed)
      else if dest = source \<or> same_place (slots ! dest) (slots ! source) then stack_pass R slots source rest cs stack changed
      else
        (let slot = slots ! dest; target = slot_get slot cs
         in if \<not> is_empty_stack target \<and> is_same_item_same_components R stack target then
              (let total_stack = wrap_i32 (st_count target + st_count stack);
                   max_size = get_max_stack_size_for_item R slot target
               in if total_stack \<le> max_size
                  then stack_pass R slots source rest (slot_put slot (set_count total_stack target) cs) (set_count 0 stack) True
                  else if st_count target < max_size
                  then stack_pass R slots source rest (slot_put slot (set_count max_size target) cs) (shrink (wrap_i32 (max_size - st_count target)) stack) True
                  else stack_pass R slots source rest cs stack changed)
            else stack_pass R slots source rest cs stack changed))"

fun place_pass :: "'v item_registry \<Rightarrow> 'v menu_slot list \<Rightarrow> nat \<Rightarrow> nat list \<Rightarrow> 'v store \<Rightarrow> 'v item_stack \<Rightarrow> bool \<Rightarrow> 'v store \<times> 'v item_stack \<times> bool" where
  "place_pass R slots source [] cs stack changed = (cs, stack, changed)"
| "place_pass R slots source (dest # rest) cs stack changed =
     (if dest = source \<or> same_place (slots ! dest) (slots ! source) then place_pass R slots source rest cs stack changed
      else
        (let slot = slots ! dest
         in if is_empty_stack (slot_get slot cs) \<and> may_place slot stack
            then (case split_stack (min (st_count stack) (get_max_stack_size_for_item R slot stack)) stack of
                    (placed, left) \<Rightarrow> (slot_put slot placed cs, left, True))
            else place_pass R slots source rest cs stack changed))"

definition move_item_stack_to ::
  "'v item_registry \<Rightarrow> 'v menu_slot list \<Rightarrow> nat \<Rightarrow> nat \<Rightarrow> nat \<Rightarrow> fill_direction \<Rightarrow> 'v store \<Rightarrow> 'v item_stack \<Rightarrow> ('v store \<times> 'v item_stack \<times> bool) option" where
  "move_item_stack_to R slots source start_slot end_slot direction cs stack =
     (if end_slot \<le> start_slot then Some (cs, stack, False)
      else
        (let order = (case direction of Forward \<Rightarrow> [start_slot..<end_slot] | Backward \<Rightarrow> rev [start_slot..<end_slot])
         in case is_stackable R stack of
              None \<Rightarrow> None
            | Some stackable \<Rightarrow>
                (case (if stackable then stack_pass R slots source order cs stack False else (cs, stack, False)) of
                   (cs1, stack1, changed1) \<Rightarrow>
                     Some (if is_empty_stack stack1 then (cs1, stack1, changed1)
                           else place_pass R slots source order cs1 stack1 changed1))))"

fun move_to_any ::
  "'v item_registry \<Rightarrow> 'v menu_slot list \<Rightarrow> nat \<Rightarrow> fill_direction \<Rightarrow> (nat \<times> nat) list \<Rightarrow> 'v store \<Rightarrow> 'v item_stack \<Rightarrow> ('v store \<times> 'v item_stack \<times> bool) option" where
  "move_to_any R slots source direction [] cs stack = Some (cs, stack, False)"
| "move_to_any R slots source direction ((a, b) # ts) cs stack =
     (case move_item_stack_to R slots source a b direction cs stack of
        None \<Rightarrow> None
      | Some (cs1, stack1, moved) \<Rightarrow> if moved then Some (cs1, stack1, True) else move_to_any R slots source direction ts cs1 stack1)"

definition quick_move :: "'v item_registry \<Rightarrow> 'v menu_kind \<Rightarrow> nat \<Rightarrow> 'v menu \<Rightarrow> ('v item_stack \<times> 'v menu) option" where
  "quick_move R hooks slot_index m =
     (case find (\<lambda>r. from_start r \<le> slot_index \<and> slot_index < from_limit r) (routes hooks) of
        None \<Rightarrow> Some (empty_stack, m)
      | Some r \<Rightarrow>
          (let slot = m_slots m ! slot_index; clicked = slot_get slot (store m)
           in if is_empty_stack clicked \<or> \<not> may_pickup slot (store m) then Some (empty_stack, m)
              else
                (case move_to_any R (m_slots m) slot_index (route_direction r) (targets r) (store m) clicked of
                   None \<Rightarrow> None
                 | Some (cs, remaining, moved) \<Rightarrow>
                     if \<not> moved then Some (empty_stack, m\<lparr>store := cs\<rparr>)
                     else
                       (let cs1 = slot_put slot (if is_empty_stack remaining then empty_stack else remaining) cs
                        in Some (if st_count remaining = st_count clicked then empty_stack else clicked, m\<lparr>store := cs1\<rparr>)))))"

fun quick_move_loop :: "nat \<Rightarrow> 'v item_registry \<Rightarrow> 'v menu_kind \<Rightarrow> nat \<Rightarrow> 'v item_stack \<Rightarrow> 'v menu \<Rightarrow> 'v menu option" where
  "quick_move_loop 0 R hooks slot_index result m = None"
| "quick_move_loop (Suc fuel) R hooks slot_index result m =
     (if is_empty_stack result then Some m
      else if \<not> is_same_item (slot_get (m_slots m ! slot_index) (store m)) result then Some m
      else
        (case quick_move R hooks slot_index m of
           None \<Rightarrow> None
         | Some (result', m') \<Rightarrow> quick_move_loop fuel R hooks slot_index result' m'))"

definition do_quick_move :: "nat \<Rightarrow> 'v item_registry \<Rightarrow> 'v menu_kind \<Rightarrow> nat \<Rightarrow> 'v menu \<Rightarrow> 'v menu option" where
  "do_quick_move fuel R hooks slot_index m =
     (let slot = m_slots m ! slot_index
      in if \<not> may_pickup slot (store m) \<or> is_empty_stack (slot_get slot (store m)) then Some m
         else
           (case quick_move R hooks slot_index m of
              None \<Rightarrow> None
            | Some (result, m') \<Rightarrow> quick_move_loop fuel R hooks slot_index result m'))"

subsection \<open>Picking up, cloning, throwing\<close>

definition drop_carried :: "mouse_button \<Rightarrow> 'v menu \<Rightarrow> 'v menu" where
  "drop_carried button m =
     (if is_empty_stack (carried m) then m
      else
        (case button of
           LeftButton \<Rightarrow> drop_item (carried m) (m\<lparr>carried := empty_stack\<rparr>)
         | RightButton \<Rightarrow> (case split_stack 1 (carried m) of (one, rest) \<Rightarrow> drop_item one (m\<lparr>carried := rest\<rparr>))))"

text \<open>Halving a stack rounds up; Rust divides towards zero, which agrees for the positive counts here.\<close>

definition do_pickup :: "'v item_registry \<Rightarrow> nat \<Rightarrow> mouse_button \<Rightarrow> 'v menu \<Rightarrow> 'v menu" where
  "do_pickup R slot_index button m =
     (let slot = m_slots m ! slot_index; cs = store m; slot_item = slot_get slot cs; held = carried m;
          requested = (if button = LeftButton then st_count held else 1)
      in if is_empty_stack slot_item then
           (if \<not> is_empty_stack held \<and> may_place slot held
            then (case safe_insert R held requested slot cs of (rest, cs1) \<Rightarrow> m\<lparr>store := cs1, carried := rest\<rparr>)
            else m)
         else if is_empty_stack held then
           (let n = (if button = LeftButton then st_count slot_item else wrap_i32 (st_count slot_item + 1) div 2)
            in case try_remove n (2 ^ 31 - 1) slot cs of
                 None \<Rightarrow> m\<lparr>carried := empty_stack\<rparr>
               | Some (taken, cs1) \<Rightarrow> m\<lparr>store := cs1, carried := taken\<rparr>)
         else if is_same_item_same_components R slot_item held then
           (if may_pickup slot cs \<and> may_place slot held
            then (case safe_insert R held requested slot cs of (rest, cs1) \<Rightarrow> m\<lparr>store := cs1, carried := rest\<rparr>)
            else if may_pickup slot cs then
              (let space = wrap_i32 (max_stack_size R held - st_count held)
               in if 0 < space then
                    (case try_remove (st_count slot_item) space slot cs of
                       None \<Rightarrow> m
                     | Some (taken, cs1) \<Rightarrow> m\<lparr>store := cs1, carried := grow (st_count taken) held\<rparr>)
                  else m)
            else m)
         else if may_pickup slot cs \<and> may_place slot held \<and> st_count held \<le> get_max_stack_size_for_item R slot held
         then m\<lparr>store := slot_put slot held cs, carried := slot_item\<rparr>
         else m)"

definition do_clone :: "'v item_registry \<Rightarrow> nat \<Rightarrow> bool \<Rightarrow> 'v menu \<Rightarrow> 'v menu" where
  "do_clone R slot_index has_infinite_materials m =
     (let slot_item = slot_get (m_slots m ! slot_index) (store m)
      in if \<not> has_infinite_materials \<or> \<not> is_empty_stack (carried m) \<or> is_empty_stack slot_item then m
         else m\<lparr>carried := copy_with_count (max_stack_size R slot_item) slot_item\<rparr>)"

fun throw_loop :: "nat \<Rightarrow> bool \<Rightarrow> 'v menu_slot \<Rightarrow> 'v item_stack \<Rightarrow> 'v menu \<Rightarrow> 'v menu option" where
  "throw_loop 0 can_drop slot first m = None"
| "throw_loop (Suc fuel) can_drop slot first m =
     (let current_item = slot_get slot (store m)
      in if \<not> may_pickup slot (store m) \<or> \<not> can_drop then Some m
         else if is_empty_stack current_item \<or> \<not> is_same_item current_item first then Some m
         else
           (case safe_take (st_count current_item) (2 ^ 31 - 1) slot (store m) of
              (again, cs) \<Rightarrow>
                if is_empty_stack again then Some (m\<lparr>store := cs\<rparr>)
                else throw_loop fuel can_drop slot first (drop_item again (m\<lparr>store := cs\<rparr>))))"

definition do_throw :: "nat \<Rightarrow> bool \<Rightarrow> nat \<Rightarrow> bool \<Rightarrow> 'v menu \<Rightarrow> 'v menu option" where
  "do_throw fuel can_drop slot_index whole_stack m =
     (let slot = m_slots m ! slot_index
      in if \<not> is_empty_stack (carried m) \<or> \<not> may_pickup slot (store m) \<or> \<not> can_drop then Some m
         else
           (case safe_take (if whole_stack then st_count (slot_get slot (store m)) else 1) (2 ^ 31 - 1) slot (store m) of
              (first, cs) \<Rightarrow>
                (let m1 = drop_item first (m\<lparr>store := cs\<rparr>)
                 in if whole_stack then throw_loop fuel can_drop slot first m1 else Some m1)))"

subsection \<open>Dragging\<close>

fun distribute :: "'v item_registry \<Rightarrow> 'v menu_kind \<Rightarrow> drag_kind \<Rightarrow> 'v menu_slot list \<Rightarrow> 'v item_stack \<Rightarrow> nat \<Rightarrow> nat list \<Rightarrow> 'v store \<Rightarrow> int \<Rightarrow> 'v store \<times> int" where
  "distribute R hooks k slots source n [] cs remaining = (cs, remaining)"
| "distribute R hooks k slots source n (i # is) cs remaining =
     (let slot = slots ! i; slot_item = slot_get slot cs
      in if can_item_quick_replace R slot_item source True \<and> may_place slot source
            \<and> (k = CloneDrag \<or> int n \<le> st_count source) \<and> can_drag_to hooks i
         then
           (let current_count = (if is_empty_stack slot_item then 0 else st_count slot_item);
                max_size = min (max_stack_size R source) (get_max_stack_size_for_item R slot source);
                new_count = min (wrap_i32 (place_count R k n source + current_count)) max_size
            in distribute R hooks k slots source n is (slot_put slot (set_count new_count source) cs)
                 (wrap_i32 (remaining - wrap_i32 (new_count - current_count))))
         else distribute R hooks k slots source n is cs remaining)"

definition finish_quick_craft :: "'v item_registry \<Rightarrow> 'v menu_kind \<Rightarrow> 'v menu \<Rightarrow> 'v menu" where
  "finish_quick_craft R hooks m =
     (case (quickcraft m, quickcraft_slots m) of
        (None, _) \<Rightarrow> reset_quick_craft m
      | (Some k, []) \<Rightarrow> reset_quick_craft m
      | (Some k, [i]) \<Rightarrow>
          (case k of
             LeftDrag \<Rightarrow> do_pickup R i LeftButton (reset_quick_craft m)
           | RightDrag \<Rightarrow> do_pickup R i RightButton (reset_quick_craft m)
           | CloneDrag \<Rightarrow> reset_quick_craft m)
      | (Some k, is) \<Rightarrow>
          if is_empty_stack (carried m) then reset_quick_craft m
          else
            (case distribute R hooks k (m_slots m) (carried m) (length is) is (store m) (st_count (carried m)) of
               (cs, remaining) \<Rightarrow> reset_quick_craft (m\<lparr>store := cs, carried := set_count remaining (carried m)\<rparr>)))"

definition do_quick_craft :: "'v item_registry \<Rightarrow> 'v menu_kind \<Rightarrow> quick_craft \<Rightarrow> bool \<Rightarrow> 'v menu \<Rightarrow> 'v menu" where
  "do_quick_craft R hooks action has_infinite_materials m =
     (if (case action of Start _ \<Rightarrow> quickcraft m \<noteq> None | _ \<Rightarrow> quickcraft m = None) \<or> is_empty_stack (carried m)
      then reset_quick_craft m
      else
        (case action of
           Start k \<Rightarrow>
             if k = CloneDrag \<and> \<not> has_infinite_materials then reset_quick_craft m
             else m\<lparr>quickcraft := Some k, quickcraft_slots := []\<rparr>
         | AddSlot i \<Rightarrow>
             (let slot = m_slots m ! i
              in if can_item_quick_replace R (slot_get slot (store m)) (carried m) True \<and> may_place slot (carried m)
                    \<and> (quickcraft m = Some CloneDrag \<or> int (length (quickcraft_slots m)) < st_count (carried m))
                    \<and> can_drag_to hooks i \<and> i \<notin> set (quickcraft_slots m)
                 then m\<lparr>quickcraft_slots := quickcraft_slots m @ [i]\<rparr> else m)
         | EndDrag \<Rightarrow> finish_quick_craft R hooks m))"

subsection \<open>Swapping and collecting\<close>

text \<open>The place of the player inventory that a swap key names, as a slot.\<close>

definition inventory_place :: "player_view \<Rightarrow> swap_target \<Rightarrow> 'v menu_slot" where
  "inventory_place p w = normal_slot (inventory_id p) (inventory_slot w)"

definition do_swap :: "'v item_registry \<Rightarrow> player_view \<Rightarrow> nat \<Rightarrow> swap_target \<Rightarrow> 'v menu \<Rightarrow> 'v menu option" where
  "do_swap R p slot_index w m =
     (let slot = m_slots m ! slot_index; inv = inventory_place p w; cs = store m;
          target_item = slot_get slot cs; source_item = slot_get inv cs;
          max_size = get_max_stack_size_for_item R slot source_item
      in if is_empty_stack source_item \<and> is_empty_stack target_item then Some m
         else if is_empty_stack source_item then
           Some (if may_pickup slot cs then m\<lparr>store := slot_put slot empty_stack (slot_put inv target_item cs)\<rparr> else m)
         else if is_empty_stack target_item then
           Some (if may_place slot source_item then
                   (if max_size < st_count source_item
                    then (case split_stack max_size source_item of (to_place, rest) \<Rightarrow> m\<lparr>store := slot_put slot to_place (slot_put inv rest cs)\<rparr>)
                    else m\<lparr>store := slot_put slot source_item (slot_put inv empty_stack cs)\<rparr>)
                 else m)
         else if may_pickup slot cs \<and> may_place slot source_item then
           (if max_size < st_count source_item
            then (case split_stack max_size source_item of (to_place, rest) \<Rightarrow>
                    (let cs1 = slot_put slot to_place (slot_put inv rest cs)
                     in case inventory_add R (selected_slot p) (cs1 ! inventory_id p) target_item of
                          None \<Rightarrow> None
                        | Some (added, items, displaced) \<Rightarrow>
                            (let m1 = m\<lparr>store := cs1[inventory_id p := items]\<rparr>
                             in Some (if \<not> added \<and> \<not> infinite_materials p then drop_item displaced m1 else m1))))
            else Some (m\<lparr>store := slot_put slot source_item (slot_put inv target_item cs)\<rparr>))
         else Some m)"

fun collect_pass :: "'v item_registry \<Rightarrow> 'v menu_kind \<Rightarrow> int \<Rightarrow> 'v item_stack \<Rightarrow> bool \<Rightarrow> nat list \<Rightarrow> 'v menu \<Rightarrow> 'v menu" where
  "collect_pass R hooks max_stack first full_too [] m = m"
| "collect_pass R hooks max_stack first full_too (i # is) m =
     (if \<not> st_count (carried m) < max_stack then m
      else
        (let slot = m_slots m ! i; target_item = slot_get slot (store m)
         in if \<not> is_empty_stack target_item \<and> can_item_quick_replace R target_item first True \<and> may_pickup slot (store m)
               \<and> can_take_item_for_pick_all hooks first i \<and> (full_too \<or> st_count target_item \<noteq> max_stack_size R target_item)
            then
              (let can_take = wrap_i32 (max_stack - st_count (carried m)); to_take = min (st_count target_item) can_take
               in case safe_take to_take can_take slot (store m) of
                    (removed, cs) \<Rightarrow>
                      collect_pass R hooks max_stack first full_too is
                        (m\<lparr>store := cs, carried := grow (min (st_count removed) can_take) (carried m)\<rparr>))
            else collect_pass R hooks max_stack first full_too is m))"

definition do_pickup_all :: "'v item_registry \<Rightarrow> 'v menu_kind \<Rightarrow> nat \<Rightarrow> fill_direction \<Rightarrow> 'v menu \<Rightarrow> 'v menu" where
  "do_pickup_all R hooks slot_index direction m =
     (let slot = m_slots m ! slot_index
      in if is_empty_stack (carried m) \<or> \<not> is_empty_stack (slot_get slot (store m)) \<and> may_pickup slot (store m) then m
         else
           (let max_stack = max_stack_size R (carried m); first = carried m; n = length (m_slots m);
                order = (case direction of Forward \<Rightarrow> [0..<n] | Backward \<Rightarrow> rev [0..<n])
            in collect_pass R hooks max_stack first True order (collect_pass R hooks max_stack first False order m)))"

subsection \<open>A click\<close>

definition clicked :: "nat \<Rightarrow> 'v item_registry \<Rightarrow> 'v menu_kind \<Rightarrow> player_view \<Rightarrow> click \<Rightarrow> 'v menu \<Rightarrow> 'v menu option" where
  "clicked fuel R hooks p c m =
     (if \<not> is_valid_for (length (m_slots m)) c then Some m
      else
        (case c of
           QuickCraft action \<Rightarrow> Some (do_quick_craft R hooks action (creative_mode p) m)
         | _ \<Rightarrow>
             (let m1 = (if quickcraft m \<noteq> None then reset_quick_craft m else m)
              in case c of
                   Pickup s button \<Rightarrow> Some (do_pickup R s button m1)
                 | DropCarried button \<Rightarrow> Some (drop_carried button m1)
                 | QuickMove s \<Rightarrow> do_quick_move fuel R hooks s m1
                 | Swap s w \<Rightarrow> do_swap R p s w m1
                 | Clone s \<Rightarrow> Some (do_clone R s (creative_mode p) m1)
                 | Throw s whole \<Rightarrow> do_throw fuel (can_drop_items p) s whole m1
                 | PickupAll s direction \<Rightarrow> Some (do_pickup_all R hooks s direction m1)
                 | QuickCraft _ \<Rightarrow> None)))"

section \<open>Items in the store\<close>

definition held_in :: "'v item_registry \<Rightarrow> (nat \<times> (component_key \<Rightarrow> 'v option) \<Rightarrow> bool) \<Rightarrow> 'v store \<Rightarrow> int" where
  "held_in R K cs = sum_list (map (stored R K) cs)"

definition wired :: "'v store \<Rightarrow> 'v menu_slot \<Rightarrow> bool" where
  "wired cs sl \<longleftrightarrow> slot_container sl < length cs \<and> slot_place sl < length (cs ! slot_container sl)"

definition store_ok :: "'v item_registry \<Rightarrow> 'v store \<Rightarrow> bool" where
  "store_ok R cs \<longleftrightarrow> list_all (list_all (stack_ok R)) cs"

lemma held_update: "c < length cs \<Longrightarrow> held_in R K (cs[c := items]) = held_in R K cs - stored R K (cs ! c) + stored R K items"
proof (induction cs arbitrary: c)
  case (Cons a cs)
  then show ?case by (cases c) (auto simp: held_in_def)
qed simp

lemma held_put: "wired cs sl \<Longrightarrow> held_in R K (slot_put sl s cs) = held_in R K cs - amount R K (slot_get sl cs) + amount R K s"
  by (simp add: slot_put_def slot_get_def wired_def held_update stored_update)

lemma shape_put [simp]: "map length (slot_put sl s cs) = map length cs"
  by (simp add: slot_put_def map_update list_update_same_conv) (metis length_list_update list_update_beyond list_update_id map_update not_le_imp_less nth_map)

lemma wired_shape: "map length cs' = map length cs \<Longrightarrow> wired cs' sl = wired cs sl"
  by (auto simp: wired_def dest: map_eq_imp_length_eq) (metis length_map nth_map)+

lemma slot_get_put: "wired cs sl \<Longrightarrow> slot_get sl' (slot_put sl s cs) = (if same_place sl' sl then s else slot_get sl' cs)"
  by (auto simp: slot_get_def slot_put_def wired_def same_place_def nth_list_update)

lemma slot_put_twice: "wired cs sl \<Longrightarrow> slot_put sl a (slot_put sl b cs) = slot_put sl a cs"
  by (simp add: slot_put_def wired_def)

lemma store_ok_put: "store_ok R cs \<Longrightarrow> wired cs sl \<Longrightarrow> stack_ok R s \<Longrightarrow> store_ok R (slot_put sl s cs)"
  unfolding store_ok_def slot_put_def wired_def by (intro list_all_update) (auto simp: list_all_length)

lemma slot_get_ok: "store_ok R cs \<Longrightarrow> wired cs sl \<Longrightarrow> stack_ok R (slot_get sl cs)"
  by (auto simp: store_ok_def wired_def slot_get_def list_all_length)

lemma held_nonneg: "store_ok R cs \<Longrightarrow> 0 \<le> held_in R K cs"
  by (auto simp: held_in_def store_ok_def list_all_iff intro!: sum_list_nonneg stored_nonneg)

lemma slot_get_le:
  assumes "store_ok R cs" and "wired cs sl"
  shows "st_count (slot_get sl cs) \<le> held_in R (\<lambda>_. True) cs"
  using held_nonneg [OF store_ok_put [OF assms stack_ok_empty(1)], of "\<lambda>_. True"] slot_get_ok [OF assms] by (simp add: held_put [OF assms(2)] amount_ok)

text \<open>A store and a loose stack, and what an operation on them keeps.\<close>

definition loose :: "'v item_registry \<Rightarrow> 'v store \<Rightarrow> 'v item_stack \<Rightarrow> bool" where
  "loose R cs s \<longleftrightarrow> store_ok R cs \<and> stack_ok R s \<and> held_in R (\<lambda>_. True) cs + st_count s \<le> few"

definition conserves :: "'v item_registry \<Rightarrow> 'v store \<Rightarrow> 'v item_stack \<Rightarrow> 'v store \<Rightarrow> 'v item_stack \<Rightarrow> bool" where
  "conserves R cs s cs' s' \<longleftrightarrow> loose R cs' s' \<and> map length cs' = map length cs \<and>
     (\<forall>K. held_in R K cs' + amount R K s' = held_in R K cs + amount R K s)"

lemma conservesI:
  assumes "loose R cs s" and "store_ok R cs'" and "stack_ok R s'" and "map length cs' = map length cs"
    and "\<And>K. held_in R K cs' + amount R K s' = held_in R K cs + amount R K s"
  shows "conserves R cs s cs' s'"
  using assms assms(5) [of "\<lambda>_. True"] by (simp add: conserves_def loose_def amount_ok)

lemma conserves_refl [simp]: "loose R cs s \<Longrightarrow> conserves R cs s cs s"
  by (simp add: conserves_def)

lemma conserves_trans: "conserves R cs s cs1 s1 \<Longrightarrow> conserves R cs1 s1 cs2 s2 \<Longrightarrow> conserves R cs s cs2 s2"
  by (simp add: conserves_def)

lemma conserves_loose: "conserves R cs s cs' s' \<Longrightarrow> loose R cs' s'"
  by (simp add: conserves_def)

lemma conserves_held: "conserves R cs s cs' s' \<Longrightarrow> held_in R K cs' + amount R K s' = held_in R K cs + amount R K s"
  by (simp add: conserves_def)

lemma conserves_wired: "conserves R cs s cs' s' \<Longrightarrow> wired cs' sl = wired cs sl"
  by (rule wired_shape) (simp add: conserves_def)

lemma loose_bounds:
  assumes "loose R cs s" and "wired cs sl"
  shows "stack_ok R (slot_get sl cs)" "0 \<le> st_count s" "0 \<le> st_count (slot_get sl cs)" "st_count (slot_get sl cs) + st_count s \<le> few"
  using assms slot_get_ok [of R cs sl] slot_get_le [of R cs sl] by (auto simp: loose_def stack_ok_def)

text \<open>Replacing the stack of a slot and the loose stack together.\<close>

lemma conserves_put:
  assumes "loose R cs s" and "wired cs sl" and "stack_ok R a" and "stack_ok R b"
    and "\<And>K. amount R K a + amount R K b = amount R K (slot_get sl cs) + amount R K s"
  shows "conserves R cs s (slot_put sl a cs) b"
proof (rule conservesI [OF assms(1) _ assms(4)])
  show "store_ok R (slot_put sl a cs)" using assms(1-3) store_ok_put by (auto simp: loose_def)
  show "held_in R K (slot_put sl a cs) + amount R K b = held_in R K cs + amount R K s" for K
    using held_put [OF assms(2), of R K a] assms(5) [of K] by linarith
qed simp

lemma try_remove_spec:
  assumes "loose R cs empty_stack" and "wired cs sl" and "try_remove n mx sl cs = Some (t, cs')"
  shows "conserves R cs empty_stack cs' t" "\<not> is_empty_stack t" "kind R t = kind R (slot_get sl cs)" "st_count t = min (min n mx) (st_count (slot_get sl cs))"
    "st_count (slot_get sl cs') = st_count (slot_get sl cs) - st_count t"
proof -
  let ?s = "slot_get sl cs"
  note b = loose_bounds [OF assms(1,2)]
  obtain r cs1 where r: "slot_remove (min n mx) sl cs = (r, cs1)" by fastforce
  from assms(3) r have t: "\<not> is_empty_stack t" "t = r" "cs' = (if is_empty_stack (slot_get sl cs1) then slot_put sl empty_stack cs1 else cs1)"
    by (auto simp: try_remove_def split: if_splits)
  then have n: "0 < min n mx" "\<not> is_empty_stack ?s" using r by (auto simp: slot_remove_def split: if_splits)
  obtain rest where sp: "split_stack (min n mx) ?s = (r, rest)" "cs1 = slot_put sl rest cs"
    using r n by (auto simp: slot_remove_def split: if_splits prod.splits)
  have few: "st_count ?s \<le> few" using b by (simp add: empty_stack_def)
  note s = split_spec [OF b(1) _ few sp(1)]
  have n0: "0 \<le> min n mx" using n(1) by simp
  have get1: "slot_get sl cs1 = rest" using slot_get_put [OF assms(2)] sp(2) by (simp add: same_place_def)
  have rest_eq: "amount R K rest = amount R K (if is_empty_stack rest then empty_stack else rest)" for K by (simp add: amount_def)
  have cs': "cs' = slot_put sl (if is_empty_stack rest then empty_stack else rest) cs"
    using t(3) get1 sp(2) slot_put_twice [OF assms(2)] by simp
  show "conserves R cs empty_stack cs' t"
    unfolding cs' t(2)
  proof (rule conserves_put [OF assms(1,2)])
    show "amount R K (if is_empty_stack rest then empty_stack else rest) + amount R K r = amount R K ?s + amount R K empty_stack" for K
      using s(3) [OF n0, of K] rest_eq [of K] by simp
  qed (use s(1,2) [OF n0] in auto)
  show "\<not> is_empty_stack t" "kind R t = kind R ?s" "st_count t = min (min n mx) (st_count ?s)" using t s(4,6) [OF n0] by auto
  have "st_count (slot_get sl cs') = st_count rest"
    unfolding cs' using slot_get_put [OF assms(2)] s(2) [OF n0] empty_iff [of R rest] by (auto simp: same_place_def)
  then show "st_count (slot_get sl cs') = st_count ?s - st_count t" using s(4,5) [OF n0] t(2) by simp
qed

lemma safe_take_spec:
  assumes "loose R cs empty_stack" and "wired cs sl" and "safe_take n mx sl cs = (t, cs')"
  shows "conserves R cs empty_stack cs' t" "\<not> is_empty_stack t \<Longrightarrow> kind R t = kind R (slot_get sl cs) \<and> st_count t = min (min n mx) (st_count (slot_get sl cs))
      \<and> st_count (slot_get sl cs') = st_count (slot_get sl cs) - st_count t"
  using assms try_remove_spec [OF assms(1,2)] by (auto simp: safe_take_def split: option.splits)

lemma safe_insert_spec:
  assumes "loose R cs input" and "wired cs sl" and "safe_insert R input n sl cs = (rest, cs')"
  shows "conserves R cs input cs' rest"
proof -
  let ?s = "slot_get sl cs"
  let ?t = "min (min n (st_count input)) (wrap_i32 (get_max_stack_size_for_item R sl input - st_count ?s))"
  note b = loose_bounds [OF assms(1,2)]
  have input: "stack_ok R input" using assms(1) by (simp add: loose_def)
  show ?thesis
  proof (cases "is_empty_stack input \<or> \<not> may_place sl input \<or> ?t \<le> 0 \<or> (\<not> is_empty_stack ?s \<and> \<not> is_same_item_same_components R ?s input)")
    case True
    then show ?thesis using assms(1,3) by (auto simp: safe_insert_def Let_def split: if_splits)
  next
    case False
    then have t: "0 \<le> ?t" "?t \<le> st_count input" by auto
    show ?thesis
    proof (cases "is_empty_stack ?s")
      case True
      obtain a r where sp: "split_stack ?t input = (a, r)" by fastforce
      have few: "st_count input \<le> few" using b by simp
      note s = split_spec [OF input t(1) few sp]
      have "cs' = slot_put sl a cs" "rest = r" using assms(3) False True sp by (auto simp: safe_insert_def Let_def split: if_splits)
      then show ?thesis using conserves_put [OF assms(1,2) s(1,2)] s(3) True by (simp add: amount_def)
    next
      case nonempty: False
      then have k: "kind R ?s = kind R input" using False same_iff_kind by blast
      have eq: "cs' = slot_put sl (grow ?t ?s) cs" "rest = shrink ?t input"
        using assms(3) False nonempty by (auto simp: safe_insert_def Let_def split: if_splits)
      note m = move_amount [OF b(1) input _ b(4) t nonempty]
      show ?thesis unfolding eq by (rule conserves_put [OF assms(1,2)]) (use m k in auto)
    qed
  qed
qed

section \<open>Shift-clicks move items\<close>

lemma conserves_kind:
  assumes "loose R cs s" and "wired cs sl" and "kind R (slot_get sl cs) = kind R s" and "0 \<le> a" "0 \<le> b" "a + b = st_count (slot_get sl cs) + st_count s"
    and "stack_ok R (set_count a (slot_get sl cs))" "stack_ok R (set_count b s)"
  shows "conserves R cs s (slot_put sl (set_count a (slot_get sl cs)) cs) (set_count b s)"
proof (rule conserves_put [OF assms(1,2,7,8)])
  have "stack_ok R s" "stack_ok R (slot_get sl cs)" using assms(1,2) loose_bounds(1) by (auto simp: loose_def)
  then show "amount R K (set_count a (slot_get sl cs)) + amount R K (set_count b s) = amount R K (slot_get sl cs) + amount R K s" for K
    using assms(3,6,7,8) by (simp add: amount_ok) (simp add: set_count_def)
qed

lemma kind_set_count [simp]: "kind R (set_count n s) = kind R s" "st_count (set_count n s) = n"
  by (simp_all add: set_count_def)

lemma stack_ok_set: "stack_ok R s \<Longrightarrow> st_item s \<noteq> AIR \<Longrightarrow> 0 \<le> n \<Longrightarrow> stack_ok R (set_count n s)"
  by (simp add: stack_ok_def set_count_def)

lemma item_in_range: "stack_ok R s \<Longrightarrow> st_item s \<noteq> AIR \<Longrightarrow> 1 \<le> max_stack_size R s \<and> max_stack_size R s \<le> 99 \<and> in_range R s"
  by (simp add: stack_ok_def in_range_def)

lemma max_set_count [simp]: "max_stack_size R (set_count n s) = max_stack_size R s"
  by (simp add: set_count_def max_stack_size_def get_integer_def)

lemma stack_pass_spec:
  assumes "loose R cs stack" and "\<forall>i \<in> set is. wired cs (slots ! i)" and "wired cs (slots ! source)"
    and "stack_pass R slots source is cs stack changed = (cs', stack', changed')" and "st_item stack \<noteq> AIR"
  shows "conserves R cs stack cs' stack' \<and> kind R stack' = kind R stack \<and> slot_get (slots ! source) cs' = slot_get (slots ! source) cs
    \<and> st_count stack' \<le> st_count stack \<and> st_item stack' = st_item stack"
  using assms(1-5)
proof (induction "is" arbitrary: cs stack changed)
  case (Cons i "is")
  let ?sl = "slots ! i" and ?src = "slots ! source"
  let ?t = "slot_get ?sl cs" and ?max = "get_max_stack_size_for_item R (slots ! i) (slot_get (slots ! i) cs)"
  note b = loose_bounds [OF Cons.prems(1), of ?sl]
  have w: "wired cs ?sl" using Cons.prems(2) by simp
  let ?skip = "is_empty_stack stack \<or> i = source \<or> same_place ?sl ?src \<or> is_empty_stack ?t \<or> \<not> is_same_item_same_components R stack ?t
    \<or> (?max < st_count ?t + st_count stack \<and> ?max \<le> st_count ?t)"
  have sum: "wrap_i32 (st_count ?t + st_count stack) = st_count ?t + st_count stack" using b w by (simp add: few_def wrap_few)
  show ?case
  proof (cases ?skip)
    case True
    then have "stack_pass R slots source is cs stack changed = (cs', stack', changed') \<or> (cs', stack', changed') = (cs, stack, changed)"
      using Cons.prems(4) sum by (auto simp: Let_def split: if_splits)
    then show ?thesis
    proof
      assume "stack_pass R slots source is cs stack changed = (cs', stack', changed')"
      from Cons.IH [OF Cons.prems(1) _ Cons.prems(3) this Cons.prems(5)] Cons.prems(2) show ?thesis by simp
    qed (use Cons.prems(1) in simp)
  next
    case False
    define a where "a = min ?max (st_count ?t + st_count stack)"
    let ?s1 = "set_count (st_count ?t + st_count stack - a) stack" and ?cs1 = "slot_put ?sl (set_count a ?t) cs"
    have a: "st_count ?t \<le> a" "a \<le> st_count ?t + st_count stack" using False b w by (auto simp: a_def)
    have k: "kind R ?t = kind R stack" using False same_iff_kind by metis
    have ok: "stack_ok R (set_count a ?t)" "stack_ok R (set_count (st_count ?t + st_count stack - a) stack)"
      using a b w Cons.prems(1,5) False by (auto simp: loose_def stack_ok_def set_count_def is_empty_stack_def)
    have c: "conserves R cs stack ?cs1 ?s1"
      by (rule conserves_kind [OF Cons.prems(1) w k]) (use a b w ok in auto)
    have src: "slot_get ?src ?cs1 = slot_get ?src cs" using False slot_get_put [OF w, of ?src] by (auto simp: same_place_def)
    have run: "stack_pass R slots source is ?cs1 ?s1 True = (cs', stack', changed')"
    proof (cases "st_count ?t + st_count stack \<le> ?max")
      case True
      then have "a = st_count ?t + st_count stack" by (simp add: a_def)
      then show ?thesis using Cons.prems(4) False True sum by (simp add: Let_def split: if_splits)
    next
      case over: False
      then have "a = ?max" by (simp add: a_def)
      moreover have "wrap_i32 (?max - st_count ?t) = ?max - st_count ?t" "wrap_i32 (st_count stack - (?max - st_count ?t)) = st_count ?t + st_count stack - ?max"
        using b w a over False by (simp_all add: few_def wrap_few a_def)
      ultimately show ?thesis using Cons.prems(4) False over sum by (simp add: Let_def shrink_def set_count_def split: if_splits)
    qed
    have "\<forall>j \<in> set is. wired ?cs1 (slots ! j)" "wired ?cs1 ?src" using Cons.prems(2,3) conserves_wired [OF c] by auto
    from Cons.IH [OF conserves_loose [OF c] this run] Cons.prems(5)
    have ih: "conserves R ?cs1 ?s1 cs' stack'" "kind R stack' = kind R ?s1" "slot_get ?src cs' = slot_get ?src ?cs1" "st_count stack' \<le> st_count ?s1"
      "st_item stack' = st_item ?s1" by (auto simp: set_count_def)
    then show ?thesis using conserves_trans [OF c ih(1)] src a by (auto simp: set_count_def)
  qed
qed simp

lemma place_pass_spec:
  assumes "\<forall>i \<in> set is. \<forall>n. slot_limit (slots ! i) = Some n \<longrightarrow> 0 \<le> n" and "loose R cs stack" and "\<forall>i \<in> set is. wired cs (slots ! i)"
    and "place_pass R slots source is cs stack changed = (cs', stack', changed')" and "st_item stack \<noteq> AIR"
  shows "conserves R cs stack cs' stack' \<and> kind R stack' = kind R stack \<and> slot_get (slots ! source) cs' = slot_get (slots ! source) cs
    \<and> st_count stack' \<le> st_count stack \<and> st_item stack' = st_item stack"
  using assms(1-5)
proof (induction "is" arbitrary: changed)
  case (Cons i "is")
  let ?sl = "slots ! i" and ?src = "slots ! source"
  have w: "wired cs ?sl" using Cons.prems(3) by simp
  note b = loose_bounds [OF Cons.prems(2) w]
  show ?case
  proof (cases "i = source \<or> same_place ?sl ?src \<or> \<not> is_empty_stack (slot_get ?sl cs) \<or> \<not> may_place ?sl stack")
    case True
    then have "place_pass R slots source is cs stack changed = (cs', stack', changed')" using Cons.prems(4)
      by (cases "i = source \<or> same_place ?sl ?src") (simp_all add: Let_def split: if_splits)
    with Cons show ?thesis by auto
  next
    case False
    let ?n = "min (st_count stack) (get_max_stack_size_for_item R ?sl stack)"
    obtain a r where sp: "split_stack ?n stack = (a, r)" by fastforce
    have n: "0 \<le> ?n" using b Cons.prems(1) item_in_range [of R stack] Cons.prems(2,5)
      by (auto simp: loose_def get_max_stack_size_for_item_def CONTAINER_MAX_STACK_SIZE_def split: option.split)
    have st: "stack_ok R stack" "st_count stack \<le> few" using Cons.prems(2) b by (auto simp: loose_def)
    note s = split_spec [OF st(1) n st(2) sp]
    have eq: "cs' = slot_put ?sl a cs" "stack' = r" using Cons.prems(4) False sp by (auto simp: Let_def split: if_splits)
    have "conserves R cs stack cs' stack'"
      unfolding eq by (rule conserves_put [OF Cons.prems(2) w s(1,2)]) (use s(3) False in \<open>simp add: amount_def\<close>)
    moreover have "slot_get ?src cs' = slot_get ?src cs" unfolding eq using False slot_get_put [OF w, of ?src] by (auto simp: same_place_def)
    moreover have "st_item r = st_item stack" using s(7) by (simp add: kind_def)
    ultimately show ?thesis using s(5,7) n b eq by simp
  qed
qed simp

lemma stack_pass_unchanged:
  "stack_pass R slots source is cs stack changed = (cs', stack', False) \<Longrightarrow> cs' = cs \<and> stack' = stack \<and> \<not> changed"
proof (induction R slots source "is" cs stack changed rule: stack_pass.induct)
  case (2 R slots source dest rest cs stack changed)
  from 2(6) show ?case
    using 2(1) 2(2) [OF _ _ refl refl] 2(3) [OF _ _ refl refl] 2(4) [OF _ _ refl refl] 2(5) [OF _ _ refl refl]
    by (auto simp: Let_def split: if_splits)
qed simp

lemma place_pass_unchanged:
  "place_pass R slots source is cs stack changed = (cs', stack', False) \<Longrightarrow> cs' = cs \<and> stack' = stack \<and> \<not> changed"
  by (induction "is") (auto simp: Let_def split: if_splits prod.splits)

definition slots_ok :: "'v store \<Rightarrow> 'v menu_slot list \<Rightarrow> bool" where
  "slots_ok cs slots \<longleftrightarrow> list_all (\<lambda>sl. wired cs sl \<and> (\<forall>n. slot_limit sl = Some n \<longrightarrow> 0 \<le> n)) slots"

text \<open>What a transfer from a copy of the stack in the source slot does.\<close>

definition transfers :: "'v item_registry \<Rightarrow> 'v menu_slot \<Rightarrow> 'v store \<Rightarrow> 'v item_stack \<Rightarrow> 'v store \<Rightarrow> 'v item_stack \<Rightarrow> bool" where
  "transfers R src cs stack cs' stack' \<longleftrightarrow> conserves R cs stack cs' stack' \<and> kind R stack' = kind R stack \<and> slot_get src cs' = slot_get src cs
    \<and> st_count stack' \<le> st_count stack \<and> st_item stack' = st_item stack"

lemma transfers_trans: "transfers R src cs s cs1 s1 \<Longrightarrow> transfers R src cs1 s1 cs2 s2 \<Longrightarrow> transfers R src cs s cs2 s2"
  using conserves_trans by (auto simp: transfers_def)

lemma move_item_spec:
  assumes "loose R cs stack" and "slots_ok cs slots" and "source < length slots" and "b \<le> length slots" and "st_item stack \<noteq> AIR"
  shows "\<exists>cs' stack' moved. move_item_stack_to R slots source a b direction cs stack = Some (cs', stack', moved)
    \<and> transfers R (slots ! source) cs stack cs' stack' \<and> (\<not> moved \<longrightarrow> cs' = cs \<and> stack' = stack)"
proof (cases "b \<le> a")
  case True
  then show ?thesis using assms(1) by (intro exI [of _ cs] exI [of _ stack] exI [of _ False]) (simp add: move_item_stack_to_def transfers_def)
next
  case False
  let ?order = "case direction of Forward \<Rightarrow> [a..<b] | Backward \<Rightarrow> rev [a..<b]"
  have order: "\<forall>i \<in> set ?order. i < length slots" using assms(4) by (auto split: fill_direction.split)
  then have wired: "\<forall>i \<in> set ?order. wired cs (slots ! i)" "\<forall>i \<in> set ?order. \<forall>n. slot_limit (slots ! i) = Some n \<longrightarrow> 0 \<le> n" "wired cs (slots ! source)"
    using assms(2,3) by (auto simp: slots_ok_def list_all_length)
  obtain stackable where st: "is_stackable R stack = Some stackable" using in_range_stackable item_in_range [of R stack] assms(1,5) unfolding loose_def by blast
  obtain cs1 s1 ch1 where 1: "(if stackable then stack_pass R slots source ?order cs stack False else (cs, stack, False)) = (cs1, s1, ch1)"
    using prod_cases3 by blast
  have t1: "transfers R (slots ! source) cs stack cs1 s1" "\<not> ch1 \<longrightarrow> cs1 = cs \<and> s1 = stack"
    using 1 stack_pass_spec [OF assms(1) wired(1,3) _ assms(5), of False cs1 s1 ch1] stack_pass_unchanged [of R slots source ?order cs stack False cs1 s1] assms(1)
    by (auto simp: transfers_def split: if_splits)
  show ?thesis
  proof (cases "is_empty_stack s1")
    case True
    then show ?thesis using False st 1 t1 by (simp add: move_item_stack_to_def Let_def)
  next
    case nonempty: False
    obtain cs2 s2 ch2 where 2: "place_pass R slots source ?order cs1 s1 ch1 = (cs2, s2, ch2)" using prod_cases3 by blast
    have w1: "\<forall>i \<in> set ?order. wired cs1 (slots ! i)" using wired(1) conserves_wired t1(1) by (metis transfers_def)
    have "transfers R (slots ! source) cs1 s1 cs2 s2"
      unfolding transfers_def
      by (rule place_pass_spec [OF wired(2) _ w1 2]) (use t1(1) assms(5) in \<open>simp_all add: transfers_def conserves_def\<close>)
    moreover have "\<not> ch2 \<longrightarrow> cs2 = cs \<and> s2 = stack" using place_pass_unchanged [of R slots source ?order cs1 s1 ch1 cs2 s2] 2 t1(2) by (cases ch2) auto
    ultimately show ?thesis using False st 1 2 nonempty transfers_trans [OF t1(1)] by (simp add: move_item_stack_to_def Let_def)
  qed
qed

lemma move_any_spec:
  assumes "loose R cs stack" and "slots_ok cs slots" and "source < length slots" and "\<forall>(a, b) \<in> set ts. b \<le> length slots" and "st_item stack \<noteq> AIR"
  shows "\<exists>cs' stack' moved. move_to_any R slots source direction ts cs stack = Some (cs', stack', moved)
    \<and> transfers R (slots ! source) cs stack cs' stack' \<and> (\<not> moved \<longrightarrow> cs' = cs \<and> stack' = stack)"
  using assms(4)
proof (induction ts)
  case Nil
  then show ?case using assms(1) by (intro exI [of _ cs] exI [of _ stack] exI [of _ False]) (simp add: transfers_def)
next
  case (Cons t ts)
  obtain a b where t: "t = (a, b)" by (cases t)
  from move_item_spec [OF assms(1-3) _ assms(5), of b a direction] Cons.prems t obtain cs1 s1 moved where
    1: "move_item_stack_to R slots source a b direction cs stack = Some (cs1, s1, moved)"
    "transfers R (slots ! source) cs stack cs1 s1" "\<not> moved \<longrightarrow> cs1 = cs \<and> s1 = stack" by auto
  then show ?case using Cons t by (cases moved) auto
qed

section \<open>Menus keep their items\<close>

definition item_total :: "'v item_registry \<Rightarrow> (nat \<times> (component_key \<Rightarrow> 'v option) \<Rightarrow> bool) \<Rightarrow> 'v menu \<Rightarrow> int" where
  "item_total R K m = held_in R K (store m) + amount R K (carried m) + stored R K (dropped m) + stored R K (lost m)"

text \<open>
  A menu is well-formed when its stacks are, its slots and the inventory of the player point into
  the store, a cloning drag belongs to a creative player, and the items are not too many.
\<close>

definition menu_ok :: "'v item_registry \<Rightarrow> player_view \<Rightarrow> 'v menu \<Rightarrow> bool" where
  "menu_ok R p m \<longleftrightarrow> store_ok R (store m) \<and> stack_ok R (carried m) \<and> list_all (stack_ok R) (dropped m @ lost m) \<and> 2 * item_total R (\<lambda>_. True) m \<le> few
    \<and> slots_ok (store m) (m_slots m) \<and> list_all (\<lambda>i. i < length (m_slots m)) (quickcraft_slots m)
    \<and> (quickcraft m = Some CloneDrag \<longrightarrow> creative_mode p)
    \<and> inventory_id p < length (store m) \<and> length (store m ! inventory_id p) = CONTAINER_SIZE \<and> selected_slot p < 9"

definition keeps :: "'v item_registry \<Rightarrow> player_view \<Rightarrow> 'v menu \<Rightarrow> 'v menu \<Rightarrow> bool" where
  "keeps R p m m' \<longleftrightarrow> menu_ok R p m' \<and> m_slots m' = m_slots m \<and> (\<forall>K. item_total R K m' = item_total R K m)
    \<and> try_add_entity m' = try_add_entity m \<and> ((\<forall>n. try_add_entity m n) \<longrightarrow> lost m' = lost m)"

lemma keeps_refl: "menu_ok R p m \<Longrightarrow> keeps R p m m"
  by (simp add: keeps_def)

lemma keeps_trans: "keeps R p m m1 \<Longrightarrow> keeps R p m1 m2 \<Longrightarrow> keeps R p m m2"
  by (simp add: keeps_def)

lemma slots_ok_shape: "map length cs' = map length cs \<Longrightarrow> slots_ok cs' slots = slots_ok cs slots"
  by (simp add: slots_ok_def wired_shape [of cs' cs])

lemma shape_nth:
  assumes "map length cs' = map length cs" and "i < length cs"
  shows "i < length cs'" "length (cs' ! i) = length (cs ! i)"
proof -
  show i: "i < length cs'" using map_eq_imp_length_eq [OF assms(1)] assms(2) by simp
  show "length (cs' ! i) = length (cs ! i)" using arg_cong [OF assms(1), of "\<lambda>xs. xs ! i"] i assms(2) by simp
qed

lemma menu_bounds:
  assumes "menu_ok R p m"
  shows "2 * (held_in R (\<lambda>_. True) (store m) + st_count (carried m)) \<le> few" "loose R (store m) (carried m)" "loose R (store m) empty_stack"
    "0 \<le> st_count (carried m)" "0 \<le> stored R K (dropped m)" "0 \<le> stored R K (lost m)"
proof -
  have ok: "store_ok R (store m)" "stack_ok R (carried m)" "list_all (stack_ok R) (dropped m)" "list_all (stack_ok R) (lost m)" using assms by (simp_all add: menu_ok_def)
  have nn: "0 \<le> held_in R (\<lambda>_. True) (store m)" "0 \<le> stored R (\<lambda>_. True) (dropped m)" "0 \<le> stored R (\<lambda>_. True) (lost m)" using held_nonneg ok stored_nonneg by auto
  show c: "0 \<le> st_count (carried m)" using ok by (simp add: stack_ok_def)
  show half: "2 * (held_in R (\<lambda>_. True) (store m) + st_count (carried m)) \<le> few"
    using assms nn ok by (simp add: menu_ok_def item_total_def amount_ok)
  show "loose R (store m) (carried m)" "loose R (store m) empty_stack" using half nn c ok by (simp_all add: loose_def)
  show "0 \<le> stored R K (dropped m)" by (rule stored_nonneg [OF ok(3)])
  show "0 \<le> stored R K (lost m)" by (rule stored_nonneg [OF ok(4)])
qed

lemma keeps_store:
  assumes "menu_ok R p m" and "conserves R (store m) (carried m) cs c"
  shows "keeps R p m (m\<lparr>store := cs, carried := c\<rparr>)"
proof -
  have shape: "map length cs = map length (store m)" using assms(2) by (simp add: conserves_def)
  have inv: "inventory_id p < length cs" "length (cs ! inventory_id p) = CONTAINER_SIZE"
    using assms(1) shape_nth [OF shape] by (simp_all add: menu_ok_def)
  have tot: "item_total R K (m\<lparr>store := cs, carried := c\<rparr>) = item_total R K m" for K using assms(2) by (simp add: conserves_def item_total_def)
  show ?thesis
    using assms slots_ok_shape [OF shape] inv tot by (auto simp: keeps_def menu_ok_def conserves_def loose_def)
qed

lemma keeps_drop:
  assumes "menu_ok R p m" and "conserves R (store m) empty_stack cs t"
  shows "keeps R p m (drop_item t (m\<lparr>store := cs\<rparr>))"
proof -
  have shape: "map length cs = map length (store m)" using assms(2) by (simp add: conserves_def)
  have inv: "inventory_id p < length cs" "length (cs ! inventory_id p) = CONTAINER_SIZE"
    using assms(1) shape_nth [OF shape] by (simp_all add: menu_ok_def)
  have "held_in R K cs + amount R K t = held_in R K (store m)" for K using assms(2) by (simp add: conserves_def)
  then have held: "held_in R K (store m) = held_in R K cs + amount R K t" for K by simp
  have "is_empty_stack t \<Longrightarrow> amount R K t = 0" for K by (simp add: amount_def)
  then have tot: "item_total R K (drop_item t (m\<lparr>store := cs\<rparr>)) = item_total R K m" for K
    by (cases "is_empty_stack t") (simp_all add: item_total_def drop_item_def stored_def held)
  show ?thesis
    using assms slots_ok_shape [OF shape] inv tot by (auto simp: keeps_def menu_ok_def conserves_def loose_def drop_item_def)
qed

definition routes_ok :: "nat \<Rightarrow> route list \<Rightarrow> bool" where
  "routes_ok n rs \<longleftrightarrow> list_all (\<lambda>r. list_all (\<lambda>t. snd t \<le> n) (targets r)) rs"

lemma slots_wired: "menu_ok R p m \<Longrightarrow> i < length (m_slots m) \<Longrightarrow> wired (store m) (m_slots m ! i)"
  by (simp add: menu_ok_def slots_ok_def list_all_length)

lemma keeps_same_carried:
  assumes "menu_ok R p m" and "store_ok R cs" and "map length cs = map length (store m)" and "\<And>K. held_in R K cs = held_in R K (store m)"
  shows "keeps R p m (m\<lparr>store := cs\<rparr>)"
proof -
  have "conserves R (store m) (carried m) cs (carried m)"
    by (rule conservesI [OF menu_bounds(2) [OF assms(1)] assms(2) _ assms(3)]) (use assms in \<open>simp_all add: menu_ok_def\<close>)
  from keeps_store [OF assms(1) this] show ?thesis by simp
qed

lemma find_Some_member: "find P xs = Some x \<Longrightarrow> x \<in> set xs"
  by (auto simp: find_Some_iff)

lemma quick_move_spec:
  assumes "menu_ok R p m" and "i < length (m_slots m)" and "routes_ok (length (m_slots m)) (routes hooks)"
  shows "\<exists>result m'. quick_move R hooks i m = Some (result, m') \<and> keeps R p m m'
    \<and> (is_empty_stack result \<or> st_count (slot_get (m_slots m ! i) (store m')) < st_count (slot_get (m_slots m ! i) (store m)))"
proof -
  let ?sl = "m_slots m ! i"
  let ?c = "slot_get ?sl (store m)"
  have w: "wired (store m) ?sl" by (rule slots_wired [OF assms(1,2)])
  note b = loose_bounds [OF menu_bounds(2) [OF assms(1)] w]
  show ?thesis
  proof (cases "find (\<lambda>r. from_start r \<le> i \<and> i < from_limit r) (routes hooks)")
    case None
    then show ?thesis using keeps_refl [OF assms(1)] by (simp add: quick_move_def)
  next
    case (Some r)
    show ?thesis
    proof (cases "is_empty_stack ?c \<or> \<not> may_pickup ?sl (store m)")
      case True
      then show ?thesis using Some keeps_refl [OF assms(1)] by (auto simp: quick_move_def Let_def)
    next
      case False
      have "2 * held_in R (\<lambda>_. True) (store m) \<le> few" using menu_bounds(1,4) [OF assms(1)] by simp
      then have l: "loose R (store m) ?c" using slot_get_le [where R = R, OF _ w] b(1) assms(1) by (simp add: loose_def menu_ok_def)
      have ts: "\<forall>(a, b) \<in> set (targets r). b \<le> length (m_slots m)"
        using assms(3) find_Some_member [OF Some] by (fastforce simp: routes_ok_def list_all_iff)
      have "slots_ok (store m) (m_slots m)" "st_item ?c \<noteq> AIR" using assms(1) False by (auto simp: menu_ok_def is_empty_stack_def)
      from move_any_spec [OF l this(1) assms(2) ts this(2), of "route_direction r"] obtain cs rem moved where
        run: "move_to_any R (m_slots m) i (route_direction r) (targets r) (store m) ?c = Some (cs, rem, moved)"
        and tr: "transfers R ?sl (store m) ?c cs rem" "\<not> moved \<longrightarrow> cs = store m \<and> rem = ?c" by blast
      show ?thesis
      proof (cases moved)
        case unmoved: False
        then show ?thesis using Some False run tr(2) keeps_refl [OF assms(1)] by (auto simp: quick_move_def Let_def)
      next
        case True
        let ?rem = "if is_empty_stack rem then empty_stack else rem"
        let ?cs1 = "slot_put ?sl ?rem cs"
        have c: "conserves R (store m) ?c cs rem" "slot_get ?sl cs = ?c" "st_count rem \<le> st_count ?c" using tr(1) by (simp_all add: transfers_def)
        have w': "wired cs ?sl" using conserves_wired [OF c(1)] w by simp
        have rem: "stack_ok R rem" "store_ok R cs" using c(1) by (simp_all add: conserves_def loose_def)
        have "amount R K ?rem = amount R K rem" for K by (simp add: amount_def)
        then have "held_in R K ?cs1 = held_in R K (store m)" for K
          using held_put [OF w', of R K ?rem] conserves_held [OF c(1), of K] unfolding c(2) by simp
        then have k: "keeps R p m (m\<lparr>store := ?cs1\<rparr>)"
          using c(1) rem by (intro keeps_same_carried [OF assms(1) store_ok_put [OF rem(2) w']]) (simp_all add: conserves_def)
        have "st_count (slot_get ?sl ?cs1) = st_count rem" using slot_get_put [OF w'] empty_iff [OF rem(1)] by (simp add: same_place_def)
        then show ?thesis using Some False run True k c(3) by (simp add: quick_move_def Let_def)
      qed
    qed
  qed
qed

lemma quick_move_loop_spec:
  assumes "menu_ok R p m" and "i < length (m_slots m)" and "routes_ok (length (m_slots m)) (routes hooks)"
    and "nat (st_count (slot_get (m_slots m ! i) (store m))) + 1 < fuel \<or> is_empty_stack result \<and> 0 < fuel"
  shows "\<exists>m'. quick_move_loop fuel R hooks i result m = Some m' \<and> keeps R p m m'"
  using assms(1-)
proof (induction fuel arbitrary: result m)
  case (Suc fuel)
  show ?case
  proof (cases "is_empty_stack result \<or> \<not> is_same_item (slot_get (m_slots m ! i) (store m)) result")
    case True
    then show ?thesis using keeps_refl [OF Suc.prems(1)] by auto
  next
    case False
    from quick_move_spec [OF Suc.prems(1-3)] obtain result' m' where
      q: "quick_move R hooks i m = Some (result', m')" "keeps R p m m'"
      "is_empty_stack result' \<or> st_count (slot_get (m_slots m ! i) (store m')) < st_count (slot_get (m_slots m ! i) (store m))" by blast
    have m': "menu_ok R p m'" "m_slots m' = m_slots m" using q(2) by (simp_all add: keeps_def)
    have "nat (st_count (slot_get (m_slots m' ! i) (store m'))) + 1 < fuel \<or> is_empty_stack result' \<and> 0 < fuel"
      using q(3) Suc.prems(4) False m'(2) loose_bounds(3) [OF menu_bounds(2) [OF m'(1)] slots_wired [OF m'(1)], of i] Suc.prems(2) by auto
    from Suc.IH [OF m'(1) _ _ this] Suc.prems(2,3) m'(2) obtain m'' where "quick_move_loop fuel R hooks i result' m' = Some m''" "keeps R p m' m''" by auto
    then show ?thesis using False q(1) keeps_trans [OF q(2)] by auto
  qed
qed simp

lemma slot_count_bound:
  assumes "menu_ok R p m" and "i < length (m_slots m)"
  shows "st_count (slot_get (m_slots m ! i) (store m)) \<le> item_total R (\<lambda>_. True) m" "item_total R (\<lambda>_. True) m < 2 ^ 31"
  using slot_get_le [where R = R, OF _ slots_wired [OF assms]] menu_bounds(4) [OF assms(1)] menu_bounds(5,6) [OF assms(1), of "\<lambda>_. True"] assms(1)
  by (auto simp: item_total_def menu_ok_def amount_ok few_def)

lemma do_quick_move_spec:
  assumes "menu_ok R p m" and "i < length (m_slots m)" and "routes_ok (length (m_slots m)) (routes hooks)"
    and "nat (item_total R (\<lambda>_. True) m) + 1 < fuel"
  shows "\<exists>m'. do_quick_move fuel R hooks i m = Some m' \<and> keeps R p m m'"
proof -
  from quick_move_spec [OF assms(1-3)] obtain result m' where
    q: "quick_move R hooks i m = Some (result, m')" "keeps R p m m'" by blast
  have m': "menu_ok R p m'" "m_slots m' = m_slots m" "item_total R (\<lambda>_. True) m' = item_total R (\<lambda>_. True) m" using q(2) by (simp_all add: keeps_def)
  have "nat (st_count (slot_get (m_slots m' ! i) (store m'))) + 1 < fuel" using slot_count_bound(1) [OF m'(1), of i] assms(2,4) m'(2,3) by simp
  with quick_move_loop_spec [OF m'(1), of i hooks fuel result] assms(2,3) m'(2)
  obtain m'' where "quick_move_loop fuel R hooks i result m' = Some m''" "keeps R p m' m''" by auto
  then show ?thesis using q keeps_trans [OF q(2)] keeps_refl [OF assms(1)] by (auto simp: do_quick_move_def Let_def)
qed

section \<open>Taking, placing and throwing keep the items\<close>

lemma conserves_empty:
  assumes "conserves R cs empty_stack cs' t" and "loose R cs s" and "is_empty_stack s"
  shows "conserves R cs s cs' t"
  using assms by (auto simp: conserves_def amount_def [of _ _ s])

lemma conserves_grow:
  assumes "conserves R cs empty_stack cs' t" and "loose R cs s" and "\<not> is_empty_stack s" and "is_empty_stack t \<or> kind R t = kind R s"
  shows "conserves R cs s cs' (grow (st_count t) s)" "\<not> is_empty_stack (grow (st_count t) s)"
proof -
  have ok: "stack_ok R s" "stack_ok R t" "loose R cs' t" using assms(1,2) by (simp_all add: conserves_def loose_def)
  have held: "held_in R K cs' + amount R K t = held_in R K cs" for K using conserves_held [OF assms(1)] by simp
  have "st_count t + st_count s \<le> few"
    using held [of "\<lambda>_. True"] ok held_nonneg [of R cs' "\<lambda>_. True"] assms(2) by (simp add: loose_def amount_ok)
  then have c: "st_count (grow (st_count t) s) = st_count s + st_count t"
    using ok by (simp add: grow_def stack_ok_def few_def wrap_few)
  have g: "stack_ok R (grow (st_count t) s)" "kind R (grow (st_count t) s) = kind R s"
    using ok c assms(3) by (auto simp: stack_ok_def grow_def is_empty_stack_def)
  show "\<not> is_empty_stack (grow (st_count t) s)" 
    using c ok(2) assms(3) by (simp add: stack_ok_def is_empty_stack_def grow_def)
  have "amount R K (grow (st_count t) s) = amount R K s + amount R K t" for K
    using assms(4) ok g c empty_iff [OF ok(2)] by (auto simp: amount_ok)
  then show "conserves R cs s cs' (grow (st_count t) s)" using ok(3) held g(1) assms(1) by (intro conservesI [OF assms(2)]) (auto simp: conserves_def loose_def)
qed

lemma keeps_take:
  assumes "menu_ok R p m" and "i < length (m_slots m)" and "safe_take n mx (m_slots m ! i) (store m) = (t, cs)"
  shows "keeps R p m (drop_item t (m\<lparr>store := cs\<rparr>))"
  by (rule keeps_drop [OF assms(1) safe_take_spec(1) [OF menu_bounds(3) [OF assms(1)] slots_wired [OF assms(1,2)] assms(3)]])

lemma store_drop [simp]: "store (drop_item t m) = store m" "m_slots (drop_item t m) = m_slots m"
  by (simp_all add: drop_item_def)

lemma throw_loop_spec:
  assumes "menu_ok R p m" and "i < length (m_slots m)"
  shows "\<exists>m'. throw_loop (Suc (Suc fuel)) can_drop (m_slots m ! i) first m = Some m' \<and> keeps R p m m'"
proof -
  let ?sl = "m_slots m ! i"
  let ?c = "slot_get ?sl (store m)"
  obtain t cs where t: "safe_take (st_count ?c) (2 ^ 31 - 1) ?sl (store m) = (t, cs)" by fastforce
  note k = keeps_take [OF assms t]
  have w: "wired (store m) ?sl" by (rule slots_wired [OF assms])
  have "is_empty_stack t \<or> is_empty_stack (slot_get ?sl cs)"
    using safe_take_spec(2) [OF menu_bounds(3) [OF assms(1)] w t] slot_count_bound [OF assms] by (auto simp: is_empty_stack_def)
  then show ?thesis
    using t k keeps_refl [OF assms(1)] by (cases "is_empty_stack t") (auto simp: Let_def drop_item_def)
qed

lemma do_throw_spec:
  assumes "menu_ok R p m" and "i < length (m_slots m)" and "2 \<le> fuel"
  shows "\<exists>m'. do_throw fuel can_drop i whole m = Some m' \<and> keeps R p m m'"
proof -
  let ?sl = "m_slots m ! i"
  obtain t cs where t: "safe_take (if whole then st_count (slot_get ?sl (store m)) else 1) (2 ^ 31 - 1) ?sl (store m) = (t, cs)" by fastforce
  let ?m1 = "drop_item t (m\<lparr>store := cs\<rparr>)"
  note k = keeps_take [OF assms(1,2) t]
  obtain f where f: "fuel = Suc (Suc f)" using assms(3) by (metis add_2_eq_Suc le_Suc_ex)
  have m1: "menu_ok R p ?m1" using k by (simp add: keeps_def)
  from throw_loop_spec [OF m1, of i f can_drop t] assms(2) obtain m' where "throw_loop fuel can_drop ?sl t ?m1 = Some m'" "keeps R p ?m1 m'"
    unfolding f by (auto simp del: throw_loop.simps)
  then show ?thesis using t k keeps_trans [OF k] keeps_refl [OF assms(1)]
    by (cases whole) (auto simp: do_throw_def Let_def simp del: throw_loop.simps)
qed

lemma reset_keeps: "menu_ok R p m \<Longrightarrow> keeps R p m (reset_quick_craft m)"
  by (simp add: keeps_def menu_ok_def reset_quick_craft_def item_total_def)

lemma drop_carried_keeps:
  assumes "menu_ok R p m"
  shows "keeps R p m (drop_carried button m)"
proof (cases "is_empty_stack (carried m)")
  case True
  then show ?thesis using keeps_refl [OF assms] by (simp add: drop_carried_def)
next
  case False
  have ok: "stack_ok R (carried m)" "st_count (carried m) \<le> few" using menu_bounds(2) [OF assms] held_nonneg [of R "store m" "\<lambda>_. True"]
    by (auto simp: loose_def)
  obtain a b where ab: "split_stack 1 (carried m) = (a, b)" by fastforce
  note s = split_spec [OF ok(1) _ ok(2) ab]
  have tot: "keeps R p m (drop_item x (m\<lparr>carried := y\<rparr>))"
    if xy: "stack_ok R x" "stack_ok R y" "\<And>K. amount R K x + amount R K y = amount R K (carried m)" for x y
  proof -
    have "is_empty_stack x \<Longrightarrow> amount R K x = 0" for K by (simp add: amount_def)
    then have "item_total R K (drop_item x (m\<lparr>carried := y\<rparr>)) = item_total R K m" for K
      by (cases "is_empty_stack x") (simp_all add: item_total_def drop_item_def stored_def xy(3) [of K, symmetric])
    then show ?thesis using xy(1,2) assms by (simp add: keeps_def menu_ok_def drop_item_def)
  qed
  show ?thesis using tot [OF ok(1) stack_ok_empty(1)] tot [OF s(1,2,3)] ab False
    by (cases button) (simp_all add: drop_carried_def)
qed

lemma do_pickup_keeps:
  assumes "menu_ok R p m" and "i < length (m_slots m)"
  shows "keeps R p m (do_pickup R i button m)"
proof -
  let ?sl = "m_slots m ! i" and ?held = "carried m"
  let ?req = "if button = LeftButton then st_count ?held else 1"
  let ?s = "slot_get ?sl (store m)"
  have w: "wired (store m) ?sl" by (rule slots_wired [OF assms])
  note l = menu_bounds(2,3) [OF assms(1)] and same = keeps_refl [OF assms(1)]
  have insert: "keeps R p m (case safe_insert R ?held ?req ?sl (store m) of (rest, cs1) \<Rightarrow> m\<lparr>store := cs1, carried := rest\<rparr>)"
    using keeps_store [OF assms(1) safe_insert_spec [OF l(1) w]] by (auto split: prod.split)
  show ?thesis
  proof (cases "is_empty_stack ?s")
    case True
    then show ?thesis using insert same by (simp add: do_pickup_def Let_def)
  next
    case item: False
    show ?thesis
    proof (cases "is_empty_stack ?held")
      case True
      have "keeps R p m (m\<lparr>store := store m, carried := empty_stack\<rparr>)"
        using conserves_empty [OF conserves_refl [OF l(2)] l(1) True] by (rule keeps_store [OF assms(1)])
      moreover have "keeps R p m (m\<lparr>store := cs1, carried := t\<rparr>)" if "try_remove n mx ?sl (store m) = Some (t, cs1)" for n mx t cs1
        by (rule keeps_store [OF assms(1) conserves_empty [OF try_remove_spec(1) [OF l(2) w that] l(1) True]])
      ultimately show ?thesis using item True by (auto simp: do_pickup_def Let_def split: option.split)
    next
      case held: False
      show ?thesis
      proof (cases "is_same_item_same_components R ?s ?held")
        case True
        then have k: "kind R ?s = kind R ?held" using same_iff_kind [OF item held] by simp
        have "keeps R p m (m\<lparr>store := cs1, carried := grow (st_count t) ?held\<rparr>)" if t: "try_remove n mx ?sl (store m) = Some (t, cs1)" for n mx t cs1
          by (rule keeps_store [OF assms(1) conserves_grow(1) [OF try_remove_spec(1) [OF l(2) w t] l(1) held]]) (simp add: try_remove_spec(3) [OF l(2) w t] k)
        then show ?thesis using item held True insert same by (auto simp: do_pickup_def Let_def split: option.split)
      next
        case False
        have "conserves R (store m) ?held (slot_put ?sl ?held (store m)) ?s"
          by (rule conserves_put [OF l(1) w]) (use l(1) loose_bounds(1) [OF l(1) w] in \<open>simp_all add: loose_def\<close>)
        then show ?thesis using keeps_store [OF assms(1)] same item held False by (simp add: do_pickup_def Let_def)
      qed
    qed
  qed
qed

section \<open>Dragging and collecting keep the items\<close>

lemma share_wraps:
  assumes "0 \<le> pc" "pc \<le> few" "0 \<le> cur" "cur \<le> few" "0 \<le> mx" "mx \<le> 99" "0 \<le> r" "r \<le> few"
  shows "wrap_i32 (pc + cur) = pc + cur \<and> wrap_i32 (min (pc + cur) mx - cur) = min (pc + cur) mx - cur
    \<and> wrap_i32 (r - (min (pc + cur) mx - cur)) = r - (min (pc + cur) mx - cur)"
  using assms by (simp add: wrap_few few_def min_def)

lemma distribute_spec:
  assumes "\<not> is_empty_stack src" and "0 \<le> place_count R k n src" and "place_count R k n src \<le> few" and "\<forall>i \<in> set is. wired cs (slots ! i)"
    and "\<forall>i \<in> set is. \<forall>n. slot_limit (slots ! i) = Some n \<longrightarrow> 0 \<le> n"
    and "loose R cs (set_count rem src)" and "int (length is) * place_count R k n src \<le> rem"
    and "distribute R hooks k slots src n is cs rem = (cs', rem')"
  shows "conserves R cs (set_count rem src) cs' (set_count rem' src)"
  using assms(4-)
proof (induction "is" arbitrary: cs rem)
  case (Cons i "is")
  let ?sl = "slots ! i" and ?pc = "place_count R k n src"
  let ?s = "slot_get ?sl cs"
  let ?cur = "if is_empty_stack ?s then 0 else st_count ?s"
  let ?max = "min (max_stack_size R src) (get_max_stack_size_for_item R ?sl src)"
  let ?new = "min (?pc + ?cur) ?max"
  let ?go = "can_item_quick_replace R ?s src True \<and> may_place ?sl src \<and> (k = CloneDrag \<or> int n \<le> st_count src) \<and> can_drag_to hooks i"
  have w: "wired cs ?sl" using Cons.prems(1) by simp
  note b = loose_bounds [OF Cons.prems(3) w, simplified]
  have mul: "int (length (i # is)) * ?pc = int (length is) * ?pc + ?pc" by (simp add: algebra_simps)
  have pc: "int (length is) * ?pc \<le> rem - ?pc" "0 \<le> int (length is) * ?pc" using Cons.prems(4) assms(2) unfolding mul by simp_all
  show ?case
  proof (cases ?go)
    case False
    then have "distribute R hooks k slots src n is cs rem = (cs', rem')" using Cons.prems(5) by (simp only: distribute.simps Let_def if_False)
    with Cons.IH [OF _ _ Cons.prems(3) _ this] Cons.prems(1,2) pc assms(2) show ?thesis by simp
  next
    case True
    have src: "st_item src \<noteq> AIR" using assms(1) by (simp add: is_empty_stack_def)
    have range: "in_range R src" using Cons.prems(3) src by (simp add: loose_def stack_ok_def set_count_def)
    then have max: "0 \<le> ?max" "?max \<le> 99" using Cons.prems(2)
      by (auto simp: in_range_def get_max_stack_size_for_item_def CONTAINER_MAX_STACK_SIZE_def split: option.split)
    have cur: "0 \<le> ?cur" "?cur \<le> few" using b by auto
    have wr: "wrap_i32 (?pc + ?cur) = ?pc + ?cur" "wrap_i32 (?new - ?cur) = ?new - ?cur" "wrap_i32 (rem - (?new - ?cur)) = rem - (?new - ?cur)"
      using share_wraps [OF assms(2,3) cur max b(2)] b(3,4) by simp_all
    let ?cs1 = "slot_put ?sl (set_count ?new src) cs" and ?rem1 = "rem - (?new - ?cur)"
    have rem1: "rem - ?pc \<le> ?rem1" by simp
    have nn: "0 \<le> ?new" "0 \<le> ?rem1" using cur(1) max(1) assms(2) rem1 pc by (simp, linarith)
    have ok: "stack_ok R (set_count ?new src)" "stack_ok R (set_count ?rem1 src)" "stack_ok R (set_count rem src)"
      using range src nn b(2) by (simp_all add: stack_ok_def set_count_def)
    have "amount R K ?s = (if K (kind R src) then ?cur else 0)" for K
      using True assms(1) same_iff_kind [of src ?s R] by (auto simp: can_item_quick_replace_def amount_def split: if_splits)
    then have c: "conserves R cs (set_count rem src) ?cs1 (set_count ?rem1 src)"
      by (intro conserves_put [OF Cons.prems(3) w ok(1,2)]) (simp add: amount_ok [OF ok(1)] amount_ok [OF ok(2)] amount_ok [OF ok(3)])
    have run: "distribute R hooks k slots src n is ?cs1 ?rem1 = (cs', rem')" using Cons.prems(5) True wr by (simp add: Let_def)
    have "\<forall>j \<in> set is. wired ?cs1 (slots ! j)" using Cons.prems(1) conserves_wired [OF c] by simp
    from Cons.IH [OF this _ conserves_loose [OF c] _ run] Cons.prems(2) rem1 pc(1) have "conserves R ?cs1 (set_count ?rem1 src) cs' (set_count rem' src)" by simp
    from conserves_trans [OF c this] show ?thesis .
  qed
qed simp

lemma set_count_same: "set_count (st_count s) s = s"
  by (simp add: set_count_def)

lemma distribute_short:
  "k \<noteq> CloneDrag \<Longrightarrow> st_count src < int n \<Longrightarrow> distribute R hooks k slots src n is cs rem = (cs, rem)"
  by (induction "is" arbitrary: cs rem) (simp_all add: Let_def)

lemma distribute_keeps:
  assumes "menu_ok R p m" and "\<not> is_empty_stack (carried m)" and "k \<noteq> CloneDrag" and "is \<noteq> []" and "list_all (\<lambda>i. i < length (m_slots m)) is"
    and "distribute R hooks k (m_slots m) (carried m) (length is) is (store m) (st_count (carried m)) = (cs, rem)"
  shows "keeps R p m (m\<lparr>store := cs, carried := set_count rem (carried m)\<rparr>)"
proof (cases "st_count (carried m) < int (length is)")
  case True
  from distribute_short [OF assms(3) this] assms(6) have "cs = store m" "rem = st_count (carried m)" by auto
  then show ?thesis using keeps_refl [OF assms(1)] by (simp add: set_count_same)
next
  case False
  let ?pc = "place_count R k (length is) (carried m)"
  note l = menu_bounds(2) [OF assms(1)]
  have c: "0 < st_count (carried m)" "st_count (carried m) \<le> few"
    using assms(2) l held_nonneg [of R "store m" "\<lambda>_. True"] by (auto simp: is_empty_stack_def loose_def)
  have n: "0 < int (length is)" using assms(4) by simp
  have "0 \<le> ?pc \<and> ?pc \<le> few \<and> int (length is) * ?pc \<le> st_count (carried m)"
  proof (cases k)
    case LeftDrag
    have "st_count (carried m) div int (length is) \<le> st_count (carried m)" 
      using zdiv_mono2 [of "st_count (carried m)" 1 "int (length is)"] c n by simp
    moreover have "int (length is) * (st_count (carried m) div int (length is)) \<le> st_count (carried m)"
      using mult_div_mod_eq [of "int (length is)" "st_count (carried m)"] pos_mod_sign [OF n, of "st_count (carried m)"] by linarith
    ultimately show ?thesis using LeftDrag c n by (simp add: pos_imp_zdiv_nonneg_iff)
  next
    case RightDrag
    then show ?thesis using c False by (simp add: few_def)
  qed (use assms(3) in simp)
  moreover have "\<forall>i \<in> set is. wired (store m) (m_slots m ! i)" "\<forall>i \<in> set is. \<forall>n. slot_limit (m_slots m ! i) = Some n \<longrightarrow> 0 \<le> n"
    using assms(1,5) by (auto simp: menu_ok_def slots_ok_def list_all_iff all_set_conv_all_nth)
  ultimately have "conserves R (store m) (carried m) cs (set_count rem (carried m))"
    using distribute_spec [OF assms(2), of R k "length is" "is" "store m" "m_slots m" "st_count (carried m)" hooks cs rem] l assms(6) by (simp add: set_count_same)
  from keeps_store [OF assms(1) this] show ?thesis .
qed

lemma finish_quick_craft_keeps:
  assumes "menu_ok R p m" and "\<not> creative_mode p"
  shows "keeps R p m (finish_quick_craft R hooks m)"
proof -
  note reset = reset_keeps [OF assms(1)]
  have ok: "menu_ok R p (reset_quick_craft m)" "m_slots (reset_quick_craft m) = m_slots m" using reset by (simp_all add: keeps_def)
  have valid: "list_all (\<lambda>i. i < length (m_slots m)) (quickcraft_slots m)" "quickcraft m \<noteq> Some CloneDrag" using assms(1,2) by (auto simp: menu_ok_def)
  have many: "keeps R p m (reset_quick_craft (m\<lparr>store := cs, carried := set_count rem (carried m)\<rparr>))"
    if "distribute R hooks k (m_slots m) (carried m) (length (quickcraft_slots m)) (quickcraft_slots m) (store m) (st_count (carried m)) = (cs, rem)"
      "\<not> is_empty_stack (carried m)" "quickcraft_slots m \<noteq> []" "quickcraft m = Some k" for k cs rem
  proof -
    have "k \<noteq> CloneDrag" using that(4) valid(2) by auto
    from distribute_keeps [OF assms(1) that(2) this that(3) valid(1) that(1)] have k: "keeps R p m (m\<lparr>store := cs, carried := set_count rem (carried m)\<rparr>)" .
    then have "menu_ok R p (m\<lparr>store := cs, carried := set_count rem (carried m)\<rparr>)" by (simp add: keeps_def)
    from keeps_trans [OF k reset_keeps [OF this]] show ?thesis .
  qed
  have one: "keeps R p m (do_pickup R i b (reset_quick_craft m))" if "quickcraft_slots m = [i]" for i b
    using keeps_trans [OF reset do_pickup_keeps [OF ok(1)]] ok(2) valid(1) that by simp
  show ?thesis
  proof (cases "quickcraft_slots m")
    case Nil
    then show ?thesis using reset by (simp add: finish_quick_craft_def split: option.split)
  next
    case (Cons i "is")
    note first = Cons
    show ?thesis
    proof (cases "is")
      case Nil
      then show ?thesis using reset one first by (simp add: finish_quick_craft_def split: option.split drag_kind.split)
    next
      case (Cons j js)
      then show ?thesis using reset first many by (auto simp: finish_quick_craft_def split: option.split prod.split)
    qed
  qed
qed

lemma do_quick_craft_keeps:
  assumes "menu_ok R p m" and "\<not> creative_mode p" and "is_valid_for (length (m_slots m)) (QuickCraft action)"
  shows "keeps R p m (do_quick_craft R hooks action (creative_mode p) m)"
proof -
  have "keeps R p m (m\<lparr>quickcraft := Some k, quickcraft_slots := []\<rparr>)" if "k \<noteq> CloneDrag" for k
    using assms(1) that by (simp add: keeps_def menu_ok_def item_total_def)
  moreover have "keeps R p m (m\<lparr>quickcraft_slots := quickcraft_slots m @ [i]\<rparr>)" if "i < length (m_slots m)" for i
    using assms(1) that by (simp add: keeps_def menu_ok_def item_total_def)
  ultimately show ?thesis
    using reset_keeps [OF assms(1)] keeps_refl [OF assms(1)] finish_quick_craft_keeps [OF assms(1-2)] assms(2,3)
    by (cases action) (auto simp: do_quick_craft_def Let_def)
qed

lemma collect_pass_keeps:
  assumes "menu_ok R p m" and "list_all (\<lambda>i. i < length (m_slots m)) is" and "\<not> is_empty_stack (carried m)" and "kind R (carried m) = kind R first" and "\<not> is_empty_stack first"
    and "max_stack \<le> 99"
  shows "keeps R p m (collect_pass R hooks max_stack first full is m) \<and> \<not> is_empty_stack (carried (collect_pass R hooks max_stack first full is m))
    \<and> kind R (carried (collect_pass R hooks max_stack first full is m)) = kind R first"
  using assms(1-4)
proof (induction "is" arbitrary: m)
  case Nil
  then show ?case by (simp add: keeps_refl)
next
  case (Cons i "is")
  let ?sl = "m_slots m ! i"
  let ?t = "slot_get ?sl (store m)" and ?can = "wrap_i32 (max_stack - st_count (carried m))"
  let ?go = "\<not> is_empty_stack ?t \<and> can_item_quick_replace R ?t first True \<and> may_pickup ?sl (store m)
    \<and> can_take_item_for_pick_all hooks first i \<and> (full \<or> st_count ?t \<noteq> max_stack_size R ?t)"
  show ?case
  proof (cases "st_count (carried m) < max_stack \<and> ?go")
    case False
    then show ?thesis using Cons keeps_refl by (cases "st_count (carried m) < max_stack") (simp_all only: collect_pass.simps Let_def if_True if_False simp_thms, simp_all)
  next
    case True
    obtain t cs where t: "safe_take (min (st_count ?t) ?can) ?can ?sl (store m) = (t, cs)" by fastforce
    have i: "i < length (m_slots m)" using Cons.prems(2) by simp
    note l = menu_bounds(2,3) [OF Cons.prems(1)] and w = slots_wired [OF Cons.prems(1) i]
    note st = safe_take_spec [OF l(2) w t]
    have tk: "stack_ok R t" using st(1) by (simp add: conserves_def loose_def)
    have same: "kind R ?t = kind R first" using True assms(5) same_iff_kind [of first ?t R] by (auto simp: can_item_quick_replace_def split: if_splits)
    have can: "0 < ?can" using True assms(6) Cons.prems(3) by (simp add: wrap_few is_empty_stack_def)
    have take: "min (st_count t) ?can = st_count t" using st(2) can empty_iff [OF tk] by (cases "is_empty_stack t") auto
    let ?m1 = "m\<lparr>store := cs, carried := grow (st_count t) (carried m)\<rparr>"
    have g: "conserves R (store m) (carried m) cs (grow (st_count t) (carried m))"
      by (rule conserves_grow(1) [OF st(1) l(1) Cons.prems(3)]) (use st(2) same Cons.prems(4) in auto)
    have k: "keeps R p m ?m1" by (rule keeps_store [OF Cons.prems(1) g])
    have ne: "\<not> is_empty_stack (carried ?m1)"
      using conserves_grow(2) [OF st(1) l(1) Cons.prems(3)] st(2) same Cons.prems(4) by auto
    have run: "collect_pass R hooks max_stack first full (i # is) m = collect_pass R hooks max_stack first full is ?m1"
      using True t take by (simp add: Let_def)
    have "menu_ok R p ?m1" "kind R (carried ?m1) = kind R first" using k Cons.prems(4) by (simp_all add: keeps_def grow_def)
    from Cons.IH [OF this(1) _ ne this(2)] Cons.prems(2) show ?thesis unfolding run using keeps_trans [OF k] by simp
  qed
qed

lemma do_pickup_all_keeps:
  assumes "menu_ok R p m"
  shows "keeps R p m (do_pickup_all R hooks i direction m)"
proof -
  let ?n = "length (m_slots m)" and ?max = "max_stack_size R (carried m)"
  let ?order = "case direction of Forward \<Rightarrow> [0..<?n] | Backward \<Rightarrow> rev [0..<?n]"
  have order: "list_all (\<lambda>i. i < ?n) ?order" by (auto simp: list_all_iff split: fill_direction.split)
  show ?thesis
  proof (cases "is_empty_stack (carried m)")
    case False
    have max: "?max \<le> 99" using item_in_range [of R "carried m"] assms False by (simp add: menu_ok_def is_empty_stack_def)
    let ?m1 = "collect_pass R hooks ?max (carried m) False ?order m"
    from collect_pass_keeps [OF assms(1) order False refl False max, of hooks False]
    have 1: "keeps R p m ?m1" "\<not> is_empty_stack (carried ?m1)" "kind R (carried ?m1) = kind R (carried m)" by auto
    then have "menu_ok R p ?m1" "list_all (\<lambda>i. i < length (m_slots ?m1)) ?order" using order by (simp_all add: keeps_def)
    from collect_pass_keeps [OF this 1(2,3) False max, of hooks True] keeps_trans [OF 1(1)] keeps_refl [OF assms(1)]
    show ?thesis by (simp add: do_pickup_all_def Let_def)
  qed (simp add: do_pickup_all_def keeps_refl [OF assms(1)])
qed

section \<open>Swapping keeps the items\<close>

text \<open>The place of a swap key is a place of the player inventory.\<close>

lemma inventory_wired: "menu_ok R p m \<Longrightarrow> is_valid_for n (Swap s w) \<Longrightarrow> wired (store m) (inventory_place p w)"
  by (cases w) (auto simp: menu_ok_def wired_def inventory_place_def normal_slot_def CONTAINER_SIZE_def)

text \<open>Writing two different places.\<close>

lemma put_two:
  assumes "menu_ok R p m" and "wired (store m) a" and "wired (store m) b" and "\<not> same_place a b" and "stack_ok R x" and "stack_ok R y"
  shows "store_ok R (slot_put a x (slot_put b y (store m)))"
    "held_in R K (slot_put a x (slot_put b y (store m)))
       = held_in R K (store m) - amount R K (slot_get a (store m)) - amount R K (slot_get b (store m)) + amount R K x + amount R K y"
proof -
  have w: "wired (slot_put b y (store m)) a" using assms(2) wired_shape [of "slot_put b y (store m)" "store m"] by simp
  show "store_ok R (slot_put a x (slot_put b y (store m)))" using assms w by (auto simp: menu_ok_def intro!: store_ok_put)
  show "held_in R K (slot_put a x (slot_put b y (store m)))
       = held_in R K (store m) - amount R K (slot_get a (store m)) - amount R K (slot_get b (store m)) + amount R K x + amount R K y"
    using held_put [OF w, of R K x] held_put [OF assms(3), of R K y] slot_get_put [OF assms(3), of a y] assms(4) by simp
qed

lemma keeps_put_two:
  assumes "menu_ok R p m" and "wired (store m) a" and "wired (store m) b" and "\<not> same_place a b" and "stack_ok R x" and "stack_ok R y"
    and "\<And>K. amount R K x + amount R K y = amount R K (slot_get a (store m)) + amount R K (slot_get b (store m))"
  shows "keeps R p m (m\<lparr>store := slot_put a x (slot_put b y (store m))\<rparr>)"
proof (rule keeps_same_carried [OF assms(1) put_two(1) [OF assms(1-6)]])
  show "held_in R K (slot_put a x (slot_put b y (store m))) = held_in R K (store m)" for K
    using put_two(2) [OF assms(1-6), where K = K] assms(7) [of K] by linarith
qed simp

text \<open>The displaced stack goes to the inventory, and what does not fit is dropped.\<close>

lemma displace_spec:
  assumes "menu_ok R p m" and "stack_ok R t" and "store_ok R cs" and "map length cs = map length (store m)"
    and "held_in R (\<lambda>_. True) cs + st_count t \<le> few"
  shows "\<exists>items d. inventory_add R (selected_slot p) (cs ! inventory_id p) t = Some (is_empty_stack d, items, d)
    \<and> stack_ok R d \<and> store_ok R (cs[inventory_id p := items]) \<and> map length (cs[inventory_id p := items]) = map length (store m)
    \<and> (\<forall>K. held_in R K (cs[inventory_id p := items]) + amount R K d = held_in R K cs + amount R K t)"
proof -
  let ?i = "inventory_id p"
  have i: "?i < length (store m)" "length (store m ! ?i) = CONTAINER_SIZE" "selected_slot p < 9" using assms(1) by (simp_all add: menu_ok_def)
  note sh = shape_nth [OF assms(4) i(1)]
  have items: "list_all (stack_ok R) (cs ! ?i)" using assms(3) sh(1) by (simp add: store_ok_def list_all_length)
  have "store_ok R (cs[?i := []])" using assms(3) by (simp add: store_ok_def list_all_update)
  from held_nonneg [OF this, of "\<lambda>_. True"] have few: "stored R (\<lambda>_. True) (cs ! ?i) + st_count t \<le> few"
    using held_update [OF sh(1), of R "\<lambda>_. True" "[]"] assms(5) by (simp add: stored_def)
  from inventory_add_spec [OF items assms(2) few _ i(3)] sh(2) i(2) obtain items' d where
    add: "inventory_add R (selected_slot p) (cs ! ?i) t = Some (is_empty_stack d, items', d)" "list_all (stack_ok R) items'" "stack_ok R d"
      "length items' = length (cs ! ?i)" "\<And>K. stored R K items' + amount R K d = stored R K (cs ! ?i) + amount R K t" by auto
  have "store_ok R (cs[?i := items'])" using assms(3) add(2) by (simp add: store_ok_def list_all_update)
  moreover have "map length (cs[?i := items']) = map length (store m)"
    using list_update_id [of "map length cs" ?i] add(4) sh(1) unfolding assms(4) [symmetric] by (simp add: map_update)
  moreover have "held_in R K (cs[?i := items']) + amount R K d = held_in R K cs + amount R K t" for K
    using held_update [OF sh(1), of R K items'] add(5) [of K] by linarith
  ultimately show ?thesis using add(1,3) by blast
qed

lemma displace_keeps:
  assumes "menu_ok R p m" and "\<not> infinite_materials p" and "stack_ok R t" and "store_ok R cs" and "map length cs = map length (store m)"
    and "\<And>K. held_in R K cs + amount R K t = held_in R K (store m)"
  shows "\<exists>m'. (case inventory_add R (selected_slot p) (cs ! inventory_id p) t of
      None \<Rightarrow> None
    | Some (added, items, displaced) \<Rightarrow>
        (let m1 = m\<lparr>store := cs[inventory_id p := items]\<rparr>
         in Some (if \<not> added \<and> \<not> infinite_materials p then drop_item displaced m1 else m1))) = Some m' \<and> keeps R p m m'"
proof -
  have "held_in R (\<lambda>_. True) cs + st_count t \<le> few"
    using assms(6) [of "\<lambda>_. True"] menu_bounds(3) [OF assms(1)] assms(3) by (simp add: amount_ok loose_def)
  from displace_spec [OF assms(1,3,4,5) this] obtain items d where
    add: "inventory_add R (selected_slot p) (cs ! inventory_id p) t = Some (is_empty_stack d, items, d)" "stack_ok R d" "store_ok R (cs[inventory_id p := items])"
      "map length (cs[inventory_id p := items]) = map length (store m)" "\<And>K. held_in R K (cs[inventory_id p := items]) + amount R K d = held_in R K cs + amount R K t"
    by blast
  let ?cs = "cs[inventory_id p := items]"
  have "conserves R (store m) empty_stack ?cs d"
    by (rule conservesI [OF menu_bounds(3) [OF assms(1)] add(3,2,4)]) (simp add: add(5) assms(6))
  from keeps_drop [OF assms(1) this] have "keeps R p m (drop_item d (m\<lparr>store := ?cs\<rparr>))" .
  moreover have "drop_item d (m\<lparr>store := ?cs\<rparr>) = m\<lparr>store := ?cs\<rparr>" if "is_empty_stack d" using that by (simp add: drop_item_def)
  ultimately show ?thesis using add(1) assms(2) by (cases "is_empty_stack d") (simp_all add: Let_def)
qed

text \<open>A swap key pressed over its own place splits a stack that is larger than the slot takes.\<close>

definition splits_itself :: "'v item_registry \<Rightarrow> player_view \<Rightarrow> nat \<Rightarrow> swap_target \<Rightarrow> 'v menu \<Rightarrow> bool" where
  "splits_itself R p i w m \<longleftrightarrow> same_place (m_slots m ! i) (inventory_place p w) \<and> \<not> is_empty_stack (slot_get (m_slots m ! i) (store m))
     \<and> get_max_stack_size_for_item R (m_slots m ! i) (slot_get (m_slots m ! i) (store m)) < st_count (slot_get (m_slots m ! i) (store m))"

lemma do_swap_keeps:
  assumes "menu_ok R p m" and "is_valid_for (length (m_slots m)) (Swap i w)" and "\<not> infinite_materials p" and "\<not> splits_itself R p i w m"
  shows "\<exists>m'. do_swap R p i w m = Some m' \<and> keeps R p m m'"
proof -
  let ?sl = "m_slots m ! i" and ?inv = "inventory_place p w :: 'a menu_slot" and ?cs = "store m"
  let ?t = "slot_get ?sl ?cs" and ?s = "slot_get ?inv ?cs"
  let ?max = "get_max_stack_size_for_item R ?sl ?s"
  have i: "i < length (m_slots m)" using assms(2) by (cases w) auto
  note same = keeps_refl [OF assms(1)] and l = menu_bounds(2) [OF assms(1)]
  note ws = slots_wired [OF assms(1) i] and wi = inventory_wired [OF assms(1,2)]
  note bt = loose_bounds [OF l ws] and bs = loose_bounds [OF l wi]
  have eq: "?t = ?s" if "same_place ?sl ?inv" using that by (simp add: same_place_def slot_get_def)
  obtain a r where sp: "split_stack ?max ?s = (a, r)" by fastforce
  have "0 \<le> ?max" if "\<not> is_empty_stack ?s" using assms(1) i item_in_range [OF bs(1)] that
    by (auto simp: menu_ok_def slots_ok_def list_all_length is_empty_stack_def get_max_stack_size_for_item_def CONTAINER_MAX_STACK_SIZE_def split: option.split)
  moreover have "st_count ?s \<le> few" using bs by linarith
  ultimately have s: "stack_ok R a" "stack_ok R r" "\<And>K. amount R K a + amount R K r = amount R K ?s" if "\<not> is_empty_stack ?s"
    using split_spec [OF bs(1) _ _ sp] that by blast+
  have ek: "is_empty_stack x \<Longrightarrow> amount R K x = 0" for x K by (simp add: amount_def)
  note put = keeps_put_two [OF assms(1) ws wi]
  show ?thesis
  proof (cases "same_place ?sl ?inv")
    case True
    have back': "slot_put ?sl ?s (slot_put ?inv ?t ?cs) = ?cs"
      using True ws eq [OF True] by (simp add: slot_put_def slot_get_def same_place_def wired_def)
    have "is_empty_stack ?s \<or> \<not> ?max < st_count ?s" using assms(4) True eq [OF True] by (simp add: splits_itself_def)
    then show ?thesis using same back' eq [OF True] by (auto simp: do_swap_def Let_def)
  next
    case False
    show ?thesis
    proof (cases "is_empty_stack ?s")
      case True
      then show ?thesis using same put [OF False stack_ok_empty(1) bt(1)] ek by (auto simp: do_swap_def Let_def)
    next
      case source: False
      note ss = s [OF source]
      have over: "\<exists>m'. (case inventory_add R (selected_slot p) (slot_put ?sl a (slot_put ?inv r ?cs) ! inventory_id p) ?t of
        None \<Rightarrow> None
      | Some (added, items, displaced) \<Rightarrow>
          (let m1 = m\<lparr>store := (slot_put ?sl a (slot_put ?inv r ?cs))[inventory_id p := items]\<rparr>
           in Some (if \<not> added \<and> \<not> infinite_materials p then drop_item displaced m1 else m1))) = Some m' \<and> keeps R p m m'"
      proof (rule displace_keeps [OF assms(1,3) bt(1) put_two(1) [OF assms(1) ws wi False ss(1,2)]])
        show "held_in R K (slot_put ?sl a (slot_put ?inv r ?cs)) + amount R K ?t = held_in R K ?cs" for K
          using put_two(2) [OF assms(1) ws wi False ss(1,2), where K = K] ss(3) [of K] by linarith
      qed simp
      show ?thesis
      proof (cases "is_empty_stack ?t")
        case True
        then show ?thesis using same source put [OF False bs(1) stack_ok_empty(1)] put [OF False ss(1,2)] ss(3) sp ek by (auto simp: do_swap_def Let_def)
      next
        case target: False
        show ?thesis
        proof (cases "?max < st_count ?s")
          case True
          then show ?thesis using same source target over sp by (simp add: do_swap_def Let_def)
        next
          case fits: False
          then show ?thesis using same source target put [OF False bs(1) bt(1)] by (auto simp: do_swap_def Let_def add.commute)
        qed
      qed
    qed
  qed
qed

section \<open>Every click\<close>

lemma clicked_keeps:
  assumes "menu_ok R p m" and "routes_ok (length (m_slots m)) (routes hooks)" and "\<not> creative_mode p" and "\<not> infinite_materials p"
    and "\<And>s w. c = Swap s w \<Longrightarrow> \<not> splits_itself R p s w m" and "nat (item_total R (\<lambda>_. True) m) + 1 < fuel"
  shows "\<exists>m'. clicked fuel R hooks p c m = Some m' \<and> keeps R p m m'"
proof (cases "is_valid_for (length (m_slots m)) c")
  case False
  then show ?thesis using keeps_refl [OF assms(1)] by (simp add: clicked_def)
next
  case valid: True
  let ?m1 = "if quickcraft m \<noteq> None then reset_quick_craft m else m"
  have k: "keeps R p m ?m1" using reset_keeps [OF assms(1)] keeps_refl [OF assms(1)] by simp
  have m1: "menu_ok R p ?m1" "m_slots ?m1 = m_slots m" "item_total R (\<lambda>_. True) ?m1 = item_total R (\<lambda>_. True) m" "store ?m1 = store m"
    using k by (simp_all add: keeps_def reset_quick_craft_def)
  have step: "\<exists>m'. X = Some m' \<and> keeps R p m m'" if "\<exists>m'. X = Some m' \<and> keeps R p ?m1 m'" for X
    using that keeps_trans [OF k] by blast
  show ?thesis
  proof (cases c)
    case (Pickup s b)
    then show ?thesis using valid step [of "Some (do_pickup R s b ?m1)"] do_pickup_keeps [OF m1(1), of s b] m1(2) by (simp add: clicked_def Let_def)
  next
    case (DropCarried b)
    then show ?thesis using valid step [of "Some (drop_carried b ?m1)"] drop_carried_keeps [OF m1(1), of b] by (simp add: clicked_def Let_def)
  next
    case (QuickMove s)
    then show ?thesis using valid step [of "do_quick_move fuel R hooks s ?m1"] do_quick_move_spec [OF m1(1), of s hooks fuel] assms(2,6) m1(2,3)
      by (simp add: clicked_def Let_def)
  next
    case (Swap s w)
    have "\<not> splits_itself R p s w ?m1" using assms(5) [OF Swap] m1(2,4) by (simp add: splits_itself_def)
    then show ?thesis using Swap valid step [of "do_swap R p s w ?m1"] do_swap_keeps [OF m1(1), of s w] assms(4) m1(2) by (simp add: clicked_def Let_def)
  next
    case (Clone s)
    then show ?thesis using valid k assms(3) by (simp add: clicked_def Let_def do_clone_def)
  next
    case (Throw s whole)
    then show ?thesis using valid step [of "do_throw fuel (can_drop_items p) s whole ?m1"] do_throw_spec [OF m1(1), of s fuel "can_drop_items p" whole] assms(6) m1(2)
      by (simp add: clicked_def Let_def)
  next
    case (PickupAll s direction)
    then show ?thesis using valid step [of "Some (do_pickup_all R hooks s direction ?m1)"] do_pickup_all_keeps [OF m1(1), of hooks s direction] by (simp add: clicked_def Let_def)
  next
    case (QuickCraft action)
    then show ?thesis using valid do_quick_craft_keeps [OF assms(1,3), of action hooks] by (simp add: clicked_def)
  qed
qed

text \<open>
  C19. For a player who is neither in creative mode nor has infinite materials, every click on a
  well-formed menu other than a swap key over its own, over-full place returns (no panic, and the loops of
  shift-clicking and throwing end within a number of rounds bounded by the items in play), leaves
  the menu well-formed, and neither creates nor destroys an item: for every choice of kinds the
  items in the containers, on the cursor, dropped into the world and refused by it stay as many.
  If the world refuses no item entity, nothing joins the refused ones.
\<close>
theorem clicks_conserve_items:
  assumes "menu_ok R p m" and "routes_ok (length (m_slots m)) (routes hooks)" and "\<not> creative_mode p" and "\<not> infinite_materials p"
    and "\<And>s w. c = Swap s w \<Longrightarrow> \<not> splits_itself R p s w m" and "nat (item_total R (\<lambda>_. True) m) + 1 < fuel"
  shows "\<exists>m'. clicked fuel R hooks p c m = Some m' \<and> menu_ok R p m' \<and> m_slots m' = m_slots m \<and> (\<forall>K. item_total R K m' = item_total R K m)
    \<and> ((\<forall>n. try_add_entity m n) \<longrightarrow> lost m' = lost m)"
  using clicked_keeps [OF assms, of c] unfolding keeps_def by blast

text \<open>
  A registry whose items stack to 64, apart from a tool with a damage bar, and a menu over a player
  inventory with the given stacks at its first places.
\<close>

definition plain_registry :: "int item_registry" where
  "plain_registry = \<lparr>prototype = (\<lambda>i. if i = 3 then [(MAX_STACK_SIZE, 1), (MAX_DAMAGE, 2031), (DAMAGE, 0)] else [(MAX_STACK_SIZE, 64)]), as_integer = Some\<rparr>"

definition survivor :: player_view where
  "survivor = \<lparr>inventory_id = 0, selected_slot = 0, creative_mode = False, infinite_materials = False, can_drop_items = True\<rparr>"

definition plain_menu :: "int item_stack list \<Rightarrow> int item_stack \<Rightarrow> int menu" where
  "plain_menu stacks held =
     \<lparr>m_slots = map (normal_slot 0) [0..<CONTAINER_SIZE], store = [stacks @ replicate (CONTAINER_SIZE - length stacks) empty_stack], carried = held,
      quickcraft = None, quickcraft_slots = [], dropped = [], lost = [], try_add_entity = (\<lambda>_. True)\<rparr>"

definition plain_kind :: "int menu_kind" where
  "plain_kind = \<lparr>can_drag_to = (\<lambda>_. True), can_take_item_for_pick_all = (\<lambda>_ _. True),
     routes = [\<lparr>from_start = 0, from_limit = 9, targets = [(9, 36)], route_direction = Forward\<rparr>]\<rparr>"

lemma plain_ok: "0 \<le> n \<Longrightarrow> i \<noteq> AIR \<Longrightarrow> stack_ok plain_registry (with_count i n)"
  by (simp add: stack_ok_def in_range_def plain_registry_def max_stack_size_def get_max_damage_def get_integer_def get_effective_value_raw_def with_count_def)

lemma plain_total: "item_total R K (plain_menu stacks held) = stored R K stacks + amount R K held"
  by (simp add: item_total_def plain_menu_def held_in_def stored_def sum_list_replicate)

lemma plain_menu_ok:
  assumes "list_all (stack_ok R) stacks" and "stack_ok R held" and "length stacks \<le> 43" and "2 * (stored R (\<lambda>_. True) stacks + st_count held) \<le> few"
  shows "menu_ok R survivor (plain_menu stacks held)"
  unfolding menu_ok_def plain_total using assms
  by (auto simp: plain_menu_def survivor_def store_ok_def slots_ok_def list_all_iff wired_def normal_slot_def CONTAINER_SIZE_def amount_ok)

theorem clicks_conserve_items_witness:
  "\<exists>m'. clicked 100 plain_registry plain_kind survivor (QuickMove 0) (plain_menu [with_count 1 40] empty_stack) = Some m'
     \<and> (\<forall>K. item_total plain_registry K m' = item_total plain_registry K (plain_menu [with_count 1 40] empty_stack))"
proof -
  have 1: "menu_ok plain_registry survivor (plain_menu [with_count 1 40] empty_stack)"
    by (rule plain_menu_ok) (simp_all add: plain_ok AIR_def, simp_all add: with_count_def AIR_def few_def stored_def amount_def is_empty_stack_def)
  have 2: "routes_ok (length (m_slots (plain_menu [with_count 1 40] empty_stack))) (routes plain_kind)"
    by (simp add: routes_ok_def plain_kind_def plain_menu_def CONTAINER_SIZE_def)
  have 3: "nat (item_total plain_registry (\<lambda>_. True) (plain_menu [with_count 1 40] empty_stack)) + 1 < 100"
    by (simp add: plain_total stored_def amount_def is_empty_stack_def with_count_def AIR_def)
  have 4: "\<not> creative_mode survivor" "\<not> infinite_materials survivor" by (simp_all add: survivor_def)
  from clicks_conserve_items [OF 1 2 4 _ 3, of "QuickMove 0"] show ?thesis by auto
qed

text \<open>
  C30. A swap key pressed over its own place duplicates items when the stack there is larger than
  the slot takes, for a player without infinite materials in a well-formed menu, provided that the
  slot lets go of that stack and accepts it: the part split off overwrites the rest, and the stack
  as it was is added to the inventory again, so the menu ends up with as many items more as the slot
  takes, none of which is lost if the world accepts what does not fit.
\<close>
theorem swap_over_itself_duplicates:
  assumes "menu_ok R p m" and "is_valid_for (length (m_slots m)) (Swap i w)" and "\<not> infinite_materials p" and "splits_itself R p i w m"
    and "may_pickup (m_slots m ! i) (store m)" and "may_place (m_slots m ! i) (slot_get (m_slots m ! i) (store m))"
  shows "\<exists>m'. do_swap R p i w m = Some m'
    \<and> item_total R (\<lambda>_. True) m' = item_total R (\<lambda>_. True) m + get_max_stack_size_for_item R (m_slots m ! i) (slot_get (m_slots m ! i) (store m))
    \<and> ((\<forall>n. try_add_entity m n) \<longrightarrow> lost m' = lost m)"
proof -
  let ?sl = "m_slots m ! i" and ?inv = "inventory_place p w :: 'a menu_slot" and ?cs = "store m"
  let ?t = "slot_get ?sl ?cs"
  let ?max = "get_max_stack_size_for_item R ?sl ?t"
  have i: "i < length (m_slots m)" using assms(2) by (cases w) auto
  note l = menu_bounds(2) [OF assms(1)] and ws = slots_wired [OF assms(1) i]
  note bt = loose_bounds [OF l ws]
  have same: "slot_container ?sl = slot_container ?inv" "slot_place ?sl = slot_place ?inv" and over: "?max < st_count ?t"
    using assms(4) by (simp_all add: splits_itself_def same_place_def)
  then have eq: "slot_get ?inv ?cs = ?t" "\<And>x cs. slot_put ?inv x cs = slot_put ?sl x cs" by (simp_all add: slot_get_def slot_put_def)
  have ne: "\<not> is_empty_stack ?t" using assms(4) by (simp add: splits_itself_def)
  then have max: "0 \<le> ?max" using assms(1) i item_in_range [OF bt(1)]
    by (auto simp: menu_ok_def slots_ok_def list_all_length is_empty_stack_def get_max_stack_size_for_item_def CONTAINER_MAX_STACK_SIZE_def split: option.split)
  obtain a r where sp: "split_stack ?max ?t = (a, r)" by fastforce
  have "st_count ?t \<le> few" using bt by linarith
  note s = split_spec [OF bt(1) max this sp]
  let ?cs1 = "slot_put ?sl a ?cs"
  have held: "held_in R (\<lambda>_. True) ?cs1 = held_in R (\<lambda>_. True) ?cs - st_count ?t + ?max"
    using held_put [OF ws, of R "\<lambda>_. True" a] s(1,4) bt(1) over by (simp add: amount_ok)
  have ok: "store_ok R ?cs1" using assms(1) s(1) ws by (simp add: menu_ok_def store_ok_put)
  have "held_in R (\<lambda>_. True) ?cs1 + st_count ?t \<le> few" using held over menu_bounds(1,4) [OF assms(1)] slot_get_le [where R = R, OF _ ws] assms(1) by (simp add: menu_ok_def)
  from displace_spec [OF assms(1) bt(1) ok _ this] obtain items d where
    add: "inventory_add R (selected_slot p) (?cs1 ! inventory_id p) ?t = Some (is_empty_stack d, items, d)"
      "\<forall>K. held_in R K (?cs1[inventory_id p := items]) + amount R K d = held_in R K ?cs1 + amount R K ?t" by auto
  let ?m' = "drop_item d (m\<lparr>store := ?cs1[inventory_id p := items]\<rparr>)"
  have run: "do_swap R p i w m = Some ?m'"
    using assms(3,5,6) eq ne over sp add(1) slot_put_twice [OF ws] by (simp add: do_swap_def Let_def drop_item_def)
  have "item_total R (\<lambda>_. True) ?m' = held_in R (\<lambda>_. True) (?cs1[inventory_id p := items]) + amount R (\<lambda>_. True) d + amount R (\<lambda>_. True) (carried m) + stored R (\<lambda>_. True) (dropped m) + stored R (\<lambda>_. True) (lost m)"
    by (simp add: item_total_def drop_item_def stored_def amount_def [of R _ d])
  also have "\<dots> = item_total R (\<lambda>_. True) m + ?max" using spec [OF add(2), of "\<lambda>_. True"] held amount_ok [OF bt(1)] by (simp add: item_total_def)
  finally have "item_total R (\<lambda>_. True) ?m' = item_total R (\<lambda>_. True) m + ?max" .
  moreover have "(\<forall>n. try_add_entity m n) \<longrightarrow> lost ?m' = lost m" by (simp add: drop_item_def)
  ultimately show ?thesis using run by blast
qed

theorem swap_over_itself_duplicates_witness:
  "\<exists>m'. do_swap plain_registry survivor 0 (Hotbar 0) (plain_menu [with_count 1 99] empty_stack) = Some m' \<and> item_total plain_registry (\<lambda>_. True) m' = 163"
proof -
  let ?m = "plain_menu [with_count 1 99] empty_stack"
  have 1: "menu_ok plain_registry survivor ?m"
    by (rule plain_menu_ok) (simp_all add: plain_ok AIR_def, simp_all add: with_count_def AIR_def few_def stored_def amount_def is_empty_stack_def)
  have slot: "m_slots ?m ! 0 = normal_slot 0 0" "slot_get (m_slots ?m ! 0) (store ?m) = with_count 1 99" "length (m_slots ?m) = 43"
    by (simp_all add: plain_menu_def CONTAINER_SIZE_def slot_get_def normal_slot_def)
  have max: "get_max_stack_size_for_item plain_registry (m_slots ?m ! 0) (slot_get (m_slots ?m ! 0) (store ?m)) = 64"
    unfolding slot(2) unfolding slot(1) by (simp add: get_max_stack_size_for_item_def normal_slot_def CONTAINER_MAX_STACK_SIZE_def max_stack_size_def get_integer_def get_effective_value_raw_def plain_registry_def with_count_def)
  have 2: "splits_itself plain_registry survivor 0 (Hotbar 0) ?m"
    unfolding splits_itself_def max unfolding slot(2) unfolding slot(1) by (simp add: same_place_def inventory_place_def normal_slot_def survivor_def with_count_def is_empty_stack_def AIR_def)
  have 3: "may_pickup (m_slots ?m ! 0) (store ?m)" "may_place (m_slots ?m ! 0) (slot_get (m_slots ?m ! 0) (store ?m))" unfolding slot(2) unfolding slot(1) by (simp_all add: normal_slot_def)
  have tot: "item_total plain_registry (\<lambda>_. True) ?m = 99" by (simp add: plain_total stored_def amount_def is_empty_stack_def with_count_def AIR_def)
  have 4: "is_valid_for (length (m_slots ?m)) (Swap 0 (Hotbar 0))" "\<not> infinite_materials survivor" unfolding slot(3) by (simp_all add: survivor_def)
  from swap_over_itself_duplicates [OF 1 4 2 3] show ?thesis unfolding max tot by auto
qed

lemma parse_valid: "click_parse slot_num button t n = Some c \<Longrightarrow> is_valid_for n c"
  by (cases t) (auto simp: click_parse_def Let_def Option.bind_eq_Some_conv split: if_splits)

text \<open>
  C31. A click packet that parses is a click of this menu: the slot it names exists, and a swap names
  one of the nine hotbar places or the offhand. What the parser returns is never ignored by the menu.
\<close>
theorem parsed_click_is_valid:
  assumes "click_parse slot_num button t n = Some c"
  shows "is_valid_for n c"
  by (rule parse_valid [OF assms])

theorem parsed_click_is_valid_witness:
  "click_parse 5 40 CtSwap 46 = Some (Swap 5 Offhand) \<and> is_valid_for 46 (Swap 5 Offhand)"
proof -
  have "click_parse 5 40 CtSwap 46 = Some (Swap 5 Offhand)" by (simp add: click_parse_def)
  then show ?thesis using parsed_click_is_valid by blast
qed

end
