(* ===== verification/Menu_Session.thy ===== *)
theory Menu_Session
  imports Menu_Clicks
begin

text \<open>
  A menu over its life with a client (\<open>steel-core/src/inventory/menu/behavior.rs\<close>, \<open>menu/mod.rs\<close>,
  \<open>menu/layout.rs\<close> and the click and close handlers of \<open>player/player_inventory/player_handlers.rs\<close>):
  what the server believes the client shows, the packets that correct it, the handling of a click
  packet, and what happens to the items when the menu is closed. The numbers of the component types
  and the hash of a component value are parameters. The packets sent are collected; slots are not
  fake. A menu number and a state number are integers of the width the code casts to.
\<close>

section \<open>What the client reports\<close>

record hashed_patch =
  added_components :: "(int \<times> int) list"
  removed_components :: "int list"

datatype hashed_stack = HashedEmpty | HashedItem int int hashed_patch

record 'v component_registry =
  id_from_key :: "component_key \<Rightarrow> int option"
  key_by_id :: "int \<Rightarrow> component_key option"
  compute_hash :: "component_key \<Rightarrow> 'v \<Rightarrow> int option"

definition local_removed :: "'v component_registry \<Rightarrow> (component_key \<times> 'v option) list \<Rightarrow> int set" where
  "local_removed G patch = set (List.map_filter (\<lambda>(key, entry). if entry = None then id_from_key G key else None) patch)"

definition set_entry_matches :: "'v component_registry \<Rightarrow> hashed_patch \<Rightarrow> component_key \<times> 'v option \<Rightarrow> bool" where
  "set_entry_matches G hashed e =
     (case e of
        (key, None) \<Rightarrow> True
      | (key, Some v) \<Rightarrow>
          (case id_from_key G key of
             None \<Rightarrow> True
           | Some i \<Rightarrow>
               (case map_of (added_components hashed) i of
                  None \<Rightarrow> False
                | Some expected \<Rightarrow> key_by_id G i \<noteq> None \<and> compute_hash G key v = Some expected)))"

definition validate_component_hashes :: "'v component_registry \<Rightarrow> hashed_patch \<Rightarrow> (component_key \<times> 'v option) list \<Rightarrow> bool" where
  "validate_component_hashes G hashed patch \<longleftrightarrow>
     local_removed G patch = set (removed_components hashed)
     \<and> list_all (set_entry_matches G hashed) patch
     \<and> list_all (\<lambda>(i, _). case key_by_id G i of
                     None \<Rightarrow> False
                   | Some key \<Rightarrow> (case map_of patch key of Some (Some _) \<Rightarrow> True | _ \<Rightarrow> False)) (added_components hashed)"

definition hashed_stack_matches :: "'v component_registry \<Rightarrow> hashed_stack \<Rightarrow> 'v item_stack \<Rightarrow> bool" where
  "hashed_stack_matches G h s =
     (case h of
        HashedEmpty \<Rightarrow> is_empty_stack s
      | HashedItem item_id n components \<Rightarrow>
          \<not> is_empty_stack s \<and> int (st_item s) = item_id \<and> st_count s = n \<and> validate_component_hashes G components (st_patch s))"

section \<open>What the server believes\<close>

datatype 'v remote_slot = Unknown | Known "'v item_stack" | Hashed hashed_stack

definition remote_matches :: "'v item_registry \<Rightarrow> 'v component_registry \<Rightarrow> 'v remote_slot \<Rightarrow> 'v item_stack \<Rightarrow> bool" where
  "remote_matches R G r s = (case r of Unknown \<Rightarrow> False | Known k \<Rightarrow> stacks_match R k s | Hashed h \<Rightarrow> hashed_stack_matches G h s)"

record 'v remote =
  remote_slots :: "'v remote_slot list"
  remote_carried :: "'v remote_slot"
  container_id :: int
  state_id :: nat
  suppressed :: bool
  data_slots :: "int list"
  remote_data_slots :: "int list"

datatype 'v packet =
  SetContent int int "'v item_stack list" "'v item_stack"
| SetSlot int int int "'v item_stack"
| SetCursor "'v item_stack"
| SetData int int int

definition wrap_i16 :: "int \<Rightarrow> int" where
  "wrap_i16 x = signed_take_bit 15 x"

definition increment_state_id :: "'v remote \<Rightarrow> 'v remote" where
  "increment_state_id y = y\<lparr>state_id := ((state_id y + 1) mod 2 ^ 32) AND 0x7FFF\<rparr>"

definition slot_items :: "'v menu \<Rightarrow> 'v item_stack list" where
  "slot_items m = map (\<lambda>sl. slot_get sl (store m)) (m_slots m)"

definition set_data_packet :: "'v remote \<Rightarrow> nat \<Rightarrow> 'v packet" where
  "set_data_packet y i = SetData (container_id y) (wrap_i16 (int i)) (data_slots y ! i)"

definition send_all_data_to_remote :: "'v menu \<Rightarrow> 'v remote \<Rightarrow> 'v remote \<times> 'v packet list" where
  "send_all_data_to_remote m y =
     (let items = slot_items m;
          y1 = increment_state_id y;
          y2 = y1\<lparr>remote_slots := map Known (take (length (remote_slots y)) items) @ drop (length items) (remote_slots y),
                  remote_carried := Known (carried m)\<rparr>;
          n = length (data_slots y)
      in (y2\<lparr>remote_data_slots := data_slots y @ drop n (remote_data_slots y)\<rparr>,
          SetContent (container_id y) (wrap_i32 (int (state_id y1))) items (carried m) # map (set_data_packet y) [0..<n]))"

definition synchronize_slot_to_remote :: "nat \<Rightarrow> 'v item_stack \<Rightarrow> 'v remote \<times> 'v packet list \<Rightarrow> 'v remote \<times> 'v packet list" where
  "synchronize_slot_to_remote i s = (\<lambda>(y, out).
     if suppressed y then (y, out)
     else
       (let y1 = increment_state_id y
        in (y1\<lparr>remote_slots := (remote_slots y)[i := Known s]\<rparr>,
            out @ [SetSlot (container_id y) (wrap_i32 (int (state_id y1))) (wrap_i16 (int i)) s])))"

definition synchronize_carried_to_remote :: "'v item_stack \<Rightarrow> 'v remote \<times> 'v packet list \<Rightarrow> 'v remote \<times> 'v packet list" where
  "synchronize_carried_to_remote s = (\<lambda>(y, out).
     if suppressed y then (y, out) else (y\<lparr>remote_carried := Known s\<rparr>, out @ [SetCursor s]))"

definition synchronize_data_slot_to_remote :: "nat \<Rightarrow> 'v remote \<times> 'v packet list \<Rightarrow> 'v remote \<times> 'v packet list" where
  "synchronize_data_slot_to_remote i = (\<lambda>(y, out).
     if suppressed y \<or> length (data_slots y) \<le> i then (y, out)
     else if data_slots y ! i \<noteq> remote_data_slots y ! i
     then (y\<lparr>remote_data_slots := (remote_data_slots y)[i := data_slots y ! i]\<rparr>, out @ [set_data_packet y i])
     else (y, out))"

text \<open>A matching hash becomes the stack it matched.\<close>

definition settle :: "'v item_registry \<Rightarrow> 'v component_registry \<Rightarrow> 'v item_stack \<Rightarrow> 'v remote_slot \<Rightarrow> 'v remote_slot" where
  "settle R G s r = (case r of Hashed _ \<Rightarrow> if remote_matches R G r s then Known s else r | _ \<Rightarrow> r)"

definition broadcast_changes :: "'v item_registry \<Rightarrow> 'v component_registry \<Rightarrow> 'v menu \<Rightarrow> 'v remote \<Rightarrow> 'v remote \<times> 'v packet list" where
  "broadcast_changes R G m y =
     (let items = slot_items m;
          changed = filter (\<lambda>(i, s). \<not> remote_matches R G (remote_slots y ! i) s) (enumerate 0 items);
          y1 = y\<lparr>remote_slots := map (\<lambda>(i, s). settle R G s (remote_slots y ! i)) (enumerate 0 items) @ drop (length items) (remote_slots y)\<rparr>;
          (y2, out) = fold (\<lambda>(i, s). synchronize_slot_to_remote i s) changed (y1, []);
          (y3, out') = (if remote_matches R G (remote_carried y2) (carried m)
                        then (y2\<lparr>remote_carried := settle R G (carried m) (remote_carried y2)\<rparr>, out)
                        else synchronize_carried_to_remote (carried m) (y2, out))
      in fold synchronize_data_slot_to_remote [0..<length (data_slots y)] (y3, out'))"

definition set_remote_slot :: "int \<Rightarrow> hashed_stack \<Rightarrow> 'v remote \<Rightarrow> 'v remote" where
  "set_remote_slot i h y =
     (if 0 \<le> i \<and> nat i < length (remote_slots y) then y\<lparr>remote_slots := (remote_slots y)[nat i := Hashed h]\<rparr> else y)"

definition set_remote_carried :: "hashed_stack \<Rightarrow> 'v remote \<Rightarrow> 'v remote" where
  "set_remote_carried h y = y\<lparr>remote_carried := Hashed h\<rparr>"

section \<open>Click packets\<close>

record container_click =
  packet_state_id :: int
  slot_num :: int
  button_num :: int
  packet_click_type :: click_type
  changed_slots :: "(int \<times> hashed_stack) list"
  carried_item :: hashed_stack

text \<open>
  \<open>absent\<close> says that the player is a spectator or has no health left, \<open>still_valid\<close> is the answer of
  the kind of the menu. A negative slot number of \<open>changed_slots\<close> is far out of range as a \<open>usize\<close>.
\<close>

definition process_container_click ::
  "nat \<Rightarrow> 'v item_registry \<Rightarrow> 'v component_registry \<Rightarrow> 'v menu_kind \<Rightarrow> player_view \<Rightarrow> bool \<Rightarrow> bool \<Rightarrow> container_click \<Rightarrow> 'v menu \<Rightarrow> 'v remote
     \<Rightarrow> ('v menu \<times> 'v remote \<times> 'v packet list) option" where
  "process_container_click fuel R G hooks p absent still_valid packet m y =
     (if absent then (case send_all_data_to_remote m y of (y', out) \<Rightarrow> Some (m, y', out))
      else if \<not> still_valid then Some (m, y, [])
      else if \<not> (slot_num packet < 0 \<or> nat (slot_num packet) < length (m_slots m)) then Some (m, y, [])
      else
        (let c = click_parse (slot_num packet) (button_num packet) (packet_click_type packet) (length (m_slots m));
             m1 = (if c = None \<and> (packet_click_type packet \<noteq> CtQuickCraft \<or> button_num packet AND 3 = 3
                                  \<or> button_num packet AND 3 = 0 \<and> drop_bit 2 (button_num packet) AND 3 = 3)
                   then reset_quick_craft m else m);
             full_resync_needed = (nat (packet_state_id packet mod 2 ^ 32) \<noteq> state_id y);
             y1 = y\<lparr>suppressed := True\<rparr>
         in case (case c of None \<Rightarrow> Some m1 | Some c' \<Rightarrow> clicked fuel R hooks p c' m1) of
              None \<Rightarrow> None
            | Some m2 \<Rightarrow>
                (let y2 = fold (\<lambda>(i, h). set_remote_slot i h) (changed_slots packet) y1;
                     y3 = (set_remote_carried (carried_item packet) y2)\<lparr>suppressed := False\<rparr>
                 in case (if full_resync_needed then send_all_data_to_remote m2 y3 else broadcast_changes R G m2 y3) of
                      (y4, out) \<Rightarrow> Some (m2, y4, out))))"

section \<open>Closing a menu\<close>

definition add_item_or_drop :: "'v item_registry \<Rightarrow> player_view \<Rightarrow> 'v item_stack \<Rightarrow> 'v menu \<Rightarrow> 'v menu option" where
  "add_item_or_drop R p item m =
     (if is_empty_stack item then Some m
      else
        (case inventory_add R (selected_slot p) (store m ! inventory_id p) item of
           None \<Rightarrow> None
         | Some (added, items, rest) \<Rightarrow>
             (let m1 = m\<lparr>store := (store m)[inventory_id p := items]\<rparr>
              in Some (if \<not> added \<or> \<not> is_empty_stack rest then drop_item rest m1 else m1))))"

fun return_drained_items :: "'v item_registry \<Rightarrow> player_view \<Rightarrow> bool \<Rightarrow> nat list \<Rightarrow> 'v menu \<Rightarrow> 'v menu option" where
  "return_drained_items R p return_to_inventory [] m = Some m"
| "return_drained_items R p return_to_inventory (i # is) m =
     (let sl = m_slots m ! i; item = slot_get sl (store m); m1 = m\<lparr>store := slot_put sl empty_stack (store m)\<rparr>
      in if is_empty_stack item then return_drained_items R p return_to_inventory is m1
         else
           (case (if return_to_inventory then add_item_or_drop R p item m1 else Some (drop_item item m1)) of
              None \<Rightarrow> None
            | Some m2 \<Rightarrow> return_drained_items R p return_to_inventory is m2))"

text \<open>\<open>drained\<close> lists the slots of the input sections.\<close>

definition menu_removed :: "'v item_registry \<Rightarrow> player_view \<Rightarrow> bool \<Rightarrow> nat list \<Rightarrow> 'v menu \<Rightarrow> 'v menu option" where
  "menu_removed R p return_to_inventory drained m =
     (let held = carried m; m1 = m\<lparr>carried := empty_stack\<rparr>
      in case (if is_empty_stack held then Some m1
               else if return_to_inventory then add_item_or_drop R p held m1
               else Some (drop_item held m1)) of
           None \<Rightarrow> None
         | Some m2 \<Rightarrow> return_drained_items R p return_to_inventory drained m2)"

section \<open>Closing keeps the items\<close>

lemma item_total_drop: "item_total R K (drop_item t m) = item_total R K m + amount R K t"
  by (simp add: item_total_def drop_item_def stored_def amount_def [of _ _ t])

text \<open>Handing over a stack that was taken out of the menu.\<close>

lemma drop_taken:
  assumes "menu_ok R p m" and "stack_ok R t" and "store_ok R cs" and "stack_ok R c" and "map length cs = map length (store m)"
    and "\<And>K. held_in R K cs + amount R K c + amount R K t = held_in R K (store m) + amount R K (carried m)"
  shows "keeps R p m (drop_item t (m\<lparr>store := cs, carried := c\<rparr>))"
proof -
  let ?m' = "drop_item t (m\<lparr>store := cs, carried := c\<rparr>)"
  have i: "inventory_id p < length (store m)" using assms(1) by (simp add: menu_ok_def)
  have tot: "item_total R K ?m' = item_total R K m" for K unfolding item_total_drop using assms(6) [of K] by (simp add: item_total_def)
  have "menu_ok R p ?m'"
    unfolding menu_ok_def tot using assms slots_ok_shape [OF assms(5)] shape_nth [OF assms(5) i] by (auto simp: menu_ok_def drop_item_def)
  then show ?thesis using tot by (simp add: keeps_def) (simp add: drop_item_def)
qed

lemma add_item_or_drop_spec:
  assumes "menu_ok R p m" and "stack_ok R t" and "store_ok R cs" and "stack_ok R c" and "map length cs = map length (store m)"
    and "\<And>K. held_in R K cs + amount R K c + amount R K t = held_in R K (store m) + amount R K (carried m)"
  shows "\<exists>m'. add_item_or_drop R p t (m\<lparr>store := cs, carried := c\<rparr>) = Some m' \<and> keeps R p m m' \<and> carried m' = c
    \<and> (\<forall>sl. slot_container sl \<noteq> inventory_id p \<longrightarrow> slot_get sl (store m') = slot_get sl cs)"
proof (cases "is_empty_stack t")
  case True
  then show ?thesis using drop_taken [OF assms] by (simp add: add_item_or_drop_def drop_item_def)
next
  case False
  let ?i = "inventory_id p"
  have few: "held_in R (\<lambda>_. True) cs + st_count t \<le> few"
    using assms(6) [of "\<lambda>_. True"] menu_bounds(2) [OF assms(1)] assms(2,4) by (simp add: amount_ok loose_def stack_ok_def)
  from displace_spec [OF assms(1,2,3,5) few] obtain items d where
    add: "inventory_add R (selected_slot p) (cs ! ?i) t = Some (is_empty_stack d, items, d)" "stack_ok R d" "store_ok R (cs[?i := items])"
      "map length (cs[?i := items]) = map length (store m)" "\<And>K. held_in R K (cs[?i := items]) + amount R K d = held_in R K cs + amount R K t"
    by blast
  let ?m' = "drop_item d (m\<lparr>store := cs[?i := items], carried := c\<rparr>)"
  have "held_in R K (cs[?i := items]) + amount R K c + amount R K d = held_in R K (store m) + amount R K (carried m)" for K
    using add(5) [of K] assms(6) [of K] by simp
  then have "keeps R p m ?m'" by (rule drop_taken [OF assms(1) add(2,3) assms(4) add(4)])
  moreover have "add_item_or_drop R p t (m\<lparr>store := cs, carried := c\<rparr>) = Some ?m'"
    using False add(1) by (simp add: add_item_or_drop_def drop_item_def)
  moreover have "carried ?m' = c" "store ?m' = cs[?i := items]" by (simp_all add: drop_item_def)
  ultimately show ?thesis by (auto simp: slot_get_def)
qed

lemma return_drained_spec:
  assumes "menu_ok R p m" and "list_all (\<lambda>i. i < length (m_slots m)) is"
  shows "\<exists>m'. return_drained_items R p back' is m = Some m' \<and> keeps R p m m' \<and> carried m' = carried m
    \<and> (\<forall>sl. slot_container sl \<noteq> inventory_id p \<longrightarrow> is_empty_stack (slot_get sl (store m)) \<longrightarrow> is_empty_stack (slot_get sl (store m')))
    \<and> (\<forall>i \<in> set is. slot_container (m_slots m ! i) \<noteq> inventory_id p \<longrightarrow> is_empty_stack (slot_get (m_slots m ! i) (store m')))"
  using assms(1,2)
proof (induction "is" arbitrary: m)
  case Nil
  then show ?case using keeps_refl by auto
next
  case (Cons i "is")
  let ?sl = "m_slots m ! i"
  let ?t = "slot_get ?sl (store m)" and ?cs = "slot_put ?sl empty_stack (store m)"
  let ?m1 = "m\<lparr>store := ?cs\<rparr>"
  have i: "i < length (m_slots m)" using Cons.prems(2) by simp
  note w = slots_wired [OF Cons.prems(1) i]
  have ok: "store_ok R (store m)" "stack_ok R (carried m)" using Cons.prems(1) by (simp_all add: menu_ok_def)
  have t: "stack_ok R ?t" by (rule slot_get_ok [OF ok(1) w])
  have cs: "store_ok R ?cs" "map length ?cs = map length (store m)" using store_ok_put [OF ok(1) w] by simp_all
  have held: "held_in R K ?cs + amount R K (carried m) + amount R K ?t = held_in R K (store m) + amount R K (carried m)" for K
    using held_put [OF w, of R K empty_stack] by simp
  have put: "slot_get sl ?cs = (if same_place sl ?sl then empty_stack else slot_get sl (store m))" for sl by (rule slot_get_put [OF w])
  have "\<exists>m2. (if is_empty_stack ?t then Some ?m1 else if back' then add_item_or_drop R p ?t ?m1 else Some (drop_item ?t ?m1)) = Some m2
    \<and> keeps R p m m2 \<and> carried m2 = carried m \<and> (\<forall>sl. slot_container sl \<noteq> inventory_id p \<longrightarrow> slot_get sl (store m2) = slot_get sl ?cs)"
  proof (cases "\<not> is_empty_stack ?t \<and> back'")
    case True
    then show ?thesis using add_item_or_drop_spec [OF Cons.prems(1) t cs(1) ok(2) cs(2) held] by simp
  next
    case False
    have "keeps R p m (drop_item ?t ?m1)" using drop_taken [OF Cons.prems(1) t cs(1) ok(2) cs(2) held] by simp
    moreover have "drop_item ?t ?m1 = ?m1" if "is_empty_stack ?t" using that by (simp add: drop_item_def)
    ultimately show ?thesis using False by (cases "is_empty_stack ?t") (auto simp: drop_item_def)
  qed
  then obtain m2 where m2: "(if is_empty_stack ?t then Some ?m1 else if back' then add_item_or_drop R p ?t ?m1 else Some (drop_item ?t ?m1)) = Some m2"
    "keeps R p m m2" "carried m2 = carried m" "\<And>sl. slot_container sl \<noteq> inventory_id p \<Longrightarrow> slot_get sl (store m2) = slot_get sl ?cs" by blast
  have step: "return_drained_items R p back' (i # is) m = return_drained_items R p back' is m2"
    using m2(1) by (simp add: Let_def split: if_splits)
  have ok2: "menu_ok R p m2" "m_slots m2 = m_slots m" using m2(2) by (simp_all add: keeps_def)
  from Cons.IH [OF ok2(1)] Cons.prems(2) ok2(2) obtain m' where
    m': "return_drained_items R p back' is m2 = Some m'" "keeps R p m2 m'" "carried m' = carried m2"
      "\<And>sl. slot_container sl \<noteq> inventory_id p \<Longrightarrow> is_empty_stack (slot_get sl (store m2)) \<Longrightarrow> is_empty_stack (slot_get sl (store m'))"
      "\<And>i. i \<in> set is \<Longrightarrow> slot_container (m_slots m ! i) \<noteq> inventory_id p \<Longrightarrow> is_empty_stack (slot_get (m_slots m ! i) (store m'))" by auto
  have later: "is_empty_stack (slot_get sl (store m'))" if "slot_container sl \<noteq> inventory_id p" "same_place sl ?sl \<or> is_empty_stack (slot_get sl (store m))" for sl
    using m'(4) [OF that(1)] m2(4) [OF that(1)] put [of sl] that(2) by auto
  have "same_place ?sl ?sl" by (simp add: same_place_def)
  then show ?case unfolding step using m' m2(3) keeps_trans [OF m2(2) m'(2)] later by auto
qed

text \<open>
  C22. Closing a menu hands everything back: the call returns, the cursor ends up empty, every input
  slot outside the player inventory is empty, and of every kind the containers, the dropped items
  and those whose item entity the world refused hold together what containers, cursor, dropped
  and refused items held before. So the only way to lose an item is a refused entity, whose failure
  the code ignores; if the world refuses none, nothing is lost.
\<close>
theorem closing_returns_items:
  assumes "menu_ok R p m" and "list_all (\<lambda>i. i < length (m_slots m)) drained"
  shows "\<exists>m'. menu_removed R p return_to_inventory drained m = Some m' \<and> menu_ok R p m' \<and> carried m' = empty_stack
    \<and> (\<forall>K. held_in R K (store m') + stored R K (dropped m') + stored R K (lost m') = item_total R K m)
    \<and> ((\<forall>n. try_add_entity m n) \<longrightarrow> lost m' = lost m)
    \<and> list_all (\<lambda>i. slot_container (m_slots m ! i) = inventory_id p \<or> is_empty_stack (slot_get (m_slots m ! i) (store m'))) drained"
proof -
  let ?m1 = "m\<lparr>carried := empty_stack\<rparr>"
  have ok: "store_ok R (store m)" "stack_ok R (carried m)" using assms(1) by (simp_all add: menu_ok_def)
  have held: "held_in R K (store m) + amount R K empty_stack + amount R K (carried m) = held_in R K (store m) + amount R K (carried m)" for K by simp
  obtain m2 where m2: "(if is_empty_stack (carried m) then Some ?m1 else if return_to_inventory then add_item_or_drop R p (carried m) ?m1 else Some (drop_item (carried m) ?m1)) = Some m2"
    "keeps R p m m2" "carried m2 = empty_stack"
  proof (cases "\<not> is_empty_stack (carried m) \<and> return_to_inventory")
    case True
    then show ?thesis
      using add_item_or_drop_spec [OF assms(1) ok(2,1) stack_ok_empty(1) refl held] that by auto
  next
    case False
    have "keeps R p m (drop_item (carried m) ?m1)" using drop_taken [OF assms(1) ok(2,1) stack_ok_empty(1) refl held] by simp
    then show ?thesis using False that [of "drop_item (carried m) ?m1"] by (cases "is_empty_stack (carried m)") (auto simp: drop_item_def)
  qed
  have ok2: "menu_ok R p m2" "m_slots m2 = m_slots m" using m2(2) by (simp_all add: keeps_def)
  from return_drained_spec [OF ok2(1)] assms(2) ok2(2) obtain m' where
    m': "return_drained_items R p return_to_inventory drained m2 = Some m'" "keeps R p m2 m'" "carried m' = carried m2"
      "\<forall>i \<in> set drained. slot_container (m_slots m ! i) \<noteq> inventory_id p \<longrightarrow> is_empty_stack (slot_get (m_slots m ! i) (store m'))" by metis
  have run: "menu_removed R p return_to_inventory drained m = Some m'" unfolding menu_removed_def Let_def m2(1) by (simp add: m'(1))
  have k: "menu_ok R p m'" "\<And>K. item_total R K m' = item_total R K m" "(\<forall>n. try_add_entity m n) \<longrightarrow> lost m' = lost m"
    using keeps_trans [OF m2(2) m'(2)] by (simp_all add: keeps_def)
  have "held_in R K (store m') + stored R K (dropped m') + stored R K (lost m') = item_total R K m" for K
    using k(2) [of K] m'(3) m2(3) by (simp add: item_total_def)
  then show ?thesis using run k(1,3) m'(3,4) m2(3) by (auto simp: list_all_iff)
qed

text \<open>A world that refuses the entity of what is dropped from the cursor of a disconnected player.\<close>

theorem closing_returns_items_witness:
  "\<exists>m'. menu_removed plain_registry survivor False [12] ((plain_menu [with_count 1 40] (with_count 2 7))\<lparr>try_add_entity := (\<lambda>_. False)\<rparr>) = Some m'
     \<and> carried m' = empty_stack
     \<and> held_in plain_registry (\<lambda>_. True) (store m') + stored plain_registry (\<lambda>_. True) (dropped m') + stored plain_registry (\<lambda>_. True) (lost m') = 47"
proof -
  let ?m = "plain_menu [with_count 1 40] (with_count 2 7)"
  let ?r = "?m\<lparr>try_add_entity := (\<lambda>_. False)\<rparr>"
  have "menu_ok plain_registry survivor ?m"
    by (rule plain_menu_ok) (simp_all add: plain_ok AIR_def, simp_all add: with_count_def AIR_def few_def stored_def amount_def is_empty_stack_def)
  then have 1: "menu_ok plain_registry survivor ?r" by (simp add: menu_ok_def item_total_def)
  have 2: "list_all (\<lambda>i. i < length (m_slots ?r)) [12]" by (simp add: plain_menu_def CONTAINER_SIZE_def)
  have "item_total plain_registry (\<lambda>_. True) ?r = item_total plain_registry (\<lambda>_. True) ?m" by (simp add: item_total_def)
  then have "item_total plain_registry (\<lambda>_. True) ?r = 47"
    by (simp add: plain_total stored_def amount_def is_empty_stack_def with_count_def AIR_def)
  with closing_returns_items [OF 1 2, of False] show ?thesis by auto
qed

section \<open>The record after a broadcast\<close>

lemma stacks_match_iff:
  "stacks_match R a b \<longleftrightarrow> is_empty_stack a \<and> is_empty_stack b \<or> \<not> is_empty_stack a \<and> \<not> is_empty_stack b \<and> st_count a = st_count b \<and> kind R a = kind R b"
proof (cases "is_empty_stack a \<or> is_empty_stack b")
  case True
  have "\<not> is_empty_stack s \<Longrightarrow> item_of s \<noteq> AIR" "is_empty_stack s \<Longrightarrow> item_of s = AIR" for s :: "'a item_stack" by (simp_all add: item_of_def is_empty_stack_def)
  from this [of a] this [of b] True show ?thesis by (auto simp: stacks_match_def is_same_item_same_components_def is_same_item_def count_of_def)
next
  case False
  then show ?thesis using same_iff_kind [of a b R] by (simp add: stacks_match_def count_of_def)
qed

lemma stacks_match_refl [simp]: "stacks_match R s s"
  by (auto simp: stacks_match_iff)

lemma remote_known [simp]: "remote_matches R G (Known s) s" "settle R G s (Known k) = Known k"
  by (simp_all add: remote_matches_def settle_def)

lemma settle_matches: "remote_matches R G r s \<Longrightarrow> remote_matches R G (settle R G s r) s"
  by (auto simp: settle_def remote_matches_def split: remote_slot.splits)

lemma settle_known: "remote_matches R G r s \<Longrightarrow> \<exists>k. settle R G s r = Known k"
  by (auto simp: settle_def remote_matches_def split: remote_slot.splits)

text \<open>Stores at the indices of a list of changes.\<close>

lemma fold_store_nth:
  assumes "distinct (map fst ch)" and "j < length xs"
  shows "fold (\<lambda>(i, s) xs. xs[i := f s]) ch xs ! j = (case map_of ch j of None \<Rightarrow> xs ! j | Some s \<Rightarrow> f s)"
  using assms
proof (induction ch arbitrary: xs)
  case (Cons e ch)
  obtain i s where e: "e = (i, s)" by (cases e)
  have "map_of ch i = None" using Cons.prems(1) e by (simp add: map_of_eq_None_iff)
  then show ?case using Cons.IH [of "xs[i := f s]"] Cons.prems e by (auto simp: nth_list_update split: option.split)
qed simp

lemma fold_store_length [simp]: "length (fold (\<lambda>(i, s) xs. xs[i := f s]) ch xs) = length xs"
  by (induction ch arbitrary: xs) (auto simp: split_def)

lemma map_of_enumerate_filter:
  "map_of (filter P (enumerate 0 xs)) j = (if j < length xs \<and> P (j, xs ! j) then Some (xs ! j) else None)"
proof -
  have d: "distinct (map fst (filter P (enumerate 0 xs)))" using distinct_map_filter [of fst "enumerate 0 xs" P] by simp
  show ?thesis
  proof (cases "j < length xs \<and> P (j, xs ! j)")
    case True
    then have "(j, xs ! j) \<in> set (filter P (enumerate 0 xs))" by (simp add: in_set_enumerate_eq)
    with map_of_is_SomeI [OF d] True show ?thesis by simp
  next
    case False
    then have "j \<notin> fst ` set (filter P (enumerate 0 xs))" by (auto simp: in_set_enumerate_eq)
    then have "map_of (filter P (enumerate 0 xs)) j = None" by (simp add: map_of_eq_None_iff)
    with False show ?thesis by simp
  qed
qed

definition same_but_slots :: "'v remote \<Rightarrow> 'v remote \<Rightarrow> bool" where
  "same_but_slots y y' \<longleftrightarrow> remote_carried y' = remote_carried y \<and> container_id y' = container_id y \<and> suppressed y' = suppressed y
     \<and> data_slots y' = data_slots y \<and> remote_data_slots y' = remote_data_slots y"

lemma fold_sync_slots:
  assumes "\<not> suppressed y" and "fold (\<lambda>(i, s). synchronize_slot_to_remote i s) ch (y, out) = (y', out')"
  shows "remote_slots y' = fold (\<lambda>(i, s) rs. rs[i := Known s]) ch (remote_slots y) \<and> same_but_slots y y'"
  using assms
proof (induction ch arbitrary: y out)
  case Nil
  then show ?case by (simp add: same_but_slots_def)
next
  case (Cons e ch)
  obtain i s where e: "e = (i, s)" by (cases e)
  show ?case using Cons.IH [of "(increment_state_id y)\<lparr>remote_slots := (remote_slots y)[i := Known s]\<rparr>"] Cons.prems e
    by (auto simp: synchronize_slot_to_remote_def Let_def increment_state_id_def same_but_slots_def)
qed

lemma fold_sync_data:
  assumes "fold synchronize_data_slot_to_remote is (y, out) = (y', out')"
  shows "remote_slots y' = remote_slots y \<and> remote_carried y' = remote_carried y \<and> data_slots y' = data_slots y \<and> suppressed y' = suppressed y"
  using assms
  by (induction "is" arbitrary: y out) (force simp: synchronize_data_slot_to_remote_def split: if_splits)+

lemma broadcast_settles:
  assumes "\<not> suppressed y" and "length (remote_slots y) = length (m_slots m)" and "broadcast_changes R G m y = (y', out)"
  shows "length (remote_slots y') = length (m_slots m)" "i < length (m_slots m) \<Longrightarrow> remote_matches R G (remote_slots y' ! i) (slot_items m ! i)"
    "remote_matches R G (remote_carried y') (carried m)" "i < length (m_slots m) \<Longrightarrow> \<exists>k. remote_slots y' ! i = Known k" "\<exists>k. remote_carried y' = Known k"
proof -
  let ?items = "slot_items m"
  let ?n = "length ?items"
  let ?ch = "filter (\<lambda>(i, s). \<not> remote_matches R G (remote_slots y ! i) s) (enumerate 0 ?items)"
  let ?rs = "map (\<lambda>(i, s). settle R G s (remote_slots y ! i)) (enumerate 0 ?items)"
  let ?y1 = "y\<lparr>remote_slots := ?rs\<rparr>"
  have n: "?n = length (m_slots m)" by (simp add: slot_items_def)
  have dr: "drop ?n (remote_slots y) = []" using n assms(2) by simp
  obtain y2 out2 where 2: "fold (\<lambda>(i, s). synchronize_slot_to_remote i s) ?ch (?y1, []) = (y2, out2)" by fastforce
  obtain y3 out3 where 3: "(if remote_matches R G (remote_carried y2) (carried m)
      then (y2\<lparr>remote_carried := settle R G (carried m) (remote_carried y2)\<rparr>, out2) else synchronize_carried_to_remote (carried m) (y2, out2)) = (y3, out3)" by fastforce
  have run: "fold synchronize_data_slot_to_remote [0..<length (data_slots y)] (y3, out3) = (y', out)"
    using assms(3) unfolding broadcast_changes_def Let_def dr append_Nil2 2 prod.case 3 .
  note s2 = fold_sync_slots [OF _ 2] and s4 = fold_sync_data [OF run]
  have rs2: "remote_slots y2 = fold (\<lambda>(i, s) rs. rs[i := Known s]) ?ch ?rs" "\<not> suppressed y2" using s2 assms(1) by (simp_all add: same_but_slots_def)
  have s3: "remote_slots y3 = remote_slots y2" "remote_matches R G (remote_carried y3) (carried m)" "\<exists>k. remote_carried y3 = Known k"
    using 3 rs2(2) settle_matches [of R G "remote_carried y2"] settle_known [of R G "remote_carried y2"] by (auto simp: synchronize_carried_to_remote_def split: if_splits)
  have rs': "remote_slots y' = fold (\<lambda>(i, s) rs. rs[i := Known s]) ?ch ?rs" using s4 s3(1) rs2(1) by simp
  show "length (remote_slots y') = length (m_slots m)" unfolding rs' by (simp add: n)
  show "remote_matches R G (remote_carried y') (carried m)" "\<exists>k. remote_carried y' = Known k" using s4 s3(2,3) by simp_all
  show "remote_matches R G (remote_slots y' ! i) (?items ! i)" "\<exists>k. remote_slots y' ! i = Known k" if i: "i < length (m_slots m)"
  proof -
    have d: "distinct (map fst ?ch)" using distinct_map_filter [of fst "enumerate 0 ?items"] by simp
    have "remote_slots y' ! i = (case map_of ?ch i of None \<Rightarrow> ?rs ! i | Some s \<Rightarrow> Known s)"
      unfolding rs' by (rule fold_store_nth [OF d]) (use i n in simp)
    then show "remote_matches R G (remote_slots y' ! i) (?items ! i)" "\<exists>k. remote_slots y' ! i = Known k"
      using i n by (simp_all add: map_of_enumerate_filter nth_enumerate_eq settle_matches settle_known)
  qed
qed

lemma send_all_settles:
  assumes "length (remote_slots y) = length (m_slots m)" and "send_all_data_to_remote m y = (y', out)"
  shows "length (remote_slots y') = length (m_slots m)" "i < length (m_slots m) \<Longrightarrow> remote_matches R G (remote_slots y' ! i) (slot_items m ! i)"
    "remote_matches R G (remote_carried y') (carried m)"
  using assms by (auto simp: send_all_data_to_remote_def Let_def slot_items_def increment_state_id_def)

lemma fold_reports:
  "length (remote_slots (fold (\<lambda>(i, h). set_remote_slot i h) rs y)) = length (remote_slots y)"
  by (induction rs arbitrary: y) (auto simp: set_remote_slot_def)

text \<open>No stack is larger than its slot takes.\<close>

definition fits :: "'v item_registry \<Rightarrow> 'v menu \<Rightarrow> bool" where
  "fits R m \<longleftrightarrow> list_all (\<lambda>sl. st_count (slot_get sl (store m)) \<le> get_max_stack_size_for_item R sl (slot_get sl (store m))) (m_slots m)"

text \<open>
  C20. For a player who is neither in creative mode nor has infinite materials, and a well-formed
  menu without over-full slots, handling a click packet, whatever the client sent in it, returns,
  keeps the menu well-formed and conserves every kind of item (those refused by the world
  included, of which there are none if it refuses none); and unless it is rejected outright, the
  server's record of what the client shows matches every slot and the cursor afterwards.
\<close>
theorem click_packets_conserve_and_settle:
  assumes "menu_ok R p m" and "routes_ok (length (m_slots m)) (routes hooks)" and "\<not> creative_mode p" and "\<not> infinite_materials p"
    and "fits R m" and "nat (item_total R (\<lambda>_. True) m) + 1 < fuel" and "length (remote_slots y) = length (m_slots m)"
  shows "\<exists>m' y' out. process_container_click fuel R G hooks p absent still_valid packet m y = Some (m', y', out)
    \<and> menu_ok R p m' \<and> m_slots m' = m_slots m \<and> (\<forall>K. item_total R K m' = item_total R K m)
    \<and> ((\<forall>n. try_add_entity m n) \<longrightarrow> lost m' = lost m)
    \<and> (absent \<or> still_valid \<and> slot_num packet < int (length (m_slots m))
        \<longrightarrow> list_all2 (remote_matches R G) (remote_slots y') (slot_items m') \<and> remote_matches R G (remote_carried y') (carried m'))"
proof -
  let ?n = "length (m_slots m)"
  let ?c = "click_parse (slot_num packet) (button_num packet) (packet_click_type packet) ?n"
  let ?reset = "?c = None \<and> (packet_click_type packet \<noteq> CtQuickCraft \<or> button_num packet AND 3 = 3 \<or> button_num packet AND 3 = 0 \<and> drop_bit 2 (button_num packet) AND 3 = 3)"
  let ?m1 = "if ?reset then reset_quick_craft m else m"
  have rest: ?thesis if "absent \<or> \<not> still_valid \<or> \<not> slot_num packet < int ?n"
  proof (cases absent)
    case True
    obtain y' out where o1: "send_all_data_to_remote m y = (y', out)" by fastforce
    have "length (slot_items m) = ?n" by (simp add: slot_items_def)
    then show ?thesis using True o1 send_all_settles [OF assms(7) o1] assms(1)
      by (auto simp: process_container_click_def list_all2_conv_all_nth)
  next
    case False
    then show ?thesis using that assms(1) by (auto simp: process_container_click_def)
  qed
  have main: ?thesis if go: "\<not> absent" "still_valid" "slot_num packet < int ?n"
  proof -
    have k1: "keeps R p m ?m1" using reset_keeps [OF assms(1)] keeps_refl [OF assms(1)] by simp
    have m1: "menu_ok R p ?m1" "m_slots ?m1 = m_slots m" "store ?m1 = store m" "item_total R (\<lambda>_. True) ?m1 = item_total R (\<lambda>_. True) m"
      using k1 by (simp_all add: keeps_def reset_quick_craft_def)
    obtain m2 where m2: "(case ?c of None \<Rightarrow> Some ?m1 | Some c' \<Rightarrow> clicked fuel R hooks p c' ?m1) = Some m2" "keeps R p m m2"
    proof (cases ?c)
      case None
      then show ?thesis using that k1 by simp
    next
      case (Some c)
      have "\<not> splits_itself R p s w ?m1" if "c = Swap s w" for s w
        using assms(5) m1(2,3) parse_valid [OF Some] that by (auto simp: splits_itself_def fits_def list_all_length)
      from clicked_keeps [where hooks = hooks and c = c and fuel = fuel, OF m1(1) _ assms(3,4) this] assms(2,6) m1(2,4) obtain m' where
        "clicked fuel R hooks p c ?m1 = Some m'" "keeps R p ?m1 m'" by auto
      then show ?thesis using that [of m'] Some keeps_trans [OF k1] by simp
    qed
    let ?y3 = "(set_remote_carried (carried_item packet) (fold (\<lambda>(i, h). set_remote_slot i h) (changed_slots packet) (y\<lparr>suppressed := True\<rparr>)))\<lparr>suppressed := False\<rparr>"
    have k2: "menu_ok R p m2" "m_slots m2 = m_slots m" "\<And>K. item_total R K m2 = item_total R K m" "(\<forall>n. try_add_entity m n) \<longrightarrow> lost m2 = lost m"
      using m2(2) by (simp_all add: keeps_def)
    have len: "length (remote_slots ?y3) = length (m_slots m2)" using fold_reports [of "changed_slots packet" "y\<lparr>suppressed := True\<rparr>"] assms(7) k2(2)
      by (simp add: set_remote_carried_def)
    have ns: "\<not> suppressed ?y3" by simp
    obtain y4 out where o4: "(if nat (packet_state_id packet mod 2 ^ 32) \<noteq> state_id y then send_all_data_to_remote m2 ?y3 else broadcast_changes R G m2 ?y3) = (y4, out)" by fastforce
    have settled: "length (remote_slots y4) = length (m_slots m2)" "\<And>i. i < length (m_slots m2) \<Longrightarrow> remote_matches R G (remote_slots y4 ! i) (slot_items m2 ! i)"
      "remote_matches R G (remote_carried y4) (carried m2)"
      using o4 send_all_settles [OF len, of y4 out] broadcast_settles [OF ns len, of R G y4 out] by (auto split: if_splits)
    have valid: "slot_num packet < 0 \<or> nat (slot_num packet) < ?n" using go(3) by linarith
    have "process_container_click fuel R G hooks p absent still_valid packet m y = Some (m2, y4, out)"
      unfolding process_container_click_def Let_def using go valid m2(1) o4 by simp
    moreover have "list_all2 (remote_matches R G) (remote_slots y4) (slot_items m2)" using settled(1,2) by (simp add: list_all2_conv_all_nth slot_items_def)
    ultimately show ?thesis using k2 settled(3) by blast
  qed
  show ?thesis using rest main by blast
qed

text \<open>A registry of component numbers and a hash that is the value itself.\<close>

definition plain_components :: "int component_registry" where
  "plain_components =
     \<lparr>id_from_key = (\<lambda>k. Some (case k of MAX_STACK_SIZE \<Rightarrow> 0 | MAX_DAMAGE \<Rightarrow> 1 | DAMAGE \<Rightarrow> 2 | UNBREAKABLE \<Rightarrow> 3 | OtherKey n \<Rightarrow> 4 + int n)),
      key_by_id = (\<lambda>i. if i < 0 then None else if i = 0 then Some MAX_STACK_SIZE else if i = 1 then Some MAX_DAMAGE else if i = 2 then Some DAMAGE
         else if i = 3 then Some UNBREAKABLE else Some (OtherKey (nat (i - 4)))),
      compute_hash = (\<lambda>_ v. Some v)\<rparr>"

definition plain_remote :: "int remote" where
  "plain_remote = \<lparr>remote_slots = replicate 43 Unknown, remote_carried = Unknown, container_id = 0, state_id = 0, suppressed = False,
     data_slots = [], remote_data_slots = []\<rparr>"

lemma plain_slots: "slot_items (plain_menu stacks held) = map (\<lambda>i. (stacks @ replicate (CONTAINER_SIZE - length stacks) empty_stack) ! i) [0..<CONTAINER_SIZE]"
  by (simp add: slot_items_def plain_menu_def slot_get_def normal_slot_def)

lemma plain_max: "i \<noteq> 3 \<Longrightarrow> get_max_stack_size_for_item plain_registry sl (with_count i n) = min (case slot_limit sl of None \<Rightarrow> 99 | Some k \<Rightarrow> k) 64"
  by (simp add: get_max_stack_size_for_item_def CONTAINER_MAX_STACK_SIZE_def max_stack_size_def get_integer_def get_effective_value_raw_def plain_registry_def with_count_def
      split: option.split)

lemma plain_fits: "n \<le> 64 \<Longrightarrow> i \<noteq> 3 \<Longrightarrow> fits plain_registry (plain_menu [with_count i n] held)"
proof -
  assume n: "n \<le> 64" "i \<noteq> 3"
  have e: "empty_stack = with_count AIR 0" "AIR \<noteq> 3" by (simp_all add: empty_stack_def with_count_def AIR_def)
  have "get_max_stack_size_for_item plain_registry (normal_slot 0 k) (with_count j c) = 64" if "j \<noteq> 3" for j c k
    unfolding plain_max [OF that] by (simp add: normal_slot_def)
  from this [OF e(2), of _ 0] this [OF n(2), of _ n]
  have max: "get_max_stack_size_for_item plain_registry (normal_slot 0 k) empty_stack = 64"
    "get_max_stack_size_for_item plain_registry (normal_slot 0 k) (with_count i n) = 64" for k unfolding e(1) by blast+
  have "st_count empty_stack \<le> 64" "st_count (with_count i n) \<le> 64" using n(1) by (simp_all add: empty_stack_def with_count_def)
  then have "st_count s \<le> get_max_stack_size_for_item plain_registry (normal_slot 0 k) s" if "s = empty_stack \<or> s = with_count i n" for s k
    using that max [of k] by auto
  then show ?thesis by (auto simp: fits_def plain_menu_def list_all_iff slot_get_def nth_append normal_slot_def nth_Cons' CONTAINER_SIZE_def)
qed

theorem click_packets_conserve_and_settle_witness:
  "\<exists>m' y' out. process_container_click 100 plain_registry plain_components plain_kind survivor False True
       \<lparr>packet_state_id = 0, slot_num = 0, button_num = 0, packet_click_type = CtQuickMove, changed_slots = [], carried_item = HashedEmpty\<rparr>
       (plain_menu [with_count 1 40] empty_stack) plain_remote = Some (m', y', out)
     \<and> item_total plain_registry (\<lambda>_. True) m' = 40 \<and> list_all2 (remote_matches plain_registry plain_components) (remote_slots y') (slot_items m')"
proof -
  let ?m = "plain_menu [with_count 1 40] empty_stack"
  let ?packet = "\<lparr>packet_state_id = 0, slot_num = 0, button_num = 0, packet_click_type = CtQuickMove, changed_slots = [], carried_item = HashedEmpty\<rparr>"
  have 1: "menu_ok plain_registry survivor ?m"
    by (rule plain_menu_ok) (simp_all add: plain_ok AIR_def, simp_all add: with_count_def AIR_def few_def stored_def amount_def is_empty_stack_def)
  have n: "length (m_slots ?m) = 43" by (simp add: plain_menu_def CONTAINER_SIZE_def)
  have 2: "routes_ok (length (m_slots ?m)) (routes plain_kind)" unfolding n by (simp add: routes_ok_def plain_kind_def)
  have tot: "item_total plain_registry (\<lambda>_. True) ?m = 40" by (simp add: plain_total stored_def amount_def is_empty_stack_def with_count_def AIR_def)
  have 3: "\<not> creative_mode survivor" "\<not> infinite_materials survivor" by (simp_all add: survivor_def)
  have 4: "length (remote_slots plain_remote) = length (m_slots ?m)" unfolding n by (simp add: plain_remote_def)
  have 5: "nat (item_total plain_registry (\<lambda>_. True) ?m) + 1 < 100" unfolding tot by simp
  have "slot_num ?packet < int (length (m_slots ?m))" unfolding n by simp
  with click_packets_conserve_and_settle [OF 1 2 3 plain_fits 5 4, of plain_components False True ?packet] obtain m' y' out where
    r: "process_container_click 100 plain_registry plain_components plain_kind survivor False True ?packet ?m plain_remote = Some (m', y', out)"
      "\<forall>K. item_total plain_registry K m' = item_total plain_registry K ?m" "list_all2 (remote_matches plain_registry plain_components) (remote_slots y') (slot_items m')"
    by auto
  have "item_total plain_registry (\<lambda>_. True) m' = 40" using spec [OF r(2), of "\<lambda>_. True"] tot by simp
  with r(1,3) show ?thesis by blast
qed

section \<open>What a broadcast sends\<close>

text \<open>One packet for each changed slot, each under the next state number.\<close>

fun slot_packets :: "int \<Rightarrow> nat \<Rightarrow> (nat \<times> 'v item_stack) list \<Rightarrow> 'v packet list" where
  "slot_packets cid n [] = []"
| "slot_packets cid n ((i, s) # changed) =
     SetSlot cid (int ((n + 1) mod 2 ^ 15)) (wrap_i16 (int i)) s # slot_packets cid ((n + 1) mod 2 ^ 15) changed"

definition changed_stacks :: "'v item_registry \<Rightarrow> 'v component_registry \<Rightarrow> 'v menu \<Rightarrow> 'v remote \<Rightarrow> (nat \<times> 'v item_stack) list" where
  "changed_stacks R G m y = filter (\<lambda>(i, s). \<not> remote_matches R G (remote_slots y ! i) s) (enumerate 0 (slot_items m))"

definition changed_data :: "'v remote \<Rightarrow> nat list" where
  "changed_data y = filter (\<lambda>i. data_slots y ! i \<noteq> remote_data_slots y ! i) [0..<length (data_slots y)]"

lemma next_state: "state_id (increment_state_id y) = (state_id y + 1) mod 2 ^ 15"
proof -
  have "(n mod 2 ^ 32) AND 0x7FFF = n mod 2 ^ 15" for n :: nat
  proof -
    have "(n mod 2 ^ 32) AND 0x7FFF = take_bit 15 (take_bit 32 n)" by (simp add: take_bit_eq_mask [of 15] mask_eq_exp_minus_1 take_bit_eq_mod [of 32])
    then show ?thesis by (simp add: take_bit_eq_mod [of 15])
  qed
  from this [of "state_id y + 1"] show ?thesis by (simp add: increment_state_id_def)
qed

lemma sent_slots:
  assumes "\<not> suppressed y" and "fold (\<lambda>(i, s). synchronize_slot_to_remote i s) ch (y, out) = (y', out')"
  shows "out' = out @ slot_packets (container_id y) (state_id y) ch"
  using assms
proof (induction ch arbitrary: y out)
  case (Cons e ch)
  obtain i s where e: "e = (i, s)" by (cases e)
  let ?y = "(increment_state_id y)\<lparr>remote_slots := (remote_slots y)[i := Known s]\<rparr>"
  let ?p = "SetSlot (container_id y) (int ((state_id y + 1) mod 2 ^ 15)) (wrap_i16 (int i)) s"
  have w: "wrap_i32 (int (n mod 2 ^ 15)) = int (n mod 2 ^ 15)" for n
    by (rule wrap_i32_id) (use mod_less_divisor [of "2 ^ 15" n] in \<open>simp add: i32_ok_def\<close>)
  have "synchronize_slot_to_remote i s (y, out) = (?y, out @ [?p])"
    using Cons.prems(1) by (simp only: synchronize_slot_to_remote_def prod.case Let_def next_state w if_False)
  then have run: "fold (\<lambda>(i, s). synchronize_slot_to_remote i s) ch (?y, out @ [?p]) = (y', out')" using Cons.prems(2) e by simp
  have "container_id ?y = container_id y" "suppressed ?y = suppressed y" "state_id ?y = (state_id y + 1) mod 2 ^ 15"
    using next_state [of y] by (simp_all add: increment_state_id_def)
  with Cons.IH [OF _ run] Cons.prems(1) show ?case by (simp add: e)
qed simp

lemma sent_data:
  assumes "\<not> suppressed y" and "length (remote_data_slots y) = length (data_slots y)" and "k \<le> length (data_slots y)"
  shows "fold synchronize_data_slot_to_remote [0..<k] (y, out) =
    (y\<lparr>remote_data_slots := take k (data_slots y) @ drop k (remote_data_slots y)\<rparr>,
     out @ map (set_data_packet y) (filter (\<lambda>i. data_slots y ! i \<noteq> remote_data_slots y ! i) [0..<k]))"
  using assms(3)
proof (induction k)
  case (Suc k)
  let ?rs = "take k (data_slots y) @ drop k (remote_data_slots y)"
  have k: "k < length (data_slots y)" "?rs ! k = remote_data_slots y ! k" using Suc.prems assms(2) by (simp_all add: nth_append)
  have up: "?rs[k := data_slots y ! k] = take (Suc k) (data_slots y) @ drop (Suc k) (remote_data_slots y)"
    using k(1) assms(2) by (simp add: list_update_append take_Suc_conv_app_nth upd_conv_take_nth_drop)
  have same: "?rs = take (Suc k) (data_slots y) @ drop (Suc k) (remote_data_slots y)" if "data_slots y ! k = remote_data_slots y ! k"
    using that k(2) list_update_id [of ?rs k] up by simp
  show ?case
  proof (cases "data_slots y ! k = remote_data_slots y ! k")
    case True
    with Suc k assms(1) same [OF True] show ?thesis by (simp add: synchronize_data_slot_to_remote_def)
  next
    case False
    with Suc k assms(1) up show ?thesis by (simp add: synchronize_data_slot_to_remote_def set_data_packet_def)
  qed
qed simp

lemma broadcast_sends:
  assumes "\<not> suppressed y" and "length (remote_slots y) = length (m_slots m)" and "length (remote_data_slots y) = length (data_slots y)"
    and "broadcast_changes R G m y = (y', out)"
  shows "out = slot_packets (container_id y) (state_id y) (changed_stacks R G m y)
      @ (if remote_matches R G (remote_carried y) (carried m) then [] else [SetCursor (carried m)]) @ map (set_data_packet y) (changed_data y)
    \<and> remote_data_slots y' = data_slots y \<and> data_slots y' = data_slots y \<and> suppressed y' = suppressed y"
proof -
  let ?items = "slot_items m"
  let ?rs = "map (\<lambda>(i, s). settle R G s (remote_slots y ! i)) (enumerate 0 ?items)"
  let ?y1 = "y\<lparr>remote_slots := ?rs\<rparr>"
  have dr: "drop (length ?items) (remote_slots y) = []" using assms(2) by (simp add: slot_items_def)
  obtain y2 out2 where 2: "fold (\<lambda>(i, s). synchronize_slot_to_remote i s) (changed_stacks R G m y) (?y1, []) = (y2, out2)" by fastforce
  have y2: "same_but_slots ?y1 y2" "out2 = slot_packets (container_id y) (state_id y) (changed_stacks R G m y)"
    using fold_sync_slots [OF _ 2] sent_slots [OF _ 2] assms(1) by simp_all
  obtain y3 out3 where 3: "(if remote_matches R G (remote_carried y2) (carried m)
      then (y2\<lparr>remote_carried := settle R G (carried m) (remote_carried y2)\<rparr>, out2) else synchronize_carried_to_remote (carried m) (y2, out2)) = (y3, out3)" by fastforce
  have y3: "container_id y3 = container_id y" "suppressed y3 = suppressed y" "data_slots y3 = data_slots y" "remote_data_slots y3 = remote_data_slots y"
    "out3 = out2 @ (if remote_matches R G (remote_carried y) (carried m) then [] else [SetCursor (carried m)])"
    using 3 y2(1) assms(1) by (auto simp: same_but_slots_def synchronize_carried_to_remote_def split: if_splits)
  have run: "fold synchronize_data_slot_to_remote [0..<length (data_slots y)] (y3, out3) = (y', out)"
    using assms(4) unfolding broadcast_changes_def Let_def dr append_Nil2 changed_stacks_def [symmetric] 2 prod.case 3 .
  have "set_data_packet y3 = set_data_packet y" by (simp add: fun_eq_iff set_data_packet_def y3)
  with sent_data [of y3 "length (data_slots y)" out3] run assms(1,3) y3 y2(2) show ?thesis by (auto simp: changed_data_def)
qed

text \<open>A record that matches everything and knows every stack is left alone, and nothing is sent.\<close>

lemma broadcast_settled:
  assumes "list_all2 (remote_matches R G) (remote_slots y) (slot_items m)" and "remote_matches R G (remote_carried y) (carried m)"
    and "\<forall>r \<in> set (remote_slots y). \<exists>k. r = Known k" and "\<exists>k. remote_carried y = Known k" and "remote_data_slots y = data_slots y"
  shows "broadcast_changes R G m y = (y, [])"
proof -
  let ?items = "slot_items m"
  have len: "length (remote_slots y) = length ?items" using assms(1) by (rule list_all2_lengthD)
  have ch: "filter (\<lambda>(i, s). \<not> remote_matches R G (remote_slots y ! i) s) (enumerate 0 ?items) = []"
    using assms(1) by (auto simp: filter_empty_conv in_set_enumerate_eq list_all2_conv_all_nth)
  have "settle R G s (remote_slots y ! i) = remote_slots y ! i" if "i < length ?items" for i s
    using assms(3) that len nth_mem [of i "remote_slots y"] by fastforce
  then have rs: "map (\<lambda>(i, s). settle R G s (remote_slots y ! i)) (enumerate 0 ?items) = remote_slots y"
    using len by (intro nth_equalityI) (simp_all add: nth_enumerate_eq)
  have data: "fold synchronize_data_slot_to_remote is (y, []) = (y, [])" for "is"
    by (induction "is") (auto simp: synchronize_data_slot_to_remote_def assms(5))
  have "settle R G (carried m) (remote_carried y) = remote_carried y" using assms(4) by auto
  then show ?thesis unfolding broadcast_changes_def Let_def ch rs using assms(2) len data by simp
qed

text \<open>
  C21. A broadcast sends exactly the differences: a packet for every slot whose record does not match
  the stack in it, in the order of the slots, each with the stack and the next state number; one for
  the cursor if its record does not match; and one for every data slot whose recorded value
  differs, with the current value. Afterwards the record matches every slot, the cursor and the
  data slots, and, since a hash that matched has become the stack, another broadcast of the same menu changes nothing
  and sends nothing. What a client makes of the packets, and whether a hash it reported was true, is
  outside.
\<close>
theorem broadcast_sends_differences:
  assumes "\<not> suppressed y" and "length (remote_slots y) = length (m_slots m)" and "length (remote_data_slots y) = length (data_slots y)"
    and "broadcast_changes R G m y = (y', out)"
  shows "out = slot_packets (container_id y) (state_id y) (changed_stacks R G m y)
      @ (if remote_matches R G (remote_carried y) (carried m) then [] else [SetCursor (carried m)]) @ map (set_data_packet y) (changed_data y)
    \<and> list_all2 (remote_matches R G) (remote_slots y') (slot_items m) \<and> remote_matches R G (remote_carried y') (carried m)
    \<and> remote_data_slots y' = data_slots y \<and> broadcast_changes R G m y' = (y', [])"
proof -
  note b = broadcast_settles [OF assms(1,2,4)] and s = broadcast_sends [OF assms]
  have match: "list_all2 (remote_matches R G) (remote_slots y') (slot_items m)" using b(1,2) by (simp add: list_all2_conv_all_nth slot_items_def)
  moreover have "\<forall>r \<in> set (remote_slots y'). \<exists>k. r = Known k" using b(1,4) by (auto simp: in_set_conv_nth)
  ultimately have "broadcast_changes R G m y' = (y', [])" using broadcast_settled [OF match b(3) _ b(5)] s by simp
  with s match b(3) show ?thesis by blast
qed

theorem broadcast_sends_differences_witness:
  "snd (broadcast_changes plain_registry plain_components (plain_menu [with_count 1 40] empty_stack)
      (plain_remote\<lparr>remote_slots := replicate 43 (Known empty_stack), remote_carried := Hashed HashedEmpty, state_id := 5\<rparr>))
    = [SetSlot 0 6 0 (with_count 1 40)]"
proof -
  let ?m = "plain_menu [with_count 1 40] empty_stack"
  let ?y = "plain_remote\<lparr>remote_slots := replicate 43 (Known empty_stack), remote_carried := Hashed HashedEmpty, state_id := 5\<rparr>"
  obtain y' out where run: "broadcast_changes plain_registry plain_components ?m ?y = (y', out)" by fastforce
  have n: "length (m_slots ?m) = 43" by (simp add: plain_menu_def CONTAINER_SIZE_def)
  have 1: "\<not> suppressed ?y" "length (remote_slots ?y) = length (m_slots ?m)" "length (remote_data_slots ?y) = length (data_slots ?y)"
    unfolding n by (simp_all add: plain_remote_def)
  have items: "slot_items ?m = with_count 1 40 # replicate 42 empty_stack"
    unfolding plain_slots by (intro nth_equalityI) (simp_all add: CONTAINER_SIZE_def nth_Cons')
  have no: "\<not> stacks_match plain_registry empty_stack (with_count 1 40)"
    by (simp add: stacks_match_iff is_empty_stack_def with_count_def AIR_def)
  have e: "filter (\<lambda>(i, s). \<not> remote_matches plain_registry plain_components (remote_slots ?y ! i) s) (enumerate (Suc 0) (replicate 42 empty_stack)) = []"
    by (auto simp: filter_empty_conv in_set_enumerate_eq remote_matches_def)
  have "changed_stacks plain_registry plain_components ?m ?y = [(0, with_count 1 40)]"
    unfolding changed_stacks_def items enumerate_simps filter.simps e using no by (simp add: remote_matches_def)
  moreover have "remote_matches plain_registry plain_components (remote_carried ?y) (carried ?m)"
    by (simp add: remote_matches_def hashed_stack_matches_def plain_menu_def)
  moreover have "changed_data ?y = []" by (simp add: changed_data_def plain_remote_def)
  ultimately show ?thesis using broadcast_sends_differences [OF 1 run] unfolding run by (simp add: plain_remote_def wrap_i16_def)
qed

end
