(* ===== verification/Permission_Keys.thy ===== *)
theory Permission_Keys
  imports Identifiers
begin

text \<open>
  Permission keys (\<open>steel-core/src/permission/key.rs\<close>): dotted names with an optional final
  wildcard, their parsing, building, matching and specificity. Keys, segments and the other
  validated strings of the permission code are kept as their text. The string operations of the
  standard library that the permission code uses are modelled first.
\<close>

section \<open>String operations\<close>

fun str_split :: "(nat \<Rightarrow> bool) \<Rightarrow> rust_string \<Rightarrow> rust_string list" where
  "str_split p [] = [[]]"
| "str_split p (c # cs) =
     (if p c then [] # str_split p cs else case str_split p cs of [] \<Rightarrow> [[c]] | part # parts \<Rightarrow> (c # part) # parts)"

fun strip_prefix :: "rust_string \<Rightarrow> rust_string \<Rightarrow> rust_string option" where
  "strip_prefix [] s = Some s"
| "strip_prefix (c # cs) [] = None"
| "strip_prefix (c # cs) (d # ds) = (if c = d then strip_prefix cs ds else None)"

definition strip_suffix :: "rust_string \<Rightarrow> rust_string \<Rightarrow> rust_string option" where
  "strip_suffix suf s = map_option rev (strip_prefix (rev suf) (rev s))"

definition starts_with_char :: "nat \<Rightarrow> rust_string \<Rightarrow> bool" where
  "starts_with_char c s \<longleftrightarrow> s \<noteq> [] \<and> hd s = c"

abbreviation dot :: nat where "dot \<equiv> of_char CHR ''.''"
abbreviation star :: nat where "star \<equiv> of_char CHR ''*''"

section \<open>Keys and segments\<close>

datatype permission_key_error = KeyEmpty | EmptySegment | WildcardNotFinal | InvalidWildcardSegment | InvalidSegment

type_synonym permission_key = rust_string

definition validate_permission_segment :: "rust_string \<Rightarrow> permission_key_error option" where
  "validate_permission_segment segment =
     (if list_all (\<lambda>b. is_ascii_lowercase b \<or> is_ascii_digit b \<or> b = of_char CHR ''_'' \<or> b = of_char CHR ''-'') segment
      then None else Some InvalidSegment)"

definition segment_parse :: "rust_string \<Rightarrow> permission_key_error + rust_string" where
  "segment_parse value =
     (if value = [] then Inl EmptySegment
      else if star \<in> set value then Inl InvalidWildcardSegment
      else case validate_permission_segment value of Some e \<Rightarrow> Inl e | None \<Rightarrow> Inr value)"

fun check_segments :: "rust_string list \<Rightarrow> permission_key_error option" where
  "check_segments [] = None"
| "check_segments (segment # rest) =
     (if segment = [] then Some EmptySegment
      else if segment = [star] then (if rest \<noteq> [] then Some WildcardNotFinal else check_segments rest)
      else if star \<in> set segment then Some InvalidWildcardSegment
      else case validate_permission_segment segment of Some e \<Rightarrow> Some e | None \<Rightarrow> check_segments rest)"

definition key_parse :: "rust_string \<Rightarrow> permission_key_error + permission_key" where
  "key_parse value =
     (if value = [] then Inl KeyEmpty
      else case check_segments (str_split (\<lambda>c. c = dot) value) of Some e \<Rightarrow> Inl e | None \<Rightarrow> Inr value)"

definition key_from_segments :: "rust_string list \<Rightarrow> permission_key_error + permission_key" where
  "key_from_segments segments =
     (let value = foldl (\<lambda>value segment. (if value \<noteq> [] then value @ [dot] else value) @ segment) [] segments
      in if value = [] then Inl KeyEmpty else Inr value)"

definition key_child :: "permission_key \<Rightarrow> rust_string \<Rightarrow> permission_key_error + permission_key" where
  "key_child key segment = key_parse (key @ dot # segment)"

definition key_matches :: "permission_key \<Rightarrow> permission_key \<Rightarrow> bool" where
  "key_matches pat other \<longleftrightarrow>
     pat = [star] \<or>
     (case strip_suffix [dot, star] pat of
        None \<Rightarrow> pat = other
      | Some pre \<Rightarrow> (case strip_prefix pre other of None \<Rightarrow> False | Some remaining \<Rightarrow> starts_with_char dot remaining))"

definition key_specificity :: "permission_key \<Rightarrow> nat" where
  "key_specificity key =
     (if key = [star] then 0
      else length (str_split (\<lambda>c. c = dot) (case strip_suffix [dot, star] key of None \<Rightarrow> key | Some pre \<Rightarrow> pre)))"

definition key_scopes :: "permission_key \<Rightarrow> permission_key \<Rightarrow> bool" where
  "key_scopes scope key \<longleftrightarrow>
     scope = key \<or>
     (case strip_prefix scope key of None \<Rightarrow> False | Some remaining \<Rightarrow> starts_with_char dot remaining)"

section \<open>Splitting and joining\<close>

fun join_with :: "nat \<Rightarrow> rust_string list \<Rightarrow> rust_string" where
  "join_with d [] = []"
| "join_with d [s] = s"
| "join_with d (s # t # ts) = s @ d # join_with d (t # ts)"

abbreviation segments_of :: "permission_key \<Rightarrow> rust_string list" where
  "segments_of \<equiv> str_split (\<lambda>c. c = dot)"

lemma str_split_ne [simp]: "str_split p s \<noteq> []"
  by (cases s) (auto split: list.split)

lemma str_split_append: "p d \<Longrightarrow> str_split p (a @ d # b) = str_split p a @ str_split p b"
  using str_split_ne [of p] by (induction a) (auto split: list.split)

lemma str_split_none: "list_all (\<lambda>c. \<not> p c) s \<Longrightarrow> str_split p s = [s]"
  by (induction s) auto

lemma str_split_parts: "x \<in> set (str_split p s) \<Longrightarrow> c \<in> set x \<Longrightarrow> c \<in> set s \<and> \<not> p c"
proof (induction s arbitrary: x)
  case (Cons a s)
  then show ?case
    by (fastforce split: if_splits list.splits)
qed auto

lemma join_split: "join_with d (str_split (\<lambda>c. c = d) s) = s"
proof (induction s)
  case (Cons c s)
  obtain x xs where x: "str_split (\<lambda>c. c = d) s = x # xs" by (meson neq_Nil_conv str_split_ne)
  with Cons show ?case by (cases xs) auto
qed simp

lemma split_join: "ss \<noteq> [] \<Longrightarrow> list_all (\<lambda>s. d \<notin> set s) ss \<Longrightarrow> str_split (\<lambda>c. c = d) (join_with d ss) = ss"
proof (induction d ss rule: join_with.induct)
  case (2 d s)
  then show ?case using str_split_none [of "\<lambda>c. c = d" s] by (auto simp: list_all_iff)
next
  case (3 d s t ts)
  then have "str_split (\<lambda>c. c = d) s = [s]" using str_split_none [of "\<lambda>c. c = d" s] by (auto simp: list_all_iff)
  with 3 show ?case by (simp add: str_split_append)
qed simp

lemma join_append: "xs \<noteq> [] \<Longrightarrow> ys \<noteq> [] \<Longrightarrow> join_with d (xs @ ys) = join_with d xs @ d # join_with d ys"
  by (induction d xs rule: join_with.induct) (auto simp: neq_Nil_conv)

lemma strip_prefix_eq: "strip_prefix a s = Some r \<longleftrightarrow> s = a @ r"
  by (induction a s rule: strip_prefix.induct) auto

lemma strip_suffix_eq: "strip_suffix a s = Some r \<longleftrightarrow> s = r @ a"
  by (auto simp: strip_suffix_def strip_prefix_eq) (metis rev_append rev_rev_ident)+

lemma strip_prefix_char: 
  "(case strip_prefix pre s of None \<Rightarrow> False | Some r \<Rightarrow> starts_with_char d r) \<longleftrightarrow> (\<exists>r. s = pre @ d # r)"
  by (auto simp: strip_prefix_eq starts_with_char_def neq_Nil_conv split: option.split)
    (metis option.distinct(1) strip_prefix_eq)

section \<open>Keys as lists of segments\<close>

definition valid_segment :: "rust_string \<Rightarrow> bool" where
  "valid_segment s \<longleftrightarrow> s \<noteq> [] \<and> list_all (\<lambda>b. is_ascii_lowercase b \<or> is_ascii_digit b \<or> b = of_char CHR ''_'' \<or> b = of_char CHR ''-'') s"

lemma segment_char_plain:
  "is_ascii_lowercase b \<or> is_ascii_digit b \<or> b = of_char CHR ''_'' \<or> b = of_char CHR ''-'' \<Longrightarrow>
   b \<noteq> star \<and> b \<noteq> dot \<and> b \<noteq> of_char CHR ''{'' \<and> b \<noteq> of_char CHR ''}'' \<and> b \<noteq> of_char CHR '','' \<and> b \<noteq> of_char CHR ''=''
     \<and> b \<noteq> of_char CHR '':''"
  by (auto simp: is_ascii_lowercase_def is_ascii_digit_def)

lemma valid_segment_plain:
  assumes "valid_segment s"
  shows "star \<notin> set s" "dot \<notin> set s"
  using assms segment_char_plain by (auto simp: valid_segment_def list_all_iff)

lemma segment_parse_iff: "segment_parse s = Inr t \<longleftrightarrow> t = s \<and> valid_segment s"
  using valid_segment_plain(1) [of s] by (auto simp: segment_parse_def validate_permission_segment_def valid_segment_def)

lemma check_segments_None:
  "check_segments ss = None \<longleftrightarrow> list_all valid_segment (butlast ss) \<and> (ss \<noteq> [] \<longrightarrow> valid_segment (last ss) \<or> last ss = [star])"
proof (induction ss)
  case (Cons s ss)
  have "valid_segment s \<Longrightarrow> s \<noteq> [] \<and> s \<noteq> [star] \<and> star \<notin> set s \<and> validate_permission_segment s = None"
    using valid_segment_plain(1) [of s] by (auto simp: valid_segment_def validate_permission_segment_def)
  moreover have "s \<noteq> [] \<Longrightarrow> star \<notin> set s \<Longrightarrow> \<not> valid_segment s \<Longrightarrow> validate_permission_segment s = Some InvalidSegment"
    by (auto simp: valid_segment_def validate_permission_segment_def)
  moreover have "\<not> valid_segment [star]" using valid_segment_plain(1) [of "[star]"] by auto
  ultimately show ?case using Cons
    by (cases "s = [star]"; cases "star \<in> set s"; cases "valid_segment s"; cases ss) auto
qed simp

lemma key_parse_iff:
  "key_parse s = Inr k \<longleftrightarrow> k = s \<and> s \<noteq> [] \<and> list_all valid_segment (butlast (segments_of s))
     \<and> (valid_segment (last (segments_of s)) \<or> last (segments_of s) = [star])"
  using check_segments_None [of "segments_of s"] by (auto simp: key_parse_def split: option.splits)

lemma wildcard_iff: "last (segments_of p) = [star] \<longleftrightarrow> p = [star] \<or> (\<exists>a. p = a @ [dot, star])"
proof
  assume l: "last (segments_of p) = [star]"
  let ?b = "butlast (segments_of p)"
  have s: "segments_of p = ?b @ [[star]]" using l append_butlast_last_id [of "segments_of p"] by simp
  have j: "p = join_with dot (?b @ [[star]])" using join_split [of dot p] unfolding s [symmetric] by simp
  show "p = [star] \<or> (\<exists>a. p = a @ [dot, star])"
  proof (cases "?b = []")
    case True
    with j show ?thesis by simp
  next
    case False
    from j join_append [OF False, of "[[star]]" dot] have "p = join_with dot ?b @ [dot, star]" by simp
    then show ?thesis by blast
  qed
next
  have star: "segments_of [star] = [[star]]" by simp
  assume "p = [star] \<or> (\<exists>a. p = a @ [dot, star])"
  then show "last (segments_of p) = [star]"
    using str_split_append [of "\<lambda>c. c = dot" dot _ "[star]"] star by auto
qed

lemma segments_extend: "(\<exists>r. k = a @ dot # r) \<longleftrightarrow> (\<exists>more. more \<noteq> [] \<and> segments_of k = segments_of a @ more)"
proof
  assume "\<exists>r. k = a @ dot # r"
  then show "\<exists>more. more \<noteq> [] \<and> segments_of k = segments_of a @ more"
    using str_split_append [of "\<lambda>c. c = dot" dot a] str_split_ne by metis
next
  assume "\<exists>more. more \<noteq> [] \<and> segments_of k = segments_of a @ more"
  then obtain more where m: "more \<noteq> []" "segments_of k = segments_of a @ more" by blast
  from join_append [OF str_split_ne m(1), of dot] m(2)
  have "k = a @ dot # join_with dot more" by (metis join_split)
  then show "\<exists>r. k = a @ dot # r" by blast
qed

lemma segments_inj: "segments_of a = segments_of b \<longleftrightarrow> a = b"
  using join_split [of dot] by metis

lemma key_matches_segments:
  "key_matches p k \<longleftrightarrow>
    (if last (segments_of p) = [star] then \<exists>more. more \<noteq> [] \<and> segments_of k = butlast (segments_of p) @ more
     else segments_of k = segments_of p)"
proof -
  have *: "\<not> (\<exists>a. p = a @ [dot, star]) \<Longrightarrow> strip_suffix [dot, star] p = None"
    by (metis not_None_eq strip_suffix_eq)
  consider "p = [star]" | a where "p = a @ [dot, star]" | "last (segments_of p) \<noteq> [star]" using wildcard_iff by blast
  then show ?thesis
  proof cases
    case 1
    then show ?thesis by (simp add: key_matches_def)
  next
    case 2
    have "segments_of p = segments_of a @ [[star]]" using 2 str_split_append [of "\<lambda>c. c = dot" dot a "[star]"] by simp
    moreover have "key_matches p k \<longleftrightarrow> (\<exists>r. k = a @ dot # r)"
      using 2 strip_prefix_char [where pre = a and s = k and d = dot] strip_suffix_eq [of "[dot, star]" p a] by (auto simp: key_matches_def)
    ultimately show ?thesis using segments_extend [of k a] by simp
  next
    case 3
    with wildcard_iff [of p] * have "p \<noteq> [star]" "strip_suffix [dot, star] p = None" by blast+
    with 3 segments_inj [of k p] show ?thesis by (auto simp: key_matches_def)
  qed
qed

lemma key_specificity_segments:
  "key_specificity p = (if last (segments_of p) = [star] then length (segments_of p) - 1 else length (segments_of p))"
proof -
  consider "p = [star]" | a where "p = a @ [dot, star]" | "last (segments_of p) \<noteq> [star]" using wildcard_iff by blast
  then show ?thesis
  proof cases
    case 1
    then show ?thesis by (simp add: key_specificity_def)
  next
    case 2
    have "segments_of p = segments_of a @ [[star]]" using 2 str_split_append [of "\<lambda>c. c = dot" dot a "[star]"] by simp
    moreover have "key_specificity p = length (segments_of a)"
      using 2 strip_suffix_eq [of "[dot, star]" p a] by (auto simp: key_specificity_def)
    ultimately show ?thesis by simp
  next
    case 3
    with wildcard_iff [of p] have "p \<noteq> [star]" "\<not> (\<exists>a. p = a @ [dot, star])" by blast+
    then have "strip_suffix [dot, star] p = None" by (metis not_None_eq strip_suffix_eq)
    with 3 \<open>p \<noteq> [star]\<close> show ?thesis by (auto simp: key_specificity_def)
  qed
qed

lemma key_scopes_segments: "key_scopes p k \<longleftrightarrow> (\<exists>more. segments_of k = segments_of p @ more)"
proof -
  have "key_scopes p k \<longleftrightarrow> segments_of p = segments_of k \<or> (\<exists>more. more \<noteq> [] \<and> segments_of k = segments_of p @ more)"
    unfolding key_scopes_def strip_prefix_char segments_extend segments_inj by blast
  then show ?thesis by auto
qed

lemma foldl_join:
  assumes "list_all (\<lambda>t. t \<noteq> []) ts"
  shows "foldl (\<lambda>value segment. (if value \<noteq> [] then value @ [d] else value) @ segment) a ts =
      (if ts = [] then a else if a = [] then join_with d ts else a @ d # join_with d ts)"
  using assms
proof (induction ts arbitrary: a)
  case (Cons t ts)
  have "foldl (\<lambda>value segment. (if value \<noteq> [] then value @ [d] else value) @ segment) a (t # ts) =
     foldl (\<lambda>value segment. (if value \<noteq> [] then value @ [d] else value) @ segment) ((if a \<noteq> [] then a @ [d] else a) @ t) ts"
    by simp
  also have "\<dots> = (if ts = [] then (if a \<noteq> [] then a @ [d] else a) @ t else ((if a \<noteq> [] then a @ [d] else a) @ t) @ d # join_with d ts)"
    using Cons by (subst Cons.IH) auto
  also have "\<dots> = (if a = [] then join_with d (t # ts) else a @ d # join_with d (t # ts))" by (cases ts) auto
  finally show ?case by simp
qed simp

lemma from_segments_join:
  assumes "list_all valid_segment ss"
  shows "key_from_segments ss = (if ss = [] then Inl KeyEmpty else Inr (join_with dot ss))"
proof -
  from assms have ne: "list_all (\<lambda>t. t \<noteq> []) ss" by (auto simp: list_all_iff valid_segment_def)
  then have "join_with d ss = [] \<longleftrightarrow> ss = []" for d by (cases ss rule: remdups_adj.cases) auto
  with foldl_join [OF ne, of dot "[]"] show ?thesis unfolding key_from_segments_def Let_def by (cases ss) auto
qed

text \<open>A key built from segments is the one that parsing its text gives, and has these segments.\<close>

lemma from_segments_parses:
  assumes "list_all valid_segment ss" and "ss \<noteq> []"
  shows "\<exists>k. key_from_segments ss = Inr k \<and> key_parse k = Inr k \<and> segments_of k = ss"
proof -
  let ?k = "join_with dot ss"
  from assms have "list_all (\<lambda>s. dot \<notin> set s) ss" using valid_segment_plain(2) by (auto simp: list_all_iff)
  with split_join assms(2) have s: "segments_of ?k = ss" by blast
  have "?k \<noteq> []"
  proof
    assume "?k = []"
    with s have "ss = [[]]" by simp
    with assms show False by (simp add: valid_segment_def)
  qed
  moreover have "list_all valid_segment (butlast ss)" using assms by (auto simp: list_all_iff dest: in_set_butlastD)
  ultimately have "key_parse ?k = Inr ?k" using assms s by (auto simp: key_parse_iff list_all_iff)
  with s assms from_segments_join show ?thesis by simp
qed

lemma check_valid_segments: "list_all valid_segment ss \<Longrightarrow> check_segments (ss @ ts) = check_segments ts"
proof (induction ss)
  case (Cons s ss)
  moreover have "valid_segment s \<Longrightarrow> s \<noteq> [] \<and> s \<noteq> [star] \<and> star \<notin> set s \<and> validate_permission_segment s = None"
    using valid_segment_plain(1) [of s] by (auto simp: valid_segment_def validate_permission_segment_def)
  ultimately show ?case by simp
qed simp

text \<open>A child is refused below a wildcard and otherwise adds its segment.\<close>

lemma key_child_iff:
  assumes "key_parse k = Inr k" and "valid_segment s"
  shows "key_child k s = (if last (segments_of k) = [star] then Inl WildcardNotFinal else Inr (k @ dot # s))"
proof -
  have "segments_of s = [s]" using valid_segment_plain(2) [OF assms(2)] str_split_none [of "\<lambda>c. c = dot" s] by (auto simp: list_all_iff)
  then have sg: "segments_of (k @ dot # s) = butlast (segments_of k) @ [last (segments_of k), s]"
    using str_split_append [of "\<lambda>c. c = dot" dot k s] append_butlast_last_id [of "segments_of k"]
    by (metis append.assoc append_Cons append_Nil str_split_ne)
  from assms(1) have v: "list_all valid_segment (butlast (segments_of k))"
    "valid_segment (last (segments_of k)) \<or> last (segments_of k) = [star]" unfolding key_parse_iff by blast+
  have "key_child k s = (case check_segments [last (segments_of k), s] of Some e \<Rightarrow> Inl e | None \<Rightarrow> Inr (k @ dot # s))"
    unfolding key_child_def key_parse_def sg check_valid_segments [OF v(1)] by simp
  moreover have "check_segments [last (segments_of k), s] = None" if "last (segments_of k) \<noteq> [star]"
    unfolding check_segments_None using that v(2) assms(2) by simp
  moreover have "check_segments [last (segments_of k), s] = Some WildcardNotFinal" if "last (segments_of k) = [star]"
    unfolding that by simp
  ultimately show ?thesis by simp
qed

text \<open>
  C29. Keys are compared segment by segment although the code works on the text: a key with a final
  wildcard matches exactly the keys that extend the segments before it by at least one, any
  other key only itself; the specificity is the number of segments before the wildcard; and a
  key scopes exactly the keys that start with its segments.
\<close>
theorem keys_compare_by_segments:
  "key_matches p k = (if last (segments_of p) = [star] then \<exists>more. more \<noteq> [] \<and> segments_of k = butlast (segments_of p) @ more
                      else segments_of k = segments_of p)
   \<and> key_specificity p = length (segments_of p) - (if last (segments_of p) = [star] then 1 else 0)
   \<and> key_scopes p k = (\<exists>more. segments_of k = segments_of p @ more)"
  using key_matches_segments [of p k] key_specificity_segments [of p] key_scopes_segments [of p k] by simp

end
