(* ===== verification/Permission_Contexts.thy ===== *)
theory Permission_Contexts
  imports Permission_Keys
begin

text \<open>
  Contexts of permission rules (\<open>steel-core/src/permission/context.rs\<close>): the rule-side contexts
  with their canonical conjunctions, the active context of a subject, matching and specificity.
\<close>

section \<open>Rule contexts\<close>

datatype rule_context =
    RcGlobal
  | RcDomain rust_string
  | RcWorld ident
  | RcCustom rust_string rust_string
  | RcAll "rule_context list"

datatype context_key_error =
  CkInvalidFormat | CkEmptyNamespace | CkEmptyPath | CkInvalidNamespace | CkInvalidPath | CkInvalidUnqualified permission_key_error

datatype rule_context_error =
    RcInvalidDomain rust_string
  | RcInvalidValue rust_string
  | DuplicateDomain
  | DuplicateWorld
  | DuplicateCustomKey rust_string
  | WorldDomainMismatch rust_string rust_string

text \<open>\<open>char::is_whitespace\<close>: the code points with the Unicode property \<open>White_Space\<close>.\<close>

definition is_whitespace :: "nat \<Rightarrow> bool" where
  "is_whitespace c \<longleftrightarrow>
     9 \<le> c \<and> c \<le> 13 \<or> c = 0x20 \<or> c = 0x85 \<or> c = 0xA0 \<or> c = 0x1680 \<or> 0x2000 \<le> c \<and> c \<le> 0x200A
     \<or> c = 0x2028 \<or> c = 0x2029 \<or> c = 0x202F \<or> c = 0x205F \<or> c = 0x3000"

definition reserved_char :: "nat \<Rightarrow> bool" where
  "reserved_char c \<longleftrightarrow> is_whitespace c \<or> c \<in> set (chars ''{},='')"

definition permission_domain_parse :: "rust_string \<Rightarrow> rule_context_error + rust_string" where
  "permission_domain_parse value = (if value = [] \<or> \<not> validate_namespace value then Inl (RcInvalidDomain value) else Inr value)"

definition context_value_parse :: "rust_string \<Rightarrow> rule_context_error + rust_string" where
  "context_value_parse value = (if value = [] \<or> list_ex reserved_char value then Inl (RcInvalidValue value) else Inr value)"

definition validate_namespaced_context_key :: "rust_string \<Rightarrow> context_key_error option" where
  "validate_namespaced_context_key value =
     (case split_once (of_char CHR '':'') value of
        None \<Rightarrow> Some CkInvalidFormat
      | Some (ns, p) \<Rightarrow>
          if ns = [] then Some CkEmptyNamespace
          else if p = [] then Some CkEmptyPath
          else if of_char CHR '':'' \<in> set p then Some CkInvalidFormat
          else if list_ex (\<lambda>s. s = []) (str_split (\<lambda>c. c = dot) ns) then Some CkInvalidNamespace
          else if list_ex (\<lambda>s. s = []) (str_split (\<lambda>c. c = dot \<or> c = of_char CHR ''/'') p) then Some CkInvalidPath
          else if \<not> validate_namespace ns then Some CkInvalidNamespace
          else if \<not> validate_path p then Some CkInvalidPath
          else None)"

definition context_key_parse :: "rust_string \<Rightarrow> context_key_error + rust_string" where
  "context_key_parse value =
     (if of_char CHR '':'' \<in> set value
      then (case validate_namespaced_context_key value of Some e \<Rightarrow> Inl e | None \<Rightarrow> Inr value)
      else case segment_parse value of Inl e \<Rightarrow> Inl (CkInvalidUnqualified e) | Inr _ \<Rightarrow> Inr value)"

definition rc_domain :: "rust_string \<Rightarrow> rule_context_error + rule_context" where
  "rc_domain d = map_sum id RcDomain (permission_domain_parse d)"

definition rc_custom :: "rust_string \<Rightarrow> rust_string \<Rightarrow> rule_context_error + rule_context" where
  "rc_custom key v = map_sum id (RcCustom key) (context_value_parse v)"

section \<open>Conjunctions in canonical form\<close>

text \<open>\<open>slice::sort_by\<close>, a stable sort, and a loop whose body may return an error.\<close>

fun insert_by :: "('a \<Rightarrow> 'a \<Rightarrow> ordering) \<Rightarrow> 'a \<Rightarrow> 'a list \<Rightarrow> 'a list" where
  "insert_by cmp x [] = [x]"
| "insert_by cmp x (y # ys) = (if cmp x y = Greater then y # insert_by cmp x ys else x # y # ys)"

definition sort_by :: "('a \<Rightarrow> 'a \<Rightarrow> ordering) \<Rightarrow> 'a list \<Rightarrow> 'a list" where
  "sort_by cmp xs = foldr (insert_by cmp) xs []"

fun try_fold :: "('s \<Rightarrow> 'a \<Rightarrow> 'e + 's) \<Rightarrow> 's \<Rightarrow> 'a list \<Rightarrow> 'e + 's" where
  "try_fold f s [] = Inr s"
| "try_fold f s (x # xs) = (case f s x of Inl e \<Rightarrow> Inl e | Inr s' \<Rightarrow> try_fold f s' xs)"

fun rule_context_rank :: "rule_context \<Rightarrow> nat" where
  "rule_context_rank (RcDomain _) = 0"
| "rule_context_rank (RcWorld _) = 1"
| "rule_context_rank (RcCustom _ _) = 2"
| "rule_context_rank RcGlobal = 3"
| "rule_context_rank (RcAll _) = 4"

definition compare_rule_contexts :: "rule_context \<Rightarrow> rule_context \<Rightarrow> ordering" where
  "compare_rule_contexts left right =
     then_with (cmp_of (rule_context_rank left) (rule_context_rank right))
       (case (left, right) of
          (RcDomain l, RcDomain r) \<Rightarrow> str_cmp l r
        | (RcWorld l, RcWorld r) \<Rightarrow> then_with (str_cmp (namespace l) (namespace r)) (str_cmp (path l) (path r))
        | (RcCustom lk lv, RcCustom rk rv) \<Rightarrow> then_with (str_cmp lk rk) (str_cmp lv rv)
        | _ \<Rightarrow> Equal)"

text \<open>The scan of \<open>push_unique_context\<close> over the contexts already there: \<open>None\<close> when it falls through.\<close>

fun unique_scan :: "rule_context \<Rightarrow> rule_context list \<Rightarrow> (rule_context_error + unit) option" where
  "unique_scan context [] = None"
| "unique_scan context (existing # rest) =
     (case (context, existing) of
        (RcDomain v, RcDomain current) \<Rightarrow> Some (if v = current then Inr () else Inl DuplicateDomain)
      | (RcWorld v, RcWorld current) \<Rightarrow> Some (if v = current then Inr () else Inl DuplicateWorld)
      | (RcCustom key v, RcCustom current_key current_value) \<Rightarrow>
          if key = current_key then Some (if v = current_value then Inr () else Inl (DuplicateCustomKey key))
          else unique_scan context rest
      | _ \<Rightarrow> unique_scan context rest)"

definition push_unique_context :: "rule_context list \<Rightarrow> rule_context \<Rightarrow> rule_context_error + rule_context list" where
  "push_unique_context contexts context =
     (case unique_scan context contexts of
        Some (Inl e) \<Rightarrow> Inl e
      | Some (Inr _) \<Rightarrow> Inr contexts
      | None \<Rightarrow> Inr (if context \<in> set contexts then contexts else contexts @ [context]))"

fun find_domain :: "rule_context list \<Rightarrow> rust_string option" where
  "find_domain [] = None"
| "find_domain (c # cs) = (case c of RcDomain d \<Rightarrow> Some d | _ \<Rightarrow> find_domain cs)"

fun find_world_domain :: "rule_context list \<Rightarrow> rust_string option" where
  "find_world_domain [] = None"
| "find_world_domain (c # cs) = (case c of RcWorld w \<Rightarrow> Some (namespace w) | _ \<Rightarrow> find_world_domain cs)"

fun is_domain :: "rule_context \<Rightarrow> bool" where
  "is_domain (RcDomain _) = True"
| "is_domain _ = False"

definition normalize_world_domain :: "rule_context list \<Rightarrow> rule_context_error + rule_context list" where
  "normalize_world_domain contexts =
     (case (find_domain contexts, find_world_domain contexts) of
        (Some d, Some wd) \<Rightarrow>
          if d \<noteq> wd then Inl (WorldDomainMismatch d wd) else Inr (filter (\<lambda>c. \<not> is_domain c) contexts)
      | _ \<Rightarrow> Inr contexts)"

definition rc_all :: "rule_context list \<Rightarrow> rule_context_error + rule_context" where
  "rc_all contexts =
     (case try_fold (\<lambda>flattened context.
               case context of
                 RcGlobal \<Rightarrow> Inr flattened
               | RcAll nested \<Rightarrow> try_fold push_unique_context flattened nested
               | _ \<Rightarrow> push_unique_context flattened context) [] contexts of
        Inl e \<Rightarrow> Inl e
      | Inr flattened \<Rightarrow>
          (case normalize_world_domain flattened of
             Inl e \<Rightarrow> Inl e
           | Inr normalized \<Rightarrow>
               (case sort_by compare_rule_contexts normalized of
                  [] \<Rightarrow> Inr RcGlobal
                | [context] \<Rightarrow> Inr context
                | sorted_contexts \<Rightarrow> Inr (RcAll sorted_contexts))))"

section \<open>The active context\<close>

record permission_context =
  pc_domain :: "rust_string option"
  pc_world :: "ident option"
  custom_contexts :: "rule_context list"

definition pc_global :: permission_context where
  "pc_global = \<lparr>pc_domain = None, pc_world = None, custom_contexts = []\<rparr>"

definition for_world :: "ident \<Rightarrow> permission_context" where
  "for_world w = \<lparr>pc_domain = Some (namespace w), pc_world = Some w, custom_contexts = []\<rparr>"

fun custom_scan :: "rust_string \<Rightarrow> rust_string \<Rightarrow> rule_context list \<Rightarrow> (rule_context_error + unit) option" where
  "custom_scan key v [] = None"
| "custom_scan key v (existing # rest) =
     (case existing of
        RcCustom existing_key existing_value \<Rightarrow>
          if existing_key \<noteq> key then custom_scan key v rest
          else Some (if existing_value = v then Inr () else Inl (DuplicateCustomKey key))
      | _ \<Rightarrow> custom_scan key v rest)"

definition add_custom_context ::
  "permission_context \<Rightarrow> rust_string \<Rightarrow> rust_string \<Rightarrow> rule_context_error + permission_context" where
  "add_custom_context ctx key v =
     (case rc_custom key v of
        Inl e \<Rightarrow> Inl e
      | Inr context \<Rightarrow>
          (case context of
             RcCustom k u \<Rightarrow>
               (case custom_scan k u (custom_contexts ctx) of
                  Some (Inl e) \<Rightarrow> Inl e
                | Some (Inr _) \<Rightarrow> Inr ctx
                | None \<Rightarrow> Inr (ctx\<lparr>custom_contexts := custom_contexts ctx @ [context]\<rparr>))
           | _ \<Rightarrow> Inr ctx))"

fun append_rule_context :: "permission_context \<Rightarrow> rule_context \<Rightarrow> rule_context_error + permission_context"
  and append_rule_contexts :: "permission_context \<Rightarrow> rule_context list \<Rightarrow> rule_context_error + permission_context" where
  "append_rule_context ctx RcGlobal = Inr ctx"
| "append_rule_context ctx (RcDomain d) = Inr (ctx\<lparr>pc_domain := Some d\<rparr>)"
| "append_rule_context ctx (RcWorld w) = Inr (ctx\<lparr>pc_domain := Some (namespace w), pc_world := Some w\<rparr>)"
| "append_rule_context ctx (RcCustom key v) = add_custom_context ctx key v"
| "append_rule_context ctx (RcAll contexts) = append_rule_contexts ctx contexts"
| "append_rule_contexts ctx [] = Inr ctx"
| "append_rule_contexts ctx (c # cs) =
     (case append_rule_context ctx c of Inl e \<Rightarrow> Inl e | Inr ctx' \<Rightarrow> append_rule_contexts ctx' cs)"

definition from_rule_context :: "rule_context \<Rightarrow> rule_context_error + permission_context" where
  "from_rule_context context = append_rule_context pc_global context"

fun rc_matches :: "rule_context \<Rightarrow> permission_context \<Rightarrow> bool" where
  "rc_matches RcGlobal ctx = True"
| "rc_matches (RcDomain d) ctx = (pc_domain ctx = Some d)"
| "rc_matches (RcWorld w) ctx = (pc_world ctx = Some w)"
| "rc_matches (RcCustom key v) ctx = (RcCustom key v \<in> set (custom_contexts ctx))"
| "rc_matches (RcAll contexts) ctx = list_all (\<lambda>c. rc_matches c ctx) contexts"

fun rc_specificity :: "rule_context \<Rightarrow> nat" where
  "rc_specificity RcGlobal = 0"
| "rc_specificity (RcDomain _) = 1"
| "rc_specificity (RcCustom _ _) = 1"
| "rc_specificity (RcWorld _) = 2"
| "rc_specificity (RcAll contexts) = sum_list (map rc_specificity contexts)"

fun rc_display :: "rule_context \<Rightarrow> rust_string"
  and rc_display_all :: "bool \<Rightarrow> rule_context list \<Rightarrow> rust_string" where
  "rc_display RcGlobal = chars ''global''"
| "rc_display (RcDomain d) = chars ''domain '' @ d"
| "rc_display (RcWorld w) = chars ''world '' @ identifier_to_string w"
| "rc_display (RcCustom key v) = key @ chars '' '' @ v"
| "rc_display (RcAll contexts) = rc_display_all True contexts"
| "rc_display_all first [] = []"
| "rc_display_all first (c # cs) = (if first then [] else chars '' + '') @ rc_display c @ rc_display_all False cs"

section \<open>Sorting with a comparison\<close>

text \<open>
  A comparison that separates the elements of a carrier: sorting with it puts a list without
  repetitions into the one strictly increasing order of its elements.
\<close>

locale strict_cmp =
  fixes cmp :: "'a \<Rightarrow> 'a \<Rightarrow> ordering" and carrier :: "'a \<Rightarrow> bool"
  assumes cmp_Equal: "carrier x \<Longrightarrow> carrier y \<Longrightarrow> cmp x y = Equal \<longleftrightarrow> x = y"
    and cmp_swap: "carrier x \<Longrightarrow> carrier y \<Longrightarrow> reverse_ord (cmp x y) = cmp y x"
    and cmp_trans: "carrier x \<Longrightarrow> carrier y \<Longrightarrow> carrier z \<Longrightarrow> cmp x y = Less \<Longrightarrow> cmp y z = Less \<Longrightarrow> cmp x z = Less"
begin

abbreviation increasing :: "'a list \<Rightarrow> bool" where
  "increasing \<equiv> sorted_wrt (\<lambda>x y. cmp x y = Less)"

lemma not_Greater: "carrier x \<Longrightarrow> carrier y \<Longrightarrow> x \<noteq> y \<Longrightarrow> cmp x y \<noteq> Greater \<longleftrightarrow> cmp x y = Less"
  using cmp_Equal [of x y] by (cases "cmp x y") auto

lemma less_irrefl: "carrier x \<Longrightarrow> cmp x x \<noteq> Less"
  using cmp_Equal [of x x] by simp

lemma set_insert_by [simp]: "set (insert_by cmp x ys) = insert x (set ys)"
  by (induction ys) auto

lemma insert_increasing:
  assumes "increasing ys" and "list_all carrier (x # ys)" and "x \<notin> set ys"
  shows "increasing (insert_by cmp x ys)"
  using assms
proof (induction ys)
  case (Cons y ys)
  show ?case
  proof (cases "cmp x y = Greater")
    case True
    then have "cmp y x = Less" using Cons.prems cmp_swap [of x y] by simp
    with True Cons show ?thesis by (simp add: list_all_iff)
  next
    case False
    then have xy: "cmp x y = Less" using Cons.prems not_Greater [of x y] by simp
    have "cmp x z = Less" if "z \<in> set ys" for z
      using that Cons.prems cmp_trans [OF _ _ _ xy, of z] by (simp add: list_all_iff)
    with False xy Cons.prems show ?thesis by simp
  qed
qed simp

lemma sort_by_sorts:
  assumes "distinct xs" and "list_all carrier xs"
  shows "set (sort_by cmp xs) = set xs \<and> increasing (sort_by cmp xs)"
  using assms
proof (induction xs)
  case (Cons x xs)
  then have "increasing (insert_by cmp x (sort_by cmp xs))"
    by (intro insert_increasing) (auto simp: list_all_iff)
  with Cons show ?case by (simp add: sort_by_def)
qed (simp add: sort_by_def)

lemma increasing_unique:
  assumes "increasing xs" and "increasing ys" and "set xs = set ys" and "list_all carrier xs"
  shows "xs = ys"
  using assms
proof (induction xs arbitrary: ys)
  case (Cons x xs)
  then obtain y ys' where y: "ys = y # ys'" by (cases ys) auto
  have c: "carrier x" "carrier y" using Cons.prems y by (auto simp: list_all_iff)
  have "x = y"
  proof (rule ccontr)
    assume "x \<noteq> y"
    with Cons.prems(3) y have "x \<in> set ys'" "y \<in> set xs" by (auto simp: set_eq_iff)
    with Cons.prems(1,2) y have "cmp x y = Less" "cmp y x = Less" by auto
    with c cmp_swap [of x y] show False by simp
  qed
  moreover have "x \<notin> set xs" "y \<notin> set ys'" using Cons.prems(1,2) y c less_irrefl by auto
  ultimately have "set xs = set ys'" using Cons.prems(3) y by auto
  with Cons.IH [of ys'] Cons.prems y \<open>x = y\<close> show ?case by simp
qed simp

lemma sort_by_increasing:
  assumes "increasing xs" and "list_all carrier xs"
  shows "sort_by cmp xs = xs"
proof -
  have "x \<notin> set ys" if "increasing (x # ys)" "carrier x" for x ys using that less_irrefl by auto
  with assms have "distinct xs" by (induction xs) auto
  from sort_by_sorts [OF this assms(2)] assms increasing_unique [of xs "sort_by cmp xs"] show ?thesis by simp
qed

end

fun is_leaf :: "rule_context \<Rightarrow> bool" where
  "is_leaf (RcDomain _) = True"
| "is_leaf (RcWorld _) = True"
| "is_leaf (RcCustom _ _) = True"
| "is_leaf _ = False"

lemma then_with_assoc_Less: "then_with r s = Less \<longleftrightarrow> r = Less \<or> r = Equal \<and> s = Less"
  by (cases r) auto

interpretation rcs: strict_cmp compare_rule_contexts is_leaf
proof unfold_locales
  fix x y z :: rule_context
  assume x: "is_leaf x" and y: "is_leaf y"
  show "compare_rule_contexts x y = Equal \<longleftrightarrow> x = y"
    using x y by (cases x; cases y) (auto simp: compare_rule_contexts_def ordering_simps str_cmp_Equal)
  show "reverse_ord (compare_rule_contexts x y) = compare_rule_contexts y x"
    using x y by (cases x; cases y) (auto simp: compare_rule_contexts_def reverse_then_with cmp_of_swap str_cmp_swap)
  assume z: "is_leaf z" and l: "compare_rule_contexts x y = Less" "compare_rule_contexts y z = Less"
  show "compare_rule_contexts x z = Less"
    using x y z l
    by (cases x; cases y; cases z)
      (auto simp: compare_rule_contexts_def ordering_simps str_cmp_Equal then_with_assoc_Less intro: str_cmp_trans)
qed

section \<open>Building a conjunction\<close>

text \<open>What a constraint binds: two constraints on the same slot agree or exclude each other.\<close>

fun slot :: "rule_context \<Rightarrow> nat \<times> rust_string" where
  "slot (RcDomain _) = (0, [])"
| "slot (RcWorld _) = (1, [])"
| "slot (RcCustom key _) = (2, key)"
| "slot RcGlobal = (3, [])"
| "slot (RcAll _) = (4, [])"

definition bindings :: "rule_context list \<Rightarrow> bool" where
  "bindings cs \<longleftrightarrow> list_all is_leaf cs \<and> distinct (map slot cs)"

lemma unique_scan_cases:
  assumes "is_leaf c" and "list_all is_leaf cs"
  shows "case unique_scan c cs of
      None \<Rightarrow> slot c \<notin> slot ` set cs
    | Some (Inr _) \<Rightarrow> c \<in> set cs
    | Some (Inl e) \<Rightarrow> \<exists>x\<in>set cs. slot x = slot c \<and> x \<noteq> c"
  using assms(2)
proof (induction cs)
  case (Cons x cs)
  then show ?case using assms(1)
    by (cases c; cases x) (auto split: option.splits sum.splits)
qed simp

lemma push_unique_Inr:
  assumes "bindings cs" and "is_leaf c" and "push_unique_context cs c = Inr cs'"
  shows "bindings cs' \<and> set cs' = insert c (set cs)"
  using assms unique_scan_cases [of c cs]
  by (auto simp: push_unique_context_def bindings_def split: option.splits sum.splits if_splits)

lemma push_unique_Inl:
  assumes "bindings cs" and "is_leaf c" and "push_unique_context cs c = Inl e"
  shows "\<exists>x\<in>set cs. slot x = slot c \<and> x \<noteq> c"
  using assms unique_scan_cases [of c cs]
  by (auto simp: push_unique_context_def bindings_def split: option.splits sum.splits)

lemma push_unique_fold:
  assumes "bindings cs" and "list_all is_leaf xs"
  shows "case try_fold push_unique_context cs xs of
      Inr r \<Rightarrow> bindings r \<and> set r = set cs \<union> set xs
    | Inl e \<Rightarrow> \<exists>x\<in>set cs \<union> set xs. \<exists>y\<in>set cs \<union> set xs. slot x = slot y \<and> x \<noteq> y"
  using assms
proof (induction xs arbitrary: cs)
  case (Cons x xs)
  show ?case
  proof (cases "push_unique_context cs x")
    case (Inl e)
    with push_unique_Inl [of cs x e] Cons.prems show ?thesis by auto
  next
    case (Inr cs')
    with push_unique_Inr [of cs x cs'] Cons.prems have "bindings cs'" "set cs' = insert x (set cs)" by auto
    with Cons.IH [of cs'] Cons.prems Inr show ?thesis by (simp split: sum.splits)
  qed
qed simp

lemma try_fold_append: "try_fold f s (xs @ ys) = (case try_fold f s xs of Inl e \<Rightarrow> Inl e | Inr s' \<Rightarrow> try_fold f s' ys)"
  by (induction xs arbitrary: s) (auto split: sum.splits)

fun rc_parts :: "rule_context \<Rightarrow> rule_context list" where
  "rc_parts RcGlobal = []"
| "rc_parts (RcAll cs) = cs"
| "rc_parts c = [c]"

lemma rc_all_flatten:
  "try_fold (\<lambda>flattened context.
       case context of
         RcGlobal \<Rightarrow> Inr flattened
       | RcAll nested \<Rightarrow> try_fold push_unique_context flattened nested
       | _ \<Rightarrow> push_unique_context flattened context) acc contexts
   = try_fold push_unique_context acc (concat (map rc_parts contexts))"
  by (induction contexts arbitrary: acc) (auto simp: try_fold_append split: rule_context.splits sum.splits)

fun is_world :: "rule_context \<Rightarrow> bool" where
  "is_world (RcWorld _) = True"
| "is_world _ = False"

fun canonical :: "rule_context \<Rightarrow> bool" where
  "canonical (RcAll cs) \<longleftrightarrow> 2 \<le> length cs \<and> bindings cs \<and> sorted_wrt (\<lambda>x y. compare_rule_contexts x y = Less) cs
     \<and> \<not> (list_ex is_domain cs \<and> list_ex is_world cs)"
| "canonical c \<longleftrightarrow> True"

text \<open>A consistent active context: a world lies in its own domain, and each custom key has one value.\<close>

definition pc_ok :: "permission_context \<Rightarrow> bool" where
  "pc_ok ctx \<longleftrightarrow> (\<forall>w. pc_world ctx = Some w \<longrightarrow> pc_domain ctx = Some (namespace w))
     \<and> bindings (custom_contexts ctx) \<and> list_all (\<lambda>c. \<not> is_domain c \<and> \<not> is_world c) (custom_contexts ctx)"

lemma find_domain_eq: "find_domain cs = (case filter is_domain cs of [] \<Rightarrow> None | c # _ \<Rightarrow> (case c of RcDomain d \<Rightarrow> Some d | _ \<Rightarrow> None))"
  by (induction cs) (auto split: rule_context.splits)

lemma find_domain_Some: "find_domain cs = Some d \<Longrightarrow> RcDomain d \<in> set cs"
  by (induction cs) (auto split: rule_context.splits)

lemma find_domain_None: "find_domain cs = None \<longleftrightarrow> \<not> list_ex is_domain cs"
  by (induction cs) (auto split: rule_context.splits)

lemma find_world_Some: "find_world_domain cs = Some n \<Longrightarrow> \<exists>w. RcWorld w \<in> set cs \<and> namespace w = n"
  by (induction cs) (auto split: rule_context.splits)

lemma find_world_None: "find_world_domain cs = None \<longleftrightarrow> \<not> list_ex is_world cs"
  by (induction cs) (auto split: rule_context.splits)

lemma bindings_filter: "bindings cs \<Longrightarrow> bindings (filter P cs)"
  by (auto simp: bindings_def list_all_iff distinct_map inj_on_def)

lemma same_slot: "bindings cs \<Longrightarrow> x \<in> set cs \<Longrightarrow> y \<in> set cs \<Longrightarrow> slot x = slot y \<Longrightarrow> x = y"
  by (auto simp: bindings_def distinct_map inj_on_def)

lemma is_domain_slot: "is_domain c \<Longrightarrow> slot c = (0, [])"
  by (cases c) auto

lemma normalize_Inr:
  assumes "bindings cs" and "normalize_world_domain cs = Inr r"
  shows "bindings r \<and> \<not> (list_ex is_domain r \<and> list_ex is_world r) \<and> set r \<subseteq> set cs
    \<and> (\<forall>c\<in>set cs. c \<notin> set r \<longrightarrow> (\<exists>w. RcWorld w \<in> set r \<and> c = RcDomain (namespace w)))"
proof (cases "find_domain cs = None \<or> find_world_domain cs = None")
  case True
  with assms have "r = cs" by (auto simp: normalize_world_domain_def split: option.splits)
  with True assms(1) show ?thesis by (auto simp: find_domain_None find_world_None)
next
  case False
  then obtain d n where dn: "find_domain cs = Some d" "find_world_domain cs = Some n" by auto
  with assms(2) have r: "d = n" "r = filter (\<lambda>c. \<not> is_domain c) cs"
    by (auto simp: normalize_world_domain_def split: if_splits)
  obtain w where w: "RcWorld w \<in> set cs" "namespace w = n" using find_world_Some [OF dn(2)] by blast
  have "c = RcDomain (namespace w)" if "c \<in> set cs" "is_domain c" for c
    using same_slot [OF assms(1) that(1) find_domain_Some [OF dn(1)]] is_domain_slot [OF that(2)] r w by simp
  with r w assms(1) bindings_filter show ?thesis by (auto simp: list_ex_iff)
qed

lemma normalize_Inl:
  assumes "normalize_world_domain cs = Inl e"
  shows "\<exists>d w. RcDomain d \<in> set cs \<and> RcWorld w \<in> set cs \<and> d \<noteq> namespace w"
  using assms find_domain_Some [of cs] find_world_Some [of cs]
  by (auto simp: normalize_world_domain_def split: option.splits if_splits)

lemma conflicting_slots:
  assumes "pc_ok ctx" and "is_leaf x" and "is_leaf y" and "slot x = slot y" and "x \<noteq> y"
  shows "\<not> (rc_matches x ctx \<and> rc_matches y ctx)"
  using assms same_slot [of "custom_contexts ctx" x y]
  by (cases x; cases y) (auto simp: pc_ok_def)

lemma canonical_flat:
  "canonical c \<Longrightarrow> list_all is_leaf (rc_parts c)"
  "canonical c \<Longrightarrow> rc_matches c ctx \<longleftrightarrow> list_all (\<lambda>x. rc_matches x ctx) (rc_parts c)"
  by (cases c; simp add: bindings_def)+

lemma canonical_of_sorted:
  assumes "bindings cs" and "sorted_wrt (\<lambda>x y. compare_rule_contexts x y = Less) cs"
    and "\<not> (list_ex is_domain cs \<and> list_ex is_world cs)"
  shows "canonical (case cs of [] \<Rightarrow> RcGlobal | [c] \<Rightarrow> c | _ \<Rightarrow> RcAll cs)"
    and "set (rc_parts (case cs of [] \<Rightarrow> RcGlobal | [c] \<Rightarrow> c | _ \<Rightarrow> RcAll cs)) = set cs"
proof -
  have "is_leaf c \<Longrightarrow> canonical c \<and> rc_parts c = [c]" for c by (cases c) auto
  then show "canonical (case cs of [] \<Rightarrow> RcGlobal | [c] \<Rightarrow> c | _ \<Rightarrow> RcAll cs)"
    and "set (rc_parts (case cs of [] \<Rightarrow> RcGlobal | [c] \<Rightarrow> c | _ \<Rightarrow> RcAll cs)) = set cs"
    using assms by (auto simp: bindings_def split: list.splits)
qed

lemma bindings_sort:
  assumes "bindings cs"
  shows "bindings (sort_by compare_rule_contexts cs) \<and> set (sort_by compare_rule_contexts cs) = set cs
    \<and> sorted_wrt (\<lambda>x y. compare_rule_contexts x y = Less) (sort_by compare_rule_contexts cs)"
proof -
  let ?s = "sort_by compare_rule_contexts cs"
  from assms have d: "distinct cs" "list_all is_leaf cs" by (auto simp: bindings_def distinct_map)
  note s = rcs.sort_by_sorts [OF d]
  with d have leaf: "list_all is_leaf ?s" by (simp add: list_all_iff)
  have "distinct ys" if "sorted_wrt (\<lambda>x y. compare_rule_contexts x y = Less) ys" "list_all is_leaf ys" for ys
    using that rcs.less_irrefl by (induction ys) auto
  with s leaf have "distinct ?s" by blast
  moreover have "inj_on slot (set ?s)" using assms s by (simp add: bindings_def distinct_map)
  ultimately show ?thesis using s leaf by (simp add: bindings_def distinct_map)
qed

lemma rc_all_cases:
  assumes "list_all canonical cs"
  defines "xs \<equiv> concat (map rc_parts cs)"
  shows "case rc_all cs of
      Inr c \<Rightarrow> canonical c \<and> set (rc_parts c) \<subseteq> set xs
        \<and> (\<forall>x\<in>set xs. x \<notin> set (rc_parts c) \<longrightarrow> (\<exists>w. RcWorld w \<in> set (rc_parts c) \<and> x = RcDomain (namespace w)))
    | Inl e \<Rightarrow> (\<exists>x\<in>set xs. \<exists>y\<in>set xs. slot x = slot y \<and> x \<noteq> y)
        \<or> (\<exists>d w. RcDomain d \<in> set xs \<and> RcWorld w \<in> set xs \<and> d \<noteq> namespace w)"
proof -
  have leaf: "list_all is_leaf xs" using assms canonical_flat(1) by (auto simp: list_all_iff)
  have f: "rc_all cs = (case try_fold push_unique_context [] xs of Inl e \<Rightarrow> Inl e
      | Inr flattened \<Rightarrow> (case normalize_world_domain flattened of Inl e \<Rightarrow> Inl e
         | Inr r \<Rightarrow> Inr (case sort_by compare_rule_contexts r of [] \<Rightarrow> RcGlobal | [c] \<Rightarrow> c | _ \<Rightarrow> RcAll (sort_by compare_rule_contexts r))))"
    unfolding rc_all_def rc_all_flatten xs_def by (auto split: sum.splits list.splits)
  have b: "bindings []" by (simp add: bindings_def)
  show ?thesis
  proof (cases "try_fold push_unique_context [] xs")
    case (Inl e)
    with push_unique_fold [OF b leaf] f show ?thesis by simp
  next
    case (Inr r)
    with push_unique_fold [OF b leaf] have r: "bindings r" "set r = set xs" by auto
    show ?thesis
    proof (cases "normalize_world_domain r")
      case (Inl e)
      with normalize_Inl [OF this] f Inr r show ?thesis by simp
    next
      case n: (Inr r')
      note nr = normalize_Inr [OF r(1) n]
      let ?s = "sort_by compare_rule_contexts r'"
      have s: "bindings ?s" "set ?s = set r'" "sorted_wrt (\<lambda>x y. compare_rule_contexts x y = Less) ?s"
        using bindings_sort [OF conjunct1 [OF nr]] by simp_all
      then have nd: "\<not> (list_ex is_domain ?s \<and> list_ex is_world ?s)" using nr by (simp add: list_ex_iff)
      note c = canonical_of_sorted [OF s(1,3) nd]
      have "rc_all cs = Inr (case ?s of [] \<Rightarrow> RcGlobal | [c] \<Rightarrow> c | _ \<Rightarrow> RcAll ?s)" using f Inr n by simp
      then obtain c where c: "rc_all cs = Inr c" "canonical c" "set (rc_parts c) = set r'"
        using c(1) c(2) [unfolded s(2)] by metis
      from nr have nr': "set r' \<subseteq> set xs" "\<forall>x\<in>set xs. x \<notin> set r' \<longrightarrow> (\<exists>w. RcWorld w \<in> set r' \<and> x = RcDomain (namespace w))"
        unfolding r(2) by blast+
      show ?thesis unfolding c(1) sum.case c(3) by (intro conjI c(2) nr')
    qed
  qed
qed

lemma rc_all_Inr:
  assumes "list_all canonical cs" and "rc_all cs = Inr c"
  defines "xs \<equiv> concat (map rc_parts cs)"
  shows "canonical c" and "set (rc_parts c) = {x \<in> set xs. \<not> (is_domain x \<and> list_ex is_world xs)}"
proof -
  from rc_all_cases [OF assms(1)] assms(2) show c: "canonical c" by simp
  have f: "set (rc_parts c) \<subseteq> set xs" "\<forall>x\<in>set xs. x \<notin> set (rc_parts c) \<longrightarrow> (\<exists>w. RcWorld w \<in> set (rc_parts c) \<and> x = RcDomain (namespace w))"
    using rc_all_cases [OF assms(1)] assms(2) unfolding xs_def by simp_all
  have nb: "\<not> (list_ex is_domain (rc_parts c) \<and> list_ex is_world (rc_parts c))" using c by (cases c) auto
  have w: "x \<in> set (rc_parts c)" if "x \<in> set xs" "\<not> is_domain x" for x using that f(2) by (metis is_domain.simps(1))
  have "is_domain x \<Longrightarrow> \<not> is_world x" for x by (cases x) auto
  then have "list_ex is_world (rc_parts c) \<longleftrightarrow> list_ex is_world xs" using f(1) w unfolding list_ex_iff by blast
  moreover have "list_ex is_world (rc_parts c)" if "x \<in> set xs" "x \<notin> set (rc_parts c)" for x
    using f(2) that unfolding list_ex_iff by (metis is_world.simps(1))
  ultimately have m: "list_ex is_world (rc_parts c) \<longleftrightarrow> list_ex is_world xs" "\<And>x. x \<in> set xs \<Longrightarrow> x \<notin> set (rc_parts c) \<Longrightarrow> list_ex is_world xs"
    by simp_all
  have d: "\<not> list_ex is_world xs" if "x \<in> set (rc_parts c)" "is_domain x" for x
    using nb that unfolding m(1) by (auto simp: list_ex_iff)
  show "set (rc_parts c) = {x \<in> set xs. \<not> (is_domain x \<and> list_ex is_world xs)}"
  proof
    show "set (rc_parts c) \<subseteq> {x \<in> set xs. \<not> (is_domain x \<and> list_ex is_world xs)}" using f(1) d by blast
    show "{x \<in> set xs. \<not> (is_domain x \<and> list_ex is_world xs)} \<subseteq> set (rc_parts c)" using w m(2) by blast
  qed
qed

fun unflat :: "rule_context list \<Rightarrow> rule_context" where
  "unflat [] = RcGlobal"
| "unflat [c] = c"
| "unflat (c # d # cs) = RcAll (c # d # cs)"

lemma unflat_flat: "canonical c \<Longrightarrow> unflat (rc_parts c) = c"
proof (cases c)
  case (RcAll cs)
  then show "canonical c \<Longrightarrow> unflat (rc_parts c) = c" by (cases cs rule: unflat.cases) auto
qed auto

lemma canonical_unique:
  assumes "canonical c" and "canonical d" and "set (rc_parts c) = set (rc_parts d)"
  shows "c = d"
proof -
  have s: "sorted_wrt (\<lambda>x y. compare_rule_contexts x y = Less) (rc_parts e)" if "canonical e" for e using that by (cases e) auto
  have "rc_parts c = rc_parts d" by (rule rcs.increasing_unique [OF s [OF assms(1)] s [OF assms(2)] assms(3) canonical_flat(1) [OF assms(1)]])
  from arg_cong [OF this, of unflat] show ?thesis unfolding unflat_flat [OF assms(1)] unflat_flat [OF assms(2)] .
qed

lemma rc_all_Inr_agree:
  assumes "list_all canonical cs" and "rc_all cs = Inr c"
  defines "xs \<equiv> concat (map rc_parts cs)"
  shows "\<not> (\<exists>x\<in>set xs. \<exists>y\<in>set xs. slot x = slot y \<and> x \<noteq> y)"
    and "\<not> (\<exists>d w. RcDomain d \<in> set xs \<and> RcWorld w \<in> set xs \<and> d \<noteq> namespace w)"
proof -
  have leaf: "list_all is_leaf xs" using assms(1) canonical_flat(1) unfolding xs_def by (auto simp: list_all_iff)
  have b: "bindings []" by (simp add: bindings_def)
  obtain r where r: "try_fold push_unique_context [] xs = Inr r" "\<exists>n. normalize_world_domain r = Inr n"
    using assms(2) unfolding rc_all_def rc_all_flatten xs_def by (auto split: sum.splits)
  with push_unique_fold [OF b leaf] have r': "bindings r" "set r = set xs" by simp_all
  with same_slot show u: "\<not> (\<exists>x\<in>set xs. \<exists>y\<in>set xs. slot x = slot y \<and> x \<noteq> y)" by metis
  from r(2) obtain n where n: "normalize_world_domain r = Inr n" by blast
  show "\<not> (\<exists>d w. RcDomain d \<in> set xs \<and> RcWorld w \<in> set xs \<and> d \<noteq> namespace w)"
  proof (rule notI, elim exE conjE)
    fix d w
    assume d: "RcDomain d \<in> set xs" and w: "RcWorld w \<in> set xs" and ne: "d \<noteq> namespace w"
    note nr = normalize_Inr [OF r'(1) n]
    have wn: "RcWorld w \<in> set n" using nr w r'(2) by blast
    with nr have "RcDomain d \<notin> set n" unfolding list_ex_iff by (metis is_domain.simps(1) is_world.simps(1))
    with nr d r'(2) obtain v where v: "RcWorld v \<in> set n" "RcDomain d = RcDomain (namespace v)" by blast
    with same_slot [of n "RcWorld v" "RcWorld w"] nr wn have "v = w" by simp
    with v(2) ne show False by simp
  qed
qed

text \<open>
  C26. Conjunctions mean what they say: building one from canonical contexts either gives a canonical
  context that a consistent active context satisfies exactly when it satisfies every part, or
  is refused, and then no consistent active context satisfies all the parts.
\<close>
theorem conjunction_of_contexts:
  assumes "list_all canonical cs" and "pc_ok ctx"
  shows "case rc_all cs of
      Inr c \<Rightarrow> canonical c \<and> (rc_matches c ctx \<longleftrightarrow> list_all (\<lambda>x. rc_matches x ctx) cs)
    | Inl e \<Rightarrow> \<not> list_all (\<lambda>x. rc_matches x ctx) cs"
proof -
  let ?xs = "concat (map rc_parts cs)"
  have leaf: "list_all is_leaf ?xs" using assms(1) canonical_flat(1) by (auto simp: list_all_iff)
  have m: "list_all (\<lambda>x. rc_matches x ctx) cs \<longleftrightarrow> list_all (\<lambda>x. rc_matches x ctx) ?xs"
    using assms(1) canonical_flat(2) by (auto simp: list_all_iff)
  have w: "rc_matches (RcWorld w) ctx \<Longrightarrow> rc_matches (RcDomain (namespace w)) ctx" for w
    using assms(2) by (simp add: pc_ok_def)
  show ?thesis
  proof (cases "rc_all cs")
    case (Inr c)
    with rc_all_cases [OF assms(1)] have c: "canonical c" "set (rc_parts c) \<subseteq> set ?xs"
      "\<forall>x\<in>set ?xs. x \<notin> set (rc_parts c) \<longrightarrow> (\<exists>w. RcWorld w \<in> set (rc_parts c) \<and> x = RcDomain (namespace w))" by auto
    have "list_all (\<lambda>x. rc_matches x ctx) (rc_parts c) \<longleftrightarrow> list_all (\<lambda>x. rc_matches x ctx) ?xs"
      using c(2,3) w unfolding list_all_iff by blast
    with Inr c(1) m canonical_flat(2) [OF c(1)] show ?thesis by simp
  next
    case (Inl e)
    with rc_all_cases [OF assms(1)]
    have "(\<exists>x\<in>set ?xs. \<exists>y\<in>set ?xs. slot x = slot y \<and> x \<noteq> y)
      \<or> (\<exists>d v. RcDomain d \<in> set ?xs \<and> RcWorld v \<in> set ?xs \<and> d \<noteq> namespace v)" by simp
    then consider x y where "x \<in> set ?xs" "y \<in> set ?xs" "slot x = slot y" "x \<noteq> y"
      | d v where "RcDomain d \<in> set ?xs" "RcWorld v \<in> set ?xs" "d \<noteq> namespace v" by blast
    then have "\<not> list_all (\<lambda>x. rc_matches x ctx) ?xs"
    proof cases
      case 1
      with conflicting_slots [OF assms(2)] leaf show ?thesis unfolding list_all_iff by blast
    next
      case 2
      have "\<not> (rc_matches (RcDomain d) ctx \<and> rc_matches (RcWorld v) ctx)" using 2(3) w [of v] by auto
      with 2 show ?thesis unfolding list_all_iff by blast
    qed
    with Inl m show ?thesis by simp
  qed
qed

theorem conjunction_of_contexts_witness:
  "case rc_all [RcWorld (vanilla (chars ''nether'')), RcDomain (chars ''minecraft'')] of
      Inr c \<Rightarrow> canonical c
        \<and> (rc_matches c (for_world (vanilla (chars ''nether'')))
           \<longleftrightarrow> list_all (\<lambda>x. rc_matches x (for_world (vanilla (chars ''nether'')))) [RcWorld (vanilla (chars ''nether'')), RcDomain (chars ''minecraft'')])
    | Inl e \<Rightarrow> \<not> list_all (\<lambda>x. rc_matches x (for_world (vanilla (chars ''nether'')))) [RcWorld (vanilla (chars ''nether'')), RcDomain (chars ''minecraft'')]"
  by (rule conjunction_of_contexts) (simp_all add: pc_ok_def for_world_def bindings_def)

text \<open>Neither the order nor the repetition of the parts matters.\<close>

lemma conjunction_order:
  assumes "list_all canonical cs" and "list_all canonical ds" and "set cs = set ds" and "rc_all cs = Inr c"
  shows "rc_all ds = Inr c"
proof -
  let ?x = "concat (map rc_parts cs)" and ?y = "concat (map rc_parts ds)"
  have e: "set ?x = set ?y" using assms(3) by simp
  show ?thesis
  proof (cases "rc_all ds")
    case (Inr d)
    have "set (rc_parts c) = set (rc_parts d)"
      unfolding rc_all_Inr(2) [OF assms(1,4)] rc_all_Inr(2) [OF assms(2) Inr] list_ex_iff e by (rule refl)
    with canonical_unique rc_all_Inr(1) assms(1,2,4) Inr show ?thesis by metis
  next
    case (Inl err)
    have "(\<exists>x\<in>set ?y. \<exists>y\<in>set ?y. slot x = slot y \<and> x \<noteq> y) \<or> (\<exists>d w. RcDomain d \<in> set ?y \<and> RcWorld w \<in> set ?y \<and> d \<noteq> namespace w)"
      using rc_all_cases [OF assms(2)] unfolding Inl sum.case .
    with rc_all_Inr_agree [OF assms(1,4)] show ?thesis unfolding e by blast
  qed
qed

text \<open>A canonical context is the conjunction of its own parts.\<close>

lemma rc_all_flat:
  assumes "canonical c"
  shows "rc_all (rc_parts c) = Inr c"
proof -
  have leaf: "is_leaf x \<Longrightarrow> canonical x \<and> rc_parts x = [x]" for x by (cases x) auto
  have fl: "list_all canonical (rc_parts c)" using canonical_flat(1) [OF assms] leaf by (auto simp: list_all_iff)
  have "list_all is_leaf xs \<Longrightarrow> concat (map rc_parts xs) = xs" for xs using leaf by (induction xs) auto
  then have cc: "concat (map rc_parts (rc_parts c)) = rc_parts c" using canonical_flat(1) [OF assms] by blast
  have b: "bindings (rc_parts c)" "\<not> (list_ex is_domain (rc_parts c) \<and> list_ex is_world (rc_parts c))"
    using assms by (cases c; simp add: bindings_def)+
  show ?thesis
  proof (cases "rc_all (rc_parts c)")
    case (Inr d)
    have "set (rc_parts d) = set (rc_parts c)" unfolding rc_all_Inr(2) [OF fl Inr] cc using b(2) by (auto simp: list_ex_iff)
    with canonical_unique [OF rc_all_Inr(1) [OF fl Inr] assms] Inr show ?thesis by simp
  next
    case (Inl e)
    have "(\<exists>x\<in>set (rc_parts c). \<exists>y\<in>set (rc_parts c). slot x = slot y \<and> x \<noteq> y)
      \<or> (\<exists>d w. RcDomain d \<in> set (rc_parts c) \<and> RcWorld w \<in> set (rc_parts c) \<and> d \<noteq> namespace w)"
      using rc_all_cases [OF fl] unfolding Inl sum.case cc .
    with same_slot [OF b(1)] b(2) show ?thesis unfolding list_ex_iff by (metis is_domain.simps(1) is_world.simps(1))
  qed
qed

section \<open>The active context of a rule\<close>

fun values_ok :: "rule_context \<Rightarrow> bool" where
  "values_ok (RcCustom key v) \<longleftrightarrow> context_value_parse v = Inr v"
| "values_ok c \<longleftrightarrow> True"

lemma custom_scan_None: "\<forall>v. RcCustom k v \<notin> set cs \<Longrightarrow> custom_scan k v cs = None"
  by (induction cs) (auto split: rule_context.splits)

lemma append_one:
  assumes "pc_ok ctx" and "is_leaf c" and "values_ok c"
    and "is_domain c \<or> is_world c \<Longrightarrow> pc_world ctx = None"
    and "slot c \<notin> slot ` set (custom_contexts ctx)"
  shows "\<exists>ctx'. append_rule_context ctx c = Inr ctx' \<and> pc_ok ctx' \<and> rc_matches c ctx'
    \<and> set (custom_contexts ctx') = (if is_domain c \<or> is_world c then {} else {c}) \<union> set (custom_contexts ctx)
    \<and> (\<not> is_domain c \<and> \<not> is_world c \<longrightarrow> pc_domain ctx' = pc_domain ctx \<and> pc_world ctx' = pc_world ctx)
    \<and> (\<not> is_world c \<longrightarrow> pc_world ctx' = pc_world ctx)"
proof (cases c)
  case (RcCustom k v)
  have "custom_scan k v (custom_contexts ctx) = None" using assms(5) RcCustom by (intro custom_scan_None) force
  with RcCustom assms show ?thesis
    by (auto simp: add_custom_context_def rc_custom_def pc_ok_def bindings_def)
qed (use assms in \<open>auto simp: pc_ok_def\<close>)

lemma append_leaves:
  assumes "pc_ok ctx" and "bindings cs" and "list_all values_ok cs"
    and "\<not> (list_ex is_domain cs \<and> list_ex is_world cs)"
    and "list_ex is_domain cs \<or> list_ex is_world cs \<Longrightarrow> pc_world ctx = None"
    and "slot ` set cs \<inter> slot ` set (custom_contexts ctx) = {}"
  shows "\<exists>ctx'. append_rule_contexts ctx cs = Inr ctx' \<and> pc_ok ctx' \<and> list_all (\<lambda>c. rc_matches c ctx') cs
    \<and> set (custom_contexts ctx) \<subseteq> set (custom_contexts ctx')
    \<and> (\<not> list_ex is_domain cs \<and> \<not> list_ex is_world cs \<longrightarrow> pc_domain ctx' = pc_domain ctx \<and> pc_world ctx' = pc_world ctx)"
  using assms
proof (induction cs arbitrary: ctx)
  case (Cons c cs)
  have leaf: "is_leaf c" "slot c \<notin> slot ` set cs" using Cons.prems(2) by (auto simp: bindings_def)
  obtain ctx1 where c1: "append_rule_context ctx c = Inr ctx1" "pc_ok ctx1" "rc_matches c ctx1"
      "set (custom_contexts ctx1) = (if is_domain c \<or> is_world c then {} else {c}) \<union> set (custom_contexts ctx)"
      "\<not> is_domain c \<and> \<not> is_world c \<longrightarrow> pc_domain ctx1 = pc_domain ctx \<and> pc_world ctx1 = pc_world ctx"
      "\<not> is_world c \<longrightarrow> pc_world ctx1 = pc_world ctx"
    using append_one [of ctx c] Cons.prems leaf by auto
  have alone: "is_domain c \<or> is_world c \<Longrightarrow> \<not> list_ex is_domain cs \<and> \<not> list_ex is_world cs"
  proof -
    have "is_domain x \<Longrightarrow> is_domain y \<Longrightarrow> slot x = slot y" "is_world x \<Longrightarrow> is_world y \<Longrightarrow> slot x = slot y" for x y
      by (cases x; cases y; simp)+
    then show "is_domain c \<or> is_world c \<Longrightarrow> \<not> list_ex is_domain cs \<and> \<not> list_ex is_world cs"
      using leaf(2) Cons.prems(4) unfolding list_ex_iff by (metis imageI list.set_intros(1,2))
  qed
  have "\<exists>ctx'. append_rule_contexts ctx1 cs = Inr ctx' \<and> pc_ok ctx' \<and> list_all (\<lambda>c. rc_matches c ctx') cs
    \<and> set (custom_contexts ctx1) \<subseteq> set (custom_contexts ctx')
    \<and> (\<not> list_ex is_domain cs \<and> \<not> list_ex is_world cs \<longrightarrow> pc_domain ctx' = pc_domain ctx1 \<and> pc_world ctx' = pc_world ctx1)"
  proof (rule Cons.IH [OF c1(2)])
    show "bindings cs" "list_all values_ok cs" using Cons.prems by (auto simp: bindings_def)
    show "\<not> (list_ex is_domain cs \<and> list_ex is_world cs)" using Cons.prems by auto
    show "list_ex is_domain cs \<or> list_ex is_world cs \<Longrightarrow> pc_world ctx1 = None"
      using alone c1(5) Cons.prems(5) by auto
    show "slot ` set cs \<inter> slot ` set (custom_contexts ctx1) = {}" using c1(4) leaf(2) Cons.prems(6) by auto
  qed
  then obtain ctx' where c': "append_rule_contexts ctx1 cs = Inr ctx'" "pc_ok ctx'" "list_all (\<lambda>c. rc_matches c ctx') cs"
    "set (custom_contexts ctx1) \<subseteq> set (custom_contexts ctx')"
    "\<not> list_ex is_domain cs \<and> \<not> list_ex is_world cs \<longrightarrow> pc_domain ctx' = pc_domain ctx1 \<and> pc_world ctx' = pc_world ctx1" by blast
  have "rc_matches c ctx'" using leaf(1) c1(3) c'(4,5) alone by (cases c) auto
  moreover have "set (custom_contexts ctx) \<subseteq> set (custom_contexts ctx')" using c1(4) c'(4) by auto
  ultimately show ?case using c1(1,5) c' by auto
qed simp

lemma rule_context_active:
  assumes "canonical c" and "list_all values_ok (rc_parts c)"
  shows "\<exists>ctx. from_rule_context c = Inr ctx \<and> pc_ok ctx \<and> rc_matches c ctx"
proof -
  have g: "pc_ok pc_global" by (simp add: pc_ok_def pc_global_def bindings_def)
  have b: "bindings (rc_parts c)" "\<not> (list_ex is_domain (rc_parts c) \<and> list_ex is_world (rc_parts c))"
    using assms(1) by (cases c; simp add: bindings_def)+
  have "append_rule_context ctx c = append_rule_contexts ctx (rc_parts c)" for ctx
    by (cases c) (auto split: sum.splits)
  then show ?thesis
    using append_leaves [OF g b(1) assms(2) b(2)] canonical_flat(2) [OF assms(1)]
    unfolding from_rule_context_def by (auto simp: pc_global_def)
qed

end
