(* ===== verification/Permission_Rules.thy ===== *)
theory Permission_Rules
  imports Permission_Contexts
begin

text \<open>
  Permission rule expressions, \<open>permission{context=value,...}\<close>
  (\<open>steel-core/src/permission/rule_expression.rs\<close>), and the metadata expressions that share
  their context selector (\<open>metadata.rs\<close>): parsing, every error, and printing.
\<close>

section \<open>Context selectors\<close>

datatype expression_context_error =
    XEmptyContext
  | XInvalidContextEntry rust_string
  | XInvalidContextValue rust_string rust_string
  | XDuplicateContextKey rust_string
  | XInvalidDomain rust_string
  | XInvalidWorld rust_string
  | XInvalidContextKey rust_string context_key_error
  | XInvalidRuleContext rule_context_error

definition parse_domain_context :: "rust_string \<Rightarrow> expression_context_error + rule_context" where
  "parse_domain_context v =
     (if v = [] \<or> \<not> validate_namespace v then Inl (XInvalidDomain v)
      else map_sum XInvalidRuleContext id (rc_domain v))"

definition parse_world_context :: "rust_string \<Rightarrow> expression_context_error + rule_context" where
  "parse_world_context v =
     (case split_once (of_char CHR '':'') v of
        None \<Rightarrow> Inl (XInvalidWorld v)
      | Some (d, name) \<Rightarrow>
          if d = [] \<or> name = [] \<or> of_char CHR '':'' \<in> set name \<or> of_char CHR ''/'' \<in> set name
            \<or> \<not> validate_namespace d \<or> \<not> validate_path name
          then Inl (XInvalidWorld v)
          else Inr (RcWorld (identifier_new d name)))"

definition parse_custom_context :: "rust_string \<Rightarrow> rust_string \<Rightarrow> expression_context_error + rule_context" where
  "parse_custom_context key v =
     (case context_key_parse key of
        Inl e \<Rightarrow> Inl (XInvalidContextKey key e)
      | Inr k \<Rightarrow> map_sum XInvalidRuleContext id (rc_custom k v))"

definition parse_entry_context :: "rust_string \<Rightarrow> rust_string \<Rightarrow> expression_context_error + rule_context" where
  "parse_entry_context key v =
     (if key = chars ''domain'' then parse_domain_context v
      else if key = chars ''world'' then parse_world_context v
      else parse_custom_context key v)"

text \<open>The loop over the entries, with the contexts collected and the keys seen so far.\<close>

fun parse_entries ::
  "rule_context list \<Rightarrow> rust_string list \<Rightarrow> rust_string list \<Rightarrow> expression_context_error + rule_context list" where
  "parse_entries contexts seen [] = Inr contexts"
| "parse_entries contexts seen (entry # rest) =
     (case split_once (of_char CHR ''='') entry of
        None \<Rightarrow> Inl (XInvalidContextEntry entry)
      | Some (key, v) \<Rightarrow>
          if key = [] \<or> v = [] then Inl (XInvalidContextEntry entry)
          else if list_ex reserved_char v then Inl (XInvalidContextValue key v)
          else if key \<in> set seen then Inl (XDuplicateContextKey key)
          else case parse_entry_context key v of
                 Inl e \<Rightarrow> Inl e
               | Inr c \<Rightarrow> parse_entries (contexts @ [c]) (key # seen) rest)"

definition parse_context :: "rust_string \<Rightarrow> expression_context_error + rule_context" where
  "parse_context value =
     (if value = [] then Inl XEmptyContext
      else case parse_entries [] [] (str_split (\<lambda>c. c = of_char CHR '','') value) of
             Inl e \<Rightarrow> Inl e
           | Inr contexts \<Rightarrow> map_sum XInvalidRuleContext id (rc_all contexts))"

text \<open>Printing threads the flag that tells the first entry from the others.\<close>

definition write_context_entry :: "bool \<Rightarrow> rust_string \<Rightarrow> rust_string \<Rightarrow> rust_string \<times> bool" where
  "write_context_entry first key v = ((if first then [] else chars '','') @ key @ of_char CHR ''='' # v, False)"

fun write_context_entries :: "rule_context \<Rightarrow> bool \<Rightarrow> rust_string \<times> bool"
  and write_all_entries :: "rule_context list \<Rightarrow> bool \<Rightarrow> rust_string \<times> bool" where
  "write_context_entries RcGlobal first = ([], first)"
| "write_context_entries (RcDomain d) first = write_context_entry first (chars ''domain'') d"
| "write_context_entries (RcWorld w) first = write_context_entry first (chars ''world'') (identifier_to_string w)"
| "write_context_entries (RcCustom key v) first = write_context_entry first key v"
| "write_context_entries (RcAll contexts) first = write_all_entries contexts first"
| "write_all_entries [] first = ([], first)"
| "write_all_entries (c # cs) first =
     (let (s, first') = write_context_entries c first; (t, first'') = write_all_entries cs first' in (s @ t, first''))"

definition write_context :: "rule_context \<Rightarrow> rust_string" where
  "write_context context =
     (if context = RcGlobal then [] else chars ''{'' @ fst (write_context_entries context True) @ chars ''}'')"

section \<open>Rule expressions\<close>

datatype rule_expression_error =
    InvalidPermissionKey rust_string permission_key_error
  | UnclosedContext
  | EmptyContext
  | InvalidContextEntry rust_string
  | InvalidContextValue rust_string rust_string
  | DuplicateContextKey rust_string
  | InvalidDomain rust_string
  | InvalidWorld rust_string
  | InvalidContextKey rust_string context_key_error
  | InvalidRuleContext rule_context_error

fun from_context_error :: "expression_context_error \<Rightarrow> rule_expression_error" where
  "from_context_error XEmptyContext = EmptyContext"
| "from_context_error (XInvalidContextEntry entry) = InvalidContextEntry entry"
| "from_context_error (XInvalidContextValue key v) = InvalidContextValue key v"
| "from_context_error (XDuplicateContextKey key) = DuplicateContextKey key"
| "from_context_error (XInvalidDomain d) = InvalidDomain d"
| "from_context_error (XInvalidWorld w) = InvalidWorld w"
| "from_context_error (XInvalidContextKey key e) = InvalidContextKey key e"
| "from_context_error (XInvalidRuleContext e) = InvalidRuleContext e"

record rule_expression =
  expr_key :: permission_key
  expr_context :: rule_context

definition rule_expression_parse :: "rust_string \<Rightarrow> rule_expression_error + rule_expression" where
  "rule_expression_parse value =
     (case split_once (of_char CHR ''{'') value of
        None \<Rightarrow>
          (case key_parse value of
             Inl e \<Rightarrow> Inl (InvalidPermissionKey value e)
           | Inr key \<Rightarrow> Inr \<lparr>expr_key = key, expr_context = RcGlobal\<rparr>)
      | Some (key_value, rest) \<Rightarrow>
          if last value \<noteq> of_char CHR ''}'' then Inl UnclosedContext
          else case key_parse key_value of
                 Inl e \<Rightarrow> Inl (InvalidPermissionKey key_value e)
               | Inr key \<Rightarrow>
                   (case parse_context (butlast rest) of
                      Inl e \<Rightarrow> Inl (from_context_error e)
                    | Inr context \<Rightarrow> Inr \<lparr>expr_key = key, expr_context = context\<rparr>))"

definition rule_expression_display :: "rule_expression \<Rightarrow> rust_string" where
  "rule_expression_display e = expr_key e @ write_context (expr_context e)"

section \<open>Metadata expressions\<close>

datatype metadata_key_error = MkInvalidFormat | MkEmptyNamespace | MkEmptyPath | MkInvalidNamespace | MkInvalidPath

datatype metadata_expression_error =
    InvalidMetadataKey rust_string metadata_key_error
  | MxUnclosedContext
  | MxEmptyContext
  | MxInvalidContextEntry rust_string
  | MxInvalidContextValue rust_string rust_string
  | MxDuplicateContextKey rust_string
  | MxInvalidDomain rust_string
  | MxInvalidWorld rust_string
  | MxInvalidContextKey rust_string context_key_error
  | MxInvalidRuleContext rule_context_error

fun metadata_from_context_error :: "expression_context_error \<Rightarrow> metadata_expression_error" where
  "metadata_from_context_error XEmptyContext = MxEmptyContext"
| "metadata_from_context_error (XInvalidContextEntry entry) = MxInvalidContextEntry entry"
| "metadata_from_context_error (XInvalidContextValue key v) = MxInvalidContextValue key v"
| "metadata_from_context_error (XDuplicateContextKey key) = MxDuplicateContextKey key"
| "metadata_from_context_error (XInvalidDomain d) = MxInvalidDomain d"
| "metadata_from_context_error (XInvalidWorld w) = MxInvalidWorld w"
| "metadata_from_context_error (XInvalidContextKey key e) = MxInvalidContextKey key e"
| "metadata_from_context_error (XInvalidRuleContext e) = MxInvalidRuleContext e"

definition parse_permission_metadata_key :: "rust_string \<Rightarrow> metadata_key_error + ident" where
  "parse_permission_metadata_key value =
     (case split_once (of_char CHR '':'') value of
        None \<Rightarrow> Inl MkInvalidFormat
      | Some (ns, p) \<Rightarrow>
          if ns = [] then Inl MkEmptyNamespace
          else if p = [] then Inl MkEmptyPath
          else if of_char CHR '':'' \<in> set p then Inl MkInvalidFormat
          else if list_ex (\<lambda>s. s = []) (str_split (\<lambda>c. c = dot) ns) then Inl MkInvalidNamespace
          else if list_ex (\<lambda>s. s = []) (str_split (\<lambda>c. c = dot \<or> c = of_char CHR ''/'') p) then Inl MkInvalidPath
          else if \<not> validate_namespace ns then Inl MkInvalidNamespace
          else if \<not> validate_path p then Inl MkInvalidPath
          else Inr (identifier_new ns p))"

record metadata_expression =
  mexpr_key :: ident
  mexpr_context :: rule_context

definition metadata_expression_parse :: "rust_string \<Rightarrow> metadata_expression_error + metadata_expression" where
  "metadata_expression_parse value =
     (case split_once (of_char CHR ''{'') value of
        None \<Rightarrow>
          (case parse_permission_metadata_key value of
             Inl e \<Rightarrow> Inl (InvalidMetadataKey value e)
           | Inr key \<Rightarrow> Inr \<lparr>mexpr_key = key, mexpr_context = RcGlobal\<rparr>)
      | Some (key_value, rest) \<Rightarrow>
          if last value \<noteq> of_char CHR ''}'' then Inl MxUnclosedContext
          else case parse_permission_metadata_key key_value of
                 Inl e \<Rightarrow> Inl (InvalidMetadataKey key_value e)
               | Inr key \<Rightarrow>
                   (case parse_context (butlast rest) of
                      Inl e \<Rightarrow> Inl (metadata_from_context_error e)
                    | Inr context \<Rightarrow> Inr \<lparr>mexpr_key = key, mexpr_context = context\<rparr>))"

definition metadata_expression_display :: "metadata_expression \<Rightarrow> rust_string" where
  "metadata_expression_display e = identifier_to_string (mexpr_key e) @ write_context (mexpr_context e)"

section \<open>Printing and parsing a selector\<close>

fun entry_of :: "rule_context \<Rightarrow> rust_string \<times> rust_string" where
  "entry_of (RcDomain d) = (chars ''domain'', d)"
| "entry_of (RcWorld w) = (chars ''world'', identifier_to_string w)"
| "entry_of (RcCustom key v) = (key, v)"
| "entry_of _ = ([], [])"

definition entry_text :: "rule_context \<Rightarrow> rust_string" where
  "entry_text c = fst (entry_of c) @ of_char CHR ''='' # snd (entry_of c)"

text \<open>A constraint that the parser produces from its own text.\<close>

definition printable :: "rule_context \<Rightarrow> bool" where
  "printable c \<longleftrightarrow> is_leaf c \<and> (let (key, v) = entry_of c in
     key \<noteq> [] \<and> v \<noteq> [] \<and> \<not> list_ex reserved_char v \<and> of_char CHR ''='' \<notin> set key \<and> of_char CHR '','' \<notin> set key
     \<and> parse_entry_context key v = Inr c)"

lemma split_once_SomeD: "split_once d s = Some (a, b) \<Longrightarrow> s = a @ d # b \<and> d \<notin> set a"
  by (induction s arbitrary: a) (auto split: if_splits)

lemma split_once_Some: "split_once d s = Some (a, b) \<longleftrightarrow> s = a @ d # b \<and> d \<notin> set a"
  using split_once_SomeD split_once_append by metis

lemma parse_entry_inv:
  assumes "parse_entry_context key v = Inr c"
  shows "is_leaf c \<and> entry_of c = (key, v)"
proof -
  consider "key = chars ''domain''" | "key = chars ''world''" "key \<noteq> chars ''domain''"
    | "key \<noteq> chars ''domain''" "key \<noteq> chars ''world''" by blast
  then show ?thesis
  proof cases
    case 1
    with assms show ?thesis
      by (auto simp: parse_entry_context_def parse_domain_context_def rc_domain_def permission_domain_parse_def split: if_splits)
  next
    case 2
    with assms have "parse_world_context v = Inr c" by (simp add: parse_entry_context_def)
    with 2 show ?thesis
      by (auto simp: parse_world_context_def split_once_Some identifier_new_def identifier_to_string_def split: option.splits if_splits)
  next
    case 3
    with assms have "parse_custom_context key v = Inr c" by (simp add: parse_entry_context_def)
    then show ?thesis
      by (auto simp: parse_custom_context_def context_key_parse_def rc_custom_def context_value_parse_def split: sum.splits option.splits if_splits)
  qed
qed

lemma parse_entries_Inr:
  assumes "parse_entries cs seen es = Inr r" and "list_all (\<lambda>e. of_char CHR '','' \<notin> set e) es"
  shows "\<exists>new. r = cs @ new \<and> list_all printable new \<and> map entry_text new = es
    \<and> distinct (map (\<lambda>c. fst (entry_of c)) new) \<and> set (map (\<lambda>c. fst (entry_of c)) new) \<inter> set seen = {}"
  using assms
proof (induction cs seen es rule: parse_entries.induct)
  case (2 cs seen e es)
  from "2.prems" obtain key v c where s: "split_once (of_char CHR ''='') e = Some (key, v)" "key \<noteq> []" "v \<noteq> []"
    "\<not> list_ex reserved_char v" "key \<notin> set seen" "parse_entry_context key v = Inr c"
    "parse_entries (cs @ [c]) (key # seen) es = Inr r"
    by (auto split: option.splits if_splits sum.splits)
  with 2 obtain new where new: "r = (cs @ [c]) @ new" "list_all printable new" "map entry_text new = es"
    "distinct (map (\<lambda>c. fst (entry_of c)) new)" "set (map (\<lambda>c. fst (entry_of c)) new) \<inter> set (key # seen) = {}" by fastforce
  note c = parse_entry_inv [OF s(6)]
  from s(1) have e: "e = key @ of_char CHR ''='' # v" "of_char CHR ''='' \<notin> set key" by (simp_all add: split_once_Some)
  have "printable c" using c s e "2.prems"(2) by (simp add: printable_def)
  moreover have "entry_text c = e" using c e by (simp add: entry_text_def)
  ultimately show ?case using new c s(5) by (intro exI [of _ "c # new"]) auto
qed simp

lemma write_leaf: "is_leaf c \<Longrightarrow> write_context_entries c first = ((if first then [] else chars '','') @ entry_text c, False)"
  by (cases c) (simp_all add: write_context_entry_def entry_text_def)

lemma write_leaves:
  "list_all is_leaf cs \<Longrightarrow> cs \<noteq> [] \<Longrightarrow>
   write_all_entries cs first = ((if first then [] else chars '','') @ join_with (of_char CHR '','') (map entry_text cs), False)"
proof (induction cs arbitrary: first)
  case (Cons c cs)
  then show ?case
    by (cases cs) (simp_all add: write_leaf chars_def)
qed simp

lemma write_canonical:
  assumes "canonical c" and "c \<noteq> RcGlobal"
  shows "write_context c = chars ''{'' @ join_with (of_char CHR '','') (map entry_text (rc_parts c)) @ chars ''}''"
proof -
  have "write_context_entries c True = (join_with (of_char CHR '','') (map entry_text (rc_parts c)), False)"
  proof (cases c)
    case (RcAll cs)
    then have "list_all is_leaf cs" "cs \<noteq> []" using assms(1) by (auto simp: bindings_def)
    with RcAll write_leaves [of cs True] show ?thesis by simp
  qed (use assms write_leaf [of c True] in simp_all)
  with assms(2) show ?thesis by (simp add: write_context_def)
qed

lemma printable_key_inj:
  assumes "printable c" and "printable d" and "fst (entry_of c) = fst (entry_of d)"
  shows "slot c = slot d"
proof -
  have k: "fst (entry_of c) = chars ''domain'' \<Longrightarrow> is_domain c" "fst (entry_of c) = chars ''world'' \<Longrightarrow> is_world c"
    if "printable c" for c
    using that
    by (auto simp: printable_def parse_entry_context_def parse_domain_context_def parse_world_context_def rc_domain_def
        permission_domain_parse_def chars_def split: prod.splits option.splits if_splits)
  have s: "is_domain c \<Longrightarrow> slot c = (0, [])" "is_world c \<Longrightarrow> slot c = (1, [])" for c by (cases c; simp)+
  show ?thesis
  proof (cases "fst (entry_of c) = chars ''domain'' \<or> fst (entry_of c) = chars ''world''")
    case True
    with assms k s show ?thesis by metis
  next
    case False
    with assms show ?thesis by (cases c; cases d) (auto simp: printable_def)
  qed
qed

lemma parse_printable:
  assumes "list_all printable cs" and "distinct (map (\<lambda>c. fst (entry_of c)) cs)" and "set (map (\<lambda>c. fst (entry_of c)) cs) \<inter> set seen = {}"
  shows "parse_entries acc seen (map entry_text cs) = Inr (acc @ cs)"
  using assms
proof (induction cs arbitrary: acc seen)
  case (Cons c cs)
  obtain key v where e: "entry_of c = (key, v)" by fastforce
  have p: "key \<noteq> []" "v \<noteq> []" "\<not> list_ex reserved_char v" "of_char CHR ''='' \<notin> set key" "parse_entry_context key v = Inr c"
    using Cons.prems(1) e by (auto simp: printable_def)
  have sp: "split_once (of_char CHR ''='') (entry_text c) = Some (key, v)" using p(4) e split_once_append by (simp add: entry_text_def)
  have "key \<notin> set seen" using Cons.prems(3) e by simp
  moreover have "set (map (\<lambda>c. fst (entry_of c)) cs) \<inter> set (key # seen) = {}" using Cons.prems(2,3) e by auto
  ultimately show ?case using Cons p sp by simp
qed simp

lemma printable_no_comma: "printable c \<Longrightarrow> of_char CHR '','' \<notin> set (entry_text c)"
  by (auto simp: printable_def entry_text_def reserved_char_def chars_def list_ex_iff split: prod.splits)

lemma parse_context_write:
  assumes "canonical c" and "rc_parts c \<noteq> []" and "list_all printable (rc_parts c)"
  shows "parse_context (join_with (of_char CHR '','') (map entry_text (rc_parts c))) = Inr c"
proof -
  let ?es = "map entry_text (rc_parts c)" and ?s = "join_with (of_char CHR '','') (map entry_text (rc_parts c))"
  have ne: "?es \<noteq> []" using assms(2) by simp
  have "list_all (\<lambda>s. of_char CHR '','' \<notin> set s) ?es" using assms(3) printable_no_comma by (auto simp: list_all_iff)
  note sp = split_join [OF ne this]
  have "?s \<noteq> []"
  proof
    assume "?s = []"
    with sp have "?es = [[]]" by simp
    moreover have "entry_text x \<noteq> []" for x by (simp add: entry_text_def)
    ultimately show False by (cases "rc_parts c") auto
  qed
  moreover have "distinct (map (\<lambda>c. fst (entry_of c)) (rc_parts c))"
  proof -
    have "bindings (rc_parts c)" using assms(1) by (cases c) (auto simp: bindings_def)
    then have "distinct (rc_parts c)" "inj_on slot (set (rc_parts c))" by (auto simp: bindings_def distinct_map)
    with assms(3) printable_key_inj show ?thesis by (auto simp: distinct_map inj_on_def list_all_iff)
  qed
  then have "parse_entries [] [] ?es = Inr (rc_parts c)" using parse_printable [OF assms(3), of "[]" "[]"] by simp
  ultimately show ?thesis using sp rc_all_flat [OF assms(1)] by (simp add: parse_context_def)
qed

lemma parse_context_Inr:
  assumes "parse_context s = Inr c"
  shows "canonical c \<and> rc_parts c \<noteq> [] \<and> list_all printable (rc_parts c)"
proof -
  let ?es = "str_split (\<lambda>c. c = of_char CHR '','') s"
  from assms obtain cs where cs: "parse_entries [] [] ?es = Inr cs" "map_sum XInvalidRuleContext id (rc_all cs) = Inr c"
    by (auto simp: parse_context_def split: if_splits sum.splits)
  from cs(2) have cs: "parse_entries [] [] ?es = Inr cs" "rc_all cs = Inr c" using cs(1) by (cases "rc_all cs"; simp)+
  have "list_all (\<lambda>e. of_char CHR '','' \<notin> set e) ?es" using str_split_parts [of _ "\<lambda>c. c = of_char CHR '',''" s] by (auto simp: list_all_iff)
  from parse_entries_Inr [OF cs(1) this] have p: "list_all printable cs" "map entry_text cs = ?es" by auto
  have leaf: "is_leaf x \<Longrightarrow> canonical x \<and> rc_parts x = [x]" for x by (cases x) auto
  have lp: "list_all is_leaf cs" using p(1) by (auto simp: list_all_iff printable_def)
  then have can: "list_all canonical cs" using leaf by (auto simp: list_all_iff)
  have cc: "concat (map rc_parts cs) = cs" using lp leaf by (induction cs) auto
  note f = rc_all_Inr [OF can cs(2), unfolded cc]
  have "cs \<noteq> []" using p(2) str_split_ne by (metis list.map_disc_iff)
  then have "set (rc_parts c) \<noteq> {}"
  proof (cases "list_ex is_world cs")
    case True
    then obtain w where "w \<in> set cs" "is_world w" by (auto simp: list_ex_iff)
    moreover have "is_world w \<Longrightarrow> \<not> is_domain w" by (cases w) auto
    ultimately show ?thesis unfolding f(2) by blast
  next
    case False
    with f(2) \<open>cs \<noteq> []\<close> show ?thesis by simp
  qed
  with f p(1) show ?thesis by (auto simp: list_all_iff)
qed

lemma split_once_None: "d \<notin> set s \<Longrightarrow> split_once d s = None"
  by (induction s) auto

definition selector :: "rule_context \<Rightarrow> rust_string" where
  "selector c = join_with (of_char CHR '','') (map entry_text (rc_parts c))"

lemma split_written:
  assumes "of_char CHR ''{'' \<notin> set k" and "canonical c" and "rc_parts c \<noteq> []"
  shows "split_once (of_char CHR ''{'') (k @ write_context c) = Some (k, selector c @ [of_char CHR ''}''])"
    and "last (k @ write_context c) = of_char CHR ''}''"
proof -
  have "c \<noteq> RcGlobal" using assms(3) by auto
  then have w: "write_context c = of_char CHR ''{'' # selector c @ [of_char CHR ''}'']"
    unfolding write_canonical [OF assms(2) \<open>c \<noteq> RcGlobal\<close>] selector_def by (simp add: chars_def)
  show "split_once (of_char CHR ''{'') (k @ write_context c) = Some (k, selector c @ [of_char CHR ''}''])"
    unfolding w by (rule split_once_append [OF assms(1)])
  show "last (k @ write_context c) = of_char CHR ''}''" unfolding w by simp
qed

lemma set_join: "set (join_with d ss) \<subseteq> insert d (\<Union> (set ` set ss))"
  by (induction d ss rule: join_with.induct) auto

lemma parsed_key_plain:
  assumes "key_parse s = Inr k"
  shows "key_parse k = Inr k" and "of_char CHR ''{'' \<notin> set k"
proof -
  from assms have k: "k = s" "list_all valid_segment (butlast (segments_of s))"
    "valid_segment (last (segments_of s)) \<or> last (segments_of s) = [star]" unfolding key_parse_iff by blast+
  with assms show "key_parse k = Inr k" by simp
  have no: "of_char CHR ''{'' \<notin> set x" if "x \<in> set (segments_of s)" for x
  proof -
    have "x \<in> set (butlast (segments_of s) @ [last (segments_of s)])"
      unfolding append_butlast_last_id [OF str_split_ne] by (rule that)
    then have "x \<in> set (butlast (segments_of s)) \<or> x = last (segments_of s)" unfolding set_append by auto
    with k(2,3) have "valid_segment x \<or> x = [star]" unfolding list_all_iff by blast
    then show ?thesis using segment_char_plain by (auto simp: valid_segment_def list_all_iff)
  qed
  have sub: "set s \<subseteq> insert dot (\<Union> (set ` set (segments_of s)))" using set_join [of dot "segments_of s"] unfolding join_split .
  have "of_char CHR ''{'' \<noteq> dot" by simp
  with sub no show "of_char CHR ''{'' \<notin> set k" unfolding k(1) by blast
qed

lemma parsed_metadata_key_plain:
  assumes "parse_permission_metadata_key s = Inr i"
  shows "parse_permission_metadata_key (identifier_to_string i) = Inr i" and "of_char CHR ''{'' \<notin> set (identifier_to_string i)"
proof -
  from assms have i: "identifier_to_string i = s" "validate (namespace i) (path i)"
    by (auto simp: parse_permission_metadata_key_def identifier_to_string_def identifier_new_def validate_def split_once_Some
        split: option.splits if_splits)
  with assms show "parse_permission_metadata_key (identifier_to_string i) = Inr i" by simp
  have "\<not> valid_char (of_char CHR ''{'')" "\<not> valid_namespace_char (of_char CHR ''{'')"
    by (simp_all add: valid_char_def valid_namespace_char_def is_ascii_lowercase_def is_ascii_digit_def)
  then show "of_char CHR ''{'' \<notin> set (identifier_to_string i)"
    using i(2) by (auto simp: identifier_to_string_def validate_def validate_namespace_def validate_path_def list_all_iff)
qed

lemma rule_expression_back:
  assumes "rule_expression_parse s = Inr e"
  shows "rule_expression_parse (rule_expression_display e) = Inr e"
proof (cases "split_once (of_char CHR ''{'') s")
  case None
  with assms obtain k where k: "key_parse s = Inr k" "e = \<lparr>expr_key = k, expr_context = RcGlobal\<rparr>"
    by (auto simp: rule_expression_parse_def split: sum.splits)
  with parsed_key_plain [OF k(1)] split_once_None [of "of_char CHR ''{''" k] show ?thesis
    by (simp add: rule_expression_display_def rule_expression_parse_def write_context_def)
next
  case (Some kr)
  obtain kv rest where kr: "kr = (kv, rest)" by fastforce
  with Some assms obtain k c where k: "key_parse kv = Inr k" "parse_context (butlast rest) = Inr c"
    "e = \<lparr>expr_key = k, expr_context = c\<rparr>"
    by (auto simp: rule_expression_parse_def split: sum.splits if_splits)
  note c = parse_context_Inr [OF k(2)] and p = parsed_key_plain [OF k(1)]
  from c have cw: "parse_context (selector c) = Inr c" using parse_context_write by (simp add: selector_def)
  from c have "canonical c" "rc_parts c \<noteq> []" by blast+
  note sw = split_written [OF p(2) this]
  show ?thesis
    unfolding rule_expression_display_def rule_expression_parse_def k(3) rule_expression.select_convs sw option.case prod.case p(1)
    by (simp add: cw)
qed

lemma metadata_expression_back:
  assumes "metadata_expression_parse s = Inr e"
  shows "metadata_expression_parse (metadata_expression_display e) = Inr e"
proof (cases "split_once (of_char CHR ''{'') s")
  case None
  with assms obtain k where k: "parse_permission_metadata_key s = Inr k" "e = \<lparr>mexpr_key = k, mexpr_context = RcGlobal\<rparr>"
    by (auto simp: metadata_expression_parse_def split: sum.splits)
  with parsed_metadata_key_plain [OF k(1)] split_once_None [of "of_char CHR ''{''" "identifier_to_string k"] show ?thesis
    by (simp add: metadata_expression_display_def metadata_expression_parse_def write_context_def)
next
  case (Some kr)
  obtain kv rest where kr: "kr = (kv, rest)" by fastforce
  with Some assms obtain k c where k: "parse_permission_metadata_key kv = Inr k" "parse_context (butlast rest) = Inr c"
    "e = \<lparr>mexpr_key = k, mexpr_context = c\<rparr>"
    by (auto simp: metadata_expression_parse_def split: sum.splits if_splits)
  note c = parse_context_Inr [OF k(2)] and p = parsed_metadata_key_plain [OF k(1)]
  from c have cw: "parse_context (selector c) = Inr c" using parse_context_write by (simp add: selector_def)
  from c have "canonical c" "rc_parts c \<noteq> []" by blast+
  note sw = split_written [OF p(2) this]
  show ?thesis
    unfolding metadata_expression_display_def metadata_expression_parse_def k(3) metadata_expression.select_convs sw option.case prod.case p(1)
    by (simp add: cw)
qed

text \<open>
  C27. Whatever rule or metadata expression is accepted, its context is canonical and its printed form
  parses to the same expression, so that rules written back to the configuration are the rules
  read from it.
\<close>
theorem expressions_print_and_parse:
  "(case rule_expression_parse s of
      Inr e \<Rightarrow> canonical (expr_context e) \<and> rule_expression_parse (rule_expression_display e) = Inr e
    | Inl _ \<Rightarrow> True)
   \<and> (case metadata_expression_parse s of
      Inr e \<Rightarrow> canonical (mexpr_context e) \<and> metadata_expression_parse (metadata_expression_display e) = Inr e
    | Inl _ \<Rightarrow> True)"
proof -
  have "canonical (expr_context e)" if "rule_expression_parse s = Inr e" for e
    using that parse_context_Inr by (auto simp: rule_expression_parse_def split: option.splits sum.splits if_splits)
  moreover have "canonical (mexpr_context e)" if "metadata_expression_parse s = Inr e" for e
    using that parse_context_Inr by (auto simp: metadata_expression_parse_def split: option.splits sum.splits if_splits)
  ultimately show ?thesis using rule_expression_back [of s] metadata_expression_back [of s] by (simp split: sum.split)
qed

text \<open>An expression with a redundant domain is accepted and printed in canonical form.\<close>

lemma expression_example:
  "map_sum id rule_expression_display (rule_expression_parse (chars ''a.*{world=l:h,domain=l}'')) = Inr (chars ''a.*{world=l:h}'')"
  by (simp add: chars_def rule_expression_parse_def key_parse_def parse_context_def rule_expression_display_def
      validate_permission_segment_def is_ascii_lowercase_def parse_entry_context_def parse_world_context_def parse_domain_context_def
      validate_namespace_def validate_path_def valid_namespace_char_def valid_char_def reserved_char_def is_whitespace_def
      rc_domain_def permission_domain_parse_def identifier_new_def rc_all_def push_unique_context_def normalize_world_domain_def
      sort_by_def write_context_def write_context_entry_def identifier_to_string_def)

end
