(* ===== verification/Permission_Sets.thy ===== *)
theory Permission_Sets
  imports Permission_Rules
begin

text \<open>
  Permission sets and their resolution (\<open>steel-core/src/permission/set.rs\<close>), boolean permission
  expressions (\<open>expression.rs\<close>) and metadata sets (\<open>metadata.rs\<close>). A set keeps its rules and their
  sources in two vectors of the same length; the metadata set has the same shape, so that both
  are one record with the type of its entries as a parameter.
\<close>

section \<open>Rules, sources and sets\<close>

datatype permission_state = Allow | Deny

record permission_entry =
  pe_key :: permission_key
  pe_context :: rule_context
  pe_state :: permission_state

datatype resolution_source = GroupSource rust_string int | SubjectSource

fun source_rank :: "resolution_source \<Rightarrow> nat" where
  "source_rank (GroupSource _ _) = 0"
| "source_rank SubjectSource = 1"

fun tie_priority :: "resolution_source \<Rightarrow> int" where
  "tie_priority (GroupSource _ priority) = priority"
| "tie_priority SubjectSource = 0"

record 'e rule_set =
  rs_entries :: "'e list"
  rs_sources :: "resolution_source list"

type_synonym permission_set = "permission_entry rule_set"

definition ruleset_new :: "'e rule_set" where
  "ruleset_new = \<lparr>rs_entries = [], rs_sources = []\<rparr>"

definition from_entries :: "'e list \<Rightarrow> 'e rule_set" where
  "from_entries es = \<lparr>rs_entries = es, rs_sources = replicate (length es) SubjectSource\<rparr>"

definition push_with_source :: "'e rule_set \<Rightarrow> 'e \<Rightarrow> resolution_source \<Rightarrow> 'e rule_set" where
  "push_with_source s entry source = s\<lparr>rs_entries := rs_entries s @ [entry], rs_sources := rs_sources s @ [source]\<rparr>"

definition push_entry :: "'e rule_set \<Rightarrow> 'e \<Rightarrow> 'e rule_set" where
  "push_entry s entry = push_with_source s entry SubjectSource"

definition push_group :: "'e rule_set \<Rightarrow> 'e \<Rightarrow> rust_string \<Rightarrow> int \<Rightarrow> 'e rule_set" where
  "push_group s entry gname priority = push_with_source s entry (GroupSource gname priority)"

definition retain_entries :: "('e \<Rightarrow> bool) \<Rightarrow> 'e rule_set \<Rightarrow> 'e rule_set" where
  "retain_entries keep s =
     foldl (\<lambda>t (entry, source). if keep entry then push_with_source t entry source else t)
       (s\<lparr>rs_entries := [], rs_sources := []\<rparr>) (zip (rs_entries s) (rs_sources s))"

definition set_allow :: "permission_set \<Rightarrow> permission_key \<Rightarrow> rule_context \<Rightarrow> permission_set" where
  "set_allow s key context = push_entry s \<lparr>pe_key = key, pe_context = context, pe_state = Allow\<rparr>"

definition set_deny :: "permission_set \<Rightarrow> permission_key \<Rightarrow> rule_context \<Rightarrow> permission_set" where
  "set_deny s key context = push_entry s \<lparr>pe_key = key, pe_context = context, pe_state = Deny\<rparr>"

definition set_in :: "permission_set \<Rightarrow> permission_key \<Rightarrow> rule_context \<Rightarrow> permission_state \<Rightarrow> permission_set" where
  "set_in s key context state =
     push_entry (retain_entries (\<lambda>e. pe_key e \<noteq> key \<or> pe_context e \<noteq> context) s)
       \<lparr>pe_key = key, pe_context = context, pe_state = state\<rparr>"

definition unset_in :: "permission_set \<Rightarrow> permission_key \<Rightarrow> rule_context \<Rightarrow> bool \<times> permission_set" where
  "unset_in s key context =
     (let t = retain_entries (\<lambda>e. pe_key e \<noteq> key \<or> pe_context e \<noteq> context) s
      in (length (rs_entries t) \<noteq> length (rs_entries s), t))"

section \<open>Resolution\<close>

record permission_candidate =
  cand_index :: nat
  cand_key_specificity :: nat
  cand_context_specificity :: nat
  cand_source :: resolution_source
  cand_state :: permission_state

definition cand_order :: "permission_candidate \<Rightarrow> nat \<times> nat \<times> nat \<times> int" where
  "cand_order c = (cand_key_specificity c, cand_context_specificity c, source_rank (cand_source c), tie_priority (cand_source c))"

definition push_candidate ::
  "permission_candidate option \<Rightarrow> nat \<Rightarrow> nat \<Rightarrow> nat \<Rightarrow> resolution_source \<Rightarrow> permission_state \<Rightarrow> permission_candidate option" where
  "push_candidate best entry_index key_spec context_spec source state =
     (let candidate = \<lparr>cand_index = entry_index, cand_key_specificity = key_spec,
                       cand_context_specificity = context_spec, cand_source = source, cand_state = state\<rparr>
      in case best of
           None \<Rightarrow> Some candidate
         | Some current \<Rightarrow>
             if cand_order candidate > cand_order current then Some candidate
             else if cand_order candidate = cand_order current \<and> cand_state current = Allow \<and> state = Deny then Some candidate
             else best)"

definition best_key_candidate :: "permission_set \<Rightarrow> permission_key \<Rightarrow> permission_context \<Rightarrow> permission_candidate option" where
  "best_key_candidate s key ctx =
     foldl (\<lambda>best (index, entry, source).
         if \<not> rc_matches (pe_context entry) ctx \<or> \<not> key_matches (pe_key entry) key then best
         else push_candidate best index (key_specificity (pe_key entry)) (rc_specificity (pe_context entry)) source (pe_state entry))
       None (enumerate 0 (zip (rs_entries s) (rs_sources s)))"

definition best_scoped_key_candidate ::
  "permission_set \<Rightarrow> permission_key \<Rightarrow> permission_key \<Rightarrow> permission_context \<Rightarrow> permission_candidate option" where
  "best_scoped_key_candidate s parent key ctx =
     (let parent_scopes_key = key_scopes parent key
      in foldl (\<lambda>best (index, entry, source).
           if \<not> rc_matches (pe_context entry) ctx then best
           else let matches_parent = parent_scopes_key \<and> key_matches (pe_key entry) parent;
                    matches_key = key_matches (pe_key entry) key
                in if \<not> matches_parent \<and> \<not> matches_key then best
                   else push_candidate best index
                          (key_specificity (pe_key entry) + (if matches_key \<and> \<not> matches_parent then 1 else 0))
                          (rc_specificity (pe_context entry)) source (pe_state entry))
         None (enumerate 0 (zip (rs_entries s) (rs_sources s))))"

definition resolve_key_in :: "permission_set \<Rightarrow> permission_key \<Rightarrow> permission_context \<Rightarrow> permission_state option" where
  "resolve_key_in s key ctx = map_option cand_state (best_key_candidate s key ctx)"

definition resolve_scoped_key_in ::
  "permission_set \<Rightarrow> permission_key \<Rightarrow> permission_key \<Rightarrow> permission_context \<Rightarrow> permission_state option" where
  "resolve_scoped_key_in s parent key ctx = map_option cand_state (best_scoped_key_candidate s parent key ctx)"

record permission_resolution =
  res_entry :: permission_entry
  res_source :: resolution_source
  res_key_specificity :: nat
  res_context_specificity :: nat

definition permission_resolution_of :: "permission_set \<Rightarrow> permission_candidate \<Rightarrow> permission_resolution" where
  "permission_resolution_of s c =
     \<lparr>res_entry = rs_entries s ! cand_index c, res_source = cand_source c,
      res_key_specificity = cand_key_specificity c, res_context_specificity = cand_context_specificity c\<rparr>"

definition resolve_key_in_detailed :: "permission_set \<Rightarrow> permission_key \<Rightarrow> permission_context \<Rightarrow> permission_resolution option" where
  "resolve_key_in_detailed s key ctx = map_option (permission_resolution_of s) (best_key_candidate s key ctx)"

definition resolve_scoped_key_in_detailed ::
  "permission_set \<Rightarrow> permission_key \<Rightarrow> permission_key \<Rightarrow> permission_context \<Rightarrow> permission_resolution option" where
  "resolve_scoped_key_in_detailed s parent key ctx =
     map_option (permission_resolution_of s) (best_scoped_key_candidate s parent key ctx)"

definition allows_key_in :: "permission_set \<Rightarrow> permission_key \<Rightarrow> permission_context \<Rightarrow> bool" where
  "allows_key_in s key ctx \<longleftrightarrow> resolve_key_in s key ctx = Some Allow"

definition allows_scoped_key_in :: "permission_set \<Rightarrow> permission_key \<Rightarrow> permission_key \<Rightarrow> permission_context \<Rightarrow> bool" where
  "allows_scoped_key_in s parent key ctx \<longleftrightarrow> resolve_scoped_key_in s parent key ctx = Some Allow"

section \<open>Expressions\<close>

datatype permission_expr =
    EKey permission_key
  | EScopedKey permission_key permission_key
  | EAll "permission_expr list"
  | EAny "permission_expr list"

fun expr_bitand :: "permission_expr \<Rightarrow> permission_expr \<Rightarrow> permission_expr" where
  "expr_bitand (EAll left) (EAll right) = EAll (left @ right)"
| "expr_bitand (EAll left) right = EAll (left @ [right])"
| "expr_bitand left (EAll right) = EAll (left # right)"
| "expr_bitand left right = EAll [left, right]"

fun expr_bitor :: "permission_expr \<Rightarrow> permission_expr \<Rightarrow> permission_expr" where
  "expr_bitor (EAny left) (EAny right) = EAny (left @ right)"
| "expr_bitor (EAny left) right = EAny (left @ [right])"
| "expr_bitor left (EAny right) = EAny (left # right)"
| "expr_bitor left right = EAny [left, right]"

text \<open>
  \<open>resolve_all\<close> and \<open>resolve_any\<close> return early; the flag \<open>saw_unset\<close> is threaded. On an empty
  vector the loop falls through to the value that the check before it returns.
\<close>

fun resolve_in :: "permission_set \<Rightarrow> permission_context \<Rightarrow> permission_expr \<Rightarrow> permission_state option"
  and resolve_all :: "permission_set \<Rightarrow> permission_context \<Rightarrow> bool \<Rightarrow> permission_expr list \<Rightarrow> permission_state option"
  and resolve_any :: "permission_set \<Rightarrow> permission_context \<Rightarrow> bool \<Rightarrow> permission_expr list \<Rightarrow> permission_state option" where
  "resolve_in s ctx (EKey key) = resolve_key_in s key ctx"
| "resolve_in s ctx (EScopedKey parent key) = resolve_scoped_key_in s parent key ctx"
| "resolve_in s ctx (EAll children) = (if children = [] then Some Allow else resolve_all s ctx False children)"
| "resolve_in s ctx (EAny children) = (if children = [] then Some Deny else resolve_any s ctx False children)"
| "resolve_all s ctx saw_unset [] = (if saw_unset then None else Some Allow)"
| "resolve_all s ctx saw_unset (child # rest) =
     (case resolve_in s ctx child of
        Some Allow \<Rightarrow> resolve_all s ctx saw_unset rest
      | Some Deny \<Rightarrow> Some Deny
      | None \<Rightarrow> resolve_all s ctx True rest)"
| "resolve_any s ctx saw_unset [] = (if saw_unset then None else Some Deny)"
| "resolve_any s ctx saw_unset (child # rest) =
     (case resolve_in s ctx child of
        Some Allow \<Rightarrow> Some Allow
      | Some Deny \<Rightarrow> resolve_any s ctx saw_unset rest
      | None \<Rightarrow> resolve_any s ctx True rest)"

definition allows_in :: "permission_set \<Rightarrow> permission_expr \<Rightarrow> permission_context \<Rightarrow> bool" where
  "allows_in s permission ctx \<longleftrightarrow> resolve_in s ctx permission = Some Allow"

section \<open>Metadata sets\<close>

datatype metadata_value = MetaBool bool | MetaInteger int | MetaString rust_string

record metadata_entry =
  me_key :: ident
  me_context :: rule_context
  me_value :: metadata_value

type_synonym metadata_set = "metadata_entry rule_set"

definition metadata_set_in :: "metadata_set \<Rightarrow> ident \<Rightarrow> rule_context \<Rightarrow> metadata_value \<Rightarrow> metadata_set" where
  "metadata_set_in s key context v =
     push_entry (retain_entries (\<lambda>e. me_key e \<noteq> key \<or> me_context e \<noteq> context) s)
       \<lparr>me_key = key, me_context = context, me_value = v\<rparr>"

definition metadata_unset_in :: "metadata_set \<Rightarrow> ident \<Rightarrow> rule_context \<Rightarrow> bool \<times> metadata_set" where
  "metadata_unset_in s key context =
     (let t = retain_entries (\<lambda>e. me_key e \<noteq> key \<or> me_context e \<noteq> context) s
      in (length (rs_entries t) \<noteq> length (rs_entries s), t))"

record metadata_candidate =
  mc_index :: nat
  mc_context_specificity :: nat
  mc_source :: resolution_source

definition mc_order :: "metadata_candidate \<Rightarrow> nat \<times> nat \<times> int \<times> nat" where
  "mc_order c = (mc_context_specificity c, source_rank (mc_source c), tie_priority (mc_source c), mc_index c)"

definition best_metadata_candidate :: "metadata_set \<Rightarrow> ident \<Rightarrow> permission_context \<Rightarrow> metadata_candidate option" where
  "best_metadata_candidate s key ctx =
     foldl (\<lambda>best (index, entry, source).
         if me_key entry \<noteq> key \<or> \<not> rc_matches (me_context entry) ctx then best
         else let candidate = \<lparr>mc_index = index, mc_context_specificity = rc_specificity (me_context entry), mc_source = source\<rparr>
              in if (case best of None \<Rightarrow> True | Some current \<Rightarrow> mc_order candidate > mc_order current) then Some candidate else best)
       None (enumerate 0 (zip (rs_entries s) (rs_sources s)))"

definition metadata_resolve_in :: "metadata_set \<Rightarrow> ident \<Rightarrow> permission_context \<Rightarrow> metadata_value option" where
  "metadata_resolve_in s key ctx = map_option (\<lambda>c. me_value (rs_entries s ! mc_index c)) (best_metadata_candidate s key ctx)"

record metadata_resolution =
  mres_entry :: metadata_entry
  mres_source :: resolution_source
  mres_context_specificity :: nat
  mres_insertion_index :: nat

definition metadata_resolve_in_detailed :: "metadata_set \<Rightarrow> ident \<Rightarrow> permission_context \<Rightarrow> metadata_resolution option" where
  "metadata_resolve_in_detailed s key ctx =
     map_option (\<lambda>c. \<lparr>mres_entry = rs_entries s ! mc_index c, mres_source = mc_source c,
                      mres_context_specificity = mc_context_specificity c, mres_insertion_index = mc_index c\<rparr>)
       (best_metadata_candidate s key ctx)"

section \<open>Choosing the best candidate\<close>

text \<open>
  What both resolvers rely on: a loop that keeps a candidate until one of higher rank comes along
  ends with a candidate of the highest rank.
\<close>

locale best_choice =
  fixes rank :: "'c \<Rightarrow> 'o::linorder" and push :: "'c option \<Rightarrow> 'c \<Rightarrow> 'c option"
  assumes push_None: "push None c = Some c"
    and push_Some: "push (Some b) c = Some (if rank b < rank c then c else b)"
begin

definition pick_best :: "('a \<Rightarrow> 'c option) \<Rightarrow> 'c option \<Rightarrow> 'a list \<Rightarrow> 'c option" where
  "pick_best f = foldl (\<lambda>b x. case f x of None \<Rightarrow> b | Some c \<Rightarrow> push b c)"

lemma choose_Some: "\<exists>c. pick_best f (Some b) xs = Some c \<and> rank b \<le> rank c \<and> (c = b \<or> (\<exists>x\<in>set xs. f x = Some c))
    \<and> (\<forall>x\<in>set xs. \<forall>d. f x = Some d \<longrightarrow> rank d \<le> rank c)"
proof (induction xs arbitrary: b)
  case (Cons x xs)
  show ?case
  proof (cases "f x")
    case None
    with Cons [of b] show ?thesis by (auto simp: pick_best_def)
  next
    case (Some d)
    let ?b = "if rank b < rank d then d else b"
    from Cons [of ?b] obtain c where c: "pick_best f (Some ?b) xs = Some c" "rank ?b \<le> rank c" "c = ?b \<or> (\<exists>x\<in>set xs. f x = Some c)"
      "\<forall>x\<in>set xs. \<forall>d. f x = Some d \<longrightarrow> rank d \<le> rank c" by blast
    have "pick_best f (Some b) (x # xs) = Some c" using c(1) Some by (simp add: pick_best_def push_Some)
    moreover have "rank b \<le> rank c" "rank d \<le> rank c" using c(2) by (auto split: if_splits)
    ultimately show ?thesis using c(3,4) Some by (intro exI [of _ c]) (auto split: if_splits)
  qed
qed (simp add: pick_best_def)

lemma choose_best:
  "case pick_best f None xs of
     None \<Rightarrow> \<forall>x\<in>set xs. f x = None
   | Some c \<Rightarrow> (\<exists>x\<in>set xs. f x = Some c) \<and> (\<forall>x\<in>set xs. \<forall>d. f x = Some d \<longrightarrow> rank d \<le> rank c)"
proof (induction xs)
  case (Cons x xs)
  show ?case
  proof (cases "f x")
    case None
    with Cons show ?thesis by (auto simp: pick_best_def split: option.splits)
  next
    case (Some b)
    from choose_Some [of f b xs] obtain c where c: "pick_best f (Some b) xs = Some c" "rank b \<le> rank c"
      "c = b \<or> (\<exists>x\<in>set xs. f x = Some c)" "\<forall>x\<in>set xs. \<forall>d. f x = Some d \<longrightarrow> rank d \<le> rank c" by blast
    have "pick_best f None (x # xs) = Some c" using c(1) Some by (simp add: pick_best_def push_None)
    with c Some show ?thesis by auto
  qed
qed (simp add: pick_best_def)

end

lemma pair_less: "(a, x) < (b, y) \<longleftrightarrow> a < b \<or> a = b \<and> x < y" for a b :: "'a::linorder" and x y :: "'b::linorder"
  by (auto simp: less_prod_def)

lemma pair_le: "(a, x) \<le> (b, y) \<longleftrightarrow> a < b \<or> a = b \<and> x \<le> y" for a b :: "'a::linorder" and x y :: "'b::linorder"
  by (auto simp: less_eq_prod_def)

fun deny_rank :: "permission_state \<Rightarrow> nat" where
  "deny_rank Allow = 0"
| "deny_rank Deny = 1"

definition push_cand :: "permission_candidate option \<Rightarrow> permission_candidate \<Rightarrow> permission_candidate option" where
  "push_cand best c = push_candidate best (cand_index c) (cand_key_specificity c) (cand_context_specificity c) (cand_source c) (cand_state c)"

definition push_metadata_cand :: "metadata_candidate option \<Rightarrow> metadata_candidate \<Rightarrow> metadata_candidate option" where
  "push_metadata_cand best c = (if (case best of None \<Rightarrow> True | Some b \<Rightarrow> mc_order c > mc_order b) then Some c else best)"

interpretation perm: best_choice "\<lambda>c. (cand_order c, deny_rank (cand_state c))" push_cand
proof unfold_locales
  fix b c :: permission_candidate
  have same: "\<lparr>cand_index = cand_index c, cand_key_specificity = cand_key_specificity c,
    cand_context_specificity = cand_context_specificity c, cand_source = cand_source c, cand_state = cand_state c\<rparr> = c" by simp
  show "push_cand None c = Some c" by (simp add: push_cand_def push_candidate_def)
  have "deny_rank (cand_state b) < deny_rank (cand_state c) \<longleftrightarrow> cand_state b = Allow \<and> cand_state c = Deny"
    by (cases "cand_state b"; cases "cand_state c") auto
  then show "push_cand (Some b) c =
    Some (if (cand_order b, deny_rank (cand_state b)) < (cand_order c, deny_rank (cand_state c)) then c else b)"
    unfolding push_cand_def push_candidate_def Let_def same option.case pair_less by auto
qed

interpretation meta: best_choice mc_order push_metadata_cand
  by unfold_locales (auto simp: push_metadata_cand_def)

section \<open>The strongest rule decides\<close>

text \<open>The specification: which rules apply to a question and how strong each of them is.\<close>

type_synonym strength = "nat \<times> nat \<times> nat \<times> int"

definition rules :: "'e rule_set \<Rightarrow> ('e \<times> resolution_source) set" where
  "rules s = set (zip (rs_entries s) (rs_sources s))"

definition key_strength :: "permission_key \<Rightarrow> permission_context \<Rightarrow> permission_entry \<times> resolution_source \<Rightarrow> strength option" where
  "key_strength key ctx r = (case r of (e, src) \<Rightarrow>
     if rc_matches (pe_context e) ctx \<and> key_matches (pe_key e) key
     then Some (key_specificity (pe_key e), rc_specificity (pe_context e), source_rank src, tie_priority src) else None)"

definition scoped_strength ::
  "permission_key \<Rightarrow> permission_key \<Rightarrow> permission_context \<Rightarrow> permission_entry \<times> resolution_source \<Rightarrow> strength option" where
  "scoped_strength parent key ctx r = (case r of (e, src) \<Rightarrow>
     if \<not> rc_matches (pe_context e) ctx then None
     else if key_scopes parent key \<and> key_matches (pe_key e) parent
       then Some (key_specificity (pe_key e), rc_specificity (pe_context e), source_rank src, tie_priority src)
     else if key_matches (pe_key e) key
       then Some (key_specificity (pe_key e) + 1, rc_specificity (pe_context e), source_rank src, tie_priority src)
     else None)"

definition applicable :: "('r \<Rightarrow> strength option) \<Rightarrow> 'r set \<Rightarrow> 'r set" where
  "applicable str R = {r \<in> R. str r \<noteq> None}"

definition strongest :: "('r \<Rightarrow> strength option) \<Rightarrow> 'r set \<Rightarrow> 'r set" where
  "strongest str R = {r \<in> applicable str R. \<forall>q\<in>applicable str R. the (str q) \<le> the (str r)}"

definition decision :: "(permission_entry \<times> resolution_source \<Rightarrow> strength option) \<Rightarrow> (permission_entry \<times> resolution_source) set \<Rightarrow> permission_state option" where
  "decision str R =
     (if applicable str R = {} then None
      else if \<exists>r\<in>strongest str R. pe_state (fst r) = Deny then Some Deny else Some Allow)"

definition to_cand :: "(permission_entry \<times> resolution_source \<Rightarrow> strength option) \<Rightarrow> nat \<times> permission_entry \<times> resolution_source \<Rightarrow> permission_candidate option" where
  "to_cand str x = (case x of (i, e, src) \<Rightarrow>
     map_option (\<lambda>(k, c, r, t). \<lparr>cand_index = i, cand_key_specificity = k, cand_context_specificity = c, cand_source = src, cand_state = pe_state e\<rparr>)
       (str (e, src)))"

lemma best_key_choose:
  "best_key_candidate s key ctx = perm.pick_best (to_cand (key_strength key ctx)) None (enumerate 0 (zip (rs_entries s) (rs_sources s)))"
  unfolding best_key_candidate_def perm.pick_best_def
  by (rule foldl_cong) (auto simp: to_cand_def key_strength_def push_cand_def)

lemma best_scoped_choose:
  "best_scoped_key_candidate s parent key ctx =
     perm.pick_best (to_cand (scoped_strength parent key ctx)) None (enumerate 0 (zip (rs_entries s) (rs_sources s)))"
  unfolding best_scoped_key_candidate_def perm.pick_best_def Let_def
  by (rule foldl_cong) (auto simp: to_cand_def scoped_strength_def push_cand_def)

lemma enumerate_index: "(i, x) \<in> set (enumerate 0 xs) \<longleftrightarrow> i < length xs \<and> xs ! i = x"
  by (auto simp: in_set_conv_nth nth_enumerate_eq)

lemma enumerate_ex: "(\<exists>x\<in>set (enumerate 0 xs). P x) \<longleftrightarrow> (\<exists>i<length xs. P (i, xs ! i))"
  by (auto simp: enumerate_index)

definition strength_of_source :: "(permission_entry \<times> resolution_source \<Rightarrow> strength option) \<Rightarrow> bool" where
  "strength_of_source str \<longleftrightarrow> (\<forall>e src k c r t. str (e, src) = Some (k, c, r, t) \<longrightarrow> r = source_rank src \<and> t = tie_priority src)"

lemma strengths_of_source: "strength_of_source (key_strength key ctx)" "strength_of_source (scoped_strength parent key ctx)"
  by (auto simp: strength_of_source_def key_strength_def scoped_strength_def split: if_splits)

lemma to_cand_iff:
  assumes "strength_of_source str"
  shows "to_cand str (i, e, src) = Some c \<longleftrightarrow> str (e, src) = Some (cand_order c) \<and> cand_index c = i \<and> cand_source c = src \<and> cand_state c = pe_state e"
proof (cases "str (e, src)")
  case (Some q)
  obtain k x r t where q: "q = (k, x, r, t)" by (metis prod_cases4)
  with Some assms have "r = source_rank src" "t = tie_priority src" by (auto simp: strength_of_source_def)
  with Some q show ?thesis by (cases c) (auto simp: to_cand_def cand_order_def)
qed (simp add: to_cand_def)

lemma best_is_strongest:
  fixes L :: "(permission_entry \<times> resolution_source) list"
  assumes "strength_of_source str"
  shows "case perm.pick_best (to_cand str) None (enumerate 0 L) of
      None \<Rightarrow> applicable str (set L) = {} \<and> decision str (set L) = None
    | Some c \<Rightarrow> cand_index c < length L \<and> snd (L ! cand_index c) = cand_source c \<and> pe_state (fst (L ! cand_index c)) = cand_state c
        \<and> str (L ! cand_index c) = Some (cand_order c) \<and> L ! cand_index c \<in> strongest str (set L)
        \<and> decision str (set L) = Some (cand_state c)"
proof (cases "perm.pick_best (to_cand str) None (enumerate 0 L)")
  case None
  have nc: "to_cand str (i, L ! i) = None" if "i < length L" for i
    using perm.choose_best [where f = "to_cand str" and xs = "enumerate 0 L"] None that by (simp add: enumerate_index)
  then have "str (L ! i) = None" if "i < length L" for i
    using nc [OF that] by (cases "L ! i") (auto simp: to_cand_def)
  then have "str x = None" if "x \<in> set L" for x using that by (metis in_set_conv_nth)
  then have "applicable str (set L) = {}" by (auto simp: applicable_def)
  with None show ?thesis by (simp add: decision_def)
next
  case (Some c)
  note best = perm.choose_best [where f = "to_cand str" and xs = "enumerate 0 L", unfolded Some option.case]
  from best obtain i where i: "i < length L" "to_cand str (i, L ! i) = Some c" by (auto simp: enumerate_ex)
  obtain e src where es: "L ! i = (e, src)" by fastforce
  note c = i(2) [unfolded es, unfolded to_cand_iff [OF assms]]
  have max: "(the (str q), deny_rank (pe_state (fst q))) \<le> (cand_order c, deny_rank (cand_state c))" if "q \<in> applicable str (set L)" for q
  proof -
    from that obtain j where j: "j < length L" "L ! j = q" "str q \<noteq> None" by (auto simp: applicable_def in_set_conv_nth)
    obtain qe qs where q: "q = (qe, qs)" by fastforce
    with j obtain d where d: "to_cand str (j, q) = Some d" by (auto simp: to_cand_def)
    note dd = d [unfolded q, unfolded to_cand_iff [OF assms]]
    from best j d have "(cand_order d, deny_rank (cand_state d)) \<le> (cand_order c, deny_rank (cand_state c))"
      by (metis enumerate_index)
    with dd q show ?thesis by simp
  qed
  have le: "the (str q) \<le> cand_order c" if "q \<in> applicable str (set L)" for q using max [OF that] unfolding pair_le by auto
  have "(e, src) \<in> applicable str (set L)" using c i(1) es nth_mem [of i L] unfolding applicable_def by (metis (mono_tags, lifting) CollectI option.distinct(1))
  with le c have st: "(e, src) \<in> strongest str (set L)" by (simp add: strongest_def)
  have dn: "cand_state c = Deny" if "r \<in> strongest str (set L)" "pe_state (fst r) = Deny" for r
  proof -
    have "the (str (e, src)) \<le> the (str r)" "r \<in> applicable str (set L)" using that(1) st by (auto simp: strongest_def)
    with max [of r, unfolded pair_le] c that(2) show ?thesis by (cases "cand_state c") auto
  qed
  have "(\<exists>r\<in>strongest str (set L). pe_state (fst r) = Deny) \<longleftrightarrow> cand_state c = Deny" using dn st c by (metis fst_conv)
  moreover have "applicable str (set L) \<noteq> {}" using st by (auto simp: strongest_def)
  ultimately have "decision str (set L) = Some (cand_state c)" by (cases "cand_state c") (simp_all add: decision_def)
  with Some c st i(1) es show ?thesis by auto
qed

lemma resolve_key_decision: "resolve_key_in s key ctx = decision (key_strength key ctx) (rules s)"
  using best_is_strongest [OF strengths_of_source(1) [of key ctx], of "zip (rs_entries s) (rs_sources s)"]
  unfolding resolve_key_in_def best_key_choose rules_def by (simp split: option.splits)

lemma resolve_scoped_decision: "resolve_scoped_key_in s parent key ctx = decision (scoped_strength parent key ctx) (rules s)"
  using best_is_strongest [OF strengths_of_source(2) [of parent key ctx], of "zip (rs_entries s) (rs_sources s)"]
  unfolding resolve_scoped_key_in_def best_scoped_choose rules_def by (simp split: option.splits)

text \<open>
  C24. Resolution follows the strongest rule: among the rules that match the question and the
  active context, those of the most specific key, then of the most specific context, then of the
  subject before groups, then of the highest group priority decide, a denial among them wins,
  and without any matching rule the question is left open. The order of the rules plays no role.
\<close>
theorem strongest_rule_decides:
  "resolve_key_in s key ctx = decision (key_strength key ctx) (rules s)
   \<and> resolve_scoped_key_in s parent key ctx = decision (scoped_strength parent key ctx) (rules s)"
  by (simp add: resolve_key_decision resolve_scoped_decision)

text \<open>The detailed answer names a rule of the set that is among the strongest and decides.\<close>

lemma detailed_resolution:
  assumes "resolve_key_in_detailed s key ctx = Some r"
  shows "(res_entry r, res_source r) \<in> strongest (key_strength key ctx) (rules s) \<and> resolve_key_in s key ctx = Some (pe_state (res_entry r))
    \<and> res_key_specificity r = key_specificity (pe_key (res_entry r))
    \<and> res_context_specificity r = rc_specificity (pe_context (res_entry r))"
proof -
  from assms obtain c where c: "best_key_candidate s key ctx = Some c" "r = permission_resolution_of s c"
    by (auto simp: resolve_key_in_detailed_def)
  let ?L = "zip (rs_entries s) (rs_sources s)"
  note b = best_is_strongest [OF strengths_of_source(1) [of key ctx], of ?L, unfolded best_key_choose [symmetric] c(1) option.case]
  then have i: "cand_index c < length ?L" by blast
  then have "?L ! cand_index c = (res_entry r, res_source r)"
    using b c(2) by (cases "?L ! cand_index c") (simp add: permission_resolution_of_def)
  moreover have "resolve_key_in s key ctx = Some (cand_state c)" using c(1) by (simp add: resolve_key_in_def)
  ultimately show ?thesis using b c(2)
    by (auto simp: rules_def permission_resolution_of_def key_strength_def cand_order_def split: if_splits)
qed

section \<open>Editing a set\<close>

definition set_ok :: "'e rule_set \<Rightarrow> bool" where
  "set_ok s \<longleftrightarrow> length (rs_entries s) = length (rs_sources s)"

lemma rules_push [simp]: "set_ok s \<Longrightarrow> rules (push_with_source s e src) = insert (e, src) (rules s)"
  "set_ok s \<Longrightarrow> set_ok (push_with_source s e src)"
  by (auto simp: rules_def push_with_source_def set_ok_def)

lemma retain_foldl:
  "set_ok t \<Longrightarrow>
   (let r = foldl (\<lambda>t (e, src). if keep e then push_with_source t e src else t) t L in
    set_ok r \<and> zip (rs_entries r) (rs_sources r) = zip (rs_entries t) (rs_sources t) @ filter (\<lambda>(e, src). keep e) L)"
proof (induction L arbitrary: t)
  case (Cons x L)
  have "set_ok (push_with_source t (fst x) (snd x))"
    "zip (rs_entries (push_with_source t (fst x) (snd x))) (rs_sources (push_with_source t (fst x) (snd x)))
      = zip (rs_entries t) (rs_sources t) @ [x]"
    using Cons.prems by (auto simp: push_with_source_def set_ok_def)
  with Cons.IH [of "push_with_source t (fst x) (snd x)"] Cons.IH [of t] Cons.prems show ?case
    by (cases x) (simp add: Let_def)
qed simp

lemma retain_rules:
  "set_ok (retain_entries keep s)"
  "zip (rs_entries (retain_entries keep s)) (rs_sources (retain_entries keep s)) = filter (\<lambda>(e, src). keep e) (zip (rs_entries s) (rs_sources s))"
  using retain_foldl [of "s\<lparr>rs_entries := [], rs_sources := []\<rparr>" keep "zip (rs_entries s) (rs_sources s)"]
  by (simp_all add: set_ok_def retain_entries_def Let_def)

text \<open>Replacing a rule keeps every other rule and leaves exactly the new one for its key and context.\<close>

lemma set_in_rules:
  "set_ok (set_in s key context state)"
  "rules (set_in s key context state) =
    insert (\<lparr>pe_key = key, pe_context = context, pe_state = state\<rparr>, SubjectSource)
      {(e, src) \<in> rules s. pe_key e \<noteq> key \<or> pe_context e \<noteq> context}"
proof -
  let ?t = "retain_entries (\<lambda>e. pe_key e \<noteq> key \<or> pe_context e \<noteq> context) s"
  have "rules ?t = {(e, src) \<in> rules s. pe_key e \<noteq> key \<or> pe_context e \<noteq> context}"
    unfolding rules_def retain_rules(2) by auto
  with retain_rules(1) [of "\<lambda>e. pe_key e \<noteq> key \<or> pe_context e \<noteq> context" s]
  show "set_ok (set_in s key context state)"
    "rules (set_in s key context state) =
      insert (\<lparr>pe_key = key, pe_context = context, pe_state = state\<rparr>, SubjectSource)
        {(e, src) \<in> rules s. pe_key e \<noteq> key \<or> pe_context e \<noteq> context}"
    by (simp_all add: set_in_def push_entry_def)
qed

lemma unset_in_rules:
  assumes "set_ok s"
  shows "unset_in s key context = (b, t) \<Longrightarrow> set_ok t \<and> rules t = {(e, src) \<in> rules s. pe_key e \<noteq> key \<or> pe_context e \<noteq> context}
    \<and> (b \<longleftrightarrow> (\<exists>e src. (e, src) \<in> rules s \<and> pe_key e = key \<and> pe_context e = context))"
proof -
  assume u: "unset_in s key context = (b, t)"
  let ?P = "\<lambda>e. pe_key e \<noteq> key \<or> pe_context e \<noteq> context" and ?L = "zip (rs_entries s) (rs_sources s)"
  have t: "t = retain_entries ?P s" and b: "b \<longleftrightarrow> length (rs_entries t) \<noteq> length (rs_entries s)" using u by (auto simp: unset_in_def Let_def)
  have ok: "set_ok t" and z: "zip (rs_entries t) (rs_sources t) = filter (\<lambda>(e, src). ?P e) ?L"
    unfolding t using retain_rules by blast+
  have n1: "length (rs_entries t) = length (filter (\<lambda>(e, src). ?P e) ?L)" using arg_cong [OF z, of length] ok by (simp add: set_ok_def)
  have n2: "length (rs_entries s) = length ?L" using assms by (simp add: set_ok_def)
  have f: "length (filter P L) = length L \<longleftrightarrow> (\<forall>x\<in>set L. P x)" for P and L :: "'z list"
    by (induction L) (auto simp: le_imp_less_Suc [OF length_filter_le, THEN less_imp_neq])
  have "b \<longleftrightarrow> \<not> (\<forall>x\<in>set ?L. (\<lambda>(e, src). ?P e) x)" unfolding b n1 n2 f ..
  then have "b \<longleftrightarrow> (\<exists>e src. (e, src) \<in> rules s \<and> pe_key e = key \<and> pe_context e = context)" by (auto simp: rules_def)
  moreover have "rules t = {(e, src) \<in> rules s. ?P e}" unfolding rules_def z by auto
  ultimately show ?thesis using ok by blast
qed

section \<open>Expressions\<close>

definition kleene_and :: "permission_state option \<Rightarrow> permission_state option \<Rightarrow> permission_state option" where
  "kleene_and a b = (if a = Some Deny \<or> b = Some Deny then Some Deny else if a = None \<or> b = None then None else Some Allow)"

definition kleene_or :: "permission_state option \<Rightarrow> permission_state option \<Rightarrow> permission_state option" where
  "kleene_or a b = (if a = Some Allow \<or> b = Some Allow then Some Allow else if a = None \<or> b = None then None else Some Deny)"

lemma resolve_all_foldr:
  "resolve_all s ctx u es = kleene_and (if u then None else Some Allow) (foldr (\<lambda>e. kleene_and (resolve_in s ctx e)) es (Some Allow))"
  by (induction es arbitrary: u) (auto simp: kleene_and_def split: option.splits permission_state.splits)

lemma resolve_any_foldr:
  "resolve_any s ctx u es = kleene_or (if u then None else Some Deny) (foldr (\<lambda>e. kleene_or (resolve_in s ctx e)) es (Some Deny))"
  by (induction es arbitrary: u) (auto simp: kleene_or_def split: option.splits permission_state.splits)

lemma kleene_unit:
  "kleene_and (Some Allow) a = a" "kleene_and a (Some Allow) = a" "kleene_or (Some Deny) a = a" "kleene_or a (Some Deny) = a"
  "kleene_and (kleene_and a b) c = kleene_and a (kleene_and b c)" "kleene_or (kleene_or a b) c = kleene_or a (kleene_or b c)"
  by (cases a rule: option.exhaust; auto simp: kleene_and_def kleene_or_def; metis permission_state.exhaust)+

lemma resolve_flat_all: "resolve_in s ctx (EAll es) = foldr (\<lambda>e. kleene_and (resolve_in s ctx e)) es (Some Allow)"
  by (simp add: resolve_all_foldr kleene_unit)

lemma resolve_flat_any: "resolve_in s ctx (EAny es) = foldr (\<lambda>e. kleene_or (resolve_in s ctx e)) es (Some Deny)"
  by (simp add: resolve_any_foldr kleene_unit)

lemma resolve_all_parts:
  "resolve_in s ctx (EAll []) = Some Allow"
  "resolve_in s ctx (EAll (e # es)) = kleene_and (resolve_in s ctx e) (resolve_in s ctx (EAll es))"
  "resolve_in s ctx (EAll (es @ fs)) = kleene_and (resolve_in s ctx (EAll es)) (resolve_in s ctx (EAll fs))"
  unfolding resolve_flat_all by (simp, simp, induction es) (simp_all add: kleene_unit)

lemma resolve_any_parts:
  "resolve_in s ctx (EAny []) = Some Deny"
  "resolve_in s ctx (EAny (e # es)) = kleene_or (resolve_in s ctx e) (resolve_in s ctx (EAny es))"
  "resolve_in s ctx (EAny (es @ fs)) = kleene_or (resolve_in s ctx (EAny es)) (resolve_in s ctx (EAny fs))"
  unfolding resolve_flat_any by (simp, simp, induction es) (simp_all add: kleene_unit)

lemma resolve_bitand: "resolve_in s ctx (expr_bitand a b) = kleene_and (resolve_in s ctx a) (resolve_in s ctx b)"
  by (cases a; cases b) (simp_all only: expr_bitand.simps resolve_all_parts kleene_unit)

lemma resolve_bitor: "resolve_in s ctx (expr_bitor a b) = kleene_or (resolve_in s ctx a) (resolve_in s ctx b)"
  by (cases a; cases b) (simp_all only: expr_bitor.simps resolve_any_parts kleene_unit)

text \<open>
  Permission expressions are three-valued logic: a list under \<open>All\<close> is the conjunction of its
  parts and one under \<open>Any\<close> the disjunction, an unset part making the whole unset unless the others
  decide it; the flattening operators mean the same, so a conjunction is allowed exactly when
  both sides are and a disjunction exactly when one is.
\<close>
theorem expressions_are_three_valued:
  "resolve_in s ctx (EAll es) = foldr (\<lambda>e. kleene_and (resolve_in s ctx e)) es (Some Allow)
   \<and> resolve_in s ctx (EAny es) = foldr (\<lambda>e. kleene_or (resolve_in s ctx e)) es (Some Deny)
   \<and> resolve_in s ctx (expr_bitand a b) = kleene_and (resolve_in s ctx a) (resolve_in s ctx b)
   \<and> resolve_in s ctx (expr_bitor a b) = kleene_or (resolve_in s ctx a) (resolve_in s ctx b)
   \<and> (allows_in s (expr_bitand a b) ctx \<longleftrightarrow> allows_in s a ctx \<and> allows_in s b ctx)
   \<and> (allows_in s (expr_bitor a b) ctx \<longleftrightarrow> allows_in s a ctx \<or> allows_in s b ctx)"
proof -
  have "kleene_and x y = Some Allow \<longleftrightarrow> x = Some Allow \<and> y = Some Allow" "kleene_or x y = Some Allow \<longleftrightarrow> x = Some Allow \<or> y = Some Allow" for x y
    by (auto simp: kleene_and_def kleene_or_def split: if_splits) (metis option.exhaust permission_state.exhaust)+
  then show ?thesis
    unfolding allows_in_def resolve_bitand resolve_bitor by (simp only: resolve_flat_all resolve_flat_any simp_thms)
qed

section \<open>Metadata\<close>

definition to_metadata_cand :: "ident \<Rightarrow> permission_context \<Rightarrow> nat \<times> metadata_entry \<times> resolution_source \<Rightarrow> metadata_candidate option" where
  "to_metadata_cand key ctx x = (case x of (i, e, src) \<Rightarrow>
     if me_key e \<noteq> key \<or> \<not> rc_matches (me_context e) ctx then None
     else Some \<lparr>mc_index = i, mc_context_specificity = rc_specificity (me_context e), mc_source = src\<rparr>)"

lemma best_metadata_choose:
  "best_metadata_candidate s key ctx = meta.pick_best (to_metadata_cand key ctx) None (enumerate 0 (zip (rs_entries s) (rs_sources s)))"
  unfolding best_metadata_candidate_def meta.pick_best_def
  by (rule foldl_cong) (auto simp: to_metadata_cand_def push_metadata_cand_def Let_def)

definition metadata_applies :: "metadata_set \<Rightarrow> ident \<Rightarrow> permission_context \<Rightarrow> nat \<Rightarrow> bool" where
  "metadata_applies s key ctx i \<longleftrightarrow>
     i < length (rs_entries s) \<and> me_key (rs_entries s ! i) = key \<and> rc_matches (me_context (rs_entries s ! i)) ctx"

definition metadata_strength :: "metadata_set \<Rightarrow> nat \<Rightarrow> nat \<times> nat \<times> int \<times> nat" where
  "metadata_strength s i =
     (rc_specificity (me_context (rs_entries s ! i)), source_rank (rs_sources s ! i), tie_priority (rs_sources s ! i), i)"

lemma metadata_winner:
  assumes "set_ok s"
  shows "case metadata_resolve_in s key ctx of
      None \<Rightarrow> \<forall>i. \<not> metadata_applies s key ctx i
    | Some v \<Rightarrow> \<exists>i. metadata_applies s key ctx i \<and> v = me_value (rs_entries s ! i)
        \<and> (\<forall>j. metadata_applies s key ctx j \<longrightarrow> metadata_strength s j \<le> metadata_strength s i)"
proof -
  let ?L = "zip (rs_entries s) (rs_sources s)" and ?f = "to_metadata_cand key ctx"
  have f: "?f (i, ?L ! i) = (if metadata_applies s key ctx i
        then Some \<lparr>mc_index = i, mc_context_specificity = rc_specificity (me_context (rs_entries s ! i)), mc_source = rs_sources s ! i\<rparr> else None)"
    if "i < length ?L" for i
    using that assms by (simp add: to_metadata_cand_def metadata_applies_def set_ok_def)
  have len: "metadata_applies s key ctx i \<Longrightarrow> i < length ?L" for i using assms by (simp add: metadata_applies_def set_ok_def)
  note best = meta.choose_best [where f = ?f and xs = "enumerate 0 ?L", folded best_metadata_choose]
  show ?thesis
  proof (cases "best_metadata_candidate s key ctx")
    case None
    have "?f (i, ?L ! i) = None" if "i < length ?L" for i
      using best that unfolding None option.case by (metis enumerate_index)
    with f len have "\<not> metadata_applies s key ctx i" for i by (metis option.distinct(1))
    with None show ?thesis by (simp add: metadata_resolve_in_def)
  next
    case (Some c)
    from best [unfolded Some option.case] obtain i where i: "i < length ?L" "?f (i, ?L ! i) = Some c"
      and max: "\<And>x d. x \<in> set (enumerate 0 ?L) \<Longrightarrow> ?f x = Some d \<Longrightarrow> mc_order d \<le> mc_order c" by (auto simp: enumerate_ex)
    from i f [OF i(1)] have c: "metadata_applies s key ctx i" "mc_index c = i" "mc_order c = metadata_strength s i"
      by (auto simp: mc_order_def metadata_strength_def split: if_splits)
    have "metadata_strength s j \<le> metadata_strength s i" if "metadata_applies s key ctx j" for j
      using max [of "(j, ?L ! j)"] f [OF len [OF that]] that len [OF that] c(3)
      by (simp add: enumerate_index mc_order_def metadata_strength_def)
    with c Some show ?thesis by (auto simp: metadata_resolve_in_def)
  qed
qed

end
