(* ===== verification/Permission_Groups.thy ===== *)
theory Permission_Groups
  imports Permission_Sets
begin

text \<open>
  Permission groups (\<open>steel-core/src/permission/groups.rs\<close>): validation of the configuration with
  its search for inheritance cycles, and the effective permissions and metadata of a subject;
  and their manager with persistence-first updates (\<open>manager.rs\<close>). A \<open>BTreeMap\<close> is kept as the
  list of its entries in key order.
\<close>

section \<open>Configuration\<close>

record metadata_rule_config =
  mr_key :: rust_string
  mr_value :: metadata_value

record group_config =
  gc_priority :: int
  gc_inherits :: "rust_string list"
  gc_allow :: "rust_string list"
  gc_deny :: "rust_string list"
  gc_metadata :: "metadata_rule_config list"

record groups_config =
  cfg_default_groups :: "rust_string list"
  cfg_groups :: "(rust_string \<times> group_config) list"

datatype config_error =
    MissingDefaultGroup rust_string
  | MissingRequiredGroup rust_string
  | MissingInheritedGroup rust_string rust_string
  | InheritedGroupCycle "rust_string list"
  | InvalidPermissionExpression rust_string rule_expression_error
  | InvalidMetadataExpression rust_string metadata_expression_error
  | InvalidGroupName rust_string permission_key_error

definition OP_GROUP :: rust_string where
  "OP_GROUP = chars ''op''"

fun btm_insert :: "rust_string \<Rightarrow> 'v \<Rightarrow> (rust_string \<times> 'v) list \<Rightarrow> (rust_string \<times> 'v) list" where
  "btm_insert k v [] = [(k, v)]"
| "btm_insert k v ((k', v') # m) =
     (case str_cmp k k' of
        Less \<Rightarrow> (k, v) # (k', v') # m
      | Equal \<Rightarrow> (k, v) # m
      | Greater \<Rightarrow> (k', v') # btm_insert k v m)"

definition group_config_default :: group_config where
  "group_config_default = \<lparr>gc_priority = 0, gc_inherits = [], gc_allow = [], gc_deny = [], gc_metadata = []\<rparr>"

definition groups_config_default :: groups_config where
  "groups_config_default =
     \<lparr>cfg_default_groups = [chars ''default''],
      cfg_groups = btm_insert OP_GROUP (group_config_default\<lparr>gc_allow := [chars ''*'']\<rparr>)
                     (btm_insert (chars ''default'') group_config_default [])\<rparr>"

record permission_group =
  pg_priority :: int
  pg_inherits :: "rust_string list"
  pg_permissions :: permission_set
  pg_metadata :: metadata_set

record permission_groups =
  pgs_default_groups :: "rust_string list"
  pgs_groups :: "(rust_string \<times> permission_group) list"

section \<open>Validation\<close>

definition validate_group_name :: "rust_string \<Rightarrow> config_error option" where
  "validate_group_name gname = (case segment_parse gname of Inl e \<Rightarrow> Some (InvalidGroupName gname e) | Inr _ \<Rightarrow> None)"

definition parse_group_rule :: "rust_string \<Rightarrow> rust_string \<Rightarrow> config_error + rule_expression" where
  "parse_group_rule gname rule = map_sum (InvalidPermissionExpression gname) id (rule_expression_parse rule)"

definition parse_group_permissions :: "rust_string \<Rightarrow> rust_string list \<Rightarrow> rust_string list \<Rightarrow> config_error + permission_set" where
  "parse_group_permissions gname allow deny =
     (case try_fold (\<lambda>s rule. case parse_group_rule gname rule of
                       Inl e \<Rightarrow> Inl e
                     | Inr e \<Rightarrow> Inr (set_allow s (expr_key e) (expr_context e))) ruleset_new allow of
        Inl e \<Rightarrow> Inl e
      | Inr allowed \<Rightarrow>
          try_fold (\<lambda>s rule. case parse_group_rule gname rule of
                      Inl e \<Rightarrow> Inl e
                    | Inr e \<Rightarrow> Inr (set_deny s (expr_key e) (expr_context e))) allowed deny)"

definition parse_group_metadata :: "rust_string \<Rightarrow> metadata_rule_config list \<Rightarrow> config_error + metadata_set" where
  "parse_group_metadata gname =
     try_fold (\<lambda>s rule. case metadata_expression_parse (mr_key rule) of
                 Inl e \<Rightarrow> Inl (InvalidMetadataExpression gname e)
               | Inr e \<Rightarrow> Inr (push_entry s \<lparr>me_key = mexpr_key e, me_context = mexpr_context e, me_value = mr_value rule\<rparr>))
       ruleset_new"

text \<open>The search for cycles below ends: every level of its recursion puts one more configured group on the stack.\<close>

lemma stack_decreases:
  assumes "g \<notin> set stack"
  shows "card (dom (map_of cfg) - set (stack @ [g])) < card (dom (map_of cfg) - set stack) + (if map_of cfg g = None then 1 else 0)"
proof -
  let ?D = "dom (map_of cfg) - set stack"
  have f: "finite ?D" by (simp add: finite_dom_map_of)
  have e: "dom (map_of cfg) - set (stack @ [g]) = ?D - {g}" by auto
  show ?thesis
  proof (cases "map_of cfg g")
    case None
    then have "g \<notin> ?D" by auto
    with None show ?thesis unfolding e by simp
  next
    case (Some c)
    with assms have "g \<in> ?D" by auto
    with f Some show ?thesis unfolding e using card_Diff1_less [of ?D g] by simp
  qed
qed

text \<open>
  The depth-first search of \<open>validate_group_inheritance_node\<close> and its loop over the parents. The
  stack is pushed before and popped after the loop, so that it is back where it was whenever a
  call succeeds: it is a parameter here, and only the visited groups are threaded.
\<close>

function (sequential) validate_node ::
    "(rust_string \<times> group_config) list \<Rightarrow> rust_string \<Rightarrow> group_config \<Rightarrow> rust_string list \<Rightarrow> rust_string list \<Rightarrow> config_error + rust_string list"
  and validate_parents ::
    "(rust_string \<times> group_config) list \<Rightarrow> rust_string \<Rightarrow> rust_string list \<Rightarrow> rust_string list \<Rightarrow> rust_string list \<Rightarrow> config_error + rust_string list" where
  "validate_node cfg gname gc visited stack =
     (if gname \<in> set visited then Inr visited
      else if gname \<in> set stack then Inl (InheritedGroupCycle (dropWhile (\<lambda>a. a \<noteq> gname) stack @ [gname]))
      else case validate_parents cfg gname (gc_inherits gc) visited (stack @ [gname]) of
             Inl e \<Rightarrow> Inl e
           | Inr visited' \<Rightarrow> Inr (gname # visited'))"
| "validate_parents cfg gname [] visited stack = Inr visited"
| "validate_parents cfg gname (p # ps) visited stack =
     (case map_of cfg p of
        None \<Rightarrow> Inl (MissingInheritedGroup gname p)
      | Some pc \<Rightarrow>
          (case validate_node cfg p pc visited stack of
             Inl e \<Rightarrow> Inl e
           | Inr visited' \<Rightarrow> validate_parents cfg gname ps visited' stack))"
  by pat_completeness auto

termination
proof (relation "inv_image (less_than <*lex*> less_than) (\<lambda>x. case x of
    Inl (cfg, g, gc, visited, stack) \<Rightarrow> (card (dom (map_of cfg) - set stack) + (if map_of cfg g = None then 1 else 0), 0)
  | Inr (cfg, g, ps, visited, stack) \<Rightarrow> (card (dom (map_of cfg) - set stack), Suc (length ps)))", goal_cases)
  case 1
  then show ?case by auto
next
  case (2 cfg gname gc visited stack)
  then show ?case using stack_decreases [of gname stack cfg] by simp
qed auto

fun check_parents :: "(rust_string \<times> group_config) list \<Rightarrow> rust_string \<Rightarrow> rust_string list \<Rightarrow> config_error option" where
  "check_parents cfg gname [] = None"
| "check_parents cfg gname (p # ps) =
     (case validate_group_name p of
        Some e \<Rightarrow> Some e
      | None \<Rightarrow> if map_of cfg p = None then Some (MissingInheritedGroup gname p) else check_parents cfg gname ps)"

definition validate_group_inheritance :: "(rust_string \<times> group_config) list \<Rightarrow> config_error + unit" where
  "validate_group_inheritance cfg =
     (case try_fold (\<lambda>_ (gname, gc). case check_parents cfg gname (gc_inherits gc) of Some e \<Rightarrow> Inl e | None \<Rightarrow> Inr ()) () cfg of
        Inl e \<Rightarrow> Inl e
      | Inr _ \<Rightarrow>
          (case try_fold (\<lambda>visited (gname, gc). validate_node cfg gname gc visited []) [] cfg of
             Inl e \<Rightarrow> Inl e
           | Inr _ \<Rightarrow> Inr ()))"

definition build_group :: "rust_string \<Rightarrow> group_config \<Rightarrow> config_error + permission_group" where
  "build_group name gc =
     (case validate_group_name name of
        Some e \<Rightarrow> Inl e
      | None \<Rightarrow>
          (case parse_group_permissions name (gc_allow gc) (gc_deny gc) of
             Inl e \<Rightarrow> Inl e
           | Inr permissions \<Rightarrow>
               (case parse_group_metadata name (gc_metadata gc) of
                  Inl e \<Rightarrow> Inl e
                | Inr metadata \<Rightarrow>
                    Inr \<lparr>pg_priority = gc_priority gc, pg_inherits = gc_inherits gc, pg_permissions = permissions, pg_metadata = metadata\<rparr>)))"

fun check_default_groups :: "groups_config \<Rightarrow> rust_string list \<Rightarrow> config_error option" where
  "check_default_groups config [] = None"
| "check_default_groups config (d # ds) =
     (case validate_group_name d of
        Some e \<Rightarrow> Some e
      | None \<Rightarrow> if map_of (cfg_groups config) d = None then Some (MissingDefaultGroup d) else check_default_groups config ds)"

definition from_config :: "groups_config \<Rightarrow> config_error + permission_groups" where
  "from_config config =
     (case check_default_groups config (cfg_default_groups config) of
        Some e \<Rightarrow> Inl e
      | None \<Rightarrow>
          if map_of (cfg_groups config) OP_GROUP = None then Inl (MissingRequiredGroup OP_GROUP)
          else case validate_group_inheritance (cfg_groups config) of
                 Inl e \<Rightarrow> Inl e
               | Inr _ \<Rightarrow>
                   (case try_fold (\<lambda>groups (name, gc). case build_group name gc of
                                     Inl e \<Rightarrow> Inl e
                                   | Inr g \<Rightarrow> Inr (btm_insert name g groups)) [] (cfg_groups config) of
                      Inl e \<Rightarrow> Inl e
                    | Inr groups \<Rightarrow> Inr \<lparr>pgs_default_groups = cfg_default_groups config, pgs_groups = groups\<rparr>))"

section \<open>Effective rules\<close>

text \<open>The walk over the groups below ends: it appends one more configured group at every level.\<close>

lemma appended_decreases:
  assumes "map_of gs gname = Some g" and "gname \<notin> set app"
  shows "card (dom (map_of gs) - set (gname # app)) < card (dom (map_of gs) - set app)"
proof -
  have "dom (map_of gs) - set (gname # app) = (dom (map_of gs) - set app) - {gname}" by auto
  moreover have "gname \<in> dom (map_of gs) - set app" using assms by auto
  ultimately show ?thesis using card_Diff1_less [of "dom (map_of gs) - set app" gname] by (simp add: finite_dom_map_of)
qed

text \<open>
  \<open>append_group\<close> and \<open>append_group_metadata\<close> are the same walk at two types of entries: a group
  once appended is skipped, its parents come first, then its own entries.
\<close>

function (sequential) append_group_with ::
    "(permission_group \<Rightarrow> 'e list) \<Rightarrow> (rust_string \<times> permission_group) list \<Rightarrow> rust_string \<Rightarrow> 'e rule_set \<times> rust_string list \<Rightarrow> 'e rule_set \<times> rust_string list"
  and append_parents_with ::
    "(permission_group \<Rightarrow> 'e list) \<Rightarrow> (rust_string \<times> permission_group) list \<Rightarrow> rust_string list \<Rightarrow> 'e rule_set \<times> rust_string list \<Rightarrow> 'e rule_set \<times> rust_string list" where
  "append_group_with sel gs gname st =
     (if gname \<in> set (snd st) then st
      else case map_of gs gname of
             None \<Rightarrow> (fst st, gname # snd st)
           | Some g \<Rightarrow>
               (let st' = append_parents_with sel gs (pg_inherits g) (fst st, gname # snd st)
                in (foldl (\<lambda>s e. push_group s e gname (pg_priority g)) (fst st') (sel g), snd st')))"
| "append_parents_with sel gs [] st = st"
| "append_parents_with sel gs (p # ps) st = append_parents_with sel gs ps (append_group_with sel gs p st)"
  by pat_completeness auto

termination
proof (relation "inv_image (less_than <*lex*> less_than) (\<lambda>x. case x of
    Inl (sel, gs, g, st) \<Rightarrow> (card (dom (map_of gs) - set (snd st)), 0)
  | Inr (sel, gs, ps, st) \<Rightarrow> (card (dom (map_of gs) - set (snd st)), Suc (length ps)))", goal_cases)
  case 1
  then show ?case by auto
next
  case (2 sel gs gname st g)
  then show ?case using appended_decreases [of gs gname g "snd st"] by simp
next
  case (3 sel gs p ps st)
  then show ?case by simp
next
  case (4 sel gs p ps st)
  have "append_group_with_append_parents_with_dom (Inl (sel', gs', g', st')) \<Longrightarrow> set (snd st') \<subseteq> set (snd (append_group_with sel' gs' g' st'))"
    "append_group_with_append_parents_with_dom (Inr (sel', gs', ps', st')) \<Longrightarrow> set (snd st') \<subseteq> set (snd (append_parents_with sel' gs' ps' st'))"
    for sel' :: "permission_group \<Rightarrow> 'a list" and gs' g' ps' st'
    by (induction rule: append_group_with_append_parents_with.pinduct)
      (auto simp: append_group_with.psimps append_parents_with.psimps Let_def split: option.split)
  with 4 have "dom (map_of gs) - set (snd (append_group_with sel gs p st)) \<subseteq> dom (map_of gs) - set (snd st)" by blast
  then have "card (dom (map_of gs) - set (snd (append_group_with sel gs p st))) \<le> card (dom (map_of gs) - set (snd st))"
    by (intro card_mono) (auto simp: finite_dom_map_of)
  then show ?case by auto
qed

definition append_group ::
  "permission_groups \<Rightarrow> rust_string \<Rightarrow> permission_set \<times> rust_string list \<Rightarrow> permission_set \<times> rust_string list" where
  "append_group groups = append_group_with (\<lambda>g. rs_entries (pg_permissions g)) (pgs_groups groups)"

definition append_group_metadata ::
  "permission_groups \<Rightarrow> rust_string \<Rightarrow> metadata_set \<times> rust_string list \<Rightarrow> metadata_set \<times> rust_string list" where
  "append_group_metadata groups = append_group_with (\<lambda>g. rs_entries (pg_metadata g)) (pgs_groups groups)"

definition effective_permissions :: "permission_groups \<Rightarrow> rust_string list \<Rightarrow> permission_set \<Rightarrow> permission_set" where
  "effective_permissions groups assigned_groups subject_permissions =
     (let st = foldl (\<lambda>st g. append_group groups g st) (ruleset_new, []) (pgs_default_groups groups);
          st' = foldl (\<lambda>st g. append_group groups g st) st assigned_groups
      in foldl push_entry (fst st') (rs_entries subject_permissions))"

definition effective_metadata :: "permission_groups \<Rightarrow> rust_string list \<Rightarrow> metadata_set \<Rightarrow> metadata_set" where
  "effective_metadata groups assigned_groups subject_metadata =
     (let st = foldl (\<lambda>st g. append_group_metadata groups g st) (ruleset_new, []) (pgs_default_groups groups);
          st' = foldl (\<lambda>st g. append_group_metadata groups g st) st assigned_groups
      in foldl push_entry (fst st') (rs_entries subject_metadata))"

definition contains_group :: "permission_groups \<Rightarrow> rust_string \<Rightarrow> bool" where
  "contains_group groups gname \<longleftrightarrow> map_of (pgs_groups groups) gname \<noteq> None"

section \<open>Accepted configurations\<close>

definition inherits_rel :: "(rust_string \<times> group_config) list \<Rightarrow> (rust_string \<times> rust_string) set" where
  "inherits_rel cfg = {(a, b). \<exists>gc. map_of cfg a = Some gc \<and> b \<in> set (gc_inherits gc)}"

text \<open>A visited group inherits, directly or not, only along finite chains.\<close>

lemma validate_grounded:
  "validate_node cfg g gc visited stack = Inr v \<Longrightarrow> map_of cfg g = Some gc \<Longrightarrow> set visited \<subseteq> Wellfounded.acc ((inherits_rel cfg)\<inverse>) \<Longrightarrow>
    set v \<subseteq> Wellfounded.acc ((inherits_rel cfg)\<inverse>) \<and> set visited \<subseteq> set v \<and> g \<in> set v"
  "validate_parents cfg g ps visited stack = Inr v \<Longrightarrow> set visited \<subseteq> Wellfounded.acc ((inherits_rel cfg)\<inverse>) \<Longrightarrow>
    set v \<subseteq> Wellfounded.acc ((inherits_rel cfg)\<inverse>) \<and> set visited \<subseteq> set v \<and> set ps \<subseteq> set v"
proof (induction cfg g gc visited stack and cfg g ps visited stack arbitrary: v and v rule: validate_node_validate_parents.induct)
  case (1 cfg g gc visited stack)
  show ?case
  proof (cases "g \<in> set visited")
    case True
    with 1 show ?thesis by simp
  next
    case False
    with "1.prems"(1) obtain v' where v': "validate_parents cfg g (gc_inherits gc) visited (stack @ [g]) = Inr v'" "v = g # v'"
      "g \<notin> set stack" by (auto split: if_splits sum.splits)
    with "1.IH" False "1.prems" have ih: "set v' \<subseteq> Wellfounded.acc ((inherits_rel cfg)\<inverse>)" "set visited \<subseteq> set v'" "set (gc_inherits gc) \<subseteq> set v'"
      by blast+
    have "g \<in> Wellfounded.acc ((inherits_rel cfg)\<inverse>)"
    proof (rule accI)
      fix y assume "(y, g) \<in> (inherits_rel cfg)\<inverse>"
      with "1.prems"(2) have "y \<in> set (gc_inherits gc)" by (auto simp: inherits_rel_def)
      with ih show "y \<in> Wellfounded.acc ((inherits_rel cfg)\<inverse>)" by blast
    qed
    with ih v' show ?thesis by auto
  qed
next
  case (3 cfg g p ps visited stack)
  from "3.prems"(1) obtain pc v' where pc: "map_of cfg p = Some pc" "validate_node cfg p pc visited stack = Inr v'"
    "validate_parents cfg g ps v' stack = Inr v" by (auto split: option.splits sum.splits)
  from "3.IH"(1) [OF pc(1,2,1) "3.prems"(2)] have n: "set v' \<subseteq> Wellfounded.acc ((inherits_rel cfg)\<inverse>)" "set visited \<subseteq> set v'" "p \<in> set v'" by blast+
  from "3.IH"(2) [OF pc(1,2,3) n(1)] n show ?case by auto
qed simp

lemma validate_cycle:
  "validate_node cfg g gc visited stack = Inl (InheritedGroupCycle c) \<Longrightarrow> map_of cfg g = Some gc \<Longrightarrow>
    successively (\<lambda>a b. (a, b) \<in> inherits_rel cfg) (stack @ [g]) \<Longrightarrow>
    successively (\<lambda>a b. (a, b) \<in> inherits_rel cfg) c \<and> 2 \<le> length c \<and> hd c = last c"
  "validate_parents cfg g ps visited stack = Inl (InheritedGroupCycle c) \<Longrightarrow> \<forall>p\<in>set ps. (g, p) \<in> inherits_rel cfg \<Longrightarrow>
    stack \<noteq> [] \<Longrightarrow> last stack = g \<Longrightarrow> successively (\<lambda>a b. (a, b) \<in> inherits_rel cfg) stack \<Longrightarrow>
    successively (\<lambda>a b. (a, b) \<in> inherits_rel cfg) c \<and> 2 \<le> length c \<and> hd c = last c"
proof (induction cfg g gc visited stack and cfg g ps visited stack rule: validate_node_validate_parents.induct)
  case (1 cfg g gc visited stack)
  from "1.prems"(1) have nv: "g \<notin> set visited" by (auto split: if_splits)
  show ?case
  proof (cases "g \<in> set stack")
    case True
    let ?d = "dropWhile (\<lambda>a. a \<noteq> g) stack"
    have c: "c = ?d @ [g]" using "1.prems"(1) nv True by simp
    have d: "?d \<noteq> []" "hd ?d = g" using True hd_dropWhile [of "\<lambda>a. a \<noteq> g" stack] by (auto simp: dropWhile_eq_Nil_conv)
    have "stack @ [g] = takeWhile (\<lambda>a. a \<noteq> g) stack @ c" unfolding c by simp
    with "1.prems"(3) have "successively (\<lambda>a b. (a, b) \<in> inherits_rel cfg) (takeWhile (\<lambda>a. a \<noteq> g) stack @ c)" by simp
    then have "successively (\<lambda>a b. (a, b) \<in> inherits_rel cfg) c" by (simp add: successively_append_iff)
    with c d show ?thesis by (cases ?d) auto
  next
    case False
    with "1.prems"(1) nv have "validate_parents cfg g (gc_inherits gc) visited (stack @ [g]) = Inl (InheritedGroupCycle c)"
      by (auto split: sum.splits)
    with "1.IH" nv False "1.prems"(2,3) show ?thesis by (auto simp: inherits_rel_def)
  qed
next
  case (3 cfg g p ps visited stack)
  from "3.prems"(1) obtain pc where pc: "map_of cfg p = Some pc" by (auto split: option.splits)
  have path: "successively (\<lambda>a b. (a, b) \<in> inherits_rel cfg) (stack @ [p])"
    using "3.prems" by (simp add: successively_append_iff)
  show ?case
  proof (cases "validate_node cfg p pc visited stack")
    case (Inl e)
    with "3.prems"(1) pc have "e = InheritedGroupCycle c" by simp
    with "3.IH"(1) [OF pc] Inl pc path show ?thesis by simp
  next
    case (Inr v')
    with "3.prems"(1) pc have "validate_parents cfg g ps v' stack = Inl (InheritedGroupCycle c)" by simp
    with "3.IH"(2) [OF pc Inr] "3.prems" show ?thesis by simp
  qed
qed simp

lemma validate_all_Inr:
  assumes "try_fold (\<lambda>visited (g, gc). validate_node cfg g gc visited []) v0 xs = Inr v"
    and "\<forall>(g, gc)\<in>set xs. map_of cfg g = Some gc" and "set v0 \<subseteq> Wellfounded.acc ((inherits_rel cfg)\<inverse>)"
  shows "set v \<subseteq> Wellfounded.acc ((inherits_rel cfg)\<inverse>) \<and> set v0 \<subseteq> set v \<and> fst ` set xs \<subseteq> set v"
  using assms
proof (induction xs arbitrary: v0)
  case (Cons x xs)
  obtain g gc where x: "x = (g, gc)" by fastforce
  with Cons.prems(1) obtain v1 where v1: "validate_node cfg g gc v0 [] = Inr v1"
    "try_fold (\<lambda>visited (g, gc). validate_node cfg g gc visited []) v1 xs = Inr v"
    by (cases "validate_node cfg g gc v0 []") (simp_all del: validate_node.simps)
  from validate_grounded(1) [OF v1(1)] Cons.prems x Cons.IH [OF v1(2)] show ?case by auto
qed simp

lemma validate_all_cycle:
  assumes "try_fold (\<lambda>visited (g, gc). validate_node cfg g gc visited []) v0 xs = Inl (InheritedGroupCycle c)"
    and "\<forall>(g, gc)\<in>set xs. map_of cfg g = Some gc"
  shows "successively (\<lambda>a b. (a, b) \<in> inherits_rel cfg) c \<and> 2 \<le> length c \<and> hd c = last c"
  using assms
proof (induction xs arbitrary: v0)
  case (Cons x xs)
  obtain g gc where x: "x = (g, gc)" by fastforce
  with Cons.prems have m: "map_of cfg g = Some gc" by simp
  show ?case
  proof (cases "validate_node cfg g gc v0 []")
    case (Inl e)
    with Cons.prems(1) x have "e = InheritedGroupCycle c" by (simp del: validate_node.simps)
    with validate_cycle(1) [OF _ m] Inl show ?thesis by simp
  next
    case (Inr v1)
    with Cons x show ?thesis by (simp del: validate_node.simps)
  qed
qed simp

lemma grounded_acyclic:
  assumes "\<And>g. map_of cfg g \<noteq> None \<Longrightarrow> g \<in> Wellfounded.acc ((inherits_rel cfg)\<inverse>)"
  shows "acyclic (inherits_rel cfg)"
proof -
  have "x \<in> Wellfounded.acc ((inherits_rel cfg)\<inverse>)" for x
  proof (cases "map_of cfg x")
    case None
    show ?thesis by (rule accI) (use None in \<open>auto simp: inherits_rel_def\<close>)
  qed (use assms in simp)
  then have "wf ((inherits_rel cfg)\<inverse>)" by (intro acc_wfI) simp
  then show ?thesis using wf_acyclic acyclic_converse by blast
qed

lemma map_of_btm_insert: "map_of (btm_insert k v m) = (map_of m)(k \<mapsto> v)"
  by (induction m) (auto simp: fun_eq_iff str_cmp_Equal split: ordering.splits, (metis str_cmp_Equal ordering.distinct(5))+)

lemma build_all:
  assumes "try_fold (\<lambda>groups (name, gc). case build_group name gc of Inl e \<Rightarrow> Inl e | Inr g \<Rightarrow> Inr (btm_insert name g groups)) acc cfg = Inr r"
    and "distinct (map fst cfg)"
  shows "map_of r n = (case map_of cfg n of Some gc \<Rightarrow> (case build_group n gc of Inr g \<Rightarrow> Some g | Inl _ \<Rightarrow> None) | None \<Rightarrow> map_of acc n)
    \<and> (\<forall>gc. map_of cfg n = Some gc \<longrightarrow> (\<exists>g. build_group n gc = Inr g))"
  using assms
proof (induction cfg arbitrary: acc)
  case (Cons x cfg)
  obtain name gc where x: "x = (name, gc)" by fastforce
  show ?case
  proof (cases "build_group name gc")
    case (Inr g)
    with Cons x have "map_of r n = (case map_of cfg n of Some gc \<Rightarrow> (case build_group n gc of Inr g \<Rightarrow> Some g | Inl _ \<Rightarrow> None)
        | None \<Rightarrow> map_of (btm_insert name g acc) n)
      \<and> (\<forall>gc. map_of cfg n = Some gc \<longrightarrow> (\<exists>g. build_group n gc = Inr g))" by simp
    moreover have "map_of cfg name = None" using Cons.prems(2) x by (simp add: map_of_eq_None_iff)
    ultimately show ?thesis using x Inr by (auto simp: map_of_btm_insert split: option.splits)
  next
    case (Inl e)
    with Cons x show ?thesis by simp
  qed
qed simp

lemma check_parents_None: "check_parents cfg g ps = None \<Longrightarrow> \<forall>p\<in>set ps. map_of cfg p \<noteq> None \<and> valid_segment p"
  by (induction ps) (auto simp: validate_group_name_def segment_parse_iff split: option.splits if_splits sum.splits)

lemma check_parents_no_cycle: "check_parents cfg g ps \<noteq> Some (InheritedGroupCycle c)"
  by (induction ps) (auto simp: validate_group_name_def split: option.splits sum.splits)

lemma check_default_None: "check_default_groups config ds = None \<Longrightarrow> \<forall>d\<in>set ds. map_of (cfg_groups config) d \<noteq> None"
  by (induction ds) (auto split: option.splits if_splits)

lemma check_default_no_cycle: "check_default_groups config ds \<noteq> Some (InheritedGroupCycle c)"
  by (induction ds) (auto simp: validate_group_name_def split: option.splits sum.splits)

lemma try_fold_check:
  "try_fold (\<lambda>_ (g, gc). case f g gc of Some e \<Rightarrow> Inl e | None \<Rightarrow> Inr ()) () xs = Inr u \<Longrightarrow> (g, gc) \<in> set xs \<Longrightarrow> f g gc = None"
  "try_fold (\<lambda>_ (g, gc). case f g gc of Some e \<Rightarrow> Inl e | None \<Rightarrow> Inr ()) () xs = Inl e \<Longrightarrow> \<exists>(g, gc)\<in>set xs. f g gc = Some e"
  by (induction xs) (auto split: option.splits)

lemma validate_inheritance_Inr:
  assumes "validate_group_inheritance cfg = Inr u" and "distinct (map fst cfg)"
  shows "acyclic (inherits_rel cfg)" and "\<forall>(a, b)\<in>inherits_rel cfg. map_of cfg b \<noteq> None"
proof -
  have m: "\<forall>(g, gc)\<in>set cfg. map_of cfg g = Some gc" using assms(2) by simp
  obtain v where c: "try_fold (\<lambda>_ (g, gc). case check_parents cfg g (gc_inherits gc) of Some e \<Rightarrow> Inl e | None \<Rightarrow> Inr ()) () cfg = Inr ()"
    and v: "try_fold (\<lambda>visited (g, gc). validate_node cfg g gc visited []) [] cfg = Inr v"
    using assms(1) by (auto simp: validate_group_inheritance_def split: sum.splits)
  from validate_all_Inr [OF v m] have "fst ` set cfg \<subseteq> Wellfounded.acc ((inherits_rel cfg)\<inverse>)" by auto
  moreover have "g \<in> fst ` set cfg" if "map_of cfg g \<noteq> None" for g using that by (simp add: map_of_eq_None_iff)
  ultimately show "acyclic (inherits_rel cfg)" by (intro grounded_acyclic) blast
  have "map_of cfg b \<noteq> None" if e: "map_of cfg a = Some gc" "b \<in> set (gc_inherits gc)" for a b gc
    using check_parents_None [OF try_fold_check(1) [OF c map_of_SomeD [OF e(1)]]] e(2) by blast
  then show "\<forall>(a, b)\<in>inherits_rel cfg. map_of cfg b \<noteq> None" by (auto simp: inherits_rel_def)
qed

lemma validate_inheritance_cycle:
  assumes "validate_group_inheritance cfg = Inl (InheritedGroupCycle c)" and "distinct (map fst cfg)"
  shows "successively (\<lambda>a b. (a, b) \<in> inherits_rel cfg) c \<and> 2 \<le> length c \<and> hd c = last c"
proof -
  have m: "\<forall>(g, gc)\<in>set cfg. map_of cfg g = Some gc" using assms(2) by simp
  have "try_fold (\<lambda>_ (g, gc). case check_parents cfg g (gc_inherits gc) of Some e \<Rightarrow> Inl e | None \<Rightarrow> Inr ()) () cfg \<noteq> Inl (InheritedGroupCycle c)"
    using try_fold_check(2) [of "\<lambda>g gc. check_parents cfg g (gc_inherits gc)"] check_parents_no_cycle by fastforce
  with assms(1) have "try_fold (\<lambda>visited (g, gc). validate_node cfg g gc visited []) [] cfg = Inl (InheritedGroupCycle c)"
    by (auto simp: validate_group_inheritance_def split: sum.splits)
  from validate_all_cycle [OF this m] show ?thesis .
qed

lemma try_fold_never:
  "(\<And>s x. f s x \<noteq> Inl e) \<Longrightarrow> try_fold f s xs \<noteq> Inl e"
  by (induction xs arbitrary: s) (auto split: sum.split)

lemma build_no_cycle:
  "try_fold (\<lambda>groups (name, gc). case build_group name gc of Inl e \<Rightarrow> Inl e | Inr g \<Rightarrow> Inr (btm_insert name g groups)) acc xs
    \<noteq> Inl (InheritedGroupCycle c)"
proof (rule try_fold_never)
  have r: "parse_group_rule name rule \<noteq> Inl (InheritedGroupCycle c)" for name rule
    by (cases "rule_expression_parse rule") (simp_all add: parse_group_rule_def)
  have a: "try_fold (\<lambda>s rule. case parse_group_rule name rule of Inl e \<Rightarrow> Inl e | Inr e \<Rightarrow> Inr (h s e)) s xs \<noteq> Inl (InheritedGroupCycle c)"
    for name xs and s :: permission_set and h
    by (rule try_fold_never) (use r [of name] in \<open>auto split: sum.splits\<close>)
  have "parse_group_permissions name allow deny \<noteq> Inl (InheritedGroupCycle c)" for name allow deny
    using a [where name = name and h = "\<lambda>s e. set_allow s (expr_key e) (expr_context e)" and s = ruleset_new and xs = allow]
      a [where name = name and h = "\<lambda>s e. set_deny s (expr_key e) (expr_context e)" and xs = deny]
    unfolding parse_group_permissions_def by (auto split: sum.split)
  moreover have "parse_group_metadata name rules \<noteq> Inl (InheritedGroupCycle c)" for name rules
    unfolding parse_group_metadata_def by (rule try_fold_never) (simp split: sum.split)
  ultimately show "(case x of (name, gc) \<Rightarrow> case build_group name gc of Inl e \<Rightarrow> Inl e | Inr g \<Rightarrow> Inr (btm_insert name g s))
      \<noteq> Inl (InheritedGroupCycle c)" for s :: "(rust_string \<times> permission_group) list" and x
    by (cases x) (auto simp: build_group_def validate_group_name_def split: option.splits sum.splits)
qed

lemma accepted_cases:
  assumes d: "distinct (map fst (cfg_groups config))" and Inr: "from_config config = Inr groups"
  shows "acyclic (inherits_rel (cfg_groups config))
      \<and> (\<forall>(a, b)\<in>inherits_rel (cfg_groups config). contains_group groups b)
      \<and> list_all (contains_group groups) (OP_GROUP # pgs_default_groups groups)
      \<and> (\<forall>n. map_of (pgs_groups groups) n =
          (case map_of (cfg_groups config) n of Some gc \<Rightarrow> (case build_group n gc of Inr g \<Rightarrow> Some g | Inl _ \<Rightarrow> None) | None \<Rightarrow> None))
      \<and> (\<forall>n gc. map_of (cfg_groups config) n = Some gc \<longrightarrow> (\<exists>g. build_group n gc = Inr g))"
proof -
  let ?cfg = "cfg_groups config"
  from Inr obtain r where r: "check_default_groups config (cfg_default_groups config) = None" "map_of ?cfg OP_GROUP \<noteq> None"
    "validate_group_inheritance ?cfg = Inr ()"
    "try_fold (\<lambda>groups (name, gc). case build_group name gc of Inl e \<Rightarrow> Inl e | Inr g \<Rightarrow> Inr (btm_insert name g groups)) [] ?cfg = Inr r"
    "groups = \<lparr>pgs_default_groups = cfg_default_groups config, pgs_groups = r\<rparr>"
    by (auto simp: from_config_def split: option.splits if_splits sum.splits)
  have b: "map_of r n = (case map_of ?cfg n of Some gc \<Rightarrow> (case build_group n gc of Inr g \<Rightarrow> Some g | Inl _ \<Rightarrow> None) | None \<Rightarrow> None)"
    "\<forall>gc. map_of ?cfg n = Some gc \<longrightarrow> (\<exists>g. build_group n gc = Inr g)" for n
    using build_all [OF r(4) d, of n] unfolding map_of.simps by blast+
  have k: "contains_group groups n \<longleftrightarrow> map_of ?cfg n \<noteq> None" for n
    using b [of n] r(5) by (auto simp: contains_group_def split: option.splits)
  have "list_all (contains_group groups) (OP_GROUP # pgs_default_groups groups)"
    using r(2,5) check_default_None [OF r(1)] unfolding list_all_iff k by simp
  with validate_inheritance_Inr [OF r(3) d] b r(5) show ?thesis
    unfolding k by simp
qed

text \<open>
  C25. A configuration is accepted only when it can be resolved: every default group, the operator
  group and every inherited group is configured, no group inherits itself directly or through
  others, and the accepted groups are the configured ones, each with its parsed rules. When a
  cycle is reported it is one: each group on it inherits the next and the last is the first.
\<close>
theorem accepted_groups_resolve:
  assumes "distinct (map fst (cfg_groups config))"
  shows "case from_config config of
      Inr groups \<Rightarrow> acyclic (inherits_rel (cfg_groups config))
        \<and> (\<forall>(a, b)\<in>inherits_rel (cfg_groups config). contains_group groups b)
        \<and> list_all (contains_group groups) (OP_GROUP # pgs_default_groups groups)
        \<and> (\<forall>n. map_of (pgs_groups groups) n =
            (case map_of (cfg_groups config) n of
               Some gc \<Rightarrow> (case build_group n gc of Inr g \<Rightarrow> Some g | Inl _ \<Rightarrow> None)
             | None \<Rightarrow> None))
    | Inl e \<Rightarrow> (\<forall>c. e = InheritedGroupCycle c \<longrightarrow>
        successively (\<lambda>a b. (a, b) \<in> inherits_rel (cfg_groups config)) c \<and> 2 \<le> length c \<and> hd c = last c)"
proof (cases "from_config config")
  case (Inl e)
  have "successively (\<lambda>a b. (a, b) \<in> inherits_rel (cfg_groups config)) c \<and> 2 \<le> length c \<and> hd c = last c"
    if "e = InheritedGroupCycle c" for c
  proof -
    have nb: "try_fold (\<lambda>groups (name, gc). case build_group name gc of Inl e \<Rightarrow> Inl e | Inr g \<Rightarrow> Inr (btm_insert name g groups)) acc xs
        \<noteq> Inl (InheritedGroupCycle c)" for acc xs
      using build_no_cycle by blast
    show ?thesis using Inl that validate_inheritance_cycle [OF _ assms, of c] check_default_no_cycle nb
      by (auto simp: from_config_def split: option.splits if_splits sum.splits)
  qed
  with Inl show ?thesis by simp
next
  case (Inr groups)
  with accepted_cases [OF assms Inr] show ?thesis by simp
qed

lemma default_config_keys: "map fst (cfg_groups groups_config_default) = [chars ''default'', OP_GROUP]"
  by (simp add: groups_config_default_def OP_GROUP_def chars_def cmp_of_def)

theorem accepted_groups_resolve_witness:
  "case from_config groups_config_default of
      Inr groups \<Rightarrow> acyclic (inherits_rel (cfg_groups groups_config_default))
        \<and> list_all (contains_group groups) (OP_GROUP # pgs_default_groups groups)
    | Inl e \<Rightarrow> False"
proof -
  have d: "distinct (map fst (cfg_groups groups_config_default))" unfolding default_config_keys by (simp add: OP_GROUP_def chars_def)
  have "\<exists>groups. from_config groups_config_default = Inr groups"
    by (simp add: from_config_def groups_config_default_def OP_GROUP_def chars_def cmp_of_def validate_group_name_def segment_parse_def
        validate_permission_segment_def is_ascii_lowercase_def group_config_default_def validate_group_inheritance_def build_group_def
        parse_group_permissions_def parse_group_rule_def parse_group_metadata_def rule_expression_parse_def key_parse_def)
  then obtain groups where g: "from_config groups_config_default = Inr groups" by blast
  from accepted_groups_resolve [OF d] show ?thesis unfolding g by simp
qed

section \<open>What a subject gets\<close>

definition group_edges :: "(rust_string \<times> permission_group) list \<Rightarrow> (rust_string \<times> rust_string) set" where
  "group_edges gs = {(a, b). \<exists>g. map_of gs a = Some g \<and> b \<in> set (pg_inherits g)}"

definition listed :: "'e rule_set \<Rightarrow> ('e \<times> resolution_source) list" where
  "listed s = zip (rs_entries s) (rs_sources s)"

definition block :: "(permission_group \<Rightarrow> 'e list) \<Rightarrow> (rust_string \<times> permission_group) list \<Rightarrow> rust_string \<Rightarrow> ('e \<times> resolution_source) list" where
  "block sel gs n = (case map_of gs n of Some g \<Rightarrow> map (\<lambda>e. (e, GroupSource n (pg_priority g))) (sel g) | None \<Rightarrow> [])"

lemma push_foldl:
  "set_ok s \<Longrightarrow> set_ok (foldl (\<lambda>s e. push_with_source s e src) s es) \<and> listed (foldl (\<lambda>s e. push_with_source s e src) s es) = listed s @ map (\<lambda>e. (e, src)) es"
proof (induction es arbitrary: s)
  case (Cons e es)
  have "set_ok (push_with_source s e src)" "listed (push_with_source s e src) = listed s @ [(e, src)]"
    using Cons.prems by (auto simp: listed_def push_with_source_def set_ok_def)
  with Cons.IH [of "push_with_source s e src"] show ?case by simp
qed simp

text \<open>
  What one walk adds: the entries of the configured groups that were not yet appended, each once,
  with every group that is reachable from the start, and in an acyclic configuration the
  inherited groups before the groups that inherit them.
\<close>

definition walk :: "(permission_group \<Rightarrow> 'e list) \<Rightarrow> (rust_string \<times> permission_group) list \<Rightarrow> rust_string set
    \<Rightarrow> 'e rule_set \<times> rust_string list \<Rightarrow> 'e rule_set \<times> rust_string list \<Rightarrow> rust_string list \<Rightarrow> bool" where
  "walk sel gs frm st st' names \<longleftrightarrow>
     set_ok (fst st') \<and> listed (fst st') = listed (fst st) @ concat (map (block sel gs) names)
     \<and> set (snd st) \<subseteq> set (snd st') \<and> frm \<subseteq> set (snd st')
     \<and> distinct names \<and> set names = (set (snd st') - set (snd st)) \<inter> dom (map_of gs)
     \<and> set (snd st') - set (snd st) \<subseteq> (group_edges gs)\<^sup>* `` frm
     \<and> (\<forall>n\<in>set names. group_edges gs `` {n} \<subseteq> set (snd st'))
     \<and> (acyclic (group_edges gs) \<longrightarrow>
          (\<forall>i<length names. \<forall>p. (names ! i, p) \<in> group_edges gs \<longrightarrow> p \<in> set (snd st) \<union> set (take i names) \<union> - dom (map_of gs)))"

lemma walkD:
  assumes "walk sel gs frm st st' names"
  shows "set_ok (fst st')"
    and "listed (fst st') = listed (fst st) @ concat (map (block sel gs) names)"
    and "set (snd st) \<subseteq> set (snd st')"
    and "frm \<subseteq> set (snd st')"
    and "distinct names"
    and "set names = (set (snd st') - set (snd st)) \<inter> dom (map_of gs)"
    and "set (snd st') - set (snd st) \<subseteq> (group_edges gs)\<^sup>* `` frm"
    and "n \<in> set names \<Longrightarrow> group_edges gs `` {n} \<subseteq> set (snd st')"
    and "acyclic (group_edges gs) \<Longrightarrow> i < length names \<Longrightarrow> (names ! i, p) \<in> group_edges gs \<Longrightarrow> p \<in> set (snd st) \<union> set (take i names) \<union> - dom (map_of gs)"
proof -
  note w = assms [unfolded walk_def]
  show "set_ok (fst st')" by (rule w [THEN conjunct1])
  show "listed (fst st') = listed (fst st) @ concat (map (block sel gs) names)" by (rule w [THEN conjunct2, THEN conjunct1])
  show "set (snd st) \<subseteq> set (snd st')" by (rule w [THEN conjunct2, THEN conjunct2, THEN conjunct1])
  show "frm \<subseteq> set (snd st')" by (rule w [THEN conjunct2, THEN conjunct2, THEN conjunct2, THEN conjunct1])
  show "distinct names" by (rule w [THEN conjunct2, THEN conjunct2, THEN conjunct2, THEN conjunct2, THEN conjunct1])
  show "set names = (set (snd st') - set (snd st)) \<inter> dom (map_of gs)" by (rule w [THEN conjunct2, THEN conjunct2, THEN conjunct2, THEN conjunct2, THEN conjunct2, THEN conjunct1])
  show "set (snd st') - set (snd st) \<subseteq> (group_edges gs)\<^sup>* `` frm" by (rule w [THEN conjunct2, THEN conjunct2, THEN conjunct2, THEN conjunct2, THEN conjunct2, THEN conjunct2, THEN conjunct1])
  show "n \<in> set names \<Longrightarrow> group_edges gs `` {n} \<subseteq> set (snd st')" by (rule bspec [OF w [THEN conjunct2, THEN conjunct2, THEN conjunct2, THEN conjunct2, THEN conjunct2, THEN conjunct2, THEN conjunct2, THEN conjunct1]])
  show "acyclic (group_edges gs) \<Longrightarrow> i < length names \<Longrightarrow> (names ! i, p) \<in> group_edges gs \<Longrightarrow> p \<in> set (snd st) \<union> set (take i names) \<union> - dom (map_of gs)"
    using w [THEN conjunct2, THEN conjunct2, THEN conjunct2, THEN conjunct2, THEN conjunct2, THEN conjunct2, THEN conjunct2, THEN conjunct2] by blast
qed

lemma walkI:
  assumes "set_ok (fst st')"
    and "listed (fst st') = listed (fst st) @ concat (map (block sel gs) names)"
    and "set (snd st) \<subseteq> set (snd st')"
    and "frm \<subseteq> set (snd st')"
    and "distinct names"
    and "set names = (set (snd st') - set (snd st)) \<inter> dom (map_of gs)"
    and "set (snd st') - set (snd st) \<subseteq> (group_edges gs)\<^sup>* `` frm"
    and "\<And>n. n \<in> set names \<Longrightarrow> group_edges gs `` {n} \<subseteq> set (snd st')"
    and "\<And>i p. acyclic (group_edges gs) \<Longrightarrow> i < length names \<Longrightarrow> (names ! i, p) \<in> group_edges gs \<Longrightarrow> p \<in> set (snd st) \<union> set (take i names) \<union> - dom (map_of gs)"
  shows "walk sel gs frm st st' names"
  unfolding walk_def by (intro conjI ballI impI allI assms)

lemma walk_refl: "set_ok (fst st) \<Longrightarrow> from \<subseteq> set (snd st) \<Longrightarrow> walk sel gs from st st []"
  by (simp add: walk_def)

lemma walk_ok: "walk sel gs from st st' names \<Longrightarrow> set_ok (fst st')"
  by (simp add: walk_def)

lemma walk_trans:
  assumes a: "walk sel gs f1 st st1 n1" and b: "walk sel gs f2 st1 st2 n2"
  shows "walk sel gs (f1 \<union> f2) st st2 (n1 @ n2)"
proof -
  note wa = walkD [OF a] and wb = walkD [OF b]
  note s1 = wa(6) and s2 = wb(6) and g1 = wa(3) and g2 = wb(3)
  show ?thesis
  proof (rule walkI)
    show "set_ok (fst st2)" by (rule wb(1))
    show "listed (fst st2) = listed (fst st) @ concat (map (block sel gs) (n1 @ n2))" using wa(2) wb(2) by simp
    show "set (snd st) \<subseteq> set (snd st2)" using g1 g2 by blast
    show "f1 \<union> f2 \<subseteq> set (snd st2)" using wa(4) wb(4) g2 by blast
    show "distinct (n1 @ n2)" using wa(5) wb(5) s1 s2 by auto
    show "set (n1 @ n2) = (set (snd st2) - set (snd st)) \<inter> dom (map_of gs)" unfolding set_append s1 s2 using g1 g2 by blast
    show "set (snd st2) - set (snd st) \<subseteq> (group_edges gs)\<^sup>* `` (f1 \<union> f2)" using wa(7) wb(7) by blast
    show "group_edges gs `` {n} \<subseteq> set (snd st2)" if "n \<in> set (n1 @ n2)" for n
      using that wa(8) [of n] wb(8) [of n] g2 unfolding set_append by blast
    fix i p
    assume ac: "acyclic (group_edges gs)" and i: "i < length (n1 @ n2)" and e: "((n1 @ n2) ! i, p) \<in> group_edges gs"
    show "p \<in> set (snd st) \<union> set (take i (n1 @ n2)) \<union> - dom (map_of gs)"
    proof (cases "i < length n1")
      case True
      with wa(9) [OF ac True] e show ?thesis by (simp add: nth_append)
    next
      case False
      let ?j = "i - length n1"
      have "p \<in> set (snd st1) \<union> set (take ?j n2) \<union> - dom (map_of gs)"
        by (rule wb(9) [OF ac]) (use e i False in \<open>auto simp: nth_append\<close>)
      moreover have "set (take i (n1 @ n2)) = set n1 \<union> set (take ?j n2)" using False by simp
      ultimately show ?thesis using s1 by blast
    qed
  qed
qed

lemma walk_node:
  assumes g: "map_of gs gname = Some g" and new: "gname \<notin> set app"
    and w: "walk sel gs (set (pg_inherits g)) (eff, gname # app) st' names"
  shows "walk sel gs {gname} (eff, app) (foldl (\<lambda>s e. push_group s e gname (pg_priority g)) (fst st') (sel g), snd st') (names @ [gname])"
proof -
  let ?E = "group_edges gs" and ?D = "dom (map_of gs)"
  note ww = walkD [OF w, unfolded fst_conv snd_conv]
  have edges: "?E `` {gname} = set (pg_inherits g)" using g by (auto simp: group_edges_def)
  note grow = ww(3) and names = ww(6,5) and frm = ww(4) and reach = ww(7) and closed = ww(8)
  have gD: "gname \<in> ?D" using g by blast
  have plus: "(gname, x) \<in> ?E\<^sup>+" if "x \<in> ?E\<^sup>* `` set (pg_inherits g)" for x
    using that unfolding edges [symmetric] by (auto intro: rtrancl_into_trancl2)
  have fold: "foldl (\<lambda>s e. push_group s e gname (pg_priority g)) (fst st') (sel g) =
      foldl (\<lambda>s e. push_with_source s e (GroupSource gname (pg_priority g))) (fst st') (sel g)" by (simp add: push_group_def)
  note pf = push_foldl [OF ww(1), of "GroupSource gname (pg_priority g)" "sel g"]
  have bl: "block sel gs gname = map (\<lambda>e. (e, GroupSource gname (pg_priority g))) (sel g)" using g by (simp add: block_def)
  show ?thesis unfolding fold
  proof (rule walkI; (unfold fst_conv snd_conv)?)
    show "set_ok (foldl (\<lambda>s e. push_with_source s e (GroupSource gname (pg_priority g))) (fst st') (sel g))" using pf by blast
    show "listed (foldl (\<lambda>s e. push_with_source s e (GroupSource gname (pg_priority g))) (fst st') (sel g))
        = listed eff @ concat (map (block sel gs) (names @ [gname]))" using pf ww(2) bl by simp
    show "set app \<subseteq> set (snd st')" "{gname} \<subseteq> set (snd st')" using grow by auto
    show "distinct (names @ [gname])" using names by auto
    show "set (names @ [gname]) = (set (snd st') - set app) \<inter> ?D" using names(1) new gD grow by auto
    show "set (snd st') - set app \<subseteq> ?E\<^sup>* `` {gname}"
    proof
      fix x assume "x \<in> set (snd st') - set app"
      then have "x = gname \<or> x \<in> ?E\<^sup>* `` set (pg_inherits g)" using reach by auto
      then show "x \<in> ?E\<^sup>* `` {gname}" using plus [of x] by (auto dest: trancl_into_rtrancl)
    qed
    show "?E `` {n} \<subseteq> set (snd st')" if "n \<in> set (names @ [gname])" for n using that closed [of n] frm edges by auto
    fix i p
    assume ac: "acyclic ?E" and i: "i < length (names @ [gname])" and e: "((names @ [gname]) ! i, p) \<in> ?E"
    show "p \<in> set app \<union> set (take i (names @ [gname])) \<union> - ?D"
    proof (cases "i < length names")
      case True
      then have n: "(names ! i, p) \<in> ?E" "names ! i \<in> set names" using e by (simp_all add: nth_append)
      have "p \<noteq> gname"
      proof
        assume "p = gname"
        have "(gname, names ! i) \<in> ?E\<^sup>+" using plus [of "names ! i"] reach n(2) names(1) by blast
        with n(1) \<open>p = gname\<close> have "(gname, gname) \<in> ?E\<^sup>+" by (meson trancl.trancl_into_trancl)
        with ac show False by (simp add: acyclic_def)
      qed
      with ww(9) [OF ac True n(1)] show ?thesis using True by simp
    next
      case False
      with i e have n: "i = length names" "(gname, p) \<in> ?E" by (auto simp: nth_append)
      then have "p \<noteq> gname" using ac by (auto simp: acyclic_def)
      moreover have "p \<in> set (snd st')" using n(2) edges frm by blast
      ultimately show ?thesis using n(1) names(1) by auto
    qed
  qed
qed

lemma append_walks:
  "set_ok (fst st) \<Longrightarrow> \<exists>names. walk sel gs {gname} st (append_group_with sel gs gname st) names"
  "set_ok (fst st) \<Longrightarrow> \<exists>names. walk sel gs (set ps) st (append_parents_with sel gs ps st) names"
proof (induction sel gs gname st and sel gs ps st rule: append_group_with_append_parents_with.induct)
  case (1 sel gs gname st)
  show ?case
  proof (cases "gname \<in> set (snd st)")
    case True
    with 1 walk_refl [of st "{gname}" sel gs] show ?thesis by (simp del: append_group_with.simps add: append_group_with.simps [of sel gs gname st]) blast
  next
    case new: False
    show ?thesis
    proof (cases "map_of gs gname")
      case None
      then have "walk sel gs {gname} st (fst st, gname # snd st) []" using "1.prems" new by (auto simp: walk_def)
      then show ?thesis using None new by (subst append_group_with.simps) auto
    next
      case (Some g)
      let ?st = "append_parents_with sel gs (pg_inherits g) (fst st, gname # snd st)"
      from "1.IH" [OF new Some] "1.prems" obtain names where "walk sel gs (set (pg_inherits g)) (fst st, gname # snd st) ?st names" by auto
      from walk_node [OF Some new this] have
        "walk sel gs {gname} st (foldl (\<lambda>s e. push_group s e gname (pg_priority g)) (fst ?st) (sel g), snd ?st) (names @ [gname])" by simp
      then show ?thesis using Some new by (subst append_group_with.simps) (auto simp: Let_def)
    qed
  qed
next
  case (2 sel gs st)
  then show ?case using walk_refl [of st "{}" sel gs] by auto
next
  case (3 sel gs p ps st)
  from "3.IH"(1) [OF "3.prems"] obtain n1 where n1: "walk sel gs {p} st (append_group_with sel gs p st) n1" by blast
  from "3.IH"(2) [OF walk_ok [OF n1]] obtain n2 where
    n2: "walk sel gs (set ps) (append_group_with sel gs p st) (append_parents_with sel gs ps (append_group_with sel gs p st)) n2" by blast
  from walk_trans [OF n1 n2] show ?case by (simp del: append_group_with.simps) blast
qed

lemma append_parents_foldl: "foldl (\<lambda>st g. append_group_with sel gs g st) st ps = append_parents_with sel gs ps st"
  by (induction ps arbitrary: st) (simp_all del: append_group_with.simps)

text \<open>The groups a subject has, each once and after the groups it inherits.\<close>

definition inherited_groups :: "permission_groups \<Rightarrow> rust_string list \<Rightarrow> rust_string list \<Rightarrow> bool" where
  "inherited_groups groups assigned names \<longleftrightarrow>
     distinct names
     \<and> (\<forall>n. n \<in> set names \<longleftrightarrow> contains_group groups n
            \<and> (\<exists>r\<in>set (pgs_default_groups groups @ assigned). (r, n) \<in> (group_edges (pgs_groups groups))\<^sup>*))
     \<and> (\<forall>i p. i < length names \<longrightarrow> (names ! i, p) \<in> group_edges (pgs_groups groups) \<longrightarrow> p \<in> set (take i names))"

lemma effective_walk:
  assumes "acyclic (group_edges (pgs_groups groups))"
    and "\<And>a b. (a, b) \<in> group_edges (pgs_groups groups) \<Longrightarrow> contains_group groups b"
  shows "\<exists>names. inherited_groups groups assigned names
    \<and> listed (foldl push_entry (fst (foldl (\<lambda>st g. append_group_with sel (pgs_groups groups) g st)
          (foldl (\<lambda>st g. append_group_with sel (pgs_groups groups) g st) (ruleset_new, []) (pgs_default_groups groups)) assigned)) es)
      = concat (map (block sel (pgs_groups groups)) names) @ map (\<lambda>e. (e, SubjectSource)) es"
proof -
  let ?gs = "pgs_groups groups" and ?roots = "pgs_default_groups groups @ assigned"
  let ?E = "group_edges ?gs"
  let ?st = "append_parents_with sel ?gs ?roots (ruleset_new, [])"
  have new: "set_ok (fst (ruleset_new, []))" by (simp add: set_ok_def ruleset_new_def)
  from append_walks(2) [OF new] obtain names where w: "walk sel ?gs (set ?roots) (ruleset_new, []) ?st names" by blast
  note ww = walkD [OF w]
  have names: "set names = set (snd ?st) \<inter> dom (map_of ?gs)" using ww(6) by simp
  have reach: "n \<in> set (snd ?st)" if "(r, n) \<in> ?E\<^sup>*" "r \<in> set ?roots" for r n
    using that(1)
  proof (induction rule: rtrancl_induct)
    case base
    then show ?case using ww(4) that(2) by blast
  next
    case (step y z)
    then have "y \<in> set names" unfolding names by (auto simp: group_edges_def)
    then show ?case using ww(8) step.hyps(2) by blast
  qed
  have "n \<in> set names \<longleftrightarrow> contains_group groups n \<and> (\<exists>r\<in>set ?roots. (r, n) \<in> ?E\<^sup>*)" for n
  proof
    assume "n \<in> set names"
    then have "n \<in> set (snd ?st)" "n \<in> dom (map_of ?gs)" using names by blast+
    then show "contains_group groups n \<and> (\<exists>r\<in>set ?roots. (r, n) \<in> ?E\<^sup>*)" using ww(7) by (auto simp: contains_group_def)
  next
    assume "contains_group groups n \<and> (\<exists>r\<in>set ?roots. (r, n) \<in> ?E\<^sup>*)"
    then show "n \<in> set names" using reach names by (auto simp: contains_group_def)
  qed
  moreover have "p \<in> set (take i names)" if "i < length names" "(names ! i, p) \<in> ?E" for i p
    using ww(9) [OF assms(1) that] assms(2) [OF that(2)] by (auto simp: contains_group_def)
  ultimately have "inherited_groups groups assigned names" using ww(5) unfolding inherited_groups_def by blast
  moreover have "foldl push_entry s es = foldl (\<lambda>s e. push_with_source s e SubjectSource) s es" for s :: "'a rule_set"
    by (rule foldl_cong) (simp_all add: push_entry_def)
  moreover have "listed (fst ?st) = concat (map (block sel ?gs) names)" using ww(2) by (simp add: listed_def ruleset_new_def)
  ultimately show ?thesis
    using push_foldl [OF ww(1), of SubjectSource es] unfolding append_parents_foldl [symmetric] foldl_append by auto
qed

lemma accepted_edges:
  assumes "distinct (map fst (cfg_groups config))" and "from_config config = Inr groups"
  shows "group_edges (pgs_groups groups) = inherits_rel (cfg_groups config)"
    and "acyclic (inherits_rel (cfg_groups config))"
    and "(a, b) \<in> inherits_rel (cfg_groups config) \<Longrightarrow> contains_group groups b"
proof -
  from accepted_cases [OF assms] have c: "acyclic (inherits_rel (cfg_groups config))"
    "\<forall>(a, b)\<in>inherits_rel (cfg_groups config). contains_group groups b"
    "\<And>n. map_of (pgs_groups groups) n =
       (case map_of (cfg_groups config) n of Some gc \<Rightarrow> (case build_group n gc of Inr g \<Rightarrow> Some g | Inl _ \<Rightarrow> None) | None \<Rightarrow> None)"
    "\<And>n gc. map_of (cfg_groups config) n = Some gc \<Longrightarrow> \<exists>g. build_group n gc = Inr g" by blast+
  from c(1) show "acyclic (inherits_rel (cfg_groups config))" .
  from c(2) show "(a, b) \<in> inherits_rel (cfg_groups config) \<Longrightarrow> contains_group groups b" by blast
  have b: "build_group n gc = Inr g \<Longrightarrow> pg_inherits g = gc_inherits gc" for n gc g
    by (auto simp: build_group_def split: option.splits sum.splits)
  have "(x, y) \<in> group_edges (pgs_groups groups) \<longleftrightarrow> (x, y) \<in> inherits_rel (cfg_groups config)" for x y
  proof (cases "map_of (cfg_groups config) x")
    case None
    then show ?thesis using c(3) [of x] by (simp add: group_edges_def inherits_rel_def)
  next
    case (Some gc)
    from c(4) [OF Some] obtain g where "build_group x gc = Inr g" by blast
    then show ?thesis using c(3) [of x] Some b by (simp add: group_edges_def inherits_rel_def)
  qed
  then show "group_edges (pgs_groups groups) = inherits_rel (cfg_groups config)" by auto
qed

text \<open>
  C23. The rules a subject has under an accepted configuration are those of its default and assigned
  groups and of every group these inherit, each group once however many ways lead to it and after
  the groups it inherits, followed by the subject's own rules; and the same for metadata. Groups
  that are assigned but not configured add nothing.
\<close>
theorem subject_gets_inherited_rules:
  assumes "distinct (map fst (cfg_groups config))" and "from_config config = Inr groups"
  shows "(\<exists>names. inherited_groups groups assigned names
      \<and> listed (effective_permissions groups assigned subject)
        = concat (map (block (\<lambda>g. rs_entries (pg_permissions g)) (pgs_groups groups)) names)
          @ map (\<lambda>e. (e, SubjectSource)) (rs_entries subject))
    \<and> (\<exists>names. inherited_groups groups assigned names
      \<and> listed (effective_metadata groups assigned metadata)
        = concat (map (block (\<lambda>g. rs_entries (pg_metadata g)) (pgs_groups groups)) names)
          @ map (\<lambda>e. (e, SubjectSource)) (rs_entries metadata))"
proof -
  note e = accepted_edges [OF assms]
  have ac: "acyclic (group_edges (pgs_groups groups))" and cl: "\<And>a b. (a, b) \<in> group_edges (pgs_groups groups) \<Longrightarrow> contains_group groups b"
    using e unfolding e(1) by blast+
  show ?thesis
    unfolding effective_permissions_def effective_metadata_def append_group_def append_group_metadata_def Let_def
    by (intro conjI effective_walk [OF ac]) (erule cl)+
qed

definition default_groups_parsed :: permission_groups where
  "default_groups_parsed =
     \<lparr>pgs_default_groups = [chars ''default''],
      pgs_groups =
        [(chars ''default'', \<lparr>pg_priority = 0, pg_inherits = [], pg_permissions = ruleset_new, pg_metadata = ruleset_new\<rparr>),
         (OP_GROUP, \<lparr>pg_priority = 0, pg_inherits = [],
            pg_permissions = \<lparr>rs_entries = [\<lparr>pe_key = [star], pe_context = RcGlobal, pe_state = Allow\<rparr>], rs_sources = [SubjectSource]\<rparr>,
            pg_metadata = ruleset_new\<rparr>)]\<rparr>"

lemma default_config_accepted: "from_config groups_config_default = Inr default_groups_parsed"
  by (simp add: default_groups_parsed_def from_config_def groups_config_default_def OP_GROUP_def chars_def cmp_of_def validate_group_name_def
      segment_parse_def validate_permission_segment_def is_ascii_lowercase_def group_config_default_def validate_group_inheritance_def
      build_group_def parse_group_permissions_def parse_group_rule_def parse_group_metadata_def rule_expression_parse_def key_parse_def
      set_allow_def push_entry_def push_with_source_def ruleset_new_def)

theorem subject_gets_inherited_rules_witness:
  "\<exists>names. inherited_groups default_groups_parsed [OP_GROUP] names
    \<and> listed (effective_permissions default_groups_parsed [OP_GROUP] ruleset_new)
      = concat (map (block (\<lambda>g. rs_entries (pg_permissions g)) (pgs_groups default_groups_parsed)) names)"
proof -
  have d: "distinct (map fst (cfg_groups groups_config_default))" unfolding default_config_keys by (simp add: OP_GROUP_def chars_def)
  have "rs_entries (ruleset_new :: permission_set) = []" by (simp add: ruleset_new_def)
  with subject_gets_inherited_rules [OF d default_config_accepted, of "[OP_GROUP]" ruleset_new ruleset_new] show ?thesis by simp
qed

section \<open>The group manager\<close>





















section \<open>Subjects\<close>

text \<open>Persisted subjects (\<open>subject.rs\<close>), indexed by UUID.\<close>

record subject_state =
  sub_groups :: "rust_string list"
  sub_overrides :: permission_set
  sub_metadata_overrides :: metadata_set

definition subject_is_empty :: "subject_state \<Rightarrow> bool" where
  "subject_is_empty s \<longleftrightarrow> sub_groups s = [] \<and> rs_entries (sub_overrides s) = [] \<and> rs_entries (sub_metadata_overrides s) = []"

type_synonym subject_index = "128 word \<rightharpoonup> subject_state"

definition subject_get :: "subject_index \<Rightarrow> 128 word \<Rightarrow> subject_state option" where
  "subject_get index uuid = index uuid"

definition subject_set :: "subject_index \<Rightarrow> 128 word \<Rightarrow> subject_state \<Rightarrow> subject_index" where
  "subject_set index uuid state = index(uuid \<mapsto> state)"

definition subject_remove :: "subject_index \<Rightarrow> 128 word \<Rightarrow> subject_state option \<times> subject_index" where
  "subject_remove index uuid = (index uuid, index(uuid := None))"

text \<open>An empty subject has exactly the rules of the default groups.\<close>

lemma empty_subject_defaults:
  assumes "subject_is_empty s"
  shows "effective_permissions groups (sub_groups s) (sub_overrides s) = effective_permissions groups [] ruleset_new"
  using assms by (simp add: subject_is_empty_def effective_permissions_def ruleset_new_def Let_def)

end
