(* ===== verification/Spec2Isabelle.thy ===== *)
theory Spec2Isabelle
  imports Tick_World Ticket_Levels Identifiers Stream_Cipher Neighbor_Updates Chat_Signing Heightmaps Menu_Session Permission_Groups
begin

text \<open>
  A verification development of the SteelMC server, a Minecraft server in Rust. The sources are the
  crates \<open>steel-core\<close> (worlds, chunks, players), \<open>steel-protocol\<close> and \<open>steel-utils\<close> (packets, wire
  formats, positions), \<open>steel-registry\<close> (items and blocks), \<open>steel-crypto\<close> and \<open>steel-login\<close>.

  \<^bold>\<open>The parts and how they interact.\<close> A world keeps its chunks alive with \<^emph>\<open>tickets\<close>, whose levels decide
  which status a chunk must reach; the \<^emph>\<open>dependency pyramid\<close> says which neighbours that takes. A full
  chunk stores its blocks in \<^emph>\<open>sections\<close> of \<^emph>\<open>paletted containers\<close> and keeps \<^emph>\<open>heightmaps\<close> beside them.
  Block changes start chains of \<^emph>\<open>neighbour updates\<close> and schedule \<^emph>\<open>ticks\<close>: every chunk owns tick lists,
  a world index over their heads finds what is due. Players talk to the server over an encrypted
  connection that carries \<^emph>\<open>frames\<close> of serialised values; on it come \<^emph>\<open>chat\<close>, signed and tracked per
  player, and the \<^emph>\<open>clicks\<close> that move items between the containers of a menu. What a player may do is
  decided by \<^emph>\<open>permission\<close> rules, which come from groups that inherit each other and from the player.

  \<^bold>\<open>The theories.\<close> Each opens with the files it models; its definitions come first, in the order and
  with the names of the code.
  \<^item> \<open>Steel_Prelude\<close>: wrap-around integers and orderings; \<open>Std_Collections\<close>: heaps, ordered sets and
    \<open>swap_remove\<close> of the standard library, with the locale \<open>rust_ord\<close> of what they need of an order.
  \<^item> \<open>Positions\<close>: block, chunk and section positions, packing, directions (\<open>steel-utils/src/types\<close>).
  \<^item> \<open>Tick_List\<close>, \<open>Tick_Container\<close>, \<open>Tick_Scheduler\<close>, \<open>Tick_Index\<close>, \<open>Tick_Collect\<close>, \<open>Tick_World\<close>:
    scheduled ticks (\<open>steel-core/src/world/tick_scheduler\<close>). The invariant of a list and of the world
    index; draining a list; that collecting the ticks of a game tick is a greedy merge of the active
    queues and loses none; that no assertion of the index fails in any history of operations.
  \<^item> \<open>Chunk_Pyramid\<close>, \<open>Chunk_Tickets\<close>, \<open>Ticket_Levels\<close>: statuses, pyramids, tickets and their levels
    (\<open>chunk/status.rs\<close>, \<open>chunk_pyramid.rs\<close>, \<open>chunk_ticket_manager.rs\<close>). The tables of every pyramid are
    exact, and those of the two pyramids closed; an update run computes for every chunk the least level
    any source offers.
  \<^item> \<open>Paletted_Container\<close>, \<open>Chunk_Section\<close>, \<open>Heightmaps\<close>: storage of a chunk (\<open>chunk/paletted_container.rs\<close>,
    \<open>section.rs\<close>, \<open>heightmap.rs\<close>, \<open>data.rs\<close>). A container is a list of values whatever its
    representation (locale \<open>cell_store\<close>), and the fields of its packed bytes are its cells, with the
    bounds on identifiers that the direct form needs; counters and heightmaps stay exact under single and
    batched writes (locale \<open>batch_writer\<close>), and the index of ticking sections up to the last count.
  \<^item> \<open>Neighbor_Updates\<close>: the collecting updater (\<open>world/block_updates\<close>) implements a depth-first agenda and
    ends.
  \<^item> \<open>Item_Stacks\<close>, \<open>Menu_Clicks\<close>, \<open>Menu_Session\<close>: stacks, containers, slots, every click of a menu, the
    click packet handler, the record of what the client shows, and closing
    (\<open>steel-registry/src/item_stack.rs\<close>, \<open>steel-core/src/inventory\<close>). Items are neither created nor lost
    by the clicks of a survival player, apart from item entities the world refuses and a swap key over its
    own, over-full place, which duplicates; after a packet the record matches the menu, and a broadcast
    sends exactly the differences. What the client does with a packet is not modelled.
  \<^item> \<open>Permission_Keys\<close>, \<open>Permission_Contexts\<close>, \<open>Permission_Rules\<close>, \<open>Permission_Sets\<close>, \<open>Permission_Groups\<close>:
    permissions (\<open>steel-core/src/permission\<close>). Keys compare by segments; a conjunction of contexts is
    canonical (locale \<open>strict_cmp\<close>) and means that all its parts hold; expressions print to what they were
    parsed from; the strongest rule decides (locale \<open>best_choice\<close>, for rules and for metadata); accepted
    groups have no cycle, and a subject gets the rules of exactly the groups it reaches; the manager
    never leaves a valid configuration and changes it only after the store has saved it.
  \<^item> \<open>Var_Int\<close>, \<open>Front_Vec\<close>, \<open>Utf8\<close>, \<open>Serial\<close>, \<open>Identifiers\<close>, \<open>Packet_Framing\<close>, \<open>Stream_Cipher\<close>: the wire
    (\<open>steel-utils/src\<close>, \<open>steel-protocol/src\<close>). Readers return what writers wrote (locales \<open>codec\<close> and
    \<open>length_prefix\<close>), refuse what is out of bounds, and never index past their input (an index out of range is \<open>None\<close>); the cipher stream is
    exact however often the socket is not ready. The theorem of this file composes them.
  \<^item> \<open>Profile_Keys\<close>, \<open>Chat_Tracking\<close>, \<open>Chat_Signing\<close>: chat (\<open>steel-core/src/player/chat\<close>). What is accepted was
    signed by the key in force, which has not been expired for eight hours, and in order; the acknowledgement
    window accepts exactly the updates that fit it.

  \<^bold>\<open>How the code is read.\<close> State is passed explicitly, as records with the fields of the structs. Machine
  integers are words, or integers with the wrap-around of the release profile written out. A panic is
  \<open>None\<close> or a flag that stops the run; errors are values of a sum. Shared objects behind an \<open>Arc\<close> are
  entries of a store addressed by identity. Hash maps are maps, or association lists where iteration order
  shows. Locks make each locked region one step: operations interleave, regions do not. Strings are lists of
  code points; readers take the bytes left and return the rest. Compression, the block cipher, the
  signature scheme, RSA and DER, the registry's answers about blocks and items, the reactions of blocks and
  the hooks of menus and the store of the permission groups are parameters, with what is relied on of them as named hypotheses; each theorem that has
  hypotheses is applied to concrete values by its witness.

  \<^bold>\<open>Bounds and fuel.\<close> Three loops of the code have no bound of their own. A run of neighbour updates gets
  \<open>6 * limit + 1\<close> rounds, enough because an accepted update makes at most six steps and \<open>limit\<close> of them are
  accepted, as long as the run requests fewer than \<open>2 ^ 31 - 1\<close> updates and its counter does not wrap. Shift-clicking repeats as long as something moves: each round takes at least one item from the
  source, so one round more than there are items is enough; throwing needs two. Elsewhere recursion is
  structural or ends by a measure; the two searches over permission groups by the groups not yet on their
  path or not yet appended. The item theorems assume fewer than \<open>2 ^ 23\<close> items in a menu, for which no
  \<open>i32\<close> sum wraps and the \<open>f32\<close> quotient of a drag is exact.

  \<^bold>\<open>Not modelled.\<close> World generation, entities and their AI, physics and the light engine compute with
  floating point, noise and generated tables; commands, block behaviours and the registries are broad
  catalogues of data-driven cases; login, region files, sockets and timers are input and output around
  third-party code. The manifest lists them part by part.
\<close>

text \<open>
  C37. A packet survives the whole connection: encoded as a frame, pushed through the
  encrypting writer by a caller that retries as often as the socket is not ready, taken off the
  socket and decrypted, it is read as the packet it was, and nothing is left over. Both sides have the same compression
  setting, off or with a positive threshold; the zlib decoder inverts the encoder; and
  with compression on, where the writer does not check it, the length that the frame announces is within the packet size limit of
  the reader.
\<close>
theorem encrypted_packet_is_read_back:
  assumes "from_bare zenc get_id body compression protocol = Some (Inr fv)"
    and "\<And>c data z. compression = Some c \<Longrightarrow> zenc (level c) data = Some z \<Longrightarrow> zdec z = (data, True)"
    and "\<And>c. compression = Some c \<Longrightarrow> 0 < threshold c"
    and "\<And>b. compression \<noteq> None \<Longrightarrow> fv_as_slice fv = frame b \<Longrightarrow> length b \<le> MAX_PACKET_SIZE"
    and "sending enc (stream_encryptor_new k []) (fv_as_slice fv) s []"
    and "inverse_ciphers enc dec"
  shows "\<exists>i bytes p. get_id protocol = Some i \<and> body = Inr bytes
    \<and> get_raw_packet zdec (map_option threshold compression) (readable_bytes dec (Decrypt k (sink s))) = Inr (p, [])
    \<and> rp_id p = i \<and> payload p = Some bytes"
proof -
  from sending_in_step [OF assms(5)] have "sink s = fst (encrypt_all enc k (fv_as_slice fv))"
    by (auto simp: stream_encryptor_new_def in_step_def)
  then have plain: "readable_bytes dec (Decrypt k (sink s)) = fv_as_slice fv @ []"
    by (simp add: decrypt_encrypt_all [OF assms(6)])
  have fits: "length b \<le> MAX_PACKET_SIZE" if b: "fv_as_slice fv = frame b" for b
  proof (cases compression)
    case None
    with from_bare_frame [OF assms(1)] arg_cong [OF b, of length] show ?thesis by (auto simp: frame_def)
  next
    case (Some c)
    with assms(4) [OF _ b] show ?thesis by simp
  qed
  from from_bare_reads_back [OF assms(1-3) fits, where rest = "[]"] show ?thesis
    unfolding plain by simp
qed

text \<open>A compressed frame, sent in two calls: the socket is first not ready, then takes byte after byte.\<close>

theorem encrypted_packet_is_read_back_witness:
  "\<exists>fv s1 s p. from_bare (\<lambda>l bs. Some bs) (\<lambda>_. Some 7) (Inr [1, 2]) (Some \<lparr>threshold = 2, level = 4\<rparr>) Play = Some (Inr fv)
    \<and> sending feedback_enc (stream_encryptor_new 5 []) (fv_as_slice fv) s1 (fv_as_slice fv) \<and> last_unwritten_encrypted_byte s1 \<noteq> None
    \<and> sending feedback_enc (stream_encryptor_new 5 []) (fv_as_slice fv) s []
    \<and> get_raw_packet (\<lambda>z. (z, True)) (Some 2) (readable_bytes feedback_dec (Decrypt 5 (sink s))) = Inr (p, []) \<and> payload p = Some [1, 2]"
proof -
  obtain fv where fv: "from_bare (\<lambda>l bs. Some bs) (\<lambda>_. Some 7) (Inr [1, 2]) (Some \<lparr>threshold = 2, level = 4\<rparr>) Play = Some (Inr fv)"
    "fv_as_slice fv = [4, 3, 7, 1, 2]"
    by (simp add: from_bare_def write_vec_def write_packet_def from_data_def from_packet_data_def as_i32_def
        fv_new_def fv_capacity_def fv_extend_from_slice_def fv_len_def fv_as_slice_def varint_set_in_front_def
        fv_set_in_front_def varint_write_small varint_size_small VarInt_MAX_SIZE_def MAX_PACKET_DATA_SIZE_def)
  let ?d = "[4, 3, 7, 1, 2] :: byte list" and ?s0 = "stream_encryptor_new (5 :: byte) []"
  let ?s1 = "snd (stream_poll_write feedback_enc [Pending] ?s0 ?d)"
  let ?go = "stream_poll_write feedback_enc (replicate 5 (Ready (Inr 1))) ?s1 ?d"
  have "stream_poll_write feedback_enc [Pending] ?s0 (take 5 ?d) = (Pending, ?s1)"
    by (simp add: stream_poll_write_def stream_encryptor_new_def feedback_enc_def)
  then have wait: "sending feedback_enc ?s0 ?d ?s1 ?d" by (rule sending.not_ready [OF sending.start, rotated]) simp
  have "stream_poll_write feedback_enc (replicate 5 (Ready (Inr 1))) ?s1 (take 5 ?d) = (Ready (Inr 5), snd ?go)"
    by (simp add: stream_poll_write_def stream_encryptor_new_def feedback_enc_def eval_nat_numeral)
  from sending.accepted [OF wait _ this] have run: "sending feedback_enc ?s0 ?d (snd ?go) []" by (simp add: list_all_iff)
  have unwritten: "last_unwritten_encrypted_byte ?s1 \<noteq> None"
    by (simp add: stream_poll_write_def stream_encryptor_new_def feedback_enc_def)
  have small: "length b \<le> MAX_PACKET_SIZE" if "fv_as_slice fv = frame b" for b
    using arg_cong [OF that, of length] by (simp add: fv(2) frame_def MAX_PACKET_SIZE_def)
  from encrypted_packet_is_read_back [OF fv(1) _ _ small _ feedback_inverse, where zdec = "\<lambda>z. (z, True)"] run
  have "\<exists>p. get_raw_packet (\<lambda>z. (z, True)) (Some 2) (readable_bytes feedback_dec (Decrypt 5 (sink (snd ?go)))) = Inr (p, []) \<and> payload p = Some [1, 2]"
    unfolding fv(2) by fastforce
  with fv(1) wait unwritten run show ?thesis unfolding fv(2) [symmetric] by blast
qed

end
